(* ===== verification/Prelude.thy ===== *)
theory Prelude
  imports "HOL-Library.Word" "HOL-Library.Code_Target_Nat"
begin

text \<open>
  Shared vocabulary of the development: the machine types of the sources, \<open>size_t\<close>
  arithmetic, big- and little-endian byte strings with their numeric values, buffer writes,
  and the generic facts about words and lists that the component theories rely on.
\<close>

unbundle bit_operations_syntax

section \<open>Machine types\<close>

type_synonym u8 = "8 word"
type_synonym u16 = "16 word"
type_synonym u32 = "32 word"
type_synonym u64 = "64 word"
type_synonym bytes = "u8 list"

text \<open>
  A \<open>size_t\<close> (64 bits on the targets of the pods) is a natural number below \<open>2 ^ 64\<close>;
  an expression that may wrap around is passed through \<open>size_wrap\<close>. \<open>PTRDIFF_MAX\<close>
  bounds the size of every object that exists in memory.
\<close>

definition size_wrap :: "nat \<Rightarrow> nat" where
  "size_wrap n = n mod 2 ^ 64"

definition PTRDIFF_MAX :: nat where
  "PTRDIFF_MAX = 2 ^ 63 - 1"

definition INT_MAX :: nat where
  "INT_MAX = 2 ^ 31 - 1"

text \<open>The facts that turn word operations into arithmetic, and that decide small cases.\<close>

named_theorems word_arith "unat of the word operations the sources use"
named_theorems buf_simps "buffer writes and reads"

text \<open>\<open>byte n\<close> is the conversion \<open>(uint8_t) n\<close>.\<close>

definition byte :: "nat \<Rightarrow> u8" where
  "byte n = of_nat n"

section \<open>Byte strings and their values\<close>

definition be_val :: "bytes \<Rightarrow> nat" where
  "be_val bs = foldl (\<lambda>r b. r * 256 + unat b) 0 bs"

primrec be_bytes :: "nat \<Rightarrow> nat \<Rightarrow> bytes" where
  "be_bytes 0 v = []"
| "be_bytes (Suc n) v = be_bytes n (v div 256) @ [byte v]"

definition le_val :: "bytes \<Rightarrow> nat" where
  "le_val bs = be_val (rev bs)"

definition le_bytes :: "nat \<Rightarrow> nat \<Rightarrow> bytes" where
  "le_bytes n v = rev (be_bytes n v)"

text \<open>\<open>mem_write buf i xs\<close> is the buffer after \<open>memcpy (buf + i, xs, length xs)\<close>.\<close>

definition mem_write :: "'a list \<Rightarrow> nat \<Rightarrow> 'a list \<Rightarrow> 'a list" where
  "mem_write buf i xs = take i buf @ xs @ drop (i + length xs) buf"

section \<open>Lemmas\<close>

subsection \<open>Words\<close>

lemma size_wrap_less [simp]: "size_wrap n < 2 ^ 64"
  by (simp add: size_wrap_def)

lemma size_wrap_id [simp]: "n < 2 ^ 64 \<Longrightarrow> size_wrap n = n"
  by (simp add: size_wrap_def)

lemma size_wrap_add_overflow_iff:
  assumes "a < 2 ^ 64" "b < 2 ^ 64"
  shows "size_wrap (a + b) < a \<longleftrightarrow> 2 ^ 64 \<le> a + b"
  using assms unfolding size_wrap_def
  by (cases "a + b < 2 ^ 64") (auto simp: mod_if)

lemma unat_less_u8: "unat (b :: u8) < 256"
  using unsigned_less [of b, where ?'a = nat] by simp

lemma unat_byte [simp]: "unat (byte n) = n mod 256"
  by (simp add: byte_def unat_of_nat)

lemma byte_unat [simp]: "byte (unat b) = b"
  by (simp add: byte_def)

lemma byte_eq_iff: "b = byte n \<longleftrightarrow> unat b = n mod 256"
  by (simp add: word_eq_iff_unsigned [where ?'a = nat])

lemma byte_mod [simp]: "byte (n mod 256) = byte n"
  by (simp add: word_eq_iff_unsigned [where ?'a = nat])

lemma unat_eqI: "unat x = unat y \<Longrightarrow> x = y"
  by (simp add: word_eq_iff_unsigned [where ?'a = nat])

lemma unat_of_nat_u64: "n < 2 ^ 64 \<Longrightarrow> unat (of_nat n :: u64) = n"
  by (simp only: unat_of_nat) simp

lemma unat_of_nat_u32: "n < 2 ^ 32 \<Longrightarrow> unat (of_nat n :: u32) = n"
  by (simp only: unat_of_nat) simp

lemma sint_of_nat_u64:
  assumes "v < 2 ^ 64"
  shows "sint (of_nat v :: u64) = (if v < 2 ^ 63 then int v else int v - 2 ^ 64)"
proof -
  have "sint (of_nat v :: u64) = signed_take_bit 63 (int v)"
    using assms by (simp add: sint_uint uint_nat unat_of_nat)
  also have "\<dots> = int v - 2 ^ 64 * of_bool (bit (int v) 63)"
    using assms by (simp add: signed_take_bit_eq_take_bit_minus take_bit_int_eq_self)
  also have "bit (int v) 63 \<longleftrightarrow> \<not> v < 2 ^ 63"
  proof -
    have "bit (int v) 63 \<longleftrightarrow> odd (v div 2 ^ 63)"
      by (simp add: bit_of_nat_iff_bit bit_iff_odd [of v])
    moreover have "v div 2 ^ 63 < 2"
      using assms by (simp add: div_less_iff_less_mult)
    then have "v div 2 ^ 63 = 0 \<or> v div 2 ^ 63 = 1" by linarith
    ultimately show ?thesis
      by (auto simp: div_eq_0_iff)
  qed
  finally show ?thesis by simp
qed

lemma unat_ucast [word_arith]:
  "unat (ucast (w :: 'a::len word) :: 'b::len word) = unat w mod 2 ^ LENGTH('b)"
  by (simp add: unsigned_ucast_eq take_bit_nat_def)

lemma bit_lt_exp:
  fixes x :: "'a::len word"
  assumes "unat x < 2 ^ n" "bit x i"
  shows "i < n"
proof (rule ccontr)
  assume "\<not> i < n"
  have "take_bit n (unat x) = unat x"
    using assms(1) by (simp add: take_bit_nat_eq_self_iff)
  then have "\<not> bit (unat x) i"
    using \<open>\<not> i < n\<close> by (metis bit_take_bit_iff)
  then show False
    using assms(2) by (simp add: bit_unsigned_iff)
qed

lemma shift_or_plus:
  fixes r x :: "'a::len word"
  assumes "unat x < 2 ^ n"
  shows "push_bit n r OR x = push_bit n r + x"
proof -
  have "push_bit n r AND x = 0"
    by (rule bit_eqI) (auto simp: bit_simps dest: bit_lt_exp [OF assms])
  then show ?thesis
    by (simp add: disjunctive_add_eq_or)
qed

lemma unat_push_bit [word_arith]:
  "unat (push_bit n (r :: 'a::len word)) = unat r * 2 ^ n mod 2 ^ LENGTH('a)"
proof -
  have "(push_bit n r :: 'a word) = of_nat (unat r * 2 ^ n)"
    by (simp add: push_bit_eq_mult)
  then show ?thesis
    by (simp only: unat_of_nat)
qed

lemma unat_drop_bit [word_arith]:
  "unat (drop_bit n (r :: 'a::len word)) = unat r div 2 ^ n"
  by (simp add: unat_drop_bit_eq drop_bit_nat_def)

lemma unat_shift_or:
  fixes r x :: "'a::len word"
  assumes "unat x < 2 ^ n" "unat r * 2 ^ n + unat x < 2 ^ LENGTH('a)"
  shows "unat (push_bit n r OR x) = unat r * 2 ^ n + unat x"
proof -
  have "unat (push_bit n r) = unat r * 2 ^ n"
    using assms(2) by (simp add: unat_push_bit)
  then show ?thesis
    using assms by (simp add: shift_or_plus unat_word_ariths)
qed

lemma unat_and_mask [word_arith]:
  "unat ((r :: 'a::len word) AND mask n) = unat r mod 2 ^ n"
  by (simp flip: take_bit_eq_mask add: unsigned_take_bit_eq take_bit_nat_def)

lemma and_high_mask:
  fixes x :: "'a::len word"
  assumes "n + k = LENGTH('a)"
  shows "x AND push_bit n (mask k) = push_bit n (drop_bit n x)"
  by (rule bit_eqI) (use assms in \<open>auto simp: bit_simps\<close>)

lemma unat_and_high_mask:
  fixes x :: "'a::len word"
  assumes "n + k = LENGTH('a)"
  shows "unat (x AND push_bit n (mask k)) = unat x div 2 ^ n * 2 ^ n"
proof -
  have "unat x div 2 ^ n * 2 ^ n < 2 ^ LENGTH('a)"
    by (metis div_times_less_eq_dividend le_less_trans unsigned_less)
  then show ?thesis
    by (simp add: and_high_mask [OF assms] unat_push_bit unat_drop_bit)
qed

lemma or_plus_dvd:
  fixes x y :: "'a::len word"
  assumes "unat x < 2 ^ n" "2 ^ n dvd unat y"
  shows "y OR x = y + x"
proof -
  have "unat (push_bit n (drop_bit n y)) = unat y"
    using assms(2) by (simp add: unat_push_bit unat_drop_bit)
  then have "y = push_bit n (drop_bit n y)"
    by (simp add: word_eq_iff_unsigned [where ?'a = nat])
  then show ?thesis
    using shift_or_plus [OF assms(1), of "drop_bit n y"] by simp
qed

lemma unat_or_dvd:
  fixes x y :: "'a::len word"
  assumes "unat x < 2 ^ n" "2 ^ n dvd unat y" "unat y + unat x < 2 ^ LENGTH('a)"
  shows "unat (y OR x) = unat y + unat x"
  using assms by (simp add: or_plus_dvd unat_word_ariths)

subsection \<open>Single bytes\<close>

lemma u8_high_bit: "unat ((b :: u8) AND 0x80) = unat b div 128 * 128"
  using unat_and_high_mask [of 7 1 b] by (simp add: mask_eq_exp_minus_1)

lemma u8_high_bit_iff: "(b :: u8) AND 0x80 = 0 \<longleftrightarrow> unat b < 128"
proof -
  have "b AND 0x80 = 0 \<longleftrightarrow> unat b div 128 * 128 = 0"
    using u8_high_bit [of b] by (metis unat_0 unat_eqI)
  then show ?thesis by auto
qed

lemma u8_low7: "unat ((b :: u8) AND 0x7f) = unat b mod 128"
  using unat_and_mask [of b 7] by (simp add: mask_eq_exp_minus_1)

lemma mod128_high: "128 \<le> n \<Longrightarrow> n < 256 \<Longrightarrow> n mod 128 = n - (128 :: nat)"
  by (simp add: mod_if)

lemma mod_add_multiple: "x < m \<Longrightarrow> k mod m = 0 \<Longrightarrow> (k + x) mod m = (x :: nat)"
  by (metis add_0 mod_add_left_eq mod_less)

lemma div_add_multiple: "x < m \<Longrightarrow> k mod m = 0 \<Longrightarrow> (k + x) div m = k div (m :: nat)"
  by (auto simp: mod_eq_0_iff_dvd)

subsection \<open>Byte strings\<close>

lemma be_val_Nil [simp]: "be_val [] = 0"
  by (simp add: be_val_def)

lemma be_val_snoc [simp]: "be_val (bs @ [b]) = be_val bs * 256 + unat b"
  by (simp add: be_val_def)

lemma be_val_append: "be_val (xs @ ys) = be_val xs * 256 ^ length ys + be_val ys"
proof (induction ys rule: rev_induct)
  case (snoc y ys)
  have "be_val (xs @ ys @ [y]) = be_val ((xs @ ys) @ [y])"
    by simp
  also have "\<dots> = (be_val xs * 256 ^ length ys + be_val ys) * 256 + unat y"
    using snoc by (simp only: be_val_snoc)
  finally show ?case
    by (simp add: algebra_simps)
qed simp

lemma be_val_Cons: "be_val (b # bs) = unat b * 256 ^ length bs + be_val bs"
  using be_val_append [of "[b]" bs] be_val_snoc [of "[]" b] by simp

lemma be_val_less: "be_val bs < 256 ^ length bs"
proof (induction bs rule: rev_induct)
  case (snoc b bs)
  then show ?case using unat_less_u8 [of b] by simp
qed simp

lemma length_be_bytes [simp]: "length (be_bytes n v) = n"
  by (induction n arbitrary: v) auto

lemma be_val_be_bytes: "be_val (be_bytes n v) = v mod 256 ^ n"
proof (induction n arbitrary: v)
  case (Suc n)
  have "v mod 256 ^ Suc n = (v div 256 mod 256 ^ n) * 256 + v mod 256"
    by (simp add: mod_mult2_eq)
  then show ?case
    by (simp add: Suc)
qed simp

lemma be_bytes_be_val: "be_bytes (length bs) (be_val bs) = bs"
proof (induction bs rule: rev_induct)
  case (snoc b bs)
  have "(be_val bs * 256 + unat b) div 256 = be_val bs"
    using unat_less_u8 [of b] by simp
  moreover have "byte (be_val bs * 256 + unat b) = b"
    by (rule unat_eqI) (simp add: unat_less_u8)
  ultimately show ?case
    using snoc by simp
qed simp

lemma be_val_inject: "length xs = length ys \<Longrightarrow> be_val xs = be_val ys \<Longrightarrow> xs = ys"
  by (metis be_bytes_be_val)

lemma length_le_bytes [simp]: "length (le_bytes n v) = n"
  by (simp add: le_bytes_def)

lemma le_val_le_bytes: "le_val (le_bytes n v) = v mod 256 ^ n"
  by (simp add: le_val_def le_bytes_def be_val_be_bytes)

lemma le_bytes_le_val: "le_bytes (length bs) (le_val bs) = bs"
  using be_bytes_be_val [of "rev bs"] by (simp add: le_val_def le_bytes_def)

lemma le_val_Cons [simp]: "le_val (b # bs) = unat b + 256 * le_val bs"
  by (simp add: le_val_def)

lemma le_val_Nil [simp]: "le_val [] = 0"
  by (simp add: le_val_def)

lemma le_val_less: "le_val bs < 256 ^ length bs"
  using be_val_less [of "rev bs"] by (simp add: le_val_def)

subsection \<open>Buffer writes\<close>

lemma length_mem_write [simp, buf_simps]:
  "i + length xs \<le> length buf \<Longrightarrow> length (mem_write buf i xs) = length buf"
  by (simp add: mem_write_def)

lemma take_mem_write [buf_simps]:
  "i + length xs \<le> length buf \<Longrightarrow> take (i + length xs) (mem_write buf i xs) = take i buf @ xs"
  by (simp add: mem_write_def)

lemma take_mem_write_before [buf_simps]:
  "j \<le> i \<Longrightarrow> i \<le> length buf \<Longrightarrow> take j (mem_write buf i xs) = take j buf"
  by (simp add: mem_write_def min_absorb1)

lemma mem_write_nth [buf_simps]: "i < length buf \<Longrightarrow> mem_write buf i [x] = buf[i := x]"
  by (simp add: mem_write_def upd_conv_take_nth_drop)

end
