(* ===== verification/Mem.thy ===== *)
theory Mem
  imports Prelude
begin

text \<open>
  \<^verbatim>\<open>crypto/mem.c\<close>: the size-prefixed allocator, wiping on free, the constant-time
  comparison, the FNV-1a hash and the bounded C string helpers.

  The C library's \<open>malloc\<close> is a parameter: \<open>malloc n\<close> is \<open>None\<close> for a failed call and
  \<open>Some p\<close> for a fresh block whose indeterminate contents are \<open>p\<close>. An OpenSSL pointer is
  the block it points into, the eight prefix bytes included; \<open>payload\<close> is what the caller
  sees. A C string is the list of its bytes before the terminator, or a buffer whose first
  zero byte ends the string.
\<close>

section \<open>Model\<close>

definition malloc_spec :: "(nat \<Rightarrow> bytes option) \<Rightarrow> bool" where
  "malloc_spec malloc \<longleftrightarrow> (\<forall>n p. malloc n = Some p \<longrightarrow> length p = n \<and> n \<le> PTRDIFF_MAX)"

definition OPENSSL_MALLOC_PREFIX :: nat where
  "OPENSSL_MALLOC_PREFIX = 8"

definition OPENSSL_malloc :: "(nat \<Rightarrow> bytes option) \<Rightarrow> nat \<Rightarrow> bytes option" where
  "OPENSSL_malloc malloc sz =
     (case malloc (size_wrap (sz + OPENSSL_MALLOC_PREFIX)) of
        None \<Rightarrow> None
      | Some ptr \<Rightarrow> Some (mem_write ptr 0 (le_bytes 8 sz)))"

definition payload :: "bytes \<Rightarrow> bytes" where
  "payload blk = drop OPENSSL_MALLOC_PREFIX blk"

text \<open>The size stored in the prefix, and the block that holds given contents.\<close>

definition block_size :: "bytes \<Rightarrow> nat" where
  "block_size blk = le_val (take 8 blk)"

definition mk_block :: "bytes \<Rightarrow> bytes" where
  "mk_block data = le_bytes 8 (length data) @ data"

definition OPENSSL_cleanse :: "bytes \<Rightarrow> nat \<Rightarrow> bytes" where
  "OPENSSL_cleanse ptr len = mem_write ptr 0 (replicate len 0)"

text \<open>
  The result is the memory handed back to \<open>sdallocx\<close>; \<open>None\<close> for the null pointer. The sum of the size and
  the prefix is not wrapped: the block that the pointer points into exists, so that it is less than \<open>2 ^ 63\<close>.
\<close>

definition OPENSSL_free :: "bytes option \<Rightarrow> bytes option" where
  "OPENSSL_free orig_ptr =
     (case orig_ptr of
        None \<Rightarrow> None
      | Some ptr \<Rightarrow> Some (OPENSSL_cleanse ptr (block_size ptr + OPENSSL_MALLOC_PREFIX)))"

text \<open>
  The result is the new block (\<open>None\<close> for a failed call, the old block then stays as it
  is) and the old block as it is returned to the allocator.
\<close>

definition OPENSSL_realloc ::
    "(nat \<Rightarrow> bytes option) \<Rightarrow> bytes option \<Rightarrow> nat \<Rightarrow> bytes option \<times> bytes option" where
  "OPENSSL_realloc malloc orig_ptr new_size =
     (case orig_ptr of
        None \<Rightarrow> (OPENSSL_malloc malloc new_size, None)
      | Some ptr \<Rightarrow>
          (let old_size = block_size ptr in
           case OPENSSL_malloc malloc new_size of
             None \<Rightarrow> (None, None)
           | Some ret \<Rightarrow>
               (let to_copy = (if old_size < new_size then old_size else new_size) in
                (Some (mem_write ret OPENSSL_MALLOC_PREFIX (take to_copy (payload ptr))),
                 OPENSSL_free orig_ptr))))"

definition OPENSSL_clear_free :: "bytes option \<Rightarrow> nat \<Rightarrow> bytes option" where
  "OPENSSL_clear_free ptr unused = OPENSSL_free ptr"

definition CRYPTO_memcmp :: "bytes \<Rightarrow> bytes \<Rightarrow> nat \<Rightarrow> u8" where
  "CRYPTO_memcmp a b len = foldl (\<lambda>x i. x OR (a ! i XOR b ! i)) 0 [0..<len]"

definition OPENSSL_hash32 :: "bytes \<Rightarrow> nat \<Rightarrow> u32" where
  "OPENSSL_hash32 ptr len =
     foldl (\<lambda>h b. (h XOR ucast b) * 16777619) 2166136261 (take len ptr)"

function strnlen_loop :: "bytes \<Rightarrow> nat \<Rightarrow> nat \<Rightarrow> nat" where
  "strnlen_loop s len i =
     (if i < len then (if s ! i = 0 then i else strnlen_loop s len (Suc i)) else len)"
  by pat_completeness auto
termination
  by (relation "measure (\<lambda>(s, len, i). len - i)") auto

definition OPENSSL_strnlen :: "bytes \<Rightarrow> nat \<Rightarrow> nat" where
  "OPENSSL_strnlen s len = strnlen_loop s len 0"

definition strlen :: "bytes \<Rightarrow> nat" where
  "strlen s = length (takeWhile (\<lambda>c. c \<noteq> 0) s)"

text \<open>A \<open>char *\<close> argument that may be null is an option; the copy is a block.\<close>

definition OPENSSL_strdup :: "(nat \<Rightarrow> bytes option) \<Rightarrow> bytes option \<Rightarrow> bytes option" where
  "OPENSSL_strdup malloc str =
     (case str of
        None \<Rightarrow> None
      | Some s \<Rightarrow>
          (let len = strlen s + 1 in
           case OPENSSL_malloc malloc len of
             None \<Rightarrow> None
           | Some ret \<Rightarrow>
               Some (mem_write ret OPENSSL_MALLOC_PREFIX
                      (takeWhile (\<lambda>c. c \<noteq> 0) s @ [0]))))"

definition OPENSSL_tolower :: "int \<Rightarrow> int" where
  "OPENSSL_tolower c = (if c \<ge> 65 \<and> c \<le> 90 then c + (97 - 65) else c)"

text \<open>\<open>char\<close> is signed; reading at the end of a string gives its terminator.\<close>

definition char_hd :: "bytes \<Rightarrow> int" where
  "char_hd s = (case s of [] \<Rightarrow> 0 | c # _ \<Rightarrow> sint c)"

function OPENSSL_strcasecmp :: "bytes \<Rightarrow> bytes \<Rightarrow> int" where
  "OPENSSL_strcasecmp a b =
     (let aa = OPENSSL_tolower (char_hd a); bb = OPENSSL_tolower (char_hd b) in
      if aa < bb then -1
      else if aa > bb then 1
      else if aa = 0 then 0
      else OPENSSL_strcasecmp (tl a) (tl b))"
  by pat_completeness auto
termination
  by (relation "measure (\<lambda>(a, b). length a)")
     (auto simp: char_hd_def OPENSSL_tolower_def split: list.splits)

fun OPENSSL_strncasecmp :: "bytes \<Rightarrow> bytes \<Rightarrow> nat \<Rightarrow> int" where
  "OPENSSL_strncasecmp a b 0 = 0"
| "OPENSSL_strncasecmp a b (Suc n) =
     (let aa = OPENSSL_tolower (char_hd a); bb = OPENSSL_tolower (char_hd b) in
      if aa < bb then -1
      else if aa > bb then 1
      else if aa = 0 then 0
      else OPENSSL_strncasecmp (tl a) (tl b) n)"

definition OPENSSL_strndup :: "(nat \<Rightarrow> bytes option) \<Rightarrow> bytes option \<Rightarrow> nat \<Rightarrow> bytes option" where
  "OPENSSL_strndup malloc str max_size =
     (case str of
        None \<Rightarrow> None
      | Some s \<Rightarrow>
          (let sz = OPENSSL_strnlen s max_size; alloc_size = size_wrap (sz + 1) in
           if alloc_size < sz then None
           else case OPENSSL_malloc malloc alloc_size of
             None \<Rightarrow> None
           | Some ret \<Rightarrow> Some (mem_write ret OPENSSL_MALLOC_PREFIX (take sz s @ [0]))))"

text \<open>
  \<open>strlcpy_loop dst src i dst_size\<close> is the copying loop at the moment when \<open>i\<close> bytes are
  written and \<open>dst_size\<close> is what is left; it returns the pair of the number of bytes copied
  in all and the buffer.
\<close>

fun strlcpy_loop :: "bytes \<Rightarrow> bytes \<Rightarrow> nat \<Rightarrow> nat \<Rightarrow> nat \<times> bytes" where
  "strlcpy_loop dst [] i dst_size =
     (i, if dst_size \<noteq> 0 then dst[i := 0] else dst)"
| "strlcpy_loop dst (c # src) i dst_size =
     (if dst_size > 1 \<and> c \<noteq> 0 then strlcpy_loop (dst[i := c]) src (Suc i) (dst_size - 1)
      else (i, if dst_size \<noteq> 0 then dst[i := 0] else dst))"

definition OPENSSL_strlcpy :: "bytes \<Rightarrow> bytes \<Rightarrow> nat \<Rightarrow> nat \<times> bytes" where
  "OPENSSL_strlcpy dst src dst_size =
     (let (l, dst') = strlcpy_loop dst src 0 dst_size
      in (l + strlen (drop l src), dst'))"

fun strlcat_loop :: "bytes \<Rightarrow> nat \<Rightarrow> nat" where
  "strlcat_loop [] dst_size = 0"
| "strlcat_loop (c # dst) dst_size =
     (if dst_size > 0 \<and> c \<noteq> 0 then Suc (strlcat_loop dst (dst_size - 1)) else 0)"

definition OPENSSL_strlcat :: "bytes \<Rightarrow> bytes \<Rightarrow> nat \<Rightarrow> nat \<times> bytes" where
  "OPENSSL_strlcat dst src dst_size =
     (let l = strlcat_loop dst dst_size;
          (r, tail) = OPENSSL_strlcpy (drop l dst) src (dst_size - l)
      in (l + r, take l dst @ tail))"

definition OPENSSL_memdup :: "(nat \<Rightarrow> bytes option) \<Rightarrow> bytes \<Rightarrow> nat \<Rightarrow> bytes option" where
  "OPENSSL_memdup malloc data sz =
     (if sz = 0 then None
      else case OPENSSL_malloc malloc sz of
        None \<Rightarrow> None
      | Some ret \<Rightarrow> Some (mem_write ret OPENSSL_MALLOC_PREFIX (take sz data)))"

declare strnlen_loop.simps [simp del] OPENSSL_strcasecmp.simps [simp del]

section \<open>Blocks of the size-prefixed allocator\<close>

definition block_wf :: "bytes \<Rightarrow> bool" where
  "block_wf blk \<longleftrightarrow> length blk = block_size blk + OPENSSL_MALLOC_PREFIX"

lemma mk_block_wf [simp]: "length data < 2 ^ 64 \<Longrightarrow> block_wf (mk_block data)"
  by (simp add: block_wf_def mk_block_def block_size_def le_val_le_bytes OPENSSL_MALLOC_PREFIX_def)

lemma block_size_mk_block [simp]: "length data < 2 ^ 64 \<Longrightarrow> block_size (mk_block data) = length data"
  by (simp add: mk_block_def block_size_def le_val_le_bytes)

lemma payload_mk_block [simp]: "payload (mk_block data) = data"
  by (simp add: payload_def mk_block_def OPENSSL_MALLOC_PREFIX_def)

lemma length_payload [simp]: "length (payload blk) = length blk - OPENSSL_MALLOC_PREFIX"
  by (simp add: payload_def)

text \<open>A successful allocation that does not wrap around has the size that was asked for.\<close>

lemma OPENSSL_malloc_Some:
  assumes "malloc_spec malloc" "sz + 8 < 2 ^ 64" "OPENSSL_malloc malloc sz = Some blk"
  shows "length blk = sz + 8" "block_size blk = sz" "block_wf blk" "sz + 8 \<le> PTRDIFF_MAX"
proof -
  obtain p where p: "malloc (sz + 8) = Some p" "blk = mem_write p 0 (le_bytes 8 sz)"
    using assms(2,3) by (auto simp: OPENSSL_malloc_def OPENSSL_MALLOC_PREFIX_def split: option.splits)
  with assms(1) have len: "length p = sz + 8" and "sz + 8 \<le> PTRDIFF_MAX"
    by (auto simp: malloc_spec_def)
  then show "length blk = sz + 8" "sz + 8 \<le> PTRDIFF_MAX"
    by (simp_all add: p)
  show bs: "block_size blk = sz"
    using assms(2) len by (simp add: p block_size_def mem_write_def le_val_le_bytes)
  show "block_wf blk"
    using len by (simp add: block_wf_def bs OPENSSL_MALLOC_PREFIX_def) (simp add: p)
qed

lemma block_size_mem_write [simp]:
  "block_wf blk \<Longrightarrow> block_size (mem_write blk OPENSSL_MALLOC_PREFIX xs) = block_size blk"
  by (simp add: block_size_def mem_write_def OPENSSL_MALLOC_PREFIX_def block_wf_def)

lemma block_wf_mem_write [simp]:
  "block_wf blk \<Longrightarrow> length xs \<le> block_size blk \<Longrightarrow>
   block_wf (mem_write blk OPENSSL_MALLOC_PREFIX xs)"
  by (simp add: block_wf_def)

lemma payload_mem_write:
  "block_wf blk \<Longrightarrow> length xs \<le> block_size blk \<Longrightarrow>
   payload (mem_write blk OPENSSL_MALLOC_PREFIX xs) = xs @ drop (length xs) (payload blk)"
  by (simp add: payload_def mem_write_def block_wf_def add.commute)

text \<open>
  Growing a block keeps its contents: the new payload has the new size and starts with the old
  one. This is what \<open>cbb_buffer_reserve\<close>, \<open>BUF_MEM_reserve\<close> and \<open>sk_insert\<close> rely on.
\<close>

lemma OPENSSL_realloc_grow:
  assumes "malloc_spec malloc" "length data \<le> n" "n + 8 < 2 ^ 64"
    and "OPENSSL_realloc malloc (Some (mk_block data)) n = (Some blk, old)"
  shows "length (payload blk) = n" "take (length data) (payload blk) = data"
    "n + 8 \<le> PTRDIFF_MAX"
proof -
  have len: "length data < 2 ^ 64"
    using assms(2,3) by linarith
  obtain ret where ret: "OPENSSL_malloc malloc n = Some ret"
    and blk: "blk = mem_write ret OPENSSL_MALLOC_PREFIX data"
    using assms(2,4) len
    by (auto simp: OPENSSL_realloc_def Let_def split: option.splits if_splits)
  note m = OPENSSL_malloc_Some [OF assms(1,3) ret]
  have "payload blk = data @ drop (length data) (payload ret)"
    using m assms(2) by (simp add: blk payload_mem_write)
  then show "length (payload blk) = n" "take (length data) (payload blk) = data"
    using m assms(2) by (simp_all add: OPENSSL_MALLOC_PREFIX_def)
  show "n + 8 \<le> PTRDIFF_MAX"
    by (rule m)
qed

section \<open>Comparison\<close>

lemma memcmp_fold:
  "foldl (\<lambda>x i. x OR (a ! i XOR b ! i)) x0 is = 0 \<longleftrightarrow>
   x0 = (0 :: u8) \<and> (\<forall>i \<in> set is. a ! i = b ! i)"
proof (induction "is" arbitrary: x0)
  case (Cons i "is")
  have "x0 OR (a ! i XOR b ! i) = 0 \<longleftrightarrow> x0 = 0 \<and> a ! i = b ! i"
    by (auto simp: bit_eq_iff bit_simps)
  then show ?case
    using Cons by auto
qed simp

lemma CRYPTO_memcmp_eq:
  "length a = n \<Longrightarrow> length b = n \<Longrightarrow> CRYPTO_memcmp a b n = 0 \<longleftrightarrow> a = b"
  unfolding CRYPTO_memcmp_def memcmp_fold
  by (simp add: list_eq_iff_nth_eq Ball_def)

section \<open>Bounded string operations\<close>

lemma strnlen_loop_eq:
  "n \<le> length s \<Longrightarrow> i \<le> n \<Longrightarrow>
   strnlen_loop s n i = i + length (takeWhile (\<lambda>c. c \<noteq> 0) (take (n - i) (drop i s)))"
proof (induction s n i rule: strnlen_loop.induct)
  case (1 s n i)
  show ?case
  proof (cases "i < n")
    case True
    then have "take (n - i) (drop i s) = s ! i # take (n - Suc i) (drop (Suc i) s)"
      using "1.prems" by (simp add: Cons_nth_drop_Suc [symmetric] take_Cons' )
    with True 1 show ?thesis
      by (subst strnlen_loop.simps) auto
  next
    case False
    with "1.prems" show ?thesis
      by (subst strnlen_loop.simps) auto
  qed
qed

lemma OPENSSL_strnlen_eq:
  "n \<le> length s \<Longrightarrow> OPENSSL_strnlen s n = strlen (take n s)"
  by (simp add: OPENSSL_strnlen_def strnlen_loop_eq strlen_def)

lemma strlcpy_loop_eq:
  assumes "i + n \<le> length dst" "0 \<notin> set src"
  shows "strlcpy_loop dst src i n =
     (i + min (length src) (n - 1),
      if n = 0 then dst
      else mem_write dst i (take (n - 1) src @ [0]))"
  using assms
proof (induction dst src i n rule: strlcpy_loop.induct)
  case (1 dst i n)
  then show ?case
    by (simp add: mem_write_nth)
next
  case (2 dst c src i n)
  show ?case
  proof (cases "n > 1")
    case True
    with 2 have "strlcpy_loop (dst[i := c]) src (Suc i) (n - 1) =
        (Suc i + min (length src) (n - 1 - 1),
         mem_write (dst[i := c]) (Suc i) (take (n - 1 - 1) src @ [0]))"
      by auto
    moreover have "mem_write (dst[i := c]) (Suc i) (take (n - 1 - 1) src @ [0]) =
        mem_write dst i (take (n - 1) (c # src) @ [0])"
      using True "2.prems"
      by (simp add: mem_write_def take_Suc_conv_app_nth drop_update_cancel take_Cons'
          take_update_cancel)
    ultimately show ?thesis
      using True "2.prems" by auto
  next
    case False
    then show ?thesis
      using "2.prems" by (cases n) (auto simp: mem_write_nth)
  qed
qed


section \<open>Properties\<close>

text \<open>
  C14. \<open>OPENSSL_free\<close> returns a block to the allocator with every byte set to zero, the size
  prefix included.
\<close>

theorem OPENSSL_free_wipes:
  assumes "block_wf blk"
  shows "OPENSSL_free (Some blk) = Some (replicate (length blk) 0)"
  using assms by (simp add: OPENSSL_free_def OPENSSL_cleanse_def mem_write_def block_wf_def)

theorem OPENSSL_free_wipes_witness:
  "OPENSSL_free (Some (mk_block [1, 2, 3])) = Some (replicate (length (mk_block [1, 2, 3])) 0)"
  by (rule OPENSSL_free_wipes) simp

text \<open>
  C15. \<open>OPENSSL_realloc\<close> of a block gives a block of the new size that starts with the old
  contents as far as they fit, and the old block is wiped.
\<close>

theorem OPENSSL_realloc_copies:
  assumes "malloc_spec malloc" "length data < 2 ^ 64" "n + 8 < 2 ^ 64"
    and "OPENSSL_realloc malloc (Some (mk_block data)) n = (Some blk, old)"
  shows "length (payload blk) = n \<and> block_size blk = n \<and>
     take (min n (length data)) (payload blk) = take n data \<and>
     old = Some (replicate (length data + 8) 0)"
proof -
  let ?c = "take (if length data < n then length data else n) data"
  obtain ret where ret: "OPENSSL_malloc malloc n = Some ret"
    and blk: "blk = mem_write ret OPENSSL_MALLOC_PREFIX ?c"
    and old: "old = OPENSSL_free (Some (mk_block data))"
    using assms(2,4) by (auto simp: OPENSSL_realloc_def Let_def split: option.splits)
  note m = OPENSSL_malloc_Some [OF assms(1,3) ret]
  have c: "length ?c \<le> block_size ret" "?c = take n data" "length ?c = min n (length data)"
    using m(2) by auto
  have "payload blk = ?c @ drop (length ?c) (payload ret)"
    unfolding blk using m(3) c(1) by (rule payload_mem_write)
  then have "length (payload blk) = n" "take (min n (length data)) (payload blk) = take n data"
    using m(1) c by (simp_all add: OPENSSL_MALLOC_PREFIX_def min_def)
  moreover have "block_size blk = n"
    unfolding blk using m by simp
  moreover have "old = Some (replicate (length data + 8) 0)"
    using assms(2) by (simp add: old OPENSSL_free_def OPENSSL_cleanse_def mem_write_def mk_block_def
        block_size_def le_val_le_bytes OPENSSL_MALLOC_PREFIX_def)
  ultimately show ?thesis by simp
qed

theorem OPENSSL_realloc_copies_witness:
  "let m = (\<lambda>n. if n \<le> 100 then Some (replicate n 0xa5) else None);
       r = OPENSSL_realloc m (Some (mk_block [1, 2, 3])) 2
   in length (payload (the (fst r))) = 2 \<and> block_size (the (fst r)) = 2 \<and>
      take (min 2 (length [1, 2, 3 :: u8])) (payload (the (fst r))) = take 2 [1, 2, 3] \<and>
      snd r = Some (replicate (length [1, 2, 3 :: u8] + 8) 0)"
proof -
  let ?m = "\<lambda>n. if n \<le> 100 then Some (replicate n 0xa5) else None"
  let ?r = "OPENSSL_realloc ?m (Some (mk_block [1, 2, 3])) 2"
  have "fst ?r \<noteq> None" by code_simp
  then have "?r = (Some (the (fst ?r)), snd ?r)" by (simp add: prod_eq_iff)
  moreover have "malloc_spec ?m" by (simp add: malloc_spec_def PTRDIFF_MAX_def)
  ultimately show ?thesis
    unfolding Let_def by (intro OPENSSL_realloc_copies) simp_all
qed

text \<open>
  C16. \<open>OPENSSL_malloc\<close> does not check its addition for wrap-around: for the eight largest
  sizes it asks the C library for fewer than eight bytes and reports success.
\<close>

theorem OPENSSL_malloc_wraps:
  assumes "malloc_spec malloc" "2 ^ 64 - 8 \<le> sz" "sz < 2 ^ 64" "malloc (sz + 8 - 2 ^ 64) = Some p"
  shows "OPENSSL_malloc malloc sz \<noteq> None \<and> length p < 8"
proof -
  have "size_wrap (sz + 8) = sz + 8 - 2 ^ 64"
    using assms(2,3) by (simp add: size_wrap_def mod_if)
  moreover have "length p = sz + 8 - 2 ^ 64"
    using assms(1,4) by (auto simp: malloc_spec_def)
  ultimately show ?thesis
    using assms(3,4) by (simp add: OPENSSL_malloc_def OPENSSL_MALLOC_PREFIX_def)
qed

theorem OPENSSL_malloc_wraps_witness:
  "OPENSSL_malloc (\<lambda>n. if n \<le> 100 then Some (replicate n 0xa5) else None) (2 ^ 64 - 1) \<noteq> None \<and>
   length (replicate 7 (0xa5 :: u8)) < 8"
proof (rule OPENSSL_malloc_wraps)
  show "malloc_spec (\<lambda>n. if n \<le> 100 then Some (replicate n 0xa5) else None)"
    by (simp add: malloc_spec_def PTRDIFF_MAX_def)
qed simp_all

text \<open>
  \<open>CRYPTO_memcmp\<close> of two strings of the given length is zero exactly when they are equal.
\<close>

theorem CRYPTO_memcmp_zero_iff:
  assumes "length a = n" "length b = n"
  shows "CRYPTO_memcmp a b n = 0 \<longleftrightarrow> a = b"
  using assms by (rule CRYPTO_memcmp_eq)

theorem CRYPTO_memcmp_zero_iff_witness:
  "CRYPTO_memcmp [1, 2] [1, 3] 2 = 0 \<longleftrightarrow> [1, 2] = [1, 3 :: u8]"
  by (rule CRYPTO_memcmp_zero_iff) simp_all

text \<open>
  \<open>OPENSSL_strlcpy\<close> copies as much of the source as fits, always terminates a buffer that
  is not empty, writes nowhere else, and returns the length of the source.
\<close>

theorem OPENSSL_strlcpy_bounded:
  assumes "n \<le> length dst" "0 \<notin> set src"
  shows "OPENSSL_strlcpy dst (src @ 0 # rest) n =
     (length src, if n = 0 then dst else mem_write dst 0 (take (n - 1) src @ [0]))"
proof -
  have stop: "strlcpy_loop d (s @ 0 # rest) i k = strlcpy_loop d s i k" if "0 \<notin> set s" for d s i k
    using that by (induction d s i k rule: strlcpy_loop.induct) auto
  have "takeWhile (\<lambda>c. c \<noteq> 0) (drop k src @ 0 # rest) = drop k src" for k
    using assms(2) in_set_dropD [of 0 k src] by (subst takeWhile_append2) auto
  then have "strlen (drop (min (length src) (n - 1)) (src @ 0 # rest)) = length src - min (length src) (n - 1)"
    by (simp add: strlen_def)
  then show ?thesis
    using assms by (simp add: OPENSSL_strlcpy_def stop strlcpy_loop_eq)
qed

theorem OPENSSL_strlcpy_bounded_witness:
  "OPENSSL_strlcpy [9, 9, 9] ([1, 2, 3, 4] @ 0 # []) 3 =
     (length [1, 2, 3, 4 :: u8], if (3 :: nat) = 0 then [9, 9, 9]
       else mem_write [9, 9, 9] 0 (take (3 - 1) [1, 2, 3, 4] @ [0]))"
  by (rule OPENSSL_strlcpy_bounded) simp_all

end
