(* ===== verification/Der.thy ===== *)
theory Der
  imports Prelude
begin

text \<open>
  The abstract specification that the byte-string readers and builders implement: the
  distinguished encoding (X.690) of identifiers, lengths and whole elements, as functions from
  values to byte strings. Every value has exactly one encoding.
\<close>

section \<open>Base-128 integers\<close>

fun base128_hi :: "nat \<Rightarrow> bytes" where
  "base128_hi v = (if v = 0 then [] else base128_hi (v div 128) @ [byte (128 + v mod 128)])"

definition base128 :: "nat \<Rightarrow> bytes" where
  "base128 v = base128_hi (v div 128) @ [byte (v mod 128)]"

declare base128_hi.simps [simp del]

lemma base128_hi_0 [simp]: "base128_hi 0 = []"
  by (simp add: base128_hi.simps)

lemma base128_hi_step:
  assumes "d < 128" "\<not> (w = 0 \<and> d = 0)"
  shows "base128_hi (w * 128 + d) = base128_hi w @ [byte (128 + d)]"
proof -
  have "(w * 128 + d) div 128 = w" "(w * 128 + d) mod 128 = d" "w * 128 + d \<noteq> 0"
    using assms by auto
  then show ?thesis
    by (subst base128_hi.simps) simp
qed

lemma base128_step: "d < 128 \<Longrightarrow> base128 (w * 128 + d) = base128_hi w @ [byte d]"
  by (simp add: base128_def)

section \<open>Identifier octets\<close>

text \<open>
  A tag is the 32-bit value of the code base: class and constructed bit in the top three bits,
  the tag number in the other 29.
\<close>

definition tag_class :: "u32 \<Rightarrow> nat" where
  "tag_class tag = unat tag div 2 ^ 29"

definition tag_num :: "u32 \<Rightarrow> nat" where
  "tag_num tag = unat tag mod 2 ^ 29"

definition der_tag :: "u32 \<Rightarrow> bytes" where
  "der_tag tag =
     (if tag_num tag < 31 then [byte (tag_class tag * 32 + tag_num tag)]
      else byte (tag_class tag * 32 + 31) # base128 (tag_num tag))"

section \<open>Length octets\<close>

fun octets :: "nat \<Rightarrow> nat" where
  "octets n = (if n = 0 then 0 else Suc (octets (n div 256)))"

declare octets.simps [simp del]

definition der_length :: "nat \<Rightarrow> bytes" where
  "der_length n =
     (if n < 128 then [byte n] else byte (128 + octets n) # be_bytes (octets n) n)"

section \<open>Elements\<close>

definition der_header :: "u32 \<Rightarrow> nat \<Rightarrow> bytes" where
  "der_header tag len = der_tag tag @ der_length len"

definition der_element :: "u32 \<Rightarrow> bytes \<Rightarrow> bytes" where
  "der_element tag body = der_header tag (length body) @ body"

section \<open>Lemmas\<close>

lemma octets_0 [simp]: "octets 0 = 0"
  by (simp add: octets.simps)

lemma octets_pos: "n \<noteq> 0 \<Longrightarrow> octets n = Suc (octets (n div 256))"
  by (subst octets.simps) simp

lemma octets_gt_0 [simp]: "0 < octets n \<longleftrightarrow> n \<noteq> 0"
  by (cases "n = 0") (simp_all add: octets_pos)

lemma octets_bound: "n < 256 ^ octets n"
proof (induction n rule: octets.induct)
  case (1 n)
  show ?case
  proof (cases "n = 0")
    case False
    with 1 have "n div 256 < 256 ^ octets (n div 256)" by simp
    then have "n < 256 ^ octets (n div 256) * 256"
      by (simp add: div_less_iff_less_mult)
    with False show ?thesis
      by (simp add: octets_pos mult.commute)
  qed simp
qed

lemma octets_eqI:
  assumes "256 ^ k \<le> n" "n < 256 ^ Suc k"
  shows "octets n = Suc k"
  using assms
proof (induction k arbitrary: n)
  case 0
  then show ?case by (simp add: octets_pos)
next
  case (Suc k)
  from Suc.prems have "256 ^ k \<le> n div 256" "n div 256 < 256 ^ Suc k"
    by (simp_all add: div_less_iff_less_mult less_eq_div_iff_mult_less_eq mult.commute)
  then have "octets (n div 256) = Suc k"
    by (rule Suc.IH)
  moreover have "n \<noteq> 0"
    using Suc.prems(1) by (metis not_one_le_zero one_le_power power_eq_0_iff
        le_zero_eq zero_neq_numeral)
  ultimately show ?case
    by (simp add: octets_pos)
qed

lemma octets_le: "n < 256 ^ k \<Longrightarrow> octets n \<le> k"
proof (induction k arbitrary: n)
  case (Suc k)
  then have "n div 256 < 256 ^ k"
    by (simp add: div_less_iff_less_mult mult.commute)
  with Suc.IH show ?case
    by (cases "n = 0") (simp_all add: octets_pos)
qed simp

lemma octets_lower: "n \<noteq> 0 \<Longrightarrow> 256 ^ (octets n - 1) \<le> n"
proof (induction n rule: octets.induct)
  case (1 n)
  show ?case
  proof (cases "n div 256 = 0")
    case True
    with 1 show ?thesis by (simp add: octets_pos)
  next
    case False
    with 1 have "256 ^ (octets (n div 256) - 1) \<le> n div 256" by simp
    then have "256 ^ (octets (n div 256) - 1) * 256 \<le> n"
      by (simp add: less_eq_div_iff_mult_less_eq)
    moreover from False have "octets (n div 256) = Suc (octets (n div 256) - 1)"
      by (simp add: octets_pos)
    ultimately have "256 ^ octets (n div 256) \<le> n"
      by (metis power_Suc mult.commute)
    with 1 show ?thesis by (simp add: octets_pos)
  qed
qed

lemma length_der_length: "length (der_length n) = (if n < 128 then 1 else Suc (octets n))"
  by (simp add: der_length_def)

lemma der_tag_nonempty [simp]: "der_tag tag \<noteq> []"
  by (simp add: der_tag_def)

lemma der_length_nonempty [simp]: "der_length n \<noteq> []"
  by (simp add: der_length_def)

lemma tag_split: "unat tag = tag_class tag * 2 ^ 29 + tag_num tag"
  unfolding tag_class_def tag_num_def by (rule div_mult_mod_eq [symmetric])

lemma tag_class_less: "tag_class tag < 8"
  using unsigned_less [of tag, where ?'a = nat] by (simp add: tag_class_def less_mult_imp_div_less)

lemma tag_num_less: "tag_num tag < 2 ^ 29"
  by (simp add: tag_num_def)

lemma tag_eqI: "tag_class s = tag_class t \<Longrightarrow> tag_num s = tag_num t \<Longrightarrow> s = t"
  by (metis tag_split word_eq_iff_unsigned)

section \<open>Integers\<close>

text \<open>
  The contents octets of an INTEGER: two's complement, in the least number of octets (at least
  one) whose sign bit is the sign of the value.
\<close>

definition int_octets :: "int \<Rightarrow> nat" where
  "int_octets i = max 1 (octets (nat (if 0 \<le> i then 2 * i else 2 * (- i - 1))))"

definition der_int :: "int \<Rightarrow> bytes" where
  "der_int i = be_bytes (int_octets i) (nat (i mod 256 ^ int_octets i))"

definition der_uint :: "nat \<Rightarrow> bytes" where
  "der_uint v = be_bytes (int_octets (int v)) v"

lemma nth_be_bytes: "i < n \<Longrightarrow> be_bytes n v ! i = byte (v div 256 ^ (n - 1 - i))"
proof (induction n arbitrary: v)
  case (Suc n)
  show ?case
  proof (cases "i < n")
    case True
    then have "n - i = Suc (n - 1 - i)" by simp
    then have "v div 256 ^ (n - i) = v div 256 div 256 ^ (n - 1 - i)"
      by (simp add: div_mult2_eq)
    with True Suc.IH show ?thesis by (simp add: nth_append)
  next
    case False
    with Suc.prems show ?thesis by (simp add: nth_append)
  qed
qed simp

lemma int_octets_nonneg: "int_octets (int v) = max 1 (octets (2 * v))"
  by (simp add: int_octets_def nat_mult_distrib)

lemma int_octets_neg: "int_octets (- int v - 1) = max 1 (octets (2 * v))"
  by (simp add: int_octets_def nat_mult_distrib)

lemma int_octets_pos [simp]: "0 < int_octets i"
  by (simp add: int_octets_def)

text \<open>A positive number of octets is the right one when the leading nine bits are not all equal.\<close>

lemma max1_octets_eqI:
  assumes "0 < k" "2 * v < 256 ^ k" "k = 1 \<or> 256 ^ (k - 1) \<le> 2 * v"
  shows "max 1 (octets (2 * v)) = k"
proof (cases "k = 1")
  case True
  then have "octets (2 * v) \<le> 1"
    using octets_le [of "2 * v" 1] assms(2) by simp
  then show ?thesis using True by simp
next
  case False
  then have "256 ^ (k - 1) \<le> 2 * v" "2 * v < 256 ^ Suc (k - 1)"
    using assms by auto
  then have "octets (2 * v) = Suc (k - 1)"
    by (rule octets_eqI)
  with False assms(1) show ?thesis by simp
qed

lemma max1_octetsD:
  assumes "max 1 (octets (2 * v)) = k"
  shows "0 < k" "2 * v < 256 ^ k" "k = 1 \<or> 256 ^ (k - 1) \<le> 2 * v"
proof -
  show "0 < k" using assms by auto
  have "2 * v < 256 ^ octets (2 * v)" by (rule octets_bound)
  also have "(256 :: nat) ^ octets (2 * v) \<le> 256 ^ k"
    using assms by (intro power_increasing) auto
  finally show "2 * v < 256 ^ k" .
  show "k = 1 \<or> 256 ^ (k - 1) \<le> 2 * v"
  proof (cases "k = 1")
    case False
    then have "octets (2 * v) = k" using assms by (auto simp: max_def split: if_splits)
    moreover from this have "2 * v \<noteq> 0" using \<open>0 < k\<close> by (metis octets_gt_0)
    ultimately show ?thesis using octets_lower [of "2 * v"] by simp
  qed simp
qed

lemma length_der_int [simp]: "length (der_int i) = int_octets i"
  by (simp add: der_int_def)

lemma length_der_uint [simp]: "length (der_uint v) = int_octets (int v)"
  by (simp add: der_uint_def)

lemma int_octets_u64:
  assumes "v < 2 ^ 64"
  shows "int_octets (int v) \<le> 9"
proof -
  have "2 * v < 256 ^ 9" using assms by simp
  then have "octets (2 * v) \<le> 9" by (rule octets_le)
  then show ?thesis by (simp add: int_octets_nonneg)
qed

text \<open>
  The readers look at the first two octets: \<open>int_min bs\<close> is their test that no octet can be
  dropped. On such contents the value has exactly \<open>length bs\<close> octets.
\<close>

definition int_min :: "bytes \<Rightarrow> bool" where
  "int_min bs \<longleftrightarrow> bs \<noteq> [] \<and>
     \<not> (1 < length bs \<and> unat (bs ! 0) = 0 \<and> unat (bs ! 1) < 128) \<and>
     \<not> (1 < length bs \<and> unat (bs ! 0) = 255 \<and> 128 \<le> unat (bs ! 1))"

lemma be_val_two:
  assumes "1 < length bs"
  shows "be_val bs = (unat (bs ! 0) * 256 + unat (bs ! 1)) * 256 ^ (length bs - 2) + be_val (drop 2 bs)"
proof -
  obtain a b cs where "bs = a # b # cs"
    using assms by (cases bs; cases "tl bs") auto
  then show ?thesis
    by (simp add: be_val_Cons algebra_simps)
qed

lemma der_uint_be_val:
  assumes "int_min bs" "unat (bs ! 0) < 128"
  shows "der_uint (be_val bs) = bs"
proof -
  let ?k = "length bs" and ?v = "be_val bs"
  have ne: "bs \<noteq> []" using assms(1) by (simp add: int_min_def)
  then obtain b cs where bs: "bs = b # cs" by (cases bs) auto
  have "2 * ?v < 256 ^ ?k"
  proof -
    have "?v < (unat b + 1) * 256 ^ length cs"
      using be_val_less [of cs] by (simp add: bs be_val_Cons)
    also have "\<dots> \<le> 128 * 256 ^ length cs"
      using assms(2) by (simp add: bs)
    finally show ?thesis by (simp add: bs)
  qed
  moreover have "?k = 1 \<or> 256 ^ (?k - 1) \<le> 2 * ?v"
  proof (cases "?k = 1")
    case False
    then have k: "1 < ?k" using ne by (simp add: Suc_lessI)
    then have p: "(256 :: nat) ^ (?k - 1) = 256 * 256 ^ (?k - 2)"
      by (metis One_nat_def Suc_1 Suc_diff_Suc power_Suc)
    have "256 \<le> 2 * (unat (bs ! 0) * 256 + unat (bs ! 1))"
      using assms k by (auto simp: int_min_def)
    then have "256 * 256 ^ (?k - 2) \<le> 2 * (unat (bs ! 0) * 256 + unat (bs ! 1)) * 256 ^ (?k - 2)"
      by (rule mult_le_mono1)
    then show ?thesis
      unfolding p be_val_two [OF k] by (simp add: algebra_simps)
  qed simp
  ultimately have "int_octets (int ?v) = ?k"
    unfolding int_octets_nonneg using ne by (intro max1_octets_eqI) simp_all
  then show ?thesis
    by (simp add: der_uint_def be_bytes_be_val)
qed

lemma be_val_der_uint: "be_val (der_uint v) = v"
proof -
  have "2 * v < 256 ^ int_octets (int v)"
    using max1_octetsD(2) int_octets_nonneg [of v] by metis
  then show ?thesis
    by (simp add: der_uint_def be_val_be_bytes)
qed

lemma der_uint_min: "int_min (der_uint v)" "unat (der_uint v ! 0) < 128" "der_uint v \<noteq> []"
proof -
  let ?k = "int_octets (int v)"
  note d = max1_octetsD [OF int_octets_nonneg [of v, symmetric]]
  have len: "length (der_uint v) = ?k" by simp
  then show ne: "der_uint v \<noteq> []"
    using int_octets_pos [of "int v"] by (metis length_0_conv less_irrefl)
  then obtain b cs where bs: "der_uint v = b # cs" by (cases "der_uint v") auto
  then have cs: "length cs = ?k - 1" using len by (metis diff_Suc_1 length_Cons)
  have "v = unat b * 256 ^ length cs + be_val cs"
    using be_val_der_uint [of v] by (simp add: bs be_val_Cons)
  moreover have "?k = Suc (length cs)" using cs d(1) by simp
  then have "2 * v < 256 * 256 ^ length cs"
    using d(2) by (simp only: power_Suc)
  ultimately have "unat b * 256 ^ length cs < 128 * 256 ^ length cs" by linarith
  then have b: "unat b < 128" by (rule mult_less_cancel2 [THEN iffD1, THEN conjunct2])
  then show "unat (der_uint v ! 0) < 128" by (simp add: bs)
  show "int_min (der_uint v)"
  proof (cases "?k = 1")
    case True
    then show ?thesis using ne b cs by (simp add: int_min_def bs)
  next
    case False
    then have k: "1 < length (der_uint v)"
      using int_octets_pos [of "int v"] len by linarith
    have p: "(256 :: nat) ^ (?k - 1) = 256 * 256 ^ (?k - 2)"
      using k by (metis One_nat_def Suc_1 Suc_diff_Suc power_Suc len)
    have "be_val (drop 2 (der_uint v)) < 256 ^ (?k - 2)"
      using be_val_less [of "drop 2 (der_uint v)"] by simp
    moreover have "256 * 256 ^ (?k - 2) \<le> 2 * v"
      using d(3) False p by simp
    moreover have "v = (unat (der_uint v ! 0) * 256 + unat (der_uint v ! 1)) * 256 ^ (?k - 2)
        + be_val (drop 2 (der_uint v))"
      using be_val_two [OF k] by (simp add: be_val_der_uint)
    ultimately have "256 * 256 ^ (?k - 2) <
        2 * ((unat (der_uint v ! 0) * 256 + unat (der_uint v ! 1)) + 1) * 256 ^ (?k - 2)"
      by (simp add: algebra_simps)
    then have "256 < 2 * ((unat (der_uint v ! 0) * 256 + unat (der_uint v ! 1)) + 1)"
      using mult_less_cancel2 by blast
    then show ?thesis
      using ne b by (auto simp: int_min_def bs)
  qed
qed

text \<open>
  Signed contents. Complementing every octet turns the encoding of a negative value \<open>- v - 1\<close>
  into that of \<open>v\<close>, which carries the facts about \<open>der_uint\<close> over.
\<close>

definition compl_bytes :: "bytes \<Rightarrow> bytes" where
  "compl_bytes bs = map (\<lambda>b. NOT b) bs"

lemma unat_not_u8: "unat (NOT b :: u8) = 255 - unat b"
proof -
  have "b + NOT b = - 1"
    by (simp add: minus_eq_not_plus_1 [symmetric] add.commute not_eq_complement)
  moreover have "unat b + unat (NOT b) < 511"
    using unat_less_u8 [of b] unat_less_u8 [of "NOT b"] by simp
  ultimately have "(unat b + unat (NOT b)) mod 256 = 255"
    using unat_word_ariths(1) [of b "NOT b"]
    by (simp add: unsigned_minus_1_eq_mask mask_eq_exp_minus_1)
  with \<open>unat b + unat (NOT b) < 511\<close> have "unat b + unat (NOT b) = 255"
    by (auto simp: mod_if split: if_splits)
  then show ?thesis by simp
qed

lemma be_val_compl: "be_val (compl_bytes bs) = 256 ^ length bs - 1 - be_val bs"
proof (induction bs rule: rev_induct)
  case (snoc b bs)
  have "be_val bs < 256 ^ length bs" by (rule be_val_less)
  then show ?case
    using snoc unat_less_u8 [of b] by (simp add: compl_bytes_def unat_not_u8 algebra_simps)
qed (simp add: compl_bytes_def)

lemma length_compl [simp]: "length (compl_bytes bs) = length bs"
  by (simp add: compl_bytes_def)

lemma nth_compl [simp]: "i < length bs \<Longrightarrow> unat (compl_bytes bs ! i) = 255 - unat (bs ! i)"
  by (simp add: compl_bytes_def unat_not_u8)

lemma int_min_compl [simp]: "int_min (compl_bytes bs) = int_min bs"
  using unat_less_u8 [of "bs ! 0"] unat_less_u8 [of "bs ! 1"]
  by (auto simp: int_min_def simp flip: length_greater_0_conv)

text \<open>The value of two's complement contents.\<close>

definition int_val :: "bytes \<Rightarrow> int" where
  "int_val bs = (if unat (bs ! 0) < 128 then int (be_val bs) else int (be_val bs) - 256 ^ length bs)"

lemma der_int_nonneg: "der_int (int v) = der_uint v"
proof -
  have "v < 256 ^ int_octets (int v)"
    using max1_octetsD(2) [OF int_octets_nonneg [of v, symmetric]] by simp
  then have "int v mod 256 ^ int_octets (int v) = int v"
    by (simp add: nat_less_iff [symmetric] zless_nat_eq_int_zless flip: of_nat_power)
  then show ?thesis
    by (simp add: der_int_def der_uint_def)
qed

lemma der_int_neg: "der_int (- int v - 1) = compl_bytes (der_uint v)"
proof -
  let ?k = "int_octets (int v)"
  have k: "int_octets (- int v - 1) = ?k"
    by (simp only: int_octets_nonneg int_octets_neg)
  have v: "v < 256 ^ ?k"
    using max1_octetsD(2) [OF int_octets_nonneg [of v, symmetric]] by simp
  then have iv: "int v < 256 ^ ?k"
    by (metis of_nat_less_iff of_nat_numeral of_nat_power)
  have "(- int v - 1) mod 256 ^ ?k = (- int v - 1 + 256 ^ ?k) mod 256 ^ ?k"
    by simp
  also have "\<dots> = 256 ^ ?k - 1 - int v"
    using iv by (subst mod_pos_pos_trivial) linarith+
  finally have "nat ((- int v - 1) mod 256 ^ ?k) = 256 ^ ?k - 1 - v"
    using v by (simp add: nat_diff_distrib nat_power_eq)
  then have "der_int (- int v - 1) = be_bytes ?k (256 ^ ?k - 1 - v)"
    by (simp add: der_int_def k)
  moreover have "be_bytes ?k (be_val (compl_bytes (der_uint v))) = compl_bytes (der_uint v)"
    using be_bytes_be_val [of "compl_bytes (der_uint v)"] by simp
  ultimately show ?thesis
    by (simp add: be_val_compl be_val_der_uint)
qed

lemma int_casesE:
  obtains (nonneg) v where "i = int v" | (neg) v where "i = - int v - 1"
proof (cases "0 \<le> i")
  case True
  then show ?thesis using nonneg [of "nat i"] by simp
next
  case False
  then show ?thesis using neg [of "nat (- i - 1)"] by simp
qed

lemma der_int_min: "int_min (der_int i)"
  by (cases i rule: int_casesE) (simp_all add: der_int_nonneg der_int_neg der_uint_min)

lemma int_val_der_int: "int_val (der_int i) = i"
proof (cases i rule: int_casesE)
  case (nonneg v)
  then show ?thesis
    by (simp add: der_int_nonneg int_val_def der_uint_min be_val_der_uint)
next
  case v: (neg v)
  have "v < 256 ^ int_octets (int v)"
    using max1_octetsD(2) [OF int_octets_nonneg [of v, symmetric]] by simp
  moreover have "unat (compl_bytes (der_uint v) ! 0) = 255 - unat (der_uint v ! 0)"
    by (intro nth_compl) (simp add: der_uint_min)
  ultimately show ?thesis
    using der_uint_min(2) [of v]
    by (simp add: v der_int_neg int_val_def be_val_compl be_val_der_uint of_nat_diff)
qed

lemma der_int_int_val:
  assumes "int_min bs"
  shows "der_int (int_val bs) = bs"
proof (cases "unat (bs ! 0) < 128")
  case True
  then show ?thesis
    using der_uint_be_val [OF assms True] by (simp add: int_val_def der_int_nonneg)
next
  case False
  let ?c = "compl_bytes bs"
  have ne: "bs \<noteq> []" using assms by (simp add: int_min_def)
  then have "unat (?c ! 0) < 128"
    using False by simp
  then have "der_uint (be_val ?c) = ?c"
    using assms by (intro der_uint_be_val) simp_all
  moreover have "int_val bs = - int (be_val ?c) - 1"
    using False be_val_less [of bs] by (simp add: int_val_def be_val_compl of_nat_diff)
  moreover have "compl_bytes ?c = bs"
    by (simp add: compl_bytes_def comp_def)
  ultimately show ?thesis
    by (simp add: der_int_neg)
qed

end
