(* ===== verification/Cbs.thy ===== *)
theory Cbs
  imports Mem Der
begin

text \<open>
  \<^verbatim>\<open>crypto/bytestring/cbs.c\<close>: the CBS (crypto byte string) readers. A \<open>CBS\<close> is a pointer
  and a length into memory that no reader changes; it is modelled by the bytes it spans, so
  that advancing it is dropping a prefix. A reader returns \<open>None\<close> where the C function
  returns zero, \<open>Some\<close> of its output parameters otherwise, together with the CBS as the call
  leaves it, on failure too. \<open>rd_bind\<close> is the early return after a failed call.
\<close>

section \<open>Model\<close>

type_synonym 'a rd = "'a option \<times> bytes"

definition rd_bind :: "'a rd \<Rightarrow> ('a \<Rightarrow> bytes \<Rightarrow> 'b rd) \<Rightarrow> 'b rd" where
  "rd_bind r f = (case r of (None, cbs) \<Rightarrow> (None, cbs) | (Some x, cbs) \<Rightarrow> f x cbs)"

subsection \<open>Constants of the ASN.1 tag representation\<close>

definition CBS_ASN1_TAG_SHIFT :: nat where "CBS_ASN1_TAG_SHIFT = 24"
definition CBS_ASN1_CONSTRUCTED :: u32 where "CBS_ASN1_CONSTRUCTED = 0x20000000"
definition CBS_ASN1_TAG_NUMBER_MASK :: u32 where "CBS_ASN1_TAG_NUMBER_MASK = 0x1fffffff"
definition CBS_ASN1_BOOLEAN :: u32 where "CBS_ASN1_BOOLEAN = 0x1"
definition CBS_ASN1_INTEGER :: u32 where "CBS_ASN1_INTEGER = 0x2"
definition CBS_ASN1_BITSTRING :: u32 where "CBS_ASN1_BITSTRING = 0x3"
definition CBS_ASN1_OCTETSTRING :: u32 where "CBS_ASN1_OCTETSTRING = 0x4"

subsection \<open>Windows on the input\<close>

definition CBS_init :: "bytes \<Rightarrow> nat \<Rightarrow> bytes" where
  "CBS_init data len = take len data"

definition cbs_get :: "bytes \<Rightarrow> nat \<Rightarrow> bytes rd" where
  "cbs_get cbs n =
     (if length cbs < n then (None, cbs) else (Some (take n cbs), drop n cbs))"

definition CBS_skip :: "bytes \<Rightarrow> nat \<Rightarrow> unit rd" where
  "CBS_skip cbs len = rd_bind (cbs_get cbs len) (\<lambda>dummy cbs. (Some (), cbs))"

definition CBS_len :: "bytes \<Rightarrow> nat" where
  "CBS_len cbs = length cbs"

text \<open>
  \<open>CBS_stow\<close> and \<open>CBS_strdup\<close> on the block that \<open>*out_ptr\<close> points to, \<open>None\<close> for null: the result is that block as
  it is returned to the allocator, whether the function returns one, and \<open>*out_ptr\<close> (with \<open>*out_len\<close>) after it.
\<close>

definition CBS_stow ::
    "(nat \<Rightarrow> bytes option) \<Rightarrow> bytes \<Rightarrow> bytes option \<Rightarrow> bytes option \<times> bool \<times> bytes option \<times> nat" where
  "CBS_stow malloc cbs out_ptr =
     (let freed = OPENSSL_free out_ptr in
      if length cbs = 0 then (freed, True, None, 0)
      else case OPENSSL_memdup malloc cbs (length cbs) of
        None \<Rightarrow> (freed, False, None, 0)
      | Some p \<Rightarrow> (freed, True, Some p, length cbs))"

definition CBS_strdup :: "(nat \<Rightarrow> bytes option) \<Rightarrow> bytes \<Rightarrow> bytes option \<Rightarrow> bytes option \<times> bool \<times> bytes option" where
  "CBS_strdup malloc cbs out_ptr =
     (let freed = (if out_ptr \<noteq> None then OPENSSL_free out_ptr else None);
          out_ptr = OPENSSL_strndup malloc (Some cbs) (length cbs)
      in (freed, out_ptr \<noteq> None, out_ptr))"

definition CBS_contains_zero_byte :: "bytes \<Rightarrow> bool" where
  "CBS_contains_zero_byte cbs = list_ex (\<lambda>b. b = 0) cbs"

definition CBS_mem_equal :: "bytes \<Rightarrow> bytes \<Rightarrow> nat \<Rightarrow> bool" where
  "CBS_mem_equal cbs data len =
     (if len \<noteq> length cbs then False else CRYPTO_memcmp cbs data len = 0)"

subsection \<open>Integers\<close>

definition shift_in :: "u64 \<Rightarrow> u8 \<Rightarrow> u64" where
  "shift_in result b = push_bit 8 result OR ucast b"

definition cbs_get_u :: "bytes \<Rightarrow> nat \<Rightarrow> u64 rd" where
  "cbs_get_u cbs len =
     rd_bind (cbs_get cbs len) (\<lambda>data cbs. (Some (foldl shift_in 0 data), cbs))"

definition CBS_get_u8 :: "bytes \<Rightarrow> u8 rd" where
  "CBS_get_u8 cbs = rd_bind (cbs_get cbs 1) (\<lambda>v cbs. (Some (v ! 0), cbs))"

definition CBS_get_u16 :: "bytes \<Rightarrow> u16 rd" where
  "CBS_get_u16 cbs = rd_bind (cbs_get_u cbs 2) (\<lambda>v cbs. (Some (ucast v), cbs))"

definition CRYPTO_bswap2 :: "u16 \<Rightarrow> u16" where
  "CRYPTO_bswap2 x = of_nat (le_val (be_bytes 2 (unat x)))"

definition CRYPTO_bswap4 :: "u32 \<Rightarrow> u32" where
  "CRYPTO_bswap4 x = of_nat (le_val (be_bytes 4 (unat x)))"

definition CRYPTO_bswap8 :: "u64 \<Rightarrow> u64" where
  "CRYPTO_bswap8 x = of_nat (le_val (be_bytes 8 (unat x)))"

definition CBS_get_u16le :: "bytes \<Rightarrow> u16 rd" where
  "CBS_get_u16le cbs = rd_bind (CBS_get_u16 cbs) (\<lambda>v cbs. (Some (CRYPTO_bswap2 v), cbs))"

definition CBS_get_u24 :: "bytes \<Rightarrow> u32 rd" where
  "CBS_get_u24 cbs = rd_bind (cbs_get_u cbs 3) (\<lambda>v cbs. (Some (ucast v), cbs))"

definition CBS_get_u32 :: "bytes \<Rightarrow> u32 rd" where
  "CBS_get_u32 cbs = rd_bind (cbs_get_u cbs 4) (\<lambda>v cbs. (Some (ucast v), cbs))"

definition CBS_get_u32le :: "bytes \<Rightarrow> u32 rd" where
  "CBS_get_u32le cbs = rd_bind (CBS_get_u32 cbs) (\<lambda>v cbs. (Some (CRYPTO_bswap4 v), cbs))"

definition CBS_get_u64 :: "bytes \<Rightarrow> u64 rd" where
  "CBS_get_u64 cbs = cbs_get_u cbs 8"

definition CBS_get_u64le :: "bytes \<Rightarrow> u64 rd" where
  "CBS_get_u64le cbs = rd_bind (cbs_get_u cbs 8) (\<lambda>v cbs. (Some (CRYPTO_bswap8 v), cbs))"

definition CBS_get_last_u8 :: "bytes \<Rightarrow> u8 rd" where
  "CBS_get_last_u8 cbs =
     (if length cbs = 0 then (None, cbs)
      else (Some (cbs ! (length cbs - 1)), take (length cbs - 1) cbs))"

definition CBS_get_bytes :: "bytes \<Rightarrow> nat \<Rightarrow> bytes rd" where
  "CBS_get_bytes cbs len = rd_bind (cbs_get cbs len) (\<lambda>v cbs. (Some (CBS_init v len), cbs))"

text \<open>The buffer \<open>out\<close> of \<open>CBS_copy_bytes\<close> after the copy is the result.\<close>

definition CBS_copy_bytes :: "bytes \<Rightarrow> bytes \<Rightarrow> nat \<Rightarrow> bytes rd" where
  "CBS_copy_bytes cbs out len =
     rd_bind (cbs_get cbs len) (\<lambda>v cbs. (Some (mem_write out 0 (take len v)), cbs))"

definition cbs_get_length_prefixed :: "bytes \<Rightarrow> nat \<Rightarrow> bytes rd" where
  "cbs_get_length_prefixed cbs len_len =
     rd_bind (cbs_get_u cbs len_len) (\<lambda>len cbs. CBS_get_bytes cbs (unat len))"

definition CBS_get_u8_length_prefixed :: "bytes \<Rightarrow> bytes rd" where
  "CBS_get_u8_length_prefixed cbs = cbs_get_length_prefixed cbs 1"

definition CBS_get_u16_length_prefixed :: "bytes \<Rightarrow> bytes rd" where
  "CBS_get_u16_length_prefixed cbs = cbs_get_length_prefixed cbs 2"

definition CBS_get_u24_length_prefixed :: "bytes \<Rightarrow> bytes rd" where
  "CBS_get_u24_length_prefixed cbs = cbs_get_length_prefixed cbs 3"

subsection \<open>ASN.1 elements\<close>

text \<open>One call of the loop consumes a byte, so the recursion is on the bytes that are left.\<close>

fun parse_base128_loop :: "u64 \<Rightarrow> bytes \<Rightarrow> u64 rd" where
  "parse_base128_loop v [] = (None, [])"
| "parse_base128_loop v (b # cbs) =
     (if drop_bit (64 - 7) v \<noteq> 0 then (None, cbs)
      else if v = 0 \<and> b = 0x80 then (None, cbs)
      else (let v' = push_bit 7 v OR ucast (b AND 0x7f) in
            if b AND 0x80 \<noteq> 0 then parse_base128_loop v' cbs else (Some v', cbs)))"

definition parse_base128_integer :: "bytes \<Rightarrow> u64 rd" where
  "parse_base128_integer cbs = parse_base128_loop 0 cbs"

definition parse_asn1_tag :: "bytes \<Rightarrow> u32 rd" where
  "parse_asn1_tag cbs =
     rd_bind (CBS_get_u8 cbs) (\<lambda>tag_byte cbs.
       let tag = push_bit CBS_ASN1_TAG_SHIFT (ucast tag_byte AND 0xe0);
           tag_number = ucast tag_byte AND 0x1f
       in if tag_number = 0x1f then
            rd_bind (parse_base128_integer cbs) (\<lambda>v cbs.
              if v > ucast CBS_ASN1_TAG_NUMBER_MASK \<or> v < 0x1f then (None, cbs)
              else (Some (tag OR ucast v), cbs))
          else (Some (tag OR tag_number), cbs))"

text \<open>
  The output is the whole element, its tag and the length of its header. The readers work on
  the copy \<open>header\<close> of the CBS, which the final \<open>CBS_get_bytes\<close> alone advances.
\<close>

definition cbs_get_any_asn1_element :: "bytes \<Rightarrow> bool \<Rightarrow> (bytes \<times> u32 \<times> nat) rd" where
  "cbs_get_any_asn1_element cbs ber_ok =
     (case parse_asn1_tag cbs of
        (None, _) \<Rightarrow> (None, cbs)
      | (Some tag, header) \<Rightarrow>
     (case CBS_get_u8 header of
        (None, _) \<Rightarrow> (None, cbs)
      | (Some length_byte, header) \<Rightarrow>
     (let header_len = CBS_len cbs - CBS_len header in
      if length_byte AND 0x80 = 0 then
        (let len = unat length_byte + header_len in
         rd_bind (CBS_get_bytes cbs len) (\<lambda>out cbs. (Some (out, tag, header_len), cbs)))
      else
        (let num_bytes = unat (length_byte AND 0x7f) in
         if ber_ok \<and> tag AND CBS_ASN1_CONSTRUCTED \<noteq> 0 \<and> num_bytes = 0 then
           rd_bind (CBS_get_bytes cbs header_len)
             (\<lambda>out cbs. (Some (out, tag, header_len), cbs))
         else if num_bytes = 0 \<or> num_bytes > 4 then (None, cbs)
         else (case cbs_get_u header num_bytes of
                 (None, _) \<Rightarrow> (None, cbs)
               | (Some len64, header) \<Rightarrow>
                   (if len64 < 128 then (None, cbs)
                    else if drop_bit ((num_bytes - 1) * 8) len64 = 0 then (None, cbs)
                    else (let len = unat len64 in
                          if size_wrap (len + header_len + num_bytes) < len then (None, cbs)
                          else rd_bind
                                 (CBS_get_bytes cbs (size_wrap (len + header_len + num_bytes)))
                                 (\<lambda>out cbs. (Some (out, tag, header_len + num_bytes), cbs)))))))))"

definition CBS_get_any_asn1_element :: "bytes \<Rightarrow> (bytes \<times> u32 \<times> nat) rd" where
  "CBS_get_any_asn1_element cbs = cbs_get_any_asn1_element cbs False"

definition CBS_get_any_ber_asn1_element :: "bytes \<Rightarrow> (bytes \<times> u32 \<times> nat) rd" where
  "CBS_get_any_ber_asn1_element cbs = cbs_get_any_asn1_element cbs True"

definition CBS_get_any_asn1 :: "bytes \<Rightarrow> (bytes \<times> u32) rd" where
  "CBS_get_any_asn1 cbs =
     rd_bind (CBS_get_any_asn1_element cbs) (\<lambda>(out, tag, header_len) cbs.
       case CBS_skip out header_len of
         (None, _) \<Rightarrow> (None, cbs)
       | (Some _, out) \<Rightarrow> (Some (out, tag), cbs))"

definition cbs_get_asn1 :: "bytes \<Rightarrow> u32 \<Rightarrow> bool \<Rightarrow> bytes rd" where
  "cbs_get_asn1 cbs tag_value skip_header =
     rd_bind (CBS_get_any_asn1_element cbs) (\<lambda>(out, tag, header_len) cbs.
       if tag \<noteq> tag_value then (None, cbs)
       else if skip_header then
         (case CBS_skip out header_len of
            (None, _) \<Rightarrow> (None, cbs)
          | (Some _, out) \<Rightarrow> (Some out, cbs))
       else (Some out, cbs))"

definition CBS_get_asn1 :: "bytes \<Rightarrow> u32 \<Rightarrow> bytes rd" where
  "CBS_get_asn1 cbs tag_value = cbs_get_asn1 cbs tag_value True"

definition CBS_get_asn1_element :: "bytes \<Rightarrow> u32 \<Rightarrow> bytes rd" where
  "CBS_get_asn1_element cbs tag_value = cbs_get_asn1 cbs tag_value False"

definition CBS_peek_asn1_tag :: "bytes \<Rightarrow> u32 \<Rightarrow> bool" where
  "CBS_peek_asn1_tag cbs tag_value =
     (if CBS_len cbs < 1 then False
      else (case parse_asn1_tag cbs of
              (None, _) \<Rightarrow> False
            | (Some actual_tag, _) \<Rightarrow> tag_value = actual_tag))"

subsection \<open>ASN.1 values\<close>

fun asn1_uint64_loop :: "u64 \<Rightarrow> bytes \<Rightarrow> u64 option" where
  "asn1_uint64_loop out [] = Some out"
| "asn1_uint64_loop out (d # ds) =
     (if drop_bit 56 out \<noteq> 0 then None else asn1_uint64_loop (shift_in out d) ds)"

definition CBS_get_asn1_uint64 :: "bytes \<Rightarrow> u64 rd" where
  "CBS_get_asn1_uint64 cbs =
     rd_bind (CBS_get_asn1 cbs CBS_ASN1_INTEGER) (\<lambda>data cbs.
       let len = length data in
       if len = 0 then (None, cbs)
       else if data ! 0 AND 0x80 \<noteq> 0 then (None, cbs)
       else if data ! 0 = 0 \<and> len > 1 \<and> data ! 1 AND 0x80 = 0 then (None, cbs)
       else (asn1_uint64_loop 0 data, cbs))"

text \<open>
  The union of the C code is read in the little-endian byte order of the targets; the result is
  the 64-bit pattern of the \<open>int64_t\<close>, whose value is its \<open>sint\<close>.
\<close>

definition CBS_get_asn1_int64 :: "bytes \<Rightarrow> u64 rd" where
  "CBS_get_asn1_int64 cbs =
     rd_bind (CBS_get_asn1 cbs CBS_ASN1_INTEGER) (\<lambda>data cbs.
       let len = length data in
       if len = 0 \<or> len > 8 then (None, cbs)
       else if len > 1 \<and> data ! 0 = 0 \<and> data ! 1 AND 0x80 = 0 then (None, cbs)
       else if len > 1 \<and> data ! 0 = 0xff \<and> data ! 1 AND 0x80 \<noteq> 0 then (None, cbs)
       else (let is_negative = (data ! 0 AND 0x80 \<noteq> 0);
                 u = replicate 8 (if is_negative then 0xff else 0);
                 u = foldl (\<lambda>u i. u[i := data ! (len - i - 1)]) u [0..<len]
             in (Some (of_nat (le_val u)), cbs)))"

definition CBS_get_asn1_bool :: "bytes \<Rightarrow> bool rd" where
  "CBS_get_asn1_bool cbs =
     rd_bind (CBS_get_asn1 cbs CBS_ASN1_BOOLEAN) (\<lambda>data cbs.
       if CBS_len data \<noteq> 1 then (None, cbs)
       else (let val = data ! 0 in
             if val \<noteq> 0 \<and> val \<noteq> 0xff then (None, cbs) else (Some (val \<noteq> 0), cbs)))"

text \<open>The output is \<open>Some contents\<close> when the element is present, \<open>None\<close> when it is not.\<close>

definition CBS_get_optional_asn1 :: "bytes \<Rightarrow> u32 \<Rightarrow> bytes option rd" where
  "CBS_get_optional_asn1 cbs tag =
     (if CBS_peek_asn1_tag cbs tag
      then rd_bind (CBS_get_asn1 cbs tag) (\<lambda>out cbs. (Some (Some out), cbs))
      else (Some None, cbs))"

definition CBS_get_optional_asn1_octet_string :: "bytes \<Rightarrow> u32 \<Rightarrow> (bytes \<times> bool) rd" where
  "CBS_get_optional_asn1_octet_string cbs tag =
     rd_bind (CBS_get_optional_asn1 cbs tag) (\<lambda>child cbs.
       case child of
         None \<Rightarrow> (Some ([], False), cbs)
       | Some child \<Rightarrow>
           (case CBS_get_asn1 child CBS_ASN1_OCTETSTRING of
              (None, _) \<Rightarrow> (None, cbs)
            | (Some out, child) \<Rightarrow>
                if CBS_len child \<noteq> 0 then (None, cbs) else (Some (out, True), cbs)))"

definition CBS_get_optional_asn1_uint64 :: "bytes \<Rightarrow> u32 \<Rightarrow> u64 \<Rightarrow> u64 rd" where
  "CBS_get_optional_asn1_uint64 cbs tag default_value =
     rd_bind (CBS_get_optional_asn1 cbs tag) (\<lambda>child cbs.
       case child of
         None \<Rightarrow> (Some default_value, cbs)
       | Some child \<Rightarrow>
           (case CBS_get_asn1_uint64 child of
              (None, _) \<Rightarrow> (None, cbs)
            | (Some out, child) \<Rightarrow>
                if CBS_len child \<noteq> 0 then (None, cbs) else (Some out, cbs)))"

definition CBS_get_optional_asn1_bool :: "bytes \<Rightarrow> u32 \<Rightarrow> bool \<Rightarrow> bool rd" where
  "CBS_get_optional_asn1_bool cbs tag default_value =
     rd_bind (CBS_get_optional_asn1 cbs tag) (\<lambda>child cbs.
       case child of
         None \<Rightarrow> (Some default_value, cbs)
       | Some child \<Rightarrow>
           (case CBS_get_asn1 child CBS_ASN1_BOOLEAN of
              (None, _) \<Rightarrow> (None, cbs)
            | (Some child2, child) \<Rightarrow>
                if CBS_len child2 \<noteq> 1 \<or> CBS_len child \<noteq> 0 then (None, cbs)
                else if child2 ! 0 = 0 then (Some False, cbs)
                else if child2 ! 0 = 0xff then (Some True, cbs)
                else (None, cbs)))"

definition CBS_is_valid_asn1_bitstring :: "bytes \<Rightarrow> bool" where
  "CBS_is_valid_asn1_bitstring cbs =
     (case CBS_get_u8 cbs of
        (None, _) \<Rightarrow> False
      | (Some num_unused_bits, inp) \<Rightarrow>
          if num_unused_bits > 7 then False
          else if num_unused_bits = 0 then True
          else (case CBS_get_last_u8 inp of
                  (None, _) \<Rightarrow> False
                | (Some lst, _) \<Rightarrow> lst AND (push_bit (unat num_unused_bits) 1 - 1) = 0))"

definition CBS_asn1_bitstring_has_bit :: "bytes \<Rightarrow> u32 \<Rightarrow> bool" where
  "CBS_asn1_bitstring_has_bit cbs bt =
     (if \<not> CBS_is_valid_asn1_bitstring cbs then False
      else (let byte_num = unat (drop_bit 3 bt + 1); bit_num = 7 - unat (bt AND 7) in
            byte_num < CBS_len cbs \<and> cbs ! byte_num AND push_bit bit_num 1 \<noteq> 0))"

section \<open>Basic facts about readers\<close>

named_theorems rd_ok "success of a composed reader, taken apart"

lemma rd_bind_simps [simp]:
  "rd_bind (None, cbs) f = (None, cbs)"
  "rd_bind (Some x, cbs) f = f x cbs"
  by (simp_all add: rd_bind_def)

lemma rd_bind_Some_iff [rd_ok]:
  "rd_bind r f = (Some y, c) \<longleftrightarrow> (\<exists>x c'. r = (Some x, c') \<and> f x c' = (Some y, c))"
  by (cases r; cases "fst r") auto

lemma cbs_get_Some_iff [rd_ok]:
  "cbs_get cbs n = (Some p, rest) \<longleftrightarrow> cbs = p @ rest \<and> length p = n"
  by (auto simp: cbs_get_def)

lemma cbs_get_append [simp]: "length p = n \<Longrightarrow> cbs_get (p @ rest) n = (Some p, rest)"
  by (simp add: cbs_get_def)

lemma CBS_get_u8_simps [simp]:
  "CBS_get_u8 [] = (None, [])"
  "CBS_get_u8 (b # cbs) = (Some b, cbs)"
  by (simp_all add: CBS_get_u8_def cbs_get_def)

lemma CBS_get_u8_Some_iff [rd_ok]: "CBS_get_u8 cbs = (Some b, rest) \<longleftrightarrow> cbs = b # rest"
  by (cases cbs) auto

lemma CBS_get_bytes_eq:
  "CBS_get_bytes cbs n = (if length cbs < n then (None, cbs) else (Some (take n cbs), drop n cbs))"
  by (simp add: CBS_get_bytes_def cbs_get_def CBS_init_def)

lemma CBS_get_bytes_append [simp]: "length p = n \<Longrightarrow> CBS_get_bytes (p @ rest) n = (Some p, rest)"
  by (simp add: CBS_get_bytes_eq)

lemma CBS_get_bytes_Some_iff [rd_ok]:
  "CBS_get_bytes cbs n = (Some p, rest) \<longleftrightarrow> cbs = p @ rest \<and> length p = n"
  by (auto simp: CBS_get_bytes_eq)

lemma CBS_skip_append [simp]: "length p = n \<Longrightarrow> CBS_skip (p @ rest) n = (Some (), rest)"
  by (simp add: CBS_skip_def)

section \<open>Big-endian integers\<close>

lemma shift_in_fold: "length data \<le> 8 \<Longrightarrow> unat (foldl shift_in 0 data) = be_val data"
proof (induction data rule: rev_induct)
  case (snoc b bs)
  then have IH: "unat (foldl shift_in 0 bs) = be_val bs" by simp
  have "be_val (bs @ [b]) < 256 ^ length (bs @ [b])" by (rule be_val_less)
  also have "\<dots> \<le> 256 ^ 8"
    using snoc.prems by (intro power_increasing) auto
  finally have "be_val bs * 2 ^ 8 + unat b < 2 ^ 64" by simp
  then show ?case
    using unat_less_u8 [of b]
    using IH by (simp add: shift_in_def [of _ b] unat_shift_or unat_ucast)
qed simp

lemma cbs_get_u_eq:
  assumes "n \<le> 8"
  shows "cbs_get_u cbs n =
     (if length cbs < n then (None, cbs) else (Some (of_nat (be_val (take n cbs))), drop n cbs))"
proof -
  have "foldl shift_in 0 (take n cbs) = of_nat (be_val (take n cbs))"
    using assms shift_in_fold [of "take n cbs"] by (metis length_take min.coboundedI2 of_nat_unat ucast_id)
  then show ?thesis
    by (simp add: cbs_get_u_def cbs_get_def)
qed

lemma cbs_get_u_append:
  "n \<le> 8 \<Longrightarrow> length p = n \<Longrightarrow> cbs_get_u (p @ rest) n = (Some (of_nat (be_val p)), rest)"
  by (simp add: cbs_get_u_eq)

section \<open>Base-128 integers\<close>

lemma base128_acc:
  fixes v :: u64
  assumes "drop_bit 57 v = 0"
  shows "unat (push_bit 7 v OR ucast (b AND 0x7f :: u8)) = unat v * 128 + unat b mod 128"
proof -
  have "unat v div 2 ^ 57 = 0"
    using assms by (metis unat_drop_bit unat_0)
  then have "unat v < 2 ^ 57"
    by (simp add: div_eq_0_iff)
  moreover have "unat b mod 128 < 128" by simp
  ultimately have "unat v * 2 ^ 7 + unat b mod 128 < 2 ^ 64" by simp
  moreover have "unat (ucast (b AND 0x7f) :: u64) = unat b mod 128"
    using unat_less_u8 [of b] by (simp add: unat_ucast u8_low7)
  ultimately show ?thesis
    by (simp add: unat_shift_or)
qed

lemma base128_fits_iff: "drop_bit 57 (v :: u64) = 0 \<longleftrightarrow> unat v < 2 ^ 57"
  by (auto simp: word_eq_iff_unsigned [where ?'a = nat] unat_drop_bit div_eq_0_iff)

lemma parse_base128_loop_hi:
  assumes "w < 2 ^ 57" "rest \<noteq> []"
  shows "parse_base128_loop 0 (base128_hi w @ rest) = parse_base128_loop (of_nat w) rest"
  using assms
proof (induction w arbitrary: rest rule: base128_hi.induct)
  case (1 w)
  show ?case
  proof (cases "w = 0")
    case False
    let ?b = "byte (128 + w mod 128)"
    have ub: "unat ?b = 128 + w mod 128" by simp
    have uw: "unat (of_nat (w div 128) :: u64) = w div 128" "unat (of_nat w :: u64) = w"
      using "1.prems"(1) by (simp_all only: unat_of_nat) simp_all
    have fits: "drop_bit 57 (of_nat (w div 128) :: u64) = 0"
      using "1.prems"(1) by (simp add: base128_fits_iff uw)
    have acc: "push_bit 7 (of_nat (w div 128)) OR ucast (?b AND 0x7f) = (of_nat w :: u64)"
      using base128_acc [OF fits, of ?b]
      by (simp add: word_eq_iff_unsigned [where ?'a = nat] uw ub)
    have "base128_hi w @ rest = base128_hi (w div 128) @ ?b # rest"
      using False by (subst base128_hi.simps) simp
    moreover have "parse_base128_loop 0 (base128_hi (w div 128) @ ?b # rest) =
        parse_base128_loop (of_nat (w div 128)) (?b # rest)"
      using "1.prems"(1) by (intro "1.IH" False) auto
    moreover have "\<not> (of_nat (w div 128) = (0 :: u64) \<and> ?b = 0x80)"
      using False by (auto simp: word_eq_iff_unsigned [where ?'a = nat] uw ub)
    ultimately show ?thesis
      by (simp add: fits acc u8_high_bit_iff)
  qed simp
qed

theorem parse_base128_integer_base128:
  assumes "v < 2 ^ 64"
  shows "parse_base128_integer (base128 v @ rest) = (Some (of_nat v), rest)"
proof -
  let ?w = "v div 128" and ?b = "byte (v mod 128)"
  have ub: "unat ?b = v mod 128" by simp
  have w: "?w < 2 ^ 57" using assms by simp
  then have uw: "unat (of_nat ?w :: u64) = ?w"
    by (simp only: unat_of_nat) simp
  have fits: "drop_bit 57 (of_nat ?w :: u64) = 0"
    using w by (simp add: base128_fits_iff uw)
  have "push_bit 7 (of_nat ?w) OR ucast (?b AND 0x7f) = (of_nat v :: u64)"
    using base128_acc [OF fits, of ?b] assms
    by (simp add: word_eq_iff_unsigned [where ?'a = nat] uw ub unat_of_nat)
  moreover have "\<not> 128 \<le> unat ?b" "?b \<noteq> 0x80"
    by (auto simp: ub word_eq_iff_unsigned [where ?'a = nat])
  ultimately have "parse_base128_loop (of_nat ?w) (?b # rest) = (Some (of_nat v), rest)"
    by (simp add: fits u8_high_bit_iff)
  then show ?thesis
    using w by (simp add: parse_base128_integer_def base128_def parse_base128_loop_hi)
qed

text \<open>What the parser accepts is the minimal encoding of what it returns.\<close>

lemma parse_base128_loop_canonical:
  "parse_base128_loop v bs = (Some r, rest) \<Longrightarrow>
   base128_hi (unat v) @ bs = base128 (unat r) @ rest"
proof (induction v bs rule: parse_base128_loop.induct)
  case (2 v b bs)
  let ?v = "push_bit 7 v OR ucast (b AND 0x7f)"
  from "2.prems" have fits: "drop_bit 57 v = 0" and nz: "\<not> (v = 0 \<and> b = 0x80)"
    by (auto split: if_splits)
  note acc = base128_acc [OF fits, of b]
  show ?case
  proof (cases "128 \<le> unat b")
    case True
    then have d: "unat b mod 128 = unat b - 128" "128 + (unat b - 128) = unat b"
      using unat_less_u8 [of b] by (simp_all add: mod128_high)
    have "\<not> (unat v = 0 \<and> unat b - 128 = 0)"
      using nz True by (auto simp: word_eq_iff_unsigned [where ?'a = nat])
    then have "base128_hi (unat ?v) = base128_hi (unat v) @ [b]"
      unfolding acc d(1) using d(2) unat_less_u8 [of b]
      by (subst base128_hi_step) auto
    moreover have "parse_base128_loop ?v bs = (Some r, rest)"
      using "2.prems" fits nz True by (auto simp: u8_high_bit_iff Let_def)
    ultimately show ?thesis
      using "2.IH" fits nz True by (auto simp: u8_high_bit_iff)
  next
    case False
    then have "r = ?v" "rest = bs"
      using "2.prems" fits nz by (auto simp: u8_high_bit_iff Let_def)
    moreover have "base128 (unat ?v) = base128_hi (unat v) @ [b]"
      unfolding acc using False by (subst base128_step) auto
    ultimately show ?thesis by simp
  qed
qed simp

lemma parse_base128_integer_canonical:
  "parse_base128_integer cbs = (Some r, rest) \<Longrightarrow> cbs = base128 (unat r) @ rest"
  using parse_base128_loop_canonical [of 0 cbs r rest] by (simp add: parse_base128_integer_def)

section \<open>Identifier octets\<close>

lemma u8_class_bits: "unat (ucast (tb :: u8) AND 0xe0 :: u32) = unat tb div 32 * 32"
proof -
  have "(ucast tb AND 0xe0 :: u32) = ucast (tb AND push_bit 5 (mask 3))"
    by (simp add: unsigned_and_eq mask_eq_exp_minus_1)
  moreover have "unat tb div 32 * 32 < 256"
    using unat_less_u8 [of tb] by (meson div_times_less_eq_dividend le_less_trans)
  ultimately show ?thesis
    using unat_and_high_mask [of 5 3 tb] by (simp add: unat_ucast)
qed

lemma u8_number_bits: "unat (ucast (tb :: u8) AND 0x1f :: u32) = unat tb mod 32"
proof -
  have "unat (ucast tb :: u32) = unat tb"
    using unat_less_u8 [of tb] by (simp add: unat_ucast)
  then show ?thesis
    using unat_and_mask [of "ucast tb :: u32" 5] by (simp add: mask_eq_exp_minus_1)
qed

lemma tag_bits_or:
  fixes num :: u32
  assumes "unat num < 2 ^ 29"
  shows "unat (push_bit CBS_ASN1_TAG_SHIFT (ucast (tb :: u8) AND 0xe0) OR num) =
     unat tb div 32 * 2 ^ 29 + unat num"
proof -
  let ?cls = "push_bit CBS_ASN1_TAG_SHIFT (ucast tb AND 0xe0) :: u32"
  have "unat tb div 32 < 8"
    using unat_less_u8 [of tb] by (simp add: less_mult_imp_div_less)
  then have "unat ?cls = unat tb div 32 * 2 ^ 29"
    by (simp only: CBS_ASN1_TAG_SHIFT_def unat_push_bit u8_class_bits) simp
  then show ?thesis
    using assms \<open>unat tb div 32 < 8\<close> by (subst unat_or_dvd [of _ 29]) auto
qed

lemma tag_bits_class_num:
  fixes num :: u32 and tb :: u8
  assumes "unat num < 2 ^ 29"
  shows "tag_class (push_bit CBS_ASN1_TAG_SHIFT (ucast tb AND 0xe0) OR num) = unat tb div 32"
    and "tag_num (push_bit CBS_ASN1_TAG_SHIFT (ucast tb AND 0xe0) OR num) = unat num"
  using tag_bits_or [OF assms, of tb] assms
  by (simp_all add: tag_class_def tag_num_def)

theorem parse_asn1_tag_der_tag:
  "parse_asn1_tag (der_tag tag @ rest) = (Some tag, rest)"
proof (cases "tag_num tag < 31")
  case True
  let ?tb = "byte (tag_class tag * 32 + tag_num tag)"
  have tb: "unat ?tb div 32 = tag_class tag" "unat ?tb mod 32 = tag_num tag"
    using True tag_class_less [of tag] by simp_all
  have num: "unat (ucast ?tb AND 0x1f :: u32) = tag_num tag"
    by (simp only: u8_number_bits tb)
  then have "(ucast ?tb AND 0x1f :: u32) \<noteq> 0x1f"
    using True by (auto dest: arg_cong [where f = unat])
  moreover have "push_bit CBS_ASN1_TAG_SHIFT (ucast ?tb AND 0xe0) OR (ucast ?tb AND 0x1f) = tag"
    using tag_bits_class_num [of "ucast ?tb AND 0x1f" ?tb] num tb(1) tag_num_less [of tag]
    by (intro tag_eqI) simp_all
  ultimately show ?thesis
    using True by (simp add: parse_asn1_tag_def der_tag_def)
next
  case False
  let ?tb = "byte (tag_class tag * 32 + 31)" and ?v = "of_nat (tag_num tag) :: u64"
  have tb: "unat ?tb div 32 = tag_class tag" "unat ?tb mod 32 = 31"
    using tag_class_less [of tag] by simp_all
  have v: "unat ?v = tag_num tag"
    using tag_num_less [of tag] by (simp add: unat_of_nat_u64)
  then have num: "unat (ucast ?v :: u32) = tag_num tag"
    using tag_num_less [of tag] by (simp add: unat_ucast)
  have "(ucast ?tb AND 0x1f :: u32) = 0x1f"
    by (rule unat_eqI) (simp only: u8_number_bits tb, simp)
  moreover have "\<not> ?v > ucast CBS_ASN1_TAG_NUMBER_MASK" "\<not> ?v < 0x1f"
    using False tag_num_less [of tag]
    by (simp_all add: word_less_nat_alt v CBS_ASN1_TAG_NUMBER_MASK_def)
  moreover have "push_bit CBS_ASN1_TAG_SHIFT (ucast ?tb AND 0xe0) OR ucast ?v = tag"
    using tag_bits_class_num [of "ucast ?v" ?tb] num tb(1) tag_num_less [of tag]
    by (intro tag_eqI) simp_all
  moreover have "parse_base128_integer (base128 (tag_num tag) @ rest) = (Some ?v, rest)"
    using tag_num_less [of tag] by (intro parse_base128_integer_base128) simp
  ultimately show ?thesis
    using False by (simp add: parse_asn1_tag_def der_tag_def)
qed

lemma parse_asn1_tag_canonical:
  assumes "parse_asn1_tag cbs = (Some tag, rest)"
  shows "cbs = der_tag tag @ rest"
proof -
  obtain tb cbs' where cbs: "cbs = tb # cbs'"
    using assms by (cases cbs) (auto simp: parse_asn1_tag_def)
  let ?n = "ucast tb AND 0x1f :: u32"
  have n: "unat ?n = unat tb mod 32"
    by (rule u8_number_bits)
  have tb: "byte (unat tb div 32 * 32 + unat tb mod 32) = tb" by simp
  show ?thesis
  proof (cases "?n = 0x1f")
    case False
    then have tag: "tag = push_bit CBS_ASN1_TAG_SHIFT (ucast tb AND 0xe0) OR ?n"
      and rest: "rest = cbs'"
      using assms by (auto simp: cbs parse_asn1_tag_def Let_def)
    have "unat ?n < 2 ^ 29"
      by (simp add: n less_le_trans [OF mod_less_divisor])
    then have "tag_class tag = unat tb div 32" "tag_num tag = unat tb mod 32"
      unfolding tag n [symmetric] by (rule tag_bits_class_num)+
    moreover have "unat tb mod 32 \<noteq> 31"
      using False n by (auto simp: word_eq_iff_unsigned [where ?'a = nat])
    then have "unat tb mod 32 < 31"
      using mod_less_divisor [of 32 "unat tb"] by linarith
    ultimately show ?thesis
      using tb by (simp add: cbs rest der_tag_def)
  next
    case True
    then have "unat tb mod 32 = 31" using n by simp
    obtain v where v: "parse_base128_integer cbs' = (Some v, rest)"
      and le: "\<not> v > ucast CBS_ASN1_TAG_NUMBER_MASK" "\<not> v < 0x1f"
      and tag: "tag = push_bit CBS_ASN1_TAG_SHIFT (ucast tb AND 0xe0) OR ucast v"
      using assms True by (auto simp: cbs parse_asn1_tag_def Let_def rd_ok split: if_splits)
    have uv: "unat v < 2 ^ 29" "31 \<le> unat v"
      using le by (simp_all add: word_less_nat_alt CBS_ASN1_TAG_NUMBER_MASK_def)
    then have "unat (ucast v :: u32) = unat v"
      by (simp add: unat_ucast)
    then have "tag_class tag = unat tb div 32" "tag_num tag = unat v"
      using tag_bits_class_num [of "ucast v" tb] uv(1) by (simp_all add: tag)
    then show ?thesis
      using uv(2) tb \<open>unat tb mod 32 = 31\<close> parse_base128_integer_canonical [OF v]
      by (simp add: cbs der_tag_def)
  qed
qed

section \<open>Elements\<close>

text \<open>The parser on a well-formed identifier, with its word operations as arithmetic.\<close>

definition get_n :: "bytes \<Rightarrow> u32 \<Rightarrow> nat \<Rightarrow> nat \<Rightarrow> (bytes \<times> u32 \<times> nat) rd" where
  "get_n cbs tag hl n =
     (if length cbs < n then (None, cbs) else (Some (take n cbs, tag, hl), drop n cbs))"

lemma get_n_bind:
  "rd_bind (CBS_get_bytes cbs n) (\<lambda>out cbs. (Some (out, tag, hl), cbs)) = get_n cbs tag hl n"
  by (simp add: CBS_get_bytes_eq get_n_def)

lemma get_n_Some_iff [rd_ok]:
  "get_n cbs tag hl n = (Some (out, tag', hl'), rest) \<longleftrightarrow>
   cbs = out @ rest \<and> length out = n \<and> tag' = tag \<and> hl' = hl"
  by (auto simp: get_n_def)

lemma be_val_take_shift_0_iff:
  fixes v :: u64
  assumes "unat v = be_val (take k h)" "0 < k"
  shows "drop_bit ((k - 1) * 8) v = 0 \<longleftrightarrow> be_val (take k h) < 256 ^ (k - 1)"
proof -
  have p: "(2 :: nat) ^ ((k - 1) * 8) = 256 ^ (k - 1)"
    using power_mult [of "2 :: nat" 8 "k - 1"] by (simp add: mult.commute)
  have "drop_bit ((k - 1) * 8) v = 0 \<longleftrightarrow> unat v div 2 ^ ((k - 1) * 8) = 0"
    by (simp add: word_eq_iff_unsigned [where ?'a = nat] unat_drop_bit)
  then show ?thesis
    by (simp only: p assms(1) div_eq_0_iff) simp
qed

lemma cbs_get_any_asn1_element_norm:
  fixes lb :: u8
  assumes "cbs = der_tag tag @ lb # h" "length (der_tag tag) < 2 ^ 32"
  defines "hl \<equiv> Suc (length (der_tag tag))" and "k \<equiv> unat lb - 128"
  shows "cbs_get_any_asn1_element cbs ber_ok =
     (if unat lb < 128 then get_n cbs tag hl (unat lb + hl)
      else if ber_ok \<and> tag AND CBS_ASN1_CONSTRUCTED \<noteq> 0 \<and> k = 0 then get_n cbs tag hl hl
      else if k = 0 \<or> 4 < k \<or> length h < k then (None, cbs)
      else (let n = be_val (take k h) in
            if n < 128 \<or> n < 256 ^ (k - 1) then (None, cbs)
            else get_n cbs tag (hl + k) (n + hl + k)))"
proof -
  have tag: "parse_asn1_tag cbs = (Some tag, lb # h)"
    using parse_asn1_tag_der_tag [of tag "lb # h"] by (simp add: assms(1))
  have hl: "CBS_len cbs - CBS_len h = hl"
    by (simp add: CBS_len_def assms(1) hl_def)
  show ?thesis
  proof (cases "unat lb < 128")
    case True
    then show ?thesis
      by (simp add: cbs_get_any_asn1_element_def tag hl u8_high_bit_iff get_n_bind)
  next
    case False
    have k: "unat (lb AND 0x7f) = k"
      using False unat_less_u8 [of lb] by (simp add: u8_low7 k_def mod128_high)
    show ?thesis
    proof (cases "k = 0 \<or> 4 < k \<or> length h < k")
      case True
      then show ?thesis
        using False
        by (auto simp: cbs_get_any_asn1_element_def tag hl u8_high_bit_iff k get_n_bind
            cbs_get_u_eq Let_def)
    next
      case kOK: False
      let ?n = "be_val (take k h)"
      have "?n < 256 ^ length (take k h)" by (rule be_val_less)
      also have "\<dots> \<le> 256 ^ 4"
        using kOK by (intro power_increasing) auto
      finally have n: "?n < 2 ^ 32" by simp
      have v: "unat (of_nat ?n :: u64) = ?n"
        using n by (simp add: unat_of_nat_u64)
      have sum: "?n + hl + k < 2 ^ 64"
        using n kOK assms(2) by (simp add: hl_def)
      then have wrap: "size_wrap (?n + hl + k) = ?n + hl + k" by simp
      have get: "cbs_get_u h k = (Some (of_nat ?n), drop k h)"
        using kOK by (simp add: cbs_get_u_eq)
      have "(of_nat ?n :: u64) < 128 \<longleftrightarrow> ?n < 128"
        by (simp add: word_less_nat_alt v)
      moreover have "drop_bit ((k - 1) * 8) (of_nat ?n :: u64) = 0 \<longleftrightarrow> ?n < 256 ^ (k - 1)"
        using kOK v by (intro be_val_take_shift_0_iff) auto
      ultimately show ?thesis
        using False kOK
        by (simp add: cbs_get_any_asn1_element_def tag hl u8_high_bit_iff k get wrap v Let_def
            get_n_bind)
    qed
  qed
qed

lemma length_base128_hi: "v < 128 ^ k \<Longrightarrow> length (base128_hi v) \<le> k"
proof (induction k arbitrary: v)
  case (Suc k)
  then have "v div 128 < 128 ^ k"
    by (simp add: div_less_iff_less_mult mult.commute)
  from Suc.IH [OF this] show ?case
    by (cases "v = 0") (simp_all add: base128_hi.simps [of v])
qed simp

lemma length_der_tag: "length (der_tag tag) \<le> 7"
proof -
  have "tag_num tag div 128 < 128 ^ 5"
    using tag_num_less [of tag] by (simp add: div_less_iff_less_mult)
  then show ?thesis
    using length_base128_hi [of "tag_num tag div 128" 5] by (simp add: der_tag_def base128_def)
qed

lemma length_der_header:
  "length (der_header tag n) = length (der_tag tag) + (if n < 128 then 1 else Suc (octets n))"
  by (simp add: der_header_def length_der_length)

lemma length_der_element: "length (der_element tag body) = length (der_header tag (length body)) + length body"
  by (simp add: der_element_def)

lemma octets_u32: "n < 2 ^ 32 \<Longrightarrow> octets n \<le> 4"
  using octets_le [of n 4] by simp

text \<open>Reading back a DER element yields exactly that element, its tag and its header length.\<close>

lemma cbs_get_any_asn1_element_der:
  assumes "length body < 2 ^ 32"
  shows "cbs_get_any_asn1_element (der_element tag body @ rest) ber_ok =
     (Some (der_element tag body, tag, length (der_header tag (length body))), rest)"
proof -
  let ?n = "length body"
  have tl: "length (der_tag tag) < 2 ^ 32"
    using length_der_tag [of tag] by simp
  show ?thesis
  proof (cases "?n < 128")
    case True
    have eq: "der_element tag body @ rest = der_tag tag @ byte ?n # (body @ rest)"
      using True by (simp add: der_element_def der_header_def der_length_def)
    show ?thesis
      using True
      by (simp add: cbs_get_any_asn1_element_norm [OF eq tl] get_n_def length_der_element
          length_der_header)
  next
    case False
    let ?k = "octets ?n"
    have "?n \<noteq> 0" using False by auto
    then have k: "0 < ?k" "?k \<le> 4"
      using octets_u32 [OF assms] by simp_all
    have eq: "der_element tag body @ rest =
        der_tag tag @ byte (128 + ?k) # (be_bytes ?k ?n @ body @ rest)"
      using False by (simp add: der_element_def der_header_def der_length_def)
    have val: "be_val (be_bytes ?k ?n) = ?n"
      using octets_bound [of ?n] by (simp add: be_val_be_bytes)
    have "256 ^ (?k - 1) \<le> ?n"
      using False by (intro octets_lower) auto
    with False k show ?thesis
      by (simp add: cbs_get_any_asn1_element_norm [OF eq tl] get_n_def length_der_element
          length_der_header val Let_def)
  qed
qed

text \<open>
  Conversely, in DER mode every accepted element is the one encoding of its tag and contents:
  non-minimal tags, non-minimal lengths and indefinite lengths are all rejected.
\<close>

lemma CBS_get_any_asn1_element_canonical:
  assumes "CBS_get_any_asn1_element cbs = (Some (out, tag, hl), rest)"
  obtains body where "cbs = out @ rest" "out = der_element tag body"
    "hl = length (der_header tag (length body))" "length body < 2 ^ 32"
proof -
  obtain tag' header where "parse_asn1_tag cbs = (Some tag', header)"
    using assms by (auto simp: CBS_get_any_asn1_element_def cbs_get_any_asn1_element_def
        split: prod.splits option.splits)
  moreover obtain lb h where "header = lb # h"
    using assms calculation
    by (cases header) (auto simp: CBS_get_any_asn1_element_def cbs_get_any_asn1_element_def)
  ultimately have eq: "cbs = der_tag tag' @ lb # h"
    by (auto dest: parse_asn1_tag_canonical)
  have tl: "length (der_tag tag') < 2 ^ 32"
    using length_der_tag [of tag'] by simp
  note norm = cbs_get_any_asn1_element_norm [OF eq tl, of False]
  let ?hl = "Suc (length (der_tag tag'))"
  show thesis
  proof (cases "unat lb < 128")
    case True
    then have g: "get_n cbs tag' ?hl (unat lb + ?hl) = (Some (out, tag, hl), rest)"
      using assms by (simp add: CBS_get_any_asn1_element_def norm)
    then have len: "unat lb \<le> length h" and "tag' = tag"
      and out: "out = der_tag tag @ lb # take (unat lb) h" "hl = ?hl"
      by (auto simp: get_n_def eq split: if_splits)
    have "cbs = out @ rest"
      using g by (simp add: rd_ok)
    then show thesis
      using True len out \<open>tag' = tag\<close>
      by (intro that [of "take (unat lb) h"])
         (auto simp: der_element_def der_header_def der_length_def)
  next
    case False
    define k where "k = unat lb - 128"
    note norm = norm [folded k_def]
    let ?n = "be_val (take k h)"
    have ok: "\<not> (k = 0 \<or> 4 < k \<or> length h < k)" "\<not> (?n < 128 \<or> ?n < 256 ^ (k - 1))"
      and g: "get_n cbs tag' (?hl + k) (?n + ?hl + k) = (Some (out, tag, hl), rest)"
      using assms False
      by (auto simp: CBS_get_any_asn1_element_def norm Let_def split: if_splits)
    have n: "?n < 256 ^ k"
      using be_val_less [of "take k h"] ok(1) by simp
    moreover have "Suc (k - 1) = k" using ok(1) by linarith
    ultimately have oct: "octets ?n = k"
      using octets_eqI [of "k - 1" ?n] ok(2) by simp
    have "(256 :: nat) ^ k \<le> 256 ^ 4"
      using ok(1) by (intro power_increasing) auto
    with n have "?n < 2 ^ 32" by simp
    have "?n + k \<le> length h" "tag' = tag" "hl = ?hl + k"
      and out: "out = der_tag tag @ lb # take (?n + k) h"
      using g ok(1) by (auto simp: get_n_def eq split: if_splits)
    moreover have "take (?n + k) h = be_bytes k ?n @ take ?n (drop k h)"
      using ok(1) be_bytes_be_val [of "take k h"] by (simp add: take_add add.commute)
    moreover have "byte (128 + k) = lb"
      using False by (simp add: k_def)
    moreover have "cbs = out @ rest"
      using g by (simp add: rd_ok)
    ultimately show thesis
      using \<open>?n < 2 ^ 32\<close> ok(2) oct
      by (intro that [of "take ?n (drop k h)"])
         (auto simp: der_element_def der_header_def der_length_def)
  qed
qed

section \<open>Typed elements and values\<close>

text \<open>
  The readers of typed elements, characterised by the DER specification: each accepts exactly
  the encodings of the values it returns.
\<close>

lemma CBS_get_asn1_iff:
  "CBS_get_asn1 cbs tag = (Some body, rest) \<longleftrightarrow>
   cbs = der_element tag body @ rest \<and> length body < 2 ^ 32"
proof
  assume "CBS_get_asn1 cbs tag = (Some body, rest)"
  then obtain out hl where el: "CBS_get_any_asn1_element cbs = (Some (out, tag, hl), rest)"
    and body: "fst (CBS_skip out hl) \<noteq> None" "body = snd (CBS_skip out hl)"
    by (auto simp: CBS_get_asn1_def cbs_get_asn1_def rd_ok split: if_splits option.splits prod.splits)
  from el obtain b where "cbs = out @ rest" "out = der_element tag b"
    "hl = length (der_header tag (length b))" "length b < 2 ^ 32"
    by (rule CBS_get_any_asn1_element_canonical)
  with body show "cbs = der_element tag body @ rest \<and> length body < 2 ^ 32"
    by (simp add: der_element_def)
next
  assume "cbs = der_element tag body @ rest \<and> length body < 2 ^ 32"
  moreover have "CBS_skip (der_element tag body) (length (der_header tag (length body))) = (Some (), body)"
    by (simp add: der_element_def)
  ultimately show "CBS_get_asn1 cbs tag = (Some body, rest)"
    by (simp add: CBS_get_asn1_def cbs_get_asn1_def CBS_get_any_asn1_element_def
        cbs_get_any_asn1_element_der)
qed

lemma CBS_get_asn1_der [simp]:
  "length body < 2 ^ 32 \<Longrightarrow> CBS_get_asn1 (der_element tag body @ rest) tag = (Some body, rest)"
  by (simp add: CBS_get_asn1_iff)

lemma CBS_peek_asn1_tag_der [simp]:
  "CBS_peek_asn1_tag (der_element tag body @ rest) tag' = (tag' = tag)"
  by (simp add: CBS_peek_asn1_tag_def CBS_len_def der_element_def der_header_def
      parse_asn1_tag_der_tag Suc_le_eq)

lemma shift_in_u64:
  "unat out < 2 ^ 56 \<Longrightarrow> unat (shift_in out d) = unat out * 256 + unat d"
  using unat_less_u8 [of d]
  by (simp add: shift_in_def unat_shift_or unat_ucast)

lemma asn1_uint64_loop_eq:
  "asn1_uint64_loop out ds =
     (let v = unat out * 256 ^ length ds + be_val ds in
      if v < 2 ^ 64 then Some (of_nat v) else None)"
proof (induction ds arbitrary: out)
  case Nil
  then show ?case
    using unsigned_less [of out, where ?'a = nat] by simp
next
  case (Cons d ds)
  have fits: "drop_bit 56 out = 0 \<longleftrightarrow> unat out < 2 ^ 56"
    by (auto simp: word_eq_iff_unsigned [where ?'a = nat] unat_drop_bit div_eq_0_iff)
  let ?v = "unat out * 256 ^ length (d # ds) + be_val (d # ds)"
  show ?case
  proof (cases "unat out < 2 ^ 56")
    case True
    have "unat (shift_in out d) * 256 ^ length ds + be_val ds = ?v"
      using shift_in_u64 [OF True, of d] by (simp add: be_val_Cons algebra_simps)
    then show ?thesis
      using True Cons.IH [of "shift_in out d"] by (simp add: fits)
  next
    case False
    have "(2 :: nat) ^ 64 \<le> 2 ^ 56 * 256 ^ length (d # ds)" by simp
    also have "\<dots> \<le> unat out * 256 ^ length (d # ds)"
      using False by (intro mult_le_mono1) simp
    finally have "\<not> ?v < 2 ^ 64" by simp
    then show ?thesis
      using False by (simp only: asn1_uint64_loop.simps fits Let_def) simp
  qed
qed

lemma CBS_get_asn1_uint64_iff:
  "CBS_get_asn1_uint64 cbs = (Some v, rest) \<longleftrightarrow>
   cbs = der_element CBS_ASN1_INTEGER (der_uint (unat v)) @ rest"
proof
  assume "CBS_get_asn1_uint64 cbs = (Some v, rest)"
  then obtain data where get: "CBS_get_asn1 cbs CBS_ASN1_INTEGER = (Some data, rest)"
    and "data \<noteq> []" and pos: "unat (data ! 0) < 128"
    and lead: "\<not> (data ! 0 = 0 \<and> 1 < length data \<and> unat (data ! 1) < 128)"
    and loop: "asn1_uint64_loop 0 data = Some v"
    by (auto simp: CBS_get_asn1_uint64_def Let_def rd_ok u8_high_bit_iff split: if_splits)
  have "be_val data < 2 ^ 64" "v = of_nat (be_val data)"
    using loop by (auto simp: asn1_uint64_loop_eq Let_def split: if_splits)
  then have "unat v = be_val data"
    by (simp add: unat_of_nat_u64)
  moreover have "int_min data"
    using \<open>data \<noteq> []\<close> pos lead by (auto simp: int_min_def unat_eq_zero)
  ultimately have "der_uint (unat v) = data"
    using pos by (simp add: der_uint_be_val)
  with get show "cbs = der_element CBS_ASN1_INTEGER (der_uint (unat v)) @ rest"
    by (simp add: CBS_get_asn1_iff)
next
  let ?d = "der_uint (unat v)"
  assume cbs: "cbs = der_element CBS_ASN1_INTEGER ?d @ rest"
  have v: "unat v < 2 ^ 64"
    using unsigned_less [of v, where ?'a = nat] by simp
  have "length ?d < 2 ^ 32"
    using int_octets_u64 [OF v] by simp
  then have "CBS_get_asn1 cbs CBS_ASN1_INTEGER = (Some ?d, rest)"
    by (simp add: cbs)
  moreover have "asn1_uint64_loop 0 ?d = Some v"
    using v by (simp add: asn1_uint64_loop_eq be_val_der_uint)
  moreover have "\<not> (?d ! 0 = 0 \<and> length ?d > 1 \<and> ?d ! 1 AND 0x80 = 0)"
    using der_uint_min(1) [of "unat v"] by (auto simp: int_min_def u8_high_bit_iff)
  ultimately show "CBS_get_asn1_uint64 cbs = (Some v, rest)"
    using der_uint_min(2,3) [of "unat v"]
    by (simp add: CBS_get_asn1_uint64_def Let_def u8_high_bit_iff del: length_der_uint)
qed

lemma foldl_copy_rev:
  "n \<le> length data \<Longrightarrow> length data \<le> length u \<Longrightarrow>
   foldl (\<lambda>u i. u[i := data ! (length data - i - 1)]) u [0..<n] = take n (rev data) @ drop n u"
proof (induction n)
  case (Suc n)
  then have "foldl (\<lambda>u i. u[i := data ! (length data - i - 1)]) u [0..<n] = take n (rev data) @ drop n u"
    by simp
  moreover have "take (Suc n) (rev data) = take n (rev data) @ [data ! (length data - n - 1)]"
    using Suc.prems by (simp add: take_Suc_conv_app_nth rev_nth)
  moreover have "drop n u = u ! n # drop (Suc n) u"
    using Suc.prems by (simp add: Cons_nth_drop_Suc)
  ultimately show ?case
    using Suc.prems by (simp add: list_update_append)
qed simp

lemma be_val_replicate_0: "be_val (replicate m 0 @ data) = be_val data"
  by (induction m) (simp_all add: be_val_Cons)

lemma be_val_replicate_ff:
  "be_val (replicate m 0xff @ data) + 256 ^ length data = 256 ^ (m + length data) + be_val data"
proof (induction m)
  case (Suc m)
  have "unat (0xff :: u8) = 255" by simp
  then have "be_val (replicate (Suc m) 0xff @ data) + 256 ^ length data =
      255 * 256 ^ (m + length data) + (be_val (replicate m 0xff @ data) + 256 ^ length data)"
    by (simp only: replicate_Suc append_Cons be_val_Cons length_append length_replicate)
  then show ?case using Suc by simp
qed simp

text \<open>Sign extension to eight octets, as a 64-bit word, has the value of the contents.\<close>

lemma sint_sign_extend:
  assumes "data \<noteq> []" "length data \<le> 8"
  shows "sint (of_nat (be_val (replicate (8 - length data)
            (if 128 \<le> unat (data ! 0) then 0xff else 0) @ data)) :: u64) = int_val data"
proof -
  let ?n = "length data"
  obtain d ds where data: "data = d # ds" using assms(1) by (cases data) auto
  have len: "8 - ?n + ?n = 8" using assms(2) by simp
  have lt: "be_val data < 256 ^ ?n" by (rule be_val_less)
  have ds: "be_val ds < 256 ^ length ds" by (rule be_val_less)
  have pn: "(256 :: nat) ^ ?n = 256 * 256 ^ length ds" by (simp add: data)
  have p8: "(256 :: nat) ^ ?n \<le> 2 ^ 64"
    using power_increasing [of ?n 8 "256 :: nat"] assms(2) by simp
  show ?thesis
  proof (cases "unat d < 128")
    case True
    have "be_val data < (unat d + 1) * 256 ^ length ds"
      using ds by (simp add: data be_val_Cons)
    also have "\<dots> \<le> 128 * 256 ^ length ds"
      using True by (intro mult_le_mono1) simp
    finally have "2 * be_val data < 2 ^ 64"
      using p8 pn by linarith
    then have "sint (of_nat (be_val data) :: u64) = int (be_val data)"
      by (simp add: sint_of_nat_u64)
    then show ?thesis
      using True by (simp add: int_val_def data be_val_replicate_0 [of _ "d # ds"])
  next
    case False
    let ?v = "be_val (replicate (8 - ?n) 0xff @ data)"
    have v: "?v + 256 ^ ?n = 2 ^ 64 + be_val data"
      using be_val_replicate_ff [of "8 - ?n" data] len by simp
    have "128 * 256 ^ length ds \<le> be_val data"
      using False by (simp add: data be_val_Cons trans_le_add1)
    then have "2 ^ 63 \<le> ?v" "?v < 2 ^ 64"
      using v lt p8 pn by simp_all
    then have "sint (of_nat ?v :: u64) = int ?v - 2 ^ 64"
      by (simp add: sint_of_nat_u64)
    also have "\<dots> = int (be_val data) - 256 ^ ?n"
      using arg_cong [OF v, of int] by simp
    finally show ?thesis
      using False by (simp add: int_val_def data)
  qed
qed

lemma int_min_iff:
  "int_min data \<longleftrightarrow> data \<noteq> [] \<and> \<not> (1 < length data \<and> data ! 0 = 0 \<and> data ! 1 AND 0x80 = 0) \<and>
     \<not> (1 < length data \<and> data ! 0 = 0xff \<and> data ! 1 AND 0x80 \<noteq> 0)"
proof -
  have "data ! 0 = 0xff \<longleftrightarrow> unat (data ! 0) = 255"
    by (simp add: word_eq_iff_unsigned [where ?'a = nat])
  then show ?thesis
    by (auto simp: int_min_def u8_high_bit_iff unat_eq_zero not_less)
qed

lemma CBS_get_asn1_int64_eq:
  "CBS_get_asn1_int64 cbs = rd_bind (CBS_get_asn1 cbs CBS_ASN1_INTEGER) (\<lambda>data cbs.
     if int_min data \<and> length data \<le> 8
     then (Some (of_nat (be_val (replicate (8 - length data)
             (if 128 \<le> unat (data ! 0) then 0xff else 0) @ data))), cbs)
     else (None, cbs))"
proof -
  have "le_val (foldl (\<lambda>u i. u[i := data ! (length data - i - 1)]) (replicate 8 f) [0..<length data])
      = be_val (replicate (8 - length data) f @ data)" if "length data \<le> 8" for data :: bytes and f
    using that foldl_copy_rev [of "length data" data "replicate 8 f"] by (simp add: le_val_def)
  then show ?thesis
    unfolding CBS_get_asn1_int64_def Let_def
    by (intro arg_cong [where f = "rd_bind _"] ext)
       (auto simp: int_min_iff u8_high_bit_iff not_less split: if_splits)
qed

lemma CBS_get_asn1_int64_iff:
  "CBS_get_asn1_int64 cbs = (Some v, rest) \<longleftrightarrow>
   cbs = der_element CBS_ASN1_INTEGER (der_int (sint v)) @ rest"
proof
  assume "CBS_get_asn1_int64 cbs = (Some v, rest)"
  then obtain data where get: "CBS_get_asn1 cbs CBS_ASN1_INTEGER = (Some data, rest)"
    and data: "int_min data" "length data \<le> 8"
    and v: "v = of_nat (be_val (replicate (8 - length data)
             (if 128 \<le> unat (data ! 0) then 0xff else 0) @ data))"
    by (auto simp: CBS_get_asn1_int64_eq rd_ok split: if_splits)
  have "sint v = int_val data"
    unfolding v using data by (intro sint_sign_extend) (auto simp: int_min_def)
  then have "der_int (sint v) = data"
    using data(1) by (simp add: der_int_int_val)
  with get show "cbs = der_element CBS_ASN1_INTEGER (der_int (sint v)) @ rest"
    by (simp add: CBS_get_asn1_iff)
next
  let ?d = "der_int (sint v)"
  assume cbs: "cbs = der_element CBS_ASN1_INTEGER ?d @ rest"
  have len: "length ?d \<le> 8"
  proof (cases "sint v" rule: int_casesE)
    case (nonneg n)
    have "2 * n < 256 ^ 8"
      using sint_lt [of v] nonneg by simp
    then have "octets (2 * n) \<le> 8" by (rule octets_le)
    then show ?thesis by (simp add: nonneg int_octets_nonneg)
  next
    case (neg n)
    have "2 * n < 256 ^ 8"
      using sint_ge [of v] neg by simp
    then have "octets (2 * n) \<le> 8" by (rule octets_le)
    then show ?thesis by (simp only: neg length_der_int int_octets_neg)
  qed
  then have "CBS_get_asn1 cbs CBS_ASN1_INTEGER = (Some ?d, rest)"
    by (simp add: cbs)
  moreover have "sint (of_nat (be_val (replicate (8 - length ?d)
             (if 128 \<le> unat (?d ! 0) then 0xff else 0) @ ?d)) :: u64) = sint v"
    using len der_int_min [of "sint v"]
    by (subst sint_sign_extend) (auto simp: int_min_def int_val_der_int)
  then have "of_nat (be_val (replicate (8 - length ?d)
             (if 128 \<le> unat (?d ! 0) then 0xff else 0) @ ?d)) = v"
    by (rule signed_word_eqI)
  ultimately show "CBS_get_asn1_int64 cbs = (Some v, rest)"
    using len der_int_min [of "sint v"]
    by (simp only: CBS_get_asn1_int64_eq rd_bind_simps) simp
qed

definition der_bool :: "bool \<Rightarrow> bytes" where
  "der_bool b = [if b then 0xff else 0]"

lemma CBS_get_asn1_bool_iff:
  "CBS_get_asn1_bool cbs = (Some b, rest) \<longleftrightarrow>
   cbs = der_element CBS_ASN1_BOOLEAN (der_bool b) @ rest"
proof
  assume "CBS_get_asn1_bool cbs = (Some b, rest)"
  then obtain d where "CBS_get_asn1 cbs CBS_ASN1_BOOLEAN = (Some [d], rest)"
    "d = (if b then 0xff else 0)"
    by (auto simp: CBS_get_asn1_bool_def Let_def rd_ok CBS_len_def length_Suc_conv split: if_splits)
  then show "cbs = der_element CBS_ASN1_BOOLEAN (der_bool b) @ rest"
    by (simp add: CBS_get_asn1_iff der_bool_def)
next
  assume "cbs = der_element CBS_ASN1_BOOLEAN (der_bool b) @ rest"
  then show "CBS_get_asn1_bool cbs = (Some b, rest)"
    by (simp add: CBS_get_asn1_bool_def der_bool_def CBS_len_def)
qed

text \<open>Length-prefixed byte strings, for the one- to three-byte prefixes of TLS.\<close>

lemma cbs_get_length_prefixed_iff:
  assumes "n \<le> 3"
  shows "cbs_get_length_prefixed cbs n = (Some body, rest) \<longleftrightarrow>
     cbs = be_bytes n (length body) @ body @ rest \<and> length body < 256 ^ n"
proof
  assume "cbs_get_length_prefixed cbs n = (Some body, rest)"
  then obtain len c where u: "cbs_get_u cbs n = (Some len, c)" and c: "c = body @ rest"
    and len: "unat len = length body"
    by (auto simp: cbs_get_length_prefixed_def rd_ok)
  from u assms have p: "cbs = take n cbs @ c" "length (take n cbs) = n"
    and v: "len = of_nat (be_val (take n cbs))"
    by (auto simp: cbs_get_u_eq split: if_splits)
  have lt: "be_val (take n cbs) < 256 ^ n"
    using be_val_less [of "take n cbs"] p(2) by simp
  also have "(256 :: nat) ^ n \<le> 256 ^ 3"
    using assms by (intro power_increasing) auto
  finally have "unat len = be_val (take n cbs)"
    by (simp add: v unat_of_nat_u64)
  with len p lt c be_bytes_be_val [of "take n cbs"]
  show "cbs = be_bytes n (length body) @ body @ rest \<and> length body < 256 ^ n"
    by metis
next
  assume a: "cbs = be_bytes n (length body) @ body @ rest \<and> length body < 256 ^ n"
  have "(256 :: nat) ^ n \<le> 256 ^ 3"
    using assms by (intro power_increasing) auto
  then have "length body < 2 ^ 64" using a by simp
  then show "cbs_get_length_prefixed cbs n = (Some body, rest)"
    using a assms
    by (simp add: cbs_get_length_prefixed_def cbs_get_u_append be_val_be_bytes unat_of_nat_u64)
qed


section \<open>The contract of a reader\<close>

text \<open>
  A reader \<open>get\<close> decodes the encoding \<open>enc\<close> of the values that satisfy \<open>valid\<close>: it reads
  back what was encoded, leaving what follows, and accepts nothing else. Clients need no more
  than that to know that encodings are unique and that sequences can be read back.
\<close>

primrec rd_list :: "(bytes \<Rightarrow> 'a rd) \<Rightarrow> nat \<Rightarrow> bytes \<Rightarrow> 'a list rd" where
  "rd_list get 0 cbs = (Some [], cbs)"
| "rd_list get (Suc n) cbs =
     rd_bind (get cbs) (\<lambda>x cbs. rd_bind (rd_list get n cbs) (\<lambda>xs cbs. (Some (x # xs), cbs)))"

locale codec =
  fixes get :: "bytes \<Rightarrow> 'a rd" and enc :: "'a \<Rightarrow> bytes" and valid :: "'a \<Rightarrow> bool"
  assumes get_iff: "get cbs = (Some v, rest) \<longleftrightarrow> cbs = enc v @ rest \<and> valid v"
begin

lemma get_enc: "valid v \<Longrightarrow> get (enc v @ rest) = (Some v, rest)"
  by (simp add: get_iff)

lemma prefix_free: "valid v \<Longrightarrow> valid w \<Longrightarrow> enc v @ r = enc w @ s \<Longrightarrow> v = w \<and> r = s"
  by (metis get_enc option.inject prod.inject)

lemma rd_list_iff:
  "rd_list get n cbs = (Some vs, rest) \<longleftrightarrow>
     cbs = concat (map enc vs) @ rest \<and> length vs = n \<and> (\<forall>v \<in> set vs. valid v)"
proof (induction n arbitrary: cbs vs)
  case (Suc n)
  show ?case
    by (cases vs) (auto simp: rd_ok get_iff Suc)
qed auto

end

lemma cbs_get_u_iff:
  assumes "n \<le> 8"
  shows "cbs_get_u cbs n = (Some v, rest) \<longleftrightarrow> cbs = be_bytes n (unat v) @ rest \<and> unat v < 256 ^ n"
proof
  have "(256 :: nat) ^ n \<le> 256 ^ 8" using assms by (intro power_increasing) auto
  then have p: "(256 :: nat) ^ n \<le> 2 ^ 64" by simp
  {
    assume "cbs_get_u cbs n = (Some v, rest)"
    then have c: "length (take n cbs) = n" "v = of_nat (be_val (take n cbs))" "rest = drop n cbs"
      using assms by (auto simp: cbs_get_u_eq split: if_splits)
    have lt: "be_val (take n cbs) < 256 ^ n"
      using be_val_less [of "take n cbs"] c(1) by simp
    then have "unat v = be_val (take n cbs)"
      using p by (simp add: c(2) unat_of_nat_u64)
    then show "cbs = be_bytes n (unat v) @ rest \<and> unat v < 256 ^ n"
      using lt c be_bytes_be_val [of "take n cbs"] by (metis append_take_drop_id)
  next
    assume "cbs = be_bytes n (unat v) @ rest \<and> unat v < 256 ^ n"
    then show "cbs_get_u cbs n = (Some v, rest)"
      using assms by (simp add: cbs_get_u_append be_val_be_bytes)
  }
qed

lemma u8_codec: "codec CBS_get_u8 (\<lambda>v. be_bytes 1 (unat v)) (\<lambda>_. True)"
  by unfold_locales (simp add: rd_ok)

lemma ucast_codec:
  fixes f :: "bytes \<Rightarrow> 'a::len word rd"
  assumes f: "\<And>cbs. f cbs = rd_bind (cbs_get_u cbs n) (\<lambda>v cbs. (Some (ucast v), cbs))"
    and n: "n \<le> 8" and len: "8 * n \<le> LENGTH('a)" "LENGTH('a) \<le> 64"
  shows "codec f (\<lambda>v. be_bytes n (unat v)) (\<lambda>v. unat v < 256 ^ n)"
proof
  fix cbs rest and v :: "'a word"
  have p: "(256 :: nat) ^ n = 2 ^ (8 * n)" by (simp add: power_mult)
  have le: "(2 :: nat) ^ (8 * n) \<le> 2 ^ LENGTH('a)" "(2 :: nat) ^ LENGTH('a) \<le> 2 ^ 64"
    using len by (intro power_increasing; simp)+
  have *: "unat w < 256 ^ n \<and> ucast w = v \<longleftrightarrow> unat v < 256 ^ n \<and> w = ucast v" for w :: u64
  proof -
    have "unat (ucast w :: 'a word) = unat w" if "unat w < 256 ^ n"
      using order_less_le_trans [OF that [unfolded p] le(1)] by (simp add: unat_ucast)
    moreover have "unat (ucast v :: u64) = unat v"
      using order_less_le_trans [OF unsigned_less [of v, where ?'a = nat] le(2)] by (simp add: unat_ucast)
    ultimately show ?thesis by (metis unat_eqI)
  qed
  have "f cbs = (Some v, rest) \<longleftrightarrow> (\<exists>w :: u64. cbs_get_u cbs n = (Some w, rest) \<and> ucast w = v)"
    by (auto simp: f rd_ok)
  also have "\<dots> \<longleftrightarrow> (\<exists>w :: u64. cbs = be_bytes n (unat w) @ rest \<and> unat w < 256 ^ n \<and> ucast w = v)"
    by (simp add: cbs_get_u_iff [OF n] conj_assoc)
  also have "\<dots> \<longleftrightarrow> (\<exists>w :: u64. cbs = be_bytes n (unat w) @ rest \<and> unat v < 256 ^ n \<and> w = ucast v)"
    by (simp only: *)
  also have "\<dots> \<longleftrightarrow> cbs = be_bytes n (unat v) @ rest \<and> unat v < 256 ^ n"
    using order_less_le_trans [OF unsigned_less [of v, where ?'a = nat] le(2)] by (auto simp: unat_ucast)
  finally show "f cbs = (Some v, rest) \<longleftrightarrow> cbs = be_bytes n (unat v) @ rest \<and> unat v < 256 ^ n" .
qed

interpretation u8: codec CBS_get_u8 "\<lambda>v. be_bytes 1 (unat v)" "\<lambda>_. True"
  by (rule u8_codec)

interpretation u16: codec CBS_get_u16 "\<lambda>v. be_bytes 2 (unat v)" "\<lambda>v. unat v < 256 ^ 2"
  by (rule ucast_codec) (simp_all add: CBS_get_u16_def)

interpretation u24: codec CBS_get_u24 "\<lambda>v. be_bytes 3 (unat v)" "\<lambda>v. unat v < 256 ^ 3"
  by (rule ucast_codec) (simp_all add: CBS_get_u24_def)

interpretation u32: codec CBS_get_u32 "\<lambda>v. be_bytes 4 (unat v)" "\<lambda>v. unat v < 256 ^ 4"
  by (rule ucast_codec) (simp_all add: CBS_get_u32_def)

interpretation u64: codec CBS_get_u64 "\<lambda>v. be_bytes 8 (unat v)" "\<lambda>v. unat v < 256 ^ 8"
  by unfold_locales (simp add: CBS_get_u64_def cbs_get_u_iff)

interpretation asn1_uint64:
  codec CBS_get_asn1_uint64 "\<lambda>v. der_element CBS_ASN1_INTEGER (der_uint (unat v))" "\<lambda>_. True"
  by unfold_locales (simp add: CBS_get_asn1_uint64_iff)

interpretation asn1_int64:
  codec CBS_get_asn1_int64 "\<lambda>v. der_element CBS_ASN1_INTEGER (der_int (sint v))" "\<lambda>_. True"
  by unfold_locales (simp add: CBS_get_asn1_int64_iff)

interpretation asn1_bool:
  codec CBS_get_asn1_bool "\<lambda>v. der_element CBS_ASN1_BOOLEAN (der_bool v)" "\<lambda>_. True"
  by unfold_locales (simp add: CBS_get_asn1_bool_iff)

interpretation asn1_octet_string:
  codec "\<lambda>cbs. CBS_get_asn1 cbs CBS_ASN1_OCTETSTRING" "der_element CBS_ASN1_OCTETSTRING"
    "\<lambda>v. length v < 2 ^ 32"
  by unfold_locales (simp add: CBS_get_asn1_iff)

end
