(* ===== verification/Cbb.thy ===== *)
theory Cbb
  imports Cbs
begin

text \<open>
  \<^verbatim>\<open>crypto/bytestring/cbb.c\<close>: the CBB (crypto byte builder). All CBBs of one tree share a
  growable buffer; a CBB has at most one open child, so the open CBBs form a chain. The state
  holds the shared \<open>cbb_buffer_st\<close> (\<open>None\<close> once it is freed) and the chain from the root to
  the innermost open child; a CBB is named by its depth in the chain. A CBB whose length prefix
  has been written is no longer in the chain (its \<open>base\<close> is null) and every call on it fails.

  Writers return whether the C function returned one, and the state as the call leaves it.
\<close>

section \<open>Model\<close>

record cbb_buffer =
  cb_buf :: bytes
  cb_len :: nat
  cb_cap :: nat
  cb_can_resize :: bool
  cb_error :: bool

record cbb =
  offset :: nat
  pending_len_len :: nat
  pending_is_asn1 :: bool
  is_child :: bool

record cbb_state =
  base :: "cbb_buffer option"
  chain :: "cbb list"

type_synonym malloc_fn = "nat \<Rightarrow> bytes option"

definition wr_bind :: "bool \<times> 's \<Rightarrow> ('s \<Rightarrow> bool \<times> 's) \<Rightarrow> bool \<times> 's" where
  "wr_bind r f = (case r of (ok, s) \<Rightarrow> if ok then f s else (False, s))"

subsection \<open>Initialisation\<close>

definition CBB_zero :: cbb_state where
  "CBB_zero = \<lparr>base = None,
     chain = [\<lparr>offset = 0, pending_len_len = 0, pending_is_asn1 = False, is_child = False\<rparr>]\<rparr>"

definition sizeof_cbb_buffer_st :: nat where
  "sizeof_cbb_buffer_st = 32"

definition cbb_init :: "malloc_fn \<Rightarrow> cbb_state \<Rightarrow> bytes \<Rightarrow> nat \<Rightarrow> bool \<times> cbb_state" where
  "cbb_init malloc st buf cap =
     (case OPENSSL_malloc malloc sizeof_cbb_buffer_st of
        None \<Rightarrow> (False, st)
      | Some _ \<Rightarrow>
          (True, st\<lparr>base := Some \<lparr>cb_buf = buf, cb_len = 0, cb_cap = cap,
                                  cb_can_resize = True, cb_error = False\<rparr>\<rparr>))"

definition CBB_init :: "malloc_fn \<Rightarrow> nat \<Rightarrow> bool \<times> cbb_state" where
  "CBB_init malloc initial_capacity =
     (case OPENSSL_malloc malloc initial_capacity of
        None \<Rightarrow> if initial_capacity > 0 then (False, CBB_zero)
                else cbb_init malloc CBB_zero [] initial_capacity
      | Some blk \<Rightarrow> cbb_init malloc CBB_zero (payload blk) initial_capacity)"

definition CBB_init_fixed :: "malloc_fn \<Rightarrow> bytes \<Rightarrow> nat \<Rightarrow> bool \<times> cbb_state" where
  "CBB_init_fixed malloc buf len =
     wr_bind (cbb_init malloc CBB_zero buf len) (\<lambda>st.
       (True, st\<lparr>base := map_option (\<lambda>b. b\<lparr>cb_can_resize := False\<rparr>) (base st)\<rparr>))"

definition CBB_cleanup :: "nat \<Rightarrow> cbb_state \<Rightarrow> cbb_state" where
  "CBB_cleanup d st = (if is_child (chain st ! d) then st else st\<lparr>base := None\<rparr>)"

subsection \<open>The shared buffer\<close>

text \<open>The pointer that these functions store in \<open>*out\<close> is the old length, an index into the buffer.\<close>

definition cbb_buffer_reserve :: "malloc_fn \<Rightarrow> cbb_buffer \<Rightarrow> nat \<Rightarrow> bool \<times> cbb_buffer" where
  "cbb_buffer_reserve malloc b len =
     (let newlen = size_wrap (cb_len b + len) in
      if newlen < cb_len b then (False, b\<lparr>cb_error := True\<rparr>)
      else if newlen > cb_cap b then
        (let newcap = size_wrap (cb_cap b * 2) in
         if \<not> cb_can_resize b then (False, b\<lparr>cb_error := True\<rparr>)
         else (let newcap = (if newcap < cb_cap b \<or> newcap < newlen then newlen else newcap) in
               case fst (OPENSSL_realloc malloc (Some (mk_block (cb_buf b))) newcap) of
                 None \<Rightarrow> (False, b\<lparr>cb_error := True\<rparr>)
               | Some newbuf \<Rightarrow> (True, b\<lparr>cb_buf := payload newbuf, cb_cap := newcap\<rparr>)))
      else (True, b))"

definition cbb_buffer_add :: "malloc_fn \<Rightarrow> cbb_buffer \<Rightarrow> nat \<Rightarrow> bool \<times> cbb_buffer" where
  "cbb_buffer_add malloc b len =
     wr_bind (cbb_buffer_reserve malloc b len) (\<lambda>b. (True, b\<lparr>cb_len := cb_len b + len\<rparr>))"

text \<open>
  The loop that stores \<open>n\<close> big-endian bytes from index \<open>p\<close> on, last byte first; it returns
  the buffer and what is left of the value.
\<close>

fun store_be_loop :: "bytes \<Rightarrow> nat \<Rightarrow> nat \<Rightarrow> nat \<Rightarrow> bytes \<times> nat" where
  "store_be_loop buf p 0 v = (buf, v)"
| "store_be_loop buf p (Suc i) v = store_be_loop (buf[p + i := byte v]) p i (v div 256)"

definition cbb_buffer_add_u :: "malloc_fn \<Rightarrow> cbb_buffer \<Rightarrow> u64 \<Rightarrow> nat \<Rightarrow> bool \<times> cbb_buffer" where
  "cbb_buffer_add_u malloc b v len_len =
     (if len_len = 0 then (True, b)
      else wr_bind (cbb_buffer_add malloc b len_len) (\<lambda>b.
        let (buf, v) = store_be_loop (cb_buf b) (cb_len b - len_len) len_len (unat v);
            b = b\<lparr>cb_buf := buf\<rparr>
        in if v \<noteq> 0 then (False, b\<lparr>cb_error := True\<rparr>) else (True, b)))"

subsection \<open>Writing out pending length prefixes\<close>

text \<open>The length octets of an ASN.1 child: how many, the first one, and the length still to store.\<close>

definition asn1_len_prefix :: "nat \<Rightarrow> nat \<times> u8 \<times> nat" where
  "asn1_len_prefix len =
     (if len > 0xffffff then (5, 0x80 OR 4, len)
      else if len > 0xffff then (4, 0x80 OR 3, len)
      else if len > 0xff then (3, 0x80 OR 2, len)
      else if len > 0x7f then (2, 0x80 OR 1, len)
      else (1, byte len, 0))"

text \<open>The last part of \<open>CBB_flush\<close>: store the pending prefix, and detach the child.\<close>

definition flush_store :: "cbb_buffer \<Rightarrow> cbb \<Rightarrow> nat \<Rightarrow> bool \<times> cbb_buffer \<times> cbb list" where
  "flush_store b ch len =
     (let (buf, left) = store_be_loop (cb_buf b) (offset ch) (pending_len_len ch) len;
          b = b\<lparr>cb_buf := buf\<rparr>
      in if left \<noteq> 0 then (False, b\<lparr>cb_error := True\<rparr>, [ch]) else (True, b, []))"

text \<open>
  \<open>cbb_flush_child\<close> writes the pending prefix of the child \<open>ch\<close> once the children of \<open>ch\<close>
  are flushed; \<open>CBB_flush_chain b (ch # cs)\<close> is \<open>CBB_flush\<close> on the parent of \<open>ch\<close>.
\<close>

definition cbb_flush_child ::
    "malloc_fn \<Rightarrow> cbb_buffer \<Rightarrow> cbb \<Rightarrow> nat \<Rightarrow> bool \<times> cbb_buffer \<times> cbb list" where
  "cbb_flush_child malloc b ch child_start =
     (let len = cb_len b - child_start in
      if pending_is_asn1 ch then
        (if len > 0xfffffffe then (False, b\<lparr>cb_error := True\<rparr>, [ch])
         else
           (let (len_len, initial_length_byte, len') = asn1_len_prefix len;
                extra_bytes = len_len - 1;
                (ok, b) = (if len_len \<noteq> 1 then
                    wr_bind (cbb_buffer_add malloc b extra_bytes) (\<lambda>b.
                      (True, b\<lparr>cb_buf := mem_write (cb_buf b) (child_start + extra_bytes)
                                  (take len (drop child_start (cb_buf b)))\<rparr>))
                  else (True, b))
            in if \<not> ok then (False, b\<lparr>cb_error := True\<rparr>, [ch])
               else flush_store (b\<lparr>cb_buf := (cb_buf b)[offset ch := initial_length_byte]\<rparr>)
                      (ch\<lparr>offset := offset ch + 1, pending_len_len := len_len - 1\<rparr>) len'))
      else flush_store b ch len)"

fun CBB_flush_chain ::
    "malloc_fn \<Rightarrow> cbb_buffer \<Rightarrow> cbb list \<Rightarrow> bool \<times> cbb_buffer \<times> cbb list" where
  "CBB_flush_chain malloc b [] = (\<not> cb_error b, b, [])"
| "CBB_flush_chain malloc b (ch # cs) =
     (if cb_error b then (False, b, ch # cs)
      else if pending_len_len ch = 0 then (True, b, ch # cs)
      else (let child_start = size_wrap (offset ch + pending_len_len ch);
                (ok, b, cs) = CBB_flush_chain malloc b cs
            in if \<not> ok \<or> child_start < offset ch \<or> cb_len b < child_start
               then (False, b\<lparr>cb_error := True\<rparr>, ch # cs)
               else (case cbb_flush_child malloc b ch child_start of
                       (True, b, _) \<Rightarrow> (True, b, [])
                     | (False, b, chs) \<Rightarrow> (False, b, chs @ cs))))"

definition CBB_flush :: "malloc_fn \<Rightarrow> nat \<Rightarrow> cbb_state \<Rightarrow> bool \<times> cbb_state" where
  "CBB_flush malloc d st =
     (case base st of
        None \<Rightarrow> (False, st)
      | Some b \<Rightarrow>
          if length (chain st) \<le> d then (False, st)
          else (let (ok, b, cs) = CBB_flush_chain malloc b (drop (Suc d) (chain st))
                in (ok, st\<lparr>base := Some b, chain := take (Suc d) (chain st) @ cs\<rparr>)))"

text \<open>
  \<open>out_data_null\<close> and \<open>out_len_null\<close> say which output pointers are null. The output is
  the finished byte string.
\<close>

definition CBB_finish ::
    "malloc_fn \<Rightarrow> nat \<Rightarrow> cbb_state \<Rightarrow> bool \<Rightarrow> bool \<Rightarrow> bytes option \<times> cbb_state" where
  "CBB_finish malloc d st out_data_null out_len_null =
     (if d < length (chain st) \<and> is_child (chain st ! d) then (None, st)
      else (case CBB_flush malloc d st of
              (False, st) \<Rightarrow> (None, st)
            | (True, st) \<Rightarrow>
                (let b = the (base st) in
                 if cb_can_resize b \<and> (out_data_null \<or> out_len_null) then (None, st)
                 else (Some (take (cb_len b) (cb_buf b)), CBB_cleanup d st))))"

definition CBB_len :: "nat \<Rightarrow> cbb_state \<Rightarrow> nat" where
  "CBB_len d st =
     (let c = chain st ! d in cb_len (the (base st)) - offset c - pending_len_len c)"

definition CBB_data :: "nat \<Rightarrow> cbb_state \<Rightarrow> bytes" where
  "CBB_data d st =
     (let c = chain st ! d in drop (offset c + pending_len_len c) (cb_buf (the (base st))))"

subsection \<open>Opening children\<close>

text \<open>The new child is at depth \<open>Suc d\<close>.\<close>

definition cbb_add_length_prefixed :: "malloc_fn \<Rightarrow> nat \<Rightarrow> cbb_state \<Rightarrow> nat \<Rightarrow> bool \<times> cbb_state" where
  "cbb_add_length_prefixed malloc d st len_len =
     wr_bind (CBB_flush malloc d st) (\<lambda>st.
       let offs = cb_len (the (base st)) in
       case cbb_buffer_add malloc (the (base st)) len_len of
         (False, b) \<Rightarrow> (False, st\<lparr>base := Some b\<rparr>)
       | (True, b) \<Rightarrow>
           (True, st\<lparr>base := Some (b\<lparr>cb_buf := mem_write (cb_buf b) offs (replicate len_len 0)\<rparr>),
                    chain := take (Suc d) (chain st) @
                      [\<lparr>offset = offs, pending_len_len = len_len, pending_is_asn1 = False,
                        is_child = True\<rparr>]\<rparr>))"

definition CBB_add_u8_length_prefixed :: "malloc_fn \<Rightarrow> nat \<Rightarrow> cbb_state \<Rightarrow> bool \<times> cbb_state" where
  "CBB_add_u8_length_prefixed malloc d st = cbb_add_length_prefixed malloc d st 1"

definition CBB_add_u16_length_prefixed :: "malloc_fn \<Rightarrow> nat \<Rightarrow> cbb_state \<Rightarrow> bool \<times> cbb_state" where
  "CBB_add_u16_length_prefixed malloc d st = cbb_add_length_prefixed malloc d st 2"

definition CBB_add_u24_length_prefixed :: "malloc_fn \<Rightarrow> nat \<Rightarrow> cbb_state \<Rightarrow> bool \<times> cbb_state" where
  "CBB_add_u24_length_prefixed malloc d st = cbb_add_length_prefixed malloc d st 3"

definition CBB_add_u :: "malloc_fn \<Rightarrow> nat \<Rightarrow> cbb_state \<Rightarrow> u64 \<Rightarrow> nat \<Rightarrow> bool \<times> cbb_state" where
  "CBB_add_u malloc d st v n =
     wr_bind (CBB_flush malloc d st) (\<lambda>st.
       let (ok, b) = cbb_buffer_add_u malloc (the (base st)) v n
       in (ok, st\<lparr>base := Some b\<rparr>))"

definition CBB_add_u8 :: "malloc_fn \<Rightarrow> nat \<Rightarrow> cbb_state \<Rightarrow> u8 \<Rightarrow> bool \<times> cbb_state" where
  "CBB_add_u8 malloc d st v = CBB_add_u malloc d st (ucast v) 1"

fun base128_len_len :: "nat \<Rightarrow> nat" where
  "base128_len_len copy = (if copy > 0 then Suc (base128_len_len (copy div 128)) else 0)"

declare base128_len_len.simps [simp del]

fun add_base128_loop :: "malloc_fn \<Rightarrow> nat \<Rightarrow> cbb_state \<Rightarrow> u64 \<Rightarrow> nat \<Rightarrow> bool \<times> cbb_state" where
  "add_base128_loop malloc d st v 0 = (True, st)"
| "add_base128_loop malloc d st v (Suc i) =
     (let byt = ucast (drop_bit (7 * i) v) AND 0x7f;
          byt = (if i \<noteq> 0 then byt OR 0x80 else byt)
      in wr_bind (CBB_add_u8 malloc d st byt) (\<lambda>st. add_base128_loop malloc d st v i))"

definition add_base128_integer :: "malloc_fn \<Rightarrow> nat \<Rightarrow> cbb_state \<Rightarrow> u64 \<Rightarrow> bool \<times> cbb_state" where
  "add_base128_integer malloc d st v =
     (let len_len = base128_len_len (unat v);
          len_len = (if len_len = 0 then 1 else len_len)
      in add_base128_loop malloc d st v len_len)"

definition CBB_add_asn1 :: "malloc_fn \<Rightarrow> nat \<Rightarrow> cbb_state \<Rightarrow> u32 \<Rightarrow> bool \<times> cbb_state" where
  "CBB_add_asn1 malloc d st tag =
     wr_bind (CBB_flush malloc d st) (\<lambda>st.
       let tag_bits = ucast (drop_bit CBS_ASN1_TAG_SHIFT tag) AND 0xe0;
           tag_number = tag AND CBS_ASN1_TAG_NUMBER_MASK
       in wr_bind
            (if tag_number \<ge> 0x1f
             then wr_bind (CBB_add_u8 malloc d st (tag_bits OR 0x1f)) (\<lambda>st.
                    add_base128_integer malloc d st (ucast tag_number))
             else CBB_add_u8 malloc d st (tag_bits OR ucast tag_number)) (\<lambda>st.
          let offs = cb_len (the (base st)) in
          wr_bind (CBB_add_u8 malloc d st 0) (\<lambda>st.
            (True, st\<lparr>chain := take (Suc d) (chain st) @
               [\<lparr>offset = offs, pending_len_len = 1, pending_is_asn1 = True, is_child = True\<rparr>]\<rparr>))))"

subsection \<open>Adding data\<close>

definition CBB_add_bytes :: "malloc_fn \<Rightarrow> nat \<Rightarrow> cbb_state \<Rightarrow> bytes \<Rightarrow> bool \<times> cbb_state" where
  "CBB_add_bytes malloc d st data =
     wr_bind (CBB_flush malloc d st) (\<lambda>st.
       let offs = cb_len (the (base st)) in
       case cbb_buffer_add malloc (the (base st)) (length data) of
         (False, b) \<Rightarrow> (False, st\<lparr>base := Some b\<rparr>)
       | (True, b) \<Rightarrow> (True, st\<lparr>base := Some (b\<lparr>cb_buf := mem_write (cb_buf b) offs data\<rparr>)\<rparr>))"

text \<open>\<open>*out_data\<close> is the old length, an index into the buffer.\<close>

definition CBB_add_space :: "malloc_fn \<Rightarrow> nat \<Rightarrow> cbb_state \<Rightarrow> nat \<Rightarrow> bool \<times> cbb_state" where
  "CBB_add_space malloc d st len =
     wr_bind (CBB_flush malloc d st) (\<lambda>st.
       let (ok, b) = cbb_buffer_add malloc (the (base st)) len in (ok, st\<lparr>base := Some b\<rparr>))"

definition CBB_reserve :: "malloc_fn \<Rightarrow> nat \<Rightarrow> cbb_state \<Rightarrow> nat \<Rightarrow> bool \<times> cbb_state" where
  "CBB_reserve malloc d st len =
     wr_bind (CBB_flush malloc d st) (\<lambda>st.
       let (ok, b) = cbb_buffer_reserve malloc (the (base st)) len in (ok, st\<lparr>base := Some b\<rparr>))"

definition CBB_did_write :: "nat \<Rightarrow> cbb_state \<Rightarrow> nat \<Rightarrow> bool \<times> cbb_state" where
  "CBB_did_write d st len =
     (let b = the (base st); newlen = size_wrap (cb_len b + len) in
      if Suc d < length (chain st) \<or> newlen < cb_len b \<or> newlen > cb_cap b then (False, st)
      else (True, st\<lparr>base := Some (b\<lparr>cb_len := newlen\<rparr>)\<rparr>))"

definition CBB_add_u16 :: "malloc_fn \<Rightarrow> nat \<Rightarrow> cbb_state \<Rightarrow> u16 \<Rightarrow> bool \<times> cbb_state" where
  "CBB_add_u16 malloc d st v = CBB_add_u malloc d st (ucast v) 2"

definition CBB_add_u16le :: "malloc_fn \<Rightarrow> nat \<Rightarrow> cbb_state \<Rightarrow> u16 \<Rightarrow> bool \<times> cbb_state" where
  "CBB_add_u16le malloc d st v = CBB_add_u16 malloc d st (CRYPTO_bswap2 v)"

definition CBB_add_u24 :: "malloc_fn \<Rightarrow> nat \<Rightarrow> cbb_state \<Rightarrow> u32 \<Rightarrow> bool \<times> cbb_state" where
  "CBB_add_u24 malloc d st v = CBB_add_u malloc d st (ucast v) 3"

definition CBB_add_u32 :: "malloc_fn \<Rightarrow> nat \<Rightarrow> cbb_state \<Rightarrow> u32 \<Rightarrow> bool \<times> cbb_state" where
  "CBB_add_u32 malloc d st v = CBB_add_u malloc d st (ucast v) 4"

definition CBB_add_u32le :: "malloc_fn \<Rightarrow> nat \<Rightarrow> cbb_state \<Rightarrow> u32 \<Rightarrow> bool \<times> cbb_state" where
  "CBB_add_u32le malloc d st v = CBB_add_u32 malloc d st (CRYPTO_bswap4 v)"

definition CBB_add_u64 :: "malloc_fn \<Rightarrow> nat \<Rightarrow> cbb_state \<Rightarrow> u64 \<Rightarrow> bool \<times> cbb_state" where
  "CBB_add_u64 malloc d st v = CBB_add_u malloc d st v 8"

definition CBB_add_u64le :: "malloc_fn \<Rightarrow> nat \<Rightarrow> cbb_state \<Rightarrow> u64 \<Rightarrow> bool \<times> cbb_state" where
  "CBB_add_u64le malloc d st v = CBB_add_u64 malloc d st (CRYPTO_bswap8 v)"

definition CBB_discard_child :: "nat \<Rightarrow> cbb_state \<Rightarrow> cbb_state" where
  "CBB_discard_child d st =
     (if length (chain st) \<le> Suc d then st
      else st\<lparr>base := map_option (\<lambda>b. b\<lparr>cb_len := offset (chain st ! Suc d)\<rparr>) (base st),
              chain := take (Suc d) (chain st)\<rparr>)"

end
