(* ===== verification/Cbb_Refine.thy ===== *)
theory Cbb_Refine
  imports Cbb "HOL-Library.Monad_Syntax"
begin

text \<open>
  What a tree of CBBs promises. The abstract state is the list of open frames, from the root to
  the innermost child: the kind of length prefix a frame will get and the bytes written to it so
  far. Opening a child adds a frame, writing appends bytes, and flushing closes the frames
  below: each one becomes its prefix and its contents, in its parent. The theory shows that the
  operations of \<^verbatim>\<open>cbb.c\<close> implement this specification, over one shared
  buffer, back-patched prefixes and moved contents, and that they succeed when the
  specification does and no allocation fails.
\<close>

section \<open>Specification\<close>

datatype prefix_kind = Root | Fixed nat | Asn1

type_synonym frame = "prefix_kind \<times> bytes"

primrec plen :: "prefix_kind \<Rightarrow> nat" where
  "plen Root = 0"
| "plen (Fixed n) = n"
| "plen Asn1 = 1"

definition close_prefix :: "prefix_kind \<Rightarrow> nat \<Rightarrow> bytes option" where
  "close_prefix k len =
     (case k of
        Root \<Rightarrow> Some []
      | Fixed n \<Rightarrow> if len < 256 ^ n then Some (be_bytes n len) else None
      | Asn1 \<Rightarrow> if len \<le> 0xfffffffe then Some (der_length len) else None)"

fun close_frames :: "frame list \<Rightarrow> bytes option" where
  "close_frames [] = Some []"
| "close_frames ((k, body) # fs) =
     do { inner \<leftarrow> close_frames fs;
          p \<leftarrow> close_prefix k (length body + length inner);
          Some (p @ body @ inner) }"

text \<open>Writing \<open>x\<close> to the CBB at depth \<open>d\<close>, and opening a child below it after a header \<open>x\<close>.\<close>

definition put_at :: "nat \<Rightarrow> bytes \<Rightarrow> frame list \<Rightarrow> frame list option" where
  "put_at d x fs =
     (if length fs \<le> d then None
      else do { y \<leftarrow> close_frames (drop (Suc d) fs);
                Some (take d fs @ [(fst (fs ! d), snd (fs ! d) @ y @ x)]) })"

definition open_at :: "nat \<Rightarrow> bytes \<Rightarrow> prefix_kind \<Rightarrow> frame list \<Rightarrow> frame list option" where
  "open_at d x k fs = map_option (\<lambda>fs. fs @ [(k, [])]) (put_at d x fs)"

section \<open>Representation\<close>

text \<open>The buffer holds the frames in order, with zeros where a prefix is pending.\<close>

fun flat :: "frame list \<Rightarrow> bytes" where
  "flat [] = []"
| "flat ((k, body) # fs) = replicate (plen k) 0 @ body @ flat fs"

definition frame_cbb :: "nat \<Rightarrow> prefix_kind \<Rightarrow> cbb" where
  "frame_cbb pos k =
     \<lparr>offset = pos, pending_len_len = plen k, pending_is_asn1 = (k = Asn1), is_child = (k \<noteq> Root)\<rparr>"

fun chain_of :: "nat \<Rightarrow> frame list \<Rightarrow> cbb list" where
  "chain_of pos [] = []"
| "chain_of pos ((k, body) # fs) = frame_cbb pos k # chain_of (pos + plen k + length body) fs"

definition written :: "cbb_buffer \<Rightarrow> bytes" where
  "written b = take (cb_len b) (cb_buf b)"

definition buf_wf :: "cbb_buffer \<Rightarrow> bool" where
  "buf_wf b \<longleftrightarrow> length (cb_buf b) = cb_cap b \<and> cb_len b \<le> cb_cap b \<and> cb_cap b \<le> PTRDIFF_MAX
     \<and> (cb_can_resize b \<longrightarrow> cb_cap b + 8 \<le> PTRDIFF_MAX)"

definition children_ok :: "frame list \<Rightarrow> bool" where
  "children_ok fs \<longleftrightarrow> (\<forall>f \<in> set fs. 0 < plen (fst f))"

definition frames_ok :: "frame list \<Rightarrow> bool" where
  "frames_ok fs \<longleftrightarrow> fs \<noteq> [] \<and> fst (hd fs) = Root \<and> children_ok (tl fs)"

definition cbb_rep :: "cbb_state \<Rightarrow> frame list \<Rightarrow> bool" where
  "cbb_rep st fs \<longleftrightarrow> frames_ok fs \<and> chain st = chain_of 0 fs \<and>
     (case base st of
        None \<Rightarrow> False
      | Some b \<Rightarrow> buf_wf b \<and> \<not> cb_error b \<and> written b = flat fs)"

text \<open>What allocation has to do for a call to succeed.\<close>

definition malloc_total :: "malloc_fn \<Rightarrow> bool" where
  "malloc_total malloc \<longleftrightarrow> (\<forall>n \<le> PTRDIFF_MAX. malloc n \<noteq> None)"

definition roomy :: "cbb_buffer \<Rightarrow> bool" where
  "roomy b \<longleftrightarrow> cb_can_resize b \<and> cb_cap b < 2 ^ 62"

definition st_roomy :: "cbb_state \<Rightarrow> bool" where
  "st_roomy st \<longleftrightarrow> (\<exists>b. base st = Some b \<and> roomy b)"

section \<open>The shared buffer\<close>

lemma wr_bind_simps [simp]:
  "wr_bind (True, s) f = f s"
  "wr_bind (False, s) f = (False, s)"
  by (simp_all add: wr_bind_def)

lemma wr_bind_True_iff:
  "wr_bind r f = (True, s') \<longleftrightarrow> (\<exists>s. r = (True, s) \<and> f s = (True, s'))"
  by (cases r; cases "fst r") auto

lemma mem_write_append:
  "length a = i \<Longrightarrow> length b = length xs \<Longrightarrow> mem_write (a @ b @ c) i xs = a @ xs @ c"
  by (simp add: mem_write_def)

lemma store_be_loop_eq:
  "p + n \<le> length buf \<Longrightarrow> store_be_loop buf p n v = (mem_write buf p (be_bytes n v), v div 256 ^ n)"
proof (induction n arbitrary: buf v)
  case 0
  then show ?case by (simp add: mem_write_def)
next
  case (Suc n)
  have "mem_write (buf[p + n := byte v]) p (be_bytes n (v div 256)) =
      mem_write buf p (be_bytes n (v div 256) @ [byte v])"
    using Suc.prems
    by (simp add: mem_write_def take_update_cancel drop_update_swap Cons_nth_drop_Suc [symmetric])
  then show ?case
    using Suc by (simp add: div_mult2_eq)
qed

lemma buf_split: "buf_wf b \<Longrightarrow> cb_buf b = written b @ drop (cb_len b) (cb_buf b)"
  by (simp add: written_def)

lemma length_written [simp]: "buf_wf b \<Longrightarrow> length (written b) = cb_len b"
  by (simp add: written_def buf_wf_def)

definition grows_to :: "cbb_buffer \<Rightarrow> cbb_buffer \<Rightarrow> bool" where
  "grows_to b b' \<longleftrightarrow> buf_wf b' \<and> cb_error b' = cb_error b \<and> cb_can_resize b' = cb_can_resize b"

lemma cbb_buffer_reserve_True:
  assumes m: "malloc_spec malloc" and b: "buf_wf b" and n: "n \<le> PTRDIFF_MAX"
    and r: "cbb_buffer_reserve malloc b n = (True, b')"
  shows "grows_to b b'" "cb_len b' = cb_len b" "written b' = written b" "cb_len b + n \<le> cb_cap b'"
proof -
  have wrap: "size_wrap (cb_len b + n) = cb_len b + n" "size_wrap (cb_cap b * 2) = cb_cap b * 2"
    using b n by (auto simp: buf_wf_def PTRDIFF_MAX_def)
  have "grows_to b b' \<and> cb_len b' = cb_len b \<and> written b' = written b \<and> cb_len b + n \<le> cb_cap b'"
  proof (cases "cb_len b + n > cb_cap b")
    case False
    then show ?thesis
      using r b wrap by (auto simp: cbb_buffer_reserve_def grows_to_def)
  next
    case True
    define cap where "cap = (if cb_cap b * 2 < cb_len b + n then cb_len b + n else cb_cap b * 2)"
    obtain blk old where re: "OPENSSL_realloc malloc (Some (mk_block (cb_buf b))) cap = (Some blk, old)"
      and b': "b' = b\<lparr>cb_buf := payload blk, cb_cap := cap\<rparr>" and rs: "cb_can_resize b"
      using r True
      by (cases "OPENSSL_realloc malloc (Some (mk_block (cb_buf b))) cap")
         (auto simp: cbb_buffer_reserve_def wrap cap_def Let_def
           split: if_splits option.splits)
    have cap: "cb_cap b \<le> cap" "cap + 8 < 2 ^ 64" "cb_len b + n \<le> cap"
      using True b n rs by (auto simp: cap_def buf_wf_def PTRDIFF_MAX_def)
    with b have "length (cb_buf b) \<le> cap" by (simp add: buf_wf_def)
    note g = OPENSSL_realloc_grow [OF m this cap(2) re]
    have "take (cb_len b) (payload blk) = take (cb_len b) (cb_buf b)"
      using g(2) b by (metis buf_wf_def min.absorb1 take_take)
    then show ?thesis
      using g cap b rs by (simp add: b' grows_to_def buf_wf_def written_def)
  qed
  then show "grows_to b b'" "cb_len b' = cb_len b" "written b' = written b" "cb_len b + n \<le> cb_cap b'"
    by simp_all
qed

lemma cbb_buffer_reserve_live:
  assumes m: "malloc_total malloc" and b: "buf_wf b" "roomy b" and n: "cb_len b + n < 2 ^ 61"
  shows "\<exists>b'. cbb_buffer_reserve malloc b n = (True, b') \<and> roomy b'"
proof -
  have wrap: "size_wrap (cb_len b + n) = cb_len b + n" "size_wrap (cb_cap b * 2) = cb_cap b * 2"
    using b n by (auto simp: roomy_def)
  define cap where "cap = (if cb_cap b * 2 < cb_len b + n then cb_len b + n else cb_cap b * 2)"
  have r: "cbb_buffer_reserve malloc b n =
     (if cb_len b + n > cb_cap b
      then (case fst (OPENSSL_realloc malloc (Some (mk_block (cb_buf b))) cap) of
              None \<Rightarrow> (False, b\<lparr>cb_error := True\<rparr>)
            | Some newbuf \<Rightarrow> (True, b\<lparr>cb_buf := payload newbuf, cb_cap := cap\<rparr>))
      else (True, b))"
    using b(2) by (auto simp: cbb_buffer_reserve_def wrap cap_def roomy_def Let_def split: option.split)
  show ?thesis
  proof (cases "cb_len b + n > cb_cap b")
    case True
    then have cap: "cap < 2 ^ 62" using n by (auto simp: cap_def)
    then have "malloc (cap + 8) \<noteq> None"
      using m by (simp add: malloc_total_def PTRDIFF_MAX_def)
    then have "fst (OPENSSL_realloc malloc (Some (mk_block (cb_buf b))) cap) \<noteq> None"
      using cap by (auto simp: OPENSSL_realloc_def OPENSSL_malloc_def OPENSSL_MALLOC_PREFIX_def Let_def)
    then show ?thesis
      using True cap b(2) by (auto simp: r roomy_def)
  qed (use b(2) in \<open>simp add: r\<close>)
qed

text \<open>\<open>n\<close> bytes are added at the end; what they hold is up to the caller.\<close>

lemma cbb_buffer_add_True:
  assumes "malloc_spec malloc" "buf_wf b" "n \<le> PTRDIFF_MAX"
    and "cbb_buffer_add malloc b n = (True, b')"
  obtains ys slack where "grows_to b b'" "cb_len b' = cb_len b + n" "length ys = n"
    "cb_buf b' = written b @ ys @ slack"
proof -
  obtain c where r: "cbb_buffer_reserve malloc b n = (True, c)" and b': "b' = c\<lparr>cb_len := cb_len c + n\<rparr>"
    using assms(4) by (auto simp: cbb_buffer_add_def wr_bind_True_iff)
  note rr = cbb_buffer_reserve_True [OF assms(1-3) r]
  then have c: "buf_wf c" by (simp add: grows_to_def)
  let ?tl = "drop (cb_len c) (cb_buf c)"
  have "cb_buf b' = written b @ take n ?tl @ drop n ?tl"
    using buf_split [OF c] rr(3) by (simp only: append_take_drop_id) (simp add: b')
  moreover have "length (take n ?tl) = n"
    using rr c by (auto simp: buf_wf_def)
  moreover have "grows_to b b'" "cb_len b' = cb_len b + n"
    using rr c by (auto simp: b' grows_to_def buf_wf_def)
  ultimately show ?thesis using that by blast
qed

lemma cbb_buffer_add_live:
  assumes "malloc_total malloc" "buf_wf b" "roomy b" "cb_len b + n < 2 ^ 61"
  shows "\<exists>b'. cbb_buffer_add malloc b n = (True, b') \<and> roomy b'"
  using cbb_buffer_reserve_live [OF assms]
  by (auto simp: cbb_buffer_add_def roomy_def)

lemma written_whole:
  "cb_buf b = xs @ slack \<Longrightarrow> cb_len b = length xs \<Longrightarrow> written b = xs"
  by (simp add: written_def)

section \<open>Flushing\<close>

lemma asn1_len_prefix_eq:
  assumes "len \<le> 0xfffffffe"
  shows "asn1_len_prefix len =
     (if len < 128 then (1, byte len, 0) else (Suc (octets len), byte (128 + octets len), len))"
proof -
  have "octets len = 1" if "128 \<le> len" "len < 2 ^ 8"
    using octets_eqI [of 0 len] that by simp
  moreover have "octets len = 2" if "2 ^ 8 \<le> len" "len < 2 ^ 16"
    using octets_eqI [of 1 len] that by simp
  moreover have "octets len = 3" if "2 ^ 16 \<le> len" "len < 2 ^ 24"
    using octets_eqI [of 2 len] that by simp
  moreover have "octets len = 4" if "2 ^ 24 \<le> len"
    using octets_eqI [of 3 len] that assms by simp
  ultimately show ?thesis
    using assms by (auto simp: asn1_len_prefix_def byte_def)
qed

text \<open>Closing one frame: the prefix takes the place of the zeros, and ASN.1 contents may move.\<close>

lemma flush_store_eq:
  assumes "cb_buf b = pre @ zs @ slack" "offset ch = length pre" "length zs = pending_len_len ch"
  shows "flush_store b ch len =
     (if len < 256 ^ length zs
      then (True, b\<lparr>cb_buf := pre @ be_bytes (length zs) len @ slack\<rparr>, [])
      else (False, b\<lparr>cb_buf := pre @ be_bytes (length zs) len @ slack, cb_error := True\<rparr>, [ch]))"
proof -
  have "length pre + length zs \<le> length (cb_buf b)" by (simp add: assms)
  moreover have "mem_write (cb_buf b) (length pre) (be_bytes (length zs) len) =
      pre @ be_bytes (length zs) len @ slack"
    unfolding assms(1) by (rule mem_write_append) simp_all
  ultimately show ?thesis
    using assms(2,3) by (simp add: flush_store_def store_be_loop_eq Let_def div_greater_zero_iff)
qed

lemma cbb_flush_child_Fixed:
  assumes "buf_wf b" "written b = pre @ replicate n 0 @ c"
    and "cbb_flush_child malloc b (frame_cbb (length pre) (Fixed n)) (length pre + n) = (ok, b', cs)"
  shows "ok = (length c < 256 ^ n)"
    and "ok \<Longrightarrow> grows_to b b' \<and> written b' = pre @ be_bytes n (length c) @ c \<and> cb_cap b' = cb_cap b"
proof -
  let ?slack = "drop (cb_len b) (cb_buf b)"
  have split: "cb_buf b = pre @ replicate n 0 @ c @ ?slack"
    using buf_split [OF assms(1)] assms(2) by simp
  have len: "cb_len b = length pre + n + length c"
    using length_written [OF assms(1)] assms(2) by simp
  have r: "(ok, b', cs) = (if length c < 256 ^ n
      then (True, b\<lparr>cb_buf := pre @ be_bytes n (length c) @ c @ ?slack\<rparr>, [])
      else (False, b\<lparr>cb_buf := pre @ be_bytes n (length c) @ c @ ?slack, cb_error := True\<rparr>,
            [frame_cbb (length pre) (Fixed n)]))"
    unfolding assms(3) [symmetric]
    by (simp add: cbb_flush_child_def frame_cbb_def len flush_store_eq [OF split] Let_def)
  then show "ok = (length c < 256 ^ n)"
    by (auto split: if_splits)
  assume ok
  with r have b': "b' = b\<lparr>cb_buf := pre @ be_bytes n (length c) @ c @ ?slack\<rparr>"
    by (auto split: if_splits)
  have "length (cb_buf b) = length (pre @ replicate n 0 @ c @ ?slack)"
    using split by metis
  then have "length (cb_buf b') = length (cb_buf b)" by (simp add: b')
  then have "grows_to b b'"
    using assms(1) by (simp add: grows_to_def buf_wf_def b')
  moreover have "written b' = pre @ be_bytes n (length c) @ c"
    by (rule written_whole [where slack = ?slack]) (simp_all add: b' len)
  ultimately show "grows_to b b' \<and> written b' = pre @ be_bytes n (length c) @ c \<and> cb_cap b' = cb_cap b"
    by (simp add: b')
qed

lemma octets_PTRDIFF: "len \<le> 0xfffffffe \<Longrightarrow> octets len \<le> PTRDIFF_MAX \<and> octets len \<le> 4"
  using octets_u32 [of len] by (simp add: PTRDIFF_MAX_def)

lemma cbb_flush_child_Asn1_short:
  assumes "buf_wf b" "written b = pre @ 0 # c" "length c < 128"
  shows "\<exists>b'. cbb_flush_child malloc b (frame_cbb (length pre) Asn1) (Suc (length pre)) = (True, b', []) \<and>
     grows_to b b' \<and> written b' = pre @ byte (length c) # c \<and> cb_cap b' = cb_cap b"
proof -
  let ?slack = "drop (cb_len b) (cb_buf b)"
  let ?b = "b\<lparr>cb_buf := pre @ byte (length c) # c @ ?slack\<rparr>"
  have split: "cb_buf b = pre @ 0 # c @ ?slack"
    using buf_split [OF assms(1)] assms(2) by simp
  have len: "cb_len b = Suc (length pre + length c)"
    using length_written [OF assms(1)] assms(2) by simp
  then have len': "cb_len b - Suc (length pre) = length c" by simp
  have upd: "(cb_buf b)[length pre := byte (length c)] = pre @ byte (length c) # c @ ?slack"
    by (subst split) simp
  have "cbb_flush_child malloc b (frame_cbb (length pre) Asn1) (Suc (length pre)) = (True, ?b, [])"
    using assms(3) upd len'
    by (simp add: cbb_flush_child_def frame_cbb_def asn1_len_prefix_eq flush_store_def Let_def)
  moreover have "grows_to b ?b"
    using assms(1) len by (auto simp: grows_to_def buf_wf_def)
  moreover have "written ?b = pre @ byte (length c) # c"
    by (rule written_whole [where slack = ?slack]) (simp_all add: len)
  ultimately show ?thesis by (intro exI [of _ ?b]) simp
qed

text \<open>The long form: make room, move the contents, store the first octet and the length.\<close>

lemma cbb_flush_child_Asn1_long:
  assumes m: "malloc_spec malloc" and b: "buf_wf b" "written b = pre @ 0 # c"
    and c: "128 \<le> length c" "length c \<le> 0xfffffffe"
    and add: "cbb_buffer_add malloc b (octets (length c)) = (True, b1)"
  shows "\<exists>b'. cbb_flush_child malloc b (frame_cbb (length pre) Asn1) (Suc (length pre)) = (True, b', []) \<and>
     grows_to b b' \<and> written b' = pre @ der_length (length c) @ c \<and> cb_cap b' = cb_cap b1"
proof -
  let ?k = "octets (length c)" and ?ib = "byte (128 + octets (length c))"
  have len: "cb_len b = Suc (length pre + length c)"
    using length_written [OF b(1)] b(2) by simp
  obtain ys slack where b1: "grows_to b b1" "cb_len b1 = cb_len b + ?k" "length ys = ?k"
    "cb_buf b1 = pre @ 0 # c @ ys @ slack"
    using cbb_buffer_add_True [OF m b(1) _ add] octets_PTRDIFF [OF c(2)] b(2) by auto
  obtain zs zs' where zs: "c @ ys = zs @ zs'" "length zs = ?k" "length zs' = length c"
  proof (rule that)
    show "c @ ys = take ?k (c @ ys) @ drop ?k (c @ ys)"
      by (rule append_take_drop_id [symmetric])
  qed (simp_all add: b1(3))
  then have buf: "cb_buf b1 = (pre @ 0 # zs) @ zs' @ slack"
    using b1(4) by simp
  have mv: "mem_write (cb_buf b1) (Suc (length pre) + ?k) c = pre @ 0 # zs @ c @ slack"
    unfolding buf using zs by (subst mem_write_append) simp_all
  have tk: "take (length c) (drop (Suc (length pre)) (cb_buf b1)) = c"
    by (simp add: b1(4))
  have ne: "c \<noteq> []" using c(1) by auto
  let ?b2 = "b1\<lparr>cb_buf := pre @ ?ib # zs @ c @ slack\<rparr>"
  let ?b' = "b1\<lparr>cb_buf := pre @ ?ib # be_bytes ?k (length c) @ c @ slack\<rparr>"
  have "length c < 256 ^ ?k" by (rule octets_bound)
  then have st: "flush_store ?b2 ((frame_cbb (length pre) Asn1)\<lparr>offset := Suc (length pre), pending_len_len := ?k\<rparr>)
      (length c) = (True, ?b', [])"
    using zs(2) by (subst flush_store_eq [where pre = "pre @ [?ib]" and zs = zs]) simp_all
  have "cbb_flush_child malloc b (frame_cbb (length pre) Asn1) (Suc (length pre)) = (True, ?b', [])"
    using c st add mv tk ne
    by (simp add: cbb_flush_child_def asn1_len_prefix_eq len Let_def frame_cbb_def)
  moreover have "grows_to b ?b'"
    using b1 arg_cong [OF b1(4), of length] by (simp add: grows_to_def buf_wf_def)
  moreover have "written ?b' = pre @ der_length (length c) @ c"
    by (rule written_whole [where slack = slack]) (use c in \<open>simp_all add: len b1 der_length_def\<close>)
  ultimately show ?thesis by (intro exI [of _ ?b']) simp
qed

lemma cbb_flush_child_sound:
  assumes m: "malloc_spec malloc" and b: "buf_wf b" "written b = pre @ replicate (plen k) 0 @ c"
    and k: "0 < plen k"
    and r: "cbb_flush_child malloc b (frame_cbb (length pre) k) (length pre + plen k) = (True, b', cs)"
  shows "\<exists>p. close_prefix k (length c) = Some p \<and> grows_to b b' \<and> written b' = pre @ p @ c"
proof (cases k)
  case (Fixed n)
  then show ?thesis
    using cbb_flush_child_Fixed [OF b(1), of pre n c malloc True b' cs] b(2) r
    by (simp add: close_prefix_def)
next
  case Asn1
  have w: "written b = pre @ 0 # c" using b(2) Asn1 by simp
  have len: "cb_len b - Suc (length pre) = length c"
    using length_written [OF b(1)] w by simp
  have small: "length c \<le> 0xfffffffe"
    using r by (auto simp: Asn1 cbb_flush_child_def frame_cbb_def len Let_def split: if_splits)
  show ?thesis
  proof (cases "length c < 128")
    case True
    then show ?thesis
      using cbb_flush_child_Asn1_short [OF b(1) w True, of malloc] r small
      by (auto simp: Asn1 close_prefix_def der_length_def)
  next
    case False
    obtain ok b1 where add: "cbb_buffer_add malloc b (octets (length c)) = (ok, b1)"
      by (cases "cbb_buffer_add malloc b (octets (length c))")
    have "ok"
    proof (rule ccontr)
      assume "\<not> ok"
      moreover have "c \<noteq> []" using False by auto
      ultimately show False
        using add False small r len
        by (auto simp: Asn1 cbb_flush_child_def frame_cbb_def asn1_len_prefix_eq Let_def)
    qed
    with add have "cbb_buffer_add malloc b (octets (length c)) = (True, b1)" by simp
    then show ?thesis
      using cbb_flush_child_Asn1_long [OF m b(1) w] False small r
      by (auto simp: Asn1 close_prefix_def)
  qed
qed (use k in simp)


lemma cbb_flush_child_live:
  assumes m: "malloc_spec malloc" "malloc_total malloc"
    and b: "buf_wf b" "roomy b" "written b = pre @ replicate (plen k) 0 @ c"
    and k: "0 < plen k" and p: "close_prefix k (length c) = Some p"
    and sz: "length pre + length p + length c < 2 ^ 61"
  shows "\<exists>b'. cbb_flush_child malloc b (frame_cbb (length pre) k) (length pre + plen k) = (True, b', [])
     \<and> roomy b'"
proof (cases k)
  case (Fixed n)
  obtain ok b' cs where r: "cbb_flush_child malloc b (frame_cbb (length pre) k) (length pre + n) = (ok, b', cs)"
    by (cases "cbb_flush_child malloc b (frame_cbb (length pre) k) (length pre + n)")
  then have ok: "ok" and g: "grows_to b b' \<and> cb_cap b' = cb_cap b"
    using cbb_flush_child_Fixed [OF b(1), of pre n c malloc ok b' cs] b(3) p
    by (auto simp: Fixed close_prefix_def split: if_splits)
  moreover have "cs = []"
    using r ok by (auto simp: Fixed cbb_flush_child_def flush_store_def frame_cbb_def Let_def
        split: prod.splits if_splits)
  ultimately show ?thesis
    using b(2) r by (auto simp: Fixed roomy_def grows_to_def)
next
  case Asn1
  have w: "written b = pre @ 0 # c" using b(3) Asn1 by simp
  have len: "cb_len b = Suc (length pre + length c)"
    using length_written [OF b(1)] w by simp
  have small: "length c \<le> 0xfffffffe" and pl: "p = der_length (length c)"
    using p by (auto simp: Asn1 close_prefix_def split: if_splits)
  show ?thesis
  proof (cases "length c < 128")
    case True
    then show ?thesis
      using cbb_flush_child_Asn1_short [OF b(1) w True, of malloc] b(2)
      by (auto simp: Asn1 roomy_def grows_to_def)
  next
    case False
    then have "cb_len b + octets (length c) < 2 ^ 61"
      using sz by (simp add: len pl length_der_length)
    then obtain b1 where "cbb_buffer_add malloc b (octets (length c)) = (True, b1)" "roomy b1"
      using cbb_buffer_add_live [OF m(2) b(1,2)] by blast
    then show ?thesis
      using cbb_flush_child_Asn1_long [OF m(1) b(1) w] False small b(2)
      by (auto simp: Asn1 roomy_def grows_to_def)
  qed
qed (use k in simp)

lemma grows_to_trans: "grows_to a b \<Longrightarrow> grows_to b c \<Longrightarrow> grows_to a c"
  by (simp add: grows_to_def)

lemma length_chain_of [simp]: "length (chain_of pos fs) = length fs"
  by (induction pos fs rule: chain_of.induct) auto

lemma children_ok_Cons [simp]: "children_ok ((k, body) # fs) \<longleftrightarrow> 0 < plen k \<and> children_ok fs"
  by (auto simp: children_ok_def)

lemma child_start_wrap:
  assumes "buf_wf b" "written b = pre @ replicate n 0 @ c"
  shows "size_wrap (length pre + n) = length pre + n" "length pre + n \<le> cb_len b"
proof -
  show "length pre + n \<le> cb_len b"
    using length_written [OF assms(1)] assms(2) by simp
  with assms(1) show "size_wrap (length pre + n) = length pre + n"
    by (auto simp: buf_wf_def PTRDIFF_MAX_def)
qed

lemma CBB_flush_chain_sound:
  assumes m: "malloc_spec malloc"
  shows "buf_wf b \<Longrightarrow> \<not> cb_error b \<Longrightarrow> written b = pre @ flat fs \<Longrightarrow> children_ok fs \<Longrightarrow>
    CBB_flush_chain malloc b (chain_of (length pre) fs) = (True, b', cs) \<Longrightarrow>
    \<exists>x. close_frames fs = Some x \<and> cs = [] \<and> grows_to b b' \<and> written b' = pre @ x"
proof (induction fs arbitrary: pre b' cs)
  case Nil
  then show ?case by (auto simp: grows_to_def)
next
  case (Cons f fs)
  obtain k body where f: "f = (k, body)" by (cases f)
  let ?pre = "pre @ replicate (plen k) 0 @ body"
  have k: "0 < plen k" "children_ok fs" using Cons.prems(4) by (simp_all add: f)
  obtain ok b1 cs1 where inner: "CBB_flush_chain malloc b (chain_of (length ?pre) fs) = (ok, b1, cs1)"
    by (cases "CBB_flush_chain malloc b (chain_of (length ?pre) fs)")
  have sw: "size_wrap (length pre + plen k) = length pre + plen k"
    using child_start_wrap(1) [OF Cons.prems(1), of pre "plen k" "body @ flat fs"] Cons.prems(3)
    by (simp add: f)
  note unf = Cons.prems(5) [unfolded f, simplified, unfolded frame_cbb_def [of "length pre" k]]
  have ok: "ok"
    using unf inner Cons.prems(2) k(1)
    by (auto simp: add.assoc Let_def split: if_splits prod.splits)
  obtain x where x: "close_frames fs = Some x" "cs1 = []" "grows_to b b1" "written b1 = ?pre @ x"
    using Cons.IH [of ?pre b1 cs1] Cons.prems(1-3) k(2) inner ok by (auto simp: f)
  obtain cs2 where cs: "cs = []"
    and fl: "cbb_flush_child malloc b1 (frame_cbb (length pre) k) (length pre + plen k) = (True, b', cs2)"
    using unf inner Cons.prems(2) k(1) ok sw
    by (auto simp: frame_cbb_def add.assoc Let_def split: if_splits prod.splits bool.splits)
  have "buf_wf b1" using x(3) by (simp add: grows_to_def)
  from cbb_flush_child_sound [OF m this _ k(1) fl, of "body @ x"] x(4)
  obtain p where "close_prefix k (length (body @ x)) = Some p" "grows_to b1 b'"
    "written b' = pre @ p @ body @ x" by auto
  with x cs show ?case
    by (auto simp: f intro: grows_to_trans)
qed

lemma close_frames_length: "close_frames fs = Some x \<Longrightarrow> children_ok fs \<Longrightarrow> length (flat fs) \<le> length x"
proof (induction fs arbitrary: x rule: close_frames.induct)
  case (2 k body fs)
  then obtain inner p where x: "close_frames fs = Some inner" "x = p @ body @ inner"
    and p: "close_prefix k (length body + length inner) = Some p"
    by (auto simp: bind_eq_Some_conv)
  have "plen k \<le> length p"
    using p by (auto simp: close_prefix_def length_der_length split: prefix_kind.splits if_splits)
  with 2 x show ?case by simp
qed simp

lemma CBB_flush_chain_live:
  assumes m: "malloc_spec malloc" "malloc_total malloc"
  shows "buf_wf b \<Longrightarrow> \<not> cb_error b \<Longrightarrow> roomy b \<Longrightarrow> written b = pre @ flat fs \<Longrightarrow> children_ok fs \<Longrightarrow>
    close_frames fs = Some x \<Longrightarrow> length pre + length x < 2 ^ 61 \<Longrightarrow>
    \<exists>b'. CBB_flush_chain malloc b (chain_of (length pre) fs) = (True, b', []) \<and> roomy b'"
proof (induction fs arbitrary: pre x)
  case (Cons f fs)
  obtain k body where f: "f = (k, body)" by (cases f)
  let ?pre = "pre @ replicate (plen k) 0 @ body"
  have k: "0 < plen k" "children_ok fs" using Cons.prems(5) by (simp_all add: f)
  obtain y p where y: "close_frames fs = Some y" "x = p @ body @ y"
    and p: "close_prefix k (length (body @ y)) = Some p"
    using Cons.prems(6) by (auto simp: f bind_eq_Some_conv)
  have "plen k \<le> length p"
    using p by (auto simp: close_prefix_def length_der_length split: prefix_kind.splits if_splits)
  then have sz: "length ?pre + length y < 2 ^ 61" "length pre + length p + length (body @ y) < 2 ^ 61"
    using Cons.prems(7) by (simp_all add: y(2))
  obtain b1 where b1: "CBB_flush_chain malloc b (chain_of (length ?pre) fs) = (True, b1, [])" "roomy b1"
    using Cons.IH [OF Cons.prems(1-3) _ k(2) y(1) sz(1)] Cons.prems(4) by (auto simp: f)
  obtain z where z: "grows_to b b1" "written b1 = ?pre @ y"
    using CBB_flush_chain_sound [OF m(1) Cons.prems(1,2) _ k(2) b1(1)] Cons.prems(4) y(1)
    by (auto simp: f)
  have wf: "buf_wf b1" using z(1) by (simp add: grows_to_def)
  have w: "written b1 = pre @ replicate (plen k) 0 @ (body @ y)" using z(2) by simp
  obtain b' where "cbb_flush_child malloc b1 (frame_cbb (length pre) k) (length pre + plen k) = (True, b', [])"
    "roomy b'"
    using cbb_flush_child_live [OF m wf b1(2) w k(1) p sz(2)] by blast
  then show ?case
    using Cons.prems(2) k(1) b1(1) child_start_wrap [OF wf w]
    by (simp add: f frame_cbb_def add.assoc)
qed simp


section \<open>Operations implement the specification\<close>

text \<open>
  \<open>f\<close> implements \<open>e\<close> on the frames that satisfy \<open>P\<close>: a successful call changes the
  frames as \<open>e\<close> says; a call that \<open>e\<close> allows succeeds when no allocation fails; and \<open>e\<close>
  never shrinks the output.
\<close>

type_synonym cbb_op = "cbb_state \<Rightarrow> bool \<times> cbb_state"
type_synonym frame_op = "frame list \<Rightarrow> frame list option"

definition cbb_sound :: "(frame list \<Rightarrow> bool) \<Rightarrow> cbb_op \<Rightarrow> frame_op \<Rightarrow> bool" where
  "cbb_sound P f e \<longleftrightarrow> (\<forall>st fs st'. P fs \<longrightarrow> cbb_rep st fs \<longrightarrow> f st = (True, st') \<longrightarrow>
     (\<exists>fs'. e fs = Some fs' \<and> cbb_rep st' fs'))"

definition cbb_live :: "(frame list \<Rightarrow> bool) \<Rightarrow> cbb_op \<Rightarrow> frame_op \<Rightarrow> bool" where
  "cbb_live P f e \<longleftrightarrow> (\<forall>st fs fs'. P fs \<longrightarrow> cbb_rep st fs \<longrightarrow> st_roomy st \<longrightarrow> e fs = Some fs' \<longrightarrow>
     length (flat fs') < 2 ^ 61 \<longrightarrow> (\<exists>st'. f st = (True, st') \<and> st_roomy st'))"

definition cbb_mono :: "frame_op \<Rightarrow> bool" where
  "cbb_mono e \<longleftrightarrow> (\<forall>fs fs'. frames_ok fs \<longrightarrow> e fs = Some fs' \<longrightarrow>
     frames_ok fs' \<and> length (flat fs) \<le> length (flat fs'))"

definition implements_on :: "(frame list \<Rightarrow> bool) \<Rightarrow> malloc_fn \<Rightarrow> cbb_op \<Rightarrow> frame_op \<Rightarrow> bool" where
  "implements_on P malloc f e \<longleftrightarrow>
     cbb_sound P f e \<and> (malloc_total malloc \<longrightarrow> cbb_live P f e) \<and> cbb_mono e"

abbreviation cbb_implements :: "malloc_fn \<Rightarrow> cbb_op \<Rightarrow> frame_op \<Rightarrow> bool" where
  "cbb_implements \<equiv> implements_on (\<lambda>_. True)"

abbreviation innermost :: "nat \<Rightarrow> frame list \<Rightarrow> bool" where
  "innermost d \<equiv> (\<lambda>fs. length fs = Suc d)"

lemma cbb_soundD:
  "cbb_sound P f e \<Longrightarrow> P fs \<Longrightarrow> cbb_rep st fs \<Longrightarrow> f st = (True, st') \<Longrightarrow>
   \<exists>fs'. e fs = Some fs' \<and> cbb_rep st' fs'"
  by (simp add: cbb_sound_def)

lemma cbb_liveD:
  "cbb_live P f e \<Longrightarrow> P fs \<Longrightarrow> cbb_rep st fs \<Longrightarrow> st_roomy st \<Longrightarrow> e fs = Some fs' \<Longrightarrow>
   length (flat fs') < 2 ^ 61 \<Longrightarrow> \<exists>st'. f st = (True, st') \<and> st_roomy st'"
  unfolding cbb_live_def by blast

lemma cbb_monoD:
  "cbb_mono e \<Longrightarrow> frames_ok fs \<Longrightarrow> e fs = Some fs' \<Longrightarrow>
   frames_ok fs' \<and> length (flat fs) \<le> length (flat fs')"
  by (simp add: cbb_mono_def)

lemma cbb_rep_ok: "cbb_rep st fs \<Longrightarrow> frames_ok fs"
  by (simp add: cbb_rep_def)

lemma cbb_sound_bind:
  assumes "cbb_sound P f e" "cbb_sound Q g e'" and Q: "\<And>fs fs'. P fs \<Longrightarrow> e fs = Some fs' \<Longrightarrow> Q fs'"
  shows "cbb_sound P (\<lambda>st. wr_bind (f st) g) (\<lambda>fs. e fs \<bind> e')"
  unfolding cbb_sound_def
proof (intro allI impI)
  fix st fs st' assume r: "P fs" "cbb_rep st fs" "wr_bind (f st) g = (True, st')"
  then obtain s where s: "f st = (True, s)" "g s = (True, st')"
    by (auto simp: wr_bind_True_iff)
  with cbb_soundD [OF assms(1) r(1,2)] obtain fs1 where "e fs = Some fs1" "cbb_rep s fs1" by blast
  with cbb_soundD [OF assms(2) _ _ s(2)] Q [OF r(1)]
  show "\<exists>fs'. e fs \<bind> e' = Some fs' \<and> cbb_rep st' fs'"
    by auto
qed

lemma cbb_mono_bind: "cbb_mono e \<Longrightarrow> cbb_mono e' \<Longrightarrow> cbb_mono (\<lambda>fs. e fs \<bind> e')"
  unfolding cbb_mono_def bind_eq_Some_conv by (meson le_trans)

lemma cbb_live_bind:
  assumes f: "cbb_sound P f e" "cbb_live P f e" "cbb_mono e" and g: "cbb_live Q g e'" "cbb_mono e'"
    and Q: "\<And>fs fs'. P fs \<Longrightarrow> e fs = Some fs' \<Longrightarrow> Q fs'"
  shows "cbb_live P (\<lambda>st. wr_bind (f st) g) (\<lambda>fs. e fs \<bind> e')"
  unfolding cbb_live_def
proof (intro allI impI)
  fix st fs fs' assume st: "P fs" "cbb_rep st fs" "st_roomy st" and "e fs \<bind> e' = Some fs'"
    and sz: "length (flat fs') < 2 ^ 61"
  then obtain fs1 where fs1: "e fs = Some fs1" "e' fs1 = Some fs'"
    by (auto simp: bind_eq_Some_conv)
  have "frames_ok fs1" using cbb_monoD [OF f(3) cbb_rep_ok [OF st(2)] fs1(1)] by simp
  then have "length (flat fs1) < 2 ^ 61"
    using cbb_monoD [OF g(2) _ fs1(2)] sz by simp
  then obtain s where s: "f st = (True, s)" "st_roomy s"
    using cbb_liveD [OF f(2) st fs1(1)] by blast
  then have "cbb_rep s fs1" using cbb_soundD [OF f(1) st(1,2)] fs1(1) by auto
  then show "\<exists>st'. wr_bind (f st) g = (True, st') \<and> st_roomy st'"
    using cbb_liveD [OF g(1) Q [OF st(1) fs1(1)] _ s(2) fs1(2) sz] s(1) by simp
qed

lemma implements_bind:
  assumes "implements_on P malloc f e" "implements_on Q malloc g e'"
    and "\<And>fs fs'. P fs \<Longrightarrow> e fs = Some fs' \<Longrightarrow> Q fs'"
  shows "implements_on P malloc (\<lambda>st. wr_bind (f st) g) (\<lambda>fs. e fs \<bind> e')"
  using assms unfolding implements_on_def by (metis cbb_sound_bind cbb_live_bind cbb_mono_bind)

subsection \<open>Frames\<close>

lemma flat_append: "flat (fs @ gs) = flat fs @ flat gs"
  by (induction fs rule: flat.induct) auto

lemma chain_of_append: "chain_of pos (fs @ gs) = chain_of pos fs @ chain_of (pos + length (flat fs)) gs"
  by (induction pos fs rule: chain_of.induct) (auto simp: add.assoc)

lemma drop_chain_of: "drop n (chain_of pos fs) = chain_of (pos + length (flat (take n fs))) (drop n fs)"
proof (cases "n \<le> length fs")
  case True
  have "chain_of pos fs = chain_of pos (take n fs @ drop n fs)" by simp
  then show ?thesis using True by (simp only: chain_of_append) simp
qed simp

lemma take_chain_of: "take n (chain_of pos fs) = chain_of pos (take n fs)"
proof (cases "n \<le> length fs")
  case True
  have "chain_of pos fs = chain_of pos (take n fs @ drop n fs)" by simp
  then show ?thesis using True by (simp only: chain_of_append) simp
qed simp

lemma children_ok_Nil [simp]: "children_ok []"
  by (simp add: children_ok_def)

lemma children_ok_append [simp]: "children_ok (xs @ ys) \<longleftrightarrow> children_ok xs \<and> children_ok ys"
  by (auto simp: children_ok_def)

text \<open>The frames split at depth \<open>d\<close>.\<close>

lemma frames_at:
  assumes "d < length fs"
  obtains up k body down where "fs = up @ (k, body) # down" "length up = d"
proof
  show "fs = take d fs @ (fst (fs ! d), snd (fs ! d)) # drop (Suc d) fs"
    using assms by (simp add: id_take_nth_drop)
qed (use assms in simp)

lemma put_at_split:
  "length up = d \<Longrightarrow> put_at d x (up @ (k, body) # down) =
     map_option (\<lambda>y. up @ [(k, body @ y @ x)]) (close_frames down)"
  by (cases "close_frames down") (simp_all add: put_at_def nth_append)

lemma frames_ok_split:
  "frames_ok (up @ (k, body) # down) \<longleftrightarrow> frames_ok (up @ [(k, body')]) \<and> children_ok down"
  by (cases up) (auto simp: frames_ok_def)

lemma put_at_mono: "cbb_mono (put_at d x)"
  unfolding cbb_mono_def
proof (intro allI impI)
  fix fs fs' assume ok: "frames_ok fs" and p: "put_at d x fs = Some fs'"
  then have "d < length fs" by (auto simp: put_at_def split: if_splits)
  then obtain up k body down where fs: "fs = up @ (k, body) # down" "length up = d"
    by (rule frames_at)
  with p obtain y where y: "close_frames down = Some y" "fs' = up @ [(k, body @ y @ x)]"
    by (auto simp: put_at_split)
  have "length (flat down) \<le> length y"
    using close_frames_length [OF y(1)] ok frames_ok_split [of up k body down body] by (auto simp: fs)
  then show "frames_ok fs' \<and> length (flat fs) \<le> length (flat fs')"
    using ok frames_ok_split [of up k body down "body @ y @ x"] by (auto simp: fs y flat_append)
qed

text \<open>Closing nothing and opening nothing; successive writes; a child that is closed again.\<close>

lemma put_at_put_at: "put_at d x fs \<bind> put_at d y = put_at d (x @ y) fs"
proof (cases "d < length fs")
  case True
  then obtain up k body down where "fs = up @ (k, body) # down" "length up = d"
    by (rule frames_at)
  then show ?thesis
    by (cases "close_frames down") (simp_all add: put_at_split put_at_split [where down = "[]"])
qed (simp add: put_at_def)

lemma put_at_child:
  "open_at d h k fs \<bind> put_at (Suc d) x \<bind> put_at d t =
     (case close_prefix k (length x) of None \<Rightarrow> None | Some p \<Rightarrow> put_at d (h @ p @ x @ t) fs)"
proof (cases "d < length fs")
  case True
  then obtain up k' body down where fs: "fs = up @ (k', body) # down" "length up = d"
    by (rule frames_at)
  show ?thesis
  proof (cases "close_frames down")
    case (Some y)
    have "put_at (Suc d) x (up @ [(k', body @ y @ h), (k, [])]) = Some (up @ [(k', body @ y @ h), (k, x)])"
      using put_at_split [of "up @ [(k', body @ y @ h)]" "Suc d" x k "[]" "[]"] fs(2) by simp
    then show ?thesis
      using fs Some by (cases "close_prefix k (length x)") (simp_all add: open_at_def put_at_split)
  qed (use fs in \<open>simp add: open_at_def put_at_split split: option.split\<close>)
qed (simp add: open_at_def put_at_def split: option.split)


subsection \<open>Flushing and writing\<close>

lemma cbb_rep_split:
  "cbb_rep st (up @ (k, body) # down) \<longleftrightarrow>
     frames_ok (up @ [(k, body)]) \<and> children_ok down \<and>
     (\<exists>b. base st = Some b \<and> buf_wf b \<and> \<not> cb_error b \<and>
       written b = flat (up @ [(k, body)]) @ flat down \<and>
       chain st = chain_of 0 (up @ [(k, body)]) @ chain_of (length (flat (up @ [(k, body)]))) down)"
  using frames_ok_split [of up k body down body] chain_of_append [of 0 "up @ [(k, body)]" down]
  by (auto simp: cbb_rep_def flat_append split: option.splits)

lemma chain_of_last: "chain_of pos (up @ [(k, body)]) = chain_of pos (up @ [(k, body')])"
  by (simp add: chain_of_append)

text \<open>A buffer that has grown by \<open>x\<close> holds \<open>x\<close> in the innermost frame.\<close>

lemma cbb_rep_grow:
  assumes "cbb_rep st (up @ [(k, body)])" "base st = Some b" "grows_to b b'" "written b' = written b @ x"
  shows "cbb_rep (st\<lparr>base := Some b'\<rparr>) (up @ [(k, body @ x)])"
  using assms frames_ok_split [of up k body "[]" "body @ x"]
  by (auto simp: cbb_rep_split flat_append grows_to_def chain_of_last [of _ _ _ "body @ x" body])

lemma CBB_flush_implements: "malloc_spec malloc \<Longrightarrow> cbb_implements malloc (CBB_flush malloc d) (put_at d [])"
  unfolding implements_on_def
proof (intro conjI impI put_at_mono)
  assume m: "malloc_spec malloc"
  have flush: "CBB_flush malloc d st = (let (ok, b', cs) = CBB_flush_chain malloc b
        (chain_of (length (flat (up @ [(k, body)]))) down)
      in (ok, st\<lparr>base := Some b', chain := chain_of 0 (up @ [(k, body)]) @ cs\<rparr>))"
    if "cbb_rep st (up @ (k, body) # down)" "length up = d" "base st = Some b" for st up k body down b
    using that by (simp add: CBB_flush_def cbb_rep_split)
  show "cbb_sound (\<lambda>_. True) (CBB_flush malloc d) (put_at d [])"
    unfolding cbb_sound_def
  proof (intro allI impI)
    fix st fs st' assume r: "cbb_rep st fs" "CBB_flush malloc d st = (True, st')"
    then have "d < length fs"
      by (auto simp: CBB_flush_def cbb_rep_def split: option.splits if_splits)
    then obtain up k body down where fs: "fs = up @ (k, body) # down" "length up = d"
      by (rule frames_at)
    let ?fs = "up @ [(k, body)]"
    obtain b where b: "base st = Some b" "buf_wf b" "\<not> cb_error b" "written b = flat ?fs @ flat down"
      "children_ok down" using r(1) by (auto simp: fs cbb_rep_split)
    obtain b' cs where fl: "CBB_flush_chain malloc b (chain_of (length (flat ?fs)) down) = (True, b', cs)"
      and st': "st' = st\<lparr>base := Some b', chain := chain_of 0 ?fs @ cs\<rparr>"
      using r flush [OF r(1) [unfolded fs] fs(2) b(1)] by (auto simp: split: prod.splits)
    obtain y where y: "close_frames down = Some y" "cs = []" "grows_to b b'" "written b' = flat ?fs @ y"
      using CBB_flush_chain_sound [OF m b(2-5) fl] by blast
    have "cbb_rep st' (up @ [(k, body @ y)])"
      using r(1) y frames_ok_split [of up k body "[]" "body @ y"]
      by (auto simp: st' fs cbb_rep_split flat_append grows_to_def b chain_of_last [of _ _ _ "body @ y" body])
    then show "\<exists>fs'. put_at d [] fs = Some fs' \<and> cbb_rep st' fs'"
      using fs y by (simp add: put_at_split)
  qed
  assume t: "malloc_total malloc"
  show "cbb_live (\<lambda>_. True) (CBB_flush malloc d) (put_at d [])"
    unfolding cbb_live_def
  proof (intro allI impI)
    fix st fs fs' assume r: "cbb_rep st fs" "st_roomy st" "put_at d [] fs = Some fs'"
      and sz: "length (flat fs') < 2 ^ 61"
    then have "d < length fs" by (auto simp: put_at_def split: if_splits)
    then obtain up k body down where fs: "fs = up @ (k, body) # down" "length up = d"
      by (rule frames_at)
    let ?fs = "up @ [(k, body)]"
    obtain b where b: "base st = Some b" "buf_wf b" "\<not> cb_error b" "roomy b"
      "written b = flat ?fs @ flat down" "children_ok down"
      using r(1,2) by (auto simp: fs cbb_rep_split st_roomy_def)
    obtain y where y: "close_frames down = Some y" "fs' = up @ [(k, body @ y)]"
      using r(3) fs by (auto simp: put_at_split)
    then have "length (flat ?fs) + length y < 2 ^ 61" using sz by (simp add: flat_append)
    with CBB_flush_chain_live [OF m t b(2-6) y(1)] obtain b' where
      "CBB_flush_chain malloc b (chain_of (length (flat ?fs)) down) = (True, b', [])" "roomy b'"
      by blast
    then show "\<exists>st'. CBB_flush malloc d st = (True, st') \<and> st_roomy st'"
      using flush [OF r(1) [unfolded fs] fs(2) b(1)] by (simp add: st_roomy_def)
  qed
qed


lemma put_at_innermost: "put_at d x fs = Some fs' \<Longrightarrow> innermost d fs'"
  by (auto simp: put_at_def bind_eq_Some_conv split: if_splits)

lemma innermostE:
  assumes "innermost d fs"
  obtains up k body where "fs = up @ [(k, body)]" "length up = d"
proof -
  have "d < length fs" using assms by simp
  then obtain up k body down where "fs = up @ (k, body) # down" "length up = d" by (rule frames_at)
  with assms that show ?thesis by auto
qed

text \<open>An operation on the buffer that appends \<open>x\<close> writes \<open>x\<close> to the innermost CBB.\<close>

definition end_op :: "(cbb_buffer \<Rightarrow> bool \<times> cbb_buffer) \<Rightarrow> cbb_op" where
  "end_op g st = (case g (the (base st)) of (ok, b) \<Rightarrow> (ok, st\<lparr>base := Some b\<rparr>))"

definition appends :: "malloc_fn \<Rightarrow> (cbb_buffer \<Rightarrow> bool \<times> cbb_buffer) \<Rightarrow> bytes \<Rightarrow> bool" where
  "appends malloc g x \<longleftrightarrow>
     (\<forall>b b'. buf_wf b \<longrightarrow> g b = (True, b') \<longrightarrow> grows_to b b' \<and> written b' = written b @ x) \<and>
     (malloc_total malloc \<longrightarrow> (\<forall>b. buf_wf b \<longrightarrow> roomy b \<longrightarrow> cb_len b + length x < 2 ^ 61 \<longrightarrow>
        (\<exists>b'. g b = (True, b') \<and> roomy b')))"

lemma implements_end:
  assumes g: "appends malloc g x"
  shows "implements_on (innermost d) malloc (end_op g) (put_at d x)"
  unfolding implements_on_def
proof (intro conjI impI put_at_mono)
  show "cbb_sound (innermost d) (end_op g) (put_at d x)"
    unfolding cbb_sound_def
  proof (intro allI impI)
    fix st fs st' assume fs: "innermost d fs" and r: "cbb_rep st fs" "end_op g st = (True, st')"
    from fs obtain up k body where u: "fs = up @ [(k, body)]" "length up = d" by (rule innermostE)
    obtain b where b: "base st = Some b" "buf_wf b" using r(1) by (auto simp: u cbb_rep_split)
    then obtain b' where b': "g b = (True, b')" "st' = st\<lparr>base := Some b'\<rparr>"
      using r(2) by (auto simp: end_op_def split: prod.splits)
    then have "grows_to b b' \<and> written b' = written b @ x"
      using g b by (auto simp: appends_def)
    then have "cbb_rep st' (up @ [(k, body @ x)])"
      using cbb_rep_grow r(1) b b' by (auto simp: u)
    then show "\<exists>fs'. put_at d x fs = Some fs' \<and> cbb_rep st' fs'"
      using u by (simp add: put_at_split)
  qed
  assume t: "malloc_total malloc"
  show "cbb_live (innermost d) (end_op g) (put_at d x)"
    unfolding cbb_live_def
  proof (intro allI impI)
    fix st fs fs' assume fs: "innermost d fs" and r: "cbb_rep st fs" "st_roomy st"
      "put_at d x fs = Some fs'" and sz: "length (flat fs') < 2 ^ 61"
    from fs obtain up k body where u: "fs = up @ [(k, body)]" "length up = d" by (rule innermostE)
    obtain b where b: "base st = Some b" "buf_wf b" "roomy b" "written b = flat fs"
      using r(1,2) by (auto simp: u cbb_rep_split st_roomy_def)
    have "cb_len b + length x = length (flat fs')"
      using length_written [OF b(2)] b(4) r(3) u by (auto simp: put_at_split flat_append)
    then have "\<exists>b'. g b = (True, b') \<and> roomy b'"
      using g t b(2,3) sz by (simp add: appends_def)
    then show "\<exists>st'. end_op g st = (True, st') \<and> st_roomy st'"
      using b(1) by (auto simp: end_op_def st_roomy_def)
  qed
qed

lemma implements_flush_end:
  assumes "malloc_spec malloc" "appends malloc g x"
  shows "cbb_implements malloc (\<lambda>st. wr_bind (CBB_flush malloc d st) (end_op g)) (put_at d x)"
  using implements_bind [OF CBB_flush_implements [OF assms(1)] implements_end [OF assms(2)], of d d]
  by (simp add: put_at_put_at put_at_innermost)

lemma appends_write:
  assumes "malloc_spec malloc" "length x \<le> PTRDIFF_MAX"
    and g: "\<And>b. g b = wr_bind (cbb_buffer_add malloc b (length x)) (\<lambda>b'.
      (True, b'\<lparr>cb_buf := mem_write (cb_buf b') (cb_len b' - length x) x\<rparr>))"
  shows "appends malloc g x"
  unfolding appends_def
proof (intro conjI allI impI)
  fix b b' assume b: "buf_wf b" and r: "g b = (True, b')"
  then obtain c where c: "cbb_buffer_add malloc b (length x) = (True, c)"
    and b': "b' = c\<lparr>cb_buf := mem_write (cb_buf c) (cb_len c - length x) x\<rparr>"
    by (auto simp: g wr_bind_True_iff)
  obtain ys slack where ys: "grows_to b c" "cb_len c = cb_len b + length x" "length ys = length x"
    "cb_buf c = written b @ ys @ slack"
    using cbb_buffer_add_True [OF assms(1) b assms(2) c] by blast
  have buf: "cb_buf b' = written b @ x @ slack"
    using ys(2,3) b by (simp add: b' ys(4)) (subst mem_write_append, simp_all)
  then have "written b' = written b @ x"
    using ys(2) b by (intro written_whole [where slack = slack]) (simp_all add: b')
  moreover have "length (cb_buf b') = length (cb_buf c)"
    using buf ys(3,4) by simp
  then have "grows_to b b'"
    using ys(1) by (simp add: grows_to_def buf_wf_def b')
  ultimately show "grows_to b b'" "written b' = written b @ x" by simp_all
next
  fix b assume "malloc_total malloc" "buf_wf b" "roomy b" "cb_len b + length x < 2 ^ 61"
  then show "\<exists>b'. g b = (True, b') \<and> roomy b'"
    using cbb_buffer_add_live [of malloc b "length x"] by (auto simp: g roomy_def)
qed

lemma cbb_buffer_add_u_eq:
  assumes "malloc_spec malloc" "buf_wf b" "0 < n" "n \<le> 8"
  shows "cbb_buffer_add_u malloc b v n = wr_bind (cbb_buffer_add malloc b n) (\<lambda>b'.
     let b'' = b'\<lparr>cb_buf := mem_write (cb_buf b') (cb_len b' - n) (be_bytes n (unat v))\<rparr>
     in if unat v < 256 ^ n then (True, b'') else (False, b''\<lparr>cb_error := True\<rparr>))"
proof (cases "cbb_buffer_add malloc b n")
  case (Pair ok c)
  show ?thesis
  proof (cases ok)
    case True
    then have r: "cbb_buffer_add malloc b n = (True, c)" using Pair by simp
    have n: "n \<le> PTRDIFF_MAX" using assms(4) by (simp add: PTRDIFF_MAX_def)
    obtain ys slack where ys: "grows_to b c" "cb_len c = cb_len b + n" "length ys = n"
      "cb_buf c = written b @ ys @ slack"
      using cbb_buffer_add_True [OF assms(1,2) n r] by blast
    then have "cb_len c - n + n \<le> length (cb_buf c)"
      using assms(2) by (simp add: ys(4))
    then show ?thesis
      using r assms(3) by (simp add: cbb_buffer_add_u_def store_be_loop_eq Let_def div_greater_zero_iff)
  qed (use Pair assms(3) in \<open>simp add: cbb_buffer_add_u_def\<close>)
qed

lemma CBB_add_u_implements:
  assumes "malloc_spec malloc" "0 < n" "n \<le> 8" "unat v < 256 ^ n"
  shows "cbb_implements malloc (\<lambda>st. CBB_add_u malloc d st v n) (put_at d (be_bytes n (unat v)))"
proof -
  let ?x = "be_bytes n (unat v)"
  define g where "g b = wr_bind (cbb_buffer_add malloc b (length ?x)) (\<lambda>b'.
      (True, b'\<lparr>cb_buf := mem_write (cb_buf b') (cb_len b' - length ?x) ?x\<rparr>))" for b
  have "appends malloc g ?x"
    using assms by (intro appends_write) (simp_all add: g_def PTRDIFF_MAX_def)
  moreover have "cbb_buffer_add_u malloc b v n = g b" if "buf_wf b" for b
    using that assms by (simp add: cbb_buffer_add_u_eq g_def Let_def)
  ultimately have "appends malloc (\<lambda>b. cbb_buffer_add_u malloc b v n) ?x"
    by (simp add: appends_def)
  from implements_flush_end [OF assms(1) this] show ?thesis
    by (simp add: CBB_add_u_def [abs_def] end_op_def [abs_def] Let_def)
qed

lemma CBB_add_bytes_implements:
  assumes "malloc_spec malloc" "length data \<le> PTRDIFF_MAX"
  shows "cbb_implements malloc (\<lambda>st. CBB_add_bytes malloc d st data) (put_at d data)"
proof -
  define g where "g b = wr_bind (cbb_buffer_add malloc b (length data)) (\<lambda>b'.
      (True, b'\<lparr>cb_buf := mem_write (cb_buf b') (cb_len b' - length data) data\<rparr>))" for b
  have "appends malloc g data"
    using assms by (intro appends_write) (simp_all add: g_def)
  moreover have "(case cbb_buffer_add malloc b (length data) of
         (False, b) \<Rightarrow> (False, st\<lparr>base := Some b\<rparr>)
       | (True, b') \<Rightarrow> (True, st\<lparr>base := Some (b'\<lparr>cb_buf := mem_write (cb_buf b') (cb_len b) data\<rparr>)\<rparr>)) =
      end_op g st" if "b = the (base st)" for b st
  proof -
    have "cb_len c = cb_len b + length data" if "cbb_buffer_add malloc b (length data) = (True, c)" for c
      using that by (auto simp: cbb_buffer_add_def cbb_buffer_reserve_def wr_bind_def Let_def
          split: if_splits option.splits prod.splits)
    then show ?thesis
      using that by (auto simp: end_op_def g_def split: prod.splits bool.splits)
  qed
  ultimately show ?thesis
    using implements_flush_end [OF assms(1), of g data d]
    by (simp add: CBB_add_bytes_def [abs_def] Let_def)
qed


subsection \<open>Opening children\<close>

lemma implements_on_weaken: "cbb_implements malloc f e \<Longrightarrow> implements_on P malloc f e"
  unfolding implements_on_def cbb_sound_def cbb_live_def by blast

lemma open_at_mono: "0 < plen k \<Longrightarrow> cbb_mono (open_at d x k)"
proof -
  assume k: "0 < plen k"
  have "frames_ok (gs @ [(k, [])]) \<and> length (flat fs) \<le> length (flat (gs @ [(k, [])]))"
    if "frames_ok fs" "put_at d x fs = Some gs" for fs gs
    using cbb_monoD [OF put_at_mono that] k
    by (cases gs) (auto simp: frames_ok_def flat_append)
  then show ?thesis
    by (auto simp: cbb_mono_def open_at_def)
qed

text \<open>
  Writing zeros for the pending prefix and linking the new child is opening a child. The offset
  is the length before the zeros.
\<close>

lemma implements_open:
  assumes h: "implements_on (innermost d) malloc h (put_at d (replicate (plen K) 0))" and K: "0 < plen K"
  shows "implements_on (innermost d) malloc
     (\<lambda>st. wr_bind (h st) (\<lambda>st'. (True, st'\<lparr>chain := take (Suc d) (chain st') @
         [frame_cbb (cb_len (the (base st))) K]\<rparr>))) (open_at d [] K)" (is "implements_on _ _ ?f _")
  unfolding implements_on_def
proof (intro conjI impI open_at_mono K)
  show "cbb_sound (innermost d) ?f (open_at d [] K)"
    unfolding cbb_sound_def
  proof (intro allI impI)
    fix st fs st' assume fs: "innermost d fs" and r: "cbb_rep st fs" "?f st = (True, st')"
    from fs obtain up k body where u: "fs = up @ [(k, body)]" "length up = d" by (rule innermostE)
    obtain b where b: "base st = Some b" "buf_wf b" "written b = flat fs"
      using r(1) by (auto simp: u cbb_rep_split)
    then have len: "cb_len (the (base st)) = length (flat fs)"
      using length_written by fastforce
    obtain s where s: "h st = (True, s)"
      "st' = s\<lparr>chain := take (Suc d) (chain s) @ [frame_cbb (length (flat fs)) K]\<rparr>"
      using r(2) len by (auto simp: wr_bind_True_iff)
    have "cbb_sound (innermost d) h (put_at d (replicate (plen K) 0))"
      using h by (simp add: implements_on_def)
    from cbb_soundD [OF this fs r(1) s(1)]
    have "cbb_rep s (up @ [(k, body @ replicate (plen K) 0)])"
      using u by (simp add: put_at_split)
    then have "cbb_rep st' (up @ [(k, body)] @ [(K, [])])"
      using K u frames_ok_split [of up k body "[]" "body @ replicate (plen K) 0"]
      using cbb_rep_split [of st' up k body "[(K, [])]"]
      by (auto simp: s(2) cbb_rep_split flat_append chain_of_last [of _ _ _ "body @ _" body])
    then show "\<exists>fs'. open_at d [] K fs = Some fs' \<and> cbb_rep st' fs'"
      using u by (simp add: open_at_def put_at_split)
  qed
  assume t: "malloc_total malloc"
  show "cbb_live (innermost d) ?f (open_at d [] K)"
    unfolding cbb_live_def
  proof (intro allI impI)
    fix st fs fs' assume fs: "innermost d fs" and r: "cbb_rep st fs" "st_roomy st"
      "open_at d [] K fs = Some fs'" and sz: "length (flat fs') < 2 ^ 61"
    from fs obtain up k body where u: "fs = up @ [(k, body)]" "length up = d" by (rule innermostE)
    have p: "put_at d (replicate (plen K) 0) fs = Some (up @ [(k, body @ replicate (plen K) 0)])"
      using u by (simp add: put_at_split)
    have "length (flat (up @ [(k, body @ replicate (plen K) 0)])) < 2 ^ 61"
      using sz r(3) u by (auto simp: open_at_def put_at_split flat_append)
    moreover have "cbb_live (innermost d) h (put_at d (replicate (plen K) 0))"
      using h t by (simp add: implements_on_def)
    ultimately obtain s where "h st = (True, s)" "st_roomy s"
      using cbb_liveD fs r(1,2) p by blast
    then show "\<exists>st'. ?f st = (True, st') \<and> st_roomy st'"
      by (simp add: st_roomy_def)
  qed
qed

lemma open_at_bind: "put_at d x fs \<bind> open_at d [] k = open_at d x k fs"
  using put_at_put_at [of d x fs "[]"]
  by (cases "put_at d x fs") (simp_all add: open_at_def)

lemma cbb_add_length_prefixed_implements:
  assumes "malloc_spec malloc" "0 < n" "n \<le> PTRDIFF_MAX"
  shows "cbb_implements malloc (\<lambda>st. cbb_add_length_prefixed malloc d st n) (open_at d [] (Fixed n))"
proof -
  define g where "g b = wr_bind (cbb_buffer_add malloc b n) (\<lambda>b'.
      (True, b'\<lparr>cb_buf := mem_write (cb_buf b') (cb_len b' - n) (replicate n 0)\<rparr>))" for b
  have "appends malloc g (replicate n 0)"
    using assms by (intro appends_write) (simp_all add: g_def)
  then have op: "implements_on (innermost d) malloc
     (\<lambda>st. wr_bind (end_op g st) (\<lambda>st'. (True, st'\<lparr>chain := take (Suc d) (chain st') @
         [frame_cbb (cb_len (the (base st))) (Fixed n)]\<rparr>))) (open_at d [] (Fixed n))"
    using assms(2) by (intro implements_open) (simp_all add: implements_end)
  have eq: "(let offs = cb_len (the (base st)) in
       case cbb_buffer_add malloc (the (base st)) n of
         (False, b) \<Rightarrow> (False, st\<lparr>base := Some b\<rparr>)
       | (True, b) \<Rightarrow>
           (True, st\<lparr>base := Some (b\<lparr>cb_buf := mem_write (cb_buf b) offs (replicate n 0)\<rparr>),
                    chain := take (Suc d) (chain st) @
                      [\<lparr>offset = offs, pending_len_len = n, pending_is_asn1 = False,
                        is_child = True\<rparr>]\<rparr>)) =
     wr_bind (end_op g st) (\<lambda>st'. (True, st'\<lparr>chain := take (Suc d) (chain st') @
         [frame_cbb (cb_len (the (base st))) (Fixed n)]\<rparr>))" for st
  proof -
    have "cb_len c = cb_len b + n" if "cbb_buffer_add malloc b n = (True, c)" for b c
      using that by (auto simp: cbb_buffer_add_def cbb_buffer_reserve_def wr_bind_def Let_def
          split: if_splits option.splits prod.splits)
    then show ?thesis
      by (auto simp: end_op_def g_def frame_cbb_def Let_def split: prod.splits bool.splits)
  qed
  show ?thesis
    using implements_bind [OF CBB_flush_implements [OF assms(1)] op, of d]
    by (simp add: cbb_add_length_prefixed_def [abs_def] eq open_at_bind put_at_innermost)
qed


subsection \<open>Base-128 integers and ASN.1 headers\<close>

lemma implements_skip: "implements_on (innermost d) malloc (\<lambda>st. (True, st)) (put_at d [])"
  unfolding implements_on_def cbb_sound_def cbb_live_def
  by (auto simp: put_at_mono put_at_split elim!: innermostE)

lemma CBB_add_u8_implements:
  assumes "malloc_spec malloc"
  shows "cbb_implements malloc (\<lambda>st. CBB_add_u8 malloc d st v) (put_at d [v])"
  using CBB_add_u_implements [OF assms, of 1 "ucast v" d] unat_less_u8 [of v]
  by (simp add: CBB_add_u8_def [abs_def] unat_ucast)

text \<open>What the loop writes for the \<open>n\<close> low groups of seven bits.\<close>

primrec groups128 :: "nat \<Rightarrow> nat \<Rightarrow> bytes" where
  "groups128 v 0 = []"
| "groups128 v (Suc i) = byte ((if i \<noteq> 0 then 128 else 0) + v div 128 ^ i mod 128) # groups128 v i"

lemma groups128_step:
  "0 < n \<Longrightarrow> groups128 v (Suc n) = map (\<lambda>i. byte (128 + v div 128 div 128 ^ i mod 128)) (rev [0..<n]) @ [byte (v mod 128)]"
  by (induction n) (auto simp: div_mult2_eq)

lemma base128_hi_map:
  "base128_hi v = map (\<lambda>i. byte (128 + v div 128 ^ i mod 128)) (rev [0..<base128_len_len v])"
proof (induction v rule: base128_len_len.induct)
  case (1 v)
  show ?case
  proof (cases "v = 0")
    case False
    have r: "rev [0..<Suc n] = map Suc (rev [0..<n]) @ [0]" for n
      by (simp only: upt_conv_Cons [OF zero_less_Suc] rev.simps rev_map [symmetric] map_Suc_upt)
    show ?thesis
      using False 1 by (simp add: base128_len_len.simps [of v] base128_hi.simps [of v] r div_mult2_eq
          del: upt_Suc)
  qed (simp add: base128_len_len.simps)
qed

lemma groups128_base128: "groups128 v (max 1 (base128_len_len v)) = base128 v"
proof (cases "v < 128")
  case True
  then have "base128_len_len v \<le> 1"
    by (simp add: base128_len_len.simps [of v] base128_len_len.simps [of 0])
  then have "max 1 (base128_len_len v) = 1" by simp
  with True show ?thesis by (simp only:) (simp add: base128_def)
next
  case False
  then have n: "base128_len_len v = Suc (base128_len_len (v div 128))" "0 < base128_len_len (v div 128)"
    by (simp_all add: base128_len_len.simps [of v] base128_len_len.simps [of "v div 128"])
  have "groups128 v (base128_len_len v) = base128 v"
    unfolding n(1) groups128_step [OF n(2)] base128_def by (simp add: base128_hi_map)
  then show ?thesis using n by (simp add: max_def)
qed

lemma base128_len_len_bound: "v < 128 ^ k \<Longrightarrow> base128_len_len v \<le> k"
proof (induction k arbitrary: v)
  case (Suc k)
  then have "v div 128 < 128 ^ k" by (simp add: div_less_iff_less_mult mult.commute)
  with Suc.IH show ?case by (simp add: base128_len_len.simps [of v])
qed (simp add: base128_len_len.simps)

lemma base128_group_byte:
  "(let b = ucast (drop_bit (7 * i) (v :: u64)) AND 0x7f in if i \<noteq> 0 then b OR 0x80 else b) =
   byte ((if i \<noteq> 0 then 128 else 0) + unat v div 128 ^ i mod 128)"
proof -
  let ?b = "ucast (drop_bit (7 * i) v) AND 0x7f :: u8"
  have "(2 :: nat) ^ (7 * i) = 128 ^ i" by (simp add: power_mult)
  then have b: "unat ?b = unat v div 128 ^ i mod 128"
    by (simp add: u8_low7 unat_ucast unat_drop_bit mod_mod_cancel)
  then have "unat (0x80 OR ?b) = 128 + unat v div 128 ^ i mod 128"
    using mod_less_divisor [of 128 "unat v div 128 ^ i"]
    by (subst unat_or_dvd [where n = 7]) (simp_all)
  with b show ?thesis
    by (cases "i = 0") (simp_all add: byte_eq_iff or.commute [of _ "0x80 :: u8"] Let_def)
qed

lemma add_base128_loop_implements:
  assumes "malloc_spec malloc"
  shows "implements_on (innermost d) malloc (\<lambda>st. add_base128_loop malloc d st v n)
     (put_at d (groups128 (unat v) n))"
proof (induction n)
  case (Suc i)
  let ?b = "byte ((if i \<noteq> 0 then 128 else 0) + unat v div 128 ^ i mod 128)"
  have "implements_on (innermost d) malloc
     (\<lambda>st. wr_bind (CBB_add_u8 malloc d st ?b) (\<lambda>st. add_base128_loop malloc d st v i))
     (\<lambda>fs. put_at d [?b] fs \<bind> put_at d (groups128 (unat v) i))"
    by (rule implements_bind [OF implements_on_weaken [OF CBB_add_u8_implements [OF assms]] Suc.IH])
       (rule put_at_innermost)
  then show ?case
    using base128_group_byte [of i v] by (simp add: put_at_put_at Let_def)
qed (simp add: implements_skip)

lemma add_base128_integer_implements:
  assumes "malloc_spec malloc"
  shows "implements_on (innermost d) malloc (\<lambda>st. add_base128_integer malloc d st v) (put_at d (base128 (unat v)))"
proof -
  have "(let n = base128_len_len w in if n = 0 then 1 else n) = max 1 (base128_len_len w)" for w
    by (simp add: Let_def max_def)
  then show ?thesis
    using add_base128_loop_implements [OF assms, of d v "max 1 (base128_len_len (unat v))"]
    unfolding add_base128_integer_def groups128_base128 by (simp add: Let_def)
qed

text \<open>The identifier octets.\<close>

lemma tag_octet_eq:
  "unat (ucast (drop_bit CBS_ASN1_TAG_SHIFT tag) AND 0xe0 :: u8) = tag_class tag * 32"
proof -
  have e0: "(0xe0 :: u8) = push_bit 5 (mask 3)" by (simp add: mask_eq_exp_minus_1)
  have "unat (ucast (drop_bit CBS_ASN1_TAG_SHIFT tag) :: u8) = unat tag div 2 ^ 24"
    using unsigned_less [of tag, where ?'a = nat]
    by (simp add: unat_ucast unat_drop_bit CBS_ASN1_TAG_SHIFT_def less_mult_imp_div_less)
  then show ?thesis
    unfolding e0 by (subst unat_and_high_mask) (simp_all add: tag_class_def flip: div_mult2_eq)
qed

lemma tag_number_eq: "unat (tag AND CBS_ASN1_TAG_NUMBER_MASK) = tag_num tag"
  using unat_and_mask [of tag 29]
  by (simp add: CBS_ASN1_TAG_NUMBER_MASK_def tag_num_def mask_eq_exp_minus_1)

lemma tag_or_byte:
  fixes x :: u8
  assumes "unat x < 32"
  shows "(ucast (drop_bit CBS_ASN1_TAG_SHIFT tag) AND 0xe0) OR x = byte (tag_class tag * 32 + unat x)"
proof -
  have "tag_class tag * 32 + unat x < 256" using tag_class_less [of tag] assms by simp
  then show ?thesis
    using assms by (simp add: byte_eq_iff) (subst unat_or_dvd [where n = 5], simp_all add: tag_octet_eq)
qed


lemma CBB_add_asn1_implements:
  assumes m: "malloc_spec malloc"
  shows "cbb_implements malloc (\<lambda>st. CBB_add_asn1 malloc d st tag) (open_at d (der_tag tag) Asn1)"
proof -
  let ?bits = "ucast (drop_bit CBS_ASN1_TAG_SHIFT tag) AND 0xe0 :: u8"
  let ?num = "tag AND CBS_ASN1_TAG_NUMBER_MASK"
  define hdr where "hdr st = (if ?num \<ge> 0x1f
      then wr_bind (CBB_add_u8 malloc d st (?bits OR 0x1f)) (\<lambda>st. add_base128_integer malloc d st (ucast ?num))
      else CBB_add_u8 malloc d st (?bits OR ucast ?num))" for st
  have num: "?num \<ge> 0x1f \<longleftrightarrow> 31 \<le> tag_num tag"
    by (simp add: word_le_nat_alt tag_number_eq)
  have u: "unat (ucast ?num :: u64) = tag_num tag" "tag_num tag < 31 \<Longrightarrow> unat (ucast ?num :: u8) = tag_num tag"
    using tag_num_less [of tag] by (simp_all add: unat_ucast tag_number_eq)
  have hdr: "cbb_implements malloc hdr (put_at d (der_tag tag))"
  proof (cases "31 \<le> tag_num tag")
    case True
    have "cbb_implements malloc hdr
       (\<lambda>fs. put_at d [?bits OR 0x1f] fs \<bind> put_at d (base128 (unat (ucast ?num :: u64))))"
      using True num implements_bind [OF CBB_add_u8_implements [OF m] add_base128_integer_implements [OF m],
          OF put_at_innermost]
      by (simp add: hdr_def [abs_def])
    then show ?thesis
      using True by (simp add: put_at_put_at u der_tag_def tag_or_byte)
  next
    case False
    then show ?thesis
      using CBB_add_u8_implements [OF m, of d "?bits OR ucast ?num"] num u
      by (simp add: hdr_def [abs_def] der_tag_def tag_or_byte)
  qed
  have "cbb_implements malloc (\<lambda>st. wr_bind (CBB_flush malloc d st) hdr) (put_at d (der_tag tag))"
    using implements_bind [OF CBB_flush_implements [OF m, of d] hdr] by (simp add: put_at_put_at)
  moreover have "implements_on (innermost d) malloc (\<lambda>st. wr_bind (CBB_add_u8 malloc d st 0)
      (\<lambda>st'. (True, st'\<lparr>chain := take (Suc d) (chain st') @
         [frame_cbb (cb_len (the (base st))) Asn1]\<rparr>))) (open_at d [] Asn1)"
    by (rule implements_open) (simp_all add: implements_on_weaken CBB_add_u8_implements [OF m])
  ultimately have "cbb_implements malloc
      (\<lambda>st. wr_bind (wr_bind (CBB_flush malloc d st) hdr) (\<lambda>st. wr_bind (CBB_add_u8 malloc d st 0)
      (\<lambda>st'. (True, st'\<lparr>chain := take (Suc d) (chain st') @
         [frame_cbb (cb_len (the (base st))) Asn1]\<rparr>)))) (\<lambda>fs. put_at d (der_tag tag) fs \<bind> open_at d [] Asn1)"
    by (rule implements_bind) (rule put_at_innermost)
  moreover have "wr_bind (wr_bind r f) g = wr_bind r (\<lambda>s. wr_bind (f s) g)"
    for r :: "bool \<times> cbb_state" and f g
    by (cases r; cases "fst r") auto
  ultimately show ?thesis
    by (simp add: CBB_add_asn1_def [abs_def] Let_def frame_cbb_def hdr_def open_at_bind)
qed

lemmas cbb_op_implements =
  CBB_flush_implements CBB_add_u8_implements CBB_add_bytes_implements
  cbb_add_length_prefixed_implements CBB_add_asn1_implements

end
