(* ===== verification/Cbb_Asn1.thy ===== *)
theory Cbb_Asn1
  imports Cbb_Refine "HOL-Library.Multiset"
begin

text \<open>
  The ASN.1 value writers of \<^verbatim>\<open>crypto/bytestring/cbb.c\<close> (integers, octet strings, booleans,
  the contents of a SET OF), \<^verbatim>\<open>asn1_compat.c\<close>, and the contract between the writers
  and the readers of \<^verbatim>\<open>cbs.c\<close>.
\<close>

section \<open>Model\<close>

text \<open>
  The loop of \<open>CBB_add_asn1_uint64\<close> over the \<open>j\<close> low bytes of \<open>v\<close>, with the final
  test for zero; \<open>d\<close> is the depth of the child.
\<close>

fun add_uint64_loop :: "malloc_fn \<Rightarrow> nat \<Rightarrow> u64 \<Rightarrow> nat \<Rightarrow> bool \<Rightarrow> cbb_op" where
  "add_uint64_loop malloc d v 0 started st =
     (if \<not> started then CBB_add_u8 malloc d st 0 else (True, st))"
| "add_uint64_loop malloc d v (Suc j) started st =
     (let byt = ucast (drop_bit (8 * j) v AND 0xff) in
      if \<not> started then
        (if byt = 0 then add_uint64_loop malloc d v j False st
         else wr_bind (if byt AND 0x80 \<noteq> 0 then CBB_add_u8 malloc d st 0 else (True, st)) (\<lambda>st.
                wr_bind (CBB_add_u8 malloc d st byt) (add_uint64_loop malloc d v j True)))
      else wr_bind (CBB_add_u8 malloc d st byt) (add_uint64_loop malloc d v j True))"

definition CBB_add_asn1_uint64 :: "malloc_fn \<Rightarrow> nat \<Rightarrow> cbb_state \<Rightarrow> u64 \<Rightarrow> bool \<times> cbb_state" where
  "CBB_add_asn1_uint64 malloc d st v =
     wr_bind (CBB_add_asn1 malloc d st CBS_ASN1_INTEGER) (\<lambda>st.
       wr_bind (add_uint64_loop malloc (Suc d) v 8 False st) (\<lambda>st. CBB_flush malloc d st))"

text \<open>
  The value is the 64-bit pattern of the \<open>int64_t\<close>; the union shows its bytes in
  little-endian order.
\<close>

fun int64_start :: "bytes \<Rightarrow> nat \<Rightarrow> nat" where
  "int64_start u 0 = 0"
| "int64_start u (Suc s) = (if u ! Suc s = 0xff \<and> u ! s AND 0x80 \<noteq> 0 then int64_start u s else Suc s)"

fun add_int64_loop :: "malloc_fn \<Rightarrow> nat \<Rightarrow> bytes \<Rightarrow> nat \<Rightarrow> cbb_op" where
  "add_int64_loop malloc d u 0 st = (True, st)"
| "add_int64_loop malloc d u (Suc i) st =
     wr_bind (CBB_add_u8 malloc d st (u ! i)) (add_int64_loop malloc d u i)"

definition CBB_add_asn1_int64 :: "malloc_fn \<Rightarrow> nat \<Rightarrow> cbb_state \<Rightarrow> u64 \<Rightarrow> bool \<times> cbb_state" where
  "CBB_add_asn1_int64 malloc d st v =
     (if sint v \<ge> 0 then CBB_add_asn1_uint64 malloc d st v
      else (let u = le_bytes 8 (unat v); start = int64_start u 7 in
            wr_bind (CBB_add_asn1 malloc d st CBS_ASN1_INTEGER) (\<lambda>st.
              wr_bind (add_int64_loop malloc (Suc d) u (start + 1) st) (\<lambda>st. CBB_flush malloc d st))))"

definition CBB_add_asn1_octet_string :: "malloc_fn \<Rightarrow> nat \<Rightarrow> cbb_state \<Rightarrow> bytes \<Rightarrow> bool \<times> cbb_state" where
  "CBB_add_asn1_octet_string malloc d st data =
     wr_bind (CBB_add_asn1 malloc d st CBS_ASN1_OCTETSTRING) (\<lambda>st.
       wr_bind (CBB_add_bytes malloc (Suc d) st data) (\<lambda>st. CBB_flush malloc d st))"

definition CBB_add_asn1_bool :: "malloc_fn \<Rightarrow> nat \<Rightarrow> cbb_state \<Rightarrow> bool \<Rightarrow> bool \<times> cbb_state" where
  "CBB_add_asn1_bool malloc d st v =
     wr_bind (CBB_add_asn1 malloc d st CBS_ASN1_BOOLEAN) (\<lambda>st.
       wr_bind (CBB_add_u8 malloc (Suc d) st (if v then 0xff else 0)) (\<lambda>st. CBB_flush malloc d st))"


text \<open>A loop of calls, stopped by the first that fails.\<close>

fun wr_list :: "(cbb_state \<Rightarrow> 'a \<Rightarrow> bool \<times> cbb_state) \<Rightarrow> 'a list \<Rightarrow> cbb_op" where
  "wr_list put [] st = (True, st)"
| "wr_list put (v # vs) st = wr_bind (put st v) (wr_list put vs)"


text \<open>
  \<^verbatim>\<open>memcmp\<close> and \<^verbatim>\<open>qsort\<close> of the C library. The comparison below returns zero for
  equal byte strings only, so every sorting routine gives the list that insertion gives.
\<close>

fun memcmp_loop :: "bytes \<Rightarrow> bytes \<Rightarrow> int" where
  "memcmp_loop [] b = 0"
| "memcmp_loop (x # a) [] = 0"
| "memcmp_loop (x # a) (y # b) = (if x = y then memcmp_loop a b else int (unat x) - int (unat y))"

definition memcmp :: "bytes \<Rightarrow> bytes \<Rightarrow> nat \<Rightarrow> int" where
  "memcmp a b n = memcmp_loop (take n a) (take n b)"

definition OPENSSL_memcmp :: "bytes \<Rightarrow> bytes \<Rightarrow> nat \<Rightarrow> int" where
  "OPENSSL_memcmp a b n = (if n = 0 then 0 else memcmp a b n)"

fun qsort_insert :: "('a \<Rightarrow> 'a \<Rightarrow> int) \<Rightarrow> 'a \<Rightarrow> 'a list \<Rightarrow> 'a list" where
  "qsort_insert cmp x [] = [x]"
| "qsort_insert cmp x (y # ys) = (if cmp x y \<le> 0 then x # y # ys else y # qsort_insert cmp x ys)"

definition qsort :: "('a \<Rightarrow> 'a \<Rightarrow> int) \<Rightarrow> 'a list \<Rightarrow> 'a list" where
  "qsort cmp xs = foldr (qsort_insert cmp) xs []"

definition compare_set_of_element :: "bytes \<Rightarrow> bytes \<Rightarrow> int" where
  "compare_set_of_element a b =
     (let a_len = CBS_len a; b_len = CBS_len b;
          min_len = (if a_len < b_len then a_len else b_len);
          ret = OPENSSL_memcmp a b min_len
      in if ret \<noteq> 0 then ret
         else if a_len = b_len then 0
         else if a_len < b_len then -1 else 1)"

text \<open>The two passes over the contents: counting the elements, and taking them apart.\<close>

lemma get_any_asn1_element_shorter:
  "CBS_get_any_asn1_element cbs = (Some r, rest) \<Longrightarrow> length rest < length cbs"
  by (cases r) (auto elim!: CBS_get_any_asn1_element_canonical simp: der_element_def der_header_def)

function count_children :: "bytes \<Rightarrow> nat option" where
  "count_children cbs =
     (if CBS_len cbs \<noteq> 0 then
        (case CBS_get_any_asn1_element cbs of
           (None, _) \<Rightarrow> None
         | (Some _, cbs) \<Rightarrow> map_option Suc (count_children cbs))
      else Some 0)"
  by pat_completeness auto
termination
  by (relation "measure length") (auto dest: get_any_asn1_element_shorter [OF sym])

declare count_children.simps [simp del]

fun get_children :: "nat \<Rightarrow> bytes \<Rightarrow> bytes list option" where
  "get_children 0 cbs = Some []"
| "get_children (Suc n) cbs =
     (case CBS_get_any_asn1_element cbs of
        (None, _) \<Rightarrow> None
      | (Some (out, _, _), cbs) \<Rightarrow> map_option (Cons out) (get_children n cbs))"

definition sizeof_CBS :: nat where
  "sizeof_CBS = 16"

definition CBB_flush_asn1_set_of :: "malloc_fn \<Rightarrow> nat \<Rightarrow> cbb_state \<Rightarrow> bool \<times> cbb_state" where
  "CBB_flush_asn1_set_of malloc d st =
     wr_bind (CBB_flush malloc d st) (\<lambda>st.
       case count_children (CBS_init (CBB_data d st) (CBB_len d st)) of
         None \<Rightarrow> (False, st)
       | Some num_children \<Rightarrow>
           if num_children < 2 then (True, st)
           else if num_children > (2 ^ 64 - 1) div sizeof_CBS then (False, st)
           else
             (let buf_len = CBB_len d st;
                  c = chain st ! d;
                  rewound = st\<lparr>base := map_option (\<lambda>b. b\<lparr>cb_len := offset c + pending_len_len c\<rparr>) (base st)\<rparr>
              in case (OPENSSL_memdup malloc (CBB_data d st) buf_len,
                       OPENSSL_malloc malloc (num_children * sizeof_CBS)) of
                   (Some buf, Some _) \<Rightarrow>
                     (case get_children num_children (CBS_init (payload buf) buf_len) of
                        None \<Rightarrow> (False, st)
                      | Some children \<Rightarrow>
                          wr_list (CBB_add_bytes malloc d) (qsort compare_set_of_element children) rewound)
                 | _ \<Rightarrow> (False, st)))"

text \<open>
  \<^verbatim>\<open>asn1_compat.c\<close>. \<open>outp\<close> is null (\<open>None\<close>), a pointer to null (\<open>Some None\<close>), or a pointer
  to a buffer; the result is the returned \<open>int\<close>, what \<open>*outp\<close> points to afterwards, and how
  far it was advanced.
\<close>

definition CBB_finish_i2d ::
    "malloc_fn \<Rightarrow> cbb_state \<Rightarrow> bytes option option \<Rightarrow> (int \<times> bytes option option \<times> nat) \<times> cbb_state" where
  "CBB_finish_i2d malloc st outp =
     (case CBB_finish malloc 0 st False False of
        (None, st) \<Rightarrow> ((-1, outp, 0), CBB_cleanup 0 st)
      | (Some der, st) \<Rightarrow>
          if length der > INT_MAX then ((-1, outp, 0), st)
          else (case outp of
                  None \<Rightarrow> ((int (length der), None, 0), st)
                | Some None \<Rightarrow> ((int (length der), Some (Some der), 0), st)
                | Some (Some buf) \<Rightarrow>
                    ((int (length der), Some (Some (mem_write buf 0 der)), length der), st)))"

section \<open>Integers\<close>

lemma implements_asn1_child:
  assumes m: "malloc_spec malloc" and len: "length x \<le> 0xfffffffe"
    and f: "implements_on (innermost (Suc d)) malloc f (put_at (Suc d) x)"
  shows "cbb_implements malloc
     (\<lambda>st. wr_bind (CBB_add_asn1 malloc d st tag) (\<lambda>st. wr_bind (f st) (CBB_flush malloc d)))
     (put_at d (der_element tag x))"
proof -
  have inn: "innermost (Suc d) fs'" if "open_at d h Asn1 fs = Some fs'" for fs fs' h
    using that put_at_innermost by (auto simp: open_at_def)
  have "implements_on (innermost (Suc d)) malloc (\<lambda>st. wr_bind (f st) (CBB_flush malloc d))
      (\<lambda>fs. put_at (Suc d) x fs \<bind> put_at d [])"
    by (rule implements_bind [OF f CBB_flush_implements [OF m]]) simp
  then have "cbb_implements malloc
     (\<lambda>st. wr_bind (CBB_add_asn1 malloc d st tag) (\<lambda>st. wr_bind (f st) (CBB_flush malloc d)))
     (\<lambda>fs. open_at d (der_tag tag) Asn1 fs \<bind> (\<lambda>fs. put_at (Suc d) x fs \<bind> put_at d []))"
    by (rule implements_bind [OF CBB_add_asn1_implements [OF m]]) (rule inn)
  moreover have "close_prefix Asn1 (length x) = Some (der_length (length x))"
    using len by (simp add: close_prefix_def)
  ultimately show ?thesis
    using put_at_child [of d "der_tag tag" Asn1 _ x "[]"]
    by (simp add: der_element_def der_header_def)
qed

lemma der_uint_0: "der_uint 0 = [0]"
  by (simp add: der_uint_def int_octets_def byte_def)

text \<open>Dropping leading zero bytes, and padding when the first bit is set.\<close>

lemma der_uint_pad:
  assumes "0 < b" "b < 256" "w < 256 ^ j"
  shows "der_uint (b * 256 ^ j + w) = (if 128 \<le> b then [0] else []) @ byte b # be_bytes j w"
proof -
  let ?bs = "(if 128 \<le> b then [0] else []) @ byte b # be_bytes j w"
  have v: "be_val ?bs = b * 256 ^ j + w"
    using assms by (simp add: be_val_Cons be_val_be_bytes)
  have "int_min ?bs" "unat (?bs ! 0) < 128"
    using assms by (auto simp: int_min_def)
  then show ?thesis
    using der_uint_be_val [of ?bs] v by simp
qed

lemma byte_of_word: "ucast (drop_bit (8 * j) v AND 0xff) = byte (unat (v :: u64) div 256 ^ j)"
proof -
  have "unat (drop_bit (8 * j) v AND 0xff) = unat v div 256 ^ j mod 256"
    using unat_and_mask [of "drop_bit (8 * j) v" 8]
    by (simp add: mask_eq_exp_minus_1 unat_drop_bit power_mult)
  then show ?thesis
    by (simp add: byte_eq_iff unat_ucast)
qed

lemma be_bytes_Suc: "be_bytes (Suc j) v = byte (v div 256 ^ j) # be_bytes j v"
proof (induction j arbitrary: v)
  case (Suc j)
  then show ?case by (simp add: div_mult2_eq)
qed simp

lemma be_bytes_mod [simp]: "be_bytes j (v mod 256 ^ j) = be_bytes j v"
  by (rule be_val_inject) (simp_all add: be_val_be_bytes)

lemma implements_cons:
  assumes m: "malloc_spec malloc" and f: "implements_on (innermost d) malloc f (put_at d x)"
  shows "implements_on (innermost d) malloc (\<lambda>st. wr_bind (CBB_add_u8 malloc d st b) f) (put_at d (b # x))"
  using implements_bind [OF implements_on_weaken [OF CBB_add_u8_implements [OF m, of d b]] f, of "innermost d"]
  by (simp add: put_at_put_at put_at_innermost)

lemma add_uint64_loop_started:
  assumes "malloc_spec malloc"
  shows "implements_on (innermost d) malloc (add_uint64_loop malloc d v j True) (put_at d (be_bytes j (unat v)))"
proof (induction j)
  case 0
  show ?case
    using implements_skip [of d malloc] by (simp add: implements_on_def cbb_sound_def cbb_live_def)
next
  case (Suc j)
  from implements_cons [OF assms Suc, of "byte (unat v div 256 ^ j)"] show ?case
    unfolding be_bytes_Suc
    by (simp add: implements_on_def cbb_sound_def cbb_live_def byte_of_word Let_def)
qed


lemma add_uint64_loop_implements:
  assumes m: "malloc_spec malloc"
  shows "implements_on (innermost d) malloc (add_uint64_loop malloc d v j False)
     (put_at d (der_uint (unat v mod 256 ^ j)))"
proof (induction j)
  case 0
  show ?case
    using implements_on_weaken [OF CBB_add_u8_implements [OF m, of d 0], of "innermost d"]
    by (simp add: implements_on_def cbb_sound_def cbb_live_def der_uint_0)
next
  case (Suc j)
  let ?b = "unat v div 256 ^ j mod 256" and ?w = "unat v mod 256 ^ j"
  have b: "byte (unat v div 256 ^ j) = byte ?b" by simp
  have split: "unat v mod 256 ^ Suc j = ?b * 256 ^ j + ?w"
    using mod_mult2_eq [of "unat v" "256 ^ j" 256] by (simp add: mult.commute)
  show ?case
  proof (cases "?b = 0")
    case True
    then have "byte (unat v div 256 ^ j) = 0" unfolding b by (simp add: byte_def)
    then show ?thesis
      using Suc True unfolding split
      by (simp add: implements_on_def cbb_sound_def cbb_live_def byte_of_word Let_def)
  next
    case False
    then have nz: "byte (unat v div 256 ^ j) \<noteq> 0"
      unfolding b by (metis byte_eq_iff mod_mod_trivial unat_0)
    have hb: "byte (unat v div 256 ^ j) AND 0x80 = 0 \<longleftrightarrow> ?b < 128"
      by (simp add: u8_high_bit_iff)
    have out: "der_uint (unat v mod 256 ^ Suc j) =
        (if 128 \<le> ?b then [0] else []) @ byte (unat v div 256 ^ j) # be_bytes j (unat v)"
      unfolding split using False by (subst der_uint_pad) simp_all
    let ?f = "\<lambda>st. wr_bind (CBB_add_u8 malloc d st (byte (unat v div 256 ^ j))) (add_uint64_loop malloc d v j True)"
    have f: "implements_on (innermost d) malloc ?f (put_at d (byte (unat v div 256 ^ j) # be_bytes j (unat v)))"
      by (rule implements_cons [OF m add_uint64_loop_started [OF m]])
    have "add_uint64_loop malloc d v (Suc j) False =
       (if 128 \<le> ?b then (\<lambda>st. wr_bind (CBB_add_u8 malloc d st 0) ?f) else ?f)"
      using nz hb by (auto simp: byte_of_word Let_def fun_eq_iff)
    then show ?thesis
      using f implements_cons [OF m f, of 0] unfolding out by simp
  qed
qed

lemma length_der_uint_u64: "length (der_uint (unat (v :: u64))) \<le> 0xfffffffe"
proof -
  have "unat v < 2 ^ 64"
    using unsigned_less [of v, where ?'a = nat] by simp
  from int_octets_u64 [OF this] show ?thesis by simp
qed

lemma CBB_add_asn1_uint64_implements:
  assumes m: "malloc_spec malloc"
  shows "cbb_implements malloc (\<lambda>st. CBB_add_asn1_uint64 malloc d st v)
     (put_at d (der_element CBS_ASN1_INTEGER (der_uint (unat v))))"
proof -
  have "unat v mod 256 ^ 8 = unat v"
    using unsigned_less [of v, where ?'a = nat] by simp
  then have f: "implements_on (innermost (Suc d)) malloc (add_uint64_loop malloc (Suc d) v 8 False)
      (put_at (Suc d) (der_uint (unat v)))"
    using add_uint64_loop_implements [OF m, of "Suc d" v 8] by simp
  show ?thesis
    using implements_asn1_child [OF m length_der_uint_u64 f]
    by (simp add: CBB_add_asn1_uint64_def [abs_def])
qed

lemma int64_start_le: "int64_start u s \<le> s"
  by (induction u s rule: int64_start.induct) auto

text \<open>The bytes above \<open>int64_start\<close> are sign extension, and no further byte is.\<close>

lemma int64_start_ff:
  "int64_start u s < i \<Longrightarrow> i \<le> s \<Longrightarrow> u ! i = 0xff"
  by (induction u s rule: int64_start.induct) (auto simp: le_Suc_eq split: if_splits)

lemma int64_start_high: "128 \<le> unat (u ! s) \<Longrightarrow> 128 \<le> unat (u ! int64_start u s)"
  by (induction u s rule: int64_start.induct) (auto simp: u8_high_bit_iff)

lemma int64_start_stop:
  "int64_start u s = Suc t \<Longrightarrow> \<not> (u ! Suc t = 0xff \<and> u ! t AND 0x80 \<noteq> 0)"
  by (induction u s rule: int64_start.induct) (auto split: if_splits)

lemma int64_bytes:
  assumes neg: "sint (v :: u64) < 0"
  defines "u \<equiv> le_bytes 8 (unat v)"
  shows "rev (take (int64_start u 7 + 1) u) = der_int (sint v)"
proof -
  let ?s = "int64_start u 7" and ?bs = "rev (take (int64_start u 7 + 1) u)"
  have len: "length u = 8" by (simp add: u_def)
  have uv: "unat v < 2 ^ 64" using unsigned_less [of v, where ?'a = nat] by simp
  have high: "128 \<le> unat (u ! 7)"
  proof -
    have "u ! 7 = byte (unat v div 256 ^ 7)"
      by (simp add: u_def le_bytes_def rev_nth nth_be_bytes)
    moreover have "2 ^ 63 \<le> unat v"
      using neg sint_of_nat_u64 [OF uv] by (simp split: if_splits)
    then have "128 \<le> unat v div 256 ^ 7" by (simp add: less_eq_div_iff_mult_less_eq)
    moreover have "unat v div 256 ^ 7 < 256" using uv by (simp add: div_less_iff_less_mult)
    ultimately show ?thesis by simp
  qed
  have s: "?s \<le> 7" by (rule int64_start_le)
  then have lb: "length ?bs = ?s + 1" using len by simp
  have nth: "?bs ! i = u ! (?s - i)" if "i \<le> ?s" for i
    using that s len by (simp add: rev_nth)
  have h0: "128 \<le> unat (?bs ! 0)"
    using nth [of 0] int64_start_high [OF high] by simp
  have "int_min ?bs"
  proof (cases ?s)
    case 0
    with h0 lb show ?thesis by (auto simp: int_min_def)
  next
    case (Suc t)
    then have "?bs ! 0 = u ! Suc t" "?bs ! 1 = u ! t" using nth [of 0] nth [of 1] by simp_all
    with h0 lb int64_start_stop [OF Suc] show ?thesis
      unfolding int_min_iff by (auto simp: Suc)
  qed
  moreover have "int_val ?bs = sint v"
  proof -
    have "drop (?s + 1) u = replicate (7 - ?s) 0xff"
      using len s int64_start_ff [of u 7] by (intro nth_equalityI) simp_all
    moreover have "rev u = rev (drop (?s + 1) u) @ ?bs"
      by (metis append_take_drop_id rev_append)
    ultimately have "rev u = replicate (8 - length ?bs) 0xff @ ?bs"
      using lb by simp
    moreover have "be_val (rev u) = unat v"
      using uv by (simp add: u_def le_bytes_def be_val_be_bytes)
    moreover have "?bs \<noteq> []" "length ?bs \<le> 8" using lb s by auto
    ultimately show ?thesis
      using sint_sign_extend [of ?bs] h0 by simp
  qed
  ultimately show ?thesis
    using der_int_int_val [of ?bs] by simp
qed

lemma add_int64_loop_implements:
  assumes m: "malloc_spec malloc"
  shows "n \<le> length u \<Longrightarrow>
    implements_on (innermost d) malloc (add_int64_loop malloc d u n) (put_at d (rev (take n u)))"
proof (induction n)
  case 0
  show ?case
    using implements_skip [of d malloc] by (simp add: implements_on_def cbb_sound_def cbb_live_def)
next
  case (Suc n)
  then have "rev (take (Suc n) u) = u ! n # rev (take n u)"
    by (simp add: take_Suc_conv_app_nth)
  with implements_cons [OF m Suc.IH, of "u ! n"] Suc.prems show ?case
    by (simp add: implements_on_def cbb_sound_def cbb_live_def)
qed

lemma CBB_add_asn1_int64_implements:
  assumes m: "malloc_spec malloc"
  shows "cbb_implements malloc (\<lambda>st. CBB_add_asn1_int64 malloc d st v)
     (put_at d (der_element CBS_ASN1_INTEGER (der_int (sint v))))"
proof (cases "0 \<le> sint v")
  case True
  have uv: "unat v < 2 ^ 64" using unsigned_less [of v, where ?'a = nat] by simp
  have "sint v = int (unat v)"
    using True sint_of_nat_u64 [OF uv] unsigned_less [of v, where ?'a = int] by (simp split: if_splits)
  then have "der_int (sint v) = der_uint (unat v)" by (simp only: der_int_nonneg)
  with True CBB_add_asn1_uint64_implements [OF m, of d v] show ?thesis
    by (simp add: CBB_add_asn1_int64_def [abs_def])
next
  case False
  let ?u = "le_bytes 8 (unat v)"
  have x: "rev (take (int64_start ?u 7 + 1) ?u) = der_int (sint v)"
    using False by (intro int64_bytes) simp
  moreover have "length (rev (take (int64_start ?u 7 + 1) ?u)) \<le> 8" by simp
  ultimately have len: "length (der_int (sint v)) \<le> 0xfffffffe" by simp
  have "implements_on (innermost (Suc d)) malloc (add_int64_loop malloc (Suc d) ?u (int64_start ?u 7 + 1))
      (put_at (Suc d) (der_int (sint v)))"
    using add_int64_loop_implements [OF m, of "int64_start ?u 7 + 1" ?u "Suc d"] int64_start_le [of ?u 7] x
    by simp
  from implements_asn1_child [OF m len this] show ?thesis
    using False by (simp add: CBB_add_asn1_int64_def [abs_def] Let_def del: add_int64_loop.simps)
qed

lemma CBB_add_asn1_octet_string_implements:
  assumes m: "malloc_spec malloc" and len: "length data \<le> 0xfffffffe"
  shows "cbb_implements malloc (\<lambda>st. CBB_add_asn1_octet_string malloc d st data)
     (put_at d (der_element CBS_ASN1_OCTETSTRING data))"
  using implements_asn1_child [OF m len implements_on_weaken [OF CBB_add_bytes_implements [OF m]]] len
  by (simp add: CBB_add_asn1_octet_string_def [abs_def] PTRDIFF_MAX_def)

lemma CBB_add_asn1_bool_implements:
  assumes m: "malloc_spec malloc"
  shows "cbb_implements malloc (\<lambda>st. CBB_add_asn1_bool malloc d st v)
     (put_at d (der_element CBS_ASN1_BOOLEAN (der_bool v)))"
  using implements_asn1_child [OF m _ implements_on_weaken [OF CBB_add_u8_implements [OF m]]]
  by (simp add: CBB_add_asn1_bool_def [abs_def] der_bool_def)


section \<open>From initialisation to the finished string\<close>

lemma CBB_init_rep:
  assumes m: "malloc_spec malloc" and c: "cap + 8 < 2 ^ 64" and r: "CBB_init malloc cap = (True, st)"
  shows "cbb_rep st [(Root, [])]" "cap < 2 ^ 62 \<Longrightarrow> st_roomy st"
proof -
  obtain buf where st: "st = CBB_zero\<lparr>base := Some \<lparr>cb_buf = buf, cb_len = 0, cb_cap = cap,
       cb_can_resize = True, cb_error = False\<rparr>\<rparr>"
    and buf: "length buf = cap" "cap + 8 \<le> PTRDIFF_MAX"
  proof (cases "OPENSSL_malloc malloc cap")
    case None
    with r that [of "[]"] show ?thesis
      by (auto simp: CBB_init_def cbb_init_def PTRDIFF_MAX_def split: if_splits option.splits)
  next
    case (Some blk)
    note a = OPENSSL_malloc_Some [OF m c Some]
    have "length (payload blk) = cap" using a by (simp add: OPENSSL_MALLOC_PREFIX_def)
    with r Some a that [of "payload blk"] show ?thesis
      by (auto simp: CBB_init_def cbb_init_def split: if_splits option.splits)
  qed
  show "cbb_rep st [(Root, [])]"
    using buf by (simp add: st cbb_rep_def frames_ok_def CBB_zero_def frame_cbb_def buf_wf_def written_def)
  show "cap < 2 ^ 62 \<Longrightarrow> st_roomy st"
    by (simp add: st st_roomy_def roomy_def)
qed

lemma CBB_init_live:
  assumes "malloc_total malloc" "cap < 2 ^ 62"
  shows "\<exists>st. CBB_init malloc cap = (True, st)"
proof -
  have "malloc (cap + 8) \<noteq> None" "malloc 40 \<noteq> None"
    using assms by (simp_all add: malloc_total_def PTRDIFF_MAX_def)
  then show ?thesis
    using assms(2)
    by (auto simp: CBB_init_def cbb_init_def OPENSSL_malloc_def OPENSSL_MALLOC_PREFIX_def
        sizeof_cbb_buffer_st_def)
qed

lemma CBB_init_fixed_rep:
  assumes "length buf \<le> PTRDIFF_MAX" "CBB_init_fixed malloc buf (length buf) = (True, st)"
  shows "cbb_rep st [(Root, [])]"
  using assms
  by (auto simp: CBB_init_fixed_def cbb_init_def cbb_rep_def frames_ok_def CBB_zero_def frame_cbb_def
      buf_wf_def written_def split: option.splits)

text \<open>A root frame that holds everything is the finished string.\<close>

lemma CBB_finish_rep:
  assumes m: "malloc_spec malloc" and rep: "cbb_rep st fs"
    and r: "CBB_finish malloc 0 st out_data_null out_len_null = (Some out, st')"
  shows "put_at 0 [] fs = Some [(Root, out)]"
proof -
  obtain s where s: "CBB_flush malloc 0 st = (True, s)"
    and out: "out = take (cb_len (the (base s))) (cb_buf (the (base s)))"
    using r by (auto simp: CBB_finish_def Let_def split: if_splits prod.splits bool.splits)
  have "cbb_sound (\<lambda>_. True) (CBB_flush malloc 0) (put_at 0 [])"
    using CBB_flush_implements [OF m, of 0] by (simp add: implements_on_def)
  from cbb_soundD [OF this TrueI rep s] obtain fs' where fs': "put_at 0 [] fs = Some fs'" "cbb_rep s fs'"
    by blast
  have "frames_ok fs'" using fs'(2) by (rule cbb_rep_ok)
  with put_at_innermost [OF fs'(1)] obtain body where "fs' = [(Root, body)]"
    by (cases fs') (auto simp: frames_ok_def)
  then show ?thesis
    using fs' by (auto simp: cbb_rep_def out written_def split: option.splits)
qed

lemma CBB_finish_live:
  assumes m: "malloc_spec malloc" "malloc_total malloc" and rep: "cbb_rep st fs" "st_roomy st"
    and p: "put_at 0 [] fs = Some [(Root, out)]" and sz: "length out < 2 ^ 61"
  shows "\<exists>st'. CBB_finish malloc 0 st False False = (Some out, st')"
proof -
  have live: "cbb_live (\<lambda>_. True) (CBB_flush malloc 0) (put_at 0 [])"
    and sound: "cbb_sound (\<lambda>_. True) (CBB_flush malloc 0) (put_at 0 [])"
    using CBB_flush_implements [OF m(1), of 0] m(2) by (simp_all add: implements_on_def)
  obtain s where s: "CBB_flush malloc 0 st = (True, s)"
    using cbb_liveD [OF live TrueI rep p] sz by auto
  have "cbb_rep s [(Root, out)]"
    using cbb_soundD [OF sound TrueI rep(1) s] p by simp
  then have "take (cb_len (the (base s))) (cb_buf (the (base s))) = out"
    by (auto simp: cbb_rep_def written_def split: option.splits)
  moreover have "\<not> is_child (chain st ! 0)"
    using rep(1) by (cases fs) (auto simp: cbb_rep_def frames_ok_def frame_cbb_def)
  ultimately show ?thesis
    using s by (auto simp: CBB_finish_def)
qed

section \<open>The contract between writers and readers\<close>

text \<open>
  \<open>put\<close> writes the encoding that \<open>get\<close> reads, for the values that satisfy \<open>writable\<close>. A
  client may then write any list of values, finish, and read the list back.
\<close>

lemma implements_wr_list:
  assumes "\<And>v. v \<in> set vs \<Longrightarrow> cbb_implements malloc (\<lambda>st. put st v) (put_at d (enc v))"
  shows "implements_on (innermost d) malloc (wr_list put vs) (put_at d (concat (map enc vs)))"
  using assms
proof (induction vs)
  case Nil
  show ?case
    using implements_skip [of d malloc] by (simp add: implements_on_def cbb_sound_def cbb_live_def)
next
  case (Cons v vs)
  have p: "cbb_implements malloc (\<lambda>st. put st v) (put_at d (enc v))"
    using Cons.prems by simp
  have "implements_on (innermost d) malloc (wr_list put vs) (put_at d (concat (map enc vs)))"
    using Cons by simp
  from implements_bind [OF implements_on_weaken [OF p] this, of "innermost d"] show ?case
    by (simp add: put_at_put_at put_at_innermost implements_on_def cbb_sound_def cbb_live_def)
qed

locale codec_writer = codec get enc valid
  for get :: "bytes \<Rightarrow> 'a rd" and enc and valid +
  fixes put :: "malloc_fn \<Rightarrow> nat \<Rightarrow> cbb_state \<Rightarrow> 'a \<Rightarrow> bool \<times> cbb_state" and writable :: "'a \<Rightarrow> bool"
  assumes writable_valid: "writable v \<Longrightarrow> valid v"
    and put_implements: "malloc_spec malloc \<Longrightarrow> writable v \<Longrightarrow>
      cbb_implements malloc (\<lambda>st. put malloc d st v) (put_at d (enc v))"
begin

lemma wr_list_implements:
  assumes "malloc_spec malloc" "\<forall>v \<in> set vs. writable v"
  shows "implements_on (innermost d) malloc (wr_list (put malloc d) vs) (put_at d (concat (map enc vs)))"
  using assms by (intro implements_wr_list put_implements) auto

text \<open>What was written and finished reads back, and does not fail without cause.\<close>

lemma write_finish_read:
  assumes m: "malloc_spec malloc" and vs: "\<forall>v \<in> set vs. writable v"
    and st: "cbb_rep st [(Root, [])]"
    and w: "wr_list (put malloc 0) vs st = (True, st')"
    and f: "CBB_finish malloc 0 st' odn oln = (Some out, st'')"
  shows "rd_list get (length vs) out = (Some vs, [])"
proof -
  have "cbb_sound (innermost 0) (wr_list (put malloc 0) vs) (put_at 0 (concat (map enc vs)))"
    using wr_list_implements [OF m vs, of 0] by (simp add: implements_on_def)
  from cbb_soundD [OF this _ st w] have "cbb_rep st' [(Root, concat (map enc vs))]"
    by (simp add: put_at_def)
  from CBB_finish_rep [OF m this f] have "out = concat (map enc vs)"
    by (simp add: put_at_def)
  then show ?thesis
    using vs by (simp add: rd_list_iff writable_valid)
qed

lemma write_finish_live:
  assumes m: "malloc_spec malloc" "malloc_total malloc" and vs: "\<forall>v \<in> set vs. writable v"
    and st: "cbb_rep st [(Root, [])]" "st_roomy st"
    and sz: "length (concat (map enc vs)) < 2 ^ 61"
  shows "\<exists>st' st''. wr_list (put malloc 0) vs st = (True, st') \<and>
     CBB_finish malloc 0 st' False False = (Some (concat (map enc vs)), st'')"
proof -
  let ?out = "concat (map enc vs)"
  have s: "cbb_sound (innermost 0) (wr_list (put malloc 0) vs) (put_at 0 ?out)"
    and l: "cbb_live (innermost 0) (wr_list (put malloc 0) vs) (put_at 0 ?out)"
    using wr_list_implements [OF m(1) vs, of 0] m(2) by (simp_all add: implements_on_def)
  have p: "put_at 0 ?out [(Root, [])] = Some [(Root, ?out)]" by (simp add: put_at_def)
  obtain st' where st': "wr_list (put malloc 0) vs st = (True, st')" "st_roomy st'"
    using cbb_liveD [OF l _ st p] sz by auto
  moreover have "cbb_rep st' [(Root, ?out)]"
    using cbb_soundD [OF s _ st(1) st'(1)] p by simp
  ultimately show ?thesis
    using CBB_finish_live [OF m, of st' "[(Root, ?out)]" ?out] sz by (simp add: put_at_def)
qed

end

interpretation u8_writer: codec_writer CBS_get_u8 "\<lambda>v. be_bytes 1 (unat v)" "\<lambda>_. True"
    CBB_add_u8 "\<lambda>_. True"
  by unfold_locales (simp_all add: CBB_add_u8_implements)

lemma CBB_add_u_writer:
  fixes v :: "'a::len word"
  assumes "malloc_spec malloc" "0 < n" "n \<le> 8" "LENGTH('a) \<le> 64" "unat v < 256 ^ n"
  shows "cbb_implements malloc (\<lambda>st. CBB_add_u malloc d st (ucast v) n) (put_at d (be_bytes n (unat v)))"
proof -
  have "(2 :: nat) ^ LENGTH('a) \<le> 2 ^ 64" using assms(4) by (intro power_increasing) simp_all
  then have "unat (ucast v :: u64) = unat v"
    using order_less_le_trans [OF unsigned_less [of v, where ?'a = nat]] by (simp add: unat_ucast)
  then show ?thesis
    using CBB_add_u_implements [OF assms(1-3), of "ucast v" d] assms(5) by simp
qed

interpretation u16_writer: codec_writer CBS_get_u16 "\<lambda>v. be_bytes 2 (unat v)" "\<lambda>v. unat v < 256 ^ 2"
    CBB_add_u16 "\<lambda>v. unat v < 256 ^ 2"
  by unfold_locales (simp_all add: CBB_add_u16_def CBB_add_u_writer)

interpretation u24_writer: codec_writer CBS_get_u24 "\<lambda>v. be_bytes 3 (unat v)" "\<lambda>v. unat v < 256 ^ 3"
    CBB_add_u24 "\<lambda>v. unat v < 256 ^ 3"
  by unfold_locales (simp_all add: CBB_add_u24_def CBB_add_u_writer)

interpretation u32_writer: codec_writer CBS_get_u32 "\<lambda>v. be_bytes 4 (unat v)" "\<lambda>v. unat v < 256 ^ 4"
    CBB_add_u32 "\<lambda>v. unat v < 256 ^ 4"
  by unfold_locales (simp_all add: CBB_add_u32_def CBB_add_u_writer)

interpretation u64_writer: codec_writer CBS_get_u64 "\<lambda>v. be_bytes 8 (unat v)" "\<lambda>v. unat v < 256 ^ 8"
    CBB_add_u64 "\<lambda>v. unat v < 256 ^ 8"
  by unfold_locales (simp_all add: CBB_add_u64_def CBB_add_u_implements)

interpretation asn1_uint64_writer: codec_writer CBS_get_asn1_uint64
    "\<lambda>v. der_element CBS_ASN1_INTEGER (der_uint (unat v))" "\<lambda>_. True" CBB_add_asn1_uint64 "\<lambda>_. True"
  by unfold_locales (simp_all add: CBB_add_asn1_uint64_implements)

interpretation asn1_int64_writer: codec_writer CBS_get_asn1_int64
    "\<lambda>v. der_element CBS_ASN1_INTEGER (der_int (sint v))" "\<lambda>_. True" CBB_add_asn1_int64 "\<lambda>_. True"
  by unfold_locales (simp_all add: CBB_add_asn1_int64_implements)

interpretation asn1_bool_writer: codec_writer CBS_get_asn1_bool
    "\<lambda>v. der_element CBS_ASN1_BOOLEAN (der_bool v)" "\<lambda>_. True" CBB_add_asn1_bool "\<lambda>_. True"
  by unfold_locales (simp_all add: CBB_add_asn1_bool_implements)

interpretation asn1_octet_string_writer: codec_writer "\<lambda>cbs. CBS_get_asn1 cbs CBS_ASN1_OCTETSTRING"
    "der_element CBS_ASN1_OCTETSTRING" "\<lambda>v. length v < 2 ^ 32"
    CBB_add_asn1_octet_string "\<lambda>v. length v \<le> 0xfffffffe"
  by unfold_locales (simp_all add: CBB_add_asn1_octet_string_implements)


section \<open>SET OF\<close>

text \<open>The order of X.690, 11.6: the comparison decides it, and it is a total order.\<close>

fun bytes_le :: "bytes \<Rightarrow> bytes \<Rightarrow> bool" where
  "bytes_le [] b = True"
| "bytes_le (x # a) [] = False"
| "bytes_le (x # a) (y # b) = (x < y \<or> x = y \<and> bytes_le a b)"

lemma compare_set_of_element_simps:
  "compare_set_of_element [] [] = 0"
  "compare_set_of_element [] (y # b) = -1"
  "compare_set_of_element (x # a) [] = 1"
  "compare_set_of_element (x # a) (y # b) =
     (if x = y then compare_set_of_element a b else int (unat x) - int (unat y))"
proof -
  have ne: "int (unat x) - int (unat y) \<noteq> 0" if "x \<noteq> y"
    using that by (metis right_minus_eq of_nat_eq_iff unat_eqI)
  have n: "(if Suc i < Suc j then Suc i else Suc j) = Suc (if i < j then i else j)" for i j
    by simp
  have "OPENSSL_memcmp (x # a) (y # b) (Suc (if length a < length b then length a else length b)) =
      (if x = y then OPENSSL_memcmp a b (if length a < length b then length a else length b)
       else int (unat x) - int (unat y))"
    by (simp add: OPENSSL_memcmp_def memcmp_def)
  then show "compare_set_of_element (x # a) (y # b) =
     (if x = y then compare_set_of_element a b else int (unat x) - int (unat y))"
    unfolding compare_set_of_element_def CBS_len_def Let_def length_Cons n
    using ne by (cases "x = y"; cases "length a < length b") simp_all
qed (simp_all add: compare_set_of_element_def CBS_len_def OPENSSL_memcmp_def memcmp_def Let_def)

lemma compare_le_iff: "compare_set_of_element a b \<le> 0 \<longleftrightarrow> bytes_le a b"
proof (induction a b rule: bytes_le.induct)
  case (1 b)
  then show ?case by (cases b) (simp_all add: compare_set_of_element_simps)
next
  case (3 x a y b)
  have "int (unat x) - int (unat y) \<le> 0 \<longleftrightarrow> x \<le> y"
    by (simp only: word_le_nat_alt) linarith
  with 3 show ?case
    by (auto simp: compare_set_of_element_simps simp del: of_nat_unat)
qed (simp add: compare_set_of_element_simps)

lemma bytes_le_total: "bytes_le a b \<or> bytes_le b a"
  by (induction a b rule: bytes_le.induct) auto

lemma bytes_le_trans: "bytes_le a b \<Longrightarrow> bytes_le b c \<Longrightarrow> bytes_le a c"
proof (induction a b arbitrary: c rule: bytes_le.induct)
  case (3 x a y b)
  then show ?case by (cases c) auto
qed auto

lemma bytes_le_antisym: "bytes_le a b \<Longrightarrow> bytes_le b a \<Longrightarrow> a = b"
  by (induction a b rule: bytes_le.induct) (auto elim: bytes_le.elims)

lemma mset_qsort: "mset (qsort cmp xs) = mset xs"
proof -
  have "mset (qsort_insert cmp x ys) = add_mset x (mset ys)" for x ys
    by (induction ys) auto
  then show ?thesis
    by (induction xs) (simp_all add: qsort_def)
qed

lemma sorted_qsort: "sorted_wrt bytes_le (qsort compare_set_of_element xs)"
proof -
  have set: "set (qsort_insert cmp x ys) = insert x (set ys)" for cmp and x :: bytes and ys
    by (induction ys) auto
  have "sorted_wrt bytes_le (qsort_insert compare_set_of_element x ys)" if "sorted_wrt bytes_le ys" for x ys
    using that
  proof (induction ys)
    case (Cons y ys)
    then show ?case
      using bytes_le_total [of x y] bytes_le_trans [of x y]
      by (auto simp: compare_le_iff set)
  qed simp
  then show ?thesis
    by (induction xs) (simp_all add: qsort_def)
qed

text \<open>The elements of a string that is a concatenation of DER elements.\<close>

definition der_elements :: "bytes \<Rightarrow> bytes list \<Rightarrow> bool" where
  "der_elements cbs es \<longleftrightarrow> cbs = concat es \<and>
     (\<forall>e \<in> set es. \<exists>tag body. e = der_element tag body \<and> length body < 2 ^ 32)"

lemma count_children_elements:
  "count_children cbs = Some n \<Longrightarrow> \<exists>es. der_elements cbs es \<and> length es = n"
proof (induction cbs arbitrary: n rule: count_children.induct)
  case (1 cbs)
  show ?case
  proof (cases "cbs = []")
    case True
    with 1 show ?thesis by (simp add: count_children.simps [of "[]"] CBS_len_def der_elements_def)
  next
    case False
    then obtain out tag hl rest k where
      get: "CBS_get_any_asn1_element cbs = (Some (out, tag, hl), rest)"
      and k: "count_children rest = Some k" "n = Suc k"
      using "1.prems" by (auto simp: count_children.simps [of cbs] CBS_len_def split: prod.splits option.splits)
    obtain body where b: "cbs = out @ rest" "out = der_element tag body" "length body < 2 ^ 32"
      using get by (rule CBS_get_any_asn1_element_canonical)
    obtain es where "der_elements rest es" "length es = k"
      using "1.IH" [OF _ get [symmetric] refl k(1)] False by (auto simp: CBS_len_def)
    then have "der_elements cbs (out # es)" "length (out # es) = n"
      using b k by (auto simp: der_elements_def)
    then show ?thesis by blast
  qed
qed

lemma get_children_elements:
  "der_elements cbs es \<Longrightarrow> get_children (length es) cbs = Some es"
proof (induction es arbitrary: cbs)
  case (Cons e es)
  then obtain tag body where e: "e = der_element tag body" "length body < 2 ^ 32" "cbs = e @ concat es"
    by (auto simp: der_elements_def)
  then have "CBS_get_any_asn1_element cbs =
      (Some (e, tag, length (der_header tag (length body))), concat es)"
    by (simp add: CBS_get_any_asn1_element_def cbs_get_any_asn1_element_der)
  moreover have "get_children (length es) (concat es) = Some es"
    using Cons by (auto simp: der_elements_def)
  ultimately show ?case by simp
qed simp


text \<open>What \<open>CBB_data\<close> and \<open>CBB_len\<close> show is the body of the innermost frame.\<close>

lemma chain_innermost:
  "cbb_rep st (up @ [(k, body)]) \<Longrightarrow> length up = d \<Longrightarrow> chain st ! d = frame_cbb (length (flat up)) k"
  by (auto simp: cbb_rep_split chain_of_append nth_append)

lemma CBB_data_body:
  assumes "cbb_rep st (up @ [(k, body)])" "length up = d"
  shows "CBS_init (CBB_data d st) (CBB_len d st) = body" "CBB_len d st = length body"
    "length body \<le> PTRDIFF_MAX"
proof -
  obtain b where b: "base st = Some b" "buf_wf b" "written b = flat up @ replicate (plen k) 0 @ body"
    using assms(1) by (auto simp: cbb_rep_split flat_append)
  note c = chain_innermost [OF assms]
  have len: "cb_len b = length (flat up) + plen k + length body"
    using length_written [OF b(2)] b(3) by simp
  then show l: "CBB_len d st = length body"
    by (simp add: CBB_len_def c frame_cbb_def b(1))
  show "length body \<le> PTRDIFF_MAX"
    using len b(2) by (auto simp: buf_wf_def)
  obtain slack where buf: "cb_buf b = flat up @ replicate (plen k) 0 @ body @ slack"
    using buf_split [OF b(2)] b(3) by auto
  have "CBB_data d st = body @ slack"
    by (simp add: CBB_data_def c frame_cbb_def b(1) buf)
  then show "CBS_init (CBB_data d st) (CBB_len d st) = body"
    by (simp add: CBS_init_def l)
qed

lemma rewind_rep:
  assumes "cbb_rep st (up @ [(k, body)])" "length up = d"
  shows "cbb_rep (st\<lparr>base := map_option (\<lambda>b. b\<lparr>cb_len :=
      offset (chain st ! d) + pending_len_len (chain st ! d)\<rparr>) (base st)\<rparr>) (up @ [(k, [])])"
proof -
  obtain b where b: "base st = Some b" "buf_wf b" "\<not> cb_error b"
      "written b = flat up @ replicate (plen k) 0 @ body"
    using assms(1) by (auto simp: cbb_rep_split flat_append)
  let ?n = "length (flat up) + plen k"
  have n: "?n \<le> cb_len b" using length_written [OF b(2)] b(4) by simp
  then have "take ?n (cb_buf b) = take ?n (written b)" by (simp add: written_def min_absorb1)
  also have "\<dots> = flat (up @ [(k, [])])" by (simp add: b(4) flat_append)
  finally show ?thesis
    using assms(1) b n frames_ok_split [of up k body "[]" "[]"]
    unfolding chain_innermost [OF assms] frame_cbb_def
    by (auto simp: cbb_rep_split buf_wf_def written_def chain_of_last [of _ _ _ "[]" body])
qed

lemma OPENSSL_memdup_copy:
  assumes "malloc_spec malloc" "n + 8 < 2 ^ 64" "n \<le> length data" "OPENSSL_memdup malloc data n = Some blk"
  shows "take n (payload blk) = take n data"
proof -
  obtain ret where r: "OPENSSL_malloc malloc n = Some ret"
    and blk: "blk = mem_write ret OPENSSL_MALLOC_PREFIX (take n data)"
    using assms(4) by (auto simp: OPENSSL_memdup_def split: if_splits option.splits)
  note a = OPENSSL_malloc_Some [OF assms(1,2) r]
  show ?thesis
    using a assms(3) by (simp add: blk payload_mem_write)
qed

lemma qsort_short: "length xs < 2 \<Longrightarrow> qsort cmp xs = xs"
  by (cases xs; cases "tl xs") (auto simp: qsort_def)

lemma CBB_flush_asn1_set_of_sound:
  assumes m: "malloc_spec malloc" and rep: "cbb_rep st fs"
    and r: "CBB_flush_asn1_set_of malloc d st = (True, st')"
  shows "\<exists>up k es. put_at d [] fs = Some (up @ [(k, concat es)]) \<and> length up = d \<and>
     der_elements (concat es) es \<and>
     cbb_rep st' (up @ [(k, concat (qsort compare_set_of_element es))])"
proof -
  obtain s where s: "CBB_flush malloc d st = (True, s)"
    using r by (auto simp: CBB_flush_asn1_set_of_def wr_bind_True_iff)
  have "cbb_sound (\<lambda>_. True) (CBB_flush malloc d) (put_at d [])"
    using CBB_flush_implements [OF m, of d] by (simp add: implements_on_def)
  from cbb_soundD [OF this TrueI rep s] obtain fs' where fs': "put_at d [] fs = Some fs'" "cbb_rep s fs'"
    by blast
  from put_at_innermost [OF fs'(1)] obtain up k body where u: "fs' = up @ [(k, body)]" "length up = d"
    by (rule innermostE)
  have rs: "cbb_rep s (up @ [(k, body)])" using fs'(2) u by simp
  note body = CBB_data_body [OF rs u(2)]
  obtain n where n: "count_children body = Some n"
    using r s by (auto simp: CBB_flush_asn1_set_of_def body(1) split: option.splits)
  then obtain es where es: "der_elements body es" "length es = n"
    using count_children_elements by blast
  then have bc: "body = concat es" by (simp add: der_elements_def)
  have "cbb_rep st' (up @ [(k, concat (qsort compare_set_of_element es))])"
  proof (cases "n < 2")
    case True
    then have "st' = s" using r s n by (simp add: CBB_flush_asn1_set_of_def body(1))
    then show ?thesis using True rs es bc by (simp add: qsort_short)
  next
    case False
    let ?rw = "s\<lparr>base := map_option (\<lambda>b. b\<lparr>cb_len := offset (chain s ! d) + pending_len_len (chain s ! d)\<rparr>) (base s)\<rparr>"
    obtain buf x children where dup: "OPENSSL_memdup malloc (CBB_data d s) (length body) = Some buf"
      and ch: "get_children n (CBS_init (payload buf) (length body)) = Some children"
      and w: "wr_list (CBB_add_bytes malloc d) (qsort compare_set_of_element children) ?rw = (True, st')"
      using r s n False
      by (auto simp: CBB_flush_asn1_set_of_def body(2) body(1) [unfolded body(2)] Let_def
          split: option.splits if_splits)
    have b8: "length body + 8 < 2 ^ 64" using body(3) by (simp add: PTRDIFF_MAX_def)
    have "length body \<le> length (CBB_data d s)"
      using body(1,2) by (metis CBS_init_def length_take min.cobounded1)
    from OPENSSL_memdup_copy [OF m b8 this dup] have "CBS_init (payload buf) (length body) = body"
      using body by (simp add: CBS_init_def)
    then have "children = es" using ch get_children_elements [OF es(1)] es(2) by simp
    have "length e \<le> PTRDIFF_MAX" if "e \<in> set es" for e
      using body(3) that by (auto simp: bc length_concat dest!: split_list)
    then have "implements_on (innermost d) malloc
        (wr_list (CBB_add_bytes malloc d) (qsort compare_set_of_element es))
        (put_at d (concat (map (\<lambda>e. e) (qsort compare_set_of_element es))))"
      using mset_eq_setD [OF mset_qsort [of compare_set_of_element es]]
      by (intro implements_wr_list CBB_add_bytes_implements [OF m]) simp
    then have "cbb_sound (innermost d) (wr_list (CBB_add_bytes malloc d) (qsort compare_set_of_element es))
        (put_at d (concat (qsort compare_set_of_element es)))"
      by (simp add: implements_on_def)
    from cbb_soundD [OF this _ rewind_rep [OF rs u(2)] w [unfolded \<open>children = es\<close>]] show ?thesis
      using u(2) by (simp add: put_at_split)
  qed
  then show ?thesis
    using fs'(1) u es bc by auto
qed

end
