(* ===== verification/Unicode.thy ===== *)
theory Unicode
  imports Cbb_Asn1
begin

text \<open>
  \<^verbatim>\<open>crypto/bytestring/unicode.c\<close>: reading and writing single code points in UTF-8, Latin-1,
  UCS-2 and UTF-32. Each pair of functions is an instance of the contract between readers and
  writers, with the shortest UTF-8 form of the Unicode standard as the encoding.
\<close>

section \<open>Model\<close>

definition is_valid_code_point :: "u32 \<Rightarrow> bool" where
  "is_valid_code_point v =
     (\<not> (v > 0x10ffff \<or> v AND 0xfffe = 0xfffe \<or> (v \<ge> 0xfdd0 \<and> v \<le> 0xfdef) \<or>
         (v \<ge> 0xd800 \<and> v \<le> 0xdfff)))"

definition BOTTOM_BITS :: "nat \<Rightarrow> u8" where
  "BOTTOM_BITS n = ucast (push_bit n 1 - 1 :: u32)"

definition TOP_BITS :: "nat \<Rightarrow> u8" where
  "TOP_BITS n = NOT (BOTTOM_BITS (8 - n))"

fun utf8_loop :: "nat \<Rightarrow> u32 \<Rightarrow> bytes \<Rightarrow> u32 rd" where
  "utf8_loop 0 v cbs = (Some v, cbs)"
| "utf8_loop (Suc n) v cbs =
     rd_bind (CBS_get_u8 cbs) (\<lambda>c cbs.
       if c AND TOP_BITS 2 \<noteq> TOP_BITS 1 then (None, cbs)
       else utf8_loop n (push_bit 6 v OR ucast (c AND BOTTOM_BITS 6)) cbs)"

text \<open>The continuation bytes and the final tests, after a leading byte.\<close>

definition utf8_tail :: "u32 \<Rightarrow> nat \<Rightarrow> u32 \<Rightarrow> bytes \<Rightarrow> u32 rd" where
  "utf8_tail v len lower_bound cbs =
     rd_bind (utf8_loop len v cbs) (\<lambda>v cbs.
       if \<not> is_valid_code_point v \<or> v < lower_bound then (None, cbs) else (Some v, cbs))"

definition cbs_get_utf8 :: "bytes \<Rightarrow> u32 rd" where
  "cbs_get_utf8 cbs =
     rd_bind (CBS_get_u8 cbs) (\<lambda>c cbs.
       if c \<le> 0x7f then (Some (ucast c), cbs)
       else if c AND TOP_BITS 3 = TOP_BITS 2 then utf8_tail (ucast (c AND BOTTOM_BITS 5)) 1 0x80 cbs
       else if c AND TOP_BITS 4 = TOP_BITS 3 then utf8_tail (ucast (c AND BOTTOM_BITS 4)) 2 0x800 cbs
       else if c AND TOP_BITS 5 = TOP_BITS 4 then utf8_tail (ucast (c AND BOTTOM_BITS 3)) 3 0x10000 cbs
       else (None, cbs))"

definition cbs_get_latin1 :: "bytes \<Rightarrow> u32 rd" where
  "cbs_get_latin1 cbs = rd_bind (CBS_get_u8 cbs) (\<lambda>c cbs. (Some (ucast c), cbs))"

definition cbs_get_ucs2_be :: "bytes \<Rightarrow> u32 rd" where
  "cbs_get_ucs2_be cbs =
     rd_bind (CBS_get_u16 cbs) (\<lambda>c cbs.
       if \<not> is_valid_code_point (ucast c) then (None, cbs) else (Some (ucast c), cbs))"

definition cbs_get_utf32_be :: "bytes \<Rightarrow> u32 rd" where
  "cbs_get_utf32_be cbs =
     rd_bind (CBS_get_u32 cbs) (\<lambda>v cbs. if is_valid_code_point v then (Some v, cbs) else (None, cbs))"

definition cbb_get_utf8_len :: "u32 \<Rightarrow> nat" where
  "cbb_get_utf8_len u = (if u \<le> 0x7f then 1 else if u \<le> 0x7ff then 2 else if u \<le> 0xffff then 3 else 4)"

text \<open>The continuation byte for the six bits of \<open>u\<close> from bit \<open>k\<close> on.\<close>

definition utf8_low_byte :: "u32 \<Rightarrow> nat \<Rightarrow> u8" where
  "utf8_low_byte u k = TOP_BITS 1 OR ucast (drop_bit k u AND ucast (BOTTOM_BITS 6))"

definition cbb_add_utf8 :: "malloc_fn \<Rightarrow> nat \<Rightarrow> cbb_state \<Rightarrow> u32 \<Rightarrow> bool \<times> cbb_state" where
  "cbb_add_utf8 malloc d st u =
     (if \<not> is_valid_code_point u then (False, st)
      else if u \<le> 0x7f then CBB_add_u8 malloc d st (ucast u)
      else if u \<le> 0x7ff then
        wr_bind (CBB_add_u8 malloc d st (TOP_BITS 2 OR ucast (drop_bit 6 u))) (\<lambda>st.
          CBB_add_u8 malloc d st (utf8_low_byte u 0))
      else if u \<le> 0xffff then
        wr_bind (CBB_add_u8 malloc d st (TOP_BITS 3 OR ucast (drop_bit 12 u))) (\<lambda>st.
          wr_bind (CBB_add_u8 malloc d st (utf8_low_byte u 6)) (\<lambda>st.
            CBB_add_u8 malloc d st (utf8_low_byte u 0)))
      else if u \<le> 0x10ffff then
        wr_bind (CBB_add_u8 malloc d st (TOP_BITS 4 OR ucast (drop_bit 18 u))) (\<lambda>st.
          wr_bind (CBB_add_u8 malloc d st (utf8_low_byte u 12)) (\<lambda>st.
            wr_bind (CBB_add_u8 malloc d st (utf8_low_byte u 6)) (\<lambda>st.
              CBB_add_u8 malloc d st (utf8_low_byte u 0))))
      else (False, st))"

definition cbb_add_latin1 :: "malloc_fn \<Rightarrow> nat \<Rightarrow> cbb_state \<Rightarrow> u32 \<Rightarrow> bool \<times> cbb_state" where
  "cbb_add_latin1 malloc d st u = (if u \<le> 0xff then CBB_add_u8 malloc d st (ucast u) else (False, st))"

definition cbb_add_ucs2_be :: "malloc_fn \<Rightarrow> nat \<Rightarrow> cbb_state \<Rightarrow> u32 \<Rightarrow> bool \<times> cbb_state" where
  "cbb_add_ucs2_be malloc d st u =
     (if u \<le> 0xffff \<and> is_valid_code_point u then CBB_add_u16 malloc d st (ucast u) else (False, st))"

definition cbb_add_utf32_be :: "malloc_fn \<Rightarrow> nat \<Rightarrow> cbb_state \<Rightarrow> u32 \<Rightarrow> bool \<times> cbb_state" where
  "cbb_add_utf32_be malloc d st u =
     (if is_valid_code_point u then CBB_add_u32 malloc d st u else (False, st))"

section \<open>Specification of UTF-8\<close>

definition utf8 :: "nat \<Rightarrow> bytes" where
  "utf8 v =
     (if v < 0x80 then [byte v]
      else if v < 0x800 then [byte (0xc0 + v div 64), byte (0x80 + v mod 64)]
      else if v < 0x10000 then [byte (0xe0 + v div 4096), byte (0x80 + v div 64 mod 64), byte (0x80 + v mod 64)]
      else [byte (0xf0 + v div 262144), byte (0x80 + v div 4096 mod 64), byte (0x80 + v div 64 mod 64),
            byte (0x80 + v mod 64)])"

lemma valid_code_point_less: "is_valid_code_point v \<Longrightarrow> unat v < 0x110000"
  by (simp add: is_valid_code_point_def word_less_nat_alt)

section \<open>Bits of a byte\<close>

lemma BOTTOM_BITS_eq: "BOTTOM_BITS 3 = mask 3" "BOTTOM_BITS 4 = mask 4" "BOTTOM_BITS 5 = mask 5" "BOTTOM_BITS 6 = mask 6"
  "BOTTOM_BITS 7 = mask 7"
  by (simp_all add: BOTTOM_BITS_def mask_eq_exp_minus_1)

lemma TOP_BITS_eq: "TOP_BITS (Suc 0) = 0x80" "TOP_BITS 1 = 0x80" "TOP_BITS 2 = 0xc0" "TOP_BITS 3 = 0xe0" "TOP_BITS 4 = 0xf0" "TOP_BITS 5 = 0xf8"
  by (simp_all add: TOP_BITS_def BOTTOM_BITS_eq mask_eq_exp_minus_1)

lemma top_bits_test:
  fixes c :: u8
  shows "c AND 0xc0 = 0x80 \<longleftrightarrow> unat c div 64 = 2" "c AND 0xe0 = 0xc0 \<longleftrightarrow> unat c div 32 = 6"
    "c AND 0xf0 = 0xe0 \<longleftrightarrow> unat c div 16 = 14" "c AND 0xf8 = 0xf0 \<longleftrightarrow> unat c div 8 = 30"
  using unat_and_high_mask [of 6 2 c] unat_and_high_mask [of 5 3 c] unat_and_high_mask [of 4 4 c]
    unat_and_high_mask [of 3 5 c]
  by (simp_all add: mask_eq_exp_minus_1 word_eq_iff_unsigned [where ?'a = nat])

lemma bottom_bits:
  fixes c :: u8
  shows "n \<in> {3, 4, 5, 6} \<Longrightarrow> unat (c AND BOTTOM_BITS n) = unat c mod 2 ^ n"
  by (auto simp: BOTTOM_BITS_eq unat_and_mask)

text \<open>One continuation byte.\<close>

lemma utf8_loop_Suc_iff:
  assumes "unat v < 2 ^ 20"
  shows "utf8_loop (Suc n) v cbs = (Some w, rest) \<longleftrightarrow>
     (\<exists>x cbs'. x < 64 \<and> cbs = byte (128 + x) # cbs' \<and> utf8_loop n (of_nat (unat v * 64 + x)) cbs' = (Some w, rest))"
proof -
  have acc: "push_bit 6 v OR ucast (c AND BOTTOM_BITS 6) = (of_nat (unat v * 64 + unat c mod 64) :: u32)" for c
  proof (rule unat_eqI)
    have "unat (ucast (c AND BOTTOM_BITS 6) :: u32) = unat c mod 64"
      using bottom_bits [of 6 c] unat_less_u8 [of c] by (simp add: unat_ucast)
    moreover have lt: "unat v * 64 + unat c mod 64 < 2 ^ 32" using assms by simp
    ultimately show "unat (push_bit 6 v OR ucast (c AND BOTTOM_BITS 6)) =
        unat (of_nat (unat v * 64 + unat c mod 64) :: u32)"
      unfolding unat_of_nat_u32 [OF lt] by (subst unat_shift_or) simp_all
  qed
  have c: "c AND TOP_BITS 2 = TOP_BITS 1 \<longleftrightarrow> (\<exists>x < 64. c = byte (128 + x))" for c
  proof -
    have "unat c div 64 = 2 \<longleftrightarrow> (\<exists>x < 64. unat c = 128 + x)"
    proof
      assume "unat c div 64 = 2"
      then have "unat c = 128 + unat c mod 64" using div_mult_mod_eq [of "unat c" 64] by simp
      then show "\<exists>x < 64. unat c = 128 + x" by (intro exI [of _ "unat c mod 64"]) simp
    qed auto
    moreover have "c = byte (128 + x) \<longleftrightarrow> unat c = 128 + x" if "x < 64" for x
      using that by (simp add: byte_eq_iff)
    ultimately show ?thesis unfolding TOP_BITS_eq top_bits_test by blast
  qed
  have m: "unat (byte (128 + x)) mod 64 = x" if "x < 64" for x
    using that mod_add_multiple [of x 64 128] by simp
  have "utf8_loop (Suc n) v cbs = (Some w, rest) \<longleftrightarrow>
      (\<exists>c cbs'. cbs = c # cbs' \<and> c AND TOP_BITS 2 = TOP_BITS 1 \<and>
        utf8_loop n (of_nat (unat v * 64 + unat c mod 64)) cbs' = (Some w, rest))"
    by (auto simp: rd_ok acc simp del: of_nat_add of_nat_mult split: if_splits)
  also have "\<dots> \<longleftrightarrow> (\<exists>x c cbs'. x < 64 \<and> c = byte (128 + x) \<and> cbs = c # cbs' \<and>
        utf8_loop n (of_nat (unat v * 64 + unat c mod 64)) cbs' = (Some w, rest))"
    unfolding c by blast
  also have "\<dots> \<longleftrightarrow> (\<exists>x cbs'. x < 64 \<and> cbs = byte (128 + x) # cbs' \<and>
        utf8_loop n (of_nat (unat v * 64 + x)) cbs' = (Some w, rest))"
    using m by metis
  finally show ?thesis .
qed


declare utf8_loop.simps(2) [simp del]

text \<open>The leading byte of a sequence with \<open>n\<close> continuation bytes.\<close>

lemma utf8_loop_iff:
  "(h + 1) * 64 ^ n \<le> 2 ^ 26 \<Longrightarrow> utf8_loop n (of_nat h) cbs = (Some w, rest) \<longleftrightarrow>
     (\<exists>xs. length xs = n \<and> list_all (\<lambda>x. x < 64) xs \<and> cbs = map (\<lambda>x. byte (128 + x)) xs @ rest \<and>
        unat w = foldl (\<lambda>r x. r * 64 + x) h xs)"
proof (induction n arbitrary: h cbs)
  case 0
  then have "unat (of_nat h :: u32) = h" by (intro unat_of_nat_u32) simp
  then have "(of_nat h :: u32) = w \<longleftrightarrow> unat w = h" by (metis unat_eqI)
  then show ?case by auto
next
  case (Suc n)
  have "(h + 1) * 64 ^ 1 \<le> (h + 1) * 64 ^ Suc n" by (intro mult_le_mono2 power_increasing) simp_all
  also have "\<dots> \<le> 2 ^ 26" by (rule Suc.prems)
  finally have h: "h < 2 ^ 20" by simp
  then have "unat (of_nat h :: u32) = h" by (intro unat_of_nat_u32) simp
  then have "utf8_loop (Suc n) (of_nat h) cbs = (Some w, rest) \<longleftrightarrow>
      (\<exists>x cs'. x < 64 \<and> cbs = byte (128 + x) # cs' \<and> utf8_loop n (of_nat (h * 64 + x)) cs' = (Some w, rest))"
    using utf8_loop_Suc_iff [of "of_nat h" n cbs w rest] h by simp
  also have "\<dots> \<longleftrightarrow> (\<exists>x cs'. x < 64 \<and> cbs = byte (128 + x) # cs' \<and>
      (\<exists>xs. length xs = n \<and> list_all (\<lambda>x. x < 64) xs \<and> cs' = map (\<lambda>x. byte (128 + x)) xs @ rest \<and>
        unat w = foldl (\<lambda>r x. r * 64 + x) (h * 64 + x) xs))"
  proof (intro ex_cong1 conj_cong refl Suc.IH)
    fix x :: nat assume "x < 64"
    then have "(h * 64 + x + 1) * 64 ^ n \<le> ((h + 1) * 64) * 64 ^ n" by (intro mult_le_mono1) simp
    also have "\<dots> = (h + 1) * 64 ^ Suc n" by (simp only: power_Suc mult.assoc)
    finally show "(h * 64 + x + 1) * 64 ^ n \<le> 2 ^ 26" using Suc.prems by (rule order_trans)
  qed
  also have "\<dots> \<longleftrightarrow> (\<exists>xs. length xs = Suc n \<and> list_all (\<lambda>x. x < 64) xs \<and>
      cbs = map (\<lambda>x. byte (128 + x)) xs @ rest \<and> unat w = foldl (\<lambda>r x. r * 64 + x) h xs)"
    (is "?l \<longleftrightarrow> ?r")
  proof
    assume ?l
    then obtain x xs where "x < 64" "cbs = byte (128 + x) # map (\<lambda>x. byte (128 + x)) xs @ rest" "length xs = n"
      "list_all (\<lambda>x. x < 64) xs" "unat w = foldl (\<lambda>r x. r * 64 + x) (h * 64 + x) xs" by blast
    then show ?r by (intro exI [of _ "x # xs"]) simp
  next
    assume ?r
    then obtain xs where "length xs = Suc n" "list_all (\<lambda>x. x < 64) xs"
      "cbs = map (\<lambda>x. byte (128 + x)) xs @ rest" "unat w = foldl (\<lambda>r x. r * 64 + x) h xs" by blast
    then show ?l by (cases xs) auto
  qed
  finally show ?case .
qed

text \<open>What the tests on the leading byte \<open>c\<close> find.\<close>

lemma lead_byte:
  fixes c :: u8
  shows "c \<le> 0x7f \<longleftrightarrow> unat c < 0x80"
    and "h < 32 \<Longrightarrow> unat c = 0xc0 + h \<Longrightarrow> ucast (c AND BOTTOM_BITS 5) = (of_nat h :: u32)"
    and "h < 16 \<Longrightarrow> unat c = 0xe0 + h \<Longrightarrow> ucast (c AND BOTTOM_BITS 4) = (of_nat h :: u32)"
    and "h < 8 \<Longrightarrow> unat c = 0xf0 + h \<Longrightarrow> ucast (c AND BOTTOM_BITS 3) = (of_nat h :: u32)"
proof -
  have eq: "ucast x = (of_nat h :: u32)" if "unat x = h" for x :: u8
    using that unat_less_u8 [of x] by (intro unat_eqI) (simp add: unat_ucast unat_of_nat_u32)
  have m: "(0xc0 + h) mod 32 = h" if "h < 32" for h :: nat
    using mod_add_multiple [of h 32 "0xc0"] that by simp
  have m': "(0xe0 + h) mod 16 = h" if "h < 16" for h :: nat
    using mod_add_multiple [of h 16 "0xe0"] that by simp
  have m'': "(0xf0 + h) mod 8 = h" if "h < 8" for h :: nat
    using mod_add_multiple [of h 8 "0xf0"] that by simp
  show "c \<le> 0x7f \<longleftrightarrow> unat c < 0x80" by (simp add: word_le_nat_alt) linarith
  show "h < 32 \<Longrightarrow> unat c = 0xc0 + h \<Longrightarrow> ucast (c AND BOTTOM_BITS 5) = (of_nat h :: u32)"
    by (rule eq) (simp add: bottom_bits m)
  show "h < 16 \<Longrightarrow> unat c = 0xe0 + h \<Longrightarrow> ucast (c AND BOTTOM_BITS 4) = (of_nat h :: u32)"
    by (rule eq) (simp add: bottom_bits m')
  show "h < 8 \<Longrightarrow> unat c = 0xf0 + h \<Longrightarrow> ucast (c AND BOTTOM_BITS 3) = (of_nat h :: u32)"
    by (rule eq) (simp add: bottom_bits m'')
qed

lemma cbs_get_utf8_Cons:
  fixes c :: u8
  defines "tail h len lower_bound cbs \<equiv> utf8_tail (of_nat h) len lower_bound cbs"
  shows "unat c < 0x80 \<Longrightarrow> cbs_get_utf8 (c # cbs) = (Some (ucast c), cbs)"
    and "h < 32 \<Longrightarrow> unat c = 0xc0 + h \<Longrightarrow> cbs_get_utf8 (c # cbs) = tail h 1 0x80 cbs"
    and "h < 16 \<Longrightarrow> unat c = 0xe0 + h \<Longrightarrow> cbs_get_utf8 (c # cbs) = tail h 2 0x800 cbs"
    and "h < 8 \<Longrightarrow> unat c = 0xf0 + h \<Longrightarrow> cbs_get_utf8 (c # cbs) = tail h 3 0x10000 cbs"
    and "0x80 \<le> unat c \<Longrightarrow> unat c < 0xc0 \<Longrightarrow> cbs_get_utf8 (c # cbs) = (None, cbs)"
    and "0xf8 \<le> unat c \<Longrightarrow> cbs_get_utf8 (c # cbs) = (None, cbs)"
proof -
  have d: "(0xc0 + h) div 32 = 6" if "h < 32" for h :: nat using that by simp
  have d': "(0xe0 + h) div 32 = 7" "(0xe0 + h) div 16 = 14" if "h < 16" for h :: nat using that by simp_all
  have d'': "(0xf0 + h) div 32 = 7" "(0xf0 + h) div 16 = 15" "(0xf0 + h) div 8 = 30" if "h < 8" for h :: nat
    using that by simp_all
  show "unat c < 0x80 \<Longrightarrow> cbs_get_utf8 (c # cbs) = (Some (ucast c), cbs)"
    by (simp add: cbs_get_utf8_def lead_byte)
  show "h < 32 \<Longrightarrow> unat c = 0xc0 + h \<Longrightarrow> cbs_get_utf8 (c # cbs) = tail h 1 0x80 cbs"
    by (simp add: cbs_get_utf8_def lead_byte TOP_BITS_eq top_bits_test d tail_def)
  show "h < 16 \<Longrightarrow> unat c = 0xe0 + h \<Longrightarrow> cbs_get_utf8 (c # cbs) = tail h 2 0x800 cbs"
    by (simp add: cbs_get_utf8_def lead_byte TOP_BITS_eq top_bits_test d' tail_def)
  show "h < 8 \<Longrightarrow> unat c = 0xf0 + h \<Longrightarrow> cbs_get_utf8 (c # cbs) = tail h 3 0x10000 cbs"
    by (simp add: cbs_get_utf8_def lead_byte TOP_BITS_eq top_bits_test d'' tail_def)
  show "0x80 \<le> unat c \<Longrightarrow> unat c < 0xc0 \<Longrightarrow> cbs_get_utf8 (c # cbs) = (None, cbs)"
    by (simp add: cbs_get_utf8_def lead_byte TOP_BITS_eq top_bits_test) linarith
  assume c: "0xf8 \<le> unat c"
  then have "31 \<le> unat c div 8" "15 \<le> unat c div 16" "7 \<le> unat c div 32"
    by (simp_all add: less_eq_div_iff_mult_less_eq)
  with c show "cbs_get_utf8 (c # cbs) = (None, cbs)"
    by (simp add: cbs_get_utf8_def lead_byte TOP_BITS_eq top_bits_test)
qed

lemma lead_cases:
  fixes c :: u8
  obtains "unat c < 0x80" | h where "h < 32" "unat c = 0xc0 + h" | h where "h < 16" "unat c = 0xe0 + h"
    | h where "h < 8" "unat c = 0xf0 + h" | "0x80 \<le> unat c" "unat c < 0xc0" | "0xf8 \<le> unat c"
proof -
  consider "unat c < 0x80" | "0x80 \<le> unat c \<and> unat c < 0xc0" | "0xc0 \<le> unat c \<and> unat c < 0xe0"
    | "0xe0 \<le> unat c \<and> unat c < 0xf0" | "0xf0 \<le> unat c \<and> unat c < 0xf8" | "0xf8 \<le> unat c"
    by linarith
  then show ?thesis
  proof cases
    case 3
    then show ?thesis using that(2) [of "unat c - 0xc0"] by simp
  next
    case 4
    then show ?thesis using that(3) [of "unat c - 0xe0"] by simp
  next
    case 5
    then show ?thesis using that(4) [of "unat c - 0xf0"] by simp
  qed (use that in auto)
qed

lemma ascii_valid: "unat v < 0x80 \<Longrightarrow> is_valid_code_point v"
proof -
  assume v: "unat v < 0x80"
  have "unat (v AND 0xfffe) \<le> unat v"
    using word_and_le2 [of v "0xfffe"] by (simp add: word_le_nat_alt)
  then have "v AND 0xfffe \<noteq> 0xfffe" using v by auto
  then show ?thesis
    using v by (auto simp: is_valid_code_point_def word_le_nat_alt word_less_nat_alt)
qed

lemma list_lengths:
  "length xs = Suc 0 \<longleftrightarrow> (\<exists>x. xs = [x])" "length xs = 2 \<longleftrightarrow> (\<exists>x y. xs = [x, y])"
  "length xs = 3 \<longleftrightarrow> (\<exists>x y z. xs = [x, y, z])"
  by (auto simp: length_Suc_conv numeral_2_eq_2 numeral_3_eq_3)

lemma digits64: "b < 64 \<Longrightarrow> (a * 64 + b) div 64 = (a :: nat)" "b < 64 \<Longrightarrow> (a * 64 + b) mod 64 = b"
  by simp_all

section \<open>Reading and writing UTF-8\<close>

lemma cbs_get_utf8_sound:
  assumes r: "cbs_get_utf8 cbs = (Some v, rest)"
  shows "cbs = utf8 (unat v) @ rest \<and> is_valid_code_point v"
proof -
  obtain c cs where cbs: "cbs = c # cs"
    using r by (cases cbs) (auto simp: cbs_get_utf8_def)
  show ?thesis
  proof (cases c rule: lead_cases)
    case 1
    then have "v = ucast c" "rest = cs" using r cbs_get_utf8_Cons(1) by (auto simp: cbs)
    moreover have "unat (ucast c :: u32) = unat c" using 1 by (simp add: unat_ucast)
    ultimately show ?thesis using 1 ascii_valid by (simp add: cbs utf8_def)
  next
    case (2 h)
    then obtain x where x: "x < 64" "cs = byte (128 + x) # rest" "unat v = h * 64 + x"
      and v: "is_valid_code_point v" "0x80 \<le> unat v"
      using r cbs_get_utf8_Cons(2) [of h c cs]
      by (auto simp: cbs utf8_tail_def rd_ok utf8_loop_iff list_lengths word_less_nat_alt split: if_splits)
    then show ?thesis using 2 by (simp add: cbs utf8_def byte_eq_iff)
  next
    case (3 h)
    then obtain x y where x: "x < 64" "y < 64" "cs = byte (128 + x) # byte (128 + y) # rest"
      "unat v = (h * 64 + x) * 64 + y" and v: "is_valid_code_point v" "0x800 \<le> unat v"
      using r cbs_get_utf8_Cons(3) [of h c cs]
      by (auto simp: cbs utf8_tail_def rd_ok utf8_loop_iff list_lengths word_less_nat_alt split: if_splits)
    have "unat v div 64 = h * 64 + x" "unat v mod 64 = y"
      unfolding x(4) by (simp_all only: digits64 [OF x(2)])
    moreover from this have "unat v div 4096 = h" "unat v div 64 mod 64 = x"
      using div_mult2_eq [of "unat v" 64 64] digits64 [OF x(1)] by simp_all
    ultimately show ?thesis using 3 x v by (simp add: cbs utf8_def byte_eq_iff)
  next
    case (4 h)
    then obtain x y z where x: "x < 64" "y < 64" "z < 64"
      "cs = byte (128 + x) # byte (128 + y) # byte (128 + z) # rest"
      "unat v = ((h * 64 + x) * 64 + y) * 64 + z" and v: "is_valid_code_point v" "0x10000 \<le> unat v"
      using r cbs_get_utf8_Cons(4) [of h c cs]
      by (auto simp: cbs utf8_tail_def rd_ok utf8_loop_iff list_lengths word_less_nat_alt split: if_splits)
    have a: "unat v div 64 = (h * 64 + x) * 64 + y" "unat v mod 64 = z"
      unfolding x(5) by (simp_all only: digits64 [OF x(3)])
    have b: "unat v div 4096 = h * 64 + x" "unat v div 64 mod 64 = y"
      using div_mult2_eq [of "unat v" 64 64] digits64 [OF x(2), of "h * 64 + x"] a by simp_all
    have "unat v div 262144 = h" "unat v div 4096 mod 64 = x"
      using div_mult2_eq [of "unat v" 4096 64] digits64 [OF x(1)] b by simp_all
    note this a(2) b(2)
    with 4 x v show ?thesis by (simp add: cbs utf8_def byte_eq_iff)
  next
    case 5
    then show ?thesis using r cbs_get_utf8_Cons(5) [of c cs] by (simp add: cbs)
  next
    case 6
    then show ?thesis using r cbs_get_utf8_Cons(6) [of c cs] by (simp add: cbs)
  qed
qed


lemma cbs_get_utf8_complete:
  assumes valid: "is_valid_code_point v"
  shows "cbs_get_utf8 (utf8 (unat v) @ rest) = (Some v, rest)"
proof -
  let ?n = "unat v"
  have n: "?n < 0x110000" using valid by (rule valid_code_point_less)
  have lower: "\<not> v < of_nat k" if "k \<le> ?n" "k < 2 ^ 32" for k
    using that by (simp add: word_less_nat_alt unat_of_nat_u32)
  consider "?n < 0x80" | "0x80 \<le> ?n" "?n < 0x800" | "0x800 \<le> ?n" "?n < 0x10000" | "0x10000 \<le> ?n"
    by linarith
  then show ?thesis
  proof cases
    case 1
    then have "ucast (byte ?n) = v" by (intro unat_eqI) (simp add: unat_ucast)
    with 1 show ?thesis using cbs_get_utf8_Cons(1) [of "byte ?n" rest] by (simp add: utf8_def)
  next
    case 2
    then have "utf8_loop 1 (of_nat (?n div 64)) (byte (128 + ?n mod 64) # rest) = (Some v, rest)"
      by (subst utf8_loop_iff) (auto intro!: exI [of _ "[?n mod 64]"])
    with 2 show ?thesis
      using cbs_get_utf8_Cons(2) [of "?n div 64" "byte (0xc0 + ?n div 64)"] valid lower [of "0x80"]
      by (simp add: utf8_def utf8_tail_def)
  next
    case 3
    have "?n div 4096 * 64 + ?n div 64 mod 64 = ?n div 64"
      using div_mult2_eq [of ?n 64 64] by simp
    then have "utf8_loop 2 (of_nat (?n div 4096)) (byte (128 + ?n div 64 mod 64) # byte (128 + ?n mod 64) # rest) =
        (Some v, rest)"
      using 3 by (subst utf8_loop_iff) (auto intro!: exI [of _ "[?n div 64 mod 64, ?n mod 64]"])
    with 3 show ?thesis
      using cbs_get_utf8_Cons(3) [of "?n div 4096" "byte (0xe0 + ?n div 4096)"] valid lower [of "0x800"]
      by (simp add: utf8_def utf8_tail_def)
  next
    case 4
    have "(?n div 262144 * 64 + ?n div 4096 mod 64) = ?n div 4096" "?n div 4096 * 64 + ?n div 64 mod 64 = ?n div 64"
      using div_mult2_eq [of ?n 4096 64] div_mult2_eq [of ?n 64 64] by simp_all
    then have "utf8_loop 3 (of_nat (?n div 262144)) (byte (128 + ?n div 4096 mod 64) #
        byte (128 + ?n div 64 mod 64) # byte (128 + ?n mod 64) # rest) = (Some v, rest)"
      using n by (subst utf8_loop_iff)
         (auto intro!: exI [of _ "[?n div 4096 mod 64, ?n div 64 mod 64, ?n mod 64]"])
    with 4 show ?thesis
      using cbs_get_utf8_Cons(4) [of "?n div 262144" "byte (0xf0 + ?n div 262144)"] valid lower [of "0x10000"] n
      by (simp add: utf8_def utf8_tail_def)
  qed
qed

interpretation utf8: codec cbs_get_utf8 "\<lambda>v. utf8 (unat v)" is_valid_code_point
  by unfold_locales (use cbs_get_utf8_sound cbs_get_utf8_complete in blast)

text \<open>The bytes that \<open>cbb_add_utf8\<close> composes.\<close>

lemma utf8_byte:
  fixes y :: u8 and x :: u32
  assumes "2 ^ n dvd unat y" "unat x < 2 ^ n" "unat y + 2 ^ n \<le> 256"
  shows "y OR ucast x = byte (unat y + unat x)"
proof -
  have "unat (ucast x :: u8) = unat x" using assms by (simp add: unat_ucast)
  then show ?thesis
    using assms by (subst or_plus_dvd [where n = n]) (simp_all add: byte_eq_iff unat_word_ariths)
qed

lemma utf8_low: "utf8_low_byte u k = byte (0x80 + unat u div 2 ^ k mod 64)"
proof -
  have "ucast (BOTTOM_BITS 6) = (mask 6 :: u32)" by (simp add: BOTTOM_BITS_eq mask_eq_exp_minus_1)
  then have "unat (drop_bit k u AND ucast (BOTTOM_BITS 6)) = unat u div 2 ^ k mod 64"
    by (simp add: unat_and_mask unat_drop_bit)
  then show ?thesis
    using utf8_byte [of 6 "0x80" "drop_bit k u AND ucast (BOTTOM_BITS 6)"] by (simp add: TOP_BITS_eq utf8_low_byte_def)
qed

lemma implements_cons_top:
  assumes m: "malloc_spec malloc" and f: "implements_on (innermost d) malloc f (put_at d x)"
  shows "cbb_implements malloc (\<lambda>st. wr_bind (CBB_add_u8 malloc d st b) f) (put_at d (b # x))"
  using implements_bind [OF CBB_add_u8_implements [OF m, of d b] f] by (simp add: put_at_put_at put_at_innermost)

lemma cbb_add_utf8_implements:
  assumes m: "malloc_spec malloc" and valid: "is_valid_code_point u"
  shows "cbb_implements malloc (\<lambda>st. cbb_add_utf8 malloc d st u) (put_at d (utf8 (unat u)))"
proof -
  let ?n = "unat u"
  have n: "?n < 0x110000" using valid by (rule valid_code_point_less)
  have le: "u \<le> of_nat k \<longleftrightarrow> ?n \<le> k" if "k < 2 ^ 32" for k
    using that by (simp add: word_le_nat_alt unat_of_nat_u32)
  note cmp = le [of "0x7f", simplified] le [of "0x7ff", simplified] le [of "0xffff", simplified]
    le [of "0x10ffff", simplified]
  have one: "implements_on (innermost d) malloc (\<lambda>st. CBB_add_u8 malloc d st b) (put_at d [b])" for b
    by (rule implements_on_weaken [OF CBB_add_u8_implements [OF m]])
  note two = implements_cons [OF m one] and top = implements_cons_top [OF m]
  have lead: "TOP_BITS 2 OR ucast (drop_bit 6 u) = byte (0xc0 + ?n div 64)" if "?n < 0x800"
    using that utf8_byte [of 5 "0xc0" "drop_bit 6 u"] by (simp add: TOP_BITS_eq unat_drop_bit)
  have lead': "TOP_BITS 3 OR ucast (drop_bit 12 u) = byte (0xe0 + ?n div 4096)" if "?n < 0x10000"
    using that utf8_byte [of 4 "0xe0" "drop_bit 12 u"] by (simp add: TOP_BITS_eq unat_drop_bit)
  have lead'': "TOP_BITS 4 OR ucast (drop_bit 18 u) = byte (0xf0 + ?n div 262144)"
    using n utf8_byte [of 3 "0xf0" "drop_bit 18 u"] by (simp add: TOP_BITS_eq unat_drop_bit)
  consider "?n < 0x80" | "0x80 \<le> ?n" "?n < 0x800" | "0x800 \<le> ?n" "?n < 0x10000" | "0x10000 \<le> ?n"
    by linarith
  then show ?thesis
  proof cases
    case 1
    moreover have "ucast u = byte ?n" using 1 by (simp add: byte_eq_iff unat_ucast)
    ultimately show ?thesis
      using CBB_add_u8_implements [OF m, of d "byte ?n"] valid
      by (simp add: cbb_add_utf8_def cmp utf8_def)
  next
    case 2
    then show ?thesis
      using top [OF one, of "byte (0xc0 + ?n div 64)" "byte (0x80 + ?n mod 64)"] valid utf8_low [of u 0]
      by (simp add: cbb_add_utf8_def cmp utf8_def lead)
  next
    case 3
    then show ?thesis
      using top [OF two, of "byte (0xe0 + ?n div 4096)" "byte (0x80 + ?n div 64 mod 64)" "byte (0x80 + ?n mod 64)"]
        valid utf8_low [of u 0] utf8_low [of u 6]
      by (simp add: cbb_add_utf8_def cmp utf8_def lead')
  next
    case 4
    then show ?thesis
      using top [OF implements_cons [OF m two], of "byte (0xf0 + ?n div 262144)" "byte (0x80 + ?n div 4096 mod 64)"
          "byte (0x80 + ?n div 64 mod 64)" "byte (0x80 + ?n mod 64)"]
        valid utf8_low [of u 0] utf8_low [of u 6] utf8_low [of u 12] n
      by (simp add: cbb_add_utf8_def cmp utf8_def lead'')
  qed
qed

interpretation utf8_writer: codec_writer cbs_get_utf8 "\<lambda>v. utf8 (unat v)" is_valid_code_point
    cbb_add_utf8 is_valid_code_point
  by unfold_locales (simp_all add: cbb_add_utf8_implements)


section \<open>The other encodings\<close>

lemma latin1_iff: "cbs_get_latin1 cbs = (Some v, rest) \<longleftrightarrow> cbs = [byte (unat v)] @ rest \<and> unat v < 256"
proof -
  have "ucast c = v \<longleftrightarrow> c = byte (unat v) \<and> unat v < 256" for c :: u8
  proof
    assume "ucast c = v"
    then have "unat v = unat c" using unat_less_u8 [of c] by (auto simp: unat_ucast)
    then show "c = byte (unat v) \<and> unat v < 256" using unat_less_u8 [of c] by simp
  next
    assume "c = byte (unat v) \<and> unat v < 256"
    then show "ucast c = v" by (intro unat_eqI) (simp add: unat_ucast)
  qed
  then show ?thesis by (auto simp: cbs_get_latin1_def rd_ok)
qed

lemma cbb_add_latin1_implements:
  assumes "malloc_spec malloc" "unat u < 256"
  shows "cbb_implements malloc (\<lambda>st. cbb_add_latin1 malloc d st u) (put_at d [byte (unat u)])"
proof -
  have "u \<le> 0xff" "ucast u = byte (unat u)"
    using assms(2) by (simp_all add: word_le_nat_alt byte_eq_iff unat_ucast)
  then show ?thesis
    using CBB_add_u8_implements [OF assms(1), of d "byte (unat u)"] by (simp add: cbb_add_latin1_def)
qed

interpretation latin1_writer: codec_writer cbs_get_latin1 "\<lambda>v. [byte (unat v)]" "\<lambda>v. unat v < 256"
    cbb_add_latin1 "\<lambda>v. unat v < 256"
  by unfold_locales (simp_all only: latin1_iff cbb_add_latin1_implements)

lemma ucast_u16: "unat (ucast (w :: u16) :: u32) = unat w" "unat (u :: u32) \<le> 0xffff \<Longrightarrow> unat (ucast u :: u16) = unat u"
  using unsigned_less [of w, where ?'a = nat] by (simp_all add: unat_ucast)

lemma ucs2_iff:
  "cbs_get_ucs2_be cbs = (Some v, rest) \<longleftrightarrow>
   cbs = be_bytes 2 (unat v) @ rest \<and> (unat v \<le> 0xffff \<and> is_valid_code_point v)"
proof
  assume "cbs_get_ucs2_be cbs = (Some v, rest)"
  then obtain c c' where g: "CBS_get_u16 cbs = (Some c, c')"
    and f: "(if \<not> is_valid_code_point (ucast c) then (None, c') else (Some (ucast c), c')) = (Some v, rest)"
    unfolding cbs_get_ucs2_be_def rd_ok by blast
  have c: "CBS_get_u16 cbs = (Some c, rest)" "is_valid_code_point (ucast c)" "v = ucast c"
    using g f by (simp_all split: if_splits)
  have "unat c \<le> 0xffff" using unsigned_less [of c, where ?'a = nat] by simp
  with c show "cbs = be_bytes 2 (unat v) @ rest \<and> (unat v \<le> 0xffff \<and> is_valid_code_point v)"
    by (simp add: u16.get_iff ucast_u16)
next
  assume a: "cbs = be_bytes 2 (unat v) @ rest \<and> (unat v \<le> 0xffff \<and> is_valid_code_point v)"
  then have "CBS_get_u16 cbs = (Some (ucast v), rest)"
    using u16.get_iff [of cbs "ucast v" rest] ucast_u16(2) [of v] by simp
  moreover have "ucast (ucast v :: u16) = v"
    using a by (intro unat_eqI) (simp add: ucast_u16)
  ultimately show "cbs_get_ucs2_be cbs = (Some v, rest)"
    using a by (simp add: cbs_get_ucs2_be_def)
qed

lemma cbb_add_ucs2_be_implements:
  assumes "malloc_spec malloc" "unat u \<le> 0xffff \<and> is_valid_code_point u"
  shows "cbb_implements malloc (\<lambda>st. cbb_add_ucs2_be malloc d st u) (put_at d (be_bytes 2 (unat u)))"
proof -
  have u: "unat (ucast u :: u16) = unat u" "u \<le> 0xffff"
    using assms(2) by (simp_all add: ucast_u16 word_le_nat_alt)
  then show ?thesis
    using u16_writer.put_implements [OF assms(1), of "ucast u" d] assms(2)
    by (simp add: cbb_add_ucs2_be_def)
qed

interpretation ucs2_writer: codec_writer cbs_get_ucs2_be "\<lambda>v. be_bytes 2 (unat v)"
    "\<lambda>v. unat v \<le> 0xffff \<and> is_valid_code_point v" cbb_add_ucs2_be "\<lambda>v. unat v \<le> 0xffff \<and> is_valid_code_point v"
  by unfold_locales (simp_all only: ucs2_iff cbb_add_ucs2_be_implements)

lemma utf32_iff:
  "cbs_get_utf32_be cbs = (Some v, rest) \<longleftrightarrow> cbs = be_bytes 4 (unat v) @ rest \<and> is_valid_code_point v"
  using u32.get_iff [of cbs v rest] valid_code_point_less [of v]
  by (auto simp: cbs_get_utf32_be_def rd_ok split: if_splits)

lemma cbb_add_utf32_be_implements:
  assumes "malloc_spec malloc" "is_valid_code_point u"
  shows "cbb_implements malloc (\<lambda>st. cbb_add_utf32_be malloc d st u) (put_at d (be_bytes 4 (unat u)))"
  using u32_writer.put_implements [OF assms(1), of u d] valid_code_point_less [OF assms(2)] assms(2)
  by (simp add: cbb_add_utf32_be_def)

interpretation utf32_writer: codec_writer cbs_get_utf32_be "\<lambda>v. be_bytes 4 (unat v)" is_valid_code_point
    cbb_add_utf32_be is_valid_code_point
  by unfold_locales (simp_all only: utf32_iff cbb_add_utf32_be_implements)

section \<open>Properties\<close>

text \<open>
  C17. \<open>cbs_get_utf8\<close> accepts exactly the shortest UTF-8 form of the valid code points:
  overlong forms, surrogates, noncharacters, stray and missing continuation bytes are rejected.
\<close>

theorem cbs_get_utf8_exact:
  "cbs_get_utf8 cbs = (Some v, rest) \<longleftrightarrow> cbs = utf8 (unat v) @ rest \<and> is_valid_code_point v"
  by (rule utf8.get_iff)

text \<open>
  C18. A string of valid code points written with \<open>cbb_add_utf8\<close> reads back as the same code
  points, and has the total length that \<open>cbb_get_utf8_len\<close> predicts.
\<close>

theorem utf8_string_roundtrip:
  assumes "malloc_spec malloc" "cap + 8 < 2 ^ 64" "\<forall>v \<in> set vs. is_valid_code_point v"
    and "CBB_init malloc cap = (True, st)" "wr_list (cbb_add_utf8 malloc 0) vs st = (True, st')"
    and "CBB_finish malloc 0 st' False False = (Some out, st'')"
  shows "rd_list cbs_get_utf8 (length vs) out = (Some vs, []) \<and> length out = sum_list (map cbb_get_utf8_len vs)"
proof -
  have r: "rd_list cbs_get_utf8 (length vs) out = (Some vs, [])"
    using utf8_writer.write_finish_read [OF assms(1,3) CBB_init_rep(1) [OF assms(1,2,4)] assms(5,6)] .
  then have "out = concat (map (\<lambda>v. utf8 (unat v)) vs)"
    by (simp add: utf8.rd_list_iff)
  moreover have "length (utf8 (unat v)) = cbb_get_utf8_len v" for v
    by (auto simp: utf8_def cbb_get_utf8_len_def word_le_nat_alt)
  ultimately show ?thesis
    using r by (simp add: length_concat comp_def)
qed

definition utf8_arena :: malloc_fn where
  "utf8_arena n = (if n \<le> 100 then Some (replicate n 0) else None)"

lemma utf8_ex_runs:
  "fst (CBB_init utf8_arena 1)"
  "fst (wr_list (cbb_add_utf8 utf8_arena 0) [0xe9] (snd (CBB_init utf8_arena 1)))"
  "fst (CBB_finish utf8_arena 0 (snd (wr_list (cbb_add_utf8 utf8_arena 0) [0xe9]
     (snd (CBB_init utf8_arena 1)))) False False) = Some [0xc3, 0xa9]"
  by code_simp+

theorem utf8_string_roundtrip_witness:
  "rd_list cbs_get_utf8 (length [0xe9 :: u32]) [0xc3, 0xa9] = (Some [0xe9], []) \<and>
   length [0xc3, 0xa9 :: u8] = sum_list (map cbb_get_utf8_len [0xe9])"
proof -
  let ?st = "snd (CBB_init utf8_arena 1)"
  let ?st' = "snd (wr_list (cbb_add_utf8 utf8_arena 0) [0xe9] ?st)"
  have m: "malloc_spec utf8_arena" by (simp add: malloc_spec_def utf8_arena_def PTRDIFF_MAX_def)
  have v: "\<forall>v \<in> set [0xe9]. is_valid_code_point v" by code_simp
  have "CBB_init utf8_arena 1 = (True, ?st)" "wr_list (cbb_add_utf8 utf8_arena 0) [0xe9] ?st = (True, ?st')"
    "CBB_finish utf8_arena 0 ?st' False False = (Some [0xc3, 0xa9],
       snd (CBB_finish utf8_arena 0 ?st' False False))"
    using utf8_ex_runs by (simp_all add: prod_eq_iff)
  from utf8_string_roundtrip [OF m _ v this] show ?thesis by simp
qed

end
