(* ===== verification/Ber.thy ===== *)
theory Ber
  imports Cbb_Asn1
begin

text \<open>
  \<^verbatim>\<open>crypto/bytestring/ber.c\<close>: the search for BER constructions that DER forbids, the
  conversion of such input to DER, and implicitly tagged strings. The conversion walks the
  input recursively while it writes to the builder; its model carries fuel, and every input is
  converted with as much fuel as it has bytes.
\<close>

section \<open>Model\<close>

definition kMaxDepth :: nat where
  "kMaxDepth = 2048"

definition string_tags :: "u32 list" where
  "string_tags = [0x3, 0x4, 0xc, 0x12, 0x13, 0x14, 0x15, 0x16, 0x19, 0x1a, 0x1b, 0x1c, 0x1e]"

definition is_string_type :: "u32 \<Rightarrow> bool" where
  "is_string_type tag = (tag AND NOT CBS_ASN1_CONSTRUCTED \<in> set string_tags)"

text \<open>
  The elements that the BER reader accepts: DER elements, and the bare header of an indefinite
  length element.
\<close>

lemma ber_element_cases:
  assumes r: "CBS_get_any_ber_asn1_element cbs = (Some (out, tag, hl), rest)"
  obtains (definite) body where "cbs = out @ rest" "out = der_element tag body"
      "hl = length (der_header tag (length body))" "length body < 2 ^ 32"
    | (indefinite) "cbs = out @ rest" "out = der_tag tag @ [0x80]" "hl = length out"
      "tag AND CBS_ASN1_CONSTRUCTED \<noteq> 0"
proof -
  obtain tag' header where "parse_asn1_tag cbs = (Some tag', header)"
    using r by (auto simp: CBS_get_any_ber_asn1_element_def cbs_get_any_asn1_element_def
        split: prod.splits option.splits)
  moreover obtain lb h where "header = lb # h"
    using r calculation
    by (cases header) (auto simp: CBS_get_any_ber_asn1_element_def cbs_get_any_asn1_element_def)
  ultimately have eq: "cbs = der_tag tag' @ lb # h"
    by (auto dest: parse_asn1_tag_canonical)
  have tl: "length (der_tag tag') < 2 ^ 32"
    using length_der_tag [of tag'] by simp
  note norm = cbs_get_any_asn1_element_norm [OF eq tl]
  show thesis
  proof (cases "unat lb = 128 \<and> tag' AND CBS_ASN1_CONSTRUCTED \<noteq> 0")
    case True
    then have "lb = 0x80" by (simp add: word_eq_iff_unsigned [where ?'a = nat])
    moreover have "get_n cbs tag' (Suc (length (der_tag tag'))) (Suc (length (der_tag tag'))) =
        (Some (out, tag, hl), rest)"
      using True r by (simp add: CBS_get_any_ber_asn1_element_def norm)
    ultimately have "out = der_tag tag @ [0x80]" "cbs = out @ rest" "hl = length out" "tag' = tag"
      by (auto simp: get_n_def eq split: if_splits)
    with True show thesis by (intro indefinite) simp_all
  next
    case False
    then have "cbs_get_any_asn1_element cbs True = cbs_get_any_asn1_element cbs False"
      unfolding norm by auto
    then have "CBS_get_any_asn1_element cbs = (Some (out, tag, hl), rest)"
      using r by (simp add: CBS_get_any_ber_asn1_element_def CBS_get_any_asn1_element_def)
    then show thesis
      by (rule CBS_get_any_asn1_element_canonical) (rule definite)
  qed
qed

lemma get_ber_element_shorter:
  assumes "CBS_get_any_ber_asn1_element cbs = (Some (out, tag, hl), rest)"
  shows "cbs = out @ rest" "0 < hl" "hl \<le> length out"
  using assms
  by (cases rule: ber_element_cases; simp add: der_element_def der_header_def)+

lemma ber_rest_shorter:
  "CBS_get_any_ber_asn1_element cbs = (Some (out, tag, hl), rest) \<Longrightarrow>
   length rest < length cbs \<and> length (drop hl out) < length cbs"
  using get_ber_element_shorter [of cbs out tag hl rest] by auto

lemma CBS_skip_Some: "(Some (), c) = CBS_skip out hl \<Longrightarrow> c = drop hl out"
  by (auto simp: CBS_skip_def cbs_get_def split: if_splits)

definition is_indefinite :: "bytes \<Rightarrow> nat \<Rightarrow> bool" where
  "is_indefinite contents header_len =
     (CBS_len contents = header_len \<and> header_len > 0 \<and> contents ! (header_len - 1) = 0x80)"

text \<open>
  The loop of \<open>cbs_find_ber\<close>, with the value of \<open>*ber_found\<close>; \<open>None\<close> is a return of zero.
\<close>

function find_ber_loop :: "bytes \<Rightarrow> bool \<Rightarrow> nat \<Rightarrow> bool option" where
  "find_ber_loop inp ber_found depth =
     (if CBS_len inp > 0 then
        (case CBS_get_any_ber_asn1_element inp of
           (None, _) \<Rightarrow> None
         | (Some (contents, tag, header_len), inp) \<Rightarrow>
             if is_indefinite contents header_len then Some True
             else if tag AND CBS_ASN1_CONSTRUCTED \<noteq> 0 then
               (if is_string_type tag then Some True
                else (case CBS_skip contents header_len of
                        (None, _) \<Rightarrow> None
                      | (Some _, contents) \<Rightarrow>
                          (case (if depth + 1 > kMaxDepth then None
                                 else find_ber_loop contents False (depth + 1)) of
                             None \<Rightarrow> None
                           | Some ber_found \<Rightarrow> find_ber_loop inp ber_found depth)))
             else find_ber_loop inp ber_found depth)
      else Some ber_found)"
  by pat_completeness auto
termination
  by (relation "measure (\<lambda>(inp, _, _). length inp)")
     (auto dest!: ber_rest_shorter [OF sym] CBS_skip_Some)

declare find_ber_loop.simps [simp del]

definition cbs_find_ber :: "bytes \<Rightarrow> nat \<Rightarrow> bool option" where
  "cbs_find_ber orig_in depth =
     (if depth > kMaxDepth then None else find_ber_loop orig_in False depth)"

definition is_eoc :: "nat \<Rightarrow> bytes \<Rightarrow> bool" where
  "is_eoc header_len contents =
     (header_len = 2 \<and> CBS_len contents = 2 \<and> OPENSSL_memcmp contents [0, 0] 2 = 0)"

text \<open>
  \<open>cbs_convert_ber\<close>: the result is what the function returns, \<open>*in\<close> and the builder as the
  call leaves them; \<open>None\<close> means that the fuel ran out. \<open>d\<close> is the depth of \<open>out\<close> in the
  tree of CBBs. Every pass of the loop is one call; it is split into the conversion of the
  contents of an element, the flush with the rest of the loop, and the pass itself, over the
  recursive call \<open>conv\<close>.
\<close>

type_synonym conv_result = "(bool \<times> bytes \<times> cbb_state) option"
type_synonym conv_fn = "bytes \<Rightarrow> nat \<Rightarrow> cbb_state \<Rightarrow> u32 \<Rightarrow> bool \<Rightarrow> nat \<Rightarrow> conv_result"

definition convert_contents :: "conv_fn \<Rightarrow> malloc_fn \<Rightarrow> bytes \<Rightarrow> u32 \<Rightarrow> nat \<Rightarrow> bytes \<Rightarrow> nat \<Rightarrow> cbb_state \<Rightarrow> u32 \<Rightarrow>
    nat \<Rightarrow> conv_result" where
  "convert_contents conv malloc contents tag header_len inp out_contents st child_string_tag depth =
     (if is_indefinite contents header_len then conv inp out_contents st child_string_tag True (depth + 1)
      else (case CBS_skip contents header_len of
              (None, _) \<Rightarrow> Some (False, inp, st)
            | (Some _, contents) \<Rightarrow>
                if tag AND CBS_ASN1_CONSTRUCTED \<noteq> 0
                then map_option (\<lambda>(ok, _, st). (ok, inp, st))
                       (conv contents out_contents st child_string_tag False (depth + 1))
                else (case CBB_add_bytes malloc out_contents st contents of (ok, st) \<Rightarrow> Some (ok, inp, st))))"

definition convert_rest :: "conv_fn \<Rightarrow> malloc_fn \<Rightarrow> nat \<Rightarrow> u32 \<Rightarrow> bool \<Rightarrow> nat \<Rightarrow> conv_result \<Rightarrow> conv_result" where
  "convert_rest conv malloc d string_tag looking_for_eoc depth r =
     (case r of
        None \<Rightarrow> None
      | Some (False, inp, st) \<Rightarrow> Some (False, inp, st)
      | Some (True, inp, st) \<Rightarrow>
          (case CBB_flush malloc d st of
             (False, st) \<Rightarrow> Some (False, inp, st)
           | (True, st) \<Rightarrow> conv inp d st string_tag looking_for_eoc depth))"

definition convert_pass :: "conv_fn \<Rightarrow> malloc_fn \<Rightarrow> conv_fn" where
  "convert_pass conv malloc inp d st string_tag looking_for_eoc depth =
     (case CBS_get_any_ber_asn1_element inp of
        (None, inp) \<Rightarrow> Some (False, inp, st)
      | (Some (contents, tag, header_len), inp) \<Rightarrow>
          if is_eoc header_len contents then Some (looking_for_eoc, inp, st)
          else if string_tag \<noteq> 0 then
            (if tag AND NOT CBS_ASN1_CONSTRUCTED \<noteq> string_tag then Some (False, inp, st)
             else convert_rest conv malloc d string_tag looking_for_eoc depth
                    (convert_contents conv malloc contents tag header_len inp d st string_tag depth))
          else
            (let to_primitive = (tag AND CBS_ASN1_CONSTRUCTED \<noteq> 0 \<and> is_string_type tag);
                 out_tag = (if to_primitive then tag AND NOT CBS_ASN1_CONSTRUCTED else tag);
                 child_string_tag = (if to_primitive then out_tag else string_tag)
             in case CBB_add_asn1 malloc d st out_tag of
                  (False, st) \<Rightarrow> Some (False, inp, st)
                | (True, st) \<Rightarrow>
                    convert_rest conv malloc d string_tag looking_for_eoc depth
                      (convert_contents conv malloc contents tag header_len inp (Suc d) st child_string_tag depth)))"

fun cbs_convert_ber :: "malloc_fn \<Rightarrow> nat \<Rightarrow> conv_fn" where
  "cbs_convert_ber malloc 0 inp d st string_tag looking_for_eoc depth = None"
| "cbs_convert_ber malloc (Suc n) inp d st string_tag looking_for_eoc depth =
     (if depth > kMaxDepth then Some (False, inp, st)
      else if CBS_len inp > 0
      then convert_pass (cbs_convert_ber malloc n) malloc inp d st string_tag looking_for_eoc depth
      else Some (\<not> looking_for_eoc, inp, st))"

text \<open>
  The result of \<open>CBS_asn1_ber_to_der\<close>: the output \<open>*out\<close> with a flag for a null
  \<open>*out_storage\<close>, and \<open>*in\<close> as it is left.
\<close>

definition CBS_asn1_ber_to_der :: "malloc_fn \<Rightarrow> bytes \<Rightarrow> (bytes \<times> bool) rd" where
  "CBS_asn1_ber_to_der malloc inp =
     (case cbs_find_ber inp 0 of
        None \<Rightarrow> (None, inp)
      | Some False \<Rightarrow>
          rd_bind (CBS_get_any_asn1_element inp) (\<lambda>(out, _, _) inp. (Some (out, True), inp))
      | Some True \<Rightarrow>
          (case CBB_init malloc (CBS_len inp) of
             (False, _) \<Rightarrow> (None, inp)
           | (True, st) \<Rightarrow>
               (case cbs_convert_ber malloc (Suc (length inp)) inp 0 st 0 False 0 of
                  None \<Rightarrow> (None, inp)
                | Some (False, inp, _) \<Rightarrow> (None, inp)
                | Some (True, inp, st) \<Rightarrow>
                    (case CBB_finish malloc 0 st False False of
                       (None, _) \<Rightarrow> (None, inp)
                     | (Some out, _) \<Rightarrow> (Some (out, False), inp)))))"

lemma CBS_get_asn1_shorter: "CBS_get_asn1 cbs tag = (Some body, rest) \<Longrightarrow> length rest < length cbs"
  by (simp add: CBS_get_asn1_iff der_element_def der_header_def)

function implicit_string_loop :: "malloc_fn \<Rightarrow> u32 \<Rightarrow> bytes \<Rightarrow> cbb_op" where
  "implicit_string_loop malloc inner_tag child st =
     (if CBS_len child > 0 then
        (case CBS_get_asn1 child inner_tag of
           (None, _) \<Rightarrow> (False, st)
         | (Some chunk, child) \<Rightarrow>
             wr_bind (CBB_add_bytes malloc 0 st chunk) (\<lambda>st. implicit_string_loop malloc inner_tag child st))
      else (True, st))"
  by pat_completeness auto
termination
  by (relation "measure (\<lambda>(_, _, child, _). length child)") (auto dest: CBS_get_asn1_shorter [OF sym])

declare implicit_string_loop.simps [simp del]

definition CBS_get_asn1_implicit_string :: "malloc_fn \<Rightarrow> bytes \<Rightarrow> u32 \<Rightarrow> u32 \<Rightarrow> (bytes \<times> bool) rd" where
  "CBS_get_asn1_implicit_string malloc inp outer_tag inner_tag =
     (if CBS_peek_asn1_tag inp outer_tag
      then rd_bind (CBS_get_asn1 inp outer_tag) (\<lambda>out inp. (Some (out, True), inp))
      else (case CBB_init malloc (CBS_len inp) of
              (False, _) \<Rightarrow> (None, inp)
            | (True, st) \<Rightarrow>
                rd_bind (CBS_get_asn1 inp (outer_tag OR CBS_ASN1_CONSTRUCTED)) (\<lambda>child inp.
                  case implicit_string_loop malloc inner_tag child st of
                    (False, _) \<Rightarrow> (None, inp)
                  | (True, st) \<Rightarrow>
                      (case CBB_finish malloc 0 st False False of
                         (None, _) \<Rightarrow> (None, inp)
                       | (Some out, _) \<Rightarrow> (Some (out, False), inp)))))"

section \<open>Fuel\<close>

lemma CBS_skip_fst: "hl \<le> length out \<Longrightarrow> CBS_skip out hl = (Some (), drop hl out)"
  by (simp add: CBS_skip_def cbs_get_def)

text \<open>As much fuel as there are bytes, and one more, is enough.\<close>

definition conv_total :: "conv_fn \<Rightarrow> nat \<Rightarrow> bool" where
  "conv_total conv n = (\<forall>inp d st s eoc depth. length inp < n \<longrightarrow>
     (\<exists>ok inp' st'. conv inp d st s eoc depth = Some (ok, inp', st') \<and> (ok \<longrightarrow> length inp' \<le> length inp)))"

lemma convert_contents_total:
  assumes conv: "conv_total conv n"
    and len: "length inp < n" "length (drop hl contents) < n" "hl \<le> length contents"
  shows "\<exists>ok inp' st'. convert_contents conv malloc contents tag hl inp oc st s depth = Some (ok, inp', st') \<and>
     (ok \<longrightarrow> length inp' \<le> length inp)"
proof -
  obtain ok' i' st' where "conv (drop hl contents) oc st s False (depth + 1) = Some (ok', i', st')"
    using conv len(2) unfolding conv_total_def by blast
  moreover obtain ok2 st2 where "CBB_add_bytes malloc oc st (drop hl contents) = (ok2, st2)" by fastforce
  moreover have "\<exists>ok'' i'' st''. conv inp oc st s True (depth + 1) = Some (ok'', i'', st'') \<and>
      (ok'' \<longrightarrow> length i'' \<le> length inp)"
    using conv len(1) unfolding conv_total_def by blast
  ultimately show ?thesis
    by (auto simp: convert_contents_def CBS_skip_fst [OF len(3)])
qed

lemma convert_rest_total:
  assumes conv: "conv_total conv n" and r: "r = Some (ok, inp, st)" "ok \<longrightarrow> length inp < n"
  shows "\<exists>ok' inp' st'. convert_rest conv malloc d s eoc depth r = Some (ok', inp', st') \<and>
     (ok' \<longrightarrow> length inp' \<le> length inp)"
proof -
  obtain okf stf where f: "CBB_flush malloc d st = (okf, stf)" by fastforce
  show ?thesis
  proof (cases "ok \<and> okf")
    case True
    then have "\<exists>ok' inp' st'. conv inp d stf s eoc depth = Some (ok', inp', st') \<and> (ok' \<longrightarrow> length inp' \<le> length inp)"
      using conv r(2) unfolding conv_total_def by blast
    with True r(1) f show ?thesis by (auto simp: convert_rest_def)
  next
    case False
    then show ?thesis using r(1) f by (cases ok; cases okf) (auto simp: convert_rest_def)
  qed
qed

lemma convert_step_total:
  assumes conv: "conv_total conv n"
    and el: "CBS_get_any_ber_asn1_element inp = (Some (contents, tag, hl), rest)" and len: "length inp \<le> n"
  shows "\<exists>ok inp' st'. convert_rest conv malloc d s eoc depth
       (convert_contents conv malloc contents tag hl rest oc st cst depth) = Some (ok, inp', st') \<and>
     (ok \<longrightarrow> length inp' \<le> length inp)"
proof -
  note el' = get_ber_element_shorter [OF el]
  have lens: "length rest < n" "length (drop hl contents) < n" "length rest \<le> length inp"
    using el' len by auto
  obtain ok i st' where c: "convert_contents conv malloc contents tag hl rest oc st cst depth = Some (ok, i, st')"
    "ok \<longrightarrow> length i \<le> length rest"
    using convert_contents_total [OF conv lens(1,2) el'(3)] by blast
  then have "ok \<longrightarrow> length i < n" using lens(1) by auto
  from convert_rest_total [OF conv c(1) this, of malloc d s eoc depth]
  obtain ok2 i2 st2 where
    "convert_rest conv malloc d s eoc depth (convert_contents conv malloc contents tag hl rest oc st cst depth) =
       Some (ok2, i2, st2)" "ok2 \<longrightarrow> length i2 \<le> length i" by blast
  moreover have "ok2 \<longrightarrow> ok" using calculation(1) c(1) by (cases ok) (auto simp: convert_rest_def)
  ultimately show ?thesis using c(2) lens(3) by auto
qed

lemma convert_pass_total:
  assumes conv: "conv_total conv n" and len: "length inp \<le> n"
  shows "\<exists>ok inp' st'. convert_pass conv malloc inp d st s eoc depth = Some (ok, inp', st') \<and>
     (ok \<longrightarrow> length inp' \<le> length inp)"
proof (cases "CBS_get_any_ber_asn1_element inp")
  case (Pair e rest)
  show ?thesis
  proof (cases e)
    case (Some x)
    then obtain contents tag hl where "CBS_get_any_ber_asn1_element inp = (Some (contents, tag, hl), rest)"
      using Pair by (cases x) auto
    note el = this and step = convert_step_total [OF conv this len, of malloc d s eoc depth]
    have rest: "length rest \<le> length inp" using get_ber_element_shorter [OF el] by simp
    obtain ok st1 where a: "CBB_add_asn1 malloc d st
        (if tag AND CBS_ASN1_CONSTRUCTED \<noteq> 0 \<and> is_string_type tag
         then tag AND NOT CBS_ASN1_CONSTRUCTED else tag) = (ok, st1)" by fastforce
    show ?thesis
      unfolding convert_pass_def el Let_def prod.case option.case a
      using rest step by (cases ok; cases "is_eoc hl contents"; cases "s = 0")
        (simp_all add: exI [of Not False])
  qed (use Pair in \<open>auto simp: convert_pass_def\<close>)
qed

lemma cbs_convert_ber_total: "conv_total (cbs_convert_ber malloc n) n"
proof (induction n)
  case (Suc n)
  show ?case
    unfolding conv_total_def using convert_pass_total [OF Suc.IH, of _ malloc] by auto
qed (simp add: conv_total_def)

end
