(* ===== verification/Oid.thy ===== *)
theory Oid
  imports Cbb_Asn1
begin

text \<open>
  Object identifiers: \<open>CBB_add_asn1_oid_from_text\<close> of \<^verbatim>\<open>cbb.c\<close> and
  \<open>CBS_asn1_oid_to_text\<close> of \<^verbatim>\<open>cbs.c\<close>, which translate between the dotted decimal text and
  the base-128 contents octets. An identifier is the list of its components.
\<close>

section \<open>Model\<close>

definition UINT64_MAX :: nat where
  "UINT64_MAX = 2 ^ 64 - 1"

fun dotted_loop :: "u64 \<Rightarrow> bool \<Rightarrow> bytes \<Rightarrow> u64 rd" where
  "dotted_loop out seen_digit [] = (if seen_digit then Some out else None, [])"
| "dotted_loop out seen_digit (u # cbs) =
     (if u = 0x2e \<and> CBS_len cbs > 0 then (if seen_digit then Some out else None, cbs)
      else if u < 0x30 \<or> u > 0x39 \<or> (seen_digit \<and> out = 0) \<or> unat out > UINT64_MAX div 10 \<or>
              unat (out * 10) > UINT64_MAX - unat (u - 0x30)
           then (None, cbs)
      else dotted_loop (out * 10 + ucast (u - 0x30)) True cbs)"

definition parse_dotted_decimal :: "bytes \<Rightarrow> u64 rd" where
  "parse_dotted_decimal cbs = dotted_loop 0 False cbs"

lemma dotted_loop_shorter:
  "dotted_loop out seen cbs = (r, rest) \<Longrightarrow> length rest \<le> length cbs \<and> (cbs \<noteq> [] \<longrightarrow> length rest < length cbs)"
  by (induction out seen cbs rule: dotted_loop.induct) (auto split: if_splits)

function add_oid_loop :: "malloc_fn \<Rightarrow> nat \<Rightarrow> bytes \<Rightarrow> cbb_op" where
  "add_oid_loop malloc d cbs st =
     (if CBS_len cbs > 0 then
        (case parse_dotted_decimal cbs of
           (None, _) \<Rightarrow> (False, st)
         | (Some a, cbs) \<Rightarrow>
             wr_bind (add_base128_integer malloc d st a) (\<lambda>st. add_oid_loop malloc d cbs st))
      else (True, st))"
  by pat_completeness auto
termination
  by (relation "measure (\<lambda>(malloc, d, cbs, st). length cbs)")
     (auto simp: parse_dotted_decimal_def CBS_len_def dest: dotted_loop_shorter [OF sym])

declare add_oid_loop.simps [simp del]

definition CBB_add_asn1_oid_from_text :: "malloc_fn \<Rightarrow> nat \<Rightarrow> cbb_state \<Rightarrow> bytes \<Rightarrow> bool \<times> cbb_state" where
  "CBB_add_asn1_oid_from_text malloc d st txt =
     wr_bind (CBB_flush malloc d st) (\<lambda>st.
       case parse_dotted_decimal (CBS_init txt (length txt)) of
         (None, _) \<Rightarrow> (False, st)
       | (Some a, cbs) \<Rightarrow>
           (case parse_dotted_decimal cbs of
              (None, _) \<Rightarrow> (False, st)
            | (Some b, cbs) \<Rightarrow>
                if a > 2 \<or> (a < 2 \<and> b > 39) \<or> unat b > UINT64_MAX - 80 then (False, st)
                else wr_bind (add_base128_integer malloc d st (40 * a + b)) (\<lambda>st.
                       add_oid_loop malloc d cbs st)))"

text \<open>Printing with the conversion for \<^verbatim>\<open>uint64_t\<close>, into a buffer of \<open>DECIMAL_SIZE + 1\<close> characters.\<close>

fun dec :: "nat \<Rightarrow> bytes" where
  "dec n = (if n < 10 then [byte (48 + n)] else dec (n div 10) @ [byte (48 + n mod 10)])"

declare dec.simps [simp del]

definition DECIMAL_SIZE :: nat where
  "DECIMAL_SIZE = (8 * 8 + 2) div 3 + 1"

definition add_decimal :: "malloc_fn \<Rightarrow> cbb_state \<Rightarrow> u64 \<Rightarrow> bool \<times> cbb_state" where
  "add_decimal malloc st v = CBB_add_bytes malloc 0 st (take DECIMAL_SIZE (dec (unat v)))"

lemma parse_base128_shorter:
  "parse_base128_integer cbs = (Some v, rest) \<Longrightarrow> length rest < length cbs"
  by (auto dest!: parse_base128_integer_canonical simp: base128_def)

function oid_text_loop :: "malloc_fn \<Rightarrow> bytes \<Rightarrow> cbb_op" where
  "oid_text_loop malloc copy st =
     (if CBS_len copy \<noteq> 0 then
        (case parse_base128_integer copy of
           (None, _) \<Rightarrow> (False, st)
         | (Some v, copy) \<Rightarrow>
             wr_bind (CBB_add_u8 malloc 0 st 0x2e) (\<lambda>st.
               wr_bind (add_decimal malloc st v) (\<lambda>st. oid_text_loop malloc copy st)))
      else (True, st))"
  by pat_completeness auto
termination
  by (relation "measure (\<lambda>(malloc, copy, st). length copy)")
     (auto dest: parse_base128_shorter [OF sym])

declare oid_text_loop.simps [simp del]

text \<open>The text with its terminator; \<open>None\<close> for the null pointer.\<close>

definition CBS_asn1_oid_to_text :: "malloc_fn \<Rightarrow> bytes \<Rightarrow> bytes option" where
  "CBS_asn1_oid_to_text malloc cbs =
     (case CBB_init malloc 32 of
        (False, _) \<Rightarrow> None
      | (True, st) \<Rightarrow>
          (case parse_base128_integer cbs of
             (None, _) \<Rightarrow> None
           | (Some v, copy) \<Rightarrow>
               (let first = (if v \<ge> 80
                     then wr_bind (CBB_add_bytes malloc 0 st [0x32, 0x2e]) (\<lambda>st. add_decimal malloc st (v - 80))
                     else wr_bind (add_decimal malloc st (v div 40)) (\<lambda>st.
                            wr_bind (CBB_add_u8 malloc 0 st 0x2e) (\<lambda>st. add_decimal malloc st (v mod 40))))
                in case wr_bind first (\<lambda>st. wr_bind (oid_text_loop malloc copy st) (\<lambda>st.
                          CBB_add_u8 malloc 0 st 0)) of
                     (False, _) \<Rightarrow> None
                   | (True, st) \<Rightarrow> fst (CBB_finish malloc 0 st False False))))"

lemma base128_nonempty [simp]: "base128 v \<noteq> []"
  by (simp add: base128_def)

section \<open>Decimal numbers\<close>

lemma dec_less: "n < 10 \<Longrightarrow> dec n = [byte (48 + n)]"
  by (simp add: dec.simps [of n])

lemma dec_step: "0 < w \<Longrightarrow> x < 10 \<Longrightarrow> dec (w * 10 + x) = dec w @ [byte (48 + x)]"
  by (simp add: dec.simps [of "w * 10 + x"])

lemma length_dec: "n < 10 ^ Suc k \<Longrightarrow> length (dec n) \<le> Suc k"
proof (induction k arbitrary: n)
  case (Suc k)
  then have "n div 10 < 10 ^ Suc k" by (simp add: div_less_iff_less_mult mult.commute)
  from Suc.IH [OF this] show ?case by (simp add: dec.simps [of n])
qed (simp add: dec.simps)

lemma length_dec_u64: "length (dec (unat (v :: u64))) \<le> 20"
proof -
  have "unat v < 10 ^ Suc 19" using unsigned_less [of v, where ?'a = nat] by simp
  from length_dec [OF this] show ?thesis by simp
qed

lemma dec_nonempty [simp]: "dec n \<noteq> []"
  by (subst dec.simps) simp

text \<open>A component ends at the end of the text or at a dot that something follows.\<close>

definition dot_tail :: "bytes \<Rightarrow> bytes" where
  "dot_tail rest = (if rest = [] then [] else 0x2e # rest)"

lemma digit_byte:
  assumes "x < 10"
  shows "unat (byte (48 + x)) = 48 + x" "byte (48 + x) - 0x30 = byte x" "unat (byte (48 + x) - 0x30) = x"
proof -
  show u: "unat (byte (48 + x)) = 48 + x" using assms by simp
  show "byte (48 + x) - 0x30 = byte x" by (simp add: byte_def)
  then show "unat (byte (48 + x) - 0x30) = x" using assms by simp
qed

lemma dotted_step:
  assumes x: "x < 10" and v: "unat out * 10 + x < 2 ^ 64" and nz: "\<not> (seen \<and> out = 0)"
  shows "dotted_loop out seen (byte (48 + x) # cbs) = dotted_loop (of_nat (unat out * 10 + x)) True cbs"
proof -
  have "unat (out * 10) = unat out * 10"
    using v by (simp add: unat_word_ariths)
  moreover have "out * 10 + ucast (byte (48 + x) - 0x30) = of_nat (unat out * 10 + x)"
  proof -
    have "ucast (byte (48 + x) - 0x30) = (of_nat x :: u64)"
      using digit_byte(3) [OF x] x by (simp add: word_eq_iff_unsigned [where ?'a = nat] unat_ucast unat_of_nat_u64)
    then show ?thesis by simp
  qed
  moreover have "byte (48 + x) \<noteq> 0x2e" "\<not> byte (48 + x) < 0x30" "\<not> 0x39 < byte (48 + x)"
    using digit_byte(1) [OF x] x by (auto simp: word_less_nat_alt dest!: arg_cong [where f = unat])
  moreover have "unat out \<le> UINT64_MAX div 10" "unat out * 10 \<le> UINT64_MAX - x"
    using v by (auto simp: UINT64_MAX_def)
  ultimately show ?thesis
    using nz digit_byte(3) [OF x] by auto
qed


lemma dotted_loop_dec:
  "n < 2 ^ 64 \<Longrightarrow> dotted_loop 0 False (dec n @ t) = dotted_loop (of_nat n) True t"
proof (induction n arbitrary: t rule: dec.induct)
  case (1 n)
  show ?case
  proof (cases "n < 10")
    case True
    then show ?thesis using dotted_step [of n 0 False t] by (simp add: dec_less)
  next
    case False
    let ?w = "n div 10" and ?x = "n mod 10"
    have w: "unat (of_nat ?w :: u64) = ?w" using "1.prems" by (intro unat_of_nat_u64) simp
    have nz: "(of_nat ?w :: u64) \<noteq> 0"
      using w False by (metis div_greater_zero_iff less_numeral_extra(3) not_less unat_0 zero_less_numeral)
    have "dotted_loop 0 False (dec n @ t) = dotted_loop (of_nat ?w) True (byte (48 + ?x) # t)"
      using False "1.IH" [OF False] "1.prems" by (simp add: dec.simps [of n])
    also have "\<dots> = dotted_loop (of_nat n) True t"
      using dotted_step [of ?x "of_nat ?w" True t] nz w "1.prems" by simp
    finally show ?thesis .
  qed
qed

lemma parse_dotted_decimal_dec:
  "n < 2 ^ 64 \<Longrightarrow> parse_dotted_decimal (dec n @ dot_tail rest) = (Some (of_nat n), rest)"
  by (simp add: parse_dotted_decimal_def dotted_loop_dec dot_tail_def CBS_len_def)

text \<open>Nothing but the shortest decimal representation is accepted.\<close>

lemma dotted_loop_canonical:
  "dotted_loop out seen cbs = (Some r, rest) \<Longrightarrow>
   (if seen then dec (unat out) else []) @ cbs = dec (unat r) @ dot_tail rest \<or> (\<not> seen \<and> out \<noteq> 0)"
proof (induction out seen cbs rule: dotted_loop.induct)
  case (1 out seen)
  then show ?case by (auto simp: dot_tail_def split: if_splits)
next
  case (2 out seen u cbs)
  show ?case
  proof (cases "u = 0x2e \<and> CBS_len cbs > 0")
    case True
    with "2.prems" show ?thesis by (auto simp: dot_tail_def CBS_len_def split: if_splits)
  next
    case False
    with "2.prems" have u: "0x30 \<le> u" "u \<le> 0x39" and nz: "\<not> (seen \<and> out = 0)"
      and ov: "unat out \<le> UINT64_MAX div 10" "unat (out * 10) \<le> UINT64_MAX - unat (u - 0x30)"
      and rec: "dotted_loop (out * 10 + ucast (u - 0x30)) True cbs = (Some r, rest)"
      by (auto split: if_splits)
    define x where "x = unat u - 48"
    have x: "x < 10" "u = byte (48 + x)"
      using u by (auto simp: x_def word_le_nat_alt byte_eq_iff unat_less_u8)
    have lt: "unat out * 10 + x < 2 ^ 64"
    proof -
      have "unat out * 10 < 2 ^ 64" using ov(1) by (simp add: UINT64_MAX_def)
      then have "unat (out * 10) = unat out * 10" by (simp add: unat_word_ariths)
      with ov(2) digit_byte(3) [OF x(1)] x(1) show ?thesis by (simp add: x(2) UINT64_MAX_def)
    qed
    have acc: "unat (out * 10 + ucast (u - 0x30)) = unat out * 10 + x"
    proof -
      have "unat (ucast (u - 0x30) :: u64) = x"
        using digit_byte(3) [OF x(1)] x(1) by (simp add: x(2) unat_ucast)
      then show ?thesis using lt by (simp add: unat_word_ariths)
    qed
    have IH: "dec (unat out * 10 + x) @ cbs = dec (unat r) @ dot_tail rest"
      using "2.IH" [OF False _ rec] u nz ov by (auto simp: acc not_less)
    show ?thesis
    proof (cases seen)
      case True
      then have "0 < unat out" using nz by (simp add: unat_gt_0)
      then show ?thesis using IH True x by (simp add: dec_step)
    next
      case False
      then show ?thesis using IH x by (cases "out = 0") (simp_all add: dec_less)
    qed
  qed
qed

lemma parse_dotted_decimal_iff:
  "parse_dotted_decimal cbs = (Some r, rest) \<longleftrightarrow> cbs = dec (unat r) @ dot_tail rest"
proof
  assume "parse_dotted_decimal cbs = (Some r, rest)"
  then show "cbs = dec (unat r) @ dot_tail rest"
    using dotted_loop_canonical [of 0 False cbs r rest] by (simp add: parse_dotted_decimal_def)
next
  assume "cbs = dec (unat r) @ dot_tail rest"
  moreover have "unat r < 2 ^ 64" using unsigned_less [of r, where ?'a = nat] by simp
  ultimately show "parse_dotted_decimal cbs = (Some r, rest)"
    by (simp add: parse_dotted_decimal_dec)
qed

section \<open>Identifiers\<close>

fun oid_text :: "nat list \<Rightarrow> bytes" where
  "oid_text [] = []"
| "oid_text (c # cs) = dec c @ dot_tail (oid_text cs)"

definition oid_arcs :: "nat list \<Rightarrow> nat list" where
  "oid_arcs cs = (40 * cs ! 0 + cs ! 1) # drop 2 cs"

definition oid_der :: "nat list \<Rightarrow> bytes" where
  "oid_der cs = concat (map base128 (oid_arcs cs))"

definition oid_valid :: "nat list \<Rightarrow> bool" where
  "oid_valid cs \<longleftrightarrow> 2 \<le> length cs \<and> cs ! 0 \<le> 2 \<and> (cs ! 0 < 2 \<longrightarrow> cs ! 1 \<le> 39) \<and>
     cs ! 1 \<le> UINT64_MAX - 80 \<and> (\<forall>c \<in> set (drop 2 cs). c \<le> UINT64_MAX)"

lemma oid_text_Nil_iff [simp]: "oid_text cs = [] \<longleftrightarrow> cs = []"
  by (cases cs) auto

text \<open>The rest of an identifier, after its first two components.\<close>

lemma add_oid_loop_implements:
  assumes m: "malloc_spec malloc"
  shows "\<forall>c \<in> set cs. c \<le> UINT64_MAX \<Longrightarrow>
    implements_on (innermost d) malloc (add_oid_loop malloc d (oid_text cs)) (put_at d (concat (map base128 cs)))"
proof (induction cs)
  case Nil
  have "add_oid_loop malloc d (oid_text []) = (\<lambda>st. (True, st))"
    by (simp add: add_oid_loop.simps CBS_len_def fun_eq_iff)
  then show ?case by (simp add: implements_skip)
next
  case (Cons c cs)
  have c: "c < 2 ^ 64" using Cons.prems by (simp add: UINT64_MAX_def)
  have "add_oid_loop malloc d (oid_text (c # cs)) =
      (\<lambda>st. wr_bind (add_base128_integer malloc d st (of_nat c)) (add_oid_loop malloc d (oid_text cs)))"
    by (rule ext, subst add_oid_loop.simps) (simp add: parse_dotted_decimal_dec [OF c] CBS_len_def)
  moreover have "implements_on (innermost d) malloc
      (\<lambda>st. wr_bind (add_base128_integer malloc d st (of_nat c)) (add_oid_loop malloc d (oid_text cs)))
      (\<lambda>fs. put_at d (base128 c) fs \<bind> put_at d (concat (map base128 cs)))"
    using Cons add_base128_integer_implements [OF m, of d "of_nat c"]
    by (intro implements_bind [where Q = "innermost d"])
       (auto simp: unat_of_nat_u64 [OF c] intro: put_at_innermost)
  ultimately show ?case by (simp add: put_at_put_at)
qed


lemma CBB_add_asn1_oid_from_text_implements:
  assumes m: "malloc_spec malloc" and cs: "oid_valid cs"
  shows "cbb_implements malloc (\<lambda>st. CBB_add_asn1_oid_from_text malloc d st (oid_text cs)) (put_at d (oid_der cs))"
proof -
  obtain a b rest where c: "cs = a # b # rest"
    using cs by (cases cs; cases "tl cs") (auto simp: oid_valid_def)
  have ab: "a \<le> 2" "a < 2 \<Longrightarrow> b \<le> 39" "b \<le> UINT64_MAX - 80" "\<forall>x \<in> set rest. x \<le> UINT64_MAX"
    using cs by (auto simp: oid_valid_def c)
  then have lt: "a < 2 ^ 64" "b < 2 ^ 64" "40 * a + b < 2 ^ 64" by (simp_all add: UINT64_MAX_def)
  have cond: "\<not> ((of_nat a :: u64) > 2 \<or> ((of_nat a :: u64) < 2 \<and> (of_nat b :: u64) > 39) \<or>
      unat (of_nat b :: u64) > UINT64_MAX - 80)"
    using ab lt by (auto simp: word_less_nat_alt unat_of_nat_u64)
  define f where "f st = wr_bind (add_base128_integer malloc d st (of_nat (40 * a + b)))
      (add_oid_loop malloc d (oid_text rest))" for st
  have "CBB_add_asn1_oid_from_text malloc d st (oid_text cs) = wr_bind (CBB_flush malloc d st) f" for st
    using cond parse_dotted_decimal_dec [OF lt(1), of "oid_text (b # rest)"]
      parse_dotted_decimal_dec [OF lt(2), of "oid_text rest"]
    by (cases "(of_nat a :: u64) < 2")
       (simp_all add: CBB_add_asn1_oid_from_text_def CBS_init_def c f_def [abs_def])
  moreover have fi: "implements_on (innermost d) malloc f
      (\<lambda>fs. put_at d (base128 (40 * a + b)) fs \<bind> put_at d (concat (map base128 rest)))"
    unfolding f_def [abs_def]
    by (rule implements_bind [OF add_base128_integer_implements [OF m, of d "of_nat (40 * a + b)",
          unfolded unat_of_nat_u64 [OF lt(3)]] add_oid_loop_implements [OF m ab(4), of d]])
       (rule put_at_innermost)
  ultimately show ?thesis
    using implements_bind [OF CBB_flush_implements [OF m, of d] fi]
    by (simp add: put_at_put_at put_at_innermost oid_der_def oid_arcs_def c)
qed

lemma add_oid_loop_accepts:
  "add_oid_loop malloc d cbs st = (True, st') \<Longrightarrow> \<exists>cs. cbs = oid_text cs \<and> (\<forall>c \<in> set cs. c \<le> UINT64_MAX)"
proof (induction malloc d cbs st rule: add_oid_loop.induct)
  case (1 malloc d cbs st)
  show ?case
  proof (cases "cbs = []")
    case True
    then show ?thesis by (intro exI [of _ "[]"]) simp
  next
    case False
    then obtain a rest s where p: "parse_dotted_decimal cbs = (Some a, rest)"
      and r: "add_oid_loop malloc d rest s = (True, st')"
      using "1.prems"
      by (subst (asm) add_oid_loop.simps) (auto simp: CBS_len_def wr_bind_True_iff split: prod.splits option.splits)
    then obtain cs where "rest = oid_text cs" "\<forall>c \<in> set cs. c \<le> UINT64_MAX"
      using "1.IH" [OF _ p [symmetric] refl r] False by (auto simp: CBS_len_def)
    moreover have "unat a \<le> UINT64_MAX"
      using unsigned_less [of a, where ?'a = nat] by (simp add: UINT64_MAX_def)
    ultimately show ?thesis
      using p by (intro exI [of _ "unat a # cs"]) (simp add: parse_dotted_decimal_iff)
  qed
qed

lemma CBB_add_asn1_oid_from_text_accepts:
  assumes "CBB_add_asn1_oid_from_text malloc d st txt = (True, st')"
  shows "\<exists>cs. oid_valid cs \<and> txt = oid_text cs"
proof -
  obtain r1 cbs where p1: "parse_dotted_decimal txt = (r1, cbs)" by fastforce
  obtain r2 cbs' where p2: "parse_dotted_decimal cbs = (r2, cbs')" by fastforce
  obtain a b where r: "r1 = Some a" "r2 = Some b"
    using assms p1 p2
    by (cases r1; cases r2) (auto simp: CBB_add_asn1_oid_from_text_def CBS_init_def wr_bind_True_iff)
  note a = p1 [unfolded r] and b = p2 [unfolded r]
  obtain s' where cond: "\<not> (a > 2 \<or> (a < 2 \<and> b > 39) \<or> unat b > UINT64_MAX - 80)"
    and loop: "add_oid_loop malloc d cbs' s' = (True, st')"
    using assms a b by (auto simp: CBB_add_asn1_oid_from_text_def CBS_init_def wr_bind_True_iff split: if_splits)
  obtain cs where cs: "cbs' = oid_text cs" "\<forall>c \<in> set cs. c \<le> UINT64_MAX"
    using add_oid_loop_accepts [OF loop] by blast
  have "txt = oid_text (unat a # unat b # cs)"
    using a b cs by (simp add: parse_dotted_decimal_iff)
  moreover have "oid_valid (unat a # unat b # cs)"
    using cond cs(2) by (auto simp: oid_valid_def word_less_nat_alt)
  ultimately show ?thesis by blast
qed

subsection \<open>Printing\<close>

text \<open>The first subidentifier stands for two components.\<close>

definition oid_first :: "nat \<Rightarrow> nat list" where
  "oid_first v = (if 80 \<le> v then [2, v - 80] else [v div 40, v mod 40])"

definition oid_of_arcs :: "nat list \<Rightarrow> nat list" where
  "oid_of_arcs vs = oid_first (hd vs) @ tl vs"

lemma oid_of_arcs_arcs: "oid_valid cs \<Longrightarrow> oid_of_arcs (oid_arcs cs) = cs"
  by (cases cs; cases "tl cs")
     (auto simp: oid_valid_def oid_of_arcs_def oid_arcs_def oid_first_def le_Suc_eq numeral_2_eq_2 split: if_splits)

lemma oid_arcs_of_arcs: "vs \<noteq> [] \<Longrightarrow> oid_arcs (oid_of_arcs vs) = vs"
  by (cases vs) (auto simp: oid_of_arcs_def oid_arcs_def oid_first_def)

lemma oid_valid_of_arcs:
  assumes "vs \<noteq> []" "\<forall>v \<in> set vs. v \<le> UINT64_MAX"
  shows "oid_valid (oid_of_arcs vs)"
proof -
  obtain v rest where vs: "vs = v # rest" using assms(1) by (cases vs) auto
  have "v div 40 \<le> 1" "v mod 40 \<le> 39" if "v < 80"
    using that by (auto simp: less_Suc_eq_le [symmetric] div_less_iff_less_mult)
  then show ?thesis
    using assms(2) by (auto simp: oid_valid_def oid_of_arcs_def oid_first_def vs UINT64_MAX_def)
qed

definition oid_tail_text :: "nat list \<Rightarrow> bytes" where
  "oid_tail_text vs = concat (map (\<lambda>v. 0x2e # dec v) vs)"

lemma dot_tail_Cons: "x \<noteq> [] \<Longrightarrow> dot_tail x = 0x2e # x"
  by (simp add: dot_tail_def)

lemma dot_tail_text: "dot_tail (oid_text vs) = oid_tail_text vs"
  by (induction vs) (auto simp: dot_tail_def oid_tail_text_def)

lemma add_decimal_implements:
  assumes "malloc_spec malloc"
  shows "cbb_implements malloc (\<lambda>st. add_decimal malloc st v) (put_at 0 (dec (unat v)))"
proof -
  have "take DECIMAL_SIZE (dec (unat v)) = dec (unat v)" "length (dec (unat v)) \<le> PTRDIFF_MAX"
    using length_dec_u64 [of v] by (simp_all add: DECIMAL_SIZE_def PTRDIFF_MAX_def)
  then show ?thesis
    using CBB_add_bytes_implements [OF assms, of "dec (unat v)" 0] by (simp add: add_decimal_def [abs_def])
qed


lemma oid_text_loop_implements:
  assumes m: "malloc_spec malloc"
  shows "\<forall>v \<in> set vs. v \<le> UINT64_MAX \<Longrightarrow>
    implements_on (innermost 0) malloc (oid_text_loop malloc (concat (map base128 vs))) (put_at 0 (oid_tail_text vs))"
proof (induction vs)
  case Nil
  have "oid_text_loop malloc (concat (map base128 [])) = (\<lambda>st. (True, st))"
    by (simp add: oid_text_loop.simps CBS_len_def fun_eq_iff)
  then show ?case by (simp add: implements_skip oid_tail_text_def)
next
  case (Cons v vs)
  have v: "v < 2 ^ 64" using Cons.prems by (simp add: UINT64_MAX_def)
  let ?rest = "oid_text_loop malloc (concat (map base128 vs))"
  have "oid_text_loop malloc (concat (map base128 (v # vs))) =
      (\<lambda>st. wr_bind (CBB_add_u8 malloc 0 st 0x2e) (\<lambda>st. wr_bind (add_decimal malloc st (of_nat v)) ?rest))"
    by (rule ext, subst oid_text_loop.simps)
       (simp add: parse_base128_integer_base128 [OF v] CBS_len_def base128_nonempty)
  moreover have d: "implements_on (innermost 0) malloc (\<lambda>st. wr_bind (add_decimal malloc st (of_nat v)) ?rest)
      (\<lambda>fs. put_at 0 (dec v) fs \<bind> put_at 0 (oid_tail_text vs))"
    using Cons implements_on_weaken [OF add_decimal_implements [OF m, of "of_nat v"]]
    by (intro implements_bind [where Q = "innermost 0"])
       (auto simp: unat_of_nat_u64 [OF v] intro: put_at_innermost)
  ultimately show ?case
    using implements_cons [OF m d [unfolded put_at_put_at], of "0x2e"]
    by (simp add: oid_tail_text_def)
qed

lemma oid_text_loop_accepts:
  "oid_text_loop malloc cbs st = (True, st') \<Longrightarrow> \<exists>vs. cbs = concat (map base128 vs) \<and> (\<forall>v \<in> set vs. v \<le> UINT64_MAX)"
proof (induction malloc cbs st rule: oid_text_loop.induct)
  case (1 malloc cbs st)
  show ?case
  proof (cases "cbs = []")
    case True
    then show ?thesis by (intro exI [of _ "[]"]) simp
  next
    case False
    obtain r rest where p: "parse_base128_integer cbs = (r, rest)" by fastforce
    obtain v s where v: "r = Some v" and l: "oid_text_loop malloc rest s = (True, st')"
      using "1.prems" p False
      by (subst (asm) oid_text_loop.simps) (cases r; auto simp: CBS_len_def wr_bind_True_iff)
    obtain vs where "rest = concat (map base128 vs)" "\<forall>v \<in> set vs. v \<le> UINT64_MAX"
      using "1.IH" [OF _ p [symmetric] v l] False by (auto simp: CBS_len_def)
    moreover have "unat v \<le> UINT64_MAX"
      using unsigned_less [of v, where ?'a = nat] by (simp add: UINT64_MAX_def)
    ultimately show ?thesis
      using parse_base128_integer_canonical [of cbs v rest] p v by (intro exI [of _ "unat v # vs"]) simp
  qed
qed

text \<open>The steps after initialisation, for contents that start with the subidentifier \<open>v\<close>.\<close>

definition oid_print :: "malloc_fn \<Rightarrow> u64 \<Rightarrow> bytes \<Rightarrow> cbb_op" where
  "oid_print malloc v copy st =
     wr_bind (if v \<ge> 80
        then wr_bind (CBB_add_bytes malloc 0 st [0x32, 0x2e]) (\<lambda>st. add_decimal malloc st (v - 80))
        else wr_bind (add_decimal malloc st (v div 40)) (\<lambda>st.
               wr_bind (CBB_add_u8 malloc 0 st 0x2e) (\<lambda>st. add_decimal malloc st (v mod 40))))
       (\<lambda>st. wr_bind (oid_text_loop malloc copy st) (\<lambda>st. CBB_add_u8 malloc 0 st 0))"

lemma oid_to_text_eq:
  "CBS_asn1_oid_to_text malloc cbs =
     (case CBB_init malloc 32 of
        (False, _) \<Rightarrow> None
      | (True, st) \<Rightarrow>
          (case parse_base128_integer cbs of
             (None, _) \<Rightarrow> None
           | (Some v, copy) \<Rightarrow>
               (case oid_print malloc v copy st of
                  (False, _) \<Rightarrow> None
                | (True, st) \<Rightarrow> fst (CBB_finish malloc 0 st False False))))"
  unfolding CBS_asn1_oid_to_text_def oid_print_def Let_def by (rule refl)

lemma oid_first_text: "oid_text (oid_first v @ vs) = (if 80 \<le> v
    then [0x32, 0x2e] @ dec (v - 80) else dec (v div 40) @ 0x2e # dec (v mod 40)) @ oid_tail_text vs"
  by (simp add: oid_first_def dot_tail_text [symmetric] dec_less byte_def dot_tail_Cons)

lemma implements_seq:
  assumes "implements_on (innermost d) malloc f (put_at d x)" "implements_on (innermost d) malloc g (put_at d y)"
  shows "implements_on (innermost d) malloc (\<lambda>st. wr_bind (f st) g) (put_at d (x @ y))"
  using implements_bind [OF assms] by (simp add: put_at_put_at put_at_innermost)

lemma oid_print_implements:
  assumes m: "malloc_spec malloc" and vs: "\<forall>x \<in> set vs. x \<le> UINT64_MAX"
  shows "implements_on (innermost 0) malloc (oid_print malloc v (concat (map base128 vs)))
     (put_at 0 (oid_text (oid_first (unat v) @ vs) @ [0]))"
proof -
  let ?I = "implements_on (innermost 0) malloc"
  have dec: "?I (\<lambda>st. add_decimal malloc st w) (put_at 0 (dec (unat w)))" for w
    by (rule implements_on_weaken [OF add_decimal_implements [OF m]])
  have byt: "?I (\<lambda>st. CBB_add_u8 malloc 0 st w) (put_at 0 [w])" for w
    by (rule implements_on_weaken [OF CBB_add_u8_implements [OF m]])
  have two: "?I (\<lambda>st. CBB_add_bytes malloc 0 st [0x32, 0x2e]) (put_at 0 [0x32, 0x2e])"
    by (rule implements_on_weaken [OF CBB_add_bytes_implements [OF m]]) (simp add: PTRDIFF_MAX_def)
  note rest = implements_seq [OF oid_text_loop_implements [OF m vs] byt [of 0]]
  have ge: "v \<ge> 80 \<longleftrightarrow> 80 \<le> unat v" by (simp add: word_le_nat_alt)
  show ?thesis
  proof (cases "80 \<le> unat v")
    case True
    then have "unat (v - 80) = unat v - 80" by (simp add: unat_sub ge word_le_nat_alt)
    with implements_seq [OF implements_seq [OF two dec [of "v - 80"]] rest] True show ?thesis
      by (simp add: oid_print_def [abs_def] ge oid_first_text)
  next
    case False
    have "unat (v div 40) = unat v div 40" "unat (v mod 40) = unat v mod 40"
      by (simp_all add: unat_div unat_mod)
    with implements_seq [OF implements_seq [OF dec [of "v div 40"]
        implements_seq [OF byt [of "0x2e"] dec [of "v mod 40"]]] rest] False show ?thesis
      by (simp add: oid_print_def [abs_def] ge oid_first_text)
  qed
qed

text \<open>
  Printing and parsing are inverse to each other: contents octets print as the text of the
  identifier they encode, and only well-formed contents print.
\<close>

lemma oid_to_text_sound:
  assumes m: "malloc_spec malloc" and r: "CBS_asn1_oid_to_text malloc cbs = Some txt"
  shows "\<exists>cs. oid_valid cs \<and> cbs = oid_der cs \<and> txt = oid_text cs @ [0]"
proof -
  obtain ok st where st: "CBB_init malloc 32 = (ok, st)" by fastforce
  obtain p copy where p: "parse_base128_integer cbs = (p, copy)" by fastforce
  have ok: "ok" using r st by (cases ok) (auto simp: oid_to_text_eq)
  obtain v where v: "p = Some v" using r st ok p by (cases p) (auto simp: oid_to_text_eq)
  obtain st' where st': "oid_print malloc v copy st = (True, st')"
    and fin: "fst (CBB_finish malloc 0 st' False False) = Some txt"
    using r st ok p v by (auto simp: oid_to_text_eq split: prod.splits bool.splits)
  obtain s s' where "oid_text_loop malloc copy s = (True, s')"
    using st' by (auto simp: oid_print_def wr_bind_True_iff)
  then obtain vs where vs: "copy = concat (map base128 vs)" "\<forall>x \<in> set vs. x \<le> UINT64_MAX"
    using oid_text_loop_accepts by blast
  let ?out = "oid_text (oid_first (unat v) @ vs) @ [0]"
  have sound: "cbb_sound (innermost 0) (oid_print malloc v copy) (put_at 0 ?out)"
    using oid_print_implements [OF m vs(2), of v] by (simp add: implements_on_def vs(1))
  have rep: "cbb_rep st [(Root, [])]"
    using st ok CBB_init_rep(1) [OF m, of 32 st] by simp
  have "cbb_rep st' [(Root, ?out)]"
    using cbb_soundD [OF sound _ rep st'] by (simp add: put_at_def)
  from CBB_finish_rep [OF m this] fin have "txt = ?out"
    by (cases "CBB_finish malloc 0 st' False False") (simp add: put_at_def)
  moreover have "cbs = concat (map base128 (unat v # vs))"
    using parse_base128_integer_canonical [of cbs v copy] p v vs by simp
  moreover have "unat v \<le> UINT64_MAX"
    using unsigned_less [of v, where ?'a = nat] by (simp add: UINT64_MAX_def)
  ultimately show ?thesis
    using vs(2) oid_valid_of_arcs [of "unat v # vs"] oid_arcs_of_arcs [of "unat v # vs"]
    by (intro exI [of _ "oid_of_arcs (unat v # vs)"]) (simp add: oid_der_def oid_of_arcs_def)
qed


lemma oid_to_text_live:
  assumes m: "malloc_spec malloc" "malloc_total malloc" and cs: "oid_valid cs"
    and sz: "length (oid_text cs) < 2 ^ 60"
  shows "CBS_asn1_oid_to_text malloc (oid_der cs) = Some (oid_text cs @ [0])"
proof -
  obtain a b rest where c: "cs = a # b # rest"
    using cs by (cases cs; cases "tl cs") (auto simp: oid_valid_def)
  let ?v = "40 * a + b" and ?out = "oid_text cs @ [0]"
  have v: "?v < 2 ^ 64" and rest: "\<forall>x \<in> set rest. x \<le> UINT64_MAX"
    using cs by (auto simp: oid_valid_def c UINT64_MAX_def)
  obtain st where st: "CBB_init malloc 32 = (True, st)"
    using CBB_init_live [OF m(2), of 32] by auto
  have rep: "cbb_rep st [(Root, [])]" "st_roomy st"
    using CBB_init_rep [OF m(1) _ st] by simp_all
  have p: "parse_base128_integer (oid_der cs) = (Some (of_nat ?v), concat (map base128 rest))"
    using parse_base128_integer_base128 [OF v] by (simp add: oid_der_def oid_arcs_def c)
  have "oid_first ?v @ rest = cs"
    using oid_of_arcs_arcs [OF cs] by (simp add: oid_of_arcs_def oid_arcs_def c)
  then have i: "implements_on (innermost 0) malloc (oid_print malloc (of_nat ?v) (concat (map base128 rest)))
      (put_at 0 ?out)"
    using oid_print_implements [OF m(1) rest, of "of_nat ?v"] by (simp only: unat_of_nat_u64 [OF v])
  have out: "put_at 0 ?out [(Root, [])] = Some [(Root, ?out)]" by (simp add: put_at_def)
  have live: "cbb_live (innermost 0) (oid_print malloc (of_nat ?v) (concat (map base128 rest))) (put_at 0 ?out)"
    using i m(2) by (simp add: implements_on_def)
  have "length (flat [(Root, ?out)]) < 2 ^ 61" using sz by simp
  then obtain st' where st': "oid_print malloc (of_nat ?v) (concat (map base128 rest)) st = (True, st')" "st_roomy st'"
    using cbb_liveD [OF live _ rep out] by auto
  have sound: "cbb_sound (innermost 0) (oid_print malloc (of_nat ?v) (concat (map base128 rest))) (put_at 0 ?out)"
    using i by (simp add: implements_on_def)
  have "cbb_rep st' [(Root, ?out)]"
    using cbb_soundD [OF sound _ rep(1) st'(1)] out by simp
  then obtain st'' where "CBB_finish malloc 0 st' False False = (Some ?out, st'')"
    using CBB_finish_live [OF m _ st'(2), of "[(Root, ?out)]" ?out] sz by (auto simp: put_at_def)
  then show ?thesis
    using st p st' by (simp add: oid_to_text_eq)
qed


section \<open>Properties\<close>

text \<open>
  C12. A textual object identifier that \<open>CBB_add_asn1_oid_from_text\<close> accepts is printed back,
  character by character, by \<open>CBS_asn1_oid_to_text\<close> from the octets that were written.
\<close>

theorem oid_text_roundtrip:
  assumes "malloc_spec malloc" "malloc_total malloc" "cap + 8 < 2 ^ 64"
    and "CBB_init malloc cap = (True, st)"
    and "CBB_add_asn1_oid_from_text malloc 0 st txt = (True, st')"
    and "CBB_finish malloc 0 st' False False = (Some out, st'')" "length txt < 2 ^ 60"
  shows "CBS_asn1_oid_to_text malloc out = Some (txt @ [0])"
proof -
  obtain cs where cs: "oid_valid cs" "txt = oid_text cs"
    using CBB_add_asn1_oid_from_text_accepts [OF assms(5)] by blast
  have sound: "cbb_sound (\<lambda>_. True) (\<lambda>st. CBB_add_asn1_oid_from_text malloc 0 st txt) (put_at 0 (oid_der cs))"
    using CBB_add_asn1_oid_from_text_implements [OF assms(1) cs(1), of 0]
    by (simp add: implements_on_def cs(2))
  from cbb_soundD [OF this TrueI CBB_init_rep(1) [OF assms(1,3,4)] assms(5)]
  have "cbb_rep st' [(Root, oid_der cs)]" by (simp add: put_at_def)
  from CBB_finish_rep [OF assms(1) this assms(6)] have "out = oid_der cs"
    by (simp add: put_at_def)
  then show ?thesis
    using oid_to_text_live [OF assms(1,2) cs(1)] assms(7) cs(2) by simp
qed

text \<open>An allocator that never runs out, for the examples.\<close>

definition arena_all :: malloc_fn where
  "arena_all n = (if n \<le> PTRDIFF_MAX then Some (replicate n 0xa5) else None)"

lemma arena_all_spec: "malloc_spec arena_all" "malloc_total arena_all"
  by (simp_all add: malloc_spec_def malloc_total_def arena_all_def)

text \<open>The text \<^verbatim>\<open>1.2.840\<close> and its contents octets.\<close>

definition oid_ex :: bytes where
  "oid_ex = [0x31, 0x2e, 0x32, 0x2e, 0x38, 0x34, 0x30]"

lemma oid_ex_runs:
  "fst (CBB_init arena_all 1)"
  "fst (CBB_add_asn1_oid_from_text arena_all 0 (snd (CBB_init arena_all 1)) oid_ex)"
  "fst (CBB_finish arena_all 0 (snd (CBB_add_asn1_oid_from_text arena_all 0
     (snd (CBB_init arena_all 1)) oid_ex)) False False) = Some [0x2a, 0x86, 0x48]"
  by code_simp+

theorem oid_text_roundtrip_witness:
  "CBS_asn1_oid_to_text arena_all [0x2a, 0x86, 0x48] = Some (oid_ex @ [0])"
proof -
  let ?st = "snd (CBB_init arena_all 1)"
  let ?st' = "snd (CBB_add_asn1_oid_from_text arena_all 0 ?st oid_ex)"
  have "CBB_init arena_all 1 = (True, ?st)"
    "CBB_add_asn1_oid_from_text arena_all 0 ?st oid_ex = (True, ?st')"
    "CBB_finish arena_all 0 ?st' False False =
       (Some [0x2a, 0x86, 0x48], snd (CBB_finish arena_all 0 ?st' False False))"
    using oid_ex_runs by (simp_all add: prod_eq_iff)
  from oid_text_roundtrip [OF arena_all_spec _ this] show ?thesis
    by (simp add: oid_ex_def)
qed

text \<open>
  C13. What \<open>CBS_asn1_oid_to_text\<close> prints is the dotted decimal text of the identifier that
  the octets encode, with at least two components within the limits of X.660; octets that do
  not encode an identifier are not printed.
\<close>

theorem oid_to_text_exact:
  assumes "malloc_spec malloc" "CBS_asn1_oid_to_text malloc cbs = Some txt"
  shows "\<exists>cs. oid_valid cs \<and> cbs = oid_der cs \<and> txt = oid_text cs @ [0]"
  using oid_to_text_sound [OF assms] .

theorem oid_to_text_exact_witness:
  "\<exists>cs. oid_valid cs \<and> [0x2a, 0x86, 0x48] = oid_der cs \<and> oid_ex @ [0] = oid_text cs @ [0]"
proof (rule oid_to_text_exact)
  show "CBS_asn1_oid_to_text arena_all [0x2a, 0x86, 0x48] = Some (oid_ex @ [0])"
    by code_simp
qed (rule arena_all_spec)

end
