(* ===== verification/Cbb_Run.thy ===== *)
theory Cbb_Run
  imports Oid
begin

text \<open>
  Whole sessions with a builder: any sequence of calls, on any open CBB of the tree, between
  \<open>CBB_init\<close> and \<open>CBB_finish\<close>. The refinement is lifted from single calls to sessions, and the
  properties of the byte-string component are collected here.
\<close>

section \<open>Sessions\<close>

datatype cbb_cmd =
    Flush nat
  | Add_u8 nat u8
  | Add_u16 nat u16
  | Add_u24 nat u32
  | Add_u32 nat u32
  | Add_u64 nat u64
  | Add_bytes nat bytes
  | Add_u8_length_prefixed nat
  | Add_u16_length_prefixed nat
  | Add_u24_length_prefixed nat
  | Add_asn1 nat u32
  | Add_asn1_uint64 nat u64
  | Add_asn1_int64 nat u64
  | Add_asn1_octet_string nat bytes
  | Add_asn1_bool nat bool

primrec run_cmd :: "malloc_fn \<Rightarrow> cbb_cmd \<Rightarrow> cbb_op" where
  "run_cmd malloc (Flush d) = (\<lambda>st. CBB_flush malloc d st)"
| "run_cmd malloc (Add_u8 d v) = (\<lambda>st. CBB_add_u8 malloc d st v)"
| "run_cmd malloc (Add_u16 d v) = (\<lambda>st. CBB_add_u16 malloc d st v)"
| "run_cmd malloc (Add_u24 d v) = (\<lambda>st. CBB_add_u24 malloc d st v)"
| "run_cmd malloc (Add_u32 d v) = (\<lambda>st. CBB_add_u32 malloc d st v)"
| "run_cmd malloc (Add_u64 d v) = (\<lambda>st. CBB_add_u64 malloc d st v)"
| "run_cmd malloc (Add_bytes d x) = (\<lambda>st. CBB_add_bytes malloc d st x)"
| "run_cmd malloc (Add_u8_length_prefixed d) = (\<lambda>st. CBB_add_u8_length_prefixed malloc d st)"
| "run_cmd malloc (Add_u16_length_prefixed d) = (\<lambda>st. CBB_add_u16_length_prefixed malloc d st)"
| "run_cmd malloc (Add_u24_length_prefixed d) = (\<lambda>st. CBB_add_u24_length_prefixed malloc d st)"
| "run_cmd malloc (Add_asn1 d tag) = (\<lambda>st. CBB_add_asn1 malloc d st tag)"
| "run_cmd malloc (Add_asn1_uint64 d v) = (\<lambda>st. CBB_add_asn1_uint64 malloc d st v)"
| "run_cmd malloc (Add_asn1_int64 d v) = (\<lambda>st. CBB_add_asn1_int64 malloc d st v)"
| "run_cmd malloc (Add_asn1_octet_string d x) = (\<lambda>st. CBB_add_asn1_octet_string malloc d st x)"
| "run_cmd malloc (Add_asn1_bool d v) = (\<lambda>st. CBB_add_asn1_bool malloc d st v)"

primrec spec_cmd :: "cbb_cmd \<Rightarrow> frame_op" where
  "spec_cmd (Flush d) = put_at d []"
| "spec_cmd (Add_u8 d v) = put_at d [v]"
| "spec_cmd (Add_u16 d v) = put_at d (be_bytes 2 (unat v))"
| "spec_cmd (Add_u24 d v) = put_at d (be_bytes 3 (unat v))"
| "spec_cmd (Add_u32 d v) = put_at d (be_bytes 4 (unat v))"
| "spec_cmd (Add_u64 d v) = put_at d (be_bytes 8 (unat v))"
| "spec_cmd (Add_bytes d x) = put_at d x"
| "spec_cmd (Add_u8_length_prefixed d) = open_at d [] (Fixed 1)"
| "spec_cmd (Add_u16_length_prefixed d) = open_at d [] (Fixed 2)"
| "spec_cmd (Add_u24_length_prefixed d) = open_at d [] (Fixed 3)"
| "spec_cmd (Add_asn1 d tag) = open_at d (der_tag tag) Asn1"
| "spec_cmd (Add_asn1_uint64 d v) = put_at d (der_element CBS_ASN1_INTEGER (der_uint (unat v)))"
| "spec_cmd (Add_asn1_int64 d v) = put_at d (der_element CBS_ASN1_INTEGER (der_int (sint v)))"
| "spec_cmd (Add_asn1_octet_string d x) = put_at d (der_element CBS_ASN1_OCTETSTRING x)"
| "spec_cmd (Add_asn1_bool d v) = put_at d (der_element CBS_ASN1_BOOLEAN (der_bool v))"

text \<open>The arguments a caller may pass: byte strings that exist, 24-bit values, DER lengths.\<close>

primrec cmd_ok :: "cbb_cmd \<Rightarrow> bool" where
  "cmd_ok (Flush d) = True"
| "cmd_ok (Add_u8 d v) = True"
| "cmd_ok (Add_u16 d v) = True"
| "cmd_ok (Add_u24 d v) = (unat v < 2 ^ 24)"
| "cmd_ok (Add_u32 d v) = True"
| "cmd_ok (Add_u64 d v) = True"
| "cmd_ok (Add_bytes d x) = (length x \<le> PTRDIFF_MAX)"
| "cmd_ok (Add_u8_length_prefixed d) = True"
| "cmd_ok (Add_u16_length_prefixed d) = True"
| "cmd_ok (Add_u24_length_prefixed d) = True"
| "cmd_ok (Add_asn1 d tag) = True"
| "cmd_ok (Add_asn1_uint64 d v) = True"
| "cmd_ok (Add_asn1_int64 d v) = True"
| "cmd_ok (Add_asn1_octet_string d x) = (length x \<le> 0xfffffffe)"
| "cmd_ok (Add_asn1_bool d v) = True"

definition run_cmds :: "malloc_fn \<Rightarrow> cbb_cmd list \<Rightarrow> cbb_op" where
  "run_cmds malloc cs st = wr_list (\<lambda>st c. run_cmd malloc c st) cs st"

fun spec_cmds :: "cbb_cmd list \<Rightarrow> frame_op" where
  "spec_cmds [] fs = Some fs"
| "spec_cmds (c # cs) fs = spec_cmd c fs \<bind> spec_cmds cs"

lemma u_in_range:
  "unat (v16 :: u16) < 256 ^ 2" "unat (v32 :: u32) < 256 ^ 4" "unat (v64 :: u64) < 256 ^ 8"
  using unsigned_less [of v16, where ?'a = nat] unsigned_less [of v32, where ?'a = nat]
    unsigned_less [of v64, where ?'a = nat] by simp_all

lemma run_cmd_implements:
  assumes m: "malloc_spec malloc" and c: "cmd_ok c"
  shows "cbb_implements malloc (run_cmd malloc c) (spec_cmd c)"
proof -
  have small: "Suc 0 \<le> PTRDIFF_MAX" "2 \<le> PTRDIFF_MAX" "3 \<le> PTRDIFF_MAX"
    by (simp_all add: PTRDIFF_MAX_def)
  have r: "unat (v16 :: u16) < 65536" "unat (v32 :: u32) < 4294967296" "unat (v64 :: u64) < 18446744073709551616"
    for v16 v32 v64 using u_in_range [simplified] by simp_all
  show ?thesis
    using c m
    by (cases c)
       (simp_all add: CBB_flush_implements CBB_add_u8_implements CBB_add_bytes_implements
          CBB_add_asn1_implements CBB_add_asn1_uint64_implements CBB_add_asn1_int64_implements
          CBB_add_asn1_octet_string_implements CBB_add_asn1_bool_implements CBB_add_u_implements
          CBB_add_u_writer cbb_add_length_prefixed_implements CBB_add_u16_def CBB_add_u24_def
          CBB_add_u32_def CBB_add_u64_def CBB_add_u8_length_prefixed_def
          CBB_add_u16_length_prefixed_def CBB_add_u24_length_prefixed_def small r)
qed

lemma run_cmds_implements:
  assumes m: "malloc_spec malloc"
  shows "list_all cmd_ok cs \<Longrightarrow> cbb_implements malloc (run_cmds malloc cs) (spec_cmds cs)"
proof (induction cs)
  case Nil
  have "run_cmds malloc [] = (\<lambda>st. (True, st))" "spec_cmds [] = (\<lambda>fs. Some fs)"
    by (simp_all add: run_cmds_def fun_eq_iff)
  then show ?case
    by (auto simp: implements_on_def cbb_sound_def cbb_live_def cbb_mono_def)
next
  case (Cons c cs)
  have "run_cmds malloc (c # cs) = (\<lambda>st. wr_bind (run_cmd malloc c st) (run_cmds malloc cs))"
    "spec_cmds (c # cs) = (\<lambda>fs. spec_cmd c fs \<bind> spec_cmds cs)"
    by (simp_all add: run_cmds_def [abs_def] fun_eq_iff)
  moreover have "cbb_implements malloc (run_cmd malloc c) (spec_cmd c)"
    "cbb_implements malloc (run_cmds malloc cs) (spec_cmds cs)"
    using Cons run_cmd_implements [OF m] by simp_all
  ultimately show ?case
    using implements_bind by simp
qed

section \<open>Properties\<close>

text \<open>An allocator with an arena of 400 bytes, for the examples.\<close>

definition arena :: malloc_fn where
  "arena n = (if n \<le> 400 then Some (replicate n 0xa5) else None)"

lemma arena_spec: "malloc_spec arena"
  by (simp add: malloc_spec_def arena_def PTRDIFF_MAX_def)

definition session_ex :: "cbb_cmd list" where
  "session_ex =
     [Add_u16 0 0x303, Add_u8_length_prefixed 0, Add_asn1 1 0x20000010, Add_u8 2 129,
      Add_asn1_bool 1 True, Add_u8 0 9]"

lemma session_ex_runs:
  "list_all cmd_ok session_ex" "fst (CBB_init arena 1)"
  "fst (run_cmds arena session_ex (snd (CBB_init arena 1)))"
  "fst (CBB_finish arena 0 (snd (run_cmds arena session_ex (snd (CBB_init arena 1)))) False False) \<noteq> None"
  by code_simp+

text \<open>
  C1. Any sequence of calls on the CBBs of a tree, between \<open>CBB_init\<close> and \<open>CBB_finish\<close>,
  yields exactly the bytes of the specification: nested length prefixes and DER headers are
  back-patched correctly, wherever the contents were written and however the buffer was moved.
\<close>

theorem cbb_session_output:
  assumes "malloc_spec malloc" "cap + 8 < 2 ^ 64" "list_all cmd_ok cs"
    and "CBB_init malloc cap = (True, st)" "run_cmds malloc cs st = (True, st')"
    and "CBB_finish malloc 0 st' False False = (Some out, st'')"
  shows "spec_cmds cs [(Root, [])] \<bind> put_at 0 [] = Some [(Root, out)]"
proof -
  have "cbb_sound (\<lambda>_. True) (run_cmds malloc cs) (spec_cmds cs)"
    using run_cmds_implements [OF assms(1,3)] by (simp add: implements_on_def)
  from cbb_soundD [OF this TrueI CBB_init_rep(1) [OF assms(1,2,4)] assms(5)]
  obtain fs where "spec_cmds cs [(Root, [])] = Some fs" "cbb_rep st' fs" by blast
  then show ?thesis
    using CBB_finish_rep [OF assms(1) _ assms(6)] by simp
qed

theorem cbb_session_output_witness:
  "\<exists>out. spec_cmds session_ex [(Root, [])] \<bind> put_at 0 [] = Some [(Root, out)]"
proof -
  let ?st = "snd (CBB_init arena 1)"
  let ?st' = "snd (run_cmds arena session_ex ?st)"
  obtain out st'' where fin: "CBB_finish arena 0 ?st' False False = (Some out, st'')"
    using session_ex_runs(4) by (cases "CBB_finish arena 0 ?st' False False") auto
  have "CBB_init arena 1 = (True, ?st)" "run_cmds arena session_ex ?st = (True, ?st')"
    using session_ex_runs(2,3) by (simp_all add: prod_eq_iff)
  from cbb_session_output [OF arena_spec _ session_ex_runs(1) this fin] show ?thesis
    by auto
qed

text \<open>
  C2. The converse: when the specification yields an output of less than \<open>2 ^ 61\<close> bytes and no
  allocation fails, every call of the session succeeds and \<open>CBB_finish\<close> returns that output.
\<close>

theorem cbb_session_succeeds:
  assumes "malloc_spec malloc" "malloc_total malloc" "cap < 2 ^ 62" "list_all cmd_ok cs"
    and "spec_cmds cs [(Root, [])] \<bind> put_at 0 [] = Some [(Root, out)]" "length out < 2 ^ 61"
  shows "\<exists>st st' st''. CBB_init malloc cap = (True, st) \<and> run_cmds malloc cs st = (True, st') \<and>
     CBB_finish malloc 0 st' False False = (Some out, st'')"
proof -
  note i = run_cmds_implements [OF assms(1,4)]
  obtain st where st: "CBB_init malloc cap = (True, st)"
    using CBB_init_live [OF assms(2,3)] by blast
  have rep: "cbb_rep st [(Root, [])]" "st_roomy st"
    using CBB_init_rep [OF assms(1) _ st] assms(3) by simp_all
  obtain fs where fs: "spec_cmds cs [(Root, [])] = Some fs" "put_at 0 [] fs = Some [(Root, out)]"
    using assms(5) by (auto simp: bind_eq_Some_conv)
  have mono: "cbb_mono (spec_cmds cs)" and live: "cbb_live (\<lambda>_. True) (run_cmds malloc cs) (spec_cmds cs)"
    and sound: "cbb_sound (\<lambda>_. True) (run_cmds malloc cs) (spec_cmds cs)"
    using i assms(2) by (simp_all add: implements_on_def)
  have "frames_ok fs" using cbb_monoD [OF mono cbb_rep_ok [OF rep(1)] fs(1)] by simp
  then have "length (flat fs) \<le> length (flat [(Root, out)])"
    using cbb_monoD [OF put_at_mono _ fs(2)] by blast
  then have "length (flat fs) < 2 ^ 61" using assms(6) by simp
  then obtain st' where st': "run_cmds malloc cs st = (True, st')" "st_roomy st'"
    using cbb_liveD [OF live TrueI rep fs(1)] by blast
  have "cbb_rep st' fs" using cbb_soundD [OF sound TrueI rep(1) st'(1)] fs(1) by simp
  then show ?thesis
    using CBB_finish_live [OF assms(1,2) _ st'(2) fs(2) assms(6)] st st' by blast
qed


theorem cbb_session_succeeds_witness:
  "\<exists>st st' st''. CBB_init arena_all 1 = (True, st) \<and>
     run_cmds arena_all [Add_asn1 0 0x30, Add_u8 1 5] st = (True, st') \<and>
     CBB_finish arena_all 0 st' False False = (Some [0x1f, 0x30, 1, 5], st'')"
  by (rule cbb_session_succeeds [OF arena_all_spec]) (simp, code_simp, code_simp, simp)


text \<open>
  C5. Signed integers survive the trip through DER: whatever list of \<open>int64_t\<close> values is
  written, \<open>CBS_get_asn1_int64\<close> reads the same list back and nothing is left over.
\<close>

theorem asn1_int64_roundtrip:
  assumes "malloc_spec malloc" "cap + 8 < 2 ^ 64" "CBB_init malloc cap = (True, st)"
    and "wr_list (CBB_add_asn1_int64 malloc 0) vs st = (True, st')"
    and "CBB_finish malloc 0 st' False False = (Some out, st'')"
  shows "rd_list CBS_get_asn1_int64 (length vs) out = (Some vs, [])"
  using assms CBB_init_rep(1) by (blast intro: asn1_int64_writer.write_finish_read)

definition int64_ex :: "u64 list" where
  "int64_ex = [128, - 1]"

lemma int64_ex_runs:
  "fst (CBB_init arena 1)"
  "fst (wr_list (CBB_add_asn1_int64 arena 0) int64_ex (snd (CBB_init arena 1)))"
  "fst (CBB_finish arena 0 (snd (wr_list (CBB_add_asn1_int64 arena 0) int64_ex (snd (CBB_init arena 1))))
     False False) = Some [2, 2, 0, 128, 2, 1, 255]"
  by code_simp+

theorem asn1_int64_roundtrip_witness:
  "rd_list CBS_get_asn1_int64 (length int64_ex) [2, 2, 0, 128, 2, 1, 255] =
     (Some int64_ex, [])"
proof -
  let ?st = "snd (CBB_init arena 1)"
  let ?st' = "snd (wr_list (CBB_add_asn1_int64 arena 0) int64_ex ?st)"
  have "CBB_init arena 1 = (True, ?st)" "wr_list (CBB_add_asn1_int64 arena 0) int64_ex ?st = (True, ?st')"
    "CBB_finish arena 0 ?st' False False = (Some [2, 2, 0, 128, 2, 1, 255],
       snd (CBB_finish arena 0 ?st' False False))"
    using int64_ex_runs by (simp_all add: prod_eq_iff)
  from asn1_int64_roundtrip [OF arena_spec _ this] show ?thesis by simp
qed

text \<open>
  C6. \<open>CBS_get_asn1\<close> accepts a string exactly when it starts with the DER element of that tag,
  whose contents it returns: identifier and length octets in any longer or indefinite form are
  rejected, and so are truncated contents.
\<close>

theorem cbs_get_asn1_exactly_der:
  "CBS_get_asn1 cbs tag = (Some body, rest) \<longleftrightarrow>
   cbs = der_element tag body @ rest \<and> length body < 2 ^ 32"
  by (rule CBS_get_asn1_iff)

text \<open>
  C7. \<open>CBS_get_asn1_int64\<close> accepts exactly the minimal two's complement contents of the values
  of an \<open>int64_t\<close>.
\<close>

theorem cbs_get_asn1_int64_exactly_der:
  "CBS_get_asn1_int64 cbs = (Some v, rest) \<longleftrightarrow>
   cbs = der_element CBS_ASN1_INTEGER (der_int (sint v)) @ rest"
  by (rule CBS_get_asn1_int64_iff)

text \<open>
  C8. \<open>CBB_flush_asn1_set_of\<close> replaces the elements written to the CBB by the same elements
  in the ascending order of their encodings, and changes nothing else.
\<close>

theorem set_of_sorted:
  assumes "malloc_spec malloc" "cbb_rep st fs" "CBB_flush_asn1_set_of malloc d st = (True, st')"
  shows "\<exists>up k es es'. put_at d [] fs = Some (up @ [(k, concat es)]) \<and> length up = d \<and>
     (\<forall>e \<in> set es. \<exists>tag body. e = der_element tag body) \<and>
     mset es' = mset es \<and> sorted_wrt bytes_le es' \<and> cbb_rep st' (up @ [(k, concat es')])"
proof -
  obtain up k es where es: "put_at d [] fs = Some (up @ [(k, concat es)])" "length up = d"
    "der_elements (concat es) es" "cbb_rep st' (up @ [(k, concat (qsort compare_set_of_element es))])"
    using CBB_flush_asn1_set_of_sound [OF assms] by blast
  then have "\<forall>e \<in> set es. \<exists>tag body. e = der_element tag body"
    by (simp add: der_elements_def) blast
  with es show ?thesis
    using mset_qsort sorted_qsort by blast
qed

definition set_ex :: cbb_state where
  "set_ex = snd (CBB_add_bytes arena 0 (snd (CBB_init arena 1)) [2, 1, 9, 2, 1, 3])"

lemma set_ex_runs:
  "fst (CBB_init arena 1)" "fst (CBB_add_bytes arena 0 (snd (CBB_init arena 1)) [2, 1, 9, 2, 1, 3])"
  "fst (CBB_flush_asn1_set_of arena 0 set_ex)"
  by code_simp+

lemma set_ex_rep: "cbb_rep set_ex [(Root, [2, 1, 9, 2, 1, 3])]"
proof -
  let ?x = "[2, 1, 9, 2, 1, 3] :: bytes"
  have init: "CBB_init arena 1 = (True, snd (CBB_init arena 1))"
    "CBB_add_bytes arena 0 (snd (CBB_init arena 1)) ?x = (True, set_ex)"
    using set_ex_runs(1,2) by (simp_all add: prod_eq_iff set_ex_def)
  have "cbb_rep (snd (CBB_init arena 1)) [(Root, [])]"
    by (rule CBB_init_rep(1) [OF arena_spec _ init(1)]) simp
  moreover have "cbb_sound (\<lambda>_. True) (\<lambda>st. CBB_add_bytes arena 0 st ?x) (put_at 0 ?x)"
    using CBB_add_bytes_implements [OF arena_spec, of ?x 0]
    by (simp add: implements_on_def PTRDIFF_MAX_def)
  ultimately show ?thesis
    using init(2) unfolding cbb_sound_def by (fastforce simp: put_at_def)
qed

theorem set_of_sorted_witness:
  "\<exists>up k es es'. put_at 0 [] [(Root, [2, 1, 9, 2, 1, 3])] = Some (up @ [(k, concat es)]) \<and> length up = 0 \<and>
     (\<forall>e \<in> set es. \<exists>tag body. e = der_element tag body) \<and> mset es' = mset es \<and>
     sorted_wrt bytes_le es' \<and>
     cbb_rep (snd (CBB_flush_asn1_set_of arena 0 set_ex)) (up @ [(k, concat es')])"
  by (rule set_of_sorted [OF arena_spec set_ex_rep]) (use set_ex_runs(3) in \<open>simp add: prod_eq_iff\<close>)

section \<open>Errors\<close>

lemma CBB_flush_error:
  assumes "base st = Some b" "cb_error b"
  shows "CBB_flush malloc d st = (False, st)"
proof -
  have "CBB_flush_chain malloc b cs = (False, b, cs)" for cs
    using assms(2) by (cases cs) simp_all
  then show ?thesis
    using assms by (auto simp: CBB_flush_def)
qed

text \<open>
  Every call on a builder: those of \<open>cbb_cmd\<close>, the other writers, and the two that do not look at the error,
  \<open>CBB_did_write\<close> and \<open>CBB_discard_child\<close>.
\<close>

datatype cbb_call =
    Cmd cbb_cmd
  | Add_u16le nat u16
  | Add_u32le nat u32
  | Add_u64le nat u64
  | Add_space nat nat
  | Reserve nat nat
  | Add_oid nat bytes
  | Flush_set_of nat
  | Did_write nat nat
  | Discard_child nat

primrec run_call :: "malloc_fn \<Rightarrow> cbb_call \<Rightarrow> cbb_op" where
  "run_call malloc (Cmd c) = run_cmd malloc c"
| "run_call malloc (Add_u16le d v) = (\<lambda>st. CBB_add_u16le malloc d st v)"
| "run_call malloc (Add_u32le d v) = (\<lambda>st. CBB_add_u32le malloc d st v)"
| "run_call malloc (Add_u64le d v) = (\<lambda>st. CBB_add_u64le malloc d st v)"
| "run_call malloc (Add_space d n) = (\<lambda>st. CBB_add_space malloc d st n)"
| "run_call malloc (Reserve d n) = (\<lambda>st. CBB_reserve malloc d st n)"
| "run_call malloc (Add_oid d txt) = (\<lambda>st. CBB_add_asn1_oid_from_text malloc d st txt)"
| "run_call malloc (Flush_set_of d) = (\<lambda>st. CBB_flush_asn1_set_of malloc d st)"
| "run_call malloc (Did_write d n) = (\<lambda>st. CBB_did_write d st n)"
| "run_call malloc (Discard_child d) = (\<lambda>st. (True, CBB_discard_child d st))"

fun unguarded :: "cbb_call \<Rightarrow> bool" where
  "unguarded (Did_write d n) = True"
| "unguarded (Discard_child d) = True"
| "unguarded _ = False"

text \<open>A sequence of calls whose results the caller ignores.\<close>

definition run_calls :: "malloc_fn \<Rightarrow> cbb_call list \<Rightarrow> cbb_state \<Rightarrow> cbb_state" where
  "run_calls malloc calls st = foldl (\<lambda>st c. snd (run_call malloc c st)) st calls"

definition in_error :: "cbb_state \<Rightarrow> bool" where
  "in_error st \<longleftrightarrow> (\<exists>b. base st = Some b \<and> cb_error b)"

lemma guarded_call_error:
  assumes "in_error st" "\<not> unguarded c"
  shows "run_call malloc c st = (False, st)"
proof -
  obtain b where b: "base st = Some b" "cb_error b" using assms(1) by (auto simp: in_error_def)
  note flush = CBB_flush_error [OF b]
  note writers = CBB_add_u8_def CBB_add_u16_def CBB_add_u24_def CBB_add_u32_def CBB_add_u64_def CBB_add_u_def CBB_add_bytes_def
    CBB_add_u8_length_prefixed_def CBB_add_u16_length_prefixed_def CBB_add_u24_length_prefixed_def cbb_add_length_prefixed_def
    CBB_add_asn1_def CBB_add_asn1_uint64_def CBB_add_asn1_int64_def CBB_add_asn1_octet_string_def CBB_add_asn1_bool_def Let_def
  have cmd: "run_cmd malloc c st = (False, st)" for c
    using flush by (cases c) (simp_all add: writers)
  show ?thesis
    using assms(2) flush cmd
    by (cases c) (simp_all add: writers CBB_add_u16le_def CBB_add_u32le_def CBB_add_u64le_def CBB_add_space_def CBB_reserve_def
        CBB_add_asn1_oid_from_text_def CBB_flush_asn1_set_of_def)
qed

lemma call_keeps_error:
  assumes "in_error st"
  shows "in_error (snd (run_call malloc c st))"
proof (cases "unguarded c")
  case True
  then show ?thesis
    using assms by (cases c) (auto simp: in_error_def CBB_did_write_def CBB_discard_child_def Let_def)
qed (use guarded_call_error assms in simp)

lemma calls_keep_error: "in_error st \<Longrightarrow> in_error (run_calls malloc calls st)"
  by (induction calls arbitrary: st) (simp_all add: run_calls_def call_keeps_error)

text \<open>
  C9. A builder that has hit an error never produces output. After any calls that follow, with results that
  are ignored, every further call fails and leaves the builder as it is, apart from \<open>CBB_did_write\<close> and
  \<open>CBB_discard_child\<close>, which do not look at the error, and \<open>CBB_finish\<close> fails.
\<close>

theorem cbb_error_sticky:
  assumes "base st = Some b" "cb_error b" "st' = run_calls malloc calls st"
  shows "(\<not> unguarded c \<longrightarrow> run_call malloc c st' = (False, st')) \<and>
     CBB_finish malloc d st' out_data_null out_len_null = (None, st')"
proof -
  have e: "in_error st'" using calls_keep_error [of st malloc calls] assms by (auto simp: in_error_def)
  then obtain b' where "base st' = Some b'" "cb_error b'" by (auto simp: in_error_def)
  from CBB_flush_error [OF this] guarded_call_error [OF e, of c malloc] show ?thesis by (auto simp: CBB_finish_def)
qed

definition error_ex :: cbb_state where
  "error_ex = snd (CBB_add_u24 arena 0 (snd (CBB_init arena 1)) 0x1000000)"

theorem cbb_error_sticky_witness:
  "CBB_finish arena 0 (run_calls arena [Did_write 0 0, Cmd (Add_u8 0 1)] error_ex) False False =
     (None, run_calls arena [Did_write 0 0, Cmd (Add_u8 0 1)] error_ex)"
proof -
  have "base error_ex = Some (the (base error_ex))" "cb_error (the (base error_ex))" by code_simp+
  from cbb_error_sticky [OF this refl] show ?thesis by blast
qed

end
