(* ===== verification/Ber_Tree.thy ===== *)
theory Ber_Tree
  imports Ber Cbb_Run
begin

text \<open>
  What the conversion of \<^verbatim>\<open>crypto/bytestring/ber.c\<close> means. BER values are trees; a tree has a BER
  encoding, in which constructed elements may be of indefinite length and strings may be cut
  into fragments, and a DER encoding. The conversion is shown to write the DER encoding of the
  tree that its input encodes.
\<close>

section \<open>Trees and their encodings\<close>

datatype ber = Prim u32 bytes | Constr u32 bool "ber list"

abbreviation constructed :: "u32 \<Rightarrow> bool" where
  "constructed tag \<equiv> tag AND CBS_ASN1_CONSTRUCTED \<noteq> 0"

abbreviation primitive_tag :: "u32 \<Rightarrow> u32" where
  "primitive_tag tag \<equiv> tag AND NOT CBS_ASN1_CONSTRUCTED"

fun ber_enc :: "ber \<Rightarrow> bytes" where
  "ber_enc (Prim tag body) = der_element tag body"
| "ber_enc (Constr tag indef cs) =
     (if indef then der_tag tag @ [0x80] @ concat (map ber_enc cs) @ [0, 0]
      else der_element tag (concat (map ber_enc cs)))"

text \<open>
  The tag \<open>s\<close> is that of the string whose fragments are being joined, zero outside strings;
  \<open>string_in s tag\<close> is what it is for the contents of a constructed element.
\<close>

definition string_in :: "u32 \<Rightarrow> u32 \<Rightarrow> u32" where
  "string_in s tag = (if s \<noteq> 0 then s else if is_string_type tag then primitive_tag tag else 0)"

fun ber_join :: "u32 \<Rightarrow> ber \<Rightarrow> bytes" where
  "ber_join s (Prim tag body) = (if s \<noteq> 0 then body else der_element tag body)"
| "ber_join s (Constr tag indef cs) =
     (let body = concat (map (ber_join (string_in s tag)) cs)
      in if s \<noteq> 0 then body
         else der_element (if is_string_type tag then primitive_tag tag else tag) body)"

text \<open>
  \<open>ber_join\<close> is what the conversion writes: the bodies of the fragments one after the other. The DER encoding
  of the tree is defined on its own: strings are primitive, and their contents are made of the fragments as
  X.690 says, where a BIT STRING has one octet for its unused bits, that of the last fragment.
\<close>

fun ber_frags :: "ber \<Rightarrow> bytes list" where
  "ber_frags (Prim tag body) = [body]"
| "ber_frags (Constr tag indef cs) = concat (map ber_frags cs)"

definition der_string :: "u32 \<Rightarrow> bytes list \<Rightarrow> bytes" where
  "der_string tag frags =
     (if tag \<noteq> 0x3 then concat frags
      else if frags = [] then [0]
      else hd (last frags) # concat (map tl frags))"

fun ber_der :: "ber \<Rightarrow> bytes" where
  "ber_der (Prim tag body) = der_element tag body"
| "ber_der (Constr tag indef cs) =
     (if is_string_type tag
      then der_element (primitive_tag tag) (der_string (primitive_tag tag) (concat (map ber_frags cs)))
      else der_element tag (concat (map ber_der cs)))"







fun ber_wf :: "u32 \<Rightarrow> ber \<Rightarrow> bool" where
  "ber_wf s (Prim tag body) \<longleftrightarrow>
     \<not> constructed tag \<and> length body \<le> 0xfffffffe \<and> (tag, body) \<noteq> (0, []) \<and> (s \<noteq> 0 \<longrightarrow> tag = s)"
| "ber_wf s (Constr tag indef cs) \<longleftrightarrow>
     constructed tag \<and> (s \<noteq> 0 \<longrightarrow> primitive_tag tag = s) \<and>
     (indef \<or> length (concat (map ber_enc cs)) < 2 ^ 32) \<and>
     (s \<noteq> 0 \<or> length (concat (map (ber_join (string_in s tag)) cs)) \<le> 0xfffffffe) \<and>
     list_all (ber_wf (string_in s tag)) cs"

fun ber_height :: "ber \<Rightarrow> nat" where
  "ber_height (Prim tag body) = 0"
| "ber_height (Constr tag indef cs) = Suc (fold max (map ber_height cs) 0)"

abbreviation ber_encs :: "ber list \<Rightarrow> bytes" where
  "ber_encs ts \<equiv> concat (map ber_enc ts)"

abbreviation ber_heights :: "ber list \<Rightarrow> nat" where
  "ber_heights ts \<equiv> fold max (map ber_height ts) 0"

lemma fold_max: "fold max xs (a :: nat) = max a (fold max xs 0)"
proof (induction xs arbitrary: a)
  case (Cons x xs)
  show ?case using Cons [of "max x a"] Cons [of x] by simp
qed simp

section \<open>Reading encoded elements\<close>

lemma read_definite:
  "length body < 2 ^ 32 \<Longrightarrow> CBS_get_any_ber_asn1_element (der_element tag body @ rest) =
     (Some (der_element tag body, tag, length (der_header tag (length body))), rest)"
  by (simp add: CBS_get_any_ber_asn1_element_def cbs_get_any_asn1_element_der)

lemma read_indefinite:
  assumes "constructed tag"
  shows "CBS_get_any_ber_asn1_element (der_tag tag @ [0x80] @ rest) =
     (Some (der_tag tag @ [0x80], tag, Suc (length (der_tag tag))), rest)"
proof -
  have "length (der_tag tag) < 2 ^ 32" using length_der_tag [of tag] by simp
  from cbs_get_any_asn1_element_norm [OF refl this, of "0x80" rest True] assms show ?thesis
    by (simp add: CBS_get_any_ber_asn1_element_def get_n_def)
qed

lemma definite_not_indefinite:
  assumes "length body < 2 ^ 32"
  shows "\<not> is_indefinite (der_element tag body) (length (der_header tag (length body)))"
  using assms
  by (auto simp: is_indefinite_def CBS_len_def length_der_element der_element_def der_header_def nth_append
      der_length_def byte_def)

lemma indefinite_is_indefinite: "is_indefinite (der_tag tag @ [0x80]) (Suc (length (der_tag tag)))"
  by (simp add: is_indefinite_def CBS_len_def)

lemma OPENSSL_memcmp_eoc: "length c = 2 \<Longrightarrow> OPENSSL_memcmp c [0, 0] 2 = 0 \<longleftrightarrow> c = [0, 0]"
  by (cases c; cases "tl c") (auto simp: OPENSSL_memcmp_def memcmp_def numeral_2_eq_2 uint_0_iff split: if_splits)

lemma der_tag_0: "der_tag tag = [0] \<longleftrightarrow> tag = 0"
proof
  assume "der_tag tag = [0]"
  then have "parse_asn1_tag [0] = (Some tag, [])" using parse_asn1_tag_der_tag [of tag "[]"] by simp
  moreover have "parse_asn1_tag [0] = (Some 0, [])" by code_simp
  ultimately show "tag = 0" by simp
next
  assume "tag = 0"
  moreover have "der_tag 0 = [0]" by code_simp
  ultimately show "der_tag tag = [0]" by simp
qed

lemma definite_eoc:
  assumes "length body < 2 ^ 32"
  shows "is_eoc (length (der_header tag (length body))) (der_element tag body) \<longleftrightarrow> tag = 0 \<and> body = []"
proof
  assume e: "is_eoc (length (der_header tag (length body))) (der_element tag body)"
  then have "body = []" by (auto simp: is_eoc_def CBS_len_def length_der_element)
  moreover from e have "der_element tag body = [0, 0]"
    by (auto simp: is_eoc_def CBS_len_def OPENSSL_memcmp_eoc)
  ultimately have "der_tag tag = [0]"
    by (simp add: der_element_def der_header_def der_length_def Cons_eq_append_conv append_eq_Cons_conv)
  with \<open>body = []\<close> show "tag = 0 \<and> body = []" by (simp add: der_tag_0)
next
  assume "tag = 0 \<and> body = []"
  moreover have "is_eoc (length (der_header 0 0)) (der_element 0 [])" by code_simp
  ultimately show "is_eoc (length (der_header tag (length body))) (der_element tag body)" by simp
qed

lemma indefinite_not_eoc: "\<not> is_eoc (Suc (length (der_tag tag))) (der_tag tag @ [0x80])"
  by (auto simp: is_eoc_def CBS_len_def OPENSSL_memcmp_eoc Cons_eq_append_conv append_eq_Cons_conv)

section \<open>The conversion as a program over trees\<close>

fun wr_ber :: "malloc_fn \<Rightarrow> nat \<Rightarrow> u32 \<Rightarrow> ber \<Rightarrow> cbb_op"
  and wr_bers :: "malloc_fn \<Rightarrow> nat \<Rightarrow> u32 \<Rightarrow> ber list \<Rightarrow> cbb_op" where
  "wr_ber malloc d s (Prim tag body) st =
     (if s \<noteq> 0 then wr_bind (CBB_add_bytes malloc d st body) (CBB_flush malloc d)
      else wr_bind (CBB_add_asn1 malloc d st tag) (\<lambda>st.
             wr_bind (CBB_add_bytes malloc (Suc d) st body) (CBB_flush malloc d)))"
| "wr_ber malloc d s (Constr tag indef cs) st =
     (if s \<noteq> 0 then wr_bind (wr_bers malloc d s cs st) (CBB_flush malloc d)
      else wr_bind (CBB_add_asn1 malloc d st (if is_string_type tag then primitive_tag tag else tag)) (\<lambda>st.
             wr_bind (wr_bers malloc (Suc d) (string_in s tag) cs st) (CBB_flush malloc d)))"
| "wr_bers malloc d s [] st = (True, st)"
| "wr_bers malloc d s (t # ts) st = wr_bind (wr_ber malloc d s t st) (wr_bers malloc d s ts)"

text \<open>A result of the conversion agrees with a result of the program.\<close>

definition agrees :: "conv_result \<Rightarrow> bool \<times> cbb_state \<Rightarrow> bytes \<Rightarrow> bool" where
  "agrees r w tail = (\<exists>inp. r = Some (fst w, inp, snd w) \<and> (fst w \<longrightarrow> inp = tail))"

lemma agrees_rest:
  assumes "agrees r w tail" "\<And>st. agrees (conv tail d st s eoc depth) (g st) tail'"
  shows "agrees (convert_rest conv malloc d s eoc depth r) (wr_bind w (\<lambda>st. wr_bind (CBB_flush malloc d st) g)) tail'"
proof -
  obtain ok st where w: "w = (ok, st)" by fastforce
  obtain okf stf where f: "CBB_flush malloc d st = (okf, stf)" by fastforce
  show ?thesis
    using assms(1) assms(2) [of stf] w f
    by (cases ok; cases okf) (auto simp: agrees_def convert_rest_def)
qed

lemma agrees_contents_prim:
  assumes "\<not> constructed tag" "length body < 2 ^ 32"
  shows "agrees (convert_contents conv malloc (der_element tag body) tag (length (der_header tag (length body)))
       rest d st s depth) (CBB_add_bytes malloc d st body) rest"
proof -
  have "length (der_header tag (length body)) \<le> length (der_element tag body)"
    by (simp add: length_der_element)
  from CBS_skip_fst [OF this] show ?thesis
    using assms definite_not_indefinite [OF assms(2), of tag]
    by (auto simp: agrees_def convert_contents_def der_element_def split: prod.split)
qed

lemma agrees_contents_definite:
  assumes "constructed tag" "length body < 2 ^ 32"
    and "agrees (conv body d st s False (depth + 1)) w []"
  shows "agrees (convert_contents conv malloc (der_element tag body) tag (length (der_header tag (length body)))
       rest d st s depth) w rest"
proof -
  have "length (der_header tag (length body)) \<le> length (der_element tag body)"
    by (simp add: length_der_element)
  from CBS_skip_fst [OF this] show ?thesis
    using assms definite_not_indefinite [OF assms(2), of tag]
    by (auto simp: agrees_def convert_contents_def der_element_def)
qed

lemma agrees_contents_indefinite:
  assumes "agrees (conv rest d st s True (depth + 1)) w tail"
  shows "agrees (convert_contents conv malloc (der_tag tag @ [0x80]) tag (Suc (length (der_tag tag)))
       rest d st s depth) w tail"
  using assms by (simp add: convert_contents_def indefinite_is_indefinite)

lemma agrees_pass:
  fixes s tag :: u32
  assumes el: "CBS_get_any_ber_asn1_element inp = (Some (contents, tag, hl), rest)" "\<not> is_eoc hl contents"
    and tag: "s \<noteq> 0 \<longrightarrow> primitive_tag tag = s"
    and ot: "ot = (if constructed tag \<and> is_string_type tag then primitive_tag tag else tag)"
    and cst: "cst = (if s \<noteq> 0 then s else if constructed tag \<and> is_string_type tag then ot else 0)"
    and c: "\<And>oc st. agrees (convert_contents conv malloc contents tag hl rest oc st cst depth) (w oc st) tail1"
    and r: "\<And>st. agrees (conv tail1 d st s eoc depth) (g st) tail"
  shows "agrees (convert_pass conv malloc inp d st s eoc depth)
     (if s \<noteq> 0 then wr_bind (w d st) (\<lambda>st. wr_bind (CBB_flush malloc d st) g)
      else wr_bind (CBB_add_asn1 malloc d st ot) (\<lambda>st. wr_bind (w (Suc d) st) (\<lambda>st. wr_bind (CBB_flush malloc d st) g)))
     tail"
proof (cases "s = 0")
  case True
  obtain ok st1 where a: "CBB_add_asn1 malloc d st ot = (ok, st1)" by fastforce
  from agrees_rest [where conv = conv and g = g and malloc = malloc, OF c [where oc = "Suc d" and st = st1] r] a el(2) True show ?thesis
    unfolding convert_pass_def el(1) Let_def prod.case option.case ot [symmetric]
    by (cases ok; cases "constructed tag \<and> is_string_type tag") (auto simp: cst agrees_def)
next
  case False
  with agrees_rest [where conv = conv and g = g and malloc = malloc, OF c [where oc = d and st = st] r] el(2) tag show ?thesis
    unfolding convert_pass_def el(1) Let_def prod.case option.case by (simp add: cst)
qed

lemma wr_bind_assoc: "wr_bind (wr_bind w f) g = wr_bind w (\<lambda>st. wr_bind (f st) g)"
  by (cases w) (simp add: wr_bind_def)

definition eoc_tail :: "bool \<Rightarrow> bytes \<Rightarrow> bytes" where
  "eoc_tail eoc tail = (if eoc then [0, 0] @ tail else [])"

lemma convert_agrees_nil:
  assumes "depth \<le> kMaxDepth" "eoc \<or> tail = []"
  shows "agrees (cbs_convert_ber malloc (Suc n) (eoc_tail eoc tail) d st s eoc depth) (True, st) tail"
proof (cases eoc)
  case True
  have "der_element 0 [] = [0, 0]" by code_simp
  moreover have "is_eoc (length (der_header 0 0)) (der_element 0 [])" by code_simp
  ultimately show ?thesis
    using True assms read_definite [of "[]" 0 tail]
    by (simp add: agrees_def convert_pass_def eoc_tail_def CBS_len_def)
qed (use assms in \<open>simp add: agrees_def eoc_tail_def CBS_len_def\<close>)

lemma prim_not_string: "\<not> constructed tag \<Longrightarrow> primitive_tag tag = tag"
proof -
  assume "\<not> constructed tag"
  then have "primitive_tag tag = (tag AND CBS_ASN1_CONSTRUCTED) OR primitive_tag tag" by simp
  also have "\<dots> = tag" by (simp flip: bit.conj_disj_distrib)
  finally show ?thesis .
qed

text \<open>One tree, for a recursive call \<open>conv\<close> that handles the trees below it.\<close>

definition handles :: "malloc_fn \<Rightarrow> conv_fn \<Rightarrow> nat \<Rightarrow> bool" where
  "handles malloc conv n = (\<forall>ts tail d st s eoc depth. length (ber_encs ts @ eoc_tail eoc tail) < n \<longrightarrow>
     list_all (ber_wf s) ts \<longrightarrow> depth + ber_heights ts \<le> kMaxDepth \<longrightarrow> eoc \<or> tail = [] \<longrightarrow>
     agrees (conv (ber_encs ts @ eoc_tail eoc tail) d st s eoc depth) (wr_bers malloc d s ts st) tail)"

lemma handlesD:
  "handles malloc conv n \<Longrightarrow> length (ber_encs ts @ eoc_tail eoc tail) < n \<Longrightarrow> list_all (ber_wf s) ts \<Longrightarrow>
   depth + ber_heights ts \<le> kMaxDepth \<Longrightarrow> eoc \<or> tail = [] \<Longrightarrow>
   agrees (conv (ber_encs ts @ eoc_tail eoc tail) d st s eoc depth) (wr_bers malloc d s ts st) tail"
  unfolding handles_def by blast

lemma convert_tree_agrees:
  assumes conv: "handles malloc conv n" and wf: "ber_wf s t" and h: "depth + ber_height t \<le> kMaxDepth"
    and len: "length (ber_enc t @ rest) \<le> n"
    and r: "\<And>st. agrees (conv rest d st s eoc depth) (g st) tail"
  shows "agrees (convert_pass conv malloc (ber_enc t @ rest) d st s eoc depth) (wr_bind (wr_ber malloc d s t st) g) tail"
proof (cases t)
  case (Prim tag body)
  then have b: "length body < 2 ^ 32" "\<not> constructed tag" and "\<not> (tag = 0 \<and> body = [])"
    using wf by auto
  then have "\<not> is_eoc (length (der_header tag (length body))) (der_element tag body)"
    using definite_eoc [OF b(1), of tag] by simp
  note pass = agrees_pass [OF read_definite [OF b(1), of tag rest] this _ refl refl
      agrees_contents_prim [OF b(2,1)], where g = g and conv = conv, OF _ r]
  show ?thesis
    using pass [of malloc st] wf Prim b(2)
    by (cases "s = 0") (auto simp: wr_bind_assoc prim_not_string)
next
  case (Constr tag indef cs)
  let ?s = "string_in s tag"
  have w: "constructed tag" "list_all (ber_wf ?s) cs" "depth + 1 + ber_heights cs \<le> kMaxDepth"
    "s \<noteq> 0 \<longrightarrow> primitive_tag tag = s" and l: "indef \<or> length (ber_encs cs) < 2 ^ 32"
    using wf h Constr by auto
  have s: "?s = (if s \<noteq> 0 then s else if constructed tag \<and> is_string_type tag
      then (if constructed tag \<and> is_string_type tag then primitive_tag tag else tag) else 0)"
    using w(1) by (simp add: string_in_def)
  show ?thesis
  proof (cases indef)
    case True
    have enc: "ber_enc t @ rest = der_tag tag @ [0x80] @ (ber_encs cs @ eoc_tail True rest)"
      using Constr True by (simp add: eoc_tail_def)
    then have "length (ber_encs cs @ eoc_tail True rest) < n" using len by simp
    from handlesD [OF conv this w(2,3)]
    have "agrees (conv (ber_encs cs @ eoc_tail True rest) oc st ?s True (depth + 1)) (wr_bers malloc oc ?s cs st) rest"
      for oc st by simp
    note pass = agrees_pass [OF read_indefinite [OF w(1)] indefinite_not_eoc w(4) refl s
        agrees_contents_indefinite [where conv = conv, OF this], where g = g, OF r]
    show ?thesis
      unfolding enc using pass [of malloc st] Constr w(1)
      by (cases "s = 0"; cases "is_string_type tag") (simp_all add: wr_bind_assoc string_in_def)
  next
    case False
    then have b: "length (ber_encs cs) < 2 ^ 32" using l by simp
    have enc: "ber_enc t @ rest = der_element tag (ber_encs cs) @ rest" using Constr False by simp
    moreover have "0 < length (der_tag tag)" using der_tag_nonempty [of tag] by blast
    ultimately have "length (ber_encs cs @ eoc_tail False []) < n"
      using len by (simp add: eoc_tail_def der_element_def der_header_def del: length_0_conv length_greater_0_conv)
    from handlesD [OF conv this w(2,3)]
    have c: "agrees (conv (ber_encs cs) oc st ?s False (depth + 1)) (wr_bers malloc oc ?s cs st) []"
      for oc st by (simp add: eoc_tail_def)
    have "\<not> is_eoc (length (der_header tag (length (ber_encs cs)))) (der_element tag (ber_encs cs))"
      using w(1) definite_eoc [OF b, of tag] by auto
    note pass = agrees_pass [OF read_definite [OF b, of tag rest] this w(4) refl s
        agrees_contents_definite [where conv = conv, OF w(1) b c], where g = g, OF r]
    show ?thesis
      unfolding enc using pass [of malloc st] Constr w(1)
      by (cases "s = 0"; cases "is_string_type tag") (simp_all add: wr_bind_assoc string_in_def)
  qed
qed

lemma convert_handles: "handles malloc (cbs_convert_ber malloc n) n"
proof (induction n)
  case (Suc n)
  show ?case
    unfolding handles_def
  proof (intro allI impI)
    fix ts tail d st s eoc depth
    assume a: "length (ber_encs ts @ eoc_tail eoc tail) < Suc n" "list_all (ber_wf s) ts"
      "depth + ber_heights ts \<le> kMaxDepth" "eoc \<or> tail = []"
    show "agrees (cbs_convert_ber malloc (Suc n) (ber_encs ts @ eoc_tail eoc tail) d st s eoc depth)
        (wr_bers malloc d s ts st) tail"
    proof (cases ts)
      case Nil
      with a show ?thesis using convert_agrees_nil [of depth eoc tail malloc n] by simp
    next
      case (Cons t ts')
      let ?tl = "ber_encs ts' @ eoc_tail eoc tail"
      have wf: "ber_wf s t" "list_all (ber_wf s) ts'" and h: "depth + ber_height t \<le> kMaxDepth"
        "depth + ber_heights ts' \<le> kMaxDepth"
        using a(2,3) Cons fold_max [of _ "ber_height t"] by auto
      have ne: "ber_enc t \<noteq> []" by (cases t) (auto simp: der_element_def der_header_def)
      then have len: "length ?tl < n" "length (ber_enc t @ ?tl) \<le> n"
        using a(1) Cons by (cases "ber_enc t"; simp)+
      note r = handlesD [OF Suc.IH len(1) wf(2) h(2) a(4)]
      have "\<not> depth > kMaxDepth" "ber_encs ts @ eoc_tail eoc tail = ber_enc t @ ?tl" "CBS_len (ber_enc t @ ?tl) > 0"
        using h ne Cons by (simp_all add: CBS_len_def)
      with convert_tree_agrees [OF Suc.IH wf(1) h(1) len(2) r] Cons show ?thesis by simp
    qed
  qed
qed (simp add: handles_def)

section \<open>What the program writes\<close>

lemma implements_then_flush:
  assumes "malloc_spec malloc" "implements_on (innermost d) malloc f (put_at d x)"
  shows "implements_on (innermost d) malloc (\<lambda>st. wr_bind (f st) (CBB_flush malloc d)) (put_at d x)"
  using implements_bind [OF assms(2) CBB_flush_implements [OF assms(1), of d]] put_at_put_at [of d x _ "[]"]
  by simp

lemma wr_bers_implements:
  "(\<And>t. t \<in> set ts \<Longrightarrow> implements_on (innermost d) malloc (wr_ber malloc d s t) (put_at d (ber_join s t))) \<Longrightarrow>
   implements_on (innermost d) malloc (wr_bers malloc d s ts) (put_at d (concat (map (ber_join s) ts)))"
proof (induction ts)
  case Nil
  show ?case
    using implements_skip [of d malloc] by (simp add: implements_on_def cbb_sound_def cbb_live_def)
next
  case (Cons t ts)
  then have "implements_on (innermost d) malloc (wr_ber malloc d s t) (put_at d (ber_join s t))"
    "implements_on (innermost d) malloc (wr_bers malloc d s ts) (put_at d (concat (map (ber_join s) ts)))"
    by simp_all
  from implements_bind [OF this] show ?case
    by (simp add: put_at_put_at put_at_innermost implements_on_def cbb_sound_def cbb_live_def)
qed

lemma wr_ber_implements:
  assumes m: "malloc_spec malloc"
  shows "ber_wf s t \<Longrightarrow> implements_on (innermost d) malloc (wr_ber malloc d s t) (put_at d (ber_join s t))"
proof (induction t arbitrary: d s)
  case (Prim tag body)
  then have len: "length body \<le> 0xfffffffe" "length body \<le> PTRDIFF_MAX" by (simp_all add: PTRDIFF_MAX_def)
  note bytes = CBB_add_bytes_implements [OF m len(2)]
  show ?case
    using implements_on_weaken [OF implements_asn1_child [OF m len(1) implements_on_weaken [OF bytes], of d tag]]
      implements_then_flush [OF m implements_on_weaken [OF bytes], of d]
    by (cases "s = 0") (simp_all add: implements_on_def cbb_sound_def cbb_live_def)
next
  case (Constr tag indef cs)
  let ?s = "string_in s tag"
  have wf: "s \<noteq> 0 \<or> length (concat (map (ber_join ?s) cs)) \<le> 0xfffffffe" "list_all (ber_wf ?s) cs"
    using Constr.prems by simp_all
  have cs: "implements_on (innermost d) malloc (wr_bers malloc d ?s cs) (put_at d (concat (map (ber_join ?s) cs)))"
    for d using wf(2) Constr.IH by (intro wr_bers_implements) (simp add: list_all_iff)
  show ?case
  proof (cases "s = 0")
    case True
    then have "length (concat (map (ber_join ?s) cs)) \<le> 0xfffffffe" using wf(1) by simp
    from implements_on_weaken [OF implements_asn1_child [OF m this cs, of d "if is_string_type tag then primitive_tag tag else tag"]]
    show ?thesis using True by (simp add: implements_on_def cbb_sound_def cbb_live_def)
  next
    case False
    then have "?s = s" by (simp add: string_in_def)
    then show ?thesis
      using implements_then_flush [OF m cs, of d] False
      by (simp add: implements_on_def cbb_sound_def cbb_live_def)
  qed
qed

section \<open>Input that is already DER\<close>

text \<open>A tree without indefinite lengths and without constructed strings is found to be DER.\<close>

fun ber_is_der :: "ber \<Rightarrow> bool" where
  "ber_is_der (Prim tag body) \<longleftrightarrow> \<not> constructed tag \<and> length body < 2 ^ 32"
| "ber_is_der (Constr tag indef cs) \<longleftrightarrow>
     constructed tag \<and> \<not> indef \<and> \<not> is_string_type tag \<and> length (concat (map ber_enc cs)) < 2 ^ 32 \<and> list_all ber_is_der cs"

lemma find_ber_loop_element:
  assumes "length body < 2 ^ 32"
  shows "find_ber_loop (der_element tag body @ rest) b depth =
     (if constructed tag then
        (if is_string_type tag then Some True
         else (case (if depth + 1 > kMaxDepth then None else find_ber_loop body False (depth + 1)) of
                 None \<Rightarrow> None | Some b \<Rightarrow> find_ber_loop rest b depth))
      else find_ber_loop rest b depth)"
proof -
  have "CBS_len (der_element tag body @ rest) > 0" by (simp add: CBS_len_def der_element_def der_header_def)
  moreover have "CBS_skip (der_element tag body) (length (der_header tag (length body))) = (Some (), body)"
    by (simp add: der_element_def)
  ultimately show ?thesis
    by (subst find_ber_loop.simps)
       (simp add: read_definite [OF assms] definite_not_indefinite [OF assms])
qed

lemma find_ber_loop_Nil [simp]: "find_ber_loop [] b depth = Some b"
  by (subst find_ber_loop.simps) (simp add: CBS_len_def)

lemma find_ber_loop_ders:
  "(\<And>t rest. t \<in> set ts \<Longrightarrow> find_ber_loop (ber_enc t @ rest) False depth = find_ber_loop rest False depth) \<Longrightarrow>
   find_ber_loop (ber_encs ts @ rest) False depth = find_ber_loop rest False depth"
  by (induction ts) simp_all

lemma ber_heights_le: "t \<in> set ts \<Longrightarrow> ber_height t \<le> ber_heights ts"
proof (induction ts)
  case (Cons u ts)
  then show ?case using fold_max [of "map ber_height ts" "ber_height u"] by auto
qed simp

lemma find_ber_loop_der:
  "ber_is_der t \<Longrightarrow> depth + ber_height t \<le> kMaxDepth \<Longrightarrow>
   find_ber_loop (ber_enc t @ rest) False depth = find_ber_loop rest False depth"
proof (induction t arbitrary: depth rest)
  case (Prim tag body)
  then show ?case using find_ber_loop_element [of body tag] by simp
next
  case (Constr tag indef cs)
  have "find_ber_loop (ber_enc t @ rest) False (depth + 1) = find_ber_loop rest False (depth + 1)"
    if "t \<in> set cs" for t rest
    using Constr.IH [OF that, of "depth + 1"] Constr.prems ber_heights_le [OF that] that
    by (auto simp: list_all_iff)
  then have "find_ber_loop (ber_encs cs) False (depth + 1) = Some False"
    using find_ber_loop_ders [of cs "depth + 1" "[]"] by simp
  then show ?case
    using Constr.prems find_ber_loop_element [of "ber_encs cs" tag] by simp
qed

section \<open>What the search sees\<close>

text \<open>
  A tree opens with a BER construct when its first element is of indefinite length or a constructed string.
  The search looks at every element of a level, but from a level below only the last constructed element
  counts, because every recursive call resets the flag: \<open>ber_seen\<close> is what it answers, \<open>ber_has\<close> what it is
  meant to answer.
\<close>

fun opens :: "ber \<Rightarrow> bool" where
  "opens (Prim tag body) \<longleftrightarrow> False"
| "opens (Constr tag indef cs) \<longleftrightarrow> indef \<or> is_string_type tag"

fun ber_has :: "ber \<Rightarrow> bool" where
  "ber_has (Prim tag body) \<longleftrightarrow> False"
| "ber_has (Constr tag indef cs) \<longleftrightarrow> indef \<or> is_string_type tag \<or> list_ex ber_has cs"

fun is_constr :: "ber \<Rightarrow> bool" where
  "is_constr (Prim tag body) \<longleftrightarrow> False"
| "is_constr (Constr tag indef cs) \<longleftrightarrow> True"

fun children_of :: "ber \<Rightarrow> ber list" where
  "children_of (Prim tag body) = []"
| "children_of (Constr tag indef cs) = cs"

lemma children_smaller: "is_constr t \<Longrightarrow> size_list size (children_of t) < size t"
  by (cases t) simp_all

function ber_seen :: "ber list \<Rightarrow> bool" where
  "ber_seen ts \<longleftrightarrow>
     (if list_ex opens ts then True
      else if filter is_constr ts = [] then False
      else ber_seen (children_of (last (filter is_constr ts))))"
  by pat_completeness auto

termination
proof (relation "measure (size_list size)")
  fix ts assume "\<not> list_ex opens ts" "filter is_constr ts \<noteq> []"
  then have l: "last (filter is_constr ts) \<in> set ts" "is_constr (last (filter is_constr ts))"
    using last_in_set [of "filter is_constr ts"] by auto
  from size_list_estimation' [OF l(1) order_refl, of size] children_smaller [OF l(2)]
  show "(children_of (last (filter is_constr ts)), ts) \<in> measure (size_list size)" by simp
qed simp

declare ber_seen.simps [simp del]

lemma ber_seen_has: "ber_seen ts \<Longrightarrow> list_ex ber_has ts"
proof (induction ts rule: ber_seen.induct)
  case (1 ts)
  have o': "opens t \<Longrightarrow> ber_has t" for t by (cases t) auto
  show ?case
  proof (cases "list_ex opens ts")
    case True
    then show ?thesis using o' by (auto simp: list_ex_iff)
  next
    case False
    then have f: "filter is_constr ts \<noteq> []" "ber_seen (children_of (last (filter is_constr ts)))"
      using "1.prems" ber_seen.simps [of ts] by (simp_all split: if_splits)
    moreover have "last (filter is_constr ts) \<in> set ts" using last_in_set [OF f(1)] by auto
    moreover have "list_ex ber_has (children_of t) \<Longrightarrow> ber_has t" for t by (cases t) auto
    ultimately show ?thesis using "1.IH" [OF False] by (metis list_ex_iff)
  qed
qed

lemma CBS_len_pos: "xs \<noteq> [] \<Longrightarrow> CBS_len xs > 0"
  by (simp add: CBS_len_def)

lemma find_ber_loop_tree:
  assumes "ber_wf 0 t"
  shows "find_ber_loop (ber_enc t @ rest) b depth =
     (if opens t then Some True
      else if is_constr t then
        (case (if depth + 1 > kMaxDepth then None else find_ber_loop (ber_encs (children_of t)) False (depth + 1)) of
           None \<Rightarrow> None | Some b \<Rightarrow> find_ber_loop rest b depth)
      else find_ber_loop rest b depth)"
proof (cases t)
  case (Prim tag body)
  then show ?thesis using assms by (simp add: find_ber_loop_element)
next
  case (Constr tag indef cs)
  show ?thesis
  proof (cases indef)
    case True
    then show ?thesis
      using assms Constr read_indefinite [of tag "ber_encs cs @ [0, 0] @ rest"]
      by (subst find_ber_loop.simps) (simp add: CBS_len_def indefinite_is_indefinite)
  next
    case False
    then show ?thesis using assms Constr by (simp add: find_ber_loop_element)
  qed
qed

lemma find_ber_loop_seen:
  "list_all (ber_wf 0) ts \<Longrightarrow> depth + ber_heights ts \<le> kMaxDepth \<Longrightarrow>
   find_ber_loop (ber_encs ts) b depth =
     Some (list_ex opens ts \<or> (if filter is_constr ts = [] then b else ber_seen (children_of (last (filter is_constr ts)))))"
proof (induction "size_list size ts" arbitrary: ts depth b rule: less_induct)
  case less
  show ?case
  proof (cases ts)
    case (Cons t ts')
    have wf: "ber_wf 0 t" "list_all (ber_wf 0) ts'" and h: "depth + ber_height t \<le> kMaxDepth" "depth + ber_heights ts' \<le> kMaxDepth"
      using less.prems Cons fold_max [of _ "ber_height t"] by auto
    have rest: "find_ber_loop (ber_encs ts') b depth = Some (list_ex opens ts' \<or>
        (if filter is_constr ts' = [] then b else ber_seen (children_of (last (filter is_constr ts')))))" for b
      by (rule less.hyps) (use Cons wf(2) h(2) in simp_all)
    have enc: "ber_encs ts = ber_enc t @ ber_encs ts'" by (simp add: Cons)
    show ?thesis
    proof (cases "opens t \<or> \<not> is_constr t")
      case True
      then show ?thesis unfolding enc find_ber_loop_tree [OF wf(1)] rest using Cons by auto
    next
      case False
      then obtain tag cs where t: "t = Constr tag False cs" "\<not> is_string_type tag" by (cases t) auto
      have "size_list size cs < size_list size ts" by (simp add: Cons t)
      moreover have "list_all (ber_wf 0) cs" "depth + 1 + ber_heights cs \<le> kMaxDepth"
        using wf(1) h(1) t by (simp_all add: string_in_def)
      ultimately have c: "find_ber_loop (ber_encs cs) False (depth + 1) = Some (ber_seen cs)"
        using less.hyps [of cs "depth + 1" False] by (simp add: ber_seen.simps [of cs])
      have "depth + 1 \<le> kMaxDepth" using h(1) t by simp
      then show ?thesis
        unfolding enc find_ber_loop_tree [OF wf(1)] using False t rest c Cons by auto
    qed
  qed simp
qed

section \<open>Properties\<close>

lemma cbs_convert_ber_encoded:
  assumes "list_all (ber_wf 0) ts" "ber_heights ts \<le> kMaxDepth"
  shows "agrees (cbs_convert_ber malloc (Suc (length (ber_encs ts))) (ber_encs ts) 0 st 0 False 0)
     (wr_bers malloc 0 0 ts st) []"
  using handlesD [OF convert_handles, of ts False "[]" "Suc (length (ber_encs ts))" 0 0 malloc 0 st] assms
  by (simp add: eoc_tail_def)

lemma wr_bers_root:
  assumes "malloc_spec malloc" "list_all (ber_wf 0) ts"
  shows "implements_on (innermost 0) malloc (wr_bers malloc 0 0 ts) (put_at 0 (concat (map (ber_join 0) ts)))"
  using assms by (intro wr_bers_implements wr_ber_implements) (simp_all add: list_all_iff)

lemma search_encoded:
  assumes "list_all (ber_wf 0) ts" "ber_heights ts \<le> kMaxDepth"
  shows "cbs_find_ber (ber_encs ts) 0 = Some (ber_seen ts)"
  using find_ber_loop_seen [OF assms(1), of 0 False] assms(2) by (auto simp: cbs_find_ber_def ber_seen.simps [of ts])








lemma ber_to_der_joins_all:
  assumes "malloc_spec malloc" "malloc_total malloc" "list_all (ber_wf 0) ts" "ber_heights ts \<le> kMaxDepth"
    and "length (ber_encs ts) < 2 ^ 62" "length (concat (map (ber_join 0) ts)) < 2 ^ 61"
    and "ber_seen ts"
  shows "CBS_asn1_ber_to_der malloc (ber_encs ts) = (Some (concat (map (ber_join 0) ts), False), [])"
proof -
  let ?out = "concat (map (ber_join 0) ts)"
  obtain st where i: "CBB_init malloc (length (ber_encs ts)) = (True, st)"
    using CBB_init_live [OF assms(2,5)] by blast
  have "length (ber_encs ts) + 8 < 2 ^ 64" using assms(5) by simp
  note rep = CBB_init_rep [OF assms(1) this i]
  note imp = wr_bers_root [OF assms(1,3)]
  have p: "put_at 0 ?out [(Root, [])] = Some [(Root, ?out)]" by (simp add: put_at_def)
  have "cbb_live (innermost 0) (wr_bers malloc 0 0 ts) (put_at 0 ?out)"
    using imp assms(2) by (simp add: implements_on_def)
  from cbb_liveD [OF this _ rep(1) rep(2) [OF assms(5)] p] assms(6)
  obtain st' where w: "wr_bers malloc 0 0 ts st = (True, st')" "st_roomy st'" by auto
  have "cbb_sound (innermost 0) (wr_bers malloc 0 0 ts) (put_at 0 ?out)"
    using imp by (simp add: implements_on_def)
  from cbb_soundD [OF this _ rep(1) w(1)] p have "cbb_rep st' [(Root, ?out)]" by simp
  from CBB_finish_live [OF assms(1,2) this w(2), of ?out] assms(6)
  obtain st'' where "CBB_finish malloc 0 st' False False = (Some ?out, st'')" by (auto simp: put_at_def)
  moreover have "cbs_convert_ber malloc (Suc (length (ber_encs ts))) (ber_encs ts) 0 st 0 False 0 = Some (True, [], st')"
    using cbs_convert_ber_encoded [OF assms(3,4), of malloc st] w(1) by (simp add: agrees_def)
  ultimately show ?thesis
    using i assms(7) search_encoded [OF assms(3,4)] by (simp add: CBS_asn1_ber_to_der_def CBS_len_def)
qed



text \<open>
  C21. Input that is DER already is returned as it is, without a new allocation, and only its
  first element is consumed.
\<close>

theorem ber_to_der_unchanged:
  assumes "list_all ber_is_der (t # ts)" "ber_heights (t # ts) \<le> kMaxDepth"
  shows "CBS_asn1_ber_to_der malloc (ber_encs (t # ts)) = (Some (ber_enc t, True), ber_encs ts)"
proof -
  have "find_ber_loop (ber_enc u @ rest) False 0 = find_ber_loop rest False 0" if "u \<in> set (t # ts)" for u rest
    using that assms(1) ber_heights_le [OF that] assms(2) find_ber_loop_der [of u 0]
    by (auto simp: list_all_iff)
  then have "find_ber_loop (ber_encs (t # ts)) False 0 = Some False"
    using find_ber_loop_ders [of "t # ts" 0 "[]"] by simp
  moreover have "\<exists>tag body. ber_enc t = der_element tag body \<and> length body < 2 ^ 32"
    using assms(1) by (cases t) auto
  ultimately show ?thesis
    by (auto simp: CBS_asn1_ber_to_der_def cbs_find_ber_def kMaxDepth_def CBS_get_any_asn1_element_def
        cbs_get_any_asn1_element_der)
qed

theorem ber_to_der_unchanged_witness:
  "CBS_asn1_ber_to_der (\<lambda>_. None) [0x30, 3, 2, 1, 5, 5, 0] = (Some ([0x30, 3, 2, 1, 5], True), [5, 0])"
proof -
  let ?t = "Constr 0x20000010 False [Prim 2 [5]]" and ?u = "Prim 5 []"
  have "list_all ber_is_der [?t, ?u]" "ber_heights [?t, ?u] \<le> kMaxDepth"
    "ber_encs [?t, ?u] = [0x30, 3, 2, 1, 5, 5, 0]" "ber_enc ?t = [0x30, 3, 2, 1, 5]" "ber_encs [?u] = [5, 0]"
    by code_simp+
  then show ?thesis using ber_to_der_unchanged [of ?t "[?u]" "\<lambda>_. None"] by simp
qed

definition ber_missed :: ber where
  "ber_missed = Constr 0x20000010 False
     [Constr 0x20000010 False [Constr 0x20000004 False [Prim 4 [0x41]]], Constr 0x20000010 False []]"

text \<open>
  C22. What the search for BER constructs answers, on the encoding of any values nested at most 2048 deep: a
  construct among the elements of a level is seen, but of the levels below, only what is in the last
  constructed element of the level, because every recursive call of \<open>cbs_find_ber\<close> resets \<open>*ber_found\<close>. What is
  seen is there, but values that contain constructs can be taken for DER.
\<close>

theorem ber_found_reset:
  assumes "list_all (ber_wf 0) ts" "ber_heights ts \<le> kMaxDepth"
  shows "cbs_find_ber (ber_encs ts) 0 = Some (ber_seen ts) \<and> (ber_seen ts \<longrightarrow> list_ex ber_has ts)"
  using search_encoded [OF assms] ber_seen_has by simp

theorem ber_found_reset_witness:
  "cbs_find_ber (ber_enc ber_missed) 0 = Some False \<and> ber_has ber_missed"
proof -
  have "list_all (ber_wf 0) [ber_missed]" "ber_heights [ber_missed] \<le> kMaxDepth" "\<not> ber_seen [ber_missed]" "ber_has ber_missed"
    by code_simp+
  with ber_found_reset [OF this(1,2)] show ?thesis by simp
qed

text \<open>
  The fragments of a constructed BIT STRING are joined with their octets of unused bits: two fragments of
  eight bits become a string of 24, not of 16.
\<close>

definition cut_bits :: ber where
  "cut_bits = Constr 0x20000003 False [Prim 3 [0, 0xaa], Prim 3 [0, 0xbb]]"

lemma cut_bits_not_der:
  "ber_wf 0 cut_bits \<and> ber_der cut_bits = [3, 3, 0, 0xaa, 0xbb] \<and>
   CBS_asn1_ber_to_der arena_all (ber_encs [cut_bits]) = (Some ([3, 4, 0, 0xaa, 0, 0xbb], False), [])"
proof -
  have "list_all (ber_wf 0) [cut_bits]" "ber_heights [cut_bits] \<le> kMaxDepth" "length (ber_encs [cut_bits]) < 2 ^ 62"
    "ber_seen [cut_bits]" "concat (map (ber_join 0) [cut_bits]) = [3, 4, 0, 0xaa, 0, 0xbb]" "ber_der cut_bits = [3, 3, 0, 0xaa, 0xbb]"
    by code_simp+
  moreover from this have "length (concat (map (ber_join 0) [cut_bits])) < 2 ^ 61" by simp
  ultimately show ?thesis using ber_to_der_joins_all [OF arena_all_spec, of "[cut_bits]"] by simp
qed

section \<open>Implicitly tagged strings\<close>

lemma implicit_string_loop_chunks:
  "implicit_string_loop malloc inner_tag child st = (True, st') \<Longrightarrow>
   \<exists>chunks. child = concat (map (der_element inner_tag) chunks) \<and> (\<forall>c \<in> set chunks. length c < 2 ^ 32) \<and>
     wr_list (CBB_add_bytes malloc 0) chunks st = (True, st')"
proof (induction malloc inner_tag child st rule: implicit_string_loop.induct)
  case (1 malloc inner_tag child st)
  show ?case
  proof (cases child)
    case Nil
    with "1.prems" show ?thesis
      by (intro exI [of _ "[]"]) (simp add: implicit_string_loop.simps [of _ _ "[]"] CBS_len_def)
  next
    case (Cons b bs)
    then have len: "CBS_len child > 0" by (simp add: CBS_len_def)
    obtain chunk rest where c: "CBS_get_asn1 child inner_tag = (Some chunk, rest)"
      and w: "wr_bind (CBB_add_bytes malloc 0 st chunk) (implicit_string_loop malloc inner_tag rest) = (True, st')"
      using "1.prems" len by (subst (asm) implicit_string_loop.simps) (auto split: prod.splits option.splits)
    then obtain s where s: "CBB_add_bytes malloc 0 st chunk = (True, s)"
      "implicit_string_loop malloc inner_tag rest s = (True, st')"
      by (auto simp: wr_bind_True_iff)
    have child: "child = der_element inner_tag chunk @ rest" "length chunk < 2 ^ 32"
      using c by (simp_all add: CBS_get_asn1_iff)
    from "1.IH" [OF len c [symmetric] refl s(2)] obtain chunks where
      "rest = concat (map (der_element inner_tag) chunks)" "\<forall>c \<in> set chunks. length c < 2 ^ 32"
      "wr_list (CBB_add_bytes malloc 0) chunks s = (True, st')" by blast
    with child s(1) show ?thesis by (intro exI [of _ "chunk # chunks"]) simp
  qed
qed

text \<open>
  C23. \<open>CBS_get_asn1_implicit_string\<close> returns either the body of an element with the outer tag,
  or the concatenation of the chunks of a constructed one; nothing else is accepted.
\<close>

theorem implicit_string_concat:
  assumes "malloc_spec malloc" "length inp + 8 < 2 ^ 64"
    and "CBS_get_asn1_implicit_string malloc inp outer_tag inner_tag = (Some (out, null_storage), rest)"
  shows "null_storage \<and> inp = der_element outer_tag out @ rest \<or>
     (\<not> null_storage \<and> (\<exists>chunks. out = concat chunks \<and>
        inp = der_element (outer_tag OR CBS_ASN1_CONSTRUCTED) (concat (map (der_element inner_tag) chunks)) @ rest))"
proof (cases "CBS_peek_asn1_tag inp outer_tag")
  case True
  then show ?thesis
    using assms(3)
    by (auto simp: CBS_get_asn1_implicit_string_def rd_bind_Some_iff CBS_get_asn1_iff)
next
  case False
  then obtain st where i: "CBB_init malloc (length inp) = (True, st)"
    using assms(3) by (auto simp: CBS_get_asn1_implicit_string_def CBS_len_def split: prod.splits bool.splits)
  obtain child rest' where c': "CBS_get_asn1 inp (outer_tag OR CBS_ASN1_CONSTRUCTED) = (Some child, rest')"
    using assms(3) False i
    by (cases "CBS_get_asn1 inp (outer_tag OR CBS_ASN1_CONSTRUCTED)"; cases "fst (CBS_get_asn1 inp (outer_tag OR CBS_ASN1_CONSTRUCTED))")
       (simp_all add: CBS_get_asn1_implicit_string_def CBS_len_def)
  obtain ok st' where l': "implicit_string_loop malloc inner_tag child st = (ok, st')" by fastforce
  obtain r st'' where f': "CBB_finish malloc 0 st' False False = (r, st'')" by fastforce
  have ok: ok "r = Some out" "\<not> null_storage" "rest' = rest"
    using assms(3) False i c' l' f'
    by (cases ok; cases r; simp add: CBS_get_asn1_implicit_string_def CBS_len_def)+
  note c = c' [unfolded ok(4)] and l = l' [unfolded eqTrueI [OF ok(1)]] and f = f' [unfolded ok(2)] and o = ok(3)
  from implicit_string_loop_chunks [OF l] obtain chunks where
    ch: "child = concat (map (der_element inner_tag) chunks)" "\<forall>c \<in> set chunks. length c < 2 ^ 32"
    "wr_list (CBB_add_bytes malloc 0) chunks st = (True, st')" by blast
  have "implements_on (innermost 0) malloc (wr_list (CBB_add_bytes malloc 0) chunks) (put_at 0 (concat (map (\<lambda>c. c) chunks)))"
    using ch(2) assms(1) by (intro implements_wr_list CBB_add_bytes_implements) (auto simp: PTRDIFF_MAX_def)
  then have "cbb_sound (innermost 0) (wr_list (CBB_add_bytes malloc 0) chunks) (put_at 0 (concat chunks))"
    by (simp add: implements_on_def)
  from cbb_soundD [OF this _ CBB_init_rep(1) [OF assms(1,2) i] ch(3)]
  have "cbb_rep st' [(Root, concat chunks)]" by (simp add: put_at_def)
  from CBB_finish_rep [OF assms(1) this f] have "out = concat chunks" by (simp add: put_at_def)
  moreover have "inp = der_element (outer_tag OR CBS_ASN1_CONSTRUCTED) child @ rest"
    using c by (simp add: CBS_get_asn1_iff)
  ultimately show ?thesis using o ch(1) by auto
qed

lemma implicit_ex_runs:
  "fst (CBS_get_asn1_implicit_string arena [0xa0, 5, 4, 1, 7, 4, 0] 0x80000000 4) = Some ([7], False)"
  by code_simp

theorem implicit_string_concat_witness:
  "\<exists>chunks rest. [7] = concat chunks \<and>
     [0xa0, 5, 4, 1, 7, 4, 0] = der_element (0x80000000 OR CBS_ASN1_CONSTRUCTED) (concat (map (der_element 4) chunks)) @ rest"
proof -
  let ?r = "CBS_get_asn1_implicit_string arena [0xa0, 5, 4, 1, 7, 4, 0] 0x80000000 4"
  have "?r = (Some ([7], False), snd ?r)" using implicit_ex_runs by (simp add: prod_eq_iff)
  from implicit_string_concat [OF arena_spec _ this] show ?thesis by (simp; blast)
qed

end
