(* ===== verification/Base64.thy ===== *)
theory Base64
  imports Mem
begin

text \<open>
  \<^verbatim>\<open>crypto/base64/base64.c\<close>: base64 encoding and decoding in constant time, of whole blocks and of
  streams. The constant-time primitives of \<^verbatim>\<open>crypto/internal.h\<close> are modelled with their masks.
  The theory relates the code to a reference encoder in the style of RFC 4648.
\<close>

section \<open>Model\<close>

subsection \<open>Constant-time primitives\<close>

definition constant_time_msb_w :: "u64 \<Rightarrow> u64" where
  "constant_time_msb_w a = 0 - drop_bit 63 a"

definition constant_time_is_zero_w :: "u64 \<Rightarrow> u64" where
  "constant_time_is_zero_w a = constant_time_msb_w (NOT a AND (a - 1))"

definition constant_time_eq_w :: "u64 \<Rightarrow> u64 \<Rightarrow> u64" where
  "constant_time_eq_w a b = constant_time_is_zero_w (a XOR b)"

definition constant_time_eq_8 :: "u64 \<Rightarrow> u64 \<Rightarrow> u8" where
  "constant_time_eq_8 a b = ucast (constant_time_eq_w a b)"

definition constant_time_select_w :: "u64 \<Rightarrow> u64 \<Rightarrow> u64 \<Rightarrow> u64" where
  "constant_time_select_w m a b = (m AND a) OR (NOT m AND b)"

definition constant_time_select_8 :: "u8 \<Rightarrow> u8 \<Rightarrow> u8 \<Rightarrow> u8" where
  "constant_time_select_8 m a b = ucast (constant_time_select_w (ucast m) (ucast a) (ucast b))"

definition constant_time_lt_args_8 :: "u8 \<Rightarrow> u8 \<Rightarrow> u8" where
  "constant_time_lt_args_8 a b = ucast (constant_time_msb_w (ucast a - ucast b))"

definition constant_time_in_range_8 :: "u8 \<Rightarrow> u8 \<Rightarrow> u8 \<Rightarrow> u8" where
  "constant_time_in_range_8 a lo hi = constant_time_lt_args_8 (a - lo) (hi - lo + 1)"

subsection \<open>Encoding\<close>

definition conv_bin2ascii :: "u8 \<Rightarrow> u8" where
  "conv_bin2ascii a =
     (let a = a AND 0x3f;
          ret = constant_time_select_8 (constant_time_eq_8 (ucast a) 62) 0x2b 0x2f;
          ret = constant_time_select_8 (constant_time_lt_args_8 a 62) (a - 52 + 0x30) ret;
          ret = constant_time_select_8 (constant_time_lt_args_8 a 52) (a - 26 + 0x61) ret
      in constant_time_select_8 (constant_time_lt_args_8 a 26) (a + 0x41) ret)"

text \<open>The argument and the result are \<open>size_t\<close> values; \<open>None\<close> is the return of zero.\<close>

definition EVP_EncodedLength :: "u64 \<Rightarrow> u64 option" where
  "EVP_EncodedLength len =
     (if len + 2 < len then None
      else let len = (len + 2) div 3 in
        if drop_bit 2 (push_bit 2 len) \<noteq> len then None
        else let len = push_bit 2 len in
          if len + 1 < len then None else Some (len + 1))"

record EVP_ENCODE_CTX =
  data_used :: nat
  data :: bytes
  eof_seen :: bool
  error_encountered :: bool

definition EVP_EncodeInit :: EVP_ENCODE_CTX where
  "EVP_EncodeInit = \<lparr>data_used = 0, data = replicate 48 0, eof_seen = False, error_encountered = False\<rparr>"

text \<open>
  The loop of \<open>EVP_EncodeBlock\<close>, with the bytes written to \<open>dst\<close> so far and \<open>ret\<close>. The block
  ends with a NUL that the returned length does not count.
\<close>

fun encode_loop :: "bytes \<Rightarrow> bytes \<Rightarrow> nat \<Rightarrow> bytes \<times> nat" where
  "encode_loop [] dst ret = (dst, ret)"
| "encode_loop (s0 # s1 # s2 # src) dst ret =
     (let l = push_bit 16 (ucast s0) OR push_bit 8 (ucast s1) OR ucast s2 :: u32
      in encode_loop src
           (dst @ [conv_bin2ascii (ucast (drop_bit 18 l)), conv_bin2ascii (ucast (drop_bit 12 l)),
                   conv_bin2ascii (ucast (drop_bit 6 l)), conv_bin2ascii (ucast l)]) (ret + 4))"
| "encode_loop [s0, s1] dst ret =
     (let l = push_bit 16 (ucast s0) OR push_bit 8 (ucast s1) :: u32
      in (dst @ [conv_bin2ascii (ucast (drop_bit 18 l)), conv_bin2ascii (ucast (drop_bit 12 l)),
                 conv_bin2ascii (ucast (drop_bit 6 l)), 0x3d], ret + 4))"
| "encode_loop [s0] dst ret =
     (let l = push_bit 16 (ucast s0) :: u32
      in (dst @ [conv_bin2ascii (ucast (drop_bit 18 l)), conv_bin2ascii (ucast (drop_bit 12 l)),
                 0x3d, 0x3d], ret + 4))"

definition EVP_EncodeBlock :: "bytes \<Rightarrow> bytes \<times> nat" where
  "EVP_EncodeBlock src = (case encode_loop src [] 0 of (dst, ret) \<Rightarrow> (dst @ [0], ret))"

text \<open>
  One full line: the encoding, a newline that replaces its NUL, and a new NUL behind the output
  pointer. \<open>out\<close> holds what precedes the pointer.
\<close>

definition encode_line :: "bytes \<Rightarrow> bytes \<Rightarrow> bytes \<times> nat" where
  "encode_line out src = (case EVP_EncodeBlock src of (dst, encoded) \<Rightarrow> (out @ take encoded dst @ [0xa], encoded))"

text \<open>
  The loop over full lines; the flag says whether the sum of the lengths wrapped around.
\<close>

function encode_lines :: "bytes \<Rightarrow> bytes \<Rightarrow> nat \<Rightarrow> bool \<times> bytes \<times> bytes \<times> nat" where
  "encode_lines inp out tot =
     (if length inp \<ge> 48 then
        (case encode_line out (take 48 inp) of (out, encoded) \<Rightarrow>
           if size_wrap (tot + encoded + 1) < tot then (True, drop 48 inp, out, tot)
           else encode_lines (drop 48 inp) out (size_wrap (tot + encoded + 1)))
      else (False, inp, out, tot))"
  by pat_completeness auto
termination
  by (relation "measure (\<lambda>(inp, _, _). length inp)") auto

declare encode_lines.simps [simp del]

text \<open>
  The result is \<open>*out_len\<close>, the bytes in front of the output pointer and the context. When
  anything is written a NUL follows it.
\<close>

definition EVP_EncodeUpdate :: "EVP_ENCODE_CTX \<Rightarrow> bytes \<Rightarrow> nat \<times> bytes \<times> EVP_ENCODE_CTX" where
  "EVP_EncodeUpdate ctx inp =
     (if length inp = 0 then (0, [], ctx)
      else if 48 - data_used ctx > length inp then
        (0, [], ctx\<lparr>data := mem_write (data ctx) (data_used ctx) inp, data_used := data_used ctx + length inp\<rparr>)
      else
        (let (inp, out, tot, ctx) =
           (if data_used ctx \<noteq> 0 then
              (let todo = 48 - data_used ctx;
                   ctx = ctx\<lparr>data := mem_write (data ctx) (data_used ctx) (take todo inp)\<rparr>;
                   (out, encoded) = encode_line [] (data ctx)
               in (drop todo inp, out, encoded + 1, ctx\<lparr>data_used := 0\<rparr>))
            else (inp, [], 0, ctx))
         in case encode_lines inp out tot of
              (True, _, out, _) \<Rightarrow> (0, out, ctx)
            | (False, inp, out, tot) \<Rightarrow>
                ((if tot > INT_MAX then 0 else tot), out,
                 ctx\<lparr>data := mem_write (data ctx) 0 inp, data_used := length inp\<rparr>)))"

definition EVP_EncodeFinal :: "EVP_ENCODE_CTX \<Rightarrow> nat \<times> bytes \<times> EVP_ENCODE_CTX" where
  "EVP_EncodeFinal ctx =
     (if data_used ctx = 0 then (0, [], ctx)
      else case encode_line [] (take (data_used ctx) (data ctx)) of
             (out, encoded) \<Rightarrow> (encoded + 1, out, ctx\<lparr>data_used := 0\<rparr>))"

subsection \<open>Decoding\<close>

definition EVP_DecodedLength :: "nat \<Rightarrow> nat option" where
  "EVP_DecodedLength len = (if len mod 4 \<noteq> 0 then None else Some (len div 4 * 3))"

definition EVP_DecodeInit :: EVP_ENCODE_CTX where
  "EVP_DecodeInit = \<lparr>data_used = 0, data = replicate 48 0, eof_seen = False, error_encountered = False\<rparr>"

definition base64_ascii_to_bin :: "u8 \<Rightarrow> u8" where
  "base64_ascii_to_bin a =
     (let is_upper = constant_time_in_range_8 a 0x41 0x5a;
          is_lower = constant_time_in_range_8 a 0x61 0x7a;
          is_digit = constant_time_in_range_8 a 0x30 0x39;
          is_plus = constant_time_eq_8 (ucast a) 0x2b;
          is_slash = constant_time_eq_8 (ucast a) 0x2f;
          is_equals = constant_time_eq_8 (ucast a) 0x3d;
          ret = 0xff;
          ret = constant_time_select_8 is_upper (a - 0x41) ret;
          ret = constant_time_select_8 is_lower (a - 0x61 + 26) ret;
          ret = constant_time_select_8 is_digit (a - 0x30 + 52) ret;
          ret = constant_time_select_8 is_plus 62 ret;
          ret = constant_time_select_8 is_slash 63 ret
      in constant_time_select_8 is_equals 0 ret)"

text \<open>The bytes that a quad of characters stands for.\<close>

definition base64_decode_quad :: "u8 \<Rightarrow> u8 \<Rightarrow> u8 \<Rightarrow> u8 \<Rightarrow> bytes option" where
  "base64_decode_quad in0 in1 in2 in3 =
     (let a = base64_ascii_to_bin in0; b = base64_ascii_to_bin in1;
          c = base64_ascii_to_bin in2; d = base64_ascii_to_bin in3
      in if a = 0xff \<or> b = 0xff \<or> c = 0xff \<or> d = 0xff then None
         else
           (let v = push_bit 18 (ucast a) OR push_bit 12 (ucast b) OR push_bit 6 (ucast c) OR ucast d :: u32;
                padding_pattern = (of_bool (in0 = 0x3d) * 8 + of_bool (in1 = 0x3d) * 4 +
                   of_bool (in2 = 0x3d) * 2 + of_bool (in3 = 0x3d) :: nat)
            in if padding_pattern = 0 then Some [ucast (drop_bit 16 v), ucast (drop_bit 8 v), ucast v]
               else if padding_pattern = 1 then Some [ucast (drop_bit 16 v), ucast (drop_bit 8 v)]
               else if padding_pattern = 3 then Some [ucast (drop_bit 16 v)]
               else None))"

definition is_space :: "u8 \<Rightarrow> bool" where
  "is_space c = (c = 0x20 \<or> c = 0x9 \<or> c = 0xd \<or> c = 0xa)"

text \<open>
  The loop of \<open>EVP_DecodeUpdate\<close>: the bytes written so far and the context; the flag is false
  when the loop returned with an error.
\<close>

definition decode_char :: "EVP_ENCODE_CTX \<Rightarrow> bytes \<Rightarrow> u8 \<Rightarrow> bool \<times> bytes \<times> EVP_ENCODE_CTX" where
  "decode_char ctx out c =
     (if is_space c then (True, out, ctx)
      else if eof_seen ctx then (False, out, ctx\<lparr>error_encountered := True\<rparr>)
      else
        (let ctx = ctx\<lparr>data := mem_write (data ctx) (data_used ctx) [c], data_used := data_used ctx + 1\<rparr>
         in if data_used ctx = 4 then
              (case base64_decode_quad (data ctx ! 0) (data ctx ! 1) (data ctx ! 2) (data ctx ! 3) of
                 None \<Rightarrow> (False, out, ctx\<lparr>error_encountered := True\<rparr>)
               | Some bs \<Rightarrow>
                   (True, out @ bs, ctx\<lparr>data_used := 0, eof_seen := (if length bs < 3 then True else eof_seen ctx)\<rparr>))
            else (True, out, ctx)))"

fun decode_loop :: "EVP_ENCODE_CTX \<Rightarrow> bytes \<Rightarrow> bytes \<Rightarrow> bool \<times> bytes \<times> EVP_ENCODE_CTX" where
  "decode_loop ctx out [] = (True, out, ctx)"
| "decode_loop ctx out (c # inp) =
     (case decode_char ctx out c of
        (False, out, ctx) \<Rightarrow> (False, out, ctx)
      | (True, out, ctx) \<Rightarrow> decode_loop ctx out inp)"

text \<open>The return value, \<open>*out_len\<close>, the bytes written and the context.\<close>

definition EVP_DecodeUpdate :: "EVP_ENCODE_CTX \<Rightarrow> bytes \<Rightarrow> int \<times> nat \<times> bytes \<times> EVP_ENCODE_CTX" where
  "EVP_DecodeUpdate ctx inp =
     (if error_encountered ctx then (-1, 0, [], ctx)
      else (case decode_loop ctx [] inp of
              (False, out, ctx) \<Rightarrow> (-1, 0, out, ctx)
            | (True, out, ctx) \<Rightarrow>
                if length out > INT_MAX then (-1, 0, out, ctx\<lparr>error_encountered := True\<rparr>)
                else ((if eof_seen ctx then 0 else 1), length out, out, ctx)))"

definition EVP_DecodeFinal :: "EVP_ENCODE_CTX \<Rightarrow> int" where
  "EVP_DecodeFinal ctx = (if error_encountered ctx \<or> data_used ctx \<noteq> 0 then -1 else 1)"

text \<open>The quads of \<open>EVP_DecodeBase64\<close>: only the last one may be padded.\<close>

fun decode_quads :: "bytes \<Rightarrow> bytes \<Rightarrow> bytes option" where
  "decode_quads out (a # b # c # d # inp) =
     (case base64_decode_quad a b c d of
        None \<Rightarrow> None
      | Some bs \<Rightarrow> if length bs \<noteq> 3 \<and> inp \<noteq> [] then None else decode_quads (out @ bs) inp)"
| "decode_quads out _ = Some out"

definition EVP_DecodeBase64 :: "nat \<Rightarrow> bytes \<Rightarrow> bytes option" where
  "EVP_DecodeBase64 max_out inp =
     (if length inp mod 4 \<noteq> 0 then None
      else (case EVP_DecodedLength (length inp) of
              None \<Rightarrow> None
            | Some max_len \<Rightarrow> if max_out < max_len then None else decode_quads [] inp))"

text \<open>The bytes of \<open>dst\<close>, whose number is returned; \<open>None\<close> is a return of \<open>-1\<close>.\<close>

definition pad3 :: "bytes \<Rightarrow> bytes" where
  "pad3 dst = (if length dst mod 3 = 0 then dst
               else if length dst mod 3 = 1 then dst @ [0, 0] else dst @ [0])"

definition EVP_DecodeBlock :: "bytes \<Rightarrow> bytes option" where
  "EVP_DecodeBlock src =
     (let src = dropWhile (\<lambda>c. c = 0x20 \<or> c = 0x9) src;
          src = rev (dropWhile is_space (rev src))
      in case EVP_DecodedLength (length src) of
           None \<Rightarrow> None
         | Some dst_len \<Rightarrow>
             if dst_len > INT_MAX then None else map_option pad3 (EVP_DecodeBase64 dst_len src))"

section \<open>Constant-time primitives compute what they should\<close>

lemma msb_u64: "drop_bit 63 (a :: u64) = (if 2 ^ 63 \<le> unat a then 1 else 0)"
proof (rule unat_eqI)
  have "unat a < 2 ^ 64" using unsigned_less [of a, where ?'a = nat] by simp
  then show "unat (drop_bit 63 a) = unat (if 2 ^ 63 \<le> unat a then 1 else 0 :: u64)"
    by (simp add: unat_drop_bit div_nat_eqI)
qed

lemma constant_time_msb_w_eq: "constant_time_msb_w a = (if 2 ^ 63 \<le> unat a then - 1 else 0)"
  by (simp add: constant_time_msb_w_def msb_u64)

lemma bit_63_iff: "bit (a :: u64) 63 \<longleftrightarrow> 2 ^ 63 \<le> unat a"
  using msb_u64 [of a] by (auto simp: bit_iff_odd_drop_bit)

lemma constant_time_is_zero_w_eq: "constant_time_is_zero_w a = (if a = 0 then - 1 else 0)"
proof (cases "a = 0")
  case False
  have "\<not> bit (NOT a AND (a - 1)) 63"
  proof
    assume b: "bit (NOT a AND (a - 1)) 63"
    then have "\<not> bit a 63" "bit (a - 1) 63" by (simp_all add: bit_and_iff bit_not_iff)
    moreover have "unat (a - 1) = unat a - 1" using False by (simp add: unat_minus_one)
    ultimately show False by (simp add: bit_63_iff)
  qed
  with False show ?thesis by (simp add: constant_time_is_zero_w_def constant_time_msb_w_eq bit_63_iff)
next
  case True
  have "constant_time_is_zero_w 0 = - 1" by code_simp
  then show ?thesis using True by simp
qed

lemma xor_zero_iff: "a XOR b = (0 :: u64) \<longleftrightarrow> a = b"
proof
  assume "a XOR b = 0"
  then have "a XOR (a XOR b) = a" by simp
  then show "a = b" by (simp flip: xor.assoc)
qed simp

lemma ucast_minus_1 [simp]: "(ucast (- 1 :: u64) :: u8) = - 1"
  by code_simp

lemma constant_time_eq_8_eq:
  fixes a b :: u8
  shows "constant_time_eq_8 (ucast a) (ucast b) = (if a = b then - 1 else 0)"
proof -
  have "(ucast a XOR ucast b = (0 :: u64)) \<longleftrightarrow> ucast a = (ucast b :: u64)"
    using xor_zero_iff by blast
  moreover have "(ucast a :: u64) = ucast b \<longleftrightarrow> a = b"
    using unat_less_u8 [of a] unat_less_u8 [of b]
    by (simp add: word_eq_iff_unsigned [where ?'a = nat] unat_ucast)
  ultimately show ?thesis by (simp add: constant_time_eq_8_def constant_time_eq_w_def constant_time_is_zero_w_eq)
qed

lemma constant_time_select_8_eq [simp]:
  "constant_time_select_8 (- 1) a b = a" "constant_time_select_8 0 a b = b"
  by (rule bit_word_eqI; simp add: constant_time_select_8_def constant_time_select_w_def bit_simps)+

lemma constant_time_lt_args_8_eq: "constant_time_lt_args_8 a b = (if a < b then - 1 else 0)"
proof -
  have u: "unat (ucast a :: u64) = unat a" "unat (ucast b :: u64) = unat b"
    using unat_less_u8 [of a] unat_less_u8 [of b] by (simp_all add: unat_ucast)
  have "2 ^ 63 \<le> unat (ucast a - ucast b :: u64) \<longleftrightarrow> a < b"
    using unat_less_u8 [of a] unat_less_u8 [of b]
    by (auto simp: unat_sub_if' u word_less_nat_alt word_le_nat_alt)
  then show ?thesis by (simp add: constant_time_lt_args_8_def constant_time_msb_w_eq)
qed

lemma constant_time_in_range_8_eq:
  assumes "lo \<le> hi" "hi < - 1"
  shows "constant_time_in_range_8 a lo hi = (if lo \<le> a \<and> a \<le> hi then - 1 else 0)"
proof -
  have "a - lo < hi - lo + 1 \<longleftrightarrow> lo \<le> a \<and> a \<le> hi"
    using assms by unat_arith
  then show ?thesis by (simp add: constant_time_in_range_8_def constant_time_lt_args_8_eq)
qed

section \<open>The alphabet\<close>

definition alphabet :: bytes where
  "alphabet = map byte ([65..<91] @ [97..<123] @ [48..<58] @ [43, 47])"

lemma conv_bin2ascii_eq [code]:
  "conv_bin2ascii a =
     (let a = a AND 0x3f in
      if a < 26 then a + 0x41 else if a < 52 then a - 26 + 0x61
      else if a < 62 then a - 52 + 0x30 else if a = 62 then 0x2b else 0x2f)"
  using constant_time_eq_8_eq [of "a AND 0x3f" 62]
  by (simp add: conv_bin2ascii_def constant_time_lt_args_8_eq Let_def)

lemma base64_ascii_to_bin_eq [code]:
  "base64_ascii_to_bin a =
     (if a = 0x3d then 0 else if a = 0x2f then 63 else if a = 0x2b then 62
      else if 0x30 \<le> a \<and> a \<le> 0x39 then a - 0x30 + 52 else if 0x61 \<le> a \<and> a \<le> 0x7a then a - 0x61 + 26
      else if 0x41 \<le> a \<and> a \<le> 0x5a then a - 0x41 else 0xff)"
  using constant_time_eq_8_eq [of a "0x2b"] constant_time_eq_8_eq [of a "0x2f"] constant_time_eq_8_eq [of a "0x3d"]
  by (simp add: base64_ascii_to_bin_def constant_time_in_range_8_eq)

lemma conv_bin2ascii_table: "map (\<lambda>n. conv_bin2ascii (byte n)) [0..<64] = alphabet"
  unfolding conv_bin2ascii_eq by code_simp

lemma ascii_to_bin_table: "map base64_ascii_to_bin alphabet = map byte [0..<64]"
  unfolding base64_ascii_to_bin_eq [abs_def] by code_simp

section \<open>Reference encoding\<close>

text \<open>Twenty-four bits as four characters of the alphabet; a short last group is padded.\<close>

definition sextet :: "nat \<Rightarrow> nat \<Rightarrow> u8" where
  "sextet n i = alphabet ! (n div 64 ^ i mod 64)"

fun base64 :: "bytes \<Rightarrow> bytes" where
  "base64 [] = []"
| "base64 (a # b # c # rest) =
     (let n = be_val [a, b, c] in [sextet n 3, sextet n 2, sextet n 1, sextet n 0] @ base64 rest)"
| "base64 [a, b] = (let n = be_val [a, b, 0] in [sextet n 3, sextet n 2, sextet n 1, 0x3d])"
| "base64 [a] = (let n = be_val [a, 0, 0] in [sextet n 3, sextet n 2, 0x3d, 0x3d])"

lemma length_alphabet [simp]: "length alphabet = 64"
  by (simp add: alphabet_def)

lemma length_base64: "length (base64 x) = 4 * ((length x + 2) div 3)"
  by (induction x rule: base64.induct) (simp_all add: Let_def, presburger)

lemma conv_bin2ascii_alphabet: "conv_bin2ascii x = alphabet ! (unat x mod 64)"
proof -
  let ?n = "unat x mod 64"
  have "x AND 0x3f = byte ?n"
    using unat_and_mask [of x 6] by (simp add: mask_eq_exp_minus_1 byte_eq_iff)
  moreover have "byte ?n AND 0x3f = byte ?n"
    using unat_and_mask [of "byte ?n" 6] by (simp add: mask_eq_exp_minus_1 byte_eq_iff)
  ultimately have "conv_bin2ascii x = conv_bin2ascii (byte ?n)" by (simp add: conv_bin2ascii_def)
  also have "\<dots> = map (\<lambda>n. conv_bin2ascii (byte n)) [0..<64] ! ?n" by simp
  finally show ?thesis by (simp only: conv_bin2ascii_table)
qed

lemma conv_sextet: "conv_bin2ascii (ucast (drop_bit (6 * i) (l :: u32))) = sextet (unat l) i"
proof -
  have "(64 :: nat) dvd 256" by simp
  then show ?thesis
    by (simp add: conv_bin2ascii_alphabet sextet_def unat_ucast unat_drop_bit power_mult mod_mod_cancel)
qed

lemmas conv_sextets =
  conv_sextet [of 3, simplified] conv_sextet [of 2, simplified] conv_sextet [of 1, simplified]
  conv_sextet [of 0, simplified]

lemma group_val:
  fixes a b c :: u8
  shows "unat (push_bit 16 (ucast a) OR push_bit 8 (ucast b) OR ucast c :: u32) = be_val [a, b, c]"
    and "unat (push_bit 16 (ucast a) OR push_bit 8 (ucast b) :: u32) = be_val [a, b, 0]"
    and "unat (push_bit 16 (ucast a) :: u32) = be_val [a, 0, 0]"
proof -
  have u: "unat (ucast x :: u32) = unat x" for x :: u8 using unat_less_u8 [of x] by (simp add: unat_ucast)
  note l = unat_less_u8 [of a] unat_less_u8 [of b] unat_less_u8 [of c]
  have bc: "unat (push_bit 8 (ucast b) OR ucast c :: u32) = unat b * 256 + unat c"
    using l unat_shift_or [of "ucast c :: u32" 8 "ucast b"] by (simp add: u)
  have b: "unat (push_bit 8 (ucast b) :: u32) = unat b * 256"
    using l by (simp add: unat_push_bit u)
  show "unat (push_bit 16 (ucast a) OR push_bit 8 (ucast b) OR ucast c :: u32) = be_val [a, b, c]"
    using l unat_shift_or [of "push_bit 8 (ucast b) OR ucast c :: u32" 16 "ucast a"]
    by (simp add: u bc be_val_Cons)
  show "unat (push_bit 16 (ucast a) OR push_bit 8 (ucast b) :: u32) = be_val [a, b, 0]"
    using l unat_shift_or [of "push_bit 8 (ucast b) :: u32" 16 "ucast a"]
    by (simp add: u b be_val_Cons)
  show "unat (push_bit 16 (ucast a) :: u32) = be_val [a, 0, 0]"
    using l by (simp add: unat_push_bit u be_val_Cons)
qed

lemma encode_loop_eq: "encode_loop src dst ret = (dst @ base64 src, ret + length (base64 src))"
proof (induction src dst ret rule: encode_loop.induct)
  case (2 s0 s1 s2 src dst ret)
  show ?case
    using 2 [OF refl]
    unfolding encode_loop.simps base64.simps Let_def conv_sextets(1-3) unfolding conv_sextets(4) group_val by simp
next
  case (3 s0 s1 dst ret)
  show ?case unfolding encode_loop.simps base64.simps Let_def conv_sextets(1-3) group_val by simp
next
  case (4 s0 dst ret)
  show ?case unfolding encode_loop.simps base64.simps Let_def conv_sextets(1-3) group_val by simp
qed simp

lemma EVP_EncodeBlock_eq: "EVP_EncodeBlock src = (base64 src @ [0], length (base64 src))"
  by (simp add: EVP_EncodeBlock_def encode_loop_eq)

section \<open>Decoding a quad\<close>

lemma alphabet_to_bin:
  assumes "i < 64"
  shows "base64_ascii_to_bin (alphabet ! i) = byte i" "alphabet ! i \<noteq> 0x3d" "\<not> is_space (alphabet ! i)"
proof -
  have "map base64_ascii_to_bin alphabet ! i = byte i" using assms by (simp add: ascii_to_bin_table)
  then show "base64_ascii_to_bin (alphabet ! i) = byte i" using assms by simp
  have "list_all (\<lambda>c. c \<noteq> 0x3d \<and> \<not> is_space c) alphabet" by code_simp
  then show "alphabet ! i \<noteq> 0x3d" "\<not> is_space (alphabet ! i)" using assms by (simp_all add: list_all_length)
qed

lemma quad_val:
  assumes "a < 64" "b < 64" "c < 64" "d < 64"
  shows "unat (push_bit 18 (ucast (byte a)) OR push_bit 12 (ucast (byte b)) OR push_bit 6 (ucast (byte c)) OR
     ucast (byte d) :: u32) = a * 2 ^ 18 + b * 2 ^ 12 + c * 2 ^ 6 + d"
proof -
  have u: "unat (ucast (byte x) :: u32) = x" if "x < 64" for x using that by (simp add: unat_ucast)
  have cd: "unat (push_bit 6 (ucast (byte c)) OR ucast (byte d) :: u32) = c * 2 ^ 6 + d"
    using assms unat_shift_or [of "ucast (byte d) :: u32" 6 "ucast (byte c)"] by (simp add: u)
  have bcd: "unat (push_bit 12 (ucast (byte b)) OR push_bit 6 (ucast (byte c)) OR ucast (byte d) :: u32) =
      b * 2 ^ 12 + c * 2 ^ 6 + d"
    using assms unat_shift_or [of "push_bit 6 (ucast (byte c)) OR ucast (byte d) :: u32" 12 "ucast (byte b)"]
    by (simp add: u cd)
  show ?thesis
    using assms unat_shift_or [of "push_bit 12 (ucast (byte b)) OR push_bit 6 (ucast (byte c)) OR ucast (byte d) :: u32"
        18 "ucast (byte a)"]
    by (simp add: u bcd)
qed

lemma sextet_split:
  fixes n :: nat
  assumes "n < 2 ^ 24"
  shows "n div 64 ^ 3 mod 64 * 2 ^ 18 + n div 64 ^ 2 mod 64 * 2 ^ 12 + n div 64 ^ 1 mod 64 * 2 ^ 6 + n div 64 ^ 0 mod 64 = n"
proof -
  have d: "n div 64 ^ 2 = n div 64 div 64" "n div 64 ^ 3 = n div 64 div 64 div 64"
    by (simp_all flip: div_mult2_eq)
  have "n div 64 div 64 div 64 < 64" using assms by (simp flip: div_mult2_eq add: less_mult_imp_div_less)
  then have t: "n div 64 div 64 div 64 mod 64 = n div 64 div 64 div 64" by simp
  have p: "(2 :: nat) ^ 18 = 262144" "(2 :: nat) ^ 12 = 4096" "(2 :: nat) ^ 6 = 64" "(64 :: nat) ^ 1 = 64"
    "(64 :: nat) ^ 0 = 1" by simp_all
  show ?thesis
    using div_mult_mod_eq [of n 64] div_mult_mod_eq [of "n div 64" 64] div_mult_mod_eq [of "n div 64 div 64" 64]
    unfolding d p t div_by_1 by linarith
qed

lemma sextet_props:
  "base64_ascii_to_bin (sextet n i) = byte (n div 64 ^ i mod 64)" "sextet n i \<noteq> 0x3d" "\<not> is_space (sextet n i)"
  by (simp_all add: sextet_def alphabet_to_bin)

lemma ascii_to_bin_pad: "base64_ascii_to_bin 0x3d = byte 0"
  by code_simp

lemma byte_not_ff: "i < 64 \<Longrightarrow> byte i \<noteq> 0xff"
  by (auto dest: arg_cong [where f = unat])

lemma bytes_of_24:
  assumes "unat (v :: u32) = be_val [a, b, c]"
  shows "[ucast (drop_bit 16 v), ucast (drop_bit 8 v), ucast v] = [a, b, c :: u8]"
proof -
  have u: "(ucast w :: u8) = byte (unat w)" for w :: u32
    by (simp add: byte_eq_iff unat_ucast)
  have "be_bytes 3 (be_val [a, b, c]) = [a, b, c]" using be_bytes_be_val [of "[a, b, c]"] by (simp add: numeral_3_eq_3)
  then show ?thesis
    by (simp add: u unat_drop_bit assms numeral_3_eq_3 flip: div_mult2_eq)
qed

lemma be_val_24: "be_val [a, b, c] < 2 ^ 24"
  using be_val_less [of "[a, b, c]"] by simp

lemma decode_quad_full:
  assumes "n = be_val [a, b, c]"
  shows "base64_decode_quad (sextet n 3) (sextet n 2) (sextet n 1) (sextet n 0) = Some [a, b, c]"
proof -
  have "n < 2 ^ 24" using assms be_val_24 by simp
  note v = bytes_of_24 [OF trans [OF quad_val [where a = "n div 64 ^ 3 mod 64" and b = "n div 64 ^ 2 mod 64"
        and c = "n div 64 ^ 1 mod 64" and d = "n div 64 ^ 0 mod 64"] trans [OF sextet_split [OF this] assms]]]
  show ?thesis
    unfolding base64_decode_quad_def sextet_props Let_def using v by (simp add: byte_not_ff sextet_props)
qed

text \<open>Padding stands for zero bits; the bits of the last group that it leaves are zero as well.\<close>

lemma low_sextets:
  "be_val [a, b, 0] div 64 ^ 0 mod 64 = 0" "be_val [a, 0, 0] div 64 ^ 0 mod 64 = 0" "be_val [a, 0, 0] div 64 ^ 1 mod 64 = 0"
  by (simp_all add: be_val_Cons)

lemma decode_quad_two:
  assumes "n = be_val [a, b, 0]"
  shows "base64_decode_quad (sextet n 3) (sextet n 2) (sextet n 1) 0x3d = Some [a, b]"
proof -
  have n: "n < 2 ^ 24" using assms be_val_24 by simp
  have z: "n div 64 ^ 0 mod 64 = 0" using assms low_sextets by simp
  note v = bytes_of_24 [OF trans [OF quad_val [where a = "n div 64 ^ 3 mod 64" and b = "n div 64 ^ 2 mod 64"
        and c = "n div 64 ^ 1 mod 64" and d = 0] trans [OF sextet_split [OF n, unfolded z] assms]]]
  show ?thesis
    unfolding base64_decode_quad_def sextet_props ascii_to_bin_pad Let_def using v
    by (simp add: byte_not_ff sextet_props)
qed

lemma decode_quad_one:
  assumes "n = be_val [a, 0, 0]"
  shows "base64_decode_quad (sextet n 3) (sextet n 2) 0x3d 0x3d = Some [a]"
proof -
  have n: "n < 2 ^ 24" using assms be_val_24 by simp
  have z: "n div 64 ^ 0 mod 64 = 0" "n div 64 ^ 1 mod 64 = 0" using assms low_sextets by simp_all
  note v = bytes_of_24 [OF trans [OF quad_val [where a = "n div 64 ^ 3 mod 64" and b = "n div 64 ^ 2 mod 64"
        and c = 0 and d = 0] trans [OF sextet_split [OF n, unfolded z] assms]]]
  show ?thesis
    unfolding base64_decode_quad_def sextet_props ascii_to_bin_pad Let_def using v
    by (simp add: byte_not_ff sextet_props)
qed

section \<open>Decoding whole blocks\<close>

lemma decode_quads_base64: "decode_quads out (base64 x) = Some (out @ x)"
proof (induction x arbitrary: out rule: base64.induct)
  case (2 a b c rest)
  show ?case
    using 2 [of _ "out @ [a, b, c]"] decode_quad_full [OF refl, of a b c] by (simp add: Let_def)
next
  case (3 a b)
  show ?case using decode_quad_two [OF refl, of a b] by (simp add: Let_def)
next
  case (4 a)
  show ?case using decode_quad_one [OF refl, of a] by (simp add: Let_def)
qed simp

lemma pad_not_space: "\<not> is_space 0x3d"
  by (simp add: is_space_def)

lemma base64_chars: "c \<in> set (base64 x) \<Longrightarrow> \<not> is_space c"
  by (induction x rule: base64.induct) (auto simp: Let_def sextet_props pad_not_space)

text \<open>
  C24. \<open>EVP_DecodeBase64\<close> inverts \<open>EVP_EncodeBlock\<close> on every input, whenever the output buffer
  has the size that \<open>EVP_DecodedLength\<close> asks for.
\<close>

theorem base64_block_roundtrip:
  assumes "EVP_EncodeBlock src = (dst, ret)" "EVP_DecodedLength ret = Some n" "n \<le> max_out"
  shows "EVP_DecodeBase64 max_out (take ret dst) = Some src"
  using assms
  by (auto simp: EVP_EncodeBlock_eq EVP_DecodeBase64_def EVP_DecodedLength_def decode_quads_base64 split: if_splits)

theorem base64_block_roundtrip_witness:
  "EVP_DecodeBase64 6 [0x46, 0x75, 0x32, 0x45, 0x41, 0x41, 0x3d, 0x3d] = Some [0x16, 0xed, 0x84, 0]"
proof -
  have "EVP_EncodeBlock [0x16, 0xed, 0x84, 0] = ([0x46, 0x75, 0x32, 0x45, 0x41, 0x41, 0x3d, 0x3d, 0], 8)"
    "EVP_DecodedLength 8 = Some 6" by code_simp+
  from base64_block_roundtrip [OF this] show ?thesis by simp
qed

text \<open>
  \<open>EVP_EncodedLength\<close> computes the exact size of the encoding with its final NUL, and fails
  exactly when that size is not a \<open>size_t\<close>.
\<close>

theorem EVP_EncodedLength_exact:
  "EVP_EncodedLength len =
     (if 4 * ((unat len + 2) div 3) + 1 < 2 ^ 64 then Some (of_nat (4 * ((unat len + 2) div 3) + 1)) else None)"
proof (cases "unat len + 2 < 2 ^ 64")
  case False
  have "unat len < 2 ^ 64" using unsigned_less [of len, where ?'a = nat] by simp
  then have "len + 2 < len" using False by (simp add: word_less_nat_alt unat_word_ariths mod_if)
  then show ?thesis using False by (simp add: EVP_EncodedLength_def div_le_mono)
next
  case True
  let ?q = "(unat len + 2) div 3"
  have u2: "unat (len + 2) = unat len + 2" using True by (simp add: unat_word_ariths)
  have q: "unat ((len + 2) div 3) = ?q" by (simp add: unat_div u2)
  have qb: "?q < 2 ^ 63" using True by simp
  have s: "unat (push_bit 2 ((len + 2) div 3)) = ?q * 4 mod 2 ^ 64" by (simp add: unat_push_bit q)
  show ?thesis
  proof (cases "?q * 4 < 2 ^ 64")
    case f: True
    then have e: "unat (push_bit 2 ((len + 2) div 3)) = ?q * 4" using s by simp
    have "drop_bit 2 (push_bit 2 ((len + 2) div 3)) = (len + 2) div 3"
      by (rule unat_eqI) (simp add: unat_drop_bit e q)
    moreover have "?q < 2 ^ 62" using f by simp
    moreover from this have "?q * 4 + 1 < 2 ^ 64" by simp
    moreover have "\<not> len + 2 < len" by (simp add: word_less_nat_alt u2)
    moreover have "\<not> push_bit 2 ((len + 2) div 3) + 1 < push_bit 2 ((len + 2) div 3)"
      "push_bit 2 ((len + 2) div 3) + 1 = of_nat (4 * ?q + 1)"
      using calculation(3) by (simp_all add: word_less_nat_alt unat_word_ariths e word_eq_iff_unsigned [where ?'a = nat] unat_of_nat)
    ultimately show ?thesis by (simp add: EVP_EncodedLength_def Let_def mult.commute add.commute)
  next
    case f: False
    have "unat (drop_bit 2 (push_bit 2 ((len + 2) div 3))) < ?q"
      using f by (simp add: unat_drop_bit s)
    then have "drop_bit 2 (push_bit 2 ((len + 2) div 3)) \<noteq> (len + 2) div 3" using q by auto
    then show ?thesis using f by (simp add: EVP_EncodedLength_def Let_def)
  qed
qed

section \<open>Encoding streams\<close>

text \<open>
  The reference: lines of 48 input bytes, each followed by a newline, and what remains.
\<close>

function enc_lines :: "bytes \<Rightarrow> bytes" where
  "enc_lines x = (if length x \<ge> 48 then base64 (take 48 x) @ [0xa] @ enc_lines (drop 48 x) else [])"
  by pat_completeness auto
termination by (relation "measure length") auto

declare enc_lines.simps [simp del]

definition enc_rest :: "bytes \<Rightarrow> bytes" where
  "enc_rest x = drop (length x div 48 * 48) x"

definition enc_all :: "bytes \<Rightarrow> bytes" where
  "enc_all x = enc_lines x @ (if enc_rest x = [] then [] else base64 (enc_rest x) @ [0xa])"

lemma enc_short [simp]: "length x < 48 \<Longrightarrow> enc_lines x = []" "length x < 48 \<Longrightarrow> enc_rest x = x"
  by (simp_all add: enc_lines.simps enc_rest_def)

lemma enc_line_step:
  assumes "length l = 48"
  shows "enc_lines (l @ x) = base64 l @ [0xa] @ enc_lines x" "enc_rest (l @ x) = enc_rest x"
  using assms by (simp_all add: enc_lines.simps [of "l @ x"] enc_rest_def div_add_self1)

lemma enc_append:
  "enc_lines (x @ y) = enc_lines x @ enc_lines (enc_rest x @ y) \<and> enc_rest (x @ y) = enc_rest (enc_rest x @ y)"
proof (induction x rule: enc_lines.induct)
  case (1 x)
  show ?case
  proof (cases "length x \<ge> 48")
    case True
    then have l: "length (take 48 x) = 48" by simp
    have x: "x @ y = take 48 x @ (drop 48 x @ y)" by simp
    have r: "enc_rest x = enc_rest (drop 48 x)" using enc_line_step(2) [OF l, of "drop 48 x"] by simp
    show ?thesis
      unfolding x enc_line_step [OF l] r using 1 [OF True] True by (simp add: enc_lines.simps [of x])
  qed simp
qed

lemma length_enc_rest: "length (enc_rest x) < 48"
  by (simp add: enc_rest_def)

lemma encode_line_eq: "encode_line out src = (out @ base64 src @ [0xa], length (base64 src))"
  by (simp add: encode_line_def EVP_EncodeBlock_eq)

lemma encode_lines_eq:
  "tot = length out \<Longrightarrow> length (out @ enc_lines inp) < 2 ^ 64 \<Longrightarrow>
   encode_lines inp out tot = (False, enc_rest inp, out @ enc_lines inp, length (out @ enc_lines inp))"
proof (induction inp out tot rule: encode_lines.induct)
  case (1 inp out tot)
  show ?case
  proof (cases "length inp \<ge> 48")
    case True
    then have l: "length (take 48 inp) = 48" by simp
    note step = enc_line_step [OF l, of "drop 48 inp", simplified]
    let ?line = "base64 (take 48 inp) @ [0xa]"
    have sz: "length ((out @ ?line) @ enc_lines (drop 48 inp)) < 2 ^ 64" using 1(3) by (simp add: step)
    then have w: "size_wrap (tot + length (base64 (take 48 inp)) + 1) = length (out @ ?line)"
      using 1(2) by simp
    have "encode_lines inp out tot = encode_lines (drop 48 inp) (out @ ?line) (length (out @ ?line))"
      using True w 1(2) by (subst encode_lines.simps) (simp add: encode_line_eq)
    also have "\<dots> = (False, enc_rest (drop 48 inp), (out @ ?line) @ enc_lines (drop 48 inp),
        length ((out @ ?line) @ enc_lines (drop 48 inp)))"
      using 1(1) [OF True encode_line_eq [symmetric]] sz w 1(2) by simp
    finally show ?thesis by (simp add: step)
  next
    case False
    then show ?thesis using 1(2) by (subst encode_lines.simps) simp
  qed
qed

text \<open>What the context holds after the input \<open>x\<close>: the bytes of the line that is not complete.\<close>

definition enc_inv :: "EVP_ENCODE_CTX \<Rightarrow> bytes \<Rightarrow> bool" where
  "enc_inv ctx x \<longleftrightarrow> length (data ctx) = 48 \<and> data_used ctx = length (enc_rest x) \<and>
     take (data_used ctx) (data ctx) = enc_rest x"

lemma EVP_EncodeInit_inv: "enc_inv EVP_EncodeInit []"
  by (simp add: enc_inv_def EVP_EncodeInit_def)

lemma take_mem_write_0: "length (mem_write buf 0 xs) = length buf \<Longrightarrow> take (length xs) (mem_write buf 0 xs) = xs"
  by (simp add: mem_write_def)

lemma EVP_EncodeUpdate_inv:
  assumes inv: "enc_inv ctx x" and sz: "length (enc_lines (enc_rest x @ inp)) \<le> INT_MAX"
  shows "\<exists>out ctx'. EVP_EncodeUpdate ctx inp = (length out, out, ctx') \<and> enc_inv ctx' (x @ inp) \<and>
     enc_lines (x @ inp) = enc_lines x @ out"
proof -
  let ?r = "enc_rest x"
  have d: "length (data ctx) = 48" "data_used ctx = length ?r" "take (length ?r) (data ctx) = ?r" "length ?r < 48"
    using inv length_enc_rest [of x] by (auto simp: enc_inv_def)
  have x: "enc_lines (x @ inp) = enc_lines x @ enc_lines (?r @ inp)" "enc_rest (x @ inp) = enc_rest (?r @ inp)"
    using enc_append [of x inp] by auto
  consider "inp = []" | "inp \<noteq> []" "48 - length ?r > length inp" | "inp \<noteq> []" "48 - length ?r \<le> length inp"
    by linarith
  then show ?thesis
  proof cases
    case 1
    then show ?thesis using inv by (simp add: EVP_EncodeUpdate_def)
  next
    case 2
    then have short: "length (?r @ inp) < 48" by simp
    have "take (length ?r + length inp) (mem_write (data ctx) (length ?r) inp) = ?r @ inp"
      using d by (simp add: mem_write_def)
    then show ?thesis
      using 2 d short by (simp add: EVP_EncodeUpdate_def x enc_inv_def)
  next
    case 3
    let ?todo = "48 - length ?r"
    let ?line = "?r @ take ?todo inp"
    have len: "length ?line = 48" using 3 d(4) by simp
    have whole: "mem_write (data ctx) (length ?r) (take ?todo inp) = ?line"
      using d 3 by (simp add: mem_write_def)
    have sz64: "length (enc_lines (?r @ inp)) < 2 ^ 64" using sz by (simp add: INT_MAX_def)
    have inp: "?r @ inp = ?line @ drop ?todo inp" by simp
    show ?thesis
    proof (cases "?r = []")
      case True
      have "encode_lines inp [] 0 = (False, enc_rest inp, enc_lines inp, length (enc_lines inp))"
        using encode_lines_eq [of 0 "[]" inp] sz64 True by simp
      then show ?thesis
        using 3 d True sz length_enc_rest [of inp]
        by (simp add: EVP_EncodeUpdate_def x enc_inv_def take_mem_write_0 not_less)
    next
      case False
      have "encode_lines (drop ?todo inp) (base64 ?line @ [0xa]) (length (base64 ?line @ [0xa])) =
          (False, enc_rest (?r @ inp), enc_lines (?r @ inp), length (enc_lines (?r @ inp)))"
        using encode_lines_eq [OF refl, of "base64 ?line @ [0xa]" "drop ?todo inp"] sz64
        unfolding inp enc_line_step [OF len] by simp
      then show ?thesis
        using 3 d False sz length_enc_rest [of "?r @ inp"]
        by (simp add: EVP_EncodeUpdate_def x enc_inv_def take_mem_write_0 whole encode_line_eq not_less Let_def
            len [simplified])
    qed
  qed
qed

lemma length_enc_lines: "length (enc_lines x) = 65 * (length x div 48)"
proof (induction x rule: enc_lines.induct)
  case (1 x)
  show ?case
  proof (cases "length x \<ge> 48")
    case True
    then have "length x div 48 = Suc ((length x - 48) div 48)" by (simp add: le_div_geq)
    then show ?thesis
      using True 1 [OF True] by (simp add: enc_lines.simps [of x] length_base64)
  qed simp
qed

text \<open>A client that feeds the chunks of its input one by one.\<close>

primrec encode_session :: "EVP_ENCODE_CTX \<Rightarrow> bytes list \<Rightarrow> bytes" where
  "encode_session ctx [] = (case EVP_EncodeFinal ctx of (n, out, _) \<Rightarrow> take n out)"
| "encode_session ctx (c # cs) =
     (case EVP_EncodeUpdate ctx c of (n, out, ctx) \<Rightarrow> take n out @ encode_session ctx cs)"

lemma encode_session_eq:
  "enc_inv ctx x \<Longrightarrow> \<forall>c \<in> set cs. length c \<le> 2 ^ 30 \<Longrightarrow>
   enc_lines x @ encode_session ctx cs = enc_all (x @ concat cs)"
proof (induction cs arbitrary: ctx x)
  case Nil
  then show ?case
    by (auto simp: EVP_EncodeFinal_def enc_all_def encode_line_eq enc_inv_def)
next
  case (Cons c cs)
  have "(length (enc_rest x) + length c) div 48 \<le> (2 ^ 30 + 48) div 48"
    using Cons.prems(2) length_enc_rest [of x] by (intro div_le_mono) simp
  then have "length (enc_lines (enc_rest x @ c)) \<le> INT_MAX"
    by (simp add: length_enc_lines INT_MAX_def)
  from EVP_EncodeUpdate_inv [OF Cons.prems(1) this] obtain out ctx' where
    u: "EVP_EncodeUpdate ctx c = (length out, out, ctx')" "enc_inv ctx' (x @ c)"
    "enc_lines (x @ c) = enc_lines x @ out" by blast
  show ?case
    using Cons.IH [OF u(2)] Cons.prems(2) u(1,3) by simp
qed

text \<open>
  C25. However the input is cut into pieces, \<open>EVP_EncodeUpdate\<close> and \<open>EVP_EncodeFinal\<close> emit the
  base64 lines of the whole input: 64 characters and a newline for every 48 bytes.
\<close>

theorem base64_stream_encode:
  assumes "\<forall>c \<in> set cs. length c \<le> 2 ^ 30"
  shows "encode_session EVP_EncodeInit cs = enc_all (concat cs)"
  using encode_session_eq [OF EVP_EncodeInit_inv assms] by simp

theorem base64_stream_encode_witness:
  "encode_session EVP_EncodeInit [[0x16], [], [0xed, 0x84, 0]] = [0x46, 0x75, 0x32, 0x45, 0x41, 0x41, 0x3d, 0x3d, 0xa]"
proof -
  have "enc_all [0x16, 0xed, 0x84, 0] = [0x46, 0x75, 0x32, 0x45, 0x41, 0x41, 0x3d, 0x3d, 0xa]" by code_simp
  then show ?thesis using base64_stream_encode [of "[[0x16], [], [0xed, 0x84, 0]]"] by simp
qed

section \<open>Decoding streams\<close>

lemma decode_char_out: "decode_char ctx out c = (ok, out', ctx') \<Longrightarrow>
   \<exists>o1. out' = out @ o1 \<and> (\<forall>out2. decode_char ctx out2 c = (ok, out2 @ o1, ctx'))"
  by (auto simp: decode_char_def Let_def split: if_splits option.splits)

lemma decode_loop_append:
  "decode_loop ctx out (xs @ ys) =
     (case decode_loop ctx out xs of
        (False, out, ctx) \<Rightarrow> (False, out, ctx)
      | (True, out, ctx) \<Rightarrow> decode_loop ctx out ys)"
  by (induction xs arbitrary: ctx out) (auto split: prod.split bool.split)

lemma decode_loop_out:
  "decode_loop ctx out inp = (case decode_loop ctx [] inp of (ok, o1, ctx') \<Rightarrow> (ok, out @ o1, ctx'))"
proof (induction inp arbitrary: ctx out)
  case (Cons c inp)
  obtain ok o1 ctx1 where d: "decode_char ctx [] c = (ok, o1, ctx1)" by (metis prod_cases3)
  from decode_char_out [OF this] have "decode_char ctx out c = (ok, out @ o1, ctx1)" by auto
  with d show ?case
    using Cons [of ctx1 "out @ o1"] Cons [of ctx1 o1] by (cases ok) (auto split: prod.split)
qed simp

lemma decode_loop_spaces: "decode_loop ctx out inp = decode_loop ctx out (filter (\<lambda>c. \<not> is_space c) inp)"
  by (induction inp arbitrary: ctx out) (auto simp: decode_char_def split: prod.split bool.split)

lemma decode_loop_error:
  "decode_loop ctx out inp = (True, out', ctx') \<Longrightarrow> error_encountered ctx' = error_encountered ctx"
proof (induction inp arbitrary: ctx out)
  case (Cons c inp)
  obtain ok o1 ctx1 where d: "decode_char ctx out c = (ok, o1, ctx1)" by (metis prod_cases3)
  then have "ok \<longrightarrow> error_encountered ctx1 = error_encountered ctx"
    by (auto simp: decode_char_def Let_def split: if_splits option.splits)
  with d Cons show ?case by (cases ok) auto
qed simp

text \<open>A context between quads.\<close>

definition aligned :: "EVP_ENCODE_CTX \<Rightarrow> bool" where
  "aligned ctx \<longleftrightarrow> length (data ctx) = 48 \<and> data_used ctx = 0"

lemma decode_loop_quad:
  assumes ctx: "aligned ctx" "\<not> eof_seen ctx"
    and sp: "\<not> is_space a" "\<not> is_space b" "\<not> is_space c" "\<not> is_space d"
    and q: "base64_decode_quad a b c d = Some bs"
  shows "\<exists>ctx'. decode_loop ctx out (a # b # c # d # inp) = decode_loop ctx' (out @ bs) inp \<and> aligned ctx' \<and>
     eof_seen ctx' = (length bs < 3)"
proof -
  obtain d0 d1 d2 d3 ds where data: "data ctx = d0 # d1 # d2 # d3 # ds" "length ds = 44"
    using ctx(1) by (auto simp: aligned_def length_Suc_conv eval_nat_numeral(2) numeral_eq_Suc)
  show ?thesis
    using ctx sp q data(2)
    by (intro exI [of _ "ctx\<lparr>data := a # b # c # d # ds, data_used := 0, eof_seen := length bs < 3\<rparr>"])
       (simp add: aligned_def decode_char_def mem_write_def data Let_def numeral_2_eq_2 numeral_3_eq_3)
qed

lemma decode_loop_base64:
  "aligned ctx \<Longrightarrow> \<not> eof_seen ctx \<Longrightarrow> \<exists>ctx'. decode_loop ctx out (base64 x) = (True, out @ x, ctx') \<and> aligned ctx'"
proof (induction x arbitrary: ctx out rule: base64.induct)
  case (2 a b c rest)
  let ?n = "be_val [a, b, c]"
  obtain ctx' where "decode_loop ctx out (base64 (a # b # c # rest)) = decode_loop ctx' (out @ [a, b, c]) (base64 rest)"
    "aligned ctx'" "\<not> eof_seen ctx'"
    using decode_loop_quad [OF "2.prems" _ _ _ _ decode_quad_full [OF refl, of a b c], of out "base64 rest"]
    by (auto simp: Let_def sextet_props)
  then show ?case using "2.IH" [OF refl, of ctx' "out @ [a, b, c]"] by simp
next
  case (3 a b)
  then show ?case
    using decode_loop_quad [OF "3.prems" _ _ _ _ decode_quad_two [OF refl, of a b], of out "[]"]
    by (auto simp: Let_def sextet_props pad_not_space)
next
  case (4 a)
  then show ?case
    using decode_loop_quad [OF "4.prems" _ _ _ _ decode_quad_one [OF refl, of a], of out "[]"]
    by (auto simp: Let_def sextet_props pad_not_space)
qed simp

text \<open>A client that feeds chunks of characters and gives up on the first error.\<close>

primrec decode_session :: "EVP_ENCODE_CTX \<Rightarrow> bytes list \<Rightarrow> bytes option" where
  "decode_session ctx [] = (if EVP_DecodeFinal ctx = 1 then Some [] else None)"
| "decode_session ctx (c # cs) =
     (case EVP_DecodeUpdate ctx c of (ret, n, out, ctx) \<Rightarrow>
        if ret = -1 then None else map_option (\<lambda>rest. take n out @ rest) (decode_session ctx cs))"

lemma decode_session_eq:
  "decode_loop ctx [] (concat cs) = (True, out, ctx') \<Longrightarrow> \<not> error_encountered ctx \<Longrightarrow> length out \<le> INT_MAX \<Longrightarrow>
   decode_session ctx cs = (if data_used ctx' = 0 then Some out else None)"
proof (induction cs arbitrary: ctx out)
  case Nil
  then show ?case by (simp add: EVP_DecodeFinal_def)
next
  case (Cons c cs)
  obtain ok o1 ctx1 where d: "decode_loop ctx [] c = (ok, o1, ctx1)" by (metis prod_cases3)
  then have r: "ok" "decode_loop ctx1 o1 (concat cs) = (True, out, ctx')"
    using Cons.prems(1) by (cases ok; simp add: decode_loop_append)+
  obtain ok2 o2 ctx2 where "decode_loop ctx1 [] (concat cs) = (ok2, o2, ctx2)" by (metis prod_cases3)
  with r(2) decode_loop_out [of ctx1 o1 "concat cs"] have d2: "decode_loop ctx1 [] (concat cs) = (True, o2, ctx')"
    "out = o1 @ o2" by auto
  have e: "\<not> error_encountered ctx1" using decode_loop_error [of ctx "[]" c] d r(1) Cons.prems(2) by simp
  show ?case
    using Cons.IH [OF d2(1) e] Cons.prems(2,3) d r(1) d2(2)
    by (simp add: EVP_DecodeUpdate_def not_less)
qed

text \<open>
  C26. Streams are decoded the same way however they are cut and wherever white space is put:
  if the characters, without white space, are the base64 encoding of \<open>x\<close>, then
  \<open>EVP_DecodeUpdate\<close> and \<open>EVP_DecodeFinal\<close> succeed and return \<open>x\<close>.
\<close>

theorem base64_stream_decode:
  assumes "filter (\<lambda>c. \<not> is_space c) (concat cs) = base64 x" "length x \<le> INT_MAX"
  shows "decode_session EVP_DecodeInit cs = Some x"
proof -
  have "aligned EVP_DecodeInit" "\<not> eof_seen EVP_DecodeInit" "\<not> error_encountered EVP_DecodeInit"
    by (simp_all add: aligned_def EVP_DecodeInit_def)
  with decode_loop_base64 [of EVP_DecodeInit "[]" x] assms(1)
  obtain ctx' where "decode_loop EVP_DecodeInit [] (concat cs) = (True, x, ctx')" "aligned ctx'"
    using decode_loop_spaces [of EVP_DecodeInit "[]" "concat cs"] by auto
  with decode_session_eq [of EVP_DecodeInit cs x ctx'] assms(2) show ?thesis
    by (simp add: aligned_def EVP_DecodeInit_def)
qed

theorem base64_stream_decode_witness:
  "decode_session EVP_DecodeInit [[0x46, 0x75, 0x20], [0xa], [0x32, 0x45, 0x41, 0x41, 0x3d, 0x9, 0x3d, 0xa]] =
     Some [0x16, 0xed, 0x84, 0]"
proof -
  have "filter (\<lambda>c. \<not> is_space c) (concat [[0x46, 0x75, 0x20], [0xa], [0x32, 0x45, 0x41, 0x41, 0x3d, 0x9, 0x3d, 0xa]]) =
      base64 [0x16, 0xed, 0x84, 0]" by code_simp
  from base64_stream_decode [OF this] show ?thesis by (simp add: INT_MAX_def)
qed

end
