(* ===== verification/Buf.thy ===== *)
theory Buf
  imports Mem
begin

text \<open>
  \<^verbatim>\<open>crypto/buf/buf.c\<close>: growable byte buffers over the allocator, and the string helpers that it
  re-exports. The data pointer is null or the payload of a block, whose size is \<open>max\<close>.
\<close>

section \<open>Model\<close>

record BUF_MEM =
  buf_length :: nat
  buf_data :: "bytes option"
  buf_max :: nat

definition sizeof_BUF_MEM :: nat where
  "sizeof_BUF_MEM = 24"

definition BUF_MEM_new :: "(nat \<Rightarrow> bytes option) \<Rightarrow> BUF_MEM option" where
  "BUF_MEM_new malloc =
     (case OPENSSL_malloc malloc sizeof_BUF_MEM of
        None \<Rightarrow> None
      | Some _ \<Rightarrow> Some \<lparr>buf_length = 0, buf_data = None, buf_max = 0\<rparr>)"

text \<open>The blocks handed back: the data, as \<open>OPENSSL_free\<close> leaves it.\<close>

definition BUF_MEM_free :: "BUF_MEM option \<Rightarrow> bytes option" where
  "BUF_MEM_free buf =
     (case buf of None \<Rightarrow> None | Some buf \<Rightarrow> OPENSSL_free (map_option mk_block (buf_data buf)))"

definition BUF_MEM_reserve :: "(nat \<Rightarrow> bytes option) \<Rightarrow> BUF_MEM \<Rightarrow> nat \<Rightarrow> bool \<times> BUF_MEM" where
  "BUF_MEM_reserve malloc buf cap =
     (if buf_max buf \<ge> cap then (True, buf)
      else let n = size_wrap (cap + 3) in
        if n < cap then (False, buf)
        else let n = n div 3; alloc_size = size_wrap (n * 4) in
          if alloc_size div 4 \<noteq> n then (False, buf)
          else (case OPENSSL_realloc malloc (map_option mk_block (buf_data buf)) alloc_size of
                  (None, _) \<Rightarrow> (False, buf)
                | (Some new_buf, _) \<Rightarrow> (True, buf\<lparr>buf_data := Some (payload new_buf), buf_max := alloc_size\<rparr>)))"

definition BUF_MEM_grow :: "(nat \<Rightarrow> bytes option) \<Rightarrow> BUF_MEM \<Rightarrow> nat \<Rightarrow> nat \<times> BUF_MEM" where
  "BUF_MEM_grow malloc buf len =
     (case BUF_MEM_reserve malloc buf len of
        (False, buf) \<Rightarrow> (0, buf)
      | (True, buf) \<Rightarrow>
          (let buf = (if buf_length buf < len
                      then buf\<lparr>buf_data := map_option (\<lambda>d. mem_write d (buf_length buf)
                             (replicate (len - buf_length buf) 0)) (buf_data buf)\<rparr>
                      else buf)
           in (len, buf\<lparr>buf_length := len\<rparr>)))"

definition BUF_MEM_grow_clean :: "(nat \<Rightarrow> bytes option) \<Rightarrow> BUF_MEM \<Rightarrow> nat \<Rightarrow> nat \<times> BUF_MEM" where
  "BUF_MEM_grow_clean malloc buf len = BUF_MEM_grow malloc buf len"

definition BUF_MEM_append :: "(nat \<Rightarrow> bytes option) \<Rightarrow> BUF_MEM \<Rightarrow> bytes \<Rightarrow> bool \<times> BUF_MEM" where
  "BUF_MEM_append malloc buf inp =
     (let len = length inp in
      if len = 0 then (True, buf)
      else let new_len = size_wrap (buf_length buf + len) in
        if new_len < len then (False, buf)
        else (case BUF_MEM_reserve malloc buf new_len of
                (False, buf) \<Rightarrow> (False, buf)
              | (True, buf) \<Rightarrow>
                  (True, buf\<lparr>buf_data := map_option (\<lambda>d. mem_write d (buf_length buf) inp) (buf_data buf),
                             buf_length := new_len\<rparr>)))"

definition BUF_strdup :: "(nat \<Rightarrow> bytes option) \<Rightarrow> bytes option \<Rightarrow> bytes option" where
  "BUF_strdup malloc s = OPENSSL_strdup malloc s"

definition BUF_strnlen :: "bytes \<Rightarrow> nat \<Rightarrow> nat" where
  "BUF_strnlen s max_len = OPENSSL_strnlen s max_len"

definition BUF_strndup :: "(nat \<Rightarrow> bytes option) \<Rightarrow> bytes option \<Rightarrow> nat \<Rightarrow> bytes option" where
  "BUF_strndup malloc s sz = OPENSSL_strndup malloc s sz"

definition BUF_strlcpy :: "bytes \<Rightarrow> bytes \<Rightarrow> nat \<Rightarrow> nat \<times> bytes" where
  "BUF_strlcpy dst src dst_size = OPENSSL_strlcpy dst src dst_size"

definition BUF_strlcat :: "bytes \<Rightarrow> bytes \<Rightarrow> nat \<Rightarrow> nat \<times> bytes" where
  "BUF_strlcat dst src dst_size = OPENSSL_strlcat dst src dst_size"

definition BUF_memdup :: "(nat \<Rightarrow> bytes option) \<Rightarrow> bytes \<Rightarrow> nat \<Rightarrow> bytes option" where
  "BUF_memdup malloc d sz = OPENSSL_memdup malloc d sz"

section \<open>The interface of a sink for bytes\<close>

text \<open>A call for each string, also after a failed one; the result is the list of what the calls return.\<close>

primrec app_all :: "('s \<Rightarrow> bytes \<Rightarrow> bool \<times> 's) \<Rightarrow> 's \<Rightarrow> bytes list \<Rightarrow> bool list \<times> 's" where
  "app_all app s [] = ([], s)"
| "app_all app s (x # xs) = (case app s x of (ok, s) \<Rightarrow> case app_all app s xs of (oks, s) \<Rightarrow> (ok # oks, s))"

definition accepted :: "bool list \<Rightarrow> bytes list \<Rightarrow> bytes" where
  "accepted oks xs = concat (map snd (filter fst (zip oks xs)))"

locale sink =
  fixes app :: "'s \<Rightarrow> bytes \<Rightarrow> bool \<times> 's" and inv :: "'s \<Rightarrow> bool" and contents :: "'s \<Rightarrow> bytes"
  assumes app_law: "inv s \<Longrightarrow> length (contents s) + length x \<le> PTRDIFF_MAX \<Longrightarrow> app s x = (ok, s') \<Longrightarrow>
    inv s' \<and> contents s' = contents s @ (if ok then x else [])"
begin

lemma app_all_law:
  "inv s \<Longrightarrow> length (contents s @ concat xs) \<le> PTRDIFF_MAX \<Longrightarrow> app_all app s xs = (oks, s') \<Longrightarrow>
   inv s' \<and> length oks = length xs \<and> contents s' = contents s @ accepted oks xs"
proof (induction xs arbitrary: s oks)
  case (Cons x xs)
  obtain ok1 s1 where a: "app s x = (ok1, s1)" by fastforce
  obtain oks2 where r: "app_all app s1 xs = (oks2, s')" "oks = ok1 # oks2"
    using Cons.prems(3) a by (auto split: prod.splits)
  have l: "inv s1 \<and> contents s1 = contents s @ (if ok1 then x else [])"
    using app_law [OF Cons.prems(1) _ a] Cons.prems(2) by simp
  show ?case using Cons.IH [OF conjunct1 [OF l] _ r(1)] l Cons.prems(2) r(2) by (simp add: accepted_def)
qed (simp add: accepted_def)

end

text \<open>A sink that takes every string while it holds at most \<open>room\<close> bytes.\<close>

locale live_sink = sink +
  fixes room :: nat
  assumes app_live: "inv s \<Longrightarrow> length (contents s) + length x \<le> room \<Longrightarrow> fst (app s x)"
    and room_max: "room \<le> PTRDIFF_MAX"
begin

lemma app_all_live:
  "inv s \<Longrightarrow> length (contents s @ concat xs) \<le> room \<Longrightarrow> app_all app s xs = (oks, s') \<Longrightarrow> list_all id oks"
proof (induction xs arbitrary: s oks)
  case (Cons x xs)
  obtain ok1 s1 where a: "app s x = (ok1, s1)" by fastforce
  obtain oks2 where r: "app_all app s1 xs = (oks2, s')" "oks = ok1 # oks2"
    using Cons.prems(3) a by (auto split: prod.splits)
  have ok1: ok1 using app_live [OF Cons.prems(1), of x] Cons.prems(2) a by simp
  then have "inv s1 \<and> contents s1 = contents s @ x"
    using app_law [OF Cons.prems(1) _ a] Cons.prems(2) room_max by simp
  then show ?case using Cons.IH [OF _ _ r(1)] Cons.prems(2) r(2) ok1 by simp
qed simp

end

section \<open>Buffers are sinks\<close>

definition buf_inv :: "BUF_MEM \<Rightarrow> bool" where
  "buf_inv b \<longleftrightarrow> (case buf_data b of None \<Rightarrow> buf_max b = 0 | Some d \<Rightarrow> length d = buf_max b) \<and>
     buf_length b \<le> buf_max b"

definition buf_contents :: "BUF_MEM \<Rightarrow> bytes" where
  "buf_contents b = (case buf_data b of None \<Rightarrow> [] | Some d \<Rightarrow> take (buf_length b) d)"

lemma length_buf_contents: "buf_inv b \<Longrightarrow> length (buf_contents b) = buf_length b"
  by (auto simp: buf_inv_def buf_contents_def split: option.splits)

lemma reserve_size:
  assumes "cap \<le> PTRDIFF_MAX"
  shows "size_wrap (cap + 3) = cap + 3" "size_wrap ((cap + 3) div 3 * 4) = (cap + 3) div 3 * 4"
    "cap < (cap + 3) div 3 * 4" "(cap + 3) div 3 * 4 + 8 < 2 ^ 64"
proof -
  have "(cap + 3) div 3 \<le> (PTRDIFF_MAX + 3) div 3" using assms by (intro div_le_mono) simp
  then show "(cap + 3) div 3 * 4 + 8 < 2 ^ 64" "size_wrap ((cap + 3) div 3 * 4) = (cap + 3) div 3 * 4"
    by (simp_all add: PTRDIFF_MAX_def)
  show "size_wrap (cap + 3) = cap + 3" using assms by (simp add: PTRDIFF_MAX_def)
  show "cap < (cap + 3) div 3 * 4" by simp
qed

lemma BUF_MEM_reserve_law:
  assumes m: "malloc_spec malloc" and b: "buf_inv b" "cap \<le> PTRDIFF_MAX"
    and r: "BUF_MEM_reserve malloc b cap = (ok, b')"
  shows "buf_inv b' \<and> buf_contents b' = buf_contents b \<and> buf_length b' = buf_length b \<and> (ok \<longrightarrow> cap \<le> buf_max b') \<and>
     (\<not> ok \<longrightarrow> b' = b)"
proof (cases "buf_max b \<ge> cap")
  case True
  then show ?thesis using r b by (auto simp: BUF_MEM_reserve_def)
next
  case False
  note sz = reserve_size [OF b(2)]
  let ?n = "(cap + 3) div 3 * 4"
  obtain res old where re: "OPENSSL_realloc malloc (map_option mk_block (buf_data b)) ?n = (res, old)" by fastforce
  have step: "(ok, b') = (case res of None \<Rightarrow> (False, b) | Some nb \<Rightarrow> (True, b\<lparr>buf_data := Some (payload nb), buf_max := ?n\<rparr>))"
    using r False sz(3) by (simp add: BUF_MEM_reserve_def Let_def sz re split: option.splits)
  show ?thesis
  proof (cases res)
    case (Some nb)
    have "length (payload nb) = ?n \<and> take (buf_length b) (payload nb) = buf_contents b"
    proof (cases "buf_data b")
      case None
      then have "OPENSSL_malloc malloc ?n = Some nb" using re Some by (simp add: OPENSSL_realloc_def)
      from OPENSSL_malloc_Some [OF m sz(4) this] None b show ?thesis
        by (simp add: payload_def OPENSSL_MALLOC_PREFIX_def buf_inv_def buf_contents_def)
    next
      case d: (Some d)
      then have len: "length d = buf_max b" using b by (simp add: buf_inv_def)
      have "OPENSSL_realloc malloc (Some (mk_block d)) ?n = (Some nb, old)" using re d Some by simp
      from OPENSSL_realloc_grow [OF m _ sz(4) this] len False sz(3)
      have "length (payload nb) = ?n" "take (length d) (payload nb) = d" by simp_all
      moreover have "take (buf_length b) (payload nb) = take (buf_length b) (take (length d) (payload nb))"
        using b len by (simp add: buf_inv_def min_absorb1)
      ultimately show ?thesis using d by (simp add: buf_contents_def)
    qed
    then show ?thesis
      using step Some b False sz(3) by (auto simp: buf_inv_def buf_contents_def)
  qed (use step b in auto)
qed

lemma BUF_MEM_append_law:
  assumes m: "malloc_spec malloc" and b: "buf_inv b" "length (buf_contents b) + length x \<le> PTRDIFF_MAX"
    and r: "BUF_MEM_append malloc b x = (ok, b')"
  shows "buf_inv b' \<and> buf_contents b' = buf_contents b @ (if ok then x else [])"
proof (cases "x = []")
  case True
  then show ?thesis using r b by (auto simp: BUF_MEM_append_def)
next
  case False
  let ?n = "buf_length b + length x"
  have n: "?n \<le> PTRDIFF_MAX" "size_wrap ?n = ?n"
    using b length_buf_contents [OF b(1)] by (simp_all add: PTRDIFF_MAX_def)
  obtain ok1 b1 where re: "BUF_MEM_reserve malloc b ?n = (ok1, b1)" by fastforce
  note l = BUF_MEM_reserve_law [OF m b(1) n(1) re]
  show ?thesis
  proof (cases ok1)
    case True
    then obtain d where d: "buf_data b1 = Some d" "length d = buf_max b1" "?n \<le> buf_max b1"
      using l False by (cases "buf_data b1") (auto simp: buf_inv_def)
    have "b' = b1\<lparr>buf_data := Some (mem_write d (buf_length b) x), buf_length := ?n\<rparr>" "ok"
      using r False n(2) re True d l by (simp_all add: BUF_MEM_append_def Let_def)
    moreover have "take ?n (mem_write d (buf_length b) x) = buf_contents b @ x"
    proof -
      have "take (buf_length b) d = buf_contents b" using d l by (auto simp: buf_contents_def)
      then show ?thesis using d by (simp add: take_mem_write)
    qed
    ultimately show ?thesis using d by (simp add: buf_inv_def buf_contents_def)
  next
    case f: False
    then show ?thesis using r False n(2) re l by (auto simp: BUF_MEM_append_def Let_def)
  qed
qed

interpretation buf_sink: sink "BUF_MEM_append malloc" "\<lambda>b. malloc_spec malloc \<and> buf_inv b" buf_contents
  for malloc
  by unfold_locales (use BUF_MEM_append_law in blast)

text \<open>With an allocator that has memory, appending succeeds up to \<open>2 ^ 62\<close> bytes.\<close>

lemma OPENSSL_realloc_live:
  assumes "\<forall>n \<le> PTRDIFF_MAX. malloc n \<noteq> None" "n + 8 \<le> PTRDIFF_MAX"
  shows "fst (OPENSSL_realloc malloc p n) \<noteq> None"
proof -
  have "malloc (n + 8) \<noteq> None" "n + 8 < 2 ^ 64" using assms by (simp_all add: PTRDIFF_MAX_def)
  then show ?thesis
    by (auto simp: OPENSSL_realloc_def OPENSSL_malloc_def OPENSSL_MALLOC_PREFIX_def Let_def split: option.split)
qed

lemma BUF_MEM_append_live:
  assumes "\<forall>n \<le> PTRDIFF_MAX. malloc n \<noteq> None" "buf_inv b" "length (buf_contents b) + length x \<le> 2 ^ 62"
  shows "fst (BUF_MEM_append malloc b x)"
proof -
  let ?n = "buf_length b + length x"
  have n: "?n \<le> 2 ^ 62" using assms(3) length_buf_contents [OF assms(2)] by simp
  then have cap: "?n \<le> PTRDIFF_MAX" by (simp add: PTRDIFF_MAX_def)
  note sz = reserve_size [OF cap]
  have "(?n + 3) div 3 \<le> (2 ^ 62 + 3) div 3" by (rule div_le_mono) (use n in simp)
  then have "(?n + 3) div 3 * 4 + 8 \<le> PTRDIFF_MAX" by (simp add: PTRDIFF_MAX_def)
  from OPENSSL_realloc_live [OF assms(1) this, of "map_option mk_block (buf_data b)"]
  have "fst (BUF_MEM_reserve malloc b ?n)"
    using sz(3) by (auto simp: BUF_MEM_reserve_def Let_def sz split: option.split prod.split)
  then show ?thesis using n by (auto simp: BUF_MEM_append_def Let_def split: prod.split bool.split)
qed

interpretation live_buf_sink: live_sink "BUF_MEM_append malloc"
  "\<lambda>b. malloc_spec malloc \<and> (\<forall>n \<le> PTRDIFF_MAX. malloc n \<noteq> None) \<and> buf_inv b" buf_contents "2 ^ 62"
  for malloc
  by unfold_locales (use BUF_MEM_append_law BUF_MEM_append_live in \<open>blast | simp add: PTRDIFF_MAX_def\<close>)+

section \<open>Properties\<close>

text \<open>
  C27. A buffer is an append-only byte string. After any sequence of \<open>BUF_MEM_append\<close> calls on a new buffer,
  whatever reallocations they take and however many of them fail, it holds exactly the strings of the
  calls that returned one, in their order: a failed call changes nothing. With memory to be had, no call
  fails up to \<open>2 ^ 62\<close> bytes.
\<close>

theorem BUF_MEM_appends:
  assumes "malloc_spec malloc" "BUF_MEM_new malloc = Some b" "length (concat xs) \<le> PTRDIFF_MAX"
    and "app_all (BUF_MEM_append malloc) b xs = (oks, b')"
  shows "buf_inv b' \<and> length oks = length xs \<and> buf_contents b' = accepted oks xs \<and>
     ((\<forall>n \<le> PTRDIFF_MAX. malloc n \<noteq> None) \<and> length (concat xs) \<le> 2 ^ 62 \<longrightarrow> list_all id oks)"
proof -
  have b: "buf_inv b" "buf_contents b = []"
    using assms(2) by (auto simp: BUF_MEM_new_def buf_inv_def buf_contents_def split: option.splits)
  then show ?thesis
    using buf_sink.app_all_law [of malloc b xs oks b'] live_buf_sink.app_all_live [of malloc b xs oks b'] assms(1,3,4) by simp
qed

definition buf_ex :: "bool list \<times> BUF_MEM" where
  "buf_ex = app_all (BUF_MEM_append (\<lambda>n. if n \<le> 40 then Some (replicate n 0xa5) else None))
     \<lparr>buf_length = 0, buf_data = None, buf_max = 0\<rparr> [[1, 2, 3, 4], [], [5], replicate 30 6, [7]]"

lemma buf_ex_runs: "fst buf_ex = [True, True, True, False, True]"
  by code_simp

theorem BUF_MEM_appends_witness:
  "buf_inv (snd buf_ex) \<and> buf_contents (snd buf_ex) = [1, 2, 3, 4, 5, 7]"
proof -
  let ?m = "\<lambda>n. if n \<le> 40 then Some (replicate n 0xa5) else None"
  let ?xs = "[[1, 2, 3, 4], [], [5], replicate 30 6, [7]] :: bytes list"
  have m: "malloc_spec ?m" by (simp add: malloc_spec_def PTRDIFF_MAX_def)
  have new: "BUF_MEM_new ?m = Some \<lparr>buf_length = 0, buf_data = None, buf_max = 0\<rparr>" by code_simp
  have "length (concat ?xs) \<le> PTRDIFF_MAX" by (simp add: PTRDIFF_MAX_def)
  from BUF_MEM_appends [OF m new this, unfolded buf_ex_def [symmetric], of "fst buf_ex" "snd buf_ex"]
  have "buf_inv (snd buf_ex)" "buf_contents (snd buf_ex) = accepted (fst buf_ex) ?xs" by simp_all
  then show ?thesis unfolding buf_ex_runs by (simp add: accepted_def)
qed

text \<open>
  \<open>BUF_MEM_grow\<close> keeps what the buffer holds and fills the new part with zeros; shrinking
  truncates. It returns zero, and changes nothing, when it cannot get the memory.
\<close>

theorem BUF_MEM_grow_zero_fills:
  assumes "malloc_spec malloc" "buf_inv b" "0 < len" "len \<le> PTRDIFF_MAX" "BUF_MEM_grow malloc b len = (ret, b')"
  shows "buf_inv b' \<and>
     (ret = len \<and> buf_contents b' = take len (buf_contents b) @ replicate (len - buf_length b) 0 \<or> ret = 0 \<and> b' = b)"
proof -
  obtain ok b1 where re: "BUF_MEM_reserve malloc b len = (ok, b1)" by fastforce
  note l = BUF_MEM_reserve_law [OF assms(1,2,4) re]
  show ?thesis
  proof (cases ok)
    case True
    then obtain d where d: "buf_data b1 = Some d" "length d = buf_max b1" "len \<le> buf_max b1"
      using l assms(3) by (cases "buf_data b1") (auto simp: buf_inv_def)
    have c: "buf_contents b = take (buf_length b) d" using d l by (auto simp: buf_contents_def)
    show ?thesis
    proof (cases "buf_length b < len")
      case t: True
      have "take len (mem_write d (buf_length b) (replicate (len - buf_length b) 0)) =
          take (buf_length b) d @ replicate (len - buf_length b) 0"
        using take_mem_write [of "buf_length b" "replicate (len - buf_length b) 0" d] t d by simp
      moreover have "b' = b1\<lparr>buf_data := Some (mem_write d (buf_length b) (replicate (len - buf_length b) 0)),
          buf_length := len\<rparr>" "ret = len"
        using assms(5) re True d(1) l t by (auto simp: BUF_MEM_grow_def Let_def)
      moreover have "take len (buf_contents b) = buf_contents b" using t length_buf_contents [OF assms(2)] by simp
      ultimately show ?thesis using d t c by (simp add: buf_inv_def buf_contents_def [of "BUF_MEM.buf_length_update _ _"])
    next
      case f: False
      then have "b' = b1\<lparr>buf_length := len\<rparr>" "ret = len"
        using assms(5) re True d(1) l by (auto simp: BUF_MEM_grow_def Let_def)
      then show ?thesis
        using d f c by (simp add: buf_inv_def buf_contents_def [of "BUF_MEM.buf_length_update _ _"] min_absorb1)
    qed
  next
    case False
    then show ?thesis using assms(5) re l by (auto simp: BUF_MEM_grow_def)
  qed
qed

theorem BUF_MEM_grow_zero_fills_witness:
  "\<exists>b'. BUF_MEM_grow (\<lambda>n. if n \<le> 40 then Some (replicate n 0xa5) else None)
     \<lparr>buf_length = 2, buf_data = Some [1, 2, 3], buf_max = 3\<rparr> 4 = (4, b') \<and> buf_contents b' = [1, 2, 0, 0]"
proof -
  let ?m = "\<lambda>n. if n \<le> 40 then Some (replicate n 0xa5) else None"
  let ?b = "\<lparr>buf_length = 2, buf_data = Some [1, 2, 3 :: u8], buf_max = 3\<rparr>"
  let ?r = "BUF_MEM_grow ?m ?b 4"
  have m: "malloc_spec ?m" by (simp add: malloc_spec_def PTRDIFF_MAX_def)
  have g: "fst ?r = 4" by code_simp
  have "buf_inv ?b" by (simp add: buf_inv_def)
  moreover have r: "?r = (4, snd ?r)" using g by (simp add: prod_eq_iff)
  ultimately have "buf_contents (snd ?r) = take 4 (buf_contents ?b) @ replicate (4 - buf_length ?b) 0"
    using BUF_MEM_grow_zero_fills [OF m _ _ _ r] by (simp add: PTRDIFF_MAX_def)
  then have "buf_contents (snd ?r) = [1, 2, 0, 0]" by (simp add: buf_contents_def numeral_eq_Suc)
  with r show ?thesis by blast
qed

end
