(* ===== verification/Stack.thy ===== *)
theory Stack
  imports Mem "HOL-Library.Multiset"
begin

text \<open>
  \<^verbatim>\<open>crypto/stack/stack.c\<close>: growable arrays of pointers with an optional comparison function.
  Pointers are 64-bit values, zero being \<open>NULL\<close>; so is the comparison function, which the
  callers hand to \<open>call_cmp_func\<close>. The array lives in a block of the allocator. The state of a
  pointer to a stack is \<open>None\<close> for \<open>NULL\<close>.
\<close>

section \<open>Model\<close>

type_synonym ptr = u64
type_synonym cmp_caller = "ptr \<Rightarrow> ptr \<Rightarrow> ptr \<Rightarrow> int"

text \<open>The bytes of an array of pointers, and the pointers in a block of bytes.\<close>

definition bytes_of_ptrs :: "ptr list \<Rightarrow> bytes" where
  "bytes_of_ptrs ps = concat (map (\<lambda>p. le_bytes 8 (unat p)) ps)"

function ptrs_of :: "bytes \<Rightarrow> ptr list" where
  "ptrs_of bs = (if length bs < 8 then [] else of_nat (le_val (take 8 bs)) # ptrs_of (drop 8 bs))"
  by pat_completeness auto
termination by (relation "measure length") auto

declare ptrs_of.simps [simp del]

definition malloc_ptrs :: "(nat \<Rightarrow> bytes option) \<Rightarrow> nat \<Rightarrow> ptr list option" where
  "malloc_ptrs malloc sz = map_option (\<lambda>blk. ptrs_of (payload blk)) (OPENSSL_malloc malloc sz)"

definition realloc_ptrs :: "(nat \<Rightarrow> bytes option) \<Rightarrow> ptr list \<Rightarrow> nat \<Rightarrow> ptr list option" where
  "realloc_ptrs malloc ps sz =
     map_option (\<lambda>blk. ptrs_of (payload blk)) (fst (OPENSSL_realloc malloc (Some (mk_block (bytes_of_ptrs ps))) sz))"

record stack_st =
  num :: nat
  data :: "ptr list"
  sorted :: bool
  num_alloc :: nat
  comp :: ptr

definition kMinSize :: nat where
  "kMinSize = 4"

definition sizeof_STACK :: nat where
  "sizeof_STACK = 40"

definition sk_new :: "(nat \<Rightarrow> bytes option) \<Rightarrow> ptr \<Rightarrow> stack_st option" where
  "sk_new malloc cmp =
     (case OPENSSL_malloc malloc sizeof_STACK of
        None \<Rightarrow> None
      | Some _ \<Rightarrow>
          (case malloc_ptrs malloc (8 * kMinSize) of
             None \<Rightarrow> None
           | Some d \<Rightarrow> Some \<lparr>num = 0, data = mem_write d 0 (replicate kMinSize 0), sorted = False,
                              num_alloc = kMinSize, comp = cmp\<rparr>))"

definition sk_new_null :: "(nat \<Rightarrow> bytes option) \<Rightarrow> stack_st option" where
  "sk_new_null malloc = sk_new malloc 0"

definition sk_num :: "stack_st option \<Rightarrow> nat" where
  "sk_num s = (case s of None \<Rightarrow> 0 | Some sk \<Rightarrow> num sk)"

definition sk_zero :: "stack_st option \<Rightarrow> stack_st option" where
  "sk_zero s =
     (case s of
        None \<Rightarrow> None
      | Some sk \<Rightarrow>
          if num sk = 0 then Some sk
          else Some (sk\<lparr>data := mem_write (data sk) 0 (replicate (num sk) 0), num := 0, sorted := False\<rparr>))"

definition sk_value :: "stack_st option \<Rightarrow> nat \<Rightarrow> ptr" where
  "sk_value s i =
     (case s of None \<Rightarrow> 0 | Some sk \<Rightarrow> if i \<ge> num sk then 0 else data sk ! i)"

definition sk_set :: "stack_st option \<Rightarrow> nat \<Rightarrow> ptr \<Rightarrow> ptr \<times> stack_st option" where
  "sk_set s i v =
     (case s of
        None \<Rightarrow> (0, None)
      | Some sk \<Rightarrow> if i \<ge> num sk then (0, Some sk) else (v, Some (sk\<lparr>data := (data sk)[i := v]\<rparr>)))"

text \<open>The blocks that are freed are gone; what remains of a call is the pointers passed to \<open>free_func\<close>.\<close>

definition sk_free :: "stack_st option \<Rightarrow> stack_st option" where
  "sk_free s = None"

definition sk_pop_free_ex :: "stack_st option \<Rightarrow> ptr list \<times> stack_st option" where
  "sk_pop_free_ex s =
     (case s of
        None \<Rightarrow> ([], None)
      | Some sk \<Rightarrow> (filter (\<lambda>p. p \<noteq> 0) (map (\<lambda>i. data sk ! i) [0..<num sk]), sk_free (Some sk)))"

definition sk_pop_free :: "stack_st option \<Rightarrow> ptr list \<times> stack_st option" where
  "sk_pop_free s = sk_pop_free_ex s"

text \<open>The size of the array after it was enlarged, \<open>None\<close> when both attempts overflow.\<close>

definition grown_size :: "nat \<Rightarrow> (nat \<times> nat) option" where
  "grown_size alloc =
     (let new_alloc = size_wrap (alloc * 2); alloc_size = size_wrap (new_alloc * 8);
          (new_alloc, alloc_size) =
            (if new_alloc < alloc \<or> alloc_size div 8 \<noteq> new_alloc
             then (size_wrap (alloc + 1), size_wrap (size_wrap (alloc + 1) * 8))
             else (new_alloc, alloc_size))
      in if new_alloc < alloc \<or> alloc_size div 8 \<noteq> new_alloc then None else Some (new_alloc, alloc_size))"

definition sk_insert :: "(nat \<Rightarrow> bytes option) \<Rightarrow> stack_st option \<Rightarrow> ptr \<Rightarrow> nat \<Rightarrow> nat \<times> stack_st option" where
  "sk_insert malloc s p pos =
     (case s of
        None \<Rightarrow> (0, None)
      | Some sk \<Rightarrow>
          (case (if num_alloc sk \<le> num sk + 1
                 then (case grown_size (num_alloc sk) of
                         None \<Rightarrow> None
                       | Some (new_alloc, alloc_size) \<Rightarrow>
                           map_option (\<lambda>d. sk\<lparr>data := d, num_alloc := new_alloc\<rparr>) (realloc_ptrs malloc (data sk) alloc_size))
                 else Some sk) of
             None \<Rightarrow> (0, Some sk)
           | Some sk \<Rightarrow>
               (let d = (if pos \<ge> num sk then (data sk)[num sk := p]
                         else (mem_write (data sk) (pos + 1) (take (num sk - pos) (drop pos (data sk))))
                                [pos := p])
                in (num sk + 1, Some (sk\<lparr>data := d, num := num sk + 1, sorted := False\<rparr>)))))"

definition sk_delete :: "stack_st option \<Rightarrow> nat \<Rightarrow> ptr \<times> stack_st option" where
  "sk_delete s pos =
     (case s of
        None \<Rightarrow> (0, None)
      | Some sk \<Rightarrow>
          if pos \<ge> num sk then (0, Some sk)
          else
            (let ret = data sk ! pos;
                 d = (if pos \<noteq> num sk - 1
                      then mem_write (data sk) pos (take (num sk - pos - 1) (drop (pos + 1) (data sk)))
                      else data sk)
             in (ret, Some (sk\<lparr>data := d, num := num sk - 1\<rparr>))))"

text \<open>The first index, from \<open>i\<close> on, whose element satisfies a test.\<close>

fun first_index :: "('a \<Rightarrow> bool) \<Rightarrow> 'a list \<Rightarrow> nat \<Rightarrow> nat option" where
  "first_index P [] i = None"
| "first_index P (x # xs) i = (if P x then Some i else first_index P xs (i + 1))"

definition sk_delete_ptr :: "stack_st option \<Rightarrow> ptr \<Rightarrow> ptr \<times> stack_st option" where
  "sk_delete_ptr s p =
     (case s of
        None \<Rightarrow> (0, None)
      | Some sk \<Rightarrow>
          (case first_index (\<lambda>e. e = p) (take (num sk) (data sk)) 0 of
             None \<Rightarrow> (0, Some sk)
           | Some i \<Rightarrow> sk_delete (Some sk) i))"

definition sk_is_sorted :: "stack_st option \<Rightarrow> bool" where
  "sk_is_sorted s = (case s of None \<Rightarrow> True | Some sk \<Rightarrow> sorted sk)"

text \<open>The binary search of \<open>sk_find\<close>.\<close>

function bsearch :: "('a \<Rightarrow> 'a \<Rightarrow> int) \<Rightarrow> 'a list \<Rightarrow> 'a \<Rightarrow> nat \<Rightarrow> nat \<Rightarrow> nat option" where
  "bsearch cmp d p lo hi =
     (if lo < hi then
        (let mid = lo + (hi - lo - 1) div 2; r = cmp p (d ! mid) in
         if r > 0 then bsearch cmp d p (mid + 1) hi
         else if r < 0 then bsearch cmp d p lo mid
         else if hi - lo = 1 then Some mid
         else bsearch cmp d p lo (mid + 1))
      else None)"
  by pat_completeness auto
termination
  by (relation "measure (\<lambda>(_, _, _, lo, hi). hi - lo)") auto

declare bsearch.simps [simp del]

definition sk_find :: "cmp_caller \<Rightarrow> stack_st option \<Rightarrow> ptr \<Rightarrow> nat option" where
  "sk_find call_cmp s p =
     (case s of
        None \<Rightarrow> None
      | Some sk \<Rightarrow>
          if comp sk = 0 then first_index (\<lambda>e. e = p) (take (num sk) (data sk)) 0
          else if p = 0 then None
          else if \<not> sk_is_sorted (Some sk)
          then first_index (\<lambda>e. call_cmp (comp sk) p e = 0) (take (num sk) (data sk)) 0
          else bsearch (call_cmp (comp sk)) (data sk) p 0 (num sk))"

definition sk_shift :: "stack_st option \<Rightarrow> ptr \<times> stack_st option" where
  "sk_shift s =
     (case s of None \<Rightarrow> (0, None) | Some sk \<Rightarrow> if num sk = 0 then (0, Some sk) else sk_delete (Some sk) 0)"

definition sk_push :: "(nat \<Rightarrow> bytes option) \<Rightarrow> stack_st \<Rightarrow> ptr \<Rightarrow> nat \<times> stack_st option" where
  "sk_push malloc sk p = sk_insert malloc (Some sk) p (num sk)"

definition sk_pop :: "stack_st option \<Rightarrow> ptr \<times> stack_st option" where
  "sk_pop s =
     (case s of None \<Rightarrow> (0, None) | Some sk \<Rightarrow> if num sk = 0 then (0, Some sk) else sk_delete (Some sk) (num sk - 1))"

definition sk_dup :: "(nat \<Rightarrow> bytes option) \<Rightarrow> stack_st option \<Rightarrow> stack_st option" where
  "sk_dup malloc s =
     (case s of
        None \<Rightarrow> None
      | Some sk \<Rightarrow>
          (case sk_new malloc (comp sk) of
             None \<Rightarrow> None
           | Some ret \<Rightarrow>
               (case realloc_ptrs malloc (data ret) (size_wrap (8 * num_alloc sk)) of
                  None \<Rightarrow> None
                | Some d \<Rightarrow>
                    Some (ret\<lparr>data := mem_write d 0 (take (num sk) (data sk)), num := num sk, sorted := sorted sk,
                              num_alloc := num_alloc sk, comp := comp sk\<rparr>))))"

text \<open>\<open>qsort\<close> of the C library, which may put elements that compare equal in any order, is a parameter.\<close>

type_synonym qsort_fn = "(ptr \<Rightarrow> ptr \<Rightarrow> int) \<Rightarrow> ptr list \<Rightarrow> ptr list"

definition sk_sort :: "qsort_fn \<Rightarrow> cmp_caller \<Rightarrow> stack_st option \<Rightarrow> stack_st option" where
  "sk_sort qsort call_cmp s =
     (case s of
        None \<Rightarrow> None
      | Some sk \<Rightarrow>
          if comp sk = 0 \<or> sorted sk then Some sk
          else
            (let sk = (if num sk \<ge> 2
                       then sk\<lparr>data := mem_write (data sk) 0 (qsort (call_cmp (comp sk)) (take (num sk) (data sk)))\<rparr>
                       else sk)
             in Some (sk\<lparr>sorted := True\<rparr>)))"

definition sk_set_cmp_func :: "stack_st \<Rightarrow> ptr \<Rightarrow> ptr \<times> stack_st" where
  "sk_set_cmp_func sk c =
     (let old = comp sk;
          sk = (if comp sk \<noteq> c then sk\<lparr>sorted := False\<rparr> else sk)
      in (old, sk\<lparr>comp := c\<rparr>))"

text \<open>
  \<open>sk_deep_copy\<close>: \<open>copy i p\<close> is what the \<open>i\<close>th call of \<open>copy_func\<close> returns for \<open>p\<close>. The loop yields
  the pointers it frees when a copy fails (\<open>Inl\<close>), or the finished array.
\<close>

function deep_copy_loop :: "(nat \<Rightarrow> ptr \<Rightarrow> ptr) \<Rightarrow> nat \<Rightarrow> ptr list \<Rightarrow> nat \<Rightarrow> ptr list + ptr list" where
  "deep_copy_loop copy n d i =
     (if i < n then
        (if d ! i = 0 then deep_copy_loop copy n d (i + 1)
         else let c = copy i (d ! i); d = d[i := c] in
           if c = 0 then Inl (filter (\<lambda>p. p \<noteq> 0) (take i d))
           else deep_copy_loop copy n d (i + 1))
      else Inr d)"
  by pat_completeness auto
termination
  by (relation "measure (\<lambda>(_, n, _, i). n - i)") auto

declare deep_copy_loop.simps [simp del]

definition sk_deep_copy ::
    "(nat \<Rightarrow> bytes option) \<Rightarrow> (nat \<Rightarrow> ptr \<Rightarrow> ptr) \<Rightarrow> stack_st option \<Rightarrow> stack_st option \<times> ptr list" where
  "sk_deep_copy malloc copy s =
     (case sk_dup malloc s of
        None \<Rightarrow> (None, [])
      | Some ret \<Rightarrow>
          (case deep_copy_loop copy (num ret) (data ret) 0 of
             Inl freed \<Rightarrow> (sk_free (Some ret), freed)
           | Inr d \<Rightarrow> (Some (ret\<lparr>data := d\<rparr>), [])))"

section \<open>Arrays of pointers in memory\<close>

lemma length_bytes_of_ptrs [simp]: "length (bytes_of_ptrs ps) = 8 * length ps"
  by (induction ps) (simp_all add: bytes_of_ptrs_def)

lemma ptrs_of_bytes: "ptrs_of (bytes_of_ptrs ps @ bs) = ps @ ptrs_of bs"
proof (induction ps)
  case (Cons p ps)
  have "unat p mod 256 ^ 8 = unat p" using unsigned_less [of p, where ?'a = nat] by simp
  then show ?case
    using Cons by (subst ptrs_of.simps) (simp add: bytes_of_ptrs_def le_val_le_bytes)
qed (simp add: bytes_of_ptrs_def)

lemma length_ptrs_of [simp]: "length (ptrs_of bs) = length bs div 8"
proof (induction bs rule: ptrs_of.induct)
  case (1 bs)
  then show ?case by (subst ptrs_of.simps) (simp add: le_div_geq)
qed

lemma malloc_ptrs_Some:
  assumes "malloc_spec malloc" "8 * n + 8 < 2 ^ 64" "malloc_ptrs malloc (8 * n) = Some d"
  shows "length d = n" "8 * n + 8 \<le> PTRDIFF_MAX"
  using assms OPENSSL_malloc_Some [OF assms(1,2)]
  by (auto simp: malloc_ptrs_def payload_def OPENSSL_MALLOC_PREFIX_def)

lemma realloc_ptrs_Some:
  assumes "malloc_spec malloc" "length ps \<le> n" "8 * n + 8 < 2 ^ 64" "realloc_ptrs malloc ps (8 * n) = Some d"
  shows "length d = n" "take (length ps) d = ps" "8 * n + 8 \<le> PTRDIFF_MAX"
proof -
  obtain blk old where re: "OPENSSL_realloc malloc (Some (mk_block (bytes_of_ptrs ps))) (8 * n) = (Some blk, old)"
    and d: "d = ptrs_of (payload blk)"
    using assms(4) by (auto simp: realloc_ptrs_def) (metis prod.collapse)
  note g = OPENSSL_realloc_grow [OF assms(1) _ assms(3) re]
  have len: "length (bytes_of_ptrs ps) \<le> 8 * n" using assms(2) by simp
  show "length d = n" "8 * n + 8 \<le> PTRDIFF_MAX" using g(1,3) [OF len] by (simp_all add: d)
  have "payload blk = bytes_of_ptrs ps @ drop (length (bytes_of_ptrs ps)) (payload blk)"
    using g(2) [OF len] by (metis append_take_drop_id)
  then have "d = ps @ ptrs_of (drop (length (bytes_of_ptrs ps)) (payload blk))"
    using ptrs_of_bytes d by metis
  then show "take (length ps) d = ps" by simp
qed

section \<open>A stack as a list\<close>

definition sk_list :: "stack_st \<Rightarrow> ptr list" where
  "sk_list sk = take (num sk) (data sk)"

definition sk_inv :: "stack_st \<Rightarrow> bool" where
  "sk_inv sk \<longleftrightarrow> length (data sk) = num_alloc sk \<and> num sk < num_alloc sk \<and> 8 * num_alloc sk + 8 \<le> PTRDIFF_MAX"

lemma length_sk_list: "sk_inv sk \<Longrightarrow> length (sk_list sk) = num sk"
  by (simp add: sk_inv_def sk_list_def)

lemma sk_new_ok:
  assumes "malloc_spec malloc" "sk_new malloc c = Some sk"
  shows "sk_inv sk" "sk_list sk = []" "comp sk = c" "\<not> sorted sk" "length (data sk) = kMinSize"
proof -
  obtain d where d: "malloc_ptrs malloc (8 * kMinSize) = Some d"
    and sk: "sk = \<lparr>num = 0, data = mem_write d 0 (replicate kMinSize 0), sorted = False, num_alloc = kMinSize, comp = c\<rparr>"
    using assms(2) by (auto simp: sk_new_def split: option.splits)
  have "length d = kMinSize" by (rule malloc_ptrs_Some(1) [OF assms(1) _ d]) (simp add: kMinSize_def)
  then show "sk_inv sk" "sk_list sk = []" "comp sk = c" "\<not> sorted sk" "length (data sk) = kMinSize"
    by (simp_all add: sk sk_inv_def sk_list_def kMinSize_def PTRDIFF_MAX_def mem_write_def)
qed

lemma grown_size_ok:
  "8 * n + 8 \<le> PTRDIFF_MAX \<Longrightarrow> grown_size n = Some (2 * n, 8 * (2 * n))"
  by (simp add: grown_size_def Let_def PTRDIFF_MAX_def)

text \<open>The memory is there: one more slot than the stack uses.\<close>

lemma sk_insert_room:
  assumes m: "malloc_spec malloc" and sk: "sk_inv sk"
    and r: "(if num_alloc sk \<le> num sk + 1
             then (case grown_size (num_alloc sk) of
                     None \<Rightarrow> None
                   | Some (new_alloc, alloc_size) \<Rightarrow>
                       map_option (\<lambda>d. sk\<lparr>data := d, num_alloc := new_alloc\<rparr>) (realloc_ptrs malloc (data sk) alloc_size))
             else Some sk) = Some sk'"
  shows "sk_inv sk'" "num sk' + 1 < num_alloc sk'" "sk_list sk' = sk_list sk" "num sk' = num sk"
proof -
  have inv: "length (data sk) = num_alloc sk" "num sk < num_alloc sk" "8 * num_alloc sk + 8 \<le> PTRDIFF_MAX"
    using sk by (simp_all add: sk_inv_def)
  consider "num sk + 1 < num_alloc sk" "sk' = sk"
    | d where "num_alloc sk \<le> num sk + 1" "realloc_ptrs malloc (data sk) (8 * (2 * num_alloc sk)) = Some d"
      "sk' = sk\<lparr>data := d, num_alloc := 2 * num_alloc sk\<rparr>"
    using r by (auto simp: grown_size_ok [OF inv(3)] split: if_splits)
  then have "sk_inv sk' \<and> num sk' + 1 < num_alloc sk' \<and> sk_list sk' = sk_list sk \<and> num sk' = num sk"
  proof cases
    case 2
    have "8 * (2 * num_alloc sk) + 8 < 2 ^ 64" using inv(3) by (simp add: PTRDIFF_MAX_def)
    note g = realloc_ptrs_Some [OF m _ this 2(2), unfolded inv(1)]
    have "take (num sk) d = take (num sk) (take (num_alloc sk) d)" using inv(2) by (simp add: min_absorb1)
    then show ?thesis using g inv 2 by (auto simp: sk_inv_def sk_list_def)
  qed (use sk in simp)
  then show "sk_inv sk'" "num sk' + 1 < num_alloc sk'" "sk_list sk' = sk_list sk" "num sk' = num sk" by simp_all
qed

lemma sk_insert_law:
  assumes m: "malloc_spec malloc" and sk: "sk_inv sk" and r: "sk_insert malloc (Some sk) p pos = (ret, s)"
  shows "\<exists>sk'. s = Some sk' \<and> sk_inv sk' \<and>
     (ret = 0 \<and> sk' = sk \<or>
      ret = num sk + 1 \<and> \<not> sorted sk' \<and> sk_list sk' = take pos (sk_list sk) @ p # drop pos (sk_list sk))"
proof -
  let ?room = "if num_alloc sk \<le> num sk + 1
     then (case grown_size (num_alloc sk) of
             None \<Rightarrow> None
           | Some (new_alloc, alloc_size) \<Rightarrow>
               map_option (\<lambda>d. sk\<lparr>data := d, num_alloc := new_alloc\<rparr>) (realloc_ptrs malloc (data sk) alloc_size))
     else Some sk"
  show ?thesis
  proof (cases ?room)
    case None
    then have "sk_insert malloc (Some sk) p pos = (0, Some sk)"
      unfolding sk_insert_def option.case None by simp
    then show ?thesis using r sk by auto
  next
    case (Some sk1)
    note room = sk_insert_room [OF m sk Some]
    let ?d = "if pos \<ge> num sk1 then (data sk1)[num sk1 := p]
       else (mem_write (data sk1) (pos + 1) (take (num sk1 - pos) (drop pos (data sk1))))[pos := p]"
    have eq: "sk_insert malloc (Some sk) p pos =
        (num sk1 + 1, Some (sk1\<lparr>data := ?d, num := num sk1 + 1, sorted := False\<rparr>))"
      unfolding sk_insert_def option.case Some Let_def ..
    have l: "length (data sk1) = num_alloc sk1" using room(1) by (simp add: sk_inv_def)
    have "take (num sk1 + 1) ?d = take pos (sk_list sk1) @ p # drop pos (sk_list sk1) \<and> length ?d = num_alloc sk1"
    proof (cases "pos \<ge> num sk1")
      case True
      then show ?thesis using room(2) l
        by (simp add: sk_list_def take_Suc_conv_app_nth)
    next
      case False
      have "take (num sk1 + 1) (mem_write (data sk1) (pos + 1) (take (num sk1 - pos) (drop pos (data sk1)))) =
          take (pos + 1) (data sk1) @ take (num sk1 - pos) (drop pos (data sk1))"
        using take_mem_write [of "pos + 1" "take (num sk1 - pos) (drop pos (data sk1))" "data sk1"] False room(2) l
        by simp
      then show ?thesis
        using False room(2) l
        by (simp add: take_update_swap list_update_append sk_list_def take_Suc_conv_app_nth drop_take min_absorb1)
    qed
    then obtain d where d: "d = ?d" "take (num sk1 + 1) d = take pos (sk_list sk) @ p # drop pos (sk_list sk)"
      "length d = num_alloc sk1" by (simp add: room(3))
    let ?sk' = "sk1\<lparr>data := d, num := num sk1 + 1, sorted := False\<rparr>"
    have "sk_inv ?sk'" using room(1,2) d(3) by (simp add: sk_inv_def)
    moreover have "sk_list ?sk' = take (num sk1 + 1) d" by (simp add: sk_list_def)
    moreover have "ret = num sk1 + 1" "s = Some ?sk'" using r eq unfolding d(1) by auto
    ultimately show ?thesis
      using room(4) d(2) by (intro exI [of _ ?sk']) simp
  qed
qed

lemma sk_delete_law:
  assumes sk: "sk_inv sk" and i: "i < num sk"
  shows "\<exists>sk'. sk_delete (Some sk) i = (sk_list sk ! i, Some sk') \<and> sk_inv sk' \<and>
     sk_list sk' = take i (sk_list sk) @ drop (i + 1) (sk_list sk) \<and> sorted sk' = sorted sk \<and> comp sk' = comp sk"
proof -
  have l: "length (data sk) = num_alloc sk" "num sk < num_alloc sk" using sk by (simp_all add: sk_inv_def)
  let ?d = "if i \<noteq> num sk - 1 then mem_write (data sk) i (take (num sk - i - 1) (drop (i + 1) (data sk))) else data sk"
  have "take (num sk - 1) ?d = take i (sk_list sk) @ drop (i + 1) (sk_list sk) \<and> length ?d = num_alloc sk"
  proof (cases "i = num sk - 1")
    case True
    then show ?thesis using i l by (simp add: sk_list_def min_absorb1)
  next
    case False
    then show ?thesis
      using take_mem_write [of i "take (num sk - i - 1) (drop (i + 1) (data sk))" "data sk"] i l
      by (simp add: sk_list_def min_absorb1 drop_take)
  qed
  then obtain d where d: "d = ?d" "take (num sk - 1) d = take i (sk_list sk) @ drop (i + 1) (sk_list sk)"
    "length d = num_alloc sk" by simp
  let ?sk' = "sk\<lparr>data := d, num := num sk - 1\<rparr>"
  have "sk_inv ?sk'" using sk d(3) by (auto simp: sk_inv_def)
  moreover have "sk_list ?sk' = take (num sk - 1) d" by (simp add: sk_list_def)
  moreover have "sk_delete (Some sk) i = (sk_list sk ! i, Some ?sk')"
    using i d(1) by (simp add: sk_delete_def Let_def sk_list_def)
  ultimately show ?thesis using d(2) by (intro exI [of _ ?sk']) simp
qed

section \<open>Searching\<close>

lemma first_index_Some:
  "i < length xs \<Longrightarrow> P (xs ! i) \<Longrightarrow> \<forall>j < i. \<not> P (xs ! j) \<Longrightarrow> first_index P xs k = Some (k + i)"
proof (induction xs arbitrary: i k)
  case (Cons x xs)
  show ?case
  proof (cases i)
    case (Suc j)
    then have "\<not> P x" using Cons.prems(3) by force
    moreover have "\<forall>l < j. \<not> P (xs ! l)" using Cons.prems(3) Suc by force
    ultimately show ?thesis using Cons.IH [of j "k + 1"] Cons.prems Suc by simp
  qed (use Cons.prems in simp)
qed simp

lemma first_index_None: "first_index P xs k = None \<longleftrightarrow> (\<forall>x \<in> set xs. \<not> P x)"
  by (induction xs arbitrary: k) auto

lemma first_index_SomeD:
  "first_index P xs k = Some j \<Longrightarrow> \<exists>i < length xs. j = k + i \<and> P (xs ! i) \<and> (\<forall>l < i. \<not> P (xs ! l))"
proof (induction xs arbitrary: k)
  case (Cons x xs)
  show ?case
  proof (cases "P x")
    case False
    then obtain i where "i < length xs" "j = k + 1 + i" "P (xs ! i)" "\<forall>l < i. \<not> P (xs ! l)"
      using Cons.IH [of "k + 1"] Cons.prems by auto
    with False show ?thesis by (intro exI [of _ "Suc i"]) (auto simp: less_Suc_eq_0_disj)
  qed (use Cons.prems in \<open>intro exI [of _ 0]; simp\<close>)
qed simp

text \<open>What a comparison function promises.\<close>

locale comparator =
  fixes cmp :: "'a \<Rightarrow> 'a \<Rightarrow> int"
  assumes cmp_swap: "cmp a b < 0 \<longleftrightarrow> 0 < cmp b a"
    and cmp_trans: "cmp a b \<le> 0 \<Longrightarrow> cmp b c \<le> 0 \<Longrightarrow> cmp a c \<le> 0"
begin

abbreviation ordered :: "'a list \<Rightarrow> bool" where
  "ordered \<equiv> sorted_wrt (\<lambda>a b. cmp a b \<le> 0)"

lemma cmp_le_swap: "cmp a b \<le> 0 \<longleftrightarrow> 0 \<le> cmp b a"
  using cmp_swap [of b a] by linarith

text \<open>Below an element that is too small all are too small, above one that is large all are large.\<close>

lemma too_small:
  assumes "ordered d" "0 < cmp p (d ! m)" "i \<le> m" "m < length d"
  shows "0 < cmp p (d ! i)"
proof (rule ccontr)
  assume "\<not> 0 < cmp p (d ! i)"
  moreover have "i = m \<or> cmp (d ! i) (d ! m) \<le> 0"
    using assms(1,3,4) sorted_wrt_nth_less [of _ d i m] by (cases "i = m") auto
  ultimately show False using assms(2) cmp_trans [of p "d ! i" "d ! m"] by auto
qed

lemma too_large:
  assumes "ordered d" "cmp p (d ! m) < 0" "m \<le> i" "i < length d"
  shows "cmp p (d ! i) < 0"
proof (rule ccontr)
  assume "\<not> cmp p (d ! i) < 0"
  then have "cmp (d ! i) p \<le> 0" using cmp_le_swap by simp
  moreover have "i = m \<or> cmp (d ! m) (d ! i) \<le> 0"
    using assms(1,3,4) sorted_wrt_nth_less [of _ d m i] by (cases "i = m") auto
  moreover have "\<not> cmp (d ! m) p \<le> 0" using assms(2) cmp_le_swap [of "d ! m" p] by simp
  ultimately show False using cmp_trans [of "d ! m" "d ! i" p] by auto
qed

lemma bsearch_first:
  assumes "ordered d" "hi \<le> length d" "lo \<le> hi" "\<forall>i < lo. 0 < cmp p (d ! i)"
    and "(\<forall>i. hi \<le> i \<longrightarrow> i < length d \<longrightarrow> cmp p (d ! i) < 0) \<or> lo < hi \<and> cmp p (d ! (hi - 1)) = 0"
  shows "bsearch cmp d p lo hi = first_index (\<lambda>e. cmp p e = 0) d 0"
  using assms
proof (induction cmp\<equiv>cmp d p lo hi rule: bsearch.induct)
  case (1 d p lo hi)
  let ?mid = "lo + (hi - lo - 1) div 2"
  show ?case
  proof (cases "lo < hi")
    case True
    then have mid: "lo \<le> ?mid" "?mid < hi" "?mid < length d" using 1(5) by auto
    consider "0 < cmp p (d ! ?mid)" | "cmp p (d ! ?mid) < 0" | "cmp p (d ! ?mid) = 0" by linarith
    then show ?thesis
    proof cases
      case 1
      have "\<forall>i < ?mid + 1. 0 < cmp p (d ! i)" using too_small [OF "1.prems"(1) 1] mid by auto
      moreover have "?mid + 1 < hi \<or> cmp p (d ! (hi - 1)) \<noteq> 0"
        using mid 1 by (cases "?mid + 1 = hi") auto
      ultimately have "bsearch cmp d p (?mid + 1) hi = first_index (\<lambda>e. cmp p e = 0) d 0"
        using "1.hyps"(1) [OF True refl refl 1] "1.prems" mid by auto
      then show ?thesis using True 1 by (subst bsearch.simps) (simp add: Let_def)
    next
      case 2
      have "\<forall>i. ?mid \<le> i \<longrightarrow> i < length d \<longrightarrow> cmp p (d ! i) < 0" using too_large [OF "1.prems"(1) 2] by auto
      then have "bsearch cmp d p lo ?mid = first_index (\<lambda>e. cmp p e = 0) d 0"
        using "1.hyps"(2) [OF True refl refl _ 2] 2 "1.prems" mid by auto
      then show ?thesis using True 2 by (subst bsearch.simps) (simp add: Let_def)
    next
      case 3
      show ?thesis
      proof (cases "hi - lo = 1")
        case one: True
        then have "?mid = lo" by simp
        then have "first_index (\<lambda>e. cmp p e = 0) d 0 = Some lo"
          using first_index_Some [of lo d "\<lambda>e. cmp p e = 0" 0] 3 mid "1.prems"(4) by force
        then show ?thesis using True 3 one by (subst bsearch.simps) (simp add: Let_def)
      next
        case False
        then have "bsearch cmp d p lo (?mid + 1) = first_index (\<lambda>e. cmp p e = 0) d 0"
          using "1.hyps"(3) [OF True refl refl _ _ False] 3 "1.prems" mid by auto
        then show ?thesis using True 3 False by (subst bsearch.simps) (simp add: Let_def)
      qed
    qed
  next
    case False
    then have "lo = hi" using "1.prems"(3) by simp
    then have "\<forall>i < length d. cmp p (d ! i) \<noteq> 0" using "1.prems"(4,5) by (metis less_irrefl not_less)
    then have "first_index (\<lambda>e. cmp p e = 0) d 0 = None" by (auto simp: first_index_None in_set_conv_nth)
    then show ?thesis using False by (subst bsearch.simps) simp
  qed
qed

end

lemma bsearch_take: "hi \<le> n \<Longrightarrow> bsearch cmp (take n d) p lo hi = bsearch cmp d p lo hi"
proof (induction cmp d p lo hi rule: bsearch.induct)
  case (1 cmp d p lo hi)
  show ?case
  proof (cases "lo < hi")
    case True
    then have "lo + (hi - lo - 1) div 2 < n" using 1(4) by auto
    then show ?thesis
      using 1 True by (subst (1 2) bsearch.simps) (simp add: Let_def)
  qed (simp add: bsearch.simps)
qed

section \<open>Sorted stacks\<close>

text \<open>What the flag \<open>sorted\<close> is documented to mean.\<close>

definition sorted_ok :: "cmp_caller \<Rightarrow> stack_st \<Rightarrow> bool" where
  "sorted_ok call_cmp sk \<longleftrightarrow>
     (sorted sk \<and> comp sk \<noteq> 0 \<longrightarrow> sorted_wrt (\<lambda>a b. call_cmp (comp sk) a b \<le> 0) (sk_list sk))"

definition qsort_spec :: "qsort_fn \<Rightarrow> bool" where
  "qsort_spec qsort \<longleftrightarrow> (\<forall>cmp xs. mset (qsort cmp xs) = mset xs \<and>
     (comparator cmp \<longrightarrow> sorted_wrt (\<lambda>a b. cmp a b \<le> 0) (qsort cmp xs)))"

lemma sk_sort_law:
  assumes q: "qsort_spec qsort" and c: "comparator (call_cmp (comp sk))" and sk: "sk_inv sk" "sorted_ok call_cmp sk"
    and n: "comp sk \<noteq> 0"
  shows "\<exists>sk'. sk_sort qsort call_cmp (Some sk) = Some sk' \<and> sk_inv sk' \<and> sorted sk' \<and> sorted_ok call_cmp sk' \<and>
     mset (sk_list sk') = mset (sk_list sk) \<and> comp sk' = comp sk"
proof (cases "sorted sk")
  case True
  then show ?thesis using sk n by (auto simp: sk_sort_def)
next
  case False
  show ?thesis
  proof (cases "num sk \<ge> 2")
    case True
    let ?s = "qsort (call_cmp (comp sk)) (sk_list sk)"
    have s: "mset ?s = mset (sk_list sk)" "sorted_wrt (\<lambda>a b. call_cmp (comp sk) a b \<le> 0) ?s"
      using q c by (simp_all add: qsort_spec_def)
    then have len: "length ?s = num sk" using length_sk_list [OF sk(1)] by (metis size_mset)
    let ?sk' = "sk\<lparr>data := mem_write (data sk) 0 ?s, sorted := True\<rparr>"
    have "sk_list ?sk' = ?s" using len by (simp add: sk_list_def mem_write_def)
    moreover have "sk_inv ?sk'" using sk(1) len by (simp add: sk_inv_def)
    moreover have "sk_sort qsort call_cmp (Some sk) = Some ?sk'"
      using False True n by (simp add: sk_sort_def sk_list_def Let_def)
    ultimately show ?thesis using s by (intro exI [of _ ?sk']) (simp add: sorted_ok_def)
  next
    case f: False
    let ?sk' = "sk\<lparr>sorted := True\<rparr>"
    have "sk_list ?sk' = sk_list sk" "length (sk_list sk) < 2"
      using f length_sk_list [OF sk(1)] by (simp_all add: sk_list_def)
    moreover have "sorted_wrt P (sk_list sk)" for P
      using calculation(2) by (cases "sk_list sk" rule: remdups_adj.cases) auto
    ultimately show ?thesis
      using False f n sk(1)
      by (intro exI [of _ ?sk']) (simp add: sk_sort_def Let_def sk_inv_def sorted_ok_def)
  qed
qed

section \<open>Copies\<close>

lemma sk_dup_law:
  assumes m: "malloc_spec malloc" and sk: "sk_inv sk" "kMinSize \<le> num_alloc sk" and r: "sk_dup malloc (Some sk) = Some ret"
  shows "sk_inv ret \<and> sk_list ret = sk_list sk \<and> num ret = num sk \<and> sorted ret = sorted sk \<and> comp ret = comp sk"
proof -
  obtain n where n: "sk_new malloc (comp sk) = Some n" using r by (auto simp: sk_dup_def split: option.splits)
  note new = sk_new_ok [OF m n]
  have inv: "length (data sk) = num_alloc sk" "num sk < num_alloc sk" "8 * num_alloc sk + 8 \<le> PTRDIFF_MAX"
    using sk(1) by (simp_all add: sk_inv_def)
  have w: "size_wrap (8 * num_alloc sk) = 8 * num_alloc sk" "8 * num_alloc sk + 8 < 2 ^ 64"
    using inv(3) by (simp_all add: PTRDIFF_MAX_def)
  obtain d where d: "realloc_ptrs malloc (data n) (8 * num_alloc sk) = Some d"
    and ret: "ret = n\<lparr>data := mem_write d 0 (take (num sk) (data sk)), num := num sk, sorted := sorted sk,
       num_alloc := num_alloc sk, comp := comp sk\<rparr>"
    using r n by (auto simp: sk_dup_def w split: option.splits)
  have "length d = num_alloc sk" using realloc_ptrs_Some(1) [OF m _ w(2) d] new(5) sk(2) by simp
  then show ?thesis
    using inv by (simp add: ret sk_inv_def sk_list_def mem_write_def)
qed

text \<open>The array after the loop has copied the elements from \<open>i\<close> on, and the first copy that fails.\<close>

definition copied :: "(nat \<Rightarrow> ptr \<Rightarrow> ptr) \<Rightarrow> ptr list \<Rightarrow> nat \<Rightarrow> ptr" where
  "copied copy d i = (if d ! i = 0 then 0 else copy i (d ! i))"

definition copy_fails :: "(nat \<Rightarrow> ptr \<Rightarrow> ptr) \<Rightarrow> ptr list \<Rightarrow> nat \<Rightarrow> bool" where
  "copy_fails copy d i \<longleftrightarrow> d ! i \<noteq> 0 \<and> copy i (d ! i) = 0"

lemma deep_copy_loop_law:
  assumes "n \<le> length d0" "i \<le> n" "d = map (copied copy d0) [0..<i] @ drop i d0" "\<forall>j < i. \<not> copy_fails copy d0 j"
  shows "case deep_copy_loop copy n d i of
      Inl freed \<Rightarrow> \<exists>k < n. copy_fails copy d0 k \<and> (\<forall>j < k. \<not> copy_fails copy d0 j) \<and>
         freed = filter (\<lambda>p. p \<noteq> 0) (map (copied copy d0) [0..<k])
    | Inr d' \<Rightarrow> (\<forall>j < n. \<not> copy_fails copy d0 j) \<and> d' = map (copied copy d0) [0..<n] @ drop n d0"
  using assms
proof (induction copy n d i rule: deep_copy_loop.induct)
  case (1 copy n d i)
  show ?case
  proof (cases "i < n")
    case True
    then have di: "d ! i = d0 ! i" "length d = length d0" using "1.prems" by (simp_all add: nth_append)
    have step: "d[i := copied copy d0 i] = map (copied copy d0) [0..<Suc i] @ drop (Suc i) d0"
    proof -
      have "drop i d0 = d0 ! i # drop (Suc i) d0" using True "1.prems"(1) by (simp add: Cons_nth_drop_Suc)
      then show ?thesis using "1.prems"(3) by (simp add: list_update_append)
    qed
    consider "d ! i = 0" | "d ! i \<noteq> 0" "copy i (d ! i) = 0" | "d ! i \<noteq> 0" "copy i (d ! i) \<noteq> 0" by blast
    then show ?thesis
    proof cases
      case 1
      then have "copied copy d0 i = d ! i" "\<not> copy_fails copy d0 i" by (simp_all add: copied_def copy_fails_def di)
      then have "d = map (copied copy d0) [0..<Suc i] @ drop (Suc i) d0" "\<forall>j < i + 1. \<not> copy_fails copy d0 j"
        using step "1.prems"(4) by (simp_all add: less_Suc_eq)
      with "1.IH"(1) [OF True 1] "1.prems" True 1 show ?thesis by (subst deep_copy_loop.simps) simp
    next
      case 2
      then have "copy_fails copy d0 i" by (simp add: copy_fails_def di)
      moreover have "take i (d[i := 0]) = map (copied copy d0) [0..<i]" using "1.prems" by simp
      ultimately show ?thesis
        using True 2 "1.prems"(4) by (subst deep_copy_loop.simps) (auto simp: Let_def)
    next
      case 3
      then have "copied copy d0 i = copy i (d ! i)" "\<not> copy_fails copy d0 i" by (simp_all add: copied_def copy_fails_def di)
      then have "d[i := copy i (d ! i)] = map (copied copy d0) [0..<Suc i] @ drop (Suc i) d0"
        "\<forall>j < i + 1. \<not> copy_fails copy d0 j"
        using step "1.prems"(4) by (simp_all add: less_Suc_eq)
      with "1.IH"(2) [OF True 3(1) refl refl 3(2)] "1.prems" True 3 show ?thesis
        by (subst deep_copy_loop.simps) (simp add: Let_def)
    qed
  next
    case False
    then show ?thesis using "1.prems" by (subst deep_copy_loop.simps) simp
  qed
qed

section \<open>Sequences of operations\<close>

datatype sk_cmd = Insert ptr nat | Push ptr | Delete nat | Delete_ptr ptr | Pop | Shift | Zero | Value nat

primrec run_sk :: "(nat \<Rightarrow> bytes option) \<Rightarrow> sk_cmd \<Rightarrow> stack_st \<Rightarrow> nat \<times> stack_st option" where
  "run_sk malloc (Insert p i) sk = sk_insert malloc (Some sk) p i"
| "run_sk malloc (Push p) sk = sk_push malloc sk p"
| "run_sk malloc (Delete i) sk = map_prod unat id (sk_delete (Some sk) i)"
| "run_sk malloc (Delete_ptr p) sk = map_prod unat id (sk_delete_ptr (Some sk) p)"
| "run_sk malloc Pop sk = map_prod unat id (sk_pop (Some sk))"
| "run_sk malloc Shift sk = map_prod unat id (sk_shift (Some sk))"
| "run_sk malloc Zero sk = (0, sk_zero (Some sk))"
| "run_sk malloc (Value i) sk = (unat (sk_value (Some sk) i), Some sk)"

text \<open>The same operations on lists: what they return and the list afterwards.\<close>

definition remove_at :: "nat \<Rightarrow> ptr list \<Rightarrow> nat \<times> ptr list" where
  "remove_at i xs = (if i < length xs then (unat (xs ! i), take i xs @ drop (i + 1) xs) else (0, xs))"

primrec spec_sk :: "sk_cmd \<Rightarrow> ptr list \<Rightarrow> nat \<times> ptr list" where
  "spec_sk (Insert p i) xs = (length xs + 1, take i xs @ p # drop i xs)"
| "spec_sk (Push p) xs = (length xs + 1, xs @ [p])"
| "spec_sk (Delete i) xs = remove_at i xs"
| "spec_sk (Delete_ptr p) xs =
     (if p \<in> set xs then (unat p, takeWhile (\<lambda>e. e \<noteq> p) xs @ tl (dropWhile (\<lambda>e. e \<noteq> p) xs)) else (0, xs))"
| "spec_sk Pop xs = (if xs = [] then (0, []) else (unat (last xs), butlast xs))"
| "spec_sk Shift xs = (if xs = [] then (0, []) else (unat (hd xs), tl xs))"
| "spec_sk Zero xs = (0, [])"
| "spec_sk (Value i) xs = ((if i < length xs then unat (xs ! i) else 0), xs)"

definition is_insert :: "sk_cmd \<Rightarrow> bool" where
  "is_insert c = (case c of Insert _ _ \<Rightarrow> True | Push _ \<Rightarrow> True | _ \<Rightarrow> False)"

lemma sk_delete_remove_at:
  assumes "sk_inv sk"
  shows "\<exists>sk'. sk_delete (Some sk) i = (fst (sk_delete (Some sk) i), Some sk') \<and> sk_inv sk' \<and>
     remove_at i (sk_list sk) = (unat (fst (sk_delete (Some sk) i)), sk_list sk')"
proof (cases "i < num sk")
  case True
  from sk_delete_law [OF assms this] show ?thesis
    using True length_sk_list [OF assms] by (auto simp: remove_at_def)
next
  case False
  then show ?thesis
    using assms length_sk_list [OF assms] by (auto simp: sk_delete_def remove_at_def)
qed

lemma first_index_split:
  assumes "first_index (\<lambda>e. e = p) xs 0 = Some i"
  shows "i < length xs" "xs ! i = p" "takeWhile (\<lambda>e. e \<noteq> p) xs = take i xs" "dropWhile (\<lambda>e. e \<noteq> p) xs = drop i xs"
proof -
  from first_index_SomeD [OF assms] have i: "i < length xs" "xs ! i = p" "\<forall>l < i. xs ! l \<noteq> p" by auto
  then show "i < length xs" "xs ! i = p" by simp_all
  show t: "takeWhile (\<lambda>e. e \<noteq> p) xs = take i xs" using i by (intro takeWhile_eq_take_P_nth) auto
  show "dropWhile (\<lambda>e. e \<noteq> p) xs = drop i xs"
    using t i(1) by (metis dropWhile_eq_drop length_take min.absorb4)
qed

lemma run_sk_law:
  assumes m: "malloc_spec malloc" and sk: "sk_inv sk" and r: "run_sk malloc c sk = (ret, s)"
  shows "\<exists>sk'. s = Some sk' \<and> sk_inv sk' \<and>
     (spec_sk c (sk_list sk) = (ret, sk_list sk') \<or> is_insert c \<and> ret = 0 \<and> sk' = sk)"
proof -
  have len: "length (sk_list sk) = num sk" by (rule length_sk_list [OF sk])
  note del = sk_delete_remove_at [OF sk]
  show ?thesis
  proof (cases c)
    case (Insert p i)
    with sk_insert_law [OF m sk, of p i ret s] r len show ?thesis by (auto simp: is_insert_def)
  next
    case (Push p)
    with sk_insert_law [OF m sk, of p "num sk" ret s] r len show ?thesis by (auto simp: is_insert_def sk_push_def)
  next
    case (Delete i)
    with del [of i] r show ?thesis by (auto simp: map_prod_def split: prod.splits)
  next
    case (Delete_ptr p)
    show ?thesis
    proof (cases "first_index (\<lambda>e. e = p) (sk_list sk) 0")
      case None
      then have "p \<notin> set (sk_list sk)" by (auto simp: first_index_None)
      with None r Delete_ptr sk show ?thesis by (auto simp: sk_delete_ptr_def sk_list_def)
    next
      case (Some i)
      note f = first_index_split [OF Some]
      have "p \<in> set (sk_list sk)" using f(1,2) nth_mem by blast
      moreover have "sk_delete_ptr (Some sk) p = sk_delete (Some sk) i"
        using Some by (simp add: sk_delete_ptr_def sk_list_def)
      ultimately show ?thesis
        using del [of i] r Delete_ptr f by (auto simp: remove_at_def map_prod_def tl_drop drop_Suc split: prod.splits)
    qed
  next
    case Pop
    then show ?thesis
      using del [of "num sk - 1"] r sk len
      by (cases "num sk = 0")
         (auto simp: sk_pop_def remove_at_def map_prod_def last_conv_nth butlast_conv_take split: prod.splits)
  next
    case Shift
    then show ?thesis
      using del [of 0] r sk len
      by (cases "num sk = 0")
         (auto simp: sk_shift_def remove_at_def map_prod_def hd_conv_nth drop_Suc split: prod.splits)
  next
    case Zero
    with r sk show ?thesis
      by (auto simp: sk_zero_def sk_inv_def sk_list_def split: if_splits)
  next
    case (Value i)
    with r sk len show ?thesis by (auto simp: sk_value_def sk_list_def)
  qed
qed

text \<open>A session stops at the first call that runs out of memory.\<close>

fun run_sks :: "(nat \<Rightarrow> bytes option) \<Rightarrow> sk_cmd list \<Rightarrow> stack_st \<Rightarrow> nat list \<times> stack_st" where
  "run_sks malloc [] sk = ([], sk)"
| "run_sks malloc (c # cs) sk =
     (case run_sk malloc c sk of
        (ret, Some sk') \<Rightarrow>
          if is_insert c \<and> ret = 0 then ([], sk')
          else (case run_sks malloc cs sk' of (rets, sk'') \<Rightarrow> (ret # rets, sk''))
      | (ret, None) \<Rightarrow> ([], sk))"

fun spec_sks :: "sk_cmd list \<Rightarrow> ptr list \<Rightarrow> nat list \<times> ptr list" where
  "spec_sks [] xs = ([], xs)"
| "spec_sks (c # cs) xs =
     (case spec_sk c xs of (ret, xs') \<Rightarrow> case spec_sks cs xs' of (rets, xs'') \<Rightarrow> (ret # rets, xs''))"

lemma run_sks_law:
  assumes m: "malloc_spec malloc"
  shows "sk_inv sk \<Longrightarrow> run_sks malloc cs sk = (rets, sk') \<Longrightarrow>
    sk_inv sk' \<and> (\<exists>k \<le> length cs. spec_sks (take k cs) (sk_list sk) = (rets, sk_list sk') \<and> (k < length cs \<longrightarrow> is_insert (cs ! k)))"
proof (induction cs arbitrary: sk rets)
  case (Cons c cs)
  obtain ret s where r: "run_sk malloc c sk = (ret, s)" by fastforce
  from run_sk_law [OF m Cons.prems(1) r] obtain sk1 where sk1: "s = Some sk1" "sk_inv sk1"
    "spec_sk c (sk_list sk) = (ret, sk_list sk1) \<or> is_insert c \<and> ret = 0 \<and> sk1 = sk" by blast
  show ?case
  proof (cases "is_insert c \<and> ret = 0")
    case True
    then have "sk1 = sk" using sk1(3) by (auto simp: is_insert_def split: sk_cmd.splits)
    with True Cons.prems(2) r sk1 show ?thesis by (intro conjI exI [of _ 0]) auto
  next
    case False
    then have spec: "spec_sk c (sk_list sk) = (ret, sk_list sk1)" using sk1(3) by blast
    obtain rets' where rs: "run_sks malloc cs sk1 = (rets', sk')" "rets = ret # rets'"
      using Cons.prems(2) r sk1(1) False by (auto split: prod.splits)
    from Cons.IH [OF sk1(2) rs(1)] obtain k where "sk_inv sk'" "k \<le> length cs"
      "spec_sks (take k cs) (sk_list sk1) = (rets', sk_list sk')" "k < length cs \<longrightarrow> is_insert (cs ! k)" by blast
    then show ?thesis using spec rs(2) by (intro conjI exI [of _ "Suc k"]) auto
  qed
qed simp

section \<open>Properties\<close>

text \<open>
  C28. A stack is a list: every sequence of insertions, deletions and reads on a fresh stack
  returns what it returns on lists, and the array invariant holds throughout, whatever
  reallocations happen. A session ends early only at an insertion for which there is no memory,
  and that insertion changes nothing.
\<close>

theorem stack_is_list:
  assumes "malloc_spec malloc" "sk_new malloc c = Some sk" "run_sks malloc cs sk = (rets, sk')"
  shows "sk_inv sk' \<and>
     (\<exists>k \<le> length cs. spec_sks (take k cs) [] = (rets, sk_list sk') \<and> (k < length cs \<longrightarrow> is_insert (cs ! k)))"
  using run_sks_law [OF assms(1) _ assms(3)] sk_new_ok [OF assms(1,2)] by simp

definition stack_arena :: "nat \<Rightarrow> bytes option" where
  "stack_arena n = (if n \<le> 80 then Some (replicate n 0xa5) else None)"

definition stack_ex :: "sk_cmd list" where
  "stack_ex = [Push 7, Insert 9 0, Push 5, Delete 1, Push 6, Push 4, Shift, Delete_ptr 5, Value 1]"

lemma stack_arena_spec: "malloc_spec stack_arena"
  by (simp add: malloc_spec_def stack_arena_def PTRDIFF_MAX_def)

lemma stack_ex_runs:
  "sk_new stack_arena 0 = Some \<lparr>num = 0, data = [0, 0, 0, 0], sorted = False, num_alloc = 4, comp = 0\<rparr>"
  "fst (run_sks stack_arena stack_ex \<lparr>num = 0, data = [0, 0, 0, 0], sorted = False, num_alloc = 4, comp = 0\<rparr>) =
     [1, 2, 3, 7, 3, 4, 9, 5, 4]"
  by code_simp+

theorem stack_is_list_witness:
  "\<exists>k xs. spec_sks (take k stack_ex) [] = ([1, 2, 3, 7, 3, 4, 9, 5, 4], xs)"
proof -
  let ?r = "run_sks stack_arena stack_ex \<lparr>num = 0, data = [0, 0, 0, 0], sorted = False, num_alloc = 4, comp = 0\<rparr>"
  have "?r = ([1, 2, 3, 7, 3, 4, 9, 5, 4], snd ?r)" using stack_ex_runs(2) by (simp add: prod_eq_iff)
  from stack_is_list [OF stack_arena_spec stack_ex_runs(1) this] show ?thesis by blast
qed

text \<open>
  C29. \<open>sk_find\<close> returns the first element that compares equal, whether it searches linearly or,
  in a sorted stack, by bisection: the bisection is equivalent to the linear search, for every
  comparison function that is a total preorder. It terminates.
\<close>

theorem sk_find_first:
  assumes "sk_inv sk" "sorted_ok call_cmp sk" "comp sk \<noteq> 0" "p \<noteq> 0" "comparator (call_cmp (comp sk))"
  shows "sk_find call_cmp (Some sk) p = first_index (\<lambda>e. call_cmp (comp sk) p e = 0) (sk_list sk) 0"
proof (cases "sorted sk")
  case True
  have "num sk = length (sk_list sk)" using length_sk_list [OF assms(1)] by simp
  moreover have "bsearch (call_cmp (comp sk)) (data sk) p 0 (num sk) = bsearch (call_cmp (comp sk)) (sk_list sk) p 0 (num sk)"
    by (simp add: sk_list_def bsearch_take)
  ultimately show ?thesis
    using True assms comparator.bsearch_first [OF assms(5), of "sk_list sk" "num sk" 0 p]
    by (simp add: sk_find_def sk_is_sorted_def sorted_ok_def)
next
  case False
  then show ?thesis using assms by (simp add: sk_find_def sk_is_sorted_def sk_list_def)
qed

definition ptr_cmp :: cmp_caller where
  "ptr_cmp c a b = int (unat a div 16) - int (unat b div 16)"

interpretation ptr_order: comparator "ptr_cmp c" for c
  by unfold_locales (auto simp: ptr_cmp_def)

definition sorted_ex :: stack_st where
  "sorted_ex = \<lparr>num = 4, data = [0x10, 0x21, 0x22, 0x30, 0], sorted = True, num_alloc = 5, comp = 1\<rparr>"

theorem sk_find_first_witness:
  "sk_find ptr_cmp (Some sorted_ex) 0x23 = Some 1"
proof -
  have "sk_inv sorted_ex" "sorted_ok ptr_cmp sorted_ex" "comp sorted_ex \<noteq> 0"
    by (simp_all add: sorted_ex_def sk_inv_def sorted_ok_def sk_list_def ptr_cmp_def PTRDIFF_MAX_def)
  moreover have "first_index (\<lambda>e. ptr_cmp (comp sorted_ex) 0x23 e = 0) (sk_list sorted_ex) 0 = Some 1"
    by code_simp
  ultimately show ?thesis
    using sk_find_first [of sorted_ex ptr_cmp "0x23", OF _ _ _ _ ptr_order.comparator_axioms] by simp
qed

text \<open>
  C30. \<open>sk_deep_copy\<close> either returns the copies of all elements, nulls staying null, or fails at
  the first copy that fails, having passed to the free function exactly the copies made before
  it: nothing leaks and nothing is freed twice.
\<close>

theorem sk_deep_copy_all_or_freed:
  assumes "malloc_spec malloc" "sk_inv sk" "kMinSize \<le> num_alloc sk" "sk_dup malloc (Some sk) \<noteq> None"
    and "sk_deep_copy malloc copy (Some sk) = (ret, freed)"
  shows "case ret of
      Some sk' \<Rightarrow> freed = [] \<and> sk_inv sk' \<and> sk_list sk' = map (copied copy (sk_list sk)) [0..<num sk] \<and>
        (\<forall>j < num sk. \<not> copy_fails copy (sk_list sk) j)
    | None \<Rightarrow> \<exists>k < num sk. copy_fails copy (sk_list sk) k \<and> (\<forall>j < k. \<not> copy_fails copy (sk_list sk) j) \<and>
        freed = filter (\<lambda>p. p \<noteq> 0) (map (copied copy (sk_list sk)) [0..<k])"
proof -
  obtain d where d: "sk_dup malloc (Some sk) = Some d" using assms(4) by blast
  note dup = sk_dup_law [OF assms(1-3) d]
  have nth: "data d ! i = sk_list sk ! i" if "i < num sk" for i
    using dup that by (metis nth_take sk_list_def)
  then have same: "copied copy (data d) i = copied copy (sk_list sk) i"
    "copy_fails copy (data d) i = copy_fails copy (sk_list sk) i" if "i < num sk" for i
    using that by (simp_all add: copied_def copy_fails_def)
  have n: "num d \<le> length (data d)" "num d = num sk" using dup by (auto simp: sk_inv_def)
  note loop = deep_copy_loop_law [OF n(1), of 0 "data d" copy, simplified]
  show ?thesis
  proof (cases "deep_copy_loop copy (num d) (data d) 0")
    case (Inl fr)
    then have "ret = None" "freed = fr" using assms(5) d by (auto simp: sk_deep_copy_def sk_free_def)
    moreover obtain k where k: "k < num sk" "copy_fails copy (data d) k" "\<forall>j < k. \<not> copy_fails copy (data d) j"
      "fr = filter (\<lambda>p. p \<noteq> 0) (map (copied copy (data d)) [0..<k])"
      using loop Inl n(2) by auto
    moreover have "map (copied copy (data d)) [0..<k] = map (copied copy (sk_list sk)) [0..<k]"
      using same(1) k(1) by simp
    ultimately show ?thesis using same(2) by auto
  next
    case (Inr d')
    then have "ret = Some (d\<lparr>data := d'\<rparr>)" "freed = []" using assms(5) d by (auto simp: sk_deep_copy_def)
    moreover have l: "\<forall>j < num sk. \<not> copy_fails copy (data d) j"
      "d' = map (copied copy (data d)) [0..<num sk] @ drop (num sk) (data d)" using loop Inr n(2) by auto
    moreover have "map (copied copy (data d)) [0..<num sk] = map (copied copy (sk_list sk)) [0..<num sk]"
      using same(1) by simp
    ultimately show ?thesis using same(2) dup n by (auto simp: sk_inv_def sk_list_def)
  qed
qed

definition copy_ex :: "nat \<Rightarrow> ptr \<Rightarrow> ptr" where
  "copy_ex i p = (if i < 3 then p + 0x100 else 0)"

theorem sk_deep_copy_all_or_freed_witness:
  "sk_deep_copy stack_arena copy_ex (Some sorted_ex) = (None, [0x110, 0x121, 0x122])"
proof -
  let ?r = "sk_deep_copy stack_arena copy_ex (Some sorted_ex)"
  have "fst ?r = None" by code_simp
  then have r: "?r = (None, snd ?r)" by (simp add: prod_eq_iff)
  have "sk_inv sorted_ex" by (simp add: sorted_ex_def sk_inv_def PTRDIFF_MAX_def)
  moreover have "kMinSize \<le> num_alloc sorted_ex" "sk_dup stack_arena (Some sorted_ex) \<noteq> None" by code_simp+
  ultimately obtain k where k: "k < num sorted_ex" "copy_fails copy_ex (sk_list sorted_ex) k"
    "snd ?r = filter (\<lambda>p. p \<noteq> 0) (map (copied copy_ex (sk_list sorted_ex)) [0..<k])"
    using sk_deep_copy_all_or_freed [OF stack_arena_spec _ _ _ r] by auto
  have "num sorted_ex = 4" "\<not> copy_fails copy_ex (sk_list sorted_ex) 0" "\<not> copy_fails copy_ex (sk_list sorted_ex) 1"
    "\<not> copy_fails copy_ex (sk_list sorted_ex) 2" by code_simp+
  moreover from k(1) this(1) have "k = 0 \<or> k = 1 \<or> k = 2 \<or> k = 3" by arith
  ultimately have "k = 3" using k(2) by auto
  moreover have "filter (\<lambda>p. p \<noteq> 0) (map (copied copy_ex (sk_list sorted_ex)) [0..<3]) = [0x110, 0x121, 0x122]" by code_simp
  ultimately show ?thesis using r k(3) by simp
qed

text \<open>
  \<open>sk_set\<close> does not clear \<open>sorted\<close>: after it the flag no longer means what it is documented
  to mean, and \<open>sk_find\<close>, which trusts it, misses an element that the stack contains.
\<close>

lemma sk_set_keeps_sorted_flag:
  "\<exists>sk. snd (sk_set (Some sorted_ex) 0 0x90) = Some sk \<and> sorted sk \<and> \<not> sorted_ok ptr_cmp sk \<and>
     0x90 \<in> set (sk_list sk) \<and> sk_find ptr_cmp (Some sk) 0x90 = None"
proof -
  let ?sk = "sorted_ex\<lparr>data := [0x90, 0x21, 0x22, 0x30, 0]\<rparr>"
  have "snd (sk_set (Some sorted_ex) 0 0x90) = Some ?sk" "sorted ?sk" "0x90 \<in> set (sk_list ?sk)"
    "sk_find ptr_cmp (Some ?sk) 0x90 = None" by code_simp+
  moreover have "\<not> sorted_ok ptr_cmp ?sk"
    by (simp add: sorted_ok_def sorted_ex_def sk_list_def ptr_cmp_def)
  ultimately show ?thesis by blast
qed

end
