(* ===== verification/Lhash.thy ===== *)
theory Lhash
  imports Stack
begin

text \<open>
  \<^verbatim>\<open>crypto/lhash/lhash.c\<close>: hash tables with chains that grow and shrink with their load. A chain
  of \<open>LHASH_ITEM\<close>s is the list of its items; a pointer to a \<open>next\<close> field or to a bucket is the
  bucket with a position in its chain. The hash and comparison functions are called through
  the helpers that the callers pass.
\<close>

section \<open>Model\<close>

record lhash_item =
  idata :: ptr
  ihash :: u32

record lhash_st =
  num_items :: nat
  buckets :: "lhash_item list list"
  num_buckets :: nat
  callback_depth :: nat
  lcomp :: ptr
  lhash :: ptr

type_synonym hash_caller = "ptr \<Rightarrow> ptr \<Rightarrow> u32"

definition kMinNumBuckets :: nat where "kMinNumBuckets = 16"
definition kMaxAverageChainLength :: nat where "kMaxAverageChainLength = 2"
definition kMinAverageChainLength :: nat where "kMinAverageChainLength = 1"
definition UINT_MAX :: nat where "UINT_MAX = 2 ^ 32 - 1"
definition sizeof_LHASH :: nat where "sizeof_LHASH = 48"
definition sizeof_LHASH_ITEM :: nat where "sizeof_LHASH_ITEM = 24"

definition lh_new :: "(nat \<Rightarrow> bytes option) \<Rightarrow> ptr \<Rightarrow> ptr \<Rightarrow> lhash_st option" where
  "lh_new malloc h c =
     (case OPENSSL_malloc malloc sizeof_LHASH of
        None \<Rightarrow> None
      | Some _ \<Rightarrow>
          (case OPENSSL_malloc malloc (8 * kMinNumBuckets) of
             None \<Rightarrow> None
           | Some _ \<Rightarrow>
               Some \<lparr>num_items = 0, buckets = replicate kMinNumBuckets [], num_buckets = kMinNumBuckets,
                     callback_depth = 0, lcomp = c, lhash = h\<rparr>))"

text \<open>The items whose memory is released, bucket by bucket.\<close>

definition lh_free :: "lhash_st option \<Rightarrow> lhash_item list" where
  "lh_free s = (case s of None \<Rightarrow> [] | Some lh \<Rightarrow> concat (map (\<lambda>i. buckets lh ! i) [0..<num_buckets lh]))"

definition lh_num_items :: "lhash_st \<Rightarrow> nat" where
  "lh_num_items lh = num_items lh"

text \<open>The walk along a chain: the position of the first item that matches, or of the final null.\<close>

fun chain_pos :: "(ptr \<Rightarrow> bool) \<Rightarrow> lhash_item list \<Rightarrow> nat" where
  "chain_pos P [] = 0"
| "chain_pos P (cur # rest) = (if P (idata cur) then 0 else chain_pos P rest + 1)"

definition get_next_ptr_and_hash :: "hash_caller \<Rightarrow> cmp_caller \<Rightarrow> lhash_st \<Rightarrow> ptr \<Rightarrow> (nat \<times> nat) \<times> u32" where
  "get_next_ptr_and_hash call_hash call_cmp lh d =
     (let hash = call_hash (lhash lh) d;
          b = unat hash mod num_buckets lh
      in ((b, chain_pos (\<lambda>e. call_cmp (lcomp lh) e d = 0) (buckets lh ! b)), hash))"

definition get_next_ptr_by_key :: "lhash_st \<Rightarrow> 'k \<Rightarrow> u32 \<Rightarrow> ('k \<Rightarrow> ptr \<Rightarrow> int) \<Rightarrow> nat \<times> nat" where
  "get_next_ptr_by_key lh key key_hash cmp_key =
     (let b = unat key_hash mod num_buckets lh
      in (b, chain_pos (\<lambda>e. cmp_key key e = 0) (buckets lh ! b)))"

text \<open>What a pointer to a chain link points to.\<close>

definition deref :: "lhash_st \<Rightarrow> nat \<times> nat \<Rightarrow> lhash_item option" where
  "deref lh loc = (case loc of (b, k) \<Rightarrow> if k < length (buckets lh ! b) then Some (buckets lh ! b ! k) else None)"

definition lh_retrieve :: "hash_caller \<Rightarrow> cmp_caller \<Rightarrow> lhash_st \<Rightarrow> ptr \<Rightarrow> ptr" where
  "lh_retrieve call_hash call_cmp lh d =
     (case deref lh (fst (get_next_ptr_and_hash call_hash call_cmp lh d)) of None \<Rightarrow> 0 | Some it \<Rightarrow> idata it)"

definition lh_retrieve_key :: "lhash_st \<Rightarrow> 'k \<Rightarrow> u32 \<Rightarrow> ('k \<Rightarrow> ptr \<Rightarrow> int) \<Rightarrow> ptr" where
  "lh_retrieve_key lh key key_hash cmp_key =
     (case deref lh (get_next_ptr_by_key lh key key_hash cmp_key) of None \<Rightarrow> 0 | Some it \<Rightarrow> idata it)"

text \<open>Moving one item to the head of its new chain.\<close>

definition rebucket_item :: "nat \<Rightarrow> lhash_item list list \<Rightarrow> lhash_item \<Rightarrow> lhash_item list list" where
  "rebucket_item new_num_buckets new_buckets cur =
     (let new_bucket = unat (ihash cur) mod new_num_buckets
      in new_buckets[new_bucket := cur # new_buckets ! new_bucket])"

definition lh_rebucket :: "(nat \<Rightarrow> bytes option) \<Rightarrow> lhash_st \<Rightarrow> nat \<Rightarrow> lhash_st" where
  "lh_rebucket malloc lh new_num_buckets =
     (let alloc_size = size_wrap (8 * new_num_buckets) in
      if alloc_size div 8 \<noteq> new_num_buckets then lh
      else (case OPENSSL_malloc malloc alloc_size of
              None \<Rightarrow> lh
            | Some _ \<Rightarrow>
                lh\<lparr>num_buckets := new_num_buckets,
                   buckets := foldl (rebucket_item new_num_buckets) (replicate new_num_buckets [])
                     (concat (map (\<lambda>i. buckets lh ! i) [0..<num_buckets lh]))\<rparr>))"

definition lh_maybe_resize :: "(nat \<Rightarrow> bytes option) \<Rightarrow> lhash_st \<Rightarrow> lhash_st" where
  "lh_maybe_resize malloc lh =
     (if callback_depth lh > 0 then lh
      else let avg_chain_length = num_items lh div num_buckets lh in
        if avg_chain_length > kMaxAverageChainLength then
          (let new_num_buckets = size_wrap (num_buckets lh * 2) in
           if new_num_buckets > num_buckets lh then lh_rebucket malloc lh new_num_buckets else lh)
        else if avg_chain_length < kMinAverageChainLength \<and> num_buckets lh > kMinNumBuckets then
          (let new_num_buckets = num_buckets lh div 2;
               new_num_buckets = (if new_num_buckets < kMinNumBuckets then kMinNumBuckets else new_num_buckets)
           in lh_rebucket malloc lh new_num_buckets)
        else lh)"

text \<open>
  The result is the returned flag with \<open>*old_data\<close>, and the table. The count is not wrapped: an item
  takes 24 bytes of memory, so that fewer than \<open>2 ^ 64\<close> exist.
\<close>

definition lh_insert ::
    "(nat \<Rightarrow> bytes option) \<Rightarrow> hash_caller \<Rightarrow> cmp_caller \<Rightarrow> lhash_st \<Rightarrow> ptr \<Rightarrow> (bool \<times> ptr) \<times> lhash_st" where
  "lh_insert malloc call_hash call_cmp lh d =
     (let ((b, k), hash) = get_next_ptr_and_hash call_hash call_cmp lh d; chain = buckets lh ! b
      in case deref lh (b, k) of
           Some item \<Rightarrow>
             ((True, idata item), lh\<lparr>buckets := (buckets lh)[b := chain[k := item\<lparr>idata := d\<rparr>]]\<rparr>)
         | None \<Rightarrow>
             (case OPENSSL_malloc malloc sizeof_LHASH_ITEM of
                None \<Rightarrow> ((False, 0), lh)
              | Some _ \<Rightarrow>
                  ((True, 0), lh_maybe_resize malloc
                     (lh\<lparr>buckets := (buckets lh)[b := take k chain @ [\<lparr>idata = d, ihash = hash\<rparr>]],
                         num_items := num_items lh + 1\<rparr>))))"

definition lh_delete ::
    "(nat \<Rightarrow> bytes option) \<Rightarrow> hash_caller \<Rightarrow> cmp_caller \<Rightarrow> lhash_st \<Rightarrow> ptr \<Rightarrow> ptr \<times> lhash_st" where
  "lh_delete malloc call_hash call_cmp lh d =
     (let ((b, k), _) = get_next_ptr_and_hash call_hash call_cmp lh d; chain = buckets lh ! b
      in case deref lh (b, k) of
           None \<Rightarrow> (0, lh)
         | Some item \<Rightarrow>
             (idata item, lh_maybe_resize malloc
                (lh\<lparr>buckets := (buckets lh)[b := take k chain @ drop (k + 1) chain],
                    num_items := num_items lh - 1\<rparr>)))"

text \<open>
  \<open>lh_doall_arg\<close> for a callback that leaves the table alone: the argument is threaded through the
  calls, and the table may be resized at the end.
\<close>

definition lh_doall_arg ::
    "(nat \<Rightarrow> bytes option) \<Rightarrow> lhash_st option \<Rightarrow> (ptr \<Rightarrow> 'a \<Rightarrow> 'a) \<Rightarrow> 'a \<Rightarrow> 'a \<times> lhash_st option" where
  "lh_doall_arg malloc s func arg =
     (case s of
        None \<Rightarrow> (arg, None)
      | Some lh \<Rightarrow>
          (let lh = (if callback_depth lh < UINT_MAX then lh\<lparr>callback_depth := callback_depth lh + 1\<rparr> else lh);
               arg = foldl (\<lambda>a it. func (idata it) a) arg (concat (map (\<lambda>i. buckets lh ! i) [0..<num_buckets lh]));
               lh = (if callback_depth lh < UINT_MAX then lh\<lparr>callback_depth := callback_depth lh - 1\<rparr> else lh)
           in (arg, Some (lh_maybe_resize malloc lh))))"

definition lh_strhash :: "bytes option \<Rightarrow> u32" where
  "lh_strhash c = (case c of None \<Rightarrow> 0 | Some c \<Rightarrow> OPENSSL_hash32 c (strlen c))"

section \<open>Invariant\<close>

text \<open>What the table expects of its hash and comparison functions.\<close>

definition hash_ok :: "(ptr \<Rightarrow> u32) \<Rightarrow> (ptr \<Rightarrow> ptr \<Rightarrow> int) \<Rightarrow> bool" where
  "hash_ok H C \<longleftrightarrow> (\<forall>a. C a a = 0) \<and> (\<forall>a b. C a b = 0 \<longrightarrow> C b a = 0 \<and> H a = H b) \<and>
     (\<forall>a b c. C a b = 0 \<longrightarrow> C b c = 0 \<longrightarrow> C a c = 0)"

lemma hash_okD:
  assumes "hash_ok H C"
  shows "C a a = 0" "C a b = 0 \<Longrightarrow> C b a = 0" "C a b = 0 \<Longrightarrow> H a = H b" "C a b = 0 \<Longrightarrow> C b c = 0 \<Longrightarrow> C a c = 0"
  using assms unfolding hash_ok_def by blast+

definition uniq :: "'a multiset \<Rightarrow> bool" where
  "uniq D \<longleftrightarrow> (\<forall>x. count D x \<le> 1)"

lemma uniq_add: "uniq (add_mset x D) \<longleftrightarrow> uniq D \<and> x \<notin># D"
  unfolding uniq_def by (force simp: not_in_iff)

text \<open>Every item is in the bucket of its hash; the hashes are right; no two items are equal.\<close>

definition placed :: "nat \<Rightarrow> lhash_item list list \<Rightarrow> bool" where
  "placed n bs \<longleftrightarrow> length bs = n \<and> 0 < n \<and> (\<forall>b < n. \<forall>it \<in> set (bs ! b). unat (ihash it) mod n = b)"

definition items_ok :: "(ptr \<Rightarrow> u32) \<Rightarrow> (ptr \<Rightarrow> ptr \<Rightarrow> int) \<Rightarrow> lhash_item multiset \<Rightarrow> bool" where
  "items_ok H C M \<longleftrightarrow> (\<forall>it \<in># M. ihash it = H (idata it) \<and> idata it \<noteq> 0) \<and>
     uniq (image_mset idata M) \<and> (\<forall>x \<in># M. \<forall>y \<in># M. C (idata x) (idata y) = 0 \<longrightarrow> idata x = idata y)"

definition lh_items :: "lhash_st \<Rightarrow> lhash_item multiset" where
  "lh_items lh = mset (concat (buckets lh))"

definition lh_elems :: "lhash_st \<Rightarrow> ptr set" where
  "lh_elems lh = idata ` set_mset (lh_items lh)"

definition lh_inv :: "hash_caller \<Rightarrow> cmp_caller \<Rightarrow> lhash_st \<Rightarrow> bool" where
  "lh_inv call_hash call_cmp lh \<longleftrightarrow>
     placed (num_buckets lh) (buckets lh) \<and> kMinNumBuckets \<le> num_buckets lh \<and>
     num_items lh = size (lh_items lh) \<and> items_ok (call_hash (lhash lh)) (call_cmp (lcomp lh)) (lh_items lh)"

lemma mset_concat_update:
  assumes "b < length bs" "mset (bs ! b) = A + B" "mset c = A + B'"
  shows "mset (concat (bs[b := c])) = mset (concat bs) - B + B'"
proof -
  have "bs = take b bs @ bs ! b # drop (Suc b) bs" using assms(1) by (rule id_take_nth_drop)
  then have "mset (concat bs) = mset (concat (take b bs)) + (A + B) + mset (concat (drop (Suc b) bs))"
    using assms(2) by (metis concat.simps(2) concat_append mset_append add.assoc)
  then show ?thesis
    using assms(1,3) by (simp add: upd_conv_take_nth_drop)
qed

lemma all_buckets: "length (buckets lh) = num_buckets lh \<Longrightarrow> map (\<lambda>i. buckets lh ! i) [0..<num_buckets lh] = buckets lh"
  using map_nth [of "buckets lh"] by simp

text \<open>The effect of the changes on the set of elements.\<close>

lemma items_ok_add:
  assumes "items_ok H C M" "hash_ok H C" "\<forall>it \<in># M. C (idata it) d \<noteq> 0" "d \<noteq> 0"
  shows "items_ok H C (add_mset \<lparr>idata = d, ihash = H d\<rparr> M)"
proof -
  have new: "d \<notin> idata ` set_mset M" using assms(3) hash_okD(1) [OF assms(2)] by auto
  have sym: "\<forall>it \<in># M. C d (idata it) \<noteq> 0" using assms(3) hash_okD(2) [OF assms(2)] by blast
  have M: "\<forall>it \<in># M. ihash it = H (idata it) \<and> idata it \<noteq> 0" "uniq (image_mset idata M)"
    "\<forall>x \<in># M. \<forall>y \<in># M. C (idata x) (idata y) = 0 \<longrightarrow> idata x = idata y"
    using assms(1) unfolding items_ok_def by blast+
  show ?thesis
    unfolding items_ok_def
  proof (intro conjI)
    show "uniq (image_mset idata (add_mset \<lparr>idata = d, ihash = H d\<rparr> M))" using M(2) new by (simp add: uniq_add)
  qed (use M(1,3) assms(3,4) sym in simp_all)
qed

lemma items_ok_remove:
  assumes "items_ok H C M" "it \<in># M"
  shows "items_ok H C (M - {#it#})" "idata ` set_mset (M - {#it#}) = idata ` set_mset M - {idata it}"
proof -
  obtain N where M: "M = add_mset it N" using assms(2) by (meson mset_add)
  have N: "uniq (image_mset idata N)" "idata it \<notin> idata ` set_mset N"
    using assms(1) unfolding items_ok_def M by (auto simp: uniq_add)
  show "items_ok H C (M - {#it#})" using assms(1) N(1) by (auto simp: items_ok_def M)
  show "idata ` set_mset (M - {#it#}) = idata ` set_mset M - {idata it}" using N(2) by (auto simp: M)
qed

lemma items_ok_replace:
  assumes "items_ok H C M" "hash_ok H C" "it \<in># M" "C (idata it) d = 0" "d \<noteq> 0"
  shows "items_ok H C (M - {#it#} + {#it\<lparr>idata := d\<rparr>#})"
proof -
  note rm = items_ok_remove [OF assms(1,3)]
  have "C (idata x) d \<noteq> 0" if "x \<in># M - {#it#}" for x
  proof
    assume "C (idata x) d = 0"
    then have "C (idata x) (idata it) = 0" using hash_okD(2,4) [OF assms(2)] assms(4) by blast
    moreover have "x \<in># M" using that by (rule in_diffD)
    ultimately have "idata x = idata it" using assms(1,3) unfolding items_ok_def by blast
    then show False using rm(2) that by auto
  qed
  then have "items_ok H C (add_mset \<lparr>idata = d, ihash = H d\<rparr> (M - {#it#}))"
    using items_ok_add [OF rm(1) assms(2)] assms(5) by blast
  moreover have "ihash it = H d" using assms(1,3,4) hash_okD(3) [OF assms(2)] unfolding items_ok_def by metis
  then have "it\<lparr>idata := d\<rparr> = \<lparr>idata = d, ihash = H d\<rparr>" by (cases it) simp
  ultimately show ?thesis by simp
qed

section \<open>Searching a chain\<close>

lemma chain_pos_cases:
  obtains (found) "chain_pos P c < length c" "P (idata (c ! chain_pos P c))"
    | (absent) "chain_pos P c = length c" "\<forall>it \<in> set c. \<not> P (idata it)"
proof -
  have "(chain_pos P c < length c \<and> P (idata (c ! chain_pos P c))) \<or>
      (chain_pos P c = length c \<and> (\<forall>it \<in> set c. \<not> P (idata it)))"
    by (induction c) auto
  then show thesis using found absent by blast
qed

lemma get_next_ptr_form: "\<exists>b k h. get_next_ptr_and_hash call_hash call_cmp lh d = ((b, k), h)"
  by (simp add: get_next_ptr_and_hash_def Let_def)

text \<open>Either the item is found, and its chain splits around it, or no element is equal.\<close>

lemma get_next_ptr_cases:
  assumes inv: "lh_inv call_hash call_cmp lh" and ok: "hash_ok (call_hash (lhash lh)) (call_cmp (lcomp lh))"
    and g: "get_next_ptr_and_hash call_hash call_cmp lh d = ((b, k), h)"
  obtains (found) it where "deref lh (b, k) = Some it" "it \<in># lh_items lh" "call_cmp (lcomp lh) (idata it) d = 0"
      "b < num_buckets lh" "k < length (buckets lh ! b)" "it = buckets lh ! b ! k" "h = call_hash (lhash lh) d"
    | (absent) "deref lh (b, k) = None" "\<forall>it \<in># lh_items lh. call_cmp (lcomp lh) (idata it) d \<noteq> 0"
      "b < num_buckets lh" "k = length (buckets lh ! b)" "h = call_hash (lhash lh) d" "b = unat h mod num_buckets lh"
proof -
  let ?P = "\<lambda>e. call_cmp (lcomp lh) e d = 0"
  have pl: "length (buckets lh) = num_buckets lh" "0 < num_buckets lh"
    "\<forall>b < num_buckets lh. \<forall>it \<in> set (buckets lh ! b). unat (ihash it) mod num_buckets lh = b"
    using inv by (simp_all add: lh_inv_def placed_def)
  have h: "h = call_hash (lhash lh) d" and b: "b = unat h mod num_buckets lh" and k: "k = chain_pos ?P (buckets lh ! b)"
    using g by (auto simp: get_next_ptr_and_hash_def Let_def)
  have bn: "b < num_buckets lh" using pl(2) b by simp
  have mem: "set (buckets lh ! b') \<subseteq> set_mset (lh_items lh)" if "b' < num_buckets lh" for b'
    using that pl(1) by (force simp: lh_items_def)
  show thesis
  proof (cases rule: chain_pos_cases [of ?P "buckets lh ! b"])
    case found
    then have "buckets lh ! b ! k \<in> set (buckets lh ! b)" using k by simp
    then have "buckets lh ! b ! k \<in># lh_items lh" using mem [OF bn] by blast
    then show thesis using that(1) [of "buckets lh ! b ! k"] found k bn h by (simp add: deref_def)
  next
    case absent
    have "\<not> ?P (idata it)" if "it \<in># lh_items lh" for it
    proof
      assume eq: "?P (idata it)"
      then have "ihash it = h" 
        using inv hash_okD(3) [OF ok] that h unfolding lh_inv_def items_ok_def by metis
      moreover obtain b' where "b' < num_buckets lh" "it \<in> set (buckets lh ! b')"
      proof -
        obtain c where "c \<in> set (buckets lh)" "it \<in> set c" using \<open>it \<in># lh_items lh\<close> by (auto simp: lh_items_def)
        then show ?thesis using that pl(1) by (metis in_set_conv_nth)
      qed
      ultimately have "it \<in> set (buckets lh ! b)" using pl(3) b by auto
      then show False using absent(2) eq by blast
    qed
    then show thesis using that(2) absent(1) k bn h b by (auto simp: deref_def)
  qed
qed

section \<open>Resizing\<close>

lemma rebucket_items:
  assumes "placed n bs"
  shows "placed n (foldl (rebucket_item n) bs xs) \<and> mset (concat (foldl (rebucket_item n) bs xs)) = mset (concat bs) + mset xs"
  using assms
proof (induction xs arbitrary: bs)
  case (Cons x xs)
  let ?b = "unat (ihash x) mod n"
  have b: "?b < length bs" "length bs = n" "0 < n" using Cons.prems by (auto simp: placed_def)
  have pl: "placed n (rebucket_item n bs x)"
    using Cons.prems b by (auto simp: placed_def rebucket_item_def Let_def nth_list_update)
  have "mset (concat (rebucket_item n bs x)) = mset (concat bs) + {#x#}"
    using mset_concat_update [OF b(1), of "mset (bs ! ?b)" "{#}" "x # bs ! ?b" "{#x#}"]
    by (simp add: rebucket_item_def Let_def)
  then show ?case using Cons.IH [OF pl] by simp
qed simp

definition same_table :: "lhash_st \<Rightarrow> lhash_st \<Rightarrow> bool" where
  "same_table lh lh' \<longleftrightarrow> lh_items lh' = lh_items lh \<and> num_items lh' = num_items lh \<and>
     callback_depth lh' = callback_depth lh \<and> lcomp lh' = lcomp lh \<and> lhash lh' = lhash lh"

lemma lh_rebucket_law:
  assumes pl: "placed (num_buckets lh) (buckets lh)" and n: "0 < n"
  shows "same_table lh (lh_rebucket malloc lh n) \<and>
     (lh_rebucket malloc lh n = lh \<or>
      placed n (buckets (lh_rebucket malloc lh n)) \<and> num_buckets (lh_rebucket malloc lh n) = n)"
proof -
  have "length (buckets lh) = num_buckets lh" using pl by (simp add: placed_def)
  note all = all_buckets [OF this]
  have "placed n (replicate n [])" "mset (concat (replicate n [])) = {#}" using n by (simp_all add: placed_def)
  with rebucket_items [OF this(1), of "concat (buckets lh)"] show ?thesis
    by (auto simp: lh_rebucket_def Let_def all same_table_def lh_items_def split: option.split)
qed

lemma lh_maybe_resize_law:
  assumes pl: "placed (num_buckets lh) (buckets lh)" "kMinNumBuckets \<le> num_buckets lh"
  shows "same_table lh (lh_maybe_resize malloc lh) \<and>
     placed (num_buckets (lh_maybe_resize malloc lh)) (buckets (lh_maybe_resize malloc lh)) \<and>
     kMinNumBuckets \<le> num_buckets (lh_maybe_resize malloc lh)"
proof -
  have refl: "same_table lh lh" by (simp add: same_table_def)
  have r: "same_table lh (lh_rebucket malloc lh n) \<and> placed (num_buckets (lh_rebucket malloc lh n)) (buckets (lh_rebucket malloc lh n)) \<and>
      kMinNumBuckets \<le> num_buckets (lh_rebucket malloc lh n)" if "kMinNumBuckets \<le> n" for n
    using lh_rebucket_law [OF pl(1), of n malloc] that pl by (auto simp: kMinNumBuckets_def)
  show ?thesis
    unfolding lh_maybe_resize_def Let_def
    using refl pl r [of "size_wrap (num_buckets lh * 2)"] r [of kMinNumBuckets] r [of "num_buckets lh div 2"]
    by simp
qed

lemma lh_resized:
  assumes "placed (num_buckets lh) (buckets lh)" "kMinNumBuckets \<le> num_buckets lh" "num_items lh = size (lh_items lh)"
    and "items_ok (call_hash (lhash lh)) (call_cmp (lcomp lh)) (lh_items lh)"
  shows "lh_inv call_hash call_cmp (lh_maybe_resize malloc lh) \<and> lh_elems (lh_maybe_resize malloc lh) = lh_elems lh \<and>
    lhash (lh_maybe_resize malloc lh) = lhash lh \<and> lcomp (lh_maybe_resize malloc lh) = lcomp lh"
  using lh_maybe_resize_law [OF assms(1,2), of malloc] assms(3,4)
  by (simp add: lh_inv_def same_table_def lh_elems_def)

section \<open>Operations\<close>

lemma placed_update:
  assumes "placed n bs" "b < n" "\<forall>it \<in> set c. unat (ihash it) mod n = b"
  shows "placed n (bs[b := c])"
  using assms by (auto simp: placed_def nth_list_update)

lemma chain_split:
  assumes "k < length c"
  shows "mset c = mset (take k c @ drop (k + 1) c) + {#c ! k#}"
proof -
  have "mset c = mset (take k c @ c ! k # drop (Suc k) c)" by (simp only: id_take_nth_drop [OF assms, symmetric])
  also have "\<dots> = mset (take k c @ drop (k + 1) c) + {#c ! k#}" by simp
  finally show ?thesis .
qed

lemma lh_retrieve_law:
  assumes inv: "lh_inv call_hash call_cmp lh" and ok: "hash_ok (call_hash (lhash lh)) (call_cmp (lcomp lh))"
  shows "let r = lh_retrieve call_hash call_cmp lh d in
     (r \<in> lh_elems lh \<and> call_cmp (lcomp lh) r d = 0) \<or> (r = 0 \<and> (\<forall>x \<in> lh_elems lh. call_cmp (lcomp lh) x d \<noteq> 0))"
proof -
  obtain b k h where g: "get_next_ptr_and_hash call_hash call_cmp lh d = ((b, k), h)"
    using get_next_ptr_form by blast
  from inv ok g show ?thesis
  proof (cases rule: get_next_ptr_cases)
    case (found it)
    have "lh_retrieve call_hash call_cmp lh d = idata it" using found(1) by (simp add: lh_retrieve_def g)
    note e = this
    show ?thesis unfolding Let_def lh_elems_def e using found(2,3) by blast
  next
    case absent
    have "lh_retrieve call_hash call_cmp lh d = 0" using absent(1) by (simp add: lh_retrieve_def g)
    then show ?thesis unfolding Let_def lh_elems_def using absent(2) by blast
  qed
qed

text \<open>A lookup by a key is the lookup of any element that the key stands for.\<close>

lemma lh_retrieve_key_eq:
  assumes "\<And>e. cmp_key key e = 0 \<longleftrightarrow> call_cmp (lcomp lh) e d = 0" "key_hash = call_hash (lhash lh) d"
  shows "lh_retrieve_key lh key key_hash cmp_key = lh_retrieve call_hash call_cmp lh d"
  by (simp add: lh_retrieve_key_def lh_retrieve_def get_next_ptr_by_key_def get_next_ptr_and_hash_def Let_def assms)

text \<open>The elements that an insertion or a deletion keeps.\<close>

definition others :: "cmp_caller \<Rightarrow> lhash_st \<Rightarrow> ptr \<Rightarrow> ptr set" where
  "others call_cmp lh d = {x \<in> lh_elems lh. call_cmp (lcomp lh) x d \<noteq> 0}"

lemma others_found:
  assumes inv: "lh_inv call_hash call_cmp lh" and ok: "hash_ok (call_hash (lhash lh)) (call_cmp (lcomp lh))"
    and it: "it \<in># lh_items lh" "call_cmp (lcomp lh) (idata it) d = 0"
  shows "others call_cmp lh d = lh_elems lh - {idata it}"
proof -
  have same: "idata x = idata it" if "x \<in># lh_items lh" "call_cmp (lcomp lh) (idata x) d = 0" for x
  proof -
    have "call_cmp (lcomp lh) (idata x) (idata it) = 0"
      using hash_okD(4) [OF ok that(2) hash_okD(2) [OF ok it(2)]] .
    then show ?thesis using inv that(1) it(1) by (simp add: lh_inv_def items_ok_def)
  qed
  show ?thesis
  proof (rule set_eqI, rule iffI)
    fix e assume "e \<in> others call_cmp lh d"
    then show "e \<in> lh_elems lh - {idata it}" using it(2) unfolding others_def by blast
  next
    fix e assume e: "e \<in> lh_elems lh - {idata it}"
    then obtain x where "x \<in># lh_items lh" "e = idata x" unfolding lh_elems_def by blast
    with e same [of x] show "e \<in> others call_cmp lh d" unfolding others_def by blast
  qed
qed

lemma others_absent: "\<forall>it \<in># lh_items lh. call_cmp (lcomp lh) (idata it) d \<noteq> 0 \<Longrightarrow> others call_cmp lh d = lh_elems lh"
  by (auto simp: others_def lh_elems_def)

lemma lh_invD:
  assumes "lh_inv call_hash call_cmp lh"
  shows "placed (num_buckets lh) (buckets lh)" "kMinNumBuckets \<le> num_buckets lh" "num_items lh = size (lh_items lh)"
    "items_ok (call_hash (lhash lh)) (call_cmp (lcomp lh)) (lh_items lh)" "length (buckets lh) = num_buckets lh"
    "b < num_buckets lh \<Longrightarrow> it \<in> set (buckets lh ! b) \<Longrightarrow> unat (ihash it) mod num_buckets lh = b"
  using assms by (auto simp: lh_inv_def placed_def)

lemma lh_insert_law:
  assumes inv: "lh_inv call_hash call_cmp lh" and ok: "hash_ok (call_hash (lhash lh)) (call_cmp (lcomp lh))" and d: "d \<noteq> 0"
    and r: "lh_insert malloc call_hash call_cmp lh d = ((flag, old), lh')"
  shows "lh_inv call_hash call_cmp lh' \<and> lhash lh' = lhash lh \<and> lcomp lh' = lcomp lh \<and>
     (if flag then old = lh_retrieve call_hash call_cmp lh d \<and> lh_elems lh' = insert d (others call_cmp lh d)
      else old = 0 \<and> lh' = lh)"
proof -
  obtain b k h where g: "get_next_ptr_and_hash call_hash call_cmp lh d = ((b, k), h)"
    using get_next_ptr_form by blast
  note I = lh_invD [OF inv]
  from inv ok g show ?thesis
  proof (cases rule: get_next_ptr_cases)
    case (found it)
    let ?c = "buckets lh ! b" and ?it = "it\<lparr>idata := d\<rparr>"
    have lh': "lh' = lh\<lparr>buckets := (buckets lh)[b := ?c[k := ?it]]\<rparr>" "flag" "old = idata it"
      using r found(1) by (auto simp: lh_insert_def g)
    have "mset (?c[k := ?it]) = mset (take k ?c @ drop (k + 1) ?c) + {#?it#}"
      using found(5) by (simp add: upd_conv_take_nth_drop)
    from mset_concat_update [OF _ chain_split [OF found(5)] this]
    have M: "lh_items lh' = lh_items lh - {#it#} + {#?it#}"
      using found(4,6) I(5) by (simp add: lh' lh_items_def)
    have "items_ok (call_hash (lhash lh)) (call_cmp (lcomp lh)) (lh_items lh')"
      unfolding M by (rule items_ok_replace [OF I(4) ok found(2,3) d])
    moreover have "size (lh_items lh') = size (lh_items lh)"
      unfolding M using found(2) by (simp add: size_Suc_Diff1)
    moreover have "placed (num_buckets lh) ((buckets lh)[b := ?c[k := ?it]])"
      using I(6) [OF found(4)] found(5,6)
      by (intro placed_update [OF I(1) found(4)]) (auto dest!: set_update_subset_insert [THEN subsetD])
    ultimately have "lh_inv call_hash call_cmp lh'" using I(2,3) by (simp add: lh_inv_def lh')
    moreover have "lh_elems lh' = insert d (others call_cmp lh d)"
      unfolding others_found [OF inv ok found(2,3)] lh_elems_def M
      using items_ok_remove(2) [OF I(4) found(2)] by auto
    moreover have "lh_retrieve call_hash call_cmp lh d = idata it" using found(1) by (simp add: lh_retrieve_def g)
    ultimately show ?thesis using lh' by simp
  next
    case absent
    let ?c = "buckets lh ! b" and ?it = "\<lparr>idata = d, ihash = h\<rparr>"
    let ?lh = "lh\<lparr>buckets := (buckets lh)[b := take k ?c @ [?it]], num_items := num_items lh + 1\<rparr>"
    show ?thesis
    proof (cases "OPENSSL_malloc malloc sizeof_LHASH_ITEM")
      case None
      then show ?thesis using r absent(1) inv by (auto simp: lh_insert_def g)
    next
      case (Some blk)
      then have lh': "lh' = lh_maybe_resize malloc ?lh" "flag" "old = 0"
        using r absent(1) by (auto simp: lh_insert_def g)
      have M: "lh_items ?lh = add_mset ?it (lh_items lh)"
        using mset_concat_update [of b "buckets lh" "mset ?c" "{#}" "?c @ [?it]" "{#?it#}"] absent(3,4) I(5)
        by (simp add: lh_items_def)
      have "items_ok (call_hash (lhash lh)) (call_cmp (lcomp lh)) (lh_items ?lh)"
        unfolding M using items_ok_add [OF I(4) ok absent(2) d] by (simp add: absent(5))
      moreover have "placed (num_buckets lh) (buckets ?lh)"
      proof -
        have "\<forall>it \<in> set (take k ?c @ [?it]). unat (ihash it) mod num_buckets lh = b"
          using I(6) [OF absent(3)] absent(4,6) by auto
        from placed_update [OF I(1) absent(3) this] show ?thesis by simp
      qed
      ultimately have "lh_inv call_hash call_cmp lh' \<and> lh_elems lh' = lh_elems ?lh \<and> lhash lh' = lhash lh \<and> lcomp lh' = lcomp lh"
        using lh_resized [of ?lh call_hash call_cmp malloc] I(2,3) M lh'(1) by simp
      moreover have "lh_elems ?lh = insert d (others call_cmp lh d)"
        unfolding others_absent [of lh call_cmp d, OF absent(2)] lh_elems_def M by simp
      moreover have "lh_retrieve call_hash call_cmp lh d = 0" using absent(1) by (simp add: lh_retrieve_def g)
      ultimately show ?thesis using lh'(2,3) by simp
    qed
  qed
qed

lemma lh_delete_law:
  assumes inv: "lh_inv call_hash call_cmp lh" and ok: "hash_ok (call_hash (lhash lh)) (call_cmp (lcomp lh))"
    and r: "lh_delete malloc call_hash call_cmp lh d = (old, lh')"
  shows "lh_inv call_hash call_cmp lh' \<and> lhash lh' = lhash lh \<and> lcomp lh' = lcomp lh \<and>
     old = lh_retrieve call_hash call_cmp lh d \<and> lh_elems lh' = others call_cmp lh d"
proof -
  obtain b k h where g: "get_next_ptr_and_hash call_hash call_cmp lh d = ((b, k), h)"
    using get_next_ptr_form by blast
  note I = lh_invD [OF inv]
  from inv ok g show ?thesis
  proof (cases rule: get_next_ptr_cases)
    case (found it)
    let ?c = "buckets lh ! b"
    let ?lh = "lh\<lparr>buckets := (buckets lh)[b := take k ?c @ drop (k + 1) ?c], num_items := num_items lh - 1\<rparr>"
    have lh': "lh' = lh_maybe_resize malloc ?lh" "old = idata it"
      using r found(1) by (auto simp: lh_delete_def g Let_def)
    have "mset (take k ?c @ drop (k + 1) ?c) = mset (take k ?c @ drop (k + 1) ?c) + {#}" by simp
    from mset_concat_update [OF _ chain_split [OF found(5)] this]
    have M: "lh_items ?lh = lh_items lh - {#it#}" using found(4,6) I(5) by (simp add: lh_items_def)
    have "items_ok (call_hash (lhash lh)) (call_cmp (lcomp lh)) (lh_items ?lh)"
      unfolding M by (rule items_ok_remove(1) [OF I(4) found(2)])
    moreover have "placed (num_buckets lh) (buckets ?lh)"
      using I(6) [OF found(4)]
      by (simp, intro placed_update [OF I(1) found(4)]) (auto dest: in_set_takeD in_set_dropD)
    moreover have "size (lh_items ?lh) = size (lh_items lh) - 1" unfolding M by (rule size_Diff_singleton [OF found(2)])
    ultimately have "lh_inv call_hash call_cmp lh' \<and> lh_elems lh' = lh_elems ?lh \<and> lhash lh' = lhash lh \<and> lcomp lh' = lcomp lh"
      using lh_resized [of ?lh call_hash call_cmp malloc] I(2,3) lh'(1) by simp
    moreover have "lh_elems ?lh = others call_cmp lh d"
      unfolding others_found [OF inv ok found(2,3)] lh_elems_def M by (rule items_ok_remove(2) [OF I(4) found(2)])
    moreover have "lh_retrieve call_hash call_cmp lh d = idata it" using found(1) by (simp add: lh_retrieve_def g)
    ultimately show ?thesis using lh'(2) by simp
  next
    case absent
    have "lh_retrieve call_hash call_cmp lh d = 0" using absent(1) by (simp add: lh_retrieve_def g)
    moreover have "lh' = lh" "old = 0" using r absent(1) by (simp_all add: lh_delete_def g Let_def)
    ultimately show ?thesis
      using inv others_absent [of lh call_cmp d, OF absent(2)] by simp
  qed
qed

section \<open>The interface of a table\<close>

text \<open>
  A table of pointers up to an equality: insertion replaces the equal element, deletion removes
  it, and retrieval returns it. A client sees a set with at most one element of each class.
\<close>

datatype table_op = Ins ptr | Del ptr

fun run_ops :: "('s \<Rightarrow> ptr \<Rightarrow> (bool \<times> ptr) \<times> 's) \<Rightarrow> ('s \<Rightarrow> ptr \<Rightarrow> ptr \<times> 's) \<Rightarrow> table_op list \<Rightarrow> 's \<Rightarrow> bool \<times> 's" where
  "run_ops ins del [] s = (True, s)"
| "run_ops ins del (Ins d # ops) s = (case ins s d of ((flag, _), s) \<Rightarrow> if flag then run_ops ins del ops s else (False, s))"
| "run_ops ins del (Del d # ops) s = run_ops ins del ops (snd (del s d))"

fun spec_ops :: "(ptr \<Rightarrow> ptr \<Rightarrow> bool) \<Rightarrow> table_op list \<Rightarrow> ptr set \<Rightarrow> ptr set" where
  "spec_ops eq [] D = D"
| "spec_ops eq (Ins d # ops) D = spec_ops eq ops (insert d {x \<in> D. \<not> eq x d})"
| "spec_ops eq (Del d # ops) D = spec_ops eq ops {x \<in> D. \<not> eq x d}"

fun op_ok :: "table_op \<Rightarrow> bool" where
  "op_ok (Ins d) = (d \<noteq> 0)"
| "op_ok (Del d) = True"

locale table =
  fixes inv :: "'s \<Rightarrow> bool" and elems :: "'s \<Rightarrow> ptr set" and eq :: "ptr \<Rightarrow> ptr \<Rightarrow> bool"
    and ret :: "'s \<Rightarrow> ptr \<Rightarrow> ptr" and ins :: "'s \<Rightarrow> ptr \<Rightarrow> (bool \<times> ptr) \<times> 's" and del :: "'s \<Rightarrow> ptr \<Rightarrow> ptr \<times> 's"
  assumes ret_law: "inv s \<Longrightarrow> (ret s d \<in> elems s \<and> eq (ret s d) d) \<or> (ret s d = 0 \<and> (\<forall>x \<in> elems s. \<not> eq x d))"
    and ins_law: "inv s \<Longrightarrow> d \<noteq> 0 \<Longrightarrow> ins s d = ((flag, old), s') \<Longrightarrow>
      inv s' \<and> (if flag then old = ret s d \<and> elems s' = insert d {x \<in> elems s. \<not> eq x d} else old = 0 \<and> s' = s)"
    and del_law: "inv s \<Longrightarrow> del s d = (old, s') \<Longrightarrow> inv s' \<and> old = ret s d \<and> elems s' = {x \<in> elems s. \<not> eq x d}"
begin

lemma run_ops_law:
  "inv s \<Longrightarrow> list_all op_ok ops \<Longrightarrow> run_ops ins del ops s = (flag, s') \<Longrightarrow>
   inv s' \<and> (flag \<longrightarrow> elems s' = spec_ops eq ops (elems s))"
proof (induction ops arbitrary: s)
  case (Cons op ops)
  show ?case
  proof (cases op)
    case (Ins d)
    obtain f old s1 where i: "ins s d = ((f, old), s1)" using prod.exhaust by metis
    have l: "inv s1" "f \<Longrightarrow> elems s1 = insert d {x \<in> elems s. \<not> eq x d}"
      using ins_law [OF Cons.prems(1) _ i] Cons.prems(2) Ins by auto
    show ?thesis
      using Cons.IH [OF l(1)] Cons.prems(2,3) Ins i l by (cases f) auto
  next
    case (Del d)
    have "inv (snd (del s d))" "elems (snd (del s d)) = {x \<in> elems s. \<not> eq x d}"
      using del_law [OF Cons.prems(1), of d "fst (del s d)" "snd (del s d)"] by auto
    then show ?thesis using Cons.IH Cons.prems(2,3) Del by auto
  qed
qed simp

text \<open>After any operations, retrieval decides membership in the specified set.\<close>

lemma retrieve_after:
  assumes "inv s" "list_all op_ok ops" "run_ops ins del ops s = (True, s')"
  shows "(ret s' d \<in> spec_ops eq ops (elems s) \<and> eq (ret s' d) d) \<or>
     (ret s' d = 0 \<and> (\<forall>x \<in> spec_ops eq ops (elems s). \<not> eq x d))"
  using run_ops_law [OF assms] ret_law [of s' d] by auto

end

text \<open>The hash table is one, for every hash and comparison function that satisfy their contract.\<close>

definition lh_good :: "hash_caller \<Rightarrow> cmp_caller \<Rightarrow> ptr \<Rightarrow> ptr \<Rightarrow> lhash_st \<Rightarrow> bool" where
  "lh_good call_hash call_cmp h c lh \<longleftrightarrow> lh_inv call_hash call_cmp lh \<and> lhash lh = h \<and> lcomp lh = c \<and>
     hash_ok (call_hash h) (call_cmp c)"

interpretation lh_table: table "lh_good call_hash call_cmp h c" lh_elems "\<lambda>x y. call_cmp c x y = 0"
    "lh_retrieve call_hash call_cmp" "lh_insert malloc call_hash call_cmp" "lh_delete malloc call_hash call_cmp"
  for call_hash call_cmp h c malloc
proof
  fix lh d
  assume "lh_good call_hash call_cmp h c lh"
  then show "(lh_retrieve call_hash call_cmp lh d \<in> lh_elems lh \<and> call_cmp c (lh_retrieve call_hash call_cmp lh d) d = 0) \<or>
     (lh_retrieve call_hash call_cmp lh d = 0 \<and> (\<forall>x \<in> lh_elems lh. call_cmp c x d \<noteq> 0))"
    using lh_retrieve_law [of call_hash call_cmp lh d] by (auto simp: lh_good_def Let_def)
next
  fix lh d flag old lh'
  assume a: "lh_good call_hash call_cmp h c lh" "d \<noteq> 0" "lh_insert malloc call_hash call_cmp lh d = ((flag, old), lh')"
  then show "lh_good call_hash call_cmp h c lh' \<and>
     (if flag then old = lh_retrieve call_hash call_cmp lh d \<and> lh_elems lh' = insert d {x \<in> lh_elems lh. call_cmp c x d \<noteq> 0}
      else old = 0 \<and> lh' = lh)"
    using lh_insert_law [OF _ _ a(2,3)] by (auto simp: lh_good_def others_def)
next
  fix lh d old lh'
  assume a: "lh_good call_hash call_cmp h c lh" "lh_delete malloc call_hash call_cmp lh d = (old, lh')"
  then show "lh_good call_hash call_cmp h c lh' \<and> old = lh_retrieve call_hash call_cmp lh d \<and>
     lh_elems lh' = {x \<in> lh_elems lh. call_cmp c x d \<noteq> 0}"
    using lh_delete_law [OF _ _ a(2)] by (auto simp: lh_good_def others_def)
qed

section \<open>Iteration and load\<close>

lemma lh_new_law:
  assumes "lh_new malloc h c = Some lh"
  shows "lh_inv call_hash call_cmp lh" "lh_elems lh = {}" "lhash lh = h" "lcomp lh = c"
    "callback_depth lh = 0" "num_items lh = 0" "num_buckets lh = kMinNumBuckets"
  using assms
  by (auto simp: lh_new_def lh_inv_def placed_def lh_items_def items_ok_def lh_elems_def kMinNumBuckets_def uniq_def
      split: option.splits)

lemma num_items_card: "lh_inv call_hash call_cmp lh \<Longrightarrow> num_items lh = card (lh_elems lh)"
proof -
  assume inv: "lh_inv call_hash call_cmp lh"
  let ?D = "image_mset idata (lh_items lh)"
  have "?D = mset_set (set_mset ?D)"
  proof (rule multiset_eqI)
    fix x
    have "count ?D x \<le> 1" using inv by (simp add: lh_inv_def items_ok_def uniq_def)
    then show "count ?D x = count (mset_set (set_mset ?D)) x"
      using count_greater_zero_iff [of ?D x] by (auto simp: count_mset_set' simp del: count_greater_zero_iff)
  qed
  then have "size ?D = card (set_mset ?D)" by (metis size_mset_set)
  then show ?thesis using inv by (simp add: lh_inv_def lh_elems_def)
qed

text \<open>The data of all items, in the order of an iteration.\<close>

definition lh_data :: "lhash_st \<Rightarrow> ptr list" where
  "lh_data lh = map idata (concat (buckets lh))"

lemma lh_data_law:
  assumes "lh_inv call_hash call_cmp lh"
  shows "distinct (lh_data lh)" "set (lh_data lh) = lh_elems lh" "length (lh_data lh) = num_items lh"
proof -
  show s: "set (lh_data lh) = lh_elems lh" by (simp add: lh_data_def lh_elems_def lh_items_def)
  show l: "length (lh_data lh) = num_items lh" using assms by (simp add: lh_data_def lh_inv_def lh_items_def)
  show "distinct (lh_data lh)" using l num_items_card [OF assms] s by (metis card_distinct)
qed

lemma OPENSSL_malloc_total:
  assumes "\<forall>n \<le> PTRDIFF_MAX. malloc n \<noteq> None" "sz + 8 \<le> PTRDIFF_MAX"
  shows "OPENSSL_malloc malloc sz \<noteq> None"
proof -
  have "malloc (sz + 8) \<noteq> None" "sz + 8 < 2 ^ 64" using assms by (simp_all add: PTRDIFF_MAX_def)
  then show ?thesis by (auto simp: OPENSSL_malloc_def OPENSSL_MALLOC_PREFIX_def split: option.split)
qed

text \<open>One resizing step brings the load back under the bound.\<close>

lemma lh_maybe_resize_load:
  assumes "placed (num_buckets lh) (buckets lh)" "\<forall>n \<le> PTRDIFF_MAX. malloc n \<noteq> None"
    and "callback_depth lh = 0" "16 * num_buckets lh \<le> 2 ^ 63 - 16" "num_items lh \<le> 3 * num_buckets lh"
  shows "num_items (lh_maybe_resize malloc lh) < 3 * num_buckets (lh_maybe_resize malloc lh) \<and>
    num_buckets (lh_maybe_resize malloc lh) \<le> max (num_buckets lh) (num_items lh)"
proof -
  have n: "0 < num_buckets lh" using assms(1) by (simp add: placed_def)
  have reb: "num_buckets (lh_rebucket malloc lh k) = k" "num_items (lh_rebucket malloc lh k) = num_items lh"
    if "8 * k \<le> 2 ^ 63 - 16" for k
  proof -
    have "OPENSSL_malloc malloc (8 * k) \<noteq> None"
      by (rule OPENSSL_malloc_total [OF assms(2)]) (use that in \<open>simp add: PTRDIFF_MAX_def\<close>)
    then show "num_buckets (lh_rebucket malloc lh k) = k" "num_items (lh_rebucket malloc lh k) = num_items lh"
      using that by (auto simp: lh_rebucket_def size_wrap_def Let_def split: option.split)
  qed
  consider (grow) "num_items lh = 3 * num_buckets lh" | (shrink) "num_items lh < num_buckets lh"
    | (keep) "num_buckets lh \<le> num_items lh" "num_items lh < 3 * num_buckets lh" using assms(5) by linarith
  then show ?thesis
  proof cases
    case grow
    then have "num_items lh div num_buckets lh = 3" using n by simp
    then show ?thesis
      using reb [of "num_buckets lh * 2"] assms(3,4) n grow
      by (simp add: lh_maybe_resize_def Let_def kMaxAverageChainLength_def size_wrap_def)
  next
    case shrink
    then have "num_items lh div num_buckets lh = 0" by simp
    then show ?thesis
      using reb [of "num_buckets lh div 2"] reb [of kMinNumBuckets] assms(3,4) n shrink
      by (auto simp: lh_maybe_resize_def Let_def kMaxAverageChainLength_def kMinAverageChainLength_def kMinNumBuckets_def)
  next
    case keep
    then have "num_items lh div num_buckets lh < 3" "1 \<le> num_items lh div num_buckets lh"
      using n by (simp add: less_mult_imp_div_less, simp add: Suc_leI div_greater_zero_iff)
    then show ?thesis
      using assms(3) keep by (simp add: lh_maybe_resize_def Let_def kMaxAverageChainLength_def kMinAverageChainLength_def)
  qed
qed

text \<open>A table on which at most \<open>k\<close> operations were run: its load and its size are bounded.\<close>

definition lh_load :: "nat \<Rightarrow> lhash_st \<Rightarrow> bool" where
  "lh_load k lh \<longleftrightarrow> callback_depth lh = 0 \<and> num_items lh \<le> k \<and> num_items lh < 3 * num_buckets lh \<and> num_buckets lh \<le> max 16 k"

lemma lh_load_resized:
  assumes load: "lh_load k lh" and bs: "placed (num_buckets lh) bs" and n: "n \<le> num_items lh + 1" "n \<le> k + 1"
    and big: "kMinNumBuckets \<le> num_buckets lh" "k < 2 ^ 58" "\<forall>n \<le> PTRDIFF_MAX. malloc n \<noteq> None"
  shows "lh_load (k + 1) (lh_maybe_resize malloc (lh\<lparr>buckets := bs, num_items := n\<rparr>))"
proof -
  let ?lh = "lh\<lparr>buckets := bs, num_items := n\<rparr>"
  have L: "callback_depth lh = 0" "num_items lh < 3 * num_buckets lh" "num_buckets lh \<le> max 16 k"
    using load by (auto simp: lh_load_def)
  have "num_items (lh_maybe_resize malloc ?lh) < 3 * num_buckets (lh_maybe_resize malloc ?lh) \<and>
      num_buckets (lh_maybe_resize malloc ?lh) \<le> max (num_buckets ?lh) (num_items ?lh)"
    using L n big by (intro lh_maybe_resize_load) (auto simp: bs)
  then have "num_items (lh_maybe_resize malloc ?lh) < 3 * num_buckets (lh_maybe_resize malloc ?lh)"
    "num_buckets (lh_maybe_resize malloc ?lh) \<le> max (num_buckets lh) n" by auto
  moreover have "same_table ?lh (lh_maybe_resize malloc ?lh)"
    using lh_maybe_resize_law [of ?lh malloc] bs big(1) by simp
  ultimately show ?thesis using L n by (auto simp: lh_load_def same_table_def)
qed

lemma lh_insert_load:
  assumes inv: "lh_inv call_hash call_cmp lh" "hash_ok (call_hash (lhash lh)) (call_cmp (lcomp lh))" and load: "lh_load k lh"
    and big: "k < 2 ^ 58" "\<forall>n \<le> PTRDIFF_MAX. malloc n \<noteq> None"
  shows "fst (fst (lh_insert malloc call_hash call_cmp lh d)) \<and> lh_load (k + 1) (snd (lh_insert malloc call_hash call_cmp lh d))"
proof -
  obtain b k' h where g: "get_next_ptr_and_hash call_hash call_cmp lh d = ((b, k'), h)"
    using get_next_ptr_form by blast
  note I = lh_invD [OF inv(1)]
  from inv g show ?thesis
  proof (cases rule: get_next_ptr_cases)
    case (found it)
    then show ?thesis using load by (auto simp: lh_insert_def g lh_load_def)
  next
    case absent
    let ?c = "take k' (buckets lh ! b) @ [\<lparr>idata = d, ihash = h\<rparr>]"
    obtain blk where m: "OPENSSL_malloc malloc sizeof_LHASH_ITEM = Some blk"
      using OPENSSL_malloc_total [OF big(2), of sizeof_LHASH_ITEM] by (auto simp: sizeof_LHASH_ITEM_def PTRDIFF_MAX_def)
    have "\<forall>it \<in> set ?c. unat (ihash it) mod num_buckets lh = b"
      using I(6) [OF absent(3)] absent(4,6) by auto
    from placed_update [OF I(1) absent(3) this] lh_load_resized [OF load _ _ _ I(2) big] load
    have "lh_load (k + 1) (lh_maybe_resize malloc (lh\<lparr>buckets := (buckets lh)[b := ?c], num_items := num_items lh + 1\<rparr>))"
      by (auto simp: lh_load_def)
    then show ?thesis using absent(1) m by (simp add: lh_insert_def g)
  qed
qed

lemma lh_delete_load:
  assumes inv: "lh_inv call_hash call_cmp lh" "hash_ok (call_hash (lhash lh)) (call_cmp (lcomp lh))" and load: "lh_load k lh"
    and big: "k < 2 ^ 58" "\<forall>n \<le> PTRDIFF_MAX. malloc n \<noteq> None"
  shows "lh_load (k + 1) (snd (lh_delete malloc call_hash call_cmp lh d))"
proof -
  obtain b k' h where g: "get_next_ptr_and_hash call_hash call_cmp lh d = ((b, k'), h)"
    using get_next_ptr_form by blast
  note I = lh_invD [OF inv(1)]
  from inv g show ?thesis
  proof (cases rule: get_next_ptr_cases)
    case (found it)
    let ?c = "take k' (buckets lh ! b) @ drop (k' + 1) (buckets lh ! b)"
    have "\<forall>it \<in> set ?c. unat (ihash it) mod num_buckets lh = b"
      using I(6) [OF found(4)] by (auto dest: in_set_takeD in_set_dropD)
    from placed_update [OF I(1) found(4) this] lh_load_resized [OF load _ _ _ I(2) big] load
    have "lh_load (k + 1) (lh_maybe_resize malloc (lh\<lparr>buckets := (buckets lh)[b := ?c], num_items := num_items lh - 1\<rparr>))"
      by (auto simp: lh_load_def)
    then show ?thesis using found(1) by (simp add: lh_delete_def g Let_def)
  next
    case absent
    then show ?thesis using load by (auto simp: lh_delete_def g lh_load_def)
  qed
qed

lemma run_ops_load:
  assumes N: "N \<le> 2 ^ 58" and malloc: "\<forall>n \<le> PTRDIFF_MAX. malloc n \<noteq> None"
  shows "lh_good call_hash call_cmp h c lh \<Longrightarrow> list_all op_ok ops \<Longrightarrow> lh_load k lh \<Longrightarrow> k + length ops \<le> N \<Longrightarrow>
    \<exists>lh'. run_ops (lh_insert malloc call_hash call_cmp) (lh_delete malloc call_hash call_cmp) ops lh = (True, lh') \<and>
     lh_load (k + length ops) lh'"
proof (induction ops arbitrary: lh k)
  case (Cons op ops)
  have I: "lh_inv call_hash call_cmp lh" "hash_ok (call_hash (lhash lh)) (call_cmp (lcomp lh))"
    using Cons.prems(1) by (simp_all add: lh_good_def)
  have "k < N" using Cons.prems(4) by simp
  then have k: "k < 2 ^ 58" using N by (rule less_le_trans)
  show ?case
  proof (cases op)
    case (Ins d)
    obtain flag old lh1 where i: "lh_insert malloc call_hash call_cmp lh d = ((flag, old), lh1)"
      by (cases "lh_insert malloc call_hash call_cmp lh d") auto
    have "flag" "lh_load (k + 1) lh1"
      using lh_insert_load [OF I Cons.prems(3) k malloc, of d] by (simp_all add: i)
    moreover have "lh_good call_hash call_cmp h c lh1"
      using lh_table.ins_law [OF Cons.prems(1) _ i] Cons.prems(2) Ins by simp
    ultimately show ?thesis using Cons.IH [of lh1 "k + 1"] Cons.prems(2,4) Ins by (simp add: i)
  next
    case (Del d)
    let ?lh1 = "snd (lh_delete malloc call_hash call_cmp lh d)"
    have "lh_good call_hash call_cmp h c ?lh1"
      using lh_table.del_law [OF Cons.prems(1) prod.collapse [symmetric], of malloc d] by simp
    with lh_delete_load [OF I Cons.prems(3) k malloc, of d]
    show ?thesis using Cons.IH [of ?lh1 "k + 1"] Cons.prems(2,4) Del by simp
  qed
qed simp

section \<open>Properties\<close>

text \<open>
  C31. A hash table is a set with one element per class of the comparison function: after any
  insertions and deletions on a new table, through every resizing and with resizing failures
  tolerated, its elements are those of the specification, the item count is their number, and a
  lookup finds the equal element exactly when there is one.
\<close>

theorem lhash_is_set:
  assumes "hash_ok (call_hash h) (call_cmp c)" "lh_new malloc0 h c = Some lh" "list_all op_ok ops"
    and "run_ops (lh_insert malloc call_hash call_cmp) (lh_delete malloc call_hash call_cmp) ops lh = (True, lh')"
  shows "lh_elems lh' = spec_ops (\<lambda>x y. call_cmp c x y = 0) ops {} \<and> lh_num_items lh' = card (lh_elems lh') \<and>
     (let r = lh_retrieve call_hash call_cmp lh' d in
      (r \<in> lh_elems lh' \<and> call_cmp c r d = 0) \<or> (r = 0 \<and> (\<forall>x \<in> lh_elems lh'. call_cmp c x d \<noteq> 0)))"
proof -
  have good: "lh_good call_hash call_cmp h c lh"
    using lh_new_law [OF assms(2)] assms(1) by (simp add: lh_good_def)
  note run = lh_table.run_ops_law [OF good assms(3,4)]
  then have "lh_inv call_hash call_cmp lh'" by (simp add: lh_good_def)
  note num_items_card [OF this]
  then show ?thesis
    using run lh_table.ret_law [of call_hash call_cmp h c lh' d] lh_new_law(2) [OF assms(2)]
    by (simp add: lh_num_items_def Let_def)
qed

definition hash_ex :: hash_caller where
  "hash_ex h p = word_of_nat (unat p div 16)"

lemma hash_ex_ok: "hash_ok (hash_ex h) (ptr_cmp c)"
  by (auto simp: hash_ok_def hash_ex_def ptr_cmp_def)

definition lh_alloc :: "nat \<Rightarrow> bytes option" where
  "lh_alloc n = (if n \<le> PTRDIFF_MAX then Some (replicate n 0xa5) else None)"

text \<open>It meets the specification of \<open>malloc\<close>, and never fails for an object that can exist.\<close>

lemma lh_alloc_spec: "malloc_spec lh_alloc" "\<forall>n \<le> PTRDIFF_MAX. lh_alloc n \<noteq> None"
  by (simp_all add: malloc_spec_def lh_alloc_def)

definition ops_ex :: "table_op list" where
  "ops_ex = [Ins 0x10, Ins 0x21, Ins 0x35, Del 0x11, Ins 0x22]"

lemma ops_ex_runs:
  "list_all op_ok ops_ex" "spec_ops (\<lambda>x y. ptr_cmp 1 x y = 0) ops_ex {} = {0x22, 0x35}"
  by (simp add: ops_ex_def) (auto simp: ops_ex_def ptr_cmp_def)

lemma ops_ex_table:
  obtains lh lh' where "lh_new lh_alloc 0 1 = Some lh" "lh_inv hash_ex ptr_cmp lh'" "lh_elems lh' = {0x22, 0x35}"
    "run_ops (lh_insert lh_alloc hash_ex ptr_cmp) (lh_delete lh_alloc hash_ex ptr_cmp) ops_ex lh = (True, lh')"
proof -
  obtain lh where new: "lh_new lh_alloc 0 1 = Some lh" 
    by (simp add: lh_new_def OPENSSL_malloc_def lh_alloc_def sizeof_LHASH_def kMinNumBuckets_def OPENSSL_MALLOC_PREFIX_def PTRDIFF_MAX_def)
  note law = lh_new_law [OF new]
  have good: "lh_good hash_ex ptr_cmp 0 1 lh" using law hash_ex_ok by (simp add: lh_good_def)
  moreover have "lh_load 0 lh" using law by (simp add: lh_load_def kMinNumBuckets_def)
  ultimately obtain lh' where "run_ops (lh_insert lh_alloc hash_ex ptr_cmp) (lh_delete lh_alloc hash_ex ptr_cmp) ops_ex lh = (True, lh')"
    using run_ops_load [OF _ lh_alloc_spec(2), of 5 hash_ex ptr_cmp 0 1 lh ops_ex 0] ops_ex_runs(1) by (auto simp: ops_ex_def)
  with lh_table.run_ops_law [OF good ops_ex_runs(1) this] law(2) ops_ex_runs(2) show thesis
    by (intro that [OF new]) (simp_all add: lh_good_def)
qed

theorem lhash_is_set_witness:
  "\<exists>lh. lh_elems lh = {0x22, 0x35} \<and> lh_num_items lh = 2 \<and> lh_retrieve hash_ex ptr_cmp lh 0x2f = 0x22"
proof -
  obtain lh lh' where run: "lh_new lh_alloc 0 1 = Some lh" "lh_elems lh' = {0x22, 0x35}"
    "run_ops (lh_insert lh_alloc hash_ex ptr_cmp) (lh_delete lh_alloc hash_ex ptr_cmp) ops_ex lh = (True, lh')"
    using ops_ex_table by metis
  have "ptr_cmp 1 0x35 0x2f \<noteq> 0" "ptr_cmp 1 0x22 0x2f = 0" by (simp_all add: ptr_cmp_def)
  then show ?thesis
    using lhash_is_set [OF hash_ex_ok run(1) ops_ex_runs(1) run(3), of "0x2f"] run(2)
    by (intro exI [of _ lh']) (auto simp: Let_def)
qed

text \<open>
  C32. The load of a table is bounded: with an allocator that has memory for every object of at most
  \<open>PTRDIFF_MAX\<close> bytes, after fewer than \<open>2 ^ 58\<close> insertions and deletions on a new table every one of them has
  succeeded, the chains hold fewer than three items on average, and there are at most as many buckets as
  operations, or the minimum of 16.
\<close>

theorem lhash_load_bounded:
  assumes "hash_ok (call_hash h) (call_cmp c)" "lh_new malloc h c = Some lh" "list_all op_ok ops"
    and "\<forall>n \<le> PTRDIFF_MAX. malloc n \<noteq> None" "length ops < 2 ^ 58"
  shows "\<exists>lh'. run_ops (lh_insert malloc call_hash call_cmp) (lh_delete malloc call_hash call_cmp) ops lh = (True, lh') \<and>
     lh_num_items lh' < 3 * num_buckets lh' \<and> num_buckets lh' \<le> max 16 (length ops)"
proof -
  note new = lh_new_law [OF assms(2)]
  have "lh_good call_hash call_cmp h c lh" using new(1,3,4) assms(1) by (simp add: lh_good_def)
  moreover have "lh_load 0 lh" using new by (simp add: lh_load_def kMinNumBuckets_def)
  ultimately show ?thesis
    using run_ops_load [OF less_imp_le [OF assms(5)] assms(4), of call_hash call_cmp h c lh ops 0] assms(3)
    by (auto simp: lh_load_def lh_num_items_def)
qed

theorem lhash_load_bounded_witness:
  "\<exists>lh lh'. run_ops (lh_insert lh_alloc hash_ex ptr_cmp) (lh_delete lh_alloc hash_ex ptr_cmp)
      (map (\<lambda>n. Ins (16 * word_of_nat n + 16)) [0..<100]) lh = (True, lh') \<and>
     lh_num_items lh' < 3 * num_buckets lh' \<and> num_buckets lh' \<le> 100"
proof -
  obtain lh where new: "lh_new lh_alloc 0 1 = Some lh" using ops_ex_table by metis
  have "list_all op_ok (map (\<lambda>n. Ins (16 * word_of_nat n + 16)) [0..<100])" by code_simp
  from lhash_load_bounded [of hash_ex 0 ptr_cmp 1, OF hash_ex_ok new this lh_alloc_spec(2)] show ?thesis by auto
qed

text \<open>
  C33. \<open>lh_doall_arg\<close> with a callback that leaves the table alone passes every element to it
  exactly once, and leaves the same table behind, up to the order of its chains.
\<close>

theorem lh_doall_visits_once:
  assumes "lh_inv call_hash call_cmp lh"
  shows "\<exists>xs lh'. lh_doall_arg malloc (Some lh) func a = (foldl (\<lambda>a x. func x a) a xs, Some lh') \<and>
     distinct xs \<and> set xs = lh_elems lh \<and> lh_inv call_hash call_cmp lh' \<and> lh_elems lh' = lh_elems lh \<and>
     lh_num_items lh' = lh_num_items lh"
proof -
  let ?lh = "\<lambda>d. lh\<lparr>callback_depth := d\<rparr>"
  note I = lh_invD [OF assms]
  have fold: "foldl (\<lambda>a it. func (idata it) a) a its = foldl (\<lambda>a x. func x a) a (map idata its)" for its :: "lhash_item list"
    by (induction its arbitrary: a) simp_all
  have "\<exists>d. lh_doall_arg malloc (Some lh) func a = (foldl (\<lambda>a x. func x a) a (lh_data lh), Some (lh_maybe_resize malloc (?lh d)))"
    unfolding lh_doall_arg_def Let_def
    by (cases "callback_depth lh < UINT_MAX"; cases "callback_depth lh + 1 < UINT_MAX")
      (auto simp: all_buckets I(5) lh_data_def fold intro: exI [of _ "callback_depth lh"])
  moreover have items: "lh_items (?lh d) = lh_items lh" for d by (simp add: lh_items_def)
  then have "lh_inv call_hash call_cmp (lh_maybe_resize malloc (?lh d)) \<and> lh_elems (lh_maybe_resize malloc (?lh d)) = lh_elems lh" for d
    using lh_resized [of "?lh d" call_hash call_cmp malloc] I by (simp add: lh_elems_def)
  ultimately show ?thesis
    using lh_data_law(1,2) [OF assms] num_items_card [OF assms] num_items_card [of call_hash call_cmp]
    unfolding lh_num_items_def by metis
qed

theorem lh_doall_visits_once_witness:
  "\<exists>xs lh lh'. lh_doall_arg lh_alloc (Some lh) (#) [] = (foldl (\<lambda>a x. x # a) [] xs, Some lh') \<and> distinct xs \<and>
     set xs = {0x22, 0x35}"
proof -
  obtain lh where "lh_inv hash_ex ptr_cmp lh" "lh_elems lh = {0x22, 0x35}" using ops_ex_table by metis
  then show ?thesis using lh_doall_visits_once [of hash_ex ptr_cmp lh lh_alloc "(#)" "[]"] by metis
qed

end
