(* ===== verification/Md32.thy ===== *)
theory Md32
  imports Prelude
begin

text \<open>
  The collector of message digests in \<^verbatim>\<open>fipsmodule/digest/md32_common.h\<close>, which MD5, SHA-1 and SHA-256
  instantiate by macros: it gathers input into blocks, counts its bits, and pads the last block. The
  specification is the iterated compression of the padded message.
\<close>

section \<open>The collector\<close>

text \<open>
  \<^verbatim>\<open>HASH_CTX\<close> with the members that the header names; \<open>hash_md_len\<close> is a member of the SHA-256 context. The
  macros \<^verbatim>\<open>HASH_BLOCK_DATA_ORDER\<close> and \<^verbatim>\<open>HASH_MAKE_STRING\<close> and the byte order are arguments. The functions
  return 1, but for a digest of a wrong length, where \<^verbatim>\<open>HASH_MAKE_STRING\<close> returns 0.
\<close>

record hash_ctx =
  hash_h :: "u32 list"
  hash_Nl :: u32
  hash_Nh :: u32
  hash_data :: bytes
  hash_num :: nat
  hash_md_len :: nat

definition HASH_CBLOCK :: nat where
  "HASH_CBLOCK = 64"

type_synonym block_data_order = "u32 list \<Rightarrow> bytes \<Rightarrow> nat \<Rightarrow> u32 list"

text \<open>\<open>HOST_c2l\<close> and \<open>HOST_l2c\<close> in both byte orders.\<close>

definition HOST_c2l_be :: "bytes \<Rightarrow> u32" where
  "HOST_c2l_be c = push_bit 24 (ucast (c ! 0)) OR push_bit 16 (ucast (c ! 1)) OR push_bit 8 (ucast (c ! 2)) OR ucast (c ! 3)"

definition HOST_l2c_be :: "u32 \<Rightarrow> bytes" where
  "HOST_l2c_be l = [ucast (drop_bit 24 l AND 0xff), ucast (drop_bit 16 l AND 0xff), ucast (drop_bit 8 l AND 0xff), ucast (l AND 0xff)]"

definition HOST_c2l_le :: "bytes \<Rightarrow> u32" where
  "HOST_c2l_le c = ucast (c ! 0) OR push_bit 8 (ucast (c ! 1)) OR push_bit 16 (ucast (c ! 2)) OR push_bit 24 (ucast (c ! 3))"

definition HOST_l2c_le :: "u32 \<Rightarrow> bytes" where
  "HOST_l2c_le l = [ucast (l AND 0xff), ucast (drop_bit 8 l AND 0xff), ucast (drop_bit 16 l AND 0xff), ucast (drop_bit 24 l AND 0xff)]"

definition hash_update_blocks :: "block_data_order \<Rightarrow> hash_ctx \<Rightarrow> bytes \<Rightarrow> hash_ctx" where
  "hash_update_blocks block c data =
     (let n = length data div HASH_CBLOCK;
          c = (if n > 0 then c\<lparr>hash_h := block (hash_h c) data n\<rparr> else c);
          data = drop (n * HASH_CBLOCK) data
      in if length data \<noteq> 0 then c\<lparr>hash_num := length data, hash_data := mem_write (hash_data c) 0 data\<rparr> else c)"

definition HASH_UPDATE :: "block_data_order \<Rightarrow> hash_ctx \<Rightarrow> bytes \<Rightarrow> hash_ctx" where
  "HASH_UPDATE block c data =
     (let len = length data in
      if len = 0 then c
      else
        let l = hash_Nl c + push_bit 3 (of_nat len);
            c = (if l < hash_Nl c then c\<lparr>hash_Nh := hash_Nh c + 1\<rparr> else c);
            c = c\<lparr>hash_Nh := hash_Nh c + of_nat (len div 2 ^ 29), hash_Nl := l\<rparr>;
            n = hash_num c
        in if n \<noteq> 0 then
             if len \<ge> HASH_CBLOCK \<or> size_wrap (len + n) \<ge> HASH_CBLOCK then
               let c = c\<lparr>hash_data := mem_write (hash_data c) n (take (HASH_CBLOCK - n) data)\<rparr>;
                   c = c\<lparr>hash_h := block (hash_h c) (hash_data c) 1\<rparr>;
                   c = c\<lparr>hash_num := 0, hash_data := replicate HASH_CBLOCK 0\<rparr>
               in hash_update_blocks block c (drop (HASH_CBLOCK - n) data)
             else c\<lparr>hash_data := mem_write (hash_data c) n data, hash_num := hash_num c + len\<rparr>
           else hash_update_blocks block c data)"

definition HASH_TRANSFORM :: "block_data_order \<Rightarrow> hash_ctx \<Rightarrow> bytes \<Rightarrow> hash_ctx" where
  "HASH_TRANSFORM block c data = c\<lparr>hash_h := block (hash_h c) data 1\<rparr>"

definition HASH_FINAL :: "bool \<Rightarrow> block_data_order \<Rightarrow> (hash_ctx \<Rightarrow> bytes option) \<Rightarrow> hash_ctx \<Rightarrow> bytes option \<times> hash_ctx" where
  "HASH_FINAL big_endian block make_string c =
     (let n = hash_num c;
          c = c\<lparr>hash_data := (hash_data c)[n := 0x80]\<rparr>;
          n = n + 1;
          full = (n > HASH_CBLOCK - 8);
          c = (if full then c\<lparr>hash_data := mem_write (hash_data c) n (replicate (HASH_CBLOCK - n) 0)\<rparr> else c);
          c = (if full then c\<lparr>hash_h := block (hash_h c) (hash_data c) 1\<rparr> else c);
          n = (if full then 0 else n);
          c = c\<lparr>hash_data := mem_write (hash_data c) n (replicate (HASH_CBLOCK - 8 - n) 0)\<rparr>;
          count = (if big_endian then HOST_l2c_be (hash_Nh c) @ HOST_l2c_be (hash_Nl c)
                   else HOST_l2c_le (hash_Nl c) @ HOST_l2c_le (hash_Nh c));
          c = c\<lparr>hash_data := mem_write (hash_data c) (HASH_CBLOCK - 8) count\<rparr>;
          c = c\<lparr>hash_h := block (hash_h c) (hash_data c) 1\<rparr>;
          c = c\<lparr>hash_num := 0, hash_data := replicate HASH_CBLOCK 0\<rparr>
      in (make_string c, c))"

text \<open>The context that the \<^verbatim>\<open>Init\<close> functions set up: all zero but for the state and the length.\<close>

definition zero_ctx :: "u32 list \<Rightarrow> nat \<Rightarrow> hash_ctx" where
  "zero_ctx h md_len = \<lparr>hash_h = h, hash_Nl = 0, hash_Nh = 0, hash_data = replicate HASH_CBLOCK 0, hash_num = 0, hash_md_len = md_len\<rparr>"

section \<open>Specification\<close>

text \<open>The padding of FIPS 180-4 and of RFC 1321: a one bit, zeros, and the number of bits in 64 bits.\<close>

definition pad_message :: "bool \<Rightarrow> bytes \<Rightarrow> bytes" where
  "pad_message big_endian msg =
     msg @ 0x80 # replicate ((119 - length msg mod 64) mod 64) 0 @ (if big_endian then be_bytes else le_bytes) 8 (8 * length msg)"

text \<open>The compression of the whole blocks of a message, one after the other.\<close>

definition block_at :: "bytes \<Rightarrow> nat \<Rightarrow> bytes" where
  "block_at msg i = take 64 (drop (64 * i) msg)"

definition absorb :: "('h \<Rightarrow> bytes \<Rightarrow> 'h) \<Rightarrow> 'h \<Rightarrow> bytes \<Rightarrow> 'h" where
  "absorb compress h msg = foldl (\<lambda>h i. compress h (block_at msg i)) h [0..<length msg div 64]"

definition digest_spec :: "bool \<Rightarrow> ('h \<Rightarrow> bytes \<Rightarrow> 'h) \<Rightarrow> 'h \<Rightarrow> bytes \<Rightarrow> 'h" where
  "digest_spec big_endian compress iv msg = absorb compress iv (pad_message big_endian msg)"

lemma absorb_short [simp]: "length msg < 64 \<Longrightarrow> absorb compress h msg = h"
  by (simp add: absorb_def)

lemma absorb_append:
  assumes "64 dvd length xs"
  shows "absorb compress h (xs @ ys) = absorb compress (absorb compress h xs) ys"
proof -
  obtain k where k: "length xs = 64 * k" using assms by (elim dvdE)
  let ?f = "\<lambda>msg h i. compress h (block_at msg i)"
  have n: "length (xs @ ys) div 64 = k + length ys div 64" by (simp add: k)
  have left: "foldl (?f (xs @ ys)) h [0..<k] = absorb compress h xs"
  proof -
    have "block_at (xs @ ys) i = block_at xs i" if "i < k" for i using that k by (simp add: block_at_def)
    then have "foldl (?f (xs @ ys)) h [0..<k] = foldl (?f xs) h [0..<k]" by (intro foldl_cong) auto
    then show ?thesis by (simp add: absorb_def k)
  qed
  have "block_at (xs @ ys) (k + i) = block_at ys i" for i by (simp add: block_at_def k algebra_simps)
  then have right: "foldl (?f (xs @ ys)) h' [k..<k + n] = foldl (?f ys) h' [0..<n]" for h' n by (induction n) simp_all
  have "absorb compress h (xs @ ys) = foldl (?f (xs @ ys)) (foldl (?f (xs @ ys)) h [0..<k]) [k..<k + length ys div 64]"
    unfolding absorb_def n by (simp only: upt_add_eq_append [OF le0] foldl_append)
  then show ?thesis unfolding left right by (simp only: absorb_def [of compress _ ys])
qed

lemma absorb_block: "length b = 64 \<Longrightarrow> absorb compress h (b @ ys) = absorb compress (compress h b) ys"
  by (subst absorb_append) (simp_all add: absorb_def block_at_def)

lemma absorb_rest:
  assumes "64 dvd length full" "length rest < 64"
  shows "absorb compress h (full @ rest) = absorb compress h full"
  using assms by (simp add: absorb_append)

section \<open>The number of bits\<close>

definition bit_count :: "hash_ctx \<Rightarrow> nat" where
  "bit_count c = unat (hash_Nh c) * 2 ^ 32 + unat (hash_Nl c)"

lemma two_digits: "y < M \<Longrightarrow> (x * M + y) mod (M * M) = x mod M * M + (y :: nat)"
  by (simp add: mod_mult2_eq)

lemma count_update:
  assumes "l = Nl + push_bit 3 (of_nat len)" "hi = (if l < Nl then Nh + 1 else Nh) + of_nat (len div 2 ^ 29)"
  shows "unat (hi :: u32) * 2 ^ 32 + unat (l :: u32) = (unat Nh * 2 ^ 32 + unat Nl + 8 * len) mod (2 ^ 32 * 2 ^ 32)"
proof -
  define M :: nat where "M = 2 ^ 32"
  define s where "s = 8 * len mod M"
  define c :: nat where "c = (if M \<le> unat Nl + s then 1 else 0)"
  have wrap: "unat (x + y) = (unat x + unat y) mod M" "unat (of_nat n :: u32) = n mod M" for x y :: u32 and n
    by (simp_all add: unat_word_ariths unat_of_nat M_def)
  have less: "unat x < M" for x :: u32 using unsigned_less [of x, where ?'a = nat] by (simp add: M_def)
  have "unat (push_bit 3 (of_nat len) :: u32) = s"
    unfolding unat_push_bit unat_of_nat s_def M_def using mod_mult_left_eq [of len "2 ^ 32" "2 ^ 3"] by (simp add: mult.commute)
  then have l: "unat l = (unat Nl + s) mod M" by (simp add: assms(1) wrap(1))
  have lt: "unat Nl < M" "s < M" using less by (simp_all add: s_def M_def)
  have e: "unat Nl + s = c * M + unat l"
    using lt by (auto simp: l c_def mod_if)
  have carry: "l < Nl \<longleftrightarrow> c = 1" using lt by (auto simp: word_less_nat_alt l c_def mod_if)
  have hi: "unat hi = (unat Nh + c + len div 2 ^ 29) mod M"
  proof (cases "c = 1")
    case True
    then have "hi = Nh + of_nat 1 + of_nat (len div 2 ^ 29)" using assms(2) carry by simp
    then show ?thesis unfolding True by (simp only: wrap mod_add_left_eq mod_add_right_eq)
  next
    case False
    then have "hi = Nh + of_nat (len div 2 ^ 29)" "c = 0" using assms(2) carry by (simp_all add: c_def split: if_splits)
    then show ?thesis by (simp only: wrap mod_add_right_eq add_0_right)
  qed
  have "8 * len = len div 2 ^ 29 * M + s"
    using div_mult_mod_eq [of "8 * len" M] by (simp add: s_def M_def)
  then have "unat Nh * M + unat Nl + 8 * len = (unat Nh + c + len div 2 ^ 29) * M + unat l"
    using e by (simp add: algebra_simps)
  then show ?thesis unfolding M_def [symmetric] using two_digits [OF less [of l]] by (simp only: hi)
qed

lemma unat_and_ff: "unat ((x :: u32) AND 0xff) = unat x mod 256"
  using unat_and_mask [of x 8] by (simp add: mask_eq_exp_minus_1)

lemma l2c_be: "HOST_l2c_be l = be_bytes 4 (unat l)"
proof -
  have "ucast (drop_bit n l AND 0xff) = byte (unat l div 2 ^ n)" for n
    by (rule unat_eqI) (simp add: unat_ucast unat_and_ff unat_drop_bit)
  note b = this [of 24] this [of 16] this [of 8] this [of 0]
  have "be_bytes (Suc (Suc (Suc (Suc 0)))) v = [byte (v div 2 ^ 24), byte (v div 2 ^ 16), byte (v div 2 ^ 8), byte v]" for v
    by (simp add: div_mult2_eq [symmetric])
  moreover have "Suc (Suc (Suc (Suc 0))) = 4" by simp
  ultimately have "be_bytes 4 v = [byte (v div 2 ^ 24), byte (v div 2 ^ 16), byte (v div 2 ^ 8), byte v]" for v by simp
  then show ?thesis using b by (simp add: HOST_l2c_be_def)
qed

lemma l2c_le: "HOST_l2c_le l = le_bytes 4 (unat l)"
  unfolding le_bytes_def l2c_be [symmetric] by (simp add: HOST_l2c_le_def HOST_l2c_be_def)

lemma be_bytes_split: "be_bytes 8 (a * 2 ^ 32 + b) = be_bytes 4 a @ be_bytes 4 b" if "b < 2 ^ 32"
proof -
  have e: "(8 :: nat) = 4 + 4" "(256 :: nat) ^ 4 = 2 ^ 32" by simp_all
  have "be_val (be_bytes 8 (a * 2 ^ 32 + b)) = (a * 2 ^ 32 + b) mod (2 ^ 32 * 2 ^ 32)"
    unfolding be_val_be_bytes e(1) power_add e(2) ..
  also have "\<dots> = a mod 2 ^ 32 * 2 ^ 32 + b" by (rule two_digits [OF that])
  also have "\<dots> = be_val (be_bytes 4 a @ be_bytes 4 b)"
    using that unfolding be_val_append be_val_be_bytes length_be_bytes e(2) by simp
  finally show ?thesis by (intro be_val_inject) simp_all
qed

lemma be_bytes_mod_exp: "be_bytes n (v mod 256 ^ n) = be_bytes n v"
  by (rule be_val_inject) (simp_all add: be_val_be_bytes)

text \<open>The last eight bytes of the padding, in both orders.\<close>

lemma count_bytes:
  assumes "bit_count c = 8 * n mod 2 ^ 64"
  shows "HOST_l2c_be (hash_Nh c) @ HOST_l2c_be (hash_Nl c) = be_bytes 8 (8 * n)"
    "HOST_l2c_le (hash_Nl c) @ HOST_l2c_le (hash_Nh c) = le_bytes 8 (8 * n)"
proof -
  have "be_bytes 8 (8 * n) = be_bytes 8 (8 * n mod 256 ^ 8)" by (simp only: be_bytes_mod_exp)
  also have "8 * n mod 256 ^ 8 = bit_count c" unfolding assms by simp
  also have "be_bytes 8 (bit_count c) = be_bytes 4 (unat (hash_Nh c)) @ be_bytes 4 (unat (hash_Nl c))"
    unfolding bit_count_def by (rule be_bytes_split) (use unsigned_less [of "hash_Nl c", where ?'a = nat] in simp)
  finally have e: "be_bytes 8 (8 * n) = be_bytes 4 (unat (hash_Nh c)) @ be_bytes 4 (unat (hash_Nl c))" .
  show "HOST_l2c_be (hash_Nh c) @ HOST_l2c_be (hash_Nl c) = be_bytes 8 (8 * n)" by (simp only: e l2c_be)
  show "HOST_l2c_le (hash_Nl c) @ HOST_l2c_le (hash_Nh c) = le_bytes 8 (8 * n)" by (simp only: l2c_le le_bytes_def e rev_append)
qed

section \<open>The contract of a block function\<close>

text \<open>A block function compresses its blocks one after the other and keeps the form of the state.\<close>

locale block_function =
  fixes block :: block_data_order and compress :: "u32 list \<Rightarrow> bytes \<Rightarrow> u32 list" and state_ok :: "u32 list \<Rightarrow> bool"
  assumes block_absorbs: "state_ok h \<Longrightarrow> 0 < n \<Longrightarrow> 64 * n \<le> length data \<Longrightarrow> block h data n = absorb compress h (take (64 * n) data)"
    and compress_ok: "state_ok h \<Longrightarrow> length b = 64 \<Longrightarrow> state_ok (compress h b)"
begin

lemma absorb_ok: "state_ok h \<Longrightarrow> state_ok (absorb compress h msg)"
proof -
  have "state_ok (foldl (\<lambda>h i. compress h (block_at msg i)) h [0..<n])" if "n \<le> length msg div 64" "state_ok h" for n
    using that by (induction n) (auto simp: block_at_def intro: compress_ok)
  then show "state_ok h \<Longrightarrow> state_ok (absorb compress h msg)" by (simp add: absorb_def)
qed

text \<open>The whole blocks of the message are compressed, and the rest of it is in the buffer.\<close>

definition gathered :: "u32 list \<Rightarrow> hash_ctx \<Rightarrow> bytes \<Rightarrow> bool" where
  "gathered iv c msg \<longleftrightarrow> (\<exists>full rest. msg = full @ rest \<and> 64 dvd length full \<and> length rest < 64 \<and>
     hash_h c = absorb compress iv full \<and> hash_num c = length rest \<and> length (hash_data c) = 64 \<and> take (length rest) (hash_data c) = rest)"

lemma update_blocks:
  assumes "state_ok iv" "64 dvd length full" "hash_h c = absorb compress iv full" "hash_num c = 0" "length (hash_data c) = 64"
  shows "gathered iv (hash_update_blocks block c data) (full @ data)"
proof -
  let ?n = "length data div 64" and ?rest = "drop (64 * (length data div 64)) data"
  let ?c = "hash_update_blocks block c data"
  have "length ?rest = length data mod 64" by (simp add: minus_mult_div_eq_mod)
  then have r: "length ?rest < 64" by simp
  have n: "64 * ?n \<le> length data" by simp
  have "hash_h ?c = absorb compress iv (full @ take (64 * ?n) data)"
    using assms(3) block_absorbs [OF absorb_ok [OF assms(1)] _ n] by (simp add: hash_update_blocks_def Let_def HASH_CBLOCK_def absorb_append [OF assms(2)])
  moreover have "hash_num ?c = length ?rest" "length (hash_data ?c) = 64"
    using assms(4,5) r by (simp_all add: hash_update_blocks_def Let_def HASH_CBLOCK_def mult.commute)
  moreover have "take (length ?rest) (hash_data ?c) = ?rest"
  proof -
    have "hash_data ?c = (if ?rest = [] then hash_data c else mem_write (hash_data c) 0 ?rest)"
      by (simp add: hash_update_blocks_def Let_def HASH_CBLOCK_def mult.commute)
    then show ?thesis using r take_mem_write [of 0 ?rest "hash_data c"] assms(5) by (cases "?rest = []") (simp_all del: length_drop drop_eq_Nil drop_eq_Nil2)
  qed
  moreover have "64 dvd length (full @ take (64 * ?n) data)" using assms(2) by simp
  moreover have "full @ data = (full @ take (64 * ?n) data) @ ?rest" by simp
  ultimately show ?thesis unfolding gathered_def using r by blast
qed

lemma update_gathered:
  assumes "state_ok iv" "gathered iv c msg" "length data < 2 ^ 64"
  shows "gathered iv (HASH_UPDATE block c data) (msg @ data)"
proof (cases "data = []")
  case True
  then show ?thesis using assms(2) by (simp add: HASH_UPDATE_def)
next
  case False
  define c1 where "c1 = c\<lparr>hash_Nh := (if hash_Nl c + push_bit 3 (of_nat (length data)) < hash_Nl c then hash_Nh c + 1 else hash_Nh c) +
      of_nat (length data div 2 ^ 29), hash_Nl := hash_Nl c + push_bit 3 (of_nat (length data))\<rparr>"
  have c1: "hash_h c1 = hash_h c" "hash_num c1 = hash_num c" "hash_data c1 = hash_data c" by (simp_all add: c1_def)
  obtain full rest where m: "msg = full @ rest" "64 dvd length full" "length rest < 64" "hash_h c = absorb compress iv full"
    "hash_num c = length rest" "length (hash_data c) = 64" "take (length rest) (hash_data c) = rest"
    using assms(2) by (auto simp: gathered_def)
  let ?n = "length rest" and ?full = "length data \<ge> 64 \<or> size_wrap (length data + length rest) \<ge> 64"
  have up: "HASH_UPDATE block c data =
      (if ?n \<noteq> 0 then
         if ?full then
           hash_update_blocks block (c1\<lparr>hash_h := block (hash_h c) (mem_write (hash_data c) ?n (take (64 - ?n) data)) 1,
             hash_num := 0, hash_data := replicate 64 0\<rparr>) (drop (64 - ?n) data)
         else c1\<lparr>hash_data := mem_write (hash_data c) ?n data, hash_num := ?n + length data\<rparr>
       else hash_update_blocks block c1 data)"
    using False by (simp add: HASH_UPDATE_def Let_def HASH_CBLOCK_def m(5) c1_def)
  have fits: "?full \<longleftrightarrow> 64 \<le> length data + ?n"
    using assms(3) m(3) by (cases "64 \<le> length data") auto
  consider "rest = []" | "rest \<noteq> []" "length data + ?n < 64" | "rest \<noteq> []" "64 \<le> length data + ?n" by fastforce
  then show ?thesis
  proof cases
    case 1
    then show ?thesis
      using update_blocks [OF assms(1) m(2), of c1 data] m up by (simp add: c1)
  next
    case 2
    then have "HASH_UPDATE block c data = c1\<lparr>hash_data := mem_write (hash_data c) ?n data, hash_num := ?n + length data\<rparr>"
      using up fits by simp
    moreover have "take (?n + length data) (mem_write (hash_data c) ?n data) = rest @ data"
      using take_mem_write [of ?n data "hash_data c"] m(6,7) 2(2) by (simp add: add.commute)
    ultimately show ?thesis
      unfolding gathered_def using m 2(2) by (intro exI [of _ full] exI [of _ "rest @ data"]) (simp add: c1 add.commute)
  next
    case 3
    let ?b = "rest @ take (64 - ?n) data"
    have b: "length ?b = 64" using 3(2) m(3) by simp
    have w: "mem_write (hash_data c) ?n (take (64 - ?n) data) = ?b"
      using take_mem_write [of ?n "take (64 - ?n) data" "hash_data c"] m(6,7) b by simp
    have "block (hash_h c) ?b 1 = absorb compress iv (full @ ?b)"
      using block_absorbs [OF absorb_ok [OF assms(1)], of 1 ?b full] b by (simp add: m(4) absorb_append [OF m(2)])
    then have "gathered iv (HASH_UPDATE block c data) ((full @ ?b) @ drop (64 - ?n) data)"
      using 3 up fits b m(2) unfolding w by (simp add: update_blocks [OF assms(1)] del: append_assoc)
    then show ?thesis by (simp add: m(1))
  qed
qed

lemma update_counts:
  "bit_count (HASH_UPDATE block c data) = (bit_count c + 8 * length data) mod 2 ^ 64"
proof (cases "data = []")
  case True
  have "bit_count c < 2 ^ 64"
    using unsigned_less [of "hash_Nh c", where ?'a = nat] unsigned_less [of "hash_Nl c", where ?'a = nat] by (simp add: bit_count_def)
  then show ?thesis using True by (simp add: HASH_UPDATE_def)
next
  case False
  have "hash_Nl (hash_update_blocks block c' d) = hash_Nl c'" "hash_Nh (hash_update_blocks block c' d) = hash_Nh c'" for c' d
    by (simp_all add: hash_update_blocks_def Let_def)
  then have "hash_Nl (HASH_UPDATE block c data) = hash_Nl c + push_bit 3 (of_nat (length data))"
    "hash_Nh (HASH_UPDATE block c data) =
      (if hash_Nl c + push_bit 3 (of_nat (length data)) < hash_Nl c then hash_Nh c + 1 else hash_Nh c) + of_nat (length data div 2 ^ 29)"
    using False by (simp_all add: HASH_UPDATE_def Let_def)
  from count_update [OF this(1) this(2) [folded this(1)]] show ?thesis by (simp add: bit_count_def)
qed

lemma update_md_len [simp]: "hash_md_len (HASH_UPDATE block c data) = hash_md_len c"
  by (simp add: HASH_UPDATE_def hash_update_blocks_def Let_def)

text \<open>The last one or two blocks.\<close>

lemma final_digest:
  assumes "state_ok iv" "gathered iv c msg" "bit_count c = 8 * length msg mod 2 ^ 64"
  shows "fst (HASH_FINAL big_endian block make_string c) = make_string (snd (HASH_FINAL big_endian block make_string c)) \<and>
     hash_h (snd (HASH_FINAL big_endian block make_string c)) = digest_spec big_endian compress iv msg \<and>
     hash_md_len (snd (HASH_FINAL big_endian block make_string c)) = hash_md_len c"
proof -
  obtain full rest where m: "msg = full @ rest" "64 dvd length full" "length rest < 64" "hash_h c = absorb compress iv full"
    "hash_num c = length rest" "length (hash_data c) = 64" "take (length rest) (hash_data c) = rest"
    using assms(2) by (auto simp: gathered_def)
  let ?n = "length rest" and ?d = "hash_data c"
  let ?count = "(if big_endian then be_bytes else le_bytes) 8 (8 * length msg)"
  note cb = count_bytes [OF assms(3)]
  have lc: "length ?count = 8" by simp
  have mod: "length msg mod 64 = ?n" using m(2,3) by (simp add: m(1) mod_add_multiple)
  have pad: "pad_message big_endian msg = full @ rest @ 0x80 # replicate ((119 - ?n) mod 64) 0 @ ?count"
    unfolding pad_message_def mod by (simp add: m(1))
  have d1: "mem_write ?d ?n [0x80] = ?d[?n := 0x80]" using m(3,6) by (simp add: mem_write_nth)
  have t1: "take (Suc ?n) (?d[?n := 0x80]) = rest @ [0x80]"
    using m(3,6,7) by (simp add: take_Suc_conv_app_nth)
  have one: "block (absorb compress iv f) b 1 = absorb compress iv (f @ b)" if "64 dvd length f" "length b = 64" for f b
    using block_absorbs [OF absorb_ok [OF assms(1)], of 1 b f] that by (simp add: absorb_append)
  show ?thesis
  proof (cases "?n + 1 > 56")
    case False
    let ?b = "rest @ 0x80 # replicate (55 - ?n) 0 @ ?count"
    have w: "mem_write (mem_write (?d[?n := 0x80]) (?n + 1) (replicate (56 - (?n + 1)) 0)) 56 ?count = ?b"
    proof -
      have "56 - ?n = Suc (55 - ?n)" using False by simp
      then show ?thesis using False m(3,6) t1 lc by (simp add: mem_write_def min_def)
    qed
    have "length ?b = 64" using False by simp
    then have "block (hash_h c) ?b 1 = absorb compress iv (pad_message big_endian msg)"
      using False unfolding m(4) pad by (subst one [OF m(2)]) (simp_all add: mod_if)
    then show ?thesis
      using False w cb by (cases big_endian) (simp_all add: HASH_FINAL_def Let_def HASH_CBLOCK_def m(5) digest_spec_def)
  next
    case True
    let ?b1 = "rest @ 0x80 # replicate (63 - ?n) 0" and ?b2 = "replicate 56 0 @ ?count"
    have w1: "mem_write (?d[?n := 0x80]) (?n + 1) (replicate (64 - (?n + 1)) 0) = ?b1"
      using True m(3,6) t1 by (simp add: mem_write_def)
    have w2: "mem_write (mem_write ?b1 0 (replicate 56 0)) 56 ?count = ?b2" using m(3) lc by (simp add: mem_write_def)
    have l: "length ?b1 = 64" "length ?b2 = 64" "64 dvd length (full @ ?b1)" using m(2,3) by simp_all
    have "(119 - ?n) mod 64 = (63 - ?n) + 56" using True m(3) by simp
    then have z: "replicate ((119 - ?n) mod 64) 0 = replicate (63 - ?n) 0 @ replicate 56 (0 :: u8)" by (simp only: replicate_add)
    have "block (block (hash_h c) ?b1 1) ?b2 1 = absorb compress iv (pad_message big_endian msg)"
      unfolding m(4) pad one [OF m(2) l(1)] one [OF l(3) l(2)] z by simp
    then show ?thesis
      using True w1 w2 cb by (cases big_endian) (simp_all add: HASH_FINAL_def Let_def HASH_CBLOCK_def m(5) digest_spec_def)
  qed
qed

text \<open>However a message is split over the calls, its digest is that of the whole message.\<close>

definition fresh_ctx :: "hash_ctx \<Rightarrow> bool" where
  "fresh_ctx c \<longleftrightarrow> state_ok (hash_h c) \<and> hash_num c = 0 \<and> bit_count c = 0 \<and> length (hash_data c) = 64"

lemma fresh_zero_ctx: "state_ok h \<Longrightarrow> fresh_ctx (zero_ctx h md_len)"
  by (simp add: fresh_ctx_def zero_ctx_def bit_count_def HASH_CBLOCK_def)

lemma pieces_gathered:
  assumes "fresh_ctx c"
  shows "list_all (\<lambda>d. length d < 2 ^ 64) pieces \<Longrightarrow> gathered (hash_h c) (foldl (HASH_UPDATE block) c pieces) (concat pieces) \<and>
     bit_count (foldl (HASH_UPDATE block) c pieces) = 8 * length (concat pieces) mod 2 ^ 64 \<and>
     hash_md_len (foldl (HASH_UPDATE block) c pieces) = hash_md_len c"
proof (induction pieces rule: rev_induct)
  case Nil
  then show ?case using assms by (auto simp: fresh_ctx_def gathered_def intro: exI [of _ "[]"])
next
  case (snoc d pieces)
  have ok: "state_ok (hash_h c)" using assms by (simp add: fresh_ctx_def)
  have "(8 * length (concat pieces) mod 2 ^ 64 + 8 * length d) mod 2 ^ 64 = 8 * length (concat (pieces @ [d])) mod 2 ^ 64"
    by (simp only: mod_add_left_eq concat_append length_append distrib_left) simp
  then show ?case
    using snoc update_gathered [OF ok, of _ "concat pieces" d] by (simp add: update_counts)
qed

lemma digest_of_pieces:
  assumes "fresh_ctx c" "list_all (\<lambda>d. length d < 2 ^ 64) pieces" "c' = foldl (HASH_UPDATE block) c pieces"
  shows "fst (HASH_FINAL big_endian block make_string c') = make_string (snd (HASH_FINAL big_endian block make_string c')) \<and>
     hash_h (snd (HASH_FINAL big_endian block make_string c')) = digest_spec big_endian compress (hash_h c) (concat pieces) \<and>
     hash_md_len (snd (HASH_FINAL big_endian block make_string c')) = hash_md_len c"
proof -
  have ok: "state_ok (hash_h c)" using assms(1) by (simp add: fresh_ctx_def)
  note g = pieces_gathered [OF assms(1,2), folded assms(3)]
  show ?thesis using final_digest [OF ok, of c' "concat pieces"] g by simp
qed

end

end
