(* ===== verification/Rounds.thy ===== *)
theory Rounds
  imports Md32
begin

text \<open>
  What the unrolled block functions of MD5, SHA-1 and SHA-256 share: registers whose names rotate from one
  round to the next, a circular message schedule, the rotation of a word, and the loop over the blocks.
\<close>

section \<open>Rotating registers\<close>

text \<open>
  The rounds are written out with the names of the registers rotated by one place per round. \<open>role n i j\<close> is
  the register that has the role \<open>j\<close> in round \<open>i\<close>, of \<open>n\<close> registers.
\<close>

definition role :: "nat \<Rightarrow> nat \<Rightarrow> nat \<Rightarrow> nat" where
  "role n i j = (j + n - i mod n) mod n"

definition ROTATE :: "u32 \<Rightarrow> nat \<Rightarrow> u32" where
  "ROTATE a n = push_bit n a OR drop_bit (32 - n) a"

text \<open>The loop \<^verbatim>\<open>while (num--)\<close> over the blocks of the data.\<close>

primrec data_order_loop :: "(u32 list \<Rightarrow> bytes \<Rightarrow> u32 list) \<Rightarrow> nat \<Rightarrow> u32 list \<Rightarrow> bytes \<Rightarrow> u32 list" where
  "data_order_loop compress 0 state data = state"
| "data_order_loop compress (Suc num) state data =
     data_order_loop compress num (compress state data) (drop 64 data)"

lemma data_order_absorbs:
  assumes "\<And>h data. length h = k \<Longrightarrow> 64 \<le> length data \<Longrightarrow> compress h data = compress' h (take 64 data)"
    "\<And>h b. length h = k \<Longrightarrow> length b = 64 \<Longrightarrow> length (compress' h b) = k"
  shows "length h = k \<Longrightarrow> 64 * n \<le> length data \<Longrightarrow> data_order_loop compress n h data = absorb compress' h (take (64 * n) data)"
proof (induction n arbitrary: h data)
  case (Suc n)
  have "take (64 * Suc n) data = take 64 data @ take (64 * n) (drop 64 data)" by (simp add: take_add)
  then show ?case
    using Suc by (simp add: absorb_block assms)
qed simp

section \<open>Seen by role\<close>

text \<open>The registers in the order of their roles: a round shifts this list.\<close>

definition view :: "nat \<Rightarrow> nat \<Rightarrow> 'a list \<Rightarrow> 'a list" where
  "view n i regs = map (\<lambda>j. regs ! role n i j) [0..<n]"

lemma role_less [simp]: "0 < n \<Longrightarrow> role n i j < n"
  by (simp add: role_def)

lemma role_alt:
  assumes "j < n"
  shows "role n i j = (if i mod n \<le> j then j - i mod n else j + n - i mod n)"
proof -
  have m: "i mod n < n" using assms by (intro mod_less_divisor) simp
  show ?thesis
  proof (cases "i mod n \<le> j")
    case True
    then have "j + n - i mod n = (j - i mod n) + n" by simp
    then show ?thesis using True assms unfolding role_def by (simp only: mod_add_self2) simp
  next
    case False
    then have "j + n - i mod n < n" using m by linarith
    then show ?thesis using False by (simp add: role_def)
  qed
qed

lemma role_inj:
  assumes "j < n" "k < n"
  shows "role n i j = role n i k \<longleftrightarrow> j = k"
proof -
  obtain q where q: "i mod n = q" "q < n" using assms(1) by (metis mod_less_divisor less_nat_zero_code not_gr_zero)
  have "j - q = k - q \<longleftrightarrow> j = k" if "q \<le> j" "q \<le> k" using that by linarith
  moreover have "j + n - q = k + n - q \<longleftrightarrow> j = k" using q(2) by linarith
  moreover have "j - q \<noteq> k + n - q" "k - q \<noteq> j + n - q" using assms q(2) by linarith+
  ultimately show ?thesis unfolding role_alt [OF assms(1)] role_alt [OF assms(2)] q(1) by auto
qed

lemma length_view [simp]: "length (view n i regs) = n"
  by (simp add: view_def)

lemma view_nth: "j < n \<Longrightarrow> view n i regs ! j = regs ! role n i j"
  by (simp add: view_def)

lemma view_update: "k < n \<Longrightarrow> length regs = n \<Longrightarrow> view n i (regs[role n i k := x]) = (view n i regs)[k := x]"
  by (rule nth_equalityI) (auto simp: view_nth nth_list_update role_inj)

lemma view_start: "i mod n = 0 \<Longrightarrow> length regs = n \<Longrightarrow> view n i regs = regs"
  by (rule nth_equalityI) (simp_all add: view_nth role_def)

lemma view_Suc:
  assumes "0 < n"
  shows "view n (Suc i) regs = view n i regs ! (n - 1) # take (n - 1) (view n i regs)"
proof (rule nth_equalityI)
  fix j assume j: "j < length (view n (Suc i) regs)"
  have m: "i mod n < n" using assms by simp
  show "view n (Suc i) regs ! j = (view n i regs ! (n - 1) # take (n - 1) (view n i regs)) ! j"
  proof (cases j)
    case 0
    have "role n (Suc i) 0 = role n i (n - 1)"
      using assms m by (simp add: role_alt mod_Suc split: if_split)
    then show ?thesis using 0 assms by (simp add: view_nth)
  next
    case (Suc k)
    have "role n (Suc i) (Suc k) = role n i k"
      using j m Suc by (auto simp: role_alt mod_Suc)
    then show ?thesis using j Suc by (simp add: view_nth)
  qed
qed (use assms in simp)

lemma view_write_first:
  assumes "length regs = 4" "view 4 i regs = [a, b, c, d]"
  shows "view 4 (Suc i) (regs[role 4 i 0 := x]) = [d, x, b, c]"
  using assms by (simp add: view_Suc view_update)

lemma ROTATE_rotr:
  assumes "0 < n" "n < 32"
  shows "ROTATE x n = word_rotr (32 - n) x"
proof (rule bit_word_eqI)
  fix i assume "i < LENGTH(32)"
  then have i: "i < 32" by simp
  have "bit x (i + (32 - n)) \<Longrightarrow> i + (32 - n) < 32" using bit_imp_le_length [of x "i + (32 - n)"] by simp
  moreover have "i + (32 - n) = 32 - n + i" by simp
  ultimately show "bit (ROTATE x n) i = bit (word_rotr (32 - n) x) i"
    using assms i by (cases "n \<le> i") (auto simp: ROTATE_def bit_simps mod_if)
qed

lemma ROTATE_rotl: "0 < n \<Longrightarrow> n < 32 \<Longrightarrow> ROTATE x n = word_rotl n x"
  by (simp add: ROTATE_rotr word_rotl_eq_word_rotr)

section \<open>Message words\<close>

text \<open>The words of a block, big-endian.\<close>

definition message_word :: "bytes \<Rightarrow> nat \<Rightarrow> u32" where
  "message_word b t = of_nat (be_val (take 4 (drop (4 * t) b)))"

lemma c2l_be_word:
  assumes "4 \<le> length c"
  shows "HOST_c2l_be c = of_nat (be_val (take 4 c))"
proof -
  obtain x0 x1 x2 x3 r where c: "c = x0 # x1 # x2 # x3 # r"
    using assms by (auto simp: numeral_eq_Suc Suc_le_length_iff)
  let ?u = "\<lambda>x. unat (ucast (x :: u8) :: u32)"
  have u: "?u x = unat x" "unat x < 256" for x using unat_less_u8 [of x] by (simp_all add: unat_ucast)
  have 1: "unat (push_bit 8 (ucast x2) OR ucast x3 :: u32) = unat x2 * 2 ^ 8 + unat x3"
    using unat_shift_or [of "ucast x3 :: u32" 8 "ucast x2"] u(2) [of x2] u(2) [of x3] by (simp add: u(1))
  have 2: "unat (push_bit 16 (ucast x1) OR (push_bit 8 (ucast x2) OR ucast x3) :: u32) = unat x1 * 2 ^ 16 + (unat x2 * 2 ^ 8 + unat x3)"
    using unat_shift_or [of "push_bit 8 (ucast x2) OR ucast x3 :: u32" 16 "ucast x1"] u(2) [of x1] u(2) [of x2] u(2) [of x3] by (simp add: u(1) 1)
  have 3: "unat (push_bit 24 (ucast x0) OR (push_bit 16 (ucast x1) OR (push_bit 8 (ucast x2) OR ucast x3)) :: u32) =
      unat x0 * 2 ^ 24 + (unat x1 * 2 ^ 16 + (unat x2 * 2 ^ 8 + unat x3))"
    using unat_shift_or [of "push_bit 16 (ucast x1) OR (push_bit 8 (ucast x2) OR ucast x3) :: u32" 24 "ucast x0"]
      u(2) [of x0] u(2) [of x1] u(2) [of x2] u(2) [of x3] by (simp add: u(1) 2)
  have "be_val (take 4 c) = unat x0 * 2 ^ 24 + (unat x1 * 2 ^ 16 + (unat x2 * 2 ^ 8 + unat x3))" by (simp add: c be_val_Cons)
  then have "of_nat (be_val (take 4 c)) = (of_nat (unat (HOST_c2l_be c)) :: u32)"
    using 3 by (simp add: HOST_c2l_be_def c or.assoc)
  then show ?thesis by simp
qed

lemma c2l_message_word:
  assumes "64 \<le> length data" "i < 16"
  shows "HOST_c2l_be (drop (4 * i) data) = message_word (take 64 data) i"
proof -
  have "4 \<le> length (drop (4 * i) data)" using assms by simp
  moreover have "take 4 (drop (4 * i) (take 64 data)) = take 4 (drop (4 * i) data)"
    using assms(2) by (simp add: drop_take min_def)
  ultimately show ?thesis by (simp add: c2l_be_word message_word_def)
qed

lemma take_concat_words: "take (4 * n) (concat (map (\<lambda>w. be_bytes 4 (f w)) ws)) = concat (map (\<lambda>w. be_bytes 4 (f w)) (take n ws))"
proof (induction ws arbitrary: n)
  case (Cons w ws)
  then show ?case by (cases n) simp_all
qed simp

lemma words_be: "concat (map HOST_l2c_be ws) = concat (map (\<lambda>w. be_bytes 4 (unat w)) ws)"
  by (induction ws) (simp_all add: l2c_be)

lemma concat_four_words: "length ws = 4 \<Longrightarrow> concat (map f ws) = f (ws ! 0) @ f (ws ! 1) @ f (ws ! 2) @ f (ws ! 3)"
  by (auto simp: numeral_eq_Suc length_Suc_conv)

lemma words_le: "concat (map HOST_l2c_le ws) = concat (map (\<lambda>w. le_bytes 4 (unat w)) ws)"
  by (induction ws) (simp_all add: l2c_le)

text \<open>The words of a block, little-endian, as MD4 and MD5 read them.\<close>

definition message_word_le :: "bytes \<Rightarrow> nat \<Rightarrow> u32" where
  "message_word_le b t = of_nat (le_val (take 4 (drop (4 * t) b)))"

lemma c2l_le_word:
  assumes "4 \<le> length c"
  shows "HOST_c2l_le c = of_nat (le_val (take 4 c))"
proof -
  obtain x0 x1 x2 x3 r where c: "c = x0 # x1 # x2 # x3 # r"
    using assms by (auto simp: numeral_eq_Suc Suc_le_length_iff)
  have "HOST_c2l_le c = HOST_c2l_be [x3, x2, x1, x0]" by (simp add: c HOST_c2l_le_def HOST_c2l_be_def ac_simps)
  also have "\<dots> = of_nat (be_val [x3, x2, x1, x0])" by (subst c2l_be_word) simp_all
  finally show ?thesis by (simp add: c le_val_def)
qed

lemma c2l_le_message_word:
  assumes "64 \<le> length data" "i < 16"
  shows "HOST_c2l_le (drop (4 * i) data) = message_word_le (take 64 data) i"
proof -
  have "4 \<le> length (drop (4 * i) data)" using assms by simp
  moreover have "take 4 (drop (4 * i) (take 64 data)) = take 4 (drop (4 * i) data)"
    using assms(2) by (simp add: drop_take min_def)
  ultimately show ?thesis by (simp add: c2l_le_word message_word_le_def)
qed

text \<open>The message schedule needs only its last sixteen words, which the array \<open>X\<close> holds in turn.\<close>

definition schedule_window :: "(nat \<Rightarrow> u32) \<Rightarrow> nat \<Rightarrow> u32 list \<Rightarrow> bool" where
  "schedule_window W i X \<longleftrightarrow> length X = 16 \<and> (\<forall>t < i. i \<le> t + 16 \<longrightarrow> X ! (t mod 16) = W t)"

lemma window_add:
  assumes "schedule_window W i X"
  shows "schedule_window W (Suc i) (X[i mod 16 := W i])"
proof -
  have "X[i mod 16 := W i] ! (t mod 16) = W t" if t: "t < Suc i" "Suc i \<le> t + 16" for t
  proof (cases "t = i")
    case False
    then have "i - t < 16" "0 < i - t" using t by simp_all
    then have "t mod 16 \<noteq> i mod 16" using t(1) mod_eq_dvd_iff_nat [of t i 16] by (auto dest: dvd_imp_le)
    then show ?thesis using assms t False by (simp add: schedule_window_def)
  qed (use assms in \<open>simp add: schedule_window_def\<close>)
  then show ?thesis using assms by (simp add: schedule_window_def)
qed

lemma window_nth:
  assumes "schedule_window W i X" "t < i" "i \<le> t + 16" "t mod 16 = k"
  shows "X ! k = W t"
  using assms by (auto simp: schedule_window_def)

lemma window_back:
  assumes "schedule_window W (j + 16) X" "n < 16"
  shows "X ! ((j + 16 + n) mod 16) = W (j + n)"
proof (rule window_nth [OF assms(1)])
  have "j + 16 + n = j + n + 16" by simp
  then show "(j + n) mod 16 = (j + 16 + n) mod 16" by (simp only: mod_add_self2)
qed (use assms(2) in simp_all)

lemma foldl_steps:
  assumes "I a s" "\<And>i s. a \<le> i \<Longrightarrow> i < b \<Longrightarrow> I i s \<Longrightarrow> I (Suc i) (f s i)"
  shows "a \<le> b \<Longrightarrow> I b (foldl f s [a..<b])"
proof -
  have "I (a + n) (foldl f s [a..<a + n])" if "a + n \<le> b" for n
    using that by (induction n) (use assms in auto)
  then show "a \<le> b \<Longrightarrow> I b (foldl f s [a..<b])" using le_Suc_ex by blast
qed

text \<open>Rounds that act on the registers by role, one after the other.\<close>

lemma foldl_view:
  assumes "length h = k" "n mod k = 0"
    "\<And>i regs. i < n \<Longrightarrow> length regs = k \<Longrightarrow> length (f i regs) = k \<and> view k (Suc i) (f i regs) = g i (view k i regs)"
  shows "foldl (\<lambda>regs i. f i regs) h [0..<n] = foldl (\<lambda>v i. g i v) h [0..<n]"
proof -
  have "length (foldl (\<lambda>regs i. f i regs) h [0..<m]) = k \<and>
      view k m (foldl (\<lambda>regs i. f i regs) h [0..<m]) = foldl (\<lambda>v i. g i v) h [0..<m]" if "m \<le> n" for m
    using that by (induction m) (use assms in \<open>simp_all add: view_start\<close>)
  note all = this [OF order_refl]
  show ?thesis using all view_start [OF assms(2) conjunct1 [OF all]] by simp
qed

end
