(* ===== verification/Sha256.thy ===== *)
theory Sha256
  imports Rounds
begin

text \<open>
  SHA-256 and SHA-224 (\<^verbatim>\<open>fipsmodule/sha/sha256.c\<close>): the unrolled block function with its rotating registers and
  its circular message schedule, and that it computes the hash function of FIPS 180-4.
\<close>

section \<open>The block function\<close>

text \<open>The table has a row for every eight rounds, after which the registers have their names again.\<close>

definition K256 :: "u32 list" where
  "K256 = concat
    [[0x428a2f98, 0x71374491, 0xb5c0fbcf, 0xe9b5dba5, 0x3956c25b, 0x59f111f1, 0x923f82a4, 0xab1c5ed5],
     [0xd807aa98, 0x12835b01, 0x243185be, 0x550c7dc3, 0x72be5d74, 0x80deb1fe, 0x9bdc06a7, 0xc19bf174],
     [0xe49b69c1, 0xefbe4786, 0x0fc19dc6, 0x240ca1cc, 0x2de92c6f, 0x4a7484aa, 0x5cb0a9dc, 0x76f988da],
     [0x983e5152, 0xa831c66d, 0xb00327c8, 0xbf597fc7, 0xc6e00bf3, 0xd5a79147, 0x06ca6351, 0x14292967],
     [0x27b70a85, 0x2e1b2138, 0x4d2c6dfc, 0x53380d13, 0x650a7354, 0x766a0abb, 0x81c2c92e, 0x92722c85],
     [0xa2bfe8a1, 0xa81a664b, 0xc24b8b70, 0xc76c51a3, 0xd192e819, 0xd6990624, 0xf40e3585, 0x106aa070],
     [0x19a4c116, 0x1e376c08, 0x2748774c, 0x34b0bcb5, 0x391c0cb3, 0x4ed8aa4a, 0x5b9cca4f, 0x682e6ff3],
     [0x748f82ee, 0x78a5636f, 0x84c87814, 0x8cc70208, 0x90befffa, 0xa4506ceb, 0xbef9a3f7, 0xc67178f2]]"

definition Sigma0 :: "u32 \<Rightarrow> u32" where
  "Sigma0 x = ROTATE x 30 XOR ROTATE x 19 XOR ROTATE x 10"

definition Sigma1 :: "u32 \<Rightarrow> u32" where
  "Sigma1 x = ROTATE x 26 XOR ROTATE x 21 XOR ROTATE x 7"

definition sigma0 :: "u32 \<Rightarrow> u32" where
  "sigma0 x = ROTATE x 25 XOR ROTATE x 14 XOR drop_bit 3 x"

definition sigma1 :: "u32 \<Rightarrow> u32" where
  "sigma1 x = ROTATE x 15 XOR ROTATE x 13 XOR drop_bit 10 x"

definition Ch :: "u32 \<Rightarrow> u32 \<Rightarrow> u32 \<Rightarrow> u32" where
  "Ch x y z = (x AND y) XOR (NOT x AND z)"

definition Maj :: "u32 \<Rightarrow> u32 \<Rightarrow> u32 \<Rightarrow> u32" where
  "Maj x y z = (x AND y) XOR (x AND z) XOR (y AND z)"

text \<open>\<open>ROUND_00_15\<close> and \<open>ROUND_16_63\<close>, on the registers \<open>a\<close> to \<open>h\<close> and the schedule \<open>X\<close>.\<close>

definition ROUND_00_15 :: "nat \<Rightarrow> u32 \<Rightarrow> u32 list \<Rightarrow> u32 list" where
  "ROUND_00_15 i T1 regs =
     (let a = regs ! role 8 i 0; b = regs ! role 8 i 1; c = regs ! role 8 i 2; d = regs ! role 8 i 3;
          e = regs ! role 8 i 4; f = regs ! role 8 i 5; g = regs ! role 8 i 6; h = regs ! role 8 i 7;
          T1 = T1 + (h + Sigma1 e + Ch e f g + K256 ! i);
          h = Sigma0 a + Maj a b c;
          d = d + T1;
          h = h + T1
      in regs[role 8 i 3 := d, role 8 i 7 := h])"

definition ROUND_16_63 :: "nat \<Rightarrow> u32 list \<times> u32 list \<Rightarrow> u32 list \<times> u32 list" where
  "ROUND_16_63 i st =
     (case st of (X, regs) \<Rightarrow>
        let s0 = sigma0 (X ! ((i + 1) mod 16));
            s1 = sigma1 (X ! ((i + 14) mod 16));
            T1 = X ! (i mod 16) + (s0 + s1 + X ! ((i + 9) mod 16))
        in (X[i mod 16 := T1], ROUND_00_15 i T1 regs))"

text \<open>A round that reads its word from the data.\<close>

definition sha256_load_round :: "bytes \<Rightarrow> nat \<Rightarrow> u32 list \<times> u32 list \<Rightarrow> u32 list \<times> u32 list" where
  "sha256_load_round data i st =
     (case st of (X, regs) \<Rightarrow> let l = HOST_c2l_be (drop (4 * i) data) in (X[i := l], ROUND_00_15 i l regs))"

definition sha256_compress :: "u32 list \<Rightarrow> bytes \<Rightarrow> u32 list" where
  "sha256_compress state data =
     (let st = foldl (\<lambda>st i. sha256_load_round data i st) (replicate 16 0, state) [0..<16];
          (X, regs) = foldl (\<lambda>st i. ROUND_16_63 i st) st [16..<64]
      in map2 (+) state regs)"

definition sha256_block_data_order :: block_data_order where
  "sha256_block_data_order state data num = data_order_loop sha256_compress num state data"

section \<open>The interface\<close>

definition SHA256_Init :: hash_ctx where
  "SHA256_Init = zero_ctx [0x6a09e667, 0xbb67ae85, 0x3c6ef372, 0xa54ff53a, 0x510e527f, 0x9b05688c, 0x1f83d9ab, 0x5be0cd19] 32"

definition SHA224_Init :: hash_ctx where
  "SHA224_Init = zero_ctx [0xc1059ed8, 0x367cd507, 0x3070dd17, 0xf70e5939, 0xffc00b31, 0x68581511, 0x64f98fa7, 0xbefa4fa4] 28"

definition SHA256_Update :: "hash_ctx \<Rightarrow> bytes \<Rightarrow> hash_ctx" where
  "SHA256_Update = HASH_UPDATE sha256_block_data_order"

definition sha256_make_string :: "hash_ctx \<Rightarrow> bytes option" where
  "sha256_make_string c =
     (if hash_md_len c > 32 then None else Some (concat (map HOST_l2c_be (take (hash_md_len c div 4) (hash_h c)))))"

definition SHA256_Final :: "hash_ctx \<Rightarrow> bytes option \<times> hash_ctx" where
  "SHA256_Final = HASH_FINAL True sha256_block_data_order sha256_make_string"

definition SHA256 :: "bytes \<Rightarrow> bytes option" where
  "SHA256 data = fst (SHA256_Final (SHA256_Update SHA256_Init data))"

definition SHA224_Update :: "hash_ctx \<Rightarrow> bytes \<Rightarrow> hash_ctx" where
  "SHA224_Update = SHA256_Update"

definition SHA224_Final :: "hash_ctx \<Rightarrow> bytes option \<times> hash_ctx" where
  "SHA224_Final = SHA256_Final"

definition SHA224 :: "bytes \<Rightarrow> bytes option" where
  "SHA224 data = fst (SHA224_Final (SHA224_Update SHA224_Init data))"

definition SHA256_Transform :: "hash_ctx \<Rightarrow> bytes \<Rightarrow> hash_ctx" where
  "SHA256_Transform = HASH_TRANSFORM sha256_block_data_order"

definition SHA256_TransformBlocks :: "u32 list \<Rightarrow> bytes \<Rightarrow> nat \<Rightarrow> u32 list" where
  "SHA256_TransformBlocks = sha256_block_data_order"

section \<open>FIPS 180-4\<close>

text \<open>The functions of sections 4.1.2 and 6.2.2; the words of the message are big-endian.\<close>

definition fips_Sigma0 :: "u32 \<Rightarrow> u32" where
  "fips_Sigma0 x = word_rotr 2 x XOR word_rotr 13 x XOR word_rotr 22 x"

definition fips_Sigma1 :: "u32 \<Rightarrow> u32" where
  "fips_Sigma1 x = word_rotr 6 x XOR word_rotr 11 x XOR word_rotr 25 x"

definition fips_sigma0 :: "u32 \<Rightarrow> u32" where
  "fips_sigma0 x = word_rotr 7 x XOR word_rotr 18 x XOR drop_bit 3 x"

definition fips_sigma1 :: "u32 \<Rightarrow> u32" where
  "fips_sigma1 x = word_rotr 17 x XOR word_rotr 19 x XOR drop_bit 10 x"

fun sha256_schedule :: "bytes \<Rightarrow> nat \<Rightarrow> u32" where
  "sha256_schedule b t =
     (if t < 16 then message_word b t
      else fips_sigma1 (sha256_schedule b (t - 2)) + sha256_schedule b (t - 7) + fips_sigma0 (sha256_schedule b (t - 15)) +
        sha256_schedule b (t - 16))"

declare sha256_schedule.simps [simp del]

definition sha256_step :: "u32 \<Rightarrow> u32 \<Rightarrow> u32 list \<Rightarrow> u32 list" where
  "sha256_step K W v =
     (case v of [a, b, c, d, e, f, g, h] \<Rightarrow>
        let T1 = h + fips_Sigma1 e + ((e AND f) XOR (NOT e AND g)) + K + W;
            T2 = fips_Sigma0 a + ((a AND b) XOR (a AND c) XOR (b AND c))
        in [T1 + T2, a, b, c, d + T1, e, f, g])"

definition fips_sha256_compress :: "u32 list \<Rightarrow> bytes \<Rightarrow> u32 list" where
  "fips_sha256_compress h b = map2 (+) h (foldl (\<lambda>v t. sha256_step (K256 ! t) (sha256_schedule b t) v) h [0..<64])"

definition fips_sha256 :: "u32 list \<Rightarrow> nat \<Rightarrow> bytes \<Rightarrow> bytes" where
  "fips_sha256 iv n msg = take n (concat (map (\<lambda>w. be_bytes 4 (unat w)) (digest_spec True fips_sha256_compress iv msg)))"

section \<open>The optimised rounds are the standard ones\<close>

lemma sha256_functions:
  "Sigma0 = fips_Sigma0" "Sigma1 = fips_Sigma1" "sigma0 = fips_sigma0" "sigma1 = fips_sigma1"
  by (simp_all add: fun_eq_iff Sigma0_def Sigma1_def sigma0_def sigma1_def fips_Sigma0_def fips_Sigma1_def fips_sigma0_def fips_sigma1_def
      ROTATE_rotr)

lemma sha256_round_view:
  assumes "length regs = 8"
  shows "view 8 (Suc i) (ROUND_00_15 i W regs) = sha256_step (K256 ! i) W (view 8 i regs) \<and> length (ROUND_00_15 i W regs) = 8"
proof -
  let ?r = "\<lambda>j. regs ! role 8 i j"
  have v: "view 8 i regs = [?r 0, ?r 1, ?r 2, ?r 3, ?r 4, ?r 5, ?r 6, ?r 7]" by (simp add: view_def upt_rec numeral_eq_Suc)
  show ?thesis
    using assms by (simp add: view_Suc ROUND_00_15_def Let_def view_update sha256_step_def v sha256_functions Ch_def Maj_def ac_simps)
qed

definition sha256_vars :: "bytes \<Rightarrow> u32 list \<Rightarrow> nat \<Rightarrow> u32 list" where
  "sha256_vars b h i = foldl (\<lambda>v t. sha256_step (K256 ! t) (sha256_schedule b t) v) h [0..<i]"

definition sha256_inv :: "bytes \<Rightarrow> u32 list \<Rightarrow> nat \<Rightarrow> u32 list \<times> u32 list \<Rightarrow> bool" where
  "sha256_inv b h i st \<longleftrightarrow> (case st of (X, regs) \<Rightarrow>
     schedule_window (sha256_schedule b) i X \<and> length regs = 8 \<and> view 8 i regs = sha256_vars b h i)"

lemma sha256_round_inv:
  assumes "sha256_inv b h i (X, regs)" "W = sha256_schedule b i"
  shows "sha256_inv b h (Suc i) (X[i mod 16 := W], ROUND_00_15 i W regs)"
  using assms sha256_round_view [of regs i W] window_add [of "sha256_schedule b" i X] by (simp add: sha256_inv_def sha256_vars_def)

lemma sha256_load_inv:
  assumes "sha256_inv (take 64 data) h i st" "i < 16" "64 \<le> length data"
  shows "sha256_inv (take 64 data) h (Suc i) (sha256_load_round data i st)"
proof -
  obtain X regs where st: "st = (X, regs)" by (cases st)
  have "HOST_c2l_be (drop (4 * i) data) = sha256_schedule (take 64 data) i"
    using assms(2) by (subst sha256_schedule.simps) (simp add: c2l_message_word [OF assms(3,2)])
  with sha256_round_inv [OF assms(1) [unfolded st] refl] assms(2) show ?thesis by (simp add: st sha256_load_round_def Let_def)
qed

lemma sha256_later_inv:
  assumes "sha256_inv b h i st" "16 \<le> i"
  shows "sha256_inv b h (Suc i) (ROUND_16_63 i st)"
proof -
  obtain X regs where st: "st = (X, regs)" by (cases st)
  have w: "schedule_window (sha256_schedule b) i X" using assms(1) by (simp add: st sha256_inv_def)
  define j where "j = i - 16"
  then have j: "i = j + 16" using assms(2) by simp
  have X: "X ! (i mod 16) = sha256_schedule b j" "X ! ((i + 1) mod 16) = sha256_schedule b (j + 1)"
    "X ! ((i + 9) mod 16) = sha256_schedule b (j + 9)" "X ! ((i + 14) mod 16) = sha256_schedule b (j + 14)"
  proof -
    note t = window_back [OF w [unfolded j], folded j]
    from t [of 0] t [of 1] t [of 9] t [of 14] show "X ! (i mod 16) = sha256_schedule b j" "X ! ((i + 1) mod 16) = sha256_schedule b (j + 1)"
      "X ! ((i + 9) mod 16) = sha256_schedule b (j + 9)" "X ! ((i + 14) mod 16) = sha256_schedule b (j + 14)" by simp_all
  qed
  have "sha256_schedule b i = fips_sigma1 (sha256_schedule b (j + 14)) + sha256_schedule b (j + 9) +
      fips_sigma0 (sha256_schedule b (j + 1)) + sha256_schedule b j"
    by (subst sha256_schedule.simps) (simp add: j add.commute)
  also have "\<dots> = sha256_schedule b j + (fips_sigma0 (sha256_schedule b (j + 1)) + fips_sigma1 (sha256_schedule b (j + 14)) + sha256_schedule b (j + 9))"
    by (simp only: ac_simps)
  finally have "X ! (i mod 16) + (sigma0 (X ! ((i + 1) mod 16)) + sigma1 (X ! ((i + 14) mod 16)) + X ! ((i + 9) mod 16)) = sha256_schedule b i"
    unfolding X sha256_functions ..
  note W = this
  show ?thesis
    unfolding st ROUND_16_63_def Let_def prod.case W by (rule sha256_round_inv [OF assms(1) [unfolded st] refl])
qed

lemma sha256_compress_fips:
  assumes "length state = 8" "64 \<le> length data"
  shows "sha256_compress state data = fips_sha256_compress state (take 64 data)"
proof -
  let ?b = "take 64 data"
  define st1 where "st1 = foldl (\<lambda>st i. sha256_load_round data i st) (replicate 16 0, state) [0..<16]"
  define st2 where "st2 = foldl (\<lambda>st i. ROUND_16_63 i st) st1 [16..<64]"
  obtain X regs where st: "st2 = (X, regs)" by (cases st2)
  have "sha256_inv ?b state 0 (replicate 16 0, state)"
    using assms(1) by (simp add: sha256_inv_def schedule_window_def sha256_vars_def view_start)
  then have "sha256_inv ?b state 16 st1"
    unfolding st1_def by (rule foldl_steps [where I = "sha256_inv ?b state"]) (rule sha256_load_inv [OF _ _ assms(2)], assumption+, simp)
  then have "sha256_inv ?b state 64 (X, regs)"
    unfolding st [symmetric] st2_def by (rule foldl_steps [where I = "sha256_inv ?b state"]) (rule sha256_later_inv, assumption+, simp)
  then have "length regs = 8" "view 8 64 regs = sha256_vars ?b state 64" by (simp_all add: sha256_inv_def)
  moreover have "view 8 64 regs = regs" if "length regs = 8" by (rule view_start) (simp_all add: that)
  moreover have "sha256_compress state data = map2 (+) state regs"
    unfolding sha256_compress_def Let_def st1_def [symmetric] st2_def [symmetric] st by simp
  ultimately show ?thesis by (simp only: fips_sha256_compress_def sha256_vars_def)
qed

lemma fips_sha256_length: "length h = 8 \<Longrightarrow> length (fips_sha256_compress h b) = 8"
proof -
  have "length (sha256_step K W v) = 8" if "length v = 8" for K W v
    using that by (auto simp: sha256_step_def Let_def numeral_eq_Suc length_Suc_conv)
  then have "length (foldl (\<lambda>v t. sha256_step (K256 ! t) (sha256_schedule b t) v) h [0..<n]) = 8" if "length h = 8" for n
    using that by (induction n) simp_all
  then show "length h = 8 \<Longrightarrow> length (fips_sha256_compress h b) = 8" by (simp add: fips_sha256_compress_def)
qed

interpretation sha256_blocks: block_function sha256_block_data_order fips_sha256_compress "\<lambda>h. length h = 8"
  by unfold_locales (simp_all add: sha256_block_data_order_def data_order_absorbs [where compress' = fips_sha256_compress and k = 8] sha256_compress_fips fips_sha256_length)

section \<open>The constants\<close>

text \<open>
  The constants are those of the standard: \<open>x\<close> is the first 32 bits of the fractional part of the \<open>r\<close>-th root
  of \<open>p\<close>, for the first primes.
\<close>

definition root_part :: "nat \<Rightarrow> nat \<Rightarrow> nat \<Rightarrow> u32 \<Rightarrow> bool" where
  "root_part r n p x \<longleftrightarrow> (n * 2 ^ 32 + unat x) ^ r \<le> p * (2 ^ 32) ^ r \<and> p * (2 ^ 32) ^ r < (n * 2 ^ 32 + unat x + 1) ^ r"

definition root_fraction :: "nat \<Rightarrow> nat \<Rightarrow> u32 \<Rightarrow> bool" where
  "root_fraction r p x \<longleftrightarrow> (\<exists>n. root_part r n p x)"

definition first_primes :: "nat list" where
  "first_primes =
    [2, 3, 5, 7, 11, 13, 17, 19, 23, 29, 31, 37, 41, 43, 47, 53,
     59, 61, 67, 71, 73, 79, 83, 89, 97, 101, 103, 107, 109, 113, 127, 131,
     137, 139, 149, 151, 157, 163, 167, 173, 179, 181, 191, 193, 197, 199, 211, 223,
     227, 229, 233, 239, 241, 251, 257, 263, 269, 271, 277, 281, 283, 293, 307, 311]"

lemma all_some_part:
  assumes "length ns = length ps" "list_all2 (\<lambda>(n, p) x. part n p x) (zip ns ps) xs"
  shows "list_all2 (\<lambda>p x. \<exists>n. part n p x) ps xs"
  using assms by (force simp: list_all2_conv_all_nth)

lemma root_fractions:
  assumes "length ns = length ps" "list_all2 (\<lambda>(n, p) x. root_part r n p x) (zip ns ps) xs"
  shows "list_all2 (root_fraction r) ps xs"
  using all_some_part [OF assms] by (simp add: root_fraction_def [abs_def])

text \<open>For SHA-224 it is the next 32 bits of the fraction; \<open>n\<close> is what comes before them.\<close>

definition second_part :: "nat \<Rightarrow> nat \<Rightarrow> u32 \<Rightarrow> bool" where
  "second_part n p x \<longleftrightarrow> (n * 2 ^ 32 + unat x) ^ 2 \<le> p * (2 ^ 64) ^ 2 \<and> p * (2 ^ 64) ^ 2 < (n * 2 ^ 32 + unat x + 1) ^ 2"

definition second_fraction :: "nat \<Rightarrow> u32 \<Rightarrow> bool" where
  "second_fraction p x \<longleftrightarrow> (\<exists>n. second_part n p x)"

lemma sha224_constants: "list_all2 second_fraction (take 8 (drop 8 first_primes)) (hash_h SHA224_Init)"
proof -
  have "list_all2 (\<lambda>(n, p) x. second_part n p x) (zip
      [20597939549, 23129106730, 23913365850, 26125266136, 27501209191, 28163984007, 29444812301, 31267833885] (take 8 (drop 8 first_primes))) (hash_h SHA224_Init)"
    by (simp add: first_primes_def SHA224_Init_def zero_ctx_def second_part_def)
  then have "list_all2 (\<lambda>p x. \<exists>n. second_part n p x) (take 8 (drop 8 first_primes)) (hash_h SHA224_Init)"
    by (rule all_some_part [rotated]) (simp add: first_primes_def)
  then show ?thesis by (simp add: second_fraction_def [abs_def])
qed

lemma sha256_constants:
  "list_all2 (root_fraction 3) first_primes K256"
  "list_all2 (root_fraction 2) (take 8 first_primes) (hash_h SHA256_Init)"
proof -
  have "list_all2 (\<lambda>(n, p) x. root_part 3 n p x) (zip
      [1, 1, 1, 1, 2, 2, 2, 2, 2, 3, 3, 3, 3, 3, 3, 3, 3, 3, 4, 4, 4, 4, 4, 4, 4, 4, 4, 4, 4, 4, 5, 5,
       5, 5, 5, 5, 5, 5, 5, 5, 5, 5, 5, 5, 5, 5, 5, 6, 6, 6, 6, 6, 6, 6, 6, 6, 6, 6, 6, 6, 6, 6, 6, 6] first_primes) K256"
    by (simp add: first_primes_def K256_def root_part_def)
  then show "list_all2 (root_fraction 3) first_primes K256" by (rule root_fractions [rotated]) (simp add: first_primes_def)
  have "list_all2 (\<lambda>(n, p) x. root_part 2 n p x) (zip [1, 1, 2, 2, 3, 3, 4, 4] (take 8 first_primes)) (hash_h SHA256_Init)"
    by (simp add: first_primes_def SHA256_Init_def zero_ctx_def root_part_def)
  then show "list_all2 (root_fraction 2) (take 8 first_primes) (hash_h SHA256_Init)"
    by (rule root_fractions [rotated]) (simp add: first_primes_def)
qed

section \<open>Properties\<close>

lemma sha256_final_digest:
  assumes "list_all (\<lambda>d. length d < 2 ^ 64) pieces" "length h = 8" "md_len = 4 * n" "n \<le> 8"
  shows "fst (HASH_FINAL True sha256_block_data_order sha256_make_string (foldl (HASH_UPDATE sha256_block_data_order) (zero_ctx h md_len) pieces)) =
     Some (fips_sha256 h md_len (concat pieces))"
proof -
  note d = sha256_blocks.digest_of_pieces [OF sha256_blocks.fresh_zero_ctx [OF assms(2), of md_len] assms(1) refl, of True sha256_make_string]
  show ?thesis
    using d assms(3,4) by (simp add: sha256_make_string_def zero_ctx_def fips_sha256_def words_be take_concat_words)
qed

text \<open>
  C10. SHA-256 and SHA-224 are computed as FIPS 180-4 defines them, in whatever pieces the message is given:
  the unrolled rounds with rotating registers and the circular message schedule compute the standard
  compression, and buffering, bit counting and padding the standard iteration. The round constants and the
  initial state of SHA-256 are the first 32 bits of the fractions of the cube and square roots of the first
  primes, and the initial state of SHA-224 is the second 32 bits of the square roots of the next primes.
\<close>

theorem sha256_is_fips:
  assumes "list_all (\<lambda>d. length d < 2 ^ 64) pieces"
  shows "fst (SHA256_Final (foldl SHA256_Update SHA256_Init pieces)) = Some (fips_sha256 (hash_h SHA256_Init) 32 (concat pieces)) \<and>
     fst (SHA224_Final (foldl SHA224_Update SHA224_Init pieces)) = Some (fips_sha256 (hash_h SHA224_Init) 28 (concat pieces)) \<and>
     list_all2 (root_fraction 3) first_primes K256 \<and> list_all2 (root_fraction 2) (take 8 first_primes) (hash_h SHA256_Init) \<and>
     list_all2 second_fraction (take 8 (drop 8 first_primes)) (hash_h SHA224_Init)"
proof -
  have "fst (SHA256_Final (foldl SHA256_Update SHA256_Init pieces)) = Some (fips_sha256 (hash_h SHA256_Init) 32 (concat pieces))"
    unfolding SHA256_Final_def SHA256_Update_def SHA256_Init_def
    using sha256_final_digest [OF assms, where n = 8 and md_len = 32] by (simp add: zero_ctx_def)
  moreover have "fst (SHA224_Final (foldl SHA224_Update SHA224_Init pieces)) = Some (fips_sha256 (hash_h SHA224_Init) 28 (concat pieces))"
    unfolding SHA256_Final_def SHA256_Update_def SHA224_Final_def SHA224_Update_def SHA224_Init_def
    using sha256_final_digest [OF assms, where n = 7 and md_len = 28] by (simp add: zero_ctx_def)
  ultimately show ?thesis using sha256_constants sha224_constants by simp
qed

theorem sha256_is_fips_witness:
  "fst (SHA256_Final (SHA256_Update (SHA256_Update SHA256_Init [0x61]) (replicate 100 0x62))) = SHA256 (0x61 # replicate 100 0x62)"
  using sha256_is_fips [of "[[0x61], replicate 100 0x62]"] sha256_is_fips [of "[0x61 # replicate 100 0x62]"]
  by (simp add: SHA256_def)

end
