(* ===== verification/Sha1.thy ===== *)
theory Sha1
  imports Rounds
begin

text \<open>
  SHA-1 (\<^verbatim>\<open>fipsmodule/sha/sha1.c\<close>): six registers rotate so that no round moves a word, and the schedule is a
  window of sixteen words; the block function is that of FIPS 180-4.
\<close>

section \<open>The block function\<close>

definition Xupdate :: "u32 \<Rightarrow> u32 \<Rightarrow> u32 \<Rightarrow> u32 \<Rightarrow> u32" where
  "Xupdate ia ib ic id' = (let a = ia XOR ib XOR ic XOR id' in ROTATE a 1)"

definition K_00_19 :: u32 where "K_00_19 = 0x5a827999"

definition K_20_39 :: u32 where "K_20_39 = 0x6ed9eba1"

definition K_40_59 :: u32 where "K_40_59 = 0x8f1bbcdc"

definition K_60_79 :: u32 where "K_60_79 = 0xca62c1d6"

definition F_00_19 :: "u32 \<Rightarrow> u32 \<Rightarrow> u32 \<Rightarrow> u32" where
  "F_00_19 b c d = ((c XOR d) AND b) XOR d"

definition F_20_39 :: "u32 \<Rightarrow> u32 \<Rightarrow> u32 \<Rightarrow> u32" where
  "F_20_39 b c d = b XOR c XOR d"

definition F_40_59 :: "u32 \<Rightarrow> u32 \<Rightarrow> u32 \<Rightarrow> u32" where
  "F_40_59 b c d = (b AND c) OR ((b OR c) AND d)"

definition F_60_79 :: "u32 \<Rightarrow> u32 \<Rightarrow> u32 \<Rightarrow> u32" where
  "F_60_79 b c d = F_20_39 b c d"

text \<open>
  The rounds on the registers \<open>A\<close>, \<open>B\<close>, \<open>C\<close>, \<open>D\<close>, \<open>E\<close>, \<open>T\<close> and the schedule \<open>X\<close>; \<open>xi\<close> to \<open>xd\<close> are the indices of the
  words that the code names in the round. \<open>BODY_20_31\<close> writes \<open>xi\<close>, the later rounds write \<open>xa\<close>.
\<close>

definition BODY_00_15 :: "nat \<Rightarrow> u32 \<Rightarrow> u32 list \<Rightarrow> u32 list" where
  "BODY_00_15 i xi regs =
     (let a = regs ! role 6 i 0; b = regs ! role 6 i 1; c = regs ! role 6 i 2; d = regs ! role 6 i 3; e = regs ! role 6 i 4;
          f = xi + e + K_00_19 + ROTATE a 5 + F_00_19 b c d;
          b = ROTATE b 30
      in regs[role 6 i 5 := f, role 6 i 1 := b])"

definition BODY_update :: "nat \<Rightarrow> u32 \<Rightarrow> (u32 \<Rightarrow> u32 \<Rightarrow> u32 \<Rightarrow> u32) \<Rightarrow> u32 \<Rightarrow> u32 list \<Rightarrow> u32 list" where
  "BODY_update i K F x regs =
     (let a = regs ! role 6 i 0; b = regs ! role 6 i 1; c = regs ! role 6 i 2; d = regs ! role 6 i 3; e = regs ! role 6 i 4;
          f = x + (e + K + ROTATE a 5 + F b c d);
          b = ROTATE b 30
      in regs[role 6 i 5 := f, role 6 i 1 := b])"

definition BODY_16_31 :: "nat \<Rightarrow> u32 \<Rightarrow> (u32 \<Rightarrow> u32 \<Rightarrow> u32 \<Rightarrow> u32) \<Rightarrow> nat \<Rightarrow> nat \<Rightarrow> nat \<Rightarrow> nat \<Rightarrow> nat \<Rightarrow> u32 list \<times> u32 list \<Rightarrow> u32 list \<times> u32 list" where
  "BODY_16_31 i K F xi xa xb xc xd st =
     (case st of (X, regs) \<Rightarrow>
        let f = Xupdate (X ! xa) (X ! xb) (X ! xc) (X ! xd) in (X[xi := f], BODY_update i K F f regs))"

definition BODY_32_59 :: "nat \<Rightarrow> u32 \<Rightarrow> (u32 \<Rightarrow> u32 \<Rightarrow> u32 \<Rightarrow> u32) \<Rightarrow> nat \<Rightarrow> nat \<Rightarrow> nat \<Rightarrow> nat \<Rightarrow> u32 list \<times> u32 list \<Rightarrow> u32 list \<times> u32 list" where
  "BODY_32_59 i K F xa xb xc xd st =
     (case st of (X, regs) \<Rightarrow>
        let f = Xupdate (X ! xa) (X ! xb) (X ! xc) (X ! xd) in (X[xa := f], BODY_update i K F f regs))"

definition BODY_60_79 :: "nat \<Rightarrow> nat \<Rightarrow> nat \<Rightarrow> nat \<Rightarrow> nat \<Rightarrow> u32 list \<times> u32 list \<Rightarrow> u32 list \<times> u32 list" where
  "BODY_60_79 i xa xb xc xd st =
     (case st of (X, regs) \<Rightarrow>
        let X = X[xa := Xupdate (X ! xa) (X ! xb) (X ! xc) (X ! xd)];
            a = regs ! role 6 i 0; b = regs ! role 6 i 1; c = regs ! role 6 i 2; d = regs ! role 6 i 3; e = regs ! role 6 i 4;
            f = X ! xa + e + K_60_79 + ROTATE a 5 + F_60_79 b c d;
            b = ROTATE b 30
        in (X, regs[role 6 i 5 := f, role 6 i 1 := b]))"

text \<open>
  The 80 rounds. The code reads the word of round \<open>i + 1\<close> before it does round \<open>i\<close> of the first fifteen; here a
  round reads its own. The register \<open>T\<close> has no value before the first round writes it; here it starts as 0.
\<close>

definition sha1_load_round :: "bytes \<Rightarrow> nat \<Rightarrow> u32 list \<times> u32 list \<Rightarrow> u32 list \<times> u32 list" where
  "sha1_load_round data i st =
     (case st of (X, regs) \<Rightarrow> let l = HOST_c2l_be (drop (4 * i) data) in (X[i := l], BODY_00_15 i l regs))"

definition sha1_later_round :: "nat \<Rightarrow> u32 list \<times> u32 list \<Rightarrow> u32 list \<times> u32 list" where
  "sha1_later_round i st =
     (let xa = i mod 16; xb = (i + 2) mod 16; xc = (i + 8) mod 16; xd = (i + 13) mod 16 in
      if i < 20 then BODY_16_31 i K_00_19 F_00_19 xa xa xb xc xd st
      else if i < 32 then BODY_16_31 i K_20_39 F_20_39 xa xa xb xc xd st
      else if i < 40 then BODY_32_59 i K_20_39 F_20_39 xa xb xc xd st
      else if i < 60 then BODY_32_59 i K_40_59 F_40_59 xa xb xc xd st
      else BODY_60_79 i xa xb xc xd st)"

definition sha1_compress :: "u32 list \<Rightarrow> bytes \<Rightarrow> u32 list" where
  "sha1_compress state data =
     (let st = foldl (\<lambda>st i. sha1_load_round data i st) (replicate 16 0, state @ [0]) [0..<16];
          (X, regs) = foldl (\<lambda>st i. sha1_later_round i st) st [16..<80]
      in case regs of [A, B, C, D, E, T] \<Rightarrow> map2 (+) state [E, T, A, B, C])"

text \<open>The loop is \<^verbatim>\<open>for (;;)\<close> with \<^verbatim>\<open>if (--num == 0) break;\<close> after the block, so that it runs at least once.\<close>

function sha1_block_data_order :: block_data_order where
  "sha1_block_data_order state data num =
     (let state = sha1_compress state data;
          num = (if num = 0 then 2 ^ 64 - 1 else num - 1)
      in if num = 0 then state else sha1_block_data_order state (drop 64 data) num)"
  by pat_completeness auto

termination
  by (relation "measure (\<lambda>(state, data, num). if num = 0 then 2 ^ 64 else num)") (auto simp: Let_def)

declare sha1_block_data_order.simps [simp del]

section \<open>The interface\<close>

definition SHA1_Init :: hash_ctx where
  "SHA1_Init = zero_ctx [0x67452301, 0xefcdab89, 0x98badcfe, 0x10325476, 0xc3d2e1f0] 0"

definition SHA1_Update :: "hash_ctx \<Rightarrow> bytes \<Rightarrow> hash_ctx" where
  "SHA1_Update = HASH_UPDATE sha1_block_data_order"

definition sha1_make_string :: "hash_ctx \<Rightarrow> bytes option" where
  "sha1_make_string c =
     Some (HOST_l2c_be (hash_h c ! 0) @ HOST_l2c_be (hash_h c ! 1) @ HOST_l2c_be (hash_h c ! 2) @ HOST_l2c_be (hash_h c ! 3) @
       HOST_l2c_be (hash_h c ! 4))"

definition SHA1_Final :: "hash_ctx \<Rightarrow> bytes option \<times> hash_ctx" where
  "SHA1_Final = HASH_FINAL True sha1_block_data_order sha1_make_string"

definition SHA1_Transform :: "hash_ctx \<Rightarrow> bytes \<Rightarrow> hash_ctx" where
  "SHA1_Transform = HASH_TRANSFORM sha1_block_data_order"

definition SHA1 :: "bytes \<Rightarrow> bytes option" where
  "SHA1 data = fst (SHA1_Final (SHA1_Update SHA1_Init data))"

section \<open>FIPS 180-4\<close>

text \<open>The functions of sections 4.1.1, 4.2.1 and 6.1.2.\<close>

definition fips_f :: "nat \<Rightarrow> u32 \<Rightarrow> u32 \<Rightarrow> u32 \<Rightarrow> u32" where
  "fips_f t x y z =
     (if t < 20 then (x AND y) XOR (NOT x AND z)
      else if t < 40 then x XOR y XOR z
      else if t < 60 then (x AND y) XOR (x AND z) XOR (y AND z)
      else x XOR y XOR z)"

definition fips_K :: "nat \<Rightarrow> u32" where
  "fips_K t = (if t < 20 then 0x5a827999 else if t < 40 then 0x6ed9eba1 else if t < 60 then 0x8f1bbcdc else 0xca62c1d6)"

fun sha1_schedule :: "bytes \<Rightarrow> nat \<Rightarrow> u32" where
  "sha1_schedule b t =
     (if t < 16 then message_word b t
      else word_rotl 1 (sha1_schedule b (t - 3) XOR sha1_schedule b (t - 8) XOR sha1_schedule b (t - 14) XOR sha1_schedule b (t - 16)))"

declare sha1_schedule.simps [simp del]

definition sha1_step :: "nat \<Rightarrow> u32 \<Rightarrow> u32 list \<Rightarrow> u32 list" where
  "sha1_step t W v =
     (case v of [a, b, c, d, e] \<Rightarrow> [word_rotl 5 a + fips_f t b c d + e + fips_K t + W, a, word_rotl 30 b, c, d])"

definition fips_sha1_compress :: "u32 list \<Rightarrow> bytes \<Rightarrow> u32 list" where
  "fips_sha1_compress h b = map2 (+) h (foldl (\<lambda>v t. sha1_step t (sha1_schedule b t) v) h [0..<80])"

definition fips_sha1 :: "u32 list \<Rightarrow> bytes \<Rightarrow> bytes" where
  "fips_sha1 iv msg = concat (map (\<lambda>w. be_bytes 4 (unat w)) (digest_spec True fips_sha1_compress iv msg))"

section \<open>The rounds are the standard ones\<close>

lemma sha1_F:
  "t < 20 \<Longrightarrow> F_00_19 b c d = fips_f t b c d" "20 \<le> t \<Longrightarrow> t < 40 \<Longrightarrow> F_20_39 b c d = fips_f t b c d"
  "40 \<le> t \<Longrightarrow> t < 60 \<Longrightarrow> F_40_59 b c d = fips_f t b c d" "60 \<le> t \<Longrightarrow> F_60_79 b c d = fips_f t b c d"
  by (rule bit_word_eqI; auto simp: F_00_19_def F_20_39_def F_40_59_def F_60_79_def fips_f_def bit_simps)+

lemma sha1_K:
  "t < 20 \<Longrightarrow> K_00_19 = fips_K t" "20 \<le> t \<Longrightarrow> t < 40 \<Longrightarrow> K_20_39 = fips_K t"
  "40 \<le> t \<Longrightarrow> t < 60 \<Longrightarrow> K_40_59 = fips_K t" "60 \<le> t \<Longrightarrow> K_60_79 = fips_K t"
  by (simp_all add: K_00_19_def K_20_39_def K_40_59_def K_60_79_def fips_K_def)

text \<open>Every kind of round shifts the registers, seen by role, as a step of the standard does.\<close>

definition sha1_round :: "nat \<Rightarrow> u32 \<Rightarrow> u32 list \<Rightarrow> u32 list" where
  "sha1_round i W regs = BODY_update i (fips_K i) (fips_f i) W regs"

lemma BODY_sha1_round:
  "i < 16 \<Longrightarrow> BODY_00_15 i W regs = sha1_round i W regs"
  by (simp add: BODY_00_15_def sha1_round_def BODY_update_def Let_def sha1_F [of i, symmetric] sha1_K [of i, symmetric] ac_simps)

lemma sha1_round_view:
  assumes "length regs = 6"
  shows "take 5 (view 6 (Suc i) (sha1_round i W regs)) = sha1_step i W (take 5 (view 6 i regs)) \<and> length (sha1_round i W regs) = 6"
proof -
  let ?r = "\<lambda>j. regs ! role 6 i j"
  have v: "view 6 i regs = [?r 0, ?r 1, ?r 2, ?r 3, ?r 4, ?r 5]" by (simp add: view_def upt_rec numeral_eq_Suc)
  show ?thesis
    using assms by (simp add: view_Suc sha1_round_def BODY_update_def Let_def view_update sha1_step_def v ROTATE_rotl ac_simps)
qed

lemma sha1_later_round_eq:
  assumes "16 \<le> i" and l: "length X = 16"
  shows "sha1_later_round i (X, regs) =
    (let W = ROTATE (X ! (i mod 16) XOR X ! ((i + 2) mod 16) XOR X ! ((i + 8) mod 16) XOR X ! ((i + 13) mod 16)) 1
     in (X[i mod 16 := W], sha1_round i W regs))"
proof -
  note defs = sha1_later_round_def BODY_16_31_def BODY_32_59_def BODY_60_79_def sha1_round_def BODY_update_def Xupdate_def Let_def
  consider "i < 20" | "20 \<le> i" "i < 32" | "32 \<le> i" "i < 40" | "40 \<le> i" "i < 60" | "60 \<le> i" by linarith
  then show ?thesis
    by cases (use assms l in \<open>simp_all add: defs sha1_F [of i, symmetric] sha1_K [of i, symmetric] ac_simps\<close>)
qed

section \<open>A block\<close>

definition sha1_vars :: "bytes \<Rightarrow> u32 list \<Rightarrow> nat \<Rightarrow> u32 list" where
  "sha1_vars b h i = foldl (\<lambda>v t. sha1_step t (sha1_schedule b t) v) h [0..<i]"

definition sha1_inv :: "bytes \<Rightarrow> u32 list \<Rightarrow> nat \<Rightarrow> u32 list \<times> u32 list \<Rightarrow> bool" where
  "sha1_inv b h i st \<longleftrightarrow> (case st of (X, regs) \<Rightarrow>
     schedule_window (sha1_schedule b) i X \<and> length regs = 6 \<and> take 5 (view 6 i regs) = sha1_vars b h i)"

lemma sha1_round_inv:
  assumes "sha1_inv b h i (X, regs)" "W = sha1_schedule b i"
  shows "sha1_inv b h (Suc i) (X[i mod 16 := W], sha1_round i W regs)"
  using assms sha1_round_view [of regs i W] window_add [of "sha1_schedule b" i X] by (simp add: sha1_inv_def sha1_vars_def)

lemma sha1_load_inv:
  assumes "sha1_inv (take 64 data) h i st" "i < 16" "64 \<le> length data"
  shows "sha1_inv (take 64 data) h (Suc i) (sha1_load_round data i st)"
proof -
  obtain X regs where st: "st = (X, regs)" by (cases st)
  have "HOST_c2l_be (drop (4 * i) data) = sha1_schedule (take 64 data) i"
    using assms(2) by (subst sha1_schedule.simps) (simp add: c2l_message_word [OF assms(3,2)])
  with sha1_round_inv [OF assms(1) [unfolded st] refl] assms(2) show ?thesis
    by (simp add: st sha1_load_round_def Let_def BODY_sha1_round)
qed

lemma sha1_later_inv:
  assumes "sha1_inv b h i st" "16 \<le> i"
  shows "sha1_inv b h (Suc i) (sha1_later_round i st)"
proof -
  obtain X regs where st: "st = (X, regs)" by (cases st)
  have w: "schedule_window (sha1_schedule b) i X" and l: "length X = 16"
    using assms(1) by (simp_all add: st sha1_inv_def schedule_window_def)
  obtain j where j: "i = j + 16" using assms(2) le_Suc_ex [of 16 i] by (auto simp: add.commute)
  note X = window_back [OF w [unfolded j], folded j]
  have "sha1_schedule b i = word_rotl 1 (sha1_schedule b (j + 13) XOR sha1_schedule b (j + 8) XOR sha1_schedule b (j + 2) XOR sha1_schedule b j)"
    by (subst sha1_schedule.simps) (simp add: j add.commute)
  then have W: "ROTATE (X ! (i mod 16) XOR X ! ((i + 2) mod 16) XOR X ! ((i + 8) mod 16) XOR X ! ((i + 13) mod 16)) 1 = sha1_schedule b i"
    using X [of 0] X [of 2] X [of 8] X [of 13] by (simp add: ROTATE_rotl ac_simps)
  show ?thesis
    unfolding st sha1_later_round_eq [OF assms(2) l] Let_def W by (rule sha1_round_inv [OF assms(1) [unfolded st] refl])
qed

lemma sha1_compress_fips:
  assumes "length state = 5" "64 \<le> length data"
  shows "sha1_compress state data = fips_sha1_compress state (take 64 data)"
proof -
  let ?b = "take 64 data"
  define st1 where "st1 = foldl (\<lambda>st i. sha1_load_round data i st) (replicate 16 0, state @ [0]) [0..<16]"
  define st2 where "st2 = foldl (\<lambda>st i. sha1_later_round i st) st1 [16..<80]"
  obtain X regs where st: "st2 = (X, regs)" by (cases st2)
  have "sha1_inv ?b state 0 (replicate 16 0, state @ [0])"
    using assms(1) by (simp add: sha1_inv_def schedule_window_def sha1_vars_def view_start)
  then have "sha1_inv ?b state 16 st1"
    unfolding st1_def by (rule foldl_steps [where I = "sha1_inv ?b state"]) (rule sha1_load_inv [OF _ _ assms(2)], assumption+, simp)
  then have "sha1_inv ?b state 80 (X, regs)"
    unfolding st [symmetric] st2_def by (rule foldl_steps [where I = "sha1_inv ?b state"]) (rule sha1_later_inv, assumption+, simp)
  then have r: "length regs = 6" "take 5 (view 6 80 regs) = sha1_vars ?b state 80" by (simp_all add: sha1_inv_def)
  obtain A B C D E T where regs: "regs = [A, B, C, D, E, T]" using r(1) by (auto simp: numeral_eq_Suc length_Suc_conv)
  have "take 5 (view 6 80 regs) = [E, T, A, B, C]"
    by (simp add: regs view_def role_def upt_rec)
  moreover have "sha1_compress state data = map2 (+) state [E, T, A, B, C]"
    unfolding sha1_compress_def Let_def st1_def [symmetric] st2_def [symmetric] st by (simp add: regs)
  ultimately show ?thesis using r(2) by (simp only: fips_sha1_compress_def sha1_vars_def)
qed

lemma fips_sha1_length: "length h = 5 \<Longrightarrow> length (fips_sha1_compress h b) = 5"
proof -
  have "length (sha1_step t W v) = 5" if "length v = 5" for t W v
    using that by (auto simp: sha1_step_def numeral_eq_Suc length_Suc_conv)
  then have "length (foldl (\<lambda>v t. sha1_step t (sha1_schedule b t) v) h [0..<n]) = 5" if "length h = 5" for n
    using that by (induction n) simp_all
  then show "length h = 5 \<Longrightarrow> length (fips_sha1_compress h b) = 5" by (simp add: fips_sha1_compress_def)
qed

lemma sha1_data_order: "0 < n \<Longrightarrow> sha1_block_data_order h data n = data_order_loop sha1_compress n h data"
proof (induction n arbitrary: h data)
  case (Suc n)
  then show ?case by (subst sha1_block_data_order.simps) (cases n; simp)
qed simp

interpretation sha1_blocks: block_function sha1_block_data_order fips_sha1_compress "\<lambda>h. length h = 5"
  by unfold_locales
    (simp_all add: sha1_data_order data_order_absorbs [where compress' = fips_sha1_compress and k = 5] sha1_compress_fips fips_sha1_length)

section \<open>Digests\<close>

text \<open>
  SHA-1 is computed as FIPS 180-4 defines it, in whatever pieces the message is given: rounds that rotate
  six registers instead of moving five words, with a circular message schedule, compute the standard
  compression.
\<close>

lemma sha1_digest:
  assumes "list_all (\<lambda>d. length d < 2 ^ 64) pieces"
  shows "fst (SHA1_Final (foldl SHA1_Update SHA1_Init pieces)) = Some (fips_sha1 (hash_h SHA1_Init) (concat pieces))"
proof -
  have h: "length (hash_h SHA1_Init) = 5" by (simp add: SHA1_Init_def zero_ctx_def)
  have "sha1_blocks.fresh_ctx SHA1_Init"
    unfolding SHA1_Init_def by (rule sha1_blocks.fresh_zero_ctx) simp
  note d = sha1_blocks.digest_of_pieces [OF this assms refl, of True sha1_make_string]
  have "length (digest_spec True fips_sha1_compress (hash_h SHA1_Init) (concat pieces)) = 5"
    using sha1_blocks.absorb_ok [OF h] by (simp add: digest_spec_def)
  then have "concat (map HOST_l2c_be ws) = HOST_l2c_be (ws ! 0) @ HOST_l2c_be (ws ! 1) @ HOST_l2c_be (ws ! 2) @ HOST_l2c_be (ws ! 3) @
      HOST_l2c_be (ws ! 4)" if "ws = digest_spec True fips_sha1_compress (hash_h SHA1_Init) (concat pieces)" for ws
    using that by (auto simp: numeral_eq_Suc length_Suc_conv)
  then show ?thesis
    using d by (simp add: SHA1_Final_def SHA1_Update_def sha1_make_string_def fips_sha1_def words_be [symmetric])
qed

end
