(* ===== verification/Md5.thy ===== *)
theory Md5
  imports Rounds
begin

text \<open>
  MD5 (\<^verbatim>\<open>fipsmodule/md5/md5.c\<close>): 64 steps on four registers whose names rotate, and that they are the steps of
  RFC 1321.
\<close>

section \<open>The block function\<close>

definition md5_F :: "u32 \<Rightarrow> u32 \<Rightarrow> u32 \<Rightarrow> u32" where
  "md5_F b c d = ((c XOR d) AND b) XOR d"

definition md5_G :: "u32 \<Rightarrow> u32 \<Rightarrow> u32 \<Rightarrow> u32" where
  "md5_G b c d = ((b XOR c) AND d) XOR c"

definition md5_H :: "u32 \<Rightarrow> u32 \<Rightarrow> u32 \<Rightarrow> u32" where
  "md5_H b c d = b XOR c XOR d"

definition md5_I :: "u32 \<Rightarrow> u32 \<Rightarrow> u32 \<Rightarrow> u32" where
  "md5_I b c d = (NOT d OR b) XOR c"

text \<open>
  \<^verbatim>\<open>R0\<close> to \<^verbatim>\<open>R3\<close>, which differ in the function that they apply, and the arguments \<open>k\<close> (as an index of \<open>X\<close>), \<open>s\<close>, \<open>t\<close> of
  the 64 lines of the block function.
\<close>

definition md5_R :: "(u32 \<Rightarrow> u32 \<Rightarrow> u32 \<Rightarrow> u32) \<Rightarrow> nat \<Rightarrow> u32 \<Rightarrow> nat \<Rightarrow> u32 \<Rightarrow> u32 list \<Rightarrow> u32 list" where
  "md5_R F i k s t regs =
     (let a = regs ! role 4 i 0; b = regs ! role 4 i 1; c = regs ! role 4 i 2; d = regs ! role 4 i 3;
          a = a + (k + t + F b c d);
          a = ROTATE a s;
          a = a + b
      in regs[role 4 i 0 := a])"

definition md5_lines :: "(nat \<times> nat \<times> u32) list" where
  "md5_lines =
    [
     (0, 7, 0xd76aa478), (1, 12, 0xe8c7b756), (2, 17, 0x242070db), (3, 22, 0xc1bdceee),
     (4, 7, 0xf57c0faf), (5, 12, 0x4787c62a), (6, 17, 0xa8304613), (7, 22, 0xfd469501),
     (8, 7, 0x698098d8), (9, 12, 0x8b44f7af), (10, 17, 0xffff5bb1), (11, 22, 0x895cd7be),
     (12, 7, 0x6b901122), (13, 12, 0xfd987193), (14, 17, 0xa679438e), (15, 22, 0x49b40821),
     (1, 5, 0xf61e2562), (6, 9, 0xc040b340), (11, 14, 0x265e5a51), (0, 20, 0xe9b6c7aa),
     (5, 5, 0xd62f105d), (10, 9, 0x02441453), (15, 14, 0xd8a1e681), (4, 20, 0xe7d3fbc8),
     (9, 5, 0x21e1cde6), (14, 9, 0xc33707d6), (3, 14, 0xf4d50d87), (8, 20, 0x455a14ed),
     (13, 5, 0xa9e3e905), (2, 9, 0xfcefa3f8), (7, 14, 0x676f02d9), (12, 20, 0x8d2a4c8a),
     (5, 4, 0xfffa3942), (8, 11, 0x8771f681), (11, 16, 0x6d9d6122), (14, 23, 0xfde5380c),
     (1, 4, 0xa4beea44), (4, 11, 0x4bdecfa9), (7, 16, 0xf6bb4b60), (10, 23, 0xbebfbc70),
     (13, 4, 0x289b7ec6), (0, 11, 0xeaa127fa), (3, 16, 0xd4ef3085), (6, 23, 0x04881d05),
     (9, 4, 0xd9d4d039), (12, 11, 0xe6db99e5), (15, 16, 0x1fa27cf8), (2, 23, 0xc4ac5665),
     (0, 6, 0xf4292244), (7, 10, 0x432aff97), (14, 15, 0xab9423a7), (5, 21, 0xfc93a039),
     (12, 6, 0x655b59c3), (3, 10, 0x8f0ccc92), (10, 15, 0xffeff47d), (1, 21, 0x85845dd1),
     (8, 6, 0x6fa87e4f), (15, 10, 0xfe2ce6e0), (6, 15, 0xa3014314), (13, 21, 0x4e0811a1),
     (4, 6, 0xf7537e82), (11, 10, 0xbd3af235), (2, 15, 0x2ad7d2bb), (9, 21, 0xeb86d391)]"

definition md5_line :: "u32 list \<Rightarrow> nat \<Rightarrow> u32 list \<Rightarrow> u32 list" where
  "md5_line X i regs =
     (case md5_lines ! i of (k, s, t) \<Rightarrow>
        md5_R (if i < 16 then md5_F else if i < 32 then md5_G else if i < 48 then md5_H else md5_I) i (X ! k) s t regs)"

text \<open>The code reads the words between the first lines, each before the line that uses it; here they are read first.\<close>

definition md5_compress :: "u32 list \<Rightarrow> bytes \<Rightarrow> u32 list" where
  "md5_compress state data =
     (let X = map (\<lambda>i. HOST_c2l_le (drop (4 * i) data)) [0..<16]
      in map2 (+) state (foldl (\<lambda>regs i. md5_line X i regs) state [0..<64]))"

definition md5_block_data_order :: block_data_order where
  "md5_block_data_order state data num = data_order_loop md5_compress num state data"

section \<open>The interface\<close>

definition MD5_Init :: hash_ctx where
  "MD5_Init = zero_ctx [0x67452301, 0xefcdab89, 0x98badcfe, 0x10325476] 0"

definition MD5_Update :: "hash_ctx \<Rightarrow> bytes \<Rightarrow> hash_ctx" where
  "MD5_Update = HASH_UPDATE md5_block_data_order"

definition md5_make_string :: "hash_ctx \<Rightarrow> bytes option" where
  "md5_make_string c =
     Some (HOST_l2c_le (hash_h c ! 0) @ HOST_l2c_le (hash_h c ! 1) @ HOST_l2c_le (hash_h c ! 2) @ HOST_l2c_le (hash_h c ! 3))"

definition MD5_Final :: "hash_ctx \<Rightarrow> bytes option \<times> hash_ctx" where
  "MD5_Final = HASH_FINAL False md5_block_data_order md5_make_string"

definition MD5_Transform :: "hash_ctx \<Rightarrow> bytes \<Rightarrow> hash_ctx" where
  "MD5_Transform = HASH_TRANSFORM md5_block_data_order"

definition MD5 :: "bytes \<Rightarrow> bytes option" where
  "MD5 data = fst (MD5_Final (MD5_Update MD5_Init data))"

section \<open>RFC 1321\<close>

text \<open>
  The auxiliary functions, the order of the words and the shifts of section 3.4; \<open>rfc_md5_T\<close> is its table of
  constants.
\<close>

definition rfc_md5_f :: "nat \<Rightarrow> u32 \<Rightarrow> u32 \<Rightarrow> u32 \<Rightarrow> u32" where
  "rfc_md5_f i x y z =
     (if i < 16 then (x AND y) OR (NOT x AND z)
      else if i < 32 then (x AND z) OR (y AND NOT z)
      else if i < 48 then x XOR y XOR z
      else y XOR (x OR NOT z))"

definition rfc_md5_index :: "nat \<Rightarrow> nat" where
  "rfc_md5_index i =
     (if i < 16 then i mod 16 else if i < 32 then (5 * i + 1) mod 16 else if i < 48 then (3 * i + 5) mod 16 else 7 * i mod 16)"

definition rfc_md5_shift :: "nat \<Rightarrow> nat" where
  "rfc_md5_shift i =
     (if i < 16 then [7, 12, 17, 22] else if i < 32 then [5, 9, 14, 20] else if i < 48 then [4, 11, 16, 23] else [6, 10, 15, 21]) ! (i mod 4)"

definition rfc_md5_T :: "nat \<Rightarrow> u32" where
  "rfc_md5_T i =
    [0xd76aa478, 0xe8c7b756, 0x242070db, 0xc1bdceee, 0xf57c0faf, 0x4787c62a, 0xa8304613, 0xfd469501,
     0x698098d8, 0x8b44f7af, 0xffff5bb1, 0x895cd7be, 0x6b901122, 0xfd987193, 0xa679438e, 0x49b40821,
     0xf61e2562, 0xc040b340, 0x265e5a51, 0xe9b6c7aa, 0xd62f105d, 0x02441453, 0xd8a1e681, 0xe7d3fbc8,
     0x21e1cde6, 0xc33707d6, 0xf4d50d87, 0x455a14ed, 0xa9e3e905, 0xfcefa3f8, 0x676f02d9, 0x8d2a4c8a,
     0xfffa3942, 0x8771f681, 0x6d9d6122, 0xfde5380c, 0xa4beea44, 0x4bdecfa9, 0xf6bb4b60, 0xbebfbc70,
     0x289b7ec6, 0xeaa127fa, 0xd4ef3085, 0x04881d05, 0xd9d4d039, 0xe6db99e5, 0x1fa27cf8, 0xc4ac5665,
     0xf4292244, 0x432aff97, 0xab9423a7, 0xfc93a039, 0x655b59c3, 0x8f0ccc92, 0xffeff47d, 0x85845dd1,
     0x6fa87e4f, 0xfe2ce6e0, 0xa3014314, 0x4e0811a1, 0xf7537e82, 0xbd3af235, 0x2ad7d2bb, 0xeb86d391] ! i"

definition md5_step :: "bytes \<Rightarrow> nat \<Rightarrow> u32 list \<Rightarrow> u32 list" where
  "md5_step B i v =
     (case v of [a, b, c, d] \<Rightarrow>
        [d, b + word_rotl (rfc_md5_shift i) (a + rfc_md5_f i b c d + message_word_le B (rfc_md5_index i) + rfc_md5_T i), b, c])"

definition rfc_md5_compress :: "u32 list \<Rightarrow> bytes \<Rightarrow> u32 list" where
  "rfc_md5_compress h B = map2 (+) h (foldl (\<lambda>v i. md5_step B i v) h [0..<64])"

definition rfc_md5 :: "u32 list \<Rightarrow> bytes \<Rightarrow> bytes" where
  "rfc_md5 iv msg = concat (map (\<lambda>w. le_bytes 4 (unat w)) (digest_spec False rfc_md5_compress iv msg))"

section \<open>The lines are the steps\<close>

lemma md5_functions:
  "0 \<le> i \<Longrightarrow> i < 16 \<Longrightarrow> md5_F b c d = rfc_md5_f i b c d"
  "16 \<le> i \<Longrightarrow> i < 32 \<Longrightarrow> md5_G b c d = rfc_md5_f i b c d"
  "32 \<le> i \<Longrightarrow> i < 48 \<Longrightarrow> md5_H b c d = rfc_md5_f i b c d"
  "48 \<le> i \<Longrightarrow> i < 64 \<Longrightarrow> md5_I b c d = rfc_md5_f i b c d"
  by (rule bit_word_eqI; auto simp: rfc_md5_f_def md5_F_def md5_G_def md5_H_def md5_I_def bit_simps)+

lemma md5_table: "map (\<lambda>i. (rfc_md5_index i, rfc_md5_shift i, rfc_md5_T i)) [0..<64] = md5_lines"
  by (simp add: upt_rec md5_lines_def rfc_md5_index_def rfc_md5_shift_def rfc_md5_T_def)

lemma md5_line_nth: "i < 64 \<Longrightarrow> md5_lines ! i = (rfc_md5_index i, rfc_md5_shift i, rfc_md5_T i)"
  by (simp add: md5_table [symmetric])

lemma md5_bounds: "rfc_md5_index i < 16" "0 < rfc_md5_shift i" "rfc_md5_shift i < 32"
proof -
  have m: "i mod 4 < 4" "i div 4 mod 4 < 4" for i :: nat by simp_all
  consider "i mod 4 = 0" | "i mod 4 = 1" | "i mod 4 = 2" | "i mod 4 = 3" using m(1) [of i] by linarith
  then show "0 < rfc_md5_shift i" "rfc_md5_shift i < 32" by (cases; simp add: rfc_md5_shift_def)+
  show "rfc_md5_index i < 16" by (simp add: rfc_md5_index_def)
qed

lemma md5_line_view:
  assumes "length regs = 4" "i < 64" "64 \<le> length data" "X = map (\<lambda>i. HOST_c2l_le (drop (4 * i) data)) [0..<16]"
  shows "length (md5_line X i regs) = 4 \<and> view 4 (Suc i) (md5_line X i regs) = md5_step (take 64 data) i (view 4 i regs)"
proof -
  let ?r = "\<lambda>j. regs ! role 4 i j"
  have v: "view 4 i regs = [?r 0, ?r 1, ?r 2, ?r 3]" by (simp add: view_def upt_rec numeral_eq_Suc)
  have X: "X ! rfc_md5_index i = message_word_le (take 64 data) (rfc_md5_index i)"
    using md5_bounds(1) by (simp add: assms(4) c2l_le_message_word [OF assms(3)])
  have f: "(if i < 16 then md5_F else if i < 32 then md5_G else if i < 48 then md5_H else md5_I) = rfc_md5_f i"
    using assms(2) by (simp add: fun_eq_iff md5_functions [of i, symmetric])
  show ?thesis
    using assms(1) unfolding md5_line_def md5_line_nth [OF assms(2)] prod.case f X
    by (simp add: md5_R_def Let_def view_write_first [OF assms(1) v] md5_step_def v ROTATE_rotl md5_bounds ac_simps)
qed

lemma md5_compress_rfc:
  assumes "length state = 4" "64 \<le> length data"
  shows "md5_compress state data = rfc_md5_compress state (take 64 data)"
  unfolding md5_compress_def rfc_md5_compress_def Let_def
  by (subst foldl_view [where k = 4 and g = "md5_step (take 64 data)"]) (use assms md5_line_view in simp_all)

lemma rfc_md5_length: "length h = 4 \<Longrightarrow> length (rfc_md5_compress h B) = 4"
proof -
  have "length (md5_step B i v) = 4" if "length v = 4" for i v
    using that by (auto simp: md5_step_def numeral_eq_Suc length_Suc_conv)
  then have "length (foldl (\<lambda>v i. md5_step B i v) h [0..<n]) = 4" if "length h = 4" for n
    using that by (induction n) simp_all
  then show "length h = 4 \<Longrightarrow> length (rfc_md5_compress h B) = 4" by (simp add: rfc_md5_compress_def)
qed

interpretation md5_blocks: block_function md5_block_data_order rfc_md5_compress "\<lambda>h. length h = 4"
  by unfold_locales
    (simp_all add: md5_block_data_order_def data_order_absorbs [where compress' = rfc_md5_compress and k = 4] md5_compress_rfc rfc_md5_length)

section \<open>Digests\<close>

text \<open>
  MD5 is computed as RFC 1321 defines it, in whatever pieces the message is given, with little-endian words
  and bit count: the lines of the block function, on registers that rotate, are the steps of the document.
\<close>

lemma md5_digest:
  assumes "list_all (\<lambda>d. length d < 2 ^ 64) pieces"
  shows "fst (MD5_Final (foldl MD5_Update MD5_Init pieces)) = Some (rfc_md5 (hash_h MD5_Init) (concat pieces))"
proof -
  have h: "length (hash_h MD5_Init) = 4" by (simp add: MD5_Init_def zero_ctx_def)
  have "md5_blocks.fresh_ctx MD5_Init"
    unfolding MD5_Init_def by (rule md5_blocks.fresh_zero_ctx) simp
  note d = md5_blocks.digest_of_pieces [OF this assms refl, of False md5_make_string]
  have "length (digest_spec False rfc_md5_compress (hash_h MD5_Init) (concat pieces)) = 4"
    using md5_blocks.absorb_ok [OF h] by (simp add: digest_spec_def)
  note words = concat_four_words [OF this, of HOST_l2c_le]
  then show ?thesis
    using d by (simp add: MD5_Final_def MD5_Update_def md5_make_string_def rfc_md5_def words_le [symmetric])
qed

end
