(* ===== verification/Md4.thy ===== *)
theory Md4
  imports Rounds
begin

text \<open>
  MD4 (\<^verbatim>\<open>fipsmodule/md4/md4.c\<close>): 48 steps on four registers whose names rotate, and that they are the steps of
  RFC 1320.
\<close>

section \<open>The block function\<close>

definition md4_F :: "u32 \<Rightarrow> u32 \<Rightarrow> u32 \<Rightarrow> u32" where
  "md4_F b c d = ((c XOR d) AND b) XOR d"

definition md4_G :: "u32 \<Rightarrow> u32 \<Rightarrow> u32 \<Rightarrow> u32" where
  "md4_G b c d = (b AND c) OR (b AND d) OR (c AND d)"

definition md4_H :: "u32 \<Rightarrow> u32 \<Rightarrow> u32 \<Rightarrow> u32" where
  "md4_H b c d = b XOR c XOR d"

text \<open>
  \<^verbatim>\<open>R0\<close> to \<^verbatim>\<open>R2\<close>, which differ in the function that they apply, and the arguments \<open>k\<close> (as an index of \<open>X\<close>), \<open>s\<close>, \<open>t\<close> of
  the 48 lines of the block function.
\<close>

definition md4_R :: "(u32 \<Rightarrow> u32 \<Rightarrow> u32 \<Rightarrow> u32) \<Rightarrow> nat \<Rightarrow> u32 \<Rightarrow> nat \<Rightarrow> u32 \<Rightarrow> u32 list \<Rightarrow> u32 list" where
  "md4_R F i k s t regs =
     (let a = regs ! role 4 i 0; b = regs ! role 4 i 1; c = regs ! role 4 i 2; d = regs ! role 4 i 3;
          a = a + (k + t + F b c d);
          a = ROTATE a s
      in regs[role 4 i 0 := a])"

definition md4_lines :: "(nat \<times> nat \<times> u32) list" where
  "md4_lines =
    [
     (0, 3, 0), (1, 7, 0), (2, 11, 0), (3, 19, 0),
     (4, 3, 0), (5, 7, 0), (6, 11, 0), (7, 19, 0),
     (8, 3, 0), (9, 7, 0), (10, 11, 0), (11, 19, 0),
     (12, 3, 0), (13, 7, 0), (14, 11, 0), (15, 19, 0),
     (0, 3, 0x5a827999), (4, 5, 0x5a827999), (8, 9, 0x5a827999), (12, 13, 0x5a827999),
     (1, 3, 0x5a827999), (5, 5, 0x5a827999), (9, 9, 0x5a827999), (13, 13, 0x5a827999),
     (2, 3, 0x5a827999), (6, 5, 0x5a827999), (10, 9, 0x5a827999), (14, 13, 0x5a827999),
     (3, 3, 0x5a827999), (7, 5, 0x5a827999), (11, 9, 0x5a827999), (15, 13, 0x5a827999),
     (0, 3, 0x6ed9eba1), (8, 9, 0x6ed9eba1), (4, 11, 0x6ed9eba1), (12, 15, 0x6ed9eba1),
     (2, 3, 0x6ed9eba1), (10, 9, 0x6ed9eba1), (6, 11, 0x6ed9eba1), (14, 15, 0x6ed9eba1),
     (1, 3, 0x6ed9eba1), (9, 9, 0x6ed9eba1), (5, 11, 0x6ed9eba1), (13, 15, 0x6ed9eba1),
     (3, 3, 0x6ed9eba1), (11, 9, 0x6ed9eba1), (7, 11, 0x6ed9eba1), (15, 15, 0x6ed9eba1)]"

definition md4_line :: "u32 list \<Rightarrow> nat \<Rightarrow> u32 list \<Rightarrow> u32 list" where
  "md4_line X i regs =
     (case md4_lines ! i of (k, s, t) \<Rightarrow>
        md4_R (if i < 16 then md4_F else if i < 32 then md4_G else md4_H) i (X ! k) s t regs)"

text \<open>The code reads the words between the first lines, each before the line that uses it; here they are read first.\<close>

definition md4_compress :: "u32 list \<Rightarrow> bytes \<Rightarrow> u32 list" where
  "md4_compress state data =
     (let X = map (\<lambda>i. HOST_c2l_le (drop (4 * i) data)) [0..<16]
      in map2 (+) state (foldl (\<lambda>regs i. md4_line X i regs) state [0..<48]))"

definition md4_block_data_order :: block_data_order where
  "md4_block_data_order state data num = data_order_loop md4_compress num state data"

section \<open>The interface\<close>

definition MD4_Init :: hash_ctx where
  "MD4_Init = zero_ctx [0x67452301, 0xefcdab89, 0x98badcfe, 0x10325476] 0"

definition MD4_Update :: "hash_ctx \<Rightarrow> bytes \<Rightarrow> hash_ctx" where
  "MD4_Update = HASH_UPDATE md4_block_data_order"

definition md4_make_string :: "hash_ctx \<Rightarrow> bytes option" where
  "md4_make_string c =
     Some (HOST_l2c_le (hash_h c ! 0) @ HOST_l2c_le (hash_h c ! 1) @ HOST_l2c_le (hash_h c ! 2) @ HOST_l2c_le (hash_h c ! 3))"

definition MD4_Final :: "hash_ctx \<Rightarrow> bytes option \<times> hash_ctx" where
  "MD4_Final = HASH_FINAL False md4_block_data_order md4_make_string"

definition MD4_Transform :: "hash_ctx \<Rightarrow> bytes \<Rightarrow> hash_ctx" where
  "MD4_Transform = HASH_TRANSFORM md4_block_data_order"

definition MD4 :: "bytes \<Rightarrow> bytes option" where
  "MD4 data = fst (MD4_Final (MD4_Update MD4_Init data))"

section \<open>RFC 1320\<close>

text \<open>The auxiliary functions, the order of the words, the shifts and the constants of section 3.4.\<close>

definition rfc_md4_f :: "nat \<Rightarrow> u32 \<Rightarrow> u32 \<Rightarrow> u32 \<Rightarrow> u32" where
  "rfc_md4_f i x y z =
     (if i < 16 then (x AND y) OR (NOT x AND z)
      else if i < 32 then (x AND y) OR (x AND z) OR (y AND z)
      else x XOR y XOR z)"

definition rfc_md4_index :: "nat \<Rightarrow> nat" where
  "rfc_md4_index i =
     (if i < 16 then i mod 16 else if i < 32 then 4 * (i mod 4) + i div 4 mod 4
      else [0, 8, 4, 12] ! (i mod 4) + [0, 2, 1, 3] ! (i div 4 mod 4))"

definition rfc_md4_shift :: "nat \<Rightarrow> nat" where
  "rfc_md4_shift i =
     (if i < 16 then [3, 7, 11, 19] else if i < 32 then [3, 5, 9, 13] else [3, 9, 11, 15]) ! (i mod 4)"

definition rfc_md4_T :: "nat \<Rightarrow> u32" where
  "rfc_md4_T i = (if i < 16 then 0 else if i < 32 then 0x5a827999 else 0x6ed9eba1)"

definition md4_step :: "bytes \<Rightarrow> nat \<Rightarrow> u32 list \<Rightarrow> u32 list" where
  "md4_step B i v =
     (case v of [a, b, c, d] \<Rightarrow>
        [d, word_rotl (rfc_md4_shift i) (a + rfc_md4_f i b c d + message_word_le B (rfc_md4_index i) + rfc_md4_T i), b, c])"

definition rfc_md4_compress :: "u32 list \<Rightarrow> bytes \<Rightarrow> u32 list" where
  "rfc_md4_compress h B = map2 (+) h (foldl (\<lambda>v i. md4_step B i v) h [0..<48])"

definition rfc_md4 :: "u32 list \<Rightarrow> bytes \<Rightarrow> bytes" where
  "rfc_md4 iv msg = concat (map (\<lambda>w. le_bytes 4 (unat w)) (digest_spec False rfc_md4_compress iv msg))"

section \<open>The lines are the steps\<close>

lemma md4_functions:
  "0 \<le> i \<Longrightarrow> i < 16 \<Longrightarrow> md4_F b c d = rfc_md4_f i b c d"
  "16 \<le> i \<Longrightarrow> i < 32 \<Longrightarrow> md4_G b c d = rfc_md4_f i b c d"
  "32 \<le> i \<Longrightarrow> i < 48 \<Longrightarrow> md4_H b c d = rfc_md4_f i b c d"
  by (rule bit_word_eqI; auto simp: rfc_md4_f_def md4_F_def md4_G_def md4_H_def bit_simps)+

lemma md4_table: "map (\<lambda>i. (rfc_md4_index i, rfc_md4_shift i, rfc_md4_T i)) [0..<48] = md4_lines"
  by (simp add: upt_rec md4_lines_def rfc_md4_index_def rfc_md4_shift_def rfc_md4_T_def)

lemma md4_line_nth: "i < 48 \<Longrightarrow> md4_lines ! i = (rfc_md4_index i, rfc_md4_shift i, rfc_md4_T i)"
  by (simp add: md4_table [symmetric])

lemma md4_bounds: "rfc_md4_index i < 16" "0 < rfc_md4_shift i" "rfc_md4_shift i < 32"
proof -
  have m: "i mod 4 < 4" "i div 4 mod 4 < 4" for i :: nat by simp_all
  have four_cases: "(j = 0 \<Longrightarrow> P) \<Longrightarrow> (j = 1 \<Longrightarrow> P) \<Longrightarrow> (j = 2 \<Longrightarrow> P) \<Longrightarrow> (j = 3 \<Longrightarrow> P) \<Longrightarrow> P" if "j < 4" for j :: nat and P
    using that by linarith
  consider "i mod 4 = 0" | "i mod 4 = 1" | "i mod 4 = 2" | "i mod 4 = 3" using m(1) [of i] by linarith
  then show "0 < rfc_md4_shift i" "rfc_md4_shift i < 32" by (cases; simp add: rfc_md4_shift_def)+
  have "[0, 8, 4, 12] ! j \<le> (12 :: nat)" "[0, 2, 1, 3] ! j \<le> (3 :: nat)" if "j < 4" for j
    by (rule four_cases [OF that]; simp)+
  note l = this(1) [OF m(1), of i] this(2) [OF m(2), of i]
  have "4 * (i mod 4) + i div 4 mod 4 < 16" using m(1) [of i] m(2) [of i] by linarith
  then show "rfc_md4_index i < 16" using l by (simp add: rfc_md4_index_def)
qed

lemma md4_line_view:
  assumes "length regs = 4" "i < 48" "64 \<le> length data" "X = map (\<lambda>i. HOST_c2l_le (drop (4 * i) data)) [0..<16]"
  shows "length (md4_line X i regs) = 4 \<and> view 4 (Suc i) (md4_line X i regs) = md4_step (take 64 data) i (view 4 i regs)"
proof -
  let ?r = "\<lambda>j. regs ! role 4 i j"
  have v: "view 4 i regs = [?r 0, ?r 1, ?r 2, ?r 3]" by (simp add: view_def upt_rec numeral_eq_Suc)
  have X: "X ! rfc_md4_index i = message_word_le (take 64 data) (rfc_md4_index i)"
    using md4_bounds(1) by (simp add: assms(4) c2l_le_message_word [OF assms(3)])
  have f: "(if i < 16 then md4_F else if i < 32 then md4_G else md4_H) = rfc_md4_f i"
    using assms(2) by (simp add: fun_eq_iff md4_functions [of i, symmetric])
  show ?thesis
    using assms(1) unfolding md4_line_def md4_line_nth [OF assms(2)] prod.case f X
    by (simp add: md4_R_def Let_def view_write_first [OF assms(1) v] md4_step_def v ROTATE_rotl md4_bounds ac_simps)
qed

lemma md4_compress_rfc:
  assumes "length state = 4" "64 \<le> length data"
  shows "md4_compress state data = rfc_md4_compress state (take 64 data)"
  unfolding md4_compress_def rfc_md4_compress_def Let_def
  by (subst foldl_view [where k = 4 and g = "md4_step (take 64 data)"]) (use assms md4_line_view in simp_all)

lemma rfc_md4_length: "length h = 4 \<Longrightarrow> length (rfc_md4_compress h B) = 4"
proof -
  have "length (md4_step B i v) = 4" if "length v = 4" for i v
    using that by (auto simp: md4_step_def numeral_eq_Suc length_Suc_conv)
  then have "length (foldl (\<lambda>v i. md4_step B i v) h [0..<n]) = 4" if "length h = 4" for n
    using that by (induction n) simp_all
  then show "length h = 4 \<Longrightarrow> length (rfc_md4_compress h B) = 4" by (simp add: rfc_md4_compress_def)
qed

interpretation md4_blocks: block_function md4_block_data_order rfc_md4_compress "\<lambda>h. length h = 4"
  by unfold_locales
    (simp_all add: md4_block_data_order_def data_order_absorbs [where compress' = rfc_md4_compress and k = 4] md4_compress_rfc rfc_md4_length)

section \<open>Digests\<close>

text \<open>
  MD4 is computed as RFC 1320 defines it, in whatever pieces the message is given, with little-endian words
  and bit count: the lines of the block function, on registers that rotate, are the steps of the document.
\<close>

lemma md4_digest:
  assumes "list_all (\<lambda>d. length d < 2 ^ 64) pieces"
  shows "fst (MD4_Final (foldl MD4_Update MD4_Init pieces)) = Some (rfc_md4 (hash_h MD4_Init) (concat pieces))"
proof -
  have h: "length (hash_h MD4_Init) = 4" by (simp add: MD4_Init_def zero_ctx_def)
  have "md4_blocks.fresh_ctx MD4_Init"
    unfolding MD4_Init_def by (rule md4_blocks.fresh_zero_ctx) simp
  note d = md4_blocks.digest_of_pieces [OF this assms refl, of False md4_make_string]
  have "length (digest_spec False rfc_md4_compress (hash_h MD4_Init) (concat pieces)) = 4"
    using md4_blocks.absorb_ok [OF h] by (simp add: digest_spec_def)
  note words = concat_four_words [OF this, of HOST_l2c_le]
  then show ?thesis
    using d by (simp add: MD4_Final_def MD4_Update_def md4_make_string_def rfc_md4_def words_le [symmetric])
qed

end
