(* ===== verification/Pb_Common.thy ===== *)
theory Pb_Common
  imports Prelude
begin

text \<open>
  nanopb's \<^verbatim>\<open>pb.h\<close> and \<^verbatim>\<open>pb_common.c\<close>: field descriptors, and the iterator that walks the
  descriptors of a message together with the addresses of the fields in its C structure. The pods
  are built with \<open>PB_FIELD_32BIT\<close>, so that \<open>pb_size_t\<close> is \<open>uint32_t\<close>.
\<close>

section \<open>Memory\<close>

text \<open>
  The memory of the program is a function from addresses to bytes. Pointers take eight bytes, and
  \<open>pb_size_t\<close> four.
\<close>

definition load :: "(int \<Rightarrow> u8) \<Rightarrow> int \<Rightarrow> nat \<Rightarrow> bytes" where
  "load m a n = map (\<lambda>i. m (a + int i)) [0..<n]"

definition load_size :: "(int \<Rightarrow> u8) \<Rightarrow> int \<Rightarrow> nat" where
  "load_size m a = le_val (load m a 4)"

definition load_ptr :: "(int \<Rightarrow> u8) \<Rightarrow> int \<Rightarrow> int" where
  "load_ptr m a = int (le_val (load m a 8))"

definition mem_store :: "(int \<Rightarrow> u8) \<Rightarrow> int \<Rightarrow> bytes \<Rightarrow> int \<Rightarrow> u8" where
  "mem_store m a bs = (\<lambda>x. if a \<le> x \<and> x < a + int (length bs) then bs ! nat (x - a) else m x)"

lemma length_load [simp]: "length (load m a n) = n"
  by (simp add: load_def)

lemma load_take_drop: "take k (load m a (k + n)) = load m a k" "drop k (load m a (k + n)) = load m (a + int k) n"
  by (simp_all add: load_def take_map drop_map list_eq_iff_nth_eq add.assoc)

lemma load_size_less: "load_size m a < 2 ^ 32"
  using le_val_less [of "load m a 4"] by (simp add: load_size_def)

text \<open>\<open>same_outside A m m'\<close>: the two memories differ at most at the addresses \<open>A\<close>.\<close>

definition same_outside :: "int set \<Rightarrow> (int \<Rightarrow> u8) \<Rightarrow> (int \<Rightarrow> u8) \<Rightarrow> bool" where
  "same_outside A m m' \<longleftrightarrow> (\<forall>x. x \<notin> A \<longrightarrow> m' x = m x)"

lemma same_outside_refl [simp, intro]: "same_outside A m m"
  by (simp add: same_outside_def)

lemma same_outside_trans [trans]: "same_outside A m m' \<Longrightarrow> same_outside A m' m'' \<Longrightarrow> same_outside A m m''"
  by (simp add: same_outside_def)

lemma same_outside_store: "{a..<a + int (length bs)} \<subseteq> A \<Longrightarrow> same_outside A m (mem_store m a bs)"
  by (auto simp: same_outside_def mem_store_def)

section \<open>Field descriptors\<close>

definition PB_LTYPE_BOOL :: u8 where "PB_LTYPE_BOOL = 0x00"
definition PB_LTYPE_VARINT :: u8 where "PB_LTYPE_VARINT = 0x01"
definition PB_LTYPE_UVARINT :: u8 where "PB_LTYPE_UVARINT = 0x02"
definition PB_LTYPE_SVARINT :: u8 where "PB_LTYPE_SVARINT = 0x03"
definition PB_LTYPE_FIXED32 :: u8 where "PB_LTYPE_FIXED32 = 0x04"
definition PB_LTYPE_FIXED64 :: u8 where "PB_LTYPE_FIXED64 = 0x05"
definition PB_LTYPE_BYTES :: u8 where "PB_LTYPE_BYTES = 0x06"
definition PB_LTYPE_STRING :: u8 where "PB_LTYPE_STRING = 0x07"
definition PB_LTYPE_SUBMESSAGE :: u8 where "PB_LTYPE_SUBMESSAGE = 0x08"
definition PB_LTYPE_EXTENSION :: u8 where "PB_LTYPE_EXTENSION = 0x09"
definition PB_LTYPE_FIXED_LENGTH_BYTES :: u8 where "PB_LTYPE_FIXED_LENGTH_BYTES = 0x0A"
definition PB_LTYPE_LAST_PACKABLE :: u8 where "PB_LTYPE_LAST_PACKABLE = 0x05"
definition PB_HTYPE_REQUIRED :: u8 where "PB_HTYPE_REQUIRED = 0x00"
definition PB_HTYPE_OPTIONAL :: u8 where "PB_HTYPE_OPTIONAL = 0x10"
definition PB_HTYPE_REPEATED :: u8 where "PB_HTYPE_REPEATED = 0x20"
definition PB_HTYPE_ONEOF :: u8 where "PB_HTYPE_ONEOF = 0x30"
definition PB_ATYPE_STATIC :: u8 where "PB_ATYPE_STATIC = 0x00"
definition PB_ATYPE_POINTER :: u8 where "PB_ATYPE_POINTER = 0x80"
definition PB_ATYPE_CALLBACK :: u8 where "PB_ATYPE_CALLBACK = 0x40"

definition PB_ATYPE :: "u8 \<Rightarrow> u8" where "PB_ATYPE x = x AND 0xC0"
definition PB_HTYPE :: "u8 \<Rightarrow> u8" where "PB_HTYPE x = x AND 0x30"
definition PB_LTYPE :: "u8 \<Rightarrow> u8" where "PB_LTYPE x = x AND 0x0F"

definition PB_SIZE_MAX :: nat where "PB_SIZE_MAX = 2 ^ 32 - 1"

text \<open>\<open>pb_field_t\<close>: \<open>ptr\<close> is the address of the descriptors of a submessage or of a default value, or null.\<close>

datatype pb_field =
  Pb_Field (tag: u32) (type: u8) (data_offset: nat) (size_offset: int) (data_size: nat) (array_size: nat) (ptr: int)

definition Null :: int where
  "Null = 0"

definition PB_LAST_FIELD :: pb_field where
  "PB_LAST_FIELD = Pb_Field 0 0 0 0 0 0 Null"

section \<open>The field iterator\<close>

text \<open>\<open>pos\<close> is the index of the descriptor in the array \<open>start\<close>; addresses are integers.\<close>

record pb_field_iter =
  start :: "pb_field list"
  pos :: nat
  required_field_index :: nat
  dest_struct :: int
  pData :: int
  pSize :: int

definition cur_field :: "pb_field_iter \<Rightarrow> pb_field" where
  "cur_field iter = start iter ! pos iter"

definition pb_field_iter_begin :: "pb_field list \<Rightarrow> int \<Rightarrow> bool \<times> pb_field_iter" where
  "pb_field_iter_begin fs dest =
     (let f = fs ! 0; d = dest + int (data_offset f)
      in (tag f \<noteq> 0,
          \<lparr>start = fs, pos = 0, required_field_index = 0, dest_struct = dest, pData = d, pSize = d + size_offset f\<rparr>))"

definition pb_field_iter_next :: "pb_field_iter \<Rightarrow> bool \<times> pb_field_iter" where
  "pb_field_iter_next iter =
     (let prev_field = cur_field iter in
      if tag prev_field = 0 then (False, iter)
      else let iter = iter\<lparr>pos := pos iter + 1\<rparr>; f = cur_field iter in
        if tag f = 0 then (False, snd (pb_field_iter_begin (start iter) (dest_struct iter)))
        else if PB_HTYPE (type prev_field) = PB_HTYPE_ONEOF \<and> PB_HTYPE (type f) = PB_HTYPE_ONEOF \<and>
             data_offset f = PB_SIZE_MAX
        then (True, iter)
        else let prev_size =
               (if PB_ATYPE (type prev_field) = PB_ATYPE_STATIC \<and> PB_HTYPE (type prev_field) = PB_HTYPE_REPEATED
                then size_wrap (data_size prev_field * array_size prev_field)
                else if PB_ATYPE (type prev_field) = PB_ATYPE_POINTER then 8
                else data_size prev_field);
               index = (if PB_HTYPE (type prev_field) = PB_HTYPE_REQUIRED then required_field_index iter + 1
                        else required_field_index iter);
               d = pData iter + int prev_size + int (data_offset f)
             in (True, iter\<lparr>required_field_index := index, pData := d, pSize := d + size_offset f\<rparr>))"

text \<open>The loop of the search, with a bound on its iterations; \<open>None\<close> means that the bound was reached.\<close>

fun iter_find_loop :: "nat \<Rightarrow> nat \<Rightarrow> pb_field_iter \<Rightarrow> u32 \<Rightarrow> (bool \<times> pb_field_iter) option" where
  "iter_find_loop 0 first iter t = None"
| "iter_find_loop (Suc fuel) first iter t =
     (if tag (cur_field iter) = t \<and> PB_LTYPE (type (cur_field iter)) \<noteq> PB_LTYPE_EXTENSION then Some (True, iter)
      else let iter = snd (pb_field_iter_next iter) in
        if pos iter \<noteq> first then iter_find_loop fuel first iter t else Some (False, iter))"

definition pb_field_iter_find :: "pb_field_iter \<Rightarrow> u32 \<Rightarrow> (bool \<times> pb_field_iter) option" where
  "pb_field_iter_find iter t = iter_find_loop (length (start iter)) (pos iter) iter t"

text \<open>
  \<open>if (!e1) return false; return e2;\<close> for steps that change a state. \<open>None\<close> stands for no result: the
  computation does not end within its bound, or calls a null pointer.
\<close>

definition then_enc ::
    "('a \<Rightarrow> (bool \<times> 'a) option) \<Rightarrow> ('a \<Rightarrow> (bool \<times> 'a) option) \<Rightarrow> 'a \<Rightarrow> (bool \<times> 'a) option" where
  "then_enc e1 e2 a =
     (case e1 a of
        None \<Rightarrow> None
      | Some (False, a) \<Rightarrow> Some (False, a)
      | Some (True, a) \<Rightarrow> e2 a)"

text \<open>\<open>do { if (!body(iter)) return false; } while (pb_field_iter_next(&iter)); return true;\<close>\<close>

primrec iter_loop :: "nat \<Rightarrow> (pb_field_iter \<Rightarrow> 'a \<Rightarrow> (bool \<times> 'a) option) \<Rightarrow> pb_field_iter \<Rightarrow> 'a \<Rightarrow> (bool \<times> 'a) option" where
  "iter_loop 0 body iter a = None"
| "iter_loop (Suc fuel) body iter a =
     then_enc (body iter)
       (\<lambda>a. case pb_field_iter_next iter of
              (False, _) \<Rightarrow> Some (True, a)
            | (True, iter) \<Rightarrow> iter_loop fuel body iter a) a"

section \<open>Positions of an iterator\<close>

text \<open>A descriptor array: fields with a nonzero tag, and the terminator.\<close>

definition fields_wf :: "pb_field list \<Rightarrow> bool" where
  "fields_wf fs \<longleftrightarrow> 2 \<le> length fs \<and> tag (last fs) = 0 \<and> (\<forall>f \<in> set (butlast fs). tag f \<noteq> 0)"

definition num_fields :: "pb_field list \<Rightarrow> nat" where
  "num_fields fs = length fs - 1"

lemma fields_wf_tag:
  assumes "fields_wf fs" "k \<le> num_fields fs"
  shows "tag (fs ! k) = 0 \<longleftrightarrow> k = num_fields fs"
proof -
  have ne: "fs \<noteq> []" using assms(1) by (auto simp: fields_wf_def)
  show ?thesis
  proof (cases "k = num_fields fs")
    case True
    then show ?thesis using assms(1) ne by (simp add: fields_wf_def num_fields_def last_conv_nth)
  next
    case False
    then have "fs ! k \<in> set (butlast fs)"
      using assms(2) by (auto simp: in_set_conv_nth num_fields_def nth_butlast intro!: exI [of _ k])
    then show ?thesis using assms(1) False by (simp add: fields_wf_def)
  qed
qed

text \<open>The iterator on the \<open>k\<close>-th field, as a walk from the beginning computes it.\<close>

primrec iter_at :: "pb_field list \<Rightarrow> int \<Rightarrow> nat \<Rightarrow> pb_field_iter" where
  "iter_at fs dest 0 = snd (pb_field_iter_begin fs dest)"
| "iter_at fs dest (Suc k) = snd (pb_field_iter_next (iter_at fs dest k))"

lemma iter_at_static:
  "fields_wf fs \<Longrightarrow> k < num_fields fs \<Longrightarrow>
   start (iter_at fs dest k) = fs \<and> dest_struct (iter_at fs dest k) = dest \<and> pos (iter_at fs dest k) = k"
proof (induction k)
  case (Suc k)
  then show ?case
    using fields_wf_tag [of fs k] fields_wf_tag [of fs "Suc k"]
    by (simp add: pb_field_iter_next_def cur_field_def Let_def)
qed (simp add: pb_field_iter_begin_def Let_def)

lemma iter_next_at:
  assumes "fields_wf fs" "k < num_fields fs"
  shows "pb_field_iter_next (iter_at fs dest k) =
     (k + 1 < num_fields fs, iter_at fs dest ((k + 1) mod num_fields fs))"
proof -
  note st = iter_at_static [OF assms, of dest]
  have t: "tag (fs ! k) \<noteq> 0" "tag (fs ! Suc k) = 0 \<longleftrightarrow> Suc k = num_fields fs"
    using fields_wf_tag [OF assms(1), of k] fields_wf_tag [OF assms(1), of "Suc k"] assms(2) by simp_all
  show ?thesis
  proof (cases "Suc k = num_fields fs")
    case True
    then show ?thesis using t st by (simp add: pb_field_iter_next_def cur_field_def Let_def)
  next
    case False
    then have "fst (pb_field_iter_next (iter_at fs dest k))"
      using t st by (simp add: pb_field_iter_next_def cur_field_def Let_def)
    then show ?thesis using False assms(2) by (simp add: prod_eq_iff)
  qed
qed

text \<open>The fields in the order in which a search that starts at \<open>s\<close> visits them.\<close>

definition visit_order :: "nat \<Rightarrow> nat \<Rightarrow> nat \<Rightarrow> nat list" where
  "visit_order n s j = map (\<lambda>j. (s + j) mod n) [j..<n]"

definition wanted :: "pb_field list \<Rightarrow> u32 \<Rightarrow> nat \<Rightarrow> bool" where
  "wanted fs t i \<longleftrightarrow> tag (fs ! i) = t \<and> PB_LTYPE (type (fs ! i)) \<noteq> PB_LTYPE_EXTENSION"

lemma visit_order_rec: "j < n \<Longrightarrow> visit_order n s j = (s + j) mod n # visit_order n s (j + 1)"
  by (simp add: visit_order_def upt_conv_Cons)

lemma iter_find_loop_law:
  assumes "fields_wf fs" "s < num_fields fs" "j < num_fields fs" "num_fields fs \<le> fuel + j"
  shows "iter_find_loop fuel s (iter_at fs dest ((s + j) mod num_fields fs)) t =
     (case List.find (wanted fs t) (visit_order (num_fields fs) s j) of
        Some i \<Rightarrow> Some (True, iter_at fs dest i) | None \<Rightarrow> Some (False, iter_at fs dest s))"
  using assms(3,4)
proof (induction fuel arbitrary: j)
  case (Suc fuel)
  let ?n = "num_fields fs"
  let ?k = "(s + j) mod ?n"
  have k: "?k < ?n" using Suc.prems(1) by simp
  note st = iter_at_static [OF assms(1) k, of dest]
  note nx = iter_next_at [OF assms(1) k, of dest]
  have step: "(?k + 1) mod ?n = (s + (j + 1)) mod ?n" by (simp add: mod_Suc_eq)
  show ?case
  proof (cases "wanted fs t ?k")
    case True
    then show ?thesis using st Suc.prems(1) by (simp add: visit_order_rec wanted_def cur_field_def)
  next
    case False
    then have "iter_find_loop (Suc fuel) s (iter_at fs dest ?k) t =
        (let iter = iter_at fs dest ((s + (j + 1)) mod ?n) in
         if pos iter \<noteq> s then iter_find_loop fuel s iter t else Some (False, iter))"
      using st by (auto simp: nx wanted_def cur_field_def mod_Suc_eq)
    moreover have "pos (iter_at fs dest ((s + (j + 1)) mod ?n)) = (s + (j + 1)) mod ?n"
      using iter_at_static [OF assms(1), of "(s + (j + 1)) mod ?n" dest] k by simp
    moreover have "(s + (j + 1)) mod ?n = s \<longleftrightarrow> j + 1 = ?n"
    proof
      assume "(s + (j + 1)) mod ?n = s"
      then show "j + 1 = ?n"
        using assms(2) Suc.prems(1) by (cases "s + (j + 1) < ?n") (simp_all add: mod_if split: if_splits)
    qed (use assms(2) in simp)
    ultimately show ?thesis
      using Suc.IH [of "j + 1"] Suc.prems False assms(2) visit_order_rec [of j ?n s]
      by (cases "j + 1 = ?n") (auto simp: Let_def visit_order_def)
  qed
qed simp

lemma pb_field_iter_find_law:
  assumes "fields_wf fs" "s < num_fields fs"
  shows "pb_field_iter_find (iter_at fs dest s) t =
     (case List.find (wanted fs t) (visit_order (num_fields fs) s 0) of
        Some i \<Rightarrow> Some (True, iter_at fs dest i) | None \<Rightarrow> Some (False, iter_at fs dest s))"
proof -
  have "num_fields fs \<le> length fs" "0 < num_fields fs" using assms(2) by (simp_all add: num_fields_def)
  then show ?thesis
    using iter_find_loop_law [OF assms, of 0 "length fs"] iter_at_static [OF assms, of dest] assms(2)
    by (simp add: pb_field_iter_find_def)
qed

lemma set_visit_order: "s < n \<Longrightarrow> set (visit_order n s 0) = {0..<n}"
proof -
  assume s: "s < n"
  have "i \<in> (\<lambda>j. (s + j) mod n) ` {0..<n}" if "i < n" for i
  proof (cases "s \<le> i")
    case True
    then show ?thesis using that by (intro image_eqI [of _ _ "i - s"]) auto
  next
    case False
    then have "(s + (n + i - s)) mod n = i" using s that by simp
    moreover have "n + i - s < n" using False s by arith
    ultimately show ?thesis by (intro image_eqI [of _ _ "n + i - s"]) auto
  qed
  then show ?thesis using s by (auto simp: visit_order_def)
qed

text \<open>The loop over the fields of a message runs its body once for each of them, in their order.\<close>

definition all_enc :: "('a \<Rightarrow> (bool \<times> 'a) option) list \<Rightarrow> 'a \<Rightarrow> (bool \<times> 'a) option" where
  "all_enc es = foldr then_enc es (\<lambda>a. Some (True, a))"

lemma all_enc_simps [simp]: "all_enc [] = (\<lambda>a. Some (True, a))" "all_enc (e # es) = then_enc e (all_enc es)"
  by (simp_all add: all_enc_def)

lemma then_enc_True [simp]: "then_enc e (\<lambda>a. Some (True, a)) = e"
  by (rule ext) (simp add: then_enc_def split: option.split prod.split bool.split)

lemma iter_loop_law:
  assumes "fields_wf fs"
  shows "j < num_fields fs \<Longrightarrow> num_fields fs \<le> fuel + j \<Longrightarrow>
    iter_loop fuel body (iter_at fs dest j) = all_enc (map (\<lambda>k. body (iter_at fs dest k)) [j..<num_fields fs])"
proof (induction fuel arbitrary: j)
  case (Suc fuel)
  note nx = iter_next_at [OF assms Suc.prems(1), of dest]
  show ?case
  proof (cases "j + 1 < num_fields fs")
    case True
    then have "iter_loop fuel body (iter_at fs dest (Suc j)) = all_enc (map (\<lambda>k. body (iter_at fs dest k)) [Suc j..<num_fields fs])"
      using Suc.IH [of "Suc j"] Suc.prems by (simp del: iter_at.simps)
    moreover have "iter_loop (Suc fuel) body (iter_at fs dest j) = then_enc (body (iter_at fs dest j)) (iter_loop fuel body (iter_at fs dest (Suc j)))"
      by (rule ext) (use True in \<open>simp add: nx del: iter_at.simps\<close>)
    ultimately show ?thesis using upt_conv_Cons [OF Suc.prems(1)] by (simp del: iter_at.simps)
  next
    case False
    then have "[j..<num_fields fs] = [j]" using Suc.prems(1) by (simp add: upt_conv_Cons)
    moreover have "iter_loop (Suc fuel) body (iter_at fs dest j) = then_enc (body (iter_at fs dest j)) (\<lambda>a. Some (True, a))"
      by (rule ext) (use False in \<open>simp add: nx del: iter_at.simps\<close>)
    ultimately show ?thesis by (simp del: iter_at.simps)
  qed
qed simp

section \<open>Addresses\<close>

text \<open>
  The storage of a field in the C structure, and what the generator macros of \<^verbatim>\<open>pb.h\<close> put into
  \<open>data_offset\<close> (\<open>PB_DATAOFFSET_FIRST\<close>, \<open>_OTHER\<close>, \<open>_UNION\<close>) for members at the offsets \<open>off\<close>.
\<close>

definition stored_size :: "pb_field \<Rightarrow> nat" where
  "stored_size f =
     (if PB_ATYPE (type f) = PB_ATYPE_STATIC \<and> PB_HTYPE (type f) = PB_HTYPE_REPEATED then data_size f * array_size f
      else if PB_ATYPE (type f) = PB_ATYPE_POINTER then 8 else data_size f)"

definition same_union :: "pb_field \<Rightarrow> pb_field \<Rightarrow> bool" where
  "same_union f g \<longleftrightarrow>
     PB_HTYPE (type f) = PB_HTYPE_ONEOF \<and> PB_HTYPE (type g) = PB_HTYPE_ONEOF \<and> data_offset g = PB_SIZE_MAX"

definition next_offset :: "pb_field \<Rightarrow> pb_field \<Rightarrow> nat \<Rightarrow> nat \<Rightarrow> bool" where
  "next_offset f g o1 o2 \<longleftrightarrow> stored_size f < 2 ^ 64 \<and>
     (if same_union f g then o2 = o1 else o2 = o1 + stored_size f + data_offset g)"

definition laid_out :: "pb_field list \<Rightarrow> (nat \<Rightarrow> nat) \<Rightarrow> bool" where
  "laid_out fs off \<longleftrightarrow> data_offset (fs ! 0) = off 0 \<and>
     (\<forall>k. Suc k < num_fields fs \<longrightarrow> next_offset (fs ! k) (fs ! Suc k) (off k) (off (Suc k)))"

lemma iter_at_pData:
  assumes "fields_wf fs" "laid_out fs off"
  shows "k < num_fields fs \<Longrightarrow> pData (iter_at fs dest k) = dest + int (off k)"
proof (induction k)
  case 0
  then show ?case using assms(2) by (simp add: pb_field_iter_begin_def laid_out_def Let_def)
next
  case (Suc k)
  let ?f = "fs ! k" and ?g = "fs ! Suc k"
  have k: "k < num_fields fs" "pData (iter_at fs dest k) = dest + int (off k)" using Suc by simp_all
  note st = iter_at_static [OF assms(1) k(1), of dest]
  have t: "tag ?f \<noteq> 0" "tag ?g \<noteq> 0"
    using fields_wf_tag [OF assms(1), of k] fields_wf_tag [OF assms(1), of "Suc k"] Suc.prems by simp_all
  have "next_offset ?f ?g (off k) (off (Suc k))" using assms(2) Suc.prems by (simp add: laid_out_def)
  then have L: "stored_size ?f < 2 ^ 64"
    "same_union ?f ?g \<Longrightarrow> off (Suc k) = off k" "\<not> same_union ?f ?g \<Longrightarrow> off (Suc k) = off k + stored_size ?f + data_offset ?g"
    by (auto simp: next_offset_def)
  show ?case
  proof (cases "same_union ?f ?g")
    case True
    then show ?thesis using st t L(2) [OF True] k(2)
      by (simp add: pb_field_iter_next_def cur_field_def same_union_def Let_def)
  next
    case False
    then have "pData (snd (pb_field_iter_next (iter_at fs dest k))) = dest + int (off k) + int (stored_size ?f) + int (data_offset ?g)"
      using st t L(1) k(2) by (auto simp: pb_field_iter_next_def cur_field_def same_union_def Let_def stored_size_def)
    then show ?thesis using L(3) [OF False] by simp
  qed
qed

section \<open>Properties\<close>

text \<open>
  C34. The search of the field iterator ends, from every position: it visits every field, finds a
  field with the wanted tag that is not an extension exactly when there is one, and then points to
  the storage of that field; otherwise it is back where it started.
\<close>

theorem pb_field_iter_find_cyclic:
  assumes "fields_wf fs" "laid_out fs off" "s < num_fields fs"
  shows "\<exists>r it. pb_field_iter_find (iter_at fs dest s) t = Some (r, it) \<and>
     r = (\<exists>i < num_fields fs. wanted fs t i) \<and>
     (if r then wanted fs t (pos it) \<and> pos it < num_fields fs \<and> pData it = dest + int (off (pos it)) else it = iter_at fs dest s)"
proof (cases "List.find (wanted fs t) (visit_order (num_fields fs) s 0)")
  case None
  then have "\<not> (\<exists>i < num_fields fs. wanted fs t i)"
    using set_visit_order [OF assms(3)] by (auto simp: find_None_iff)
  then show ?thesis using None
    by (intro exI [of _ False] exI [of _ "iter_at fs dest s"]) (simp add: pb_field_iter_find_law [OF assms(1,3)])
next
  case (Some i)
  then have "wanted fs t i" "i \<in> set (visit_order (num_fields fs) s 0)" by (auto simp: find_Some_iff)
  then have i: "wanted fs t i" "i < num_fields fs" using set_visit_order [OF assms(3)] by auto
  then show ?thesis
    using Some iter_at_static [OF assms(1) i(2), of dest] iter_at_pData [OF assms(1,2) i(2), of dest]
    by (auto simp: pb_field_iter_find_law [OF assms(1,3)])
qed

text \<open>A message with an integer, an array of three integers with its count, and a pointer.\<close>

definition fields_ex :: "pb_field list" where
  "fields_ex = [Pb_Field 1 0x01 0 0 4 0 Null, Pb_Field 2 0x22 4 (-4) 4 3 Null, Pb_Field 7 0x97 4 0 1 0 Null, PB_LAST_FIELD]"

definition offsets_ex :: "nat \<Rightarrow> nat" where
  "offsets_ex k = [0, 8, 24] ! k"

theorem pb_field_iter_find_cyclic_witness:
  "\<exists>it. pb_field_iter_find (iter_at fields_ex 4096 2) 2 = Some (True, it) \<and> pData it = 4104"
proof -
  have n: "num_fields fields_ex = 3" by (simp add: num_fields_def fields_ex_def)
  have "fields_wf fields_ex" by (simp add: fields_wf_def fields_ex_def PB_LAST_FIELD_def)
  moreover have "laid_out fields_ex offsets_ex"
  proof -
    have "k = 0 \<or> k = 1" if "Suc k < num_fields fields_ex" for k using that n by auto
    moreover have "data_offset (fields_ex ! 0) = offsets_ex 0"
      "next_offset (fields_ex ! 0) (fields_ex ! Suc 0) (offsets_ex 0) (offsets_ex (Suc 0))"
      "next_offset (fields_ex ! 1) (fields_ex ! Suc 1) (offsets_ex 1) (offsets_ex (Suc 1))" by code_simp+
    ultimately show ?thesis unfolding laid_out_def by blast
  qed
  ultimately obtain r it where it: "pb_field_iter_find (iter_at fields_ex 4096 2) 2 = Some (r, it)"
    "r = (\<exists>i < 3. wanted fields_ex 2 i)"
    "if r then wanted fields_ex 2 (pos it) \<and> pos it < 3 \<and> pData it = 4096 + int (offsets_ex (pos it)) else it = iter_at fields_ex 4096 2"
    using pb_field_iter_find_cyclic [of fields_ex offsets_ex 2 4096 2] unfolding n by auto
  have w: "wanted fields_ex 2 1" "\<not> wanted fields_ex 2 0" "\<not> wanted fields_ex 2 2" "offsets_ex 1 = 8" by code_simp+
  have "(1 :: nat) < 3" by simp
  with w(1) it(2) have r by blast
  with it(3) have p: "wanted fields_ex 2 (pos it)" "pos it < 3" "pData it = 4096 + int (offsets_ex (pos it))" by simp_all
  from p(2) have "pos it = 0 \<or> pos it = 1 \<or> pos it = 2" by arith
  with p(1) w(2,3) have "pos it = 1" by auto
  with p(3) w(4) it(1) \<open>r\<close> show ?thesis by auto
qed

end
