(* ===== verification/Pb_Encode.thy ===== *)
theory Pb_Encode
  imports Pb_Common
begin

text \<open>
  nanopb's \<^verbatim>\<open>pb_encode.c\<close>: output streams and the encoders of scalar values, strings and bytes. A
  stream writes to a buffer, to a callback of the user, or nowhere, when only the size is computed.
  The values in a C structure are little-endian byte strings.
\<close>

section \<open>Output streams\<close>

text \<open>
  \<open>callback\<close> together with \<open>state\<close>: the null callback of a sizing stream; \<open>buf_write\<close> with the memory
  of the buffer and the position of \<open>state\<close> in it; or a function of the user with its own state.
\<close>

datatype 's ostate = Sizing | Buf_write bytes nat | User_write "'s \<Rightarrow> bytes \<Rightarrow> bool \<times> 's" 's

record 's pb_ostream =
  out :: "'s ostate"
  max_size :: nat
  bytes_written :: nat
  errmsg :: "string option"

text \<open>\<open>PB_SET_ERROR\<close> keeps the first message.\<close>

definition pb_set_error :: "'s pb_ostream \<Rightarrow> string \<Rightarrow> 's pb_ostream" where
  "pb_set_error stream msg = stream\<lparr>errmsg := (case errmsg stream of Some m \<Rightarrow> Some m | None \<Rightarrow> Some msg)\<rparr>"

definition buf_write :: "bytes \<Rightarrow> nat \<Rightarrow> bytes \<Rightarrow> nat \<Rightarrow> bool \<times> 's ostate" where
  "buf_write mem dest buf count = (True, Buf_write (mem_write mem dest (take count buf)) (dest + count))"

definition pb_ostream_from_buffer :: "bytes \<Rightarrow> nat \<Rightarrow> 's pb_ostream" where
  "pb_ostream_from_buffer buf bufsize = \<lparr>out = Buf_write buf 0, max_size = bufsize, bytes_written = 0, errmsg = None\<rparr>"

definition PB_OSTREAM_SIZING :: "'s pb_ostream" where
  "PB_OSTREAM_SIZING = \<lparr>out = Sizing, max_size = 0, bytes_written = 0, errmsg = None\<rparr>"

fun call_write :: "'s ostate \<Rightarrow> bytes \<Rightarrow> nat \<Rightarrow> bool \<times> 's ostate" where
  "call_write Sizing buf count = (True, Sizing)"
| "call_write (Buf_write mem dest) buf count = buf_write mem dest buf count"
| "call_write (User_write f s) buf count = (case f s (take count buf) of (ok, s) \<Rightarrow> (ok, User_write f s))"

definition is_sizing :: "'s pb_ostream \<Rightarrow> bool" where
  "is_sizing stream = (case out stream of Sizing \<Rightarrow> True | _ \<Rightarrow> False)"

definition pb_write :: "'s pb_ostream \<Rightarrow> bytes \<Rightarrow> nat \<Rightarrow> bool \<times> 's pb_ostream" where
  "pb_write stream buf count =
     (if count > 0 \<and> \<not> is_sizing stream then
        if size_wrap (bytes_written stream + count) < bytes_written stream \<or>
           size_wrap (bytes_written stream + count) > max_size stream
        then (False, pb_set_error stream ''stream full'')
        else (case call_write (out stream) buf count of (ok, o') \<Rightarrow>
                let stream = stream\<lparr>out := o'\<rparr> in
                if ok then (True, stream\<lparr>bytes_written := size_wrap (bytes_written stream + count)\<rparr>)
                else (False, pb_set_error stream ''io error''))
      else (True, stream\<lparr>bytes_written := size_wrap (bytes_written stream + count)\<rparr>))"

section \<open>Encoders of values\<close>

definition safe_read_bool :: "bytes \<Rightarrow> bool" where
  "safe_read_bool p = (p ! 0 \<noteq> 0)"

text \<open>The bytes that the loop of \<open>pb_encode_varint\<close> stores, before the last one is changed.\<close>

function varint_groups :: "u64 \<Rightarrow> bytes" where
  "varint_groups v =
     (if v = 0 then [] else ucast ((v AND 0x7F) OR 0x80) # varint_groups (drop_bit 7 v))"
  by auto
termination
proof (relation "measure unat")
  fix v :: u64 assume "v \<noteq> 0"
  then show "(drop_bit 7 v, v) \<in> measure unat" by (simp add: unat_drop_bit unat_gt_0)
qed simp

declare varint_groups.simps [simp del]

definition pb_encode_varint :: "'s pb_ostream \<Rightarrow> u64 \<Rightarrow> bool \<times> 's pb_ostream" where
  "pb_encode_varint stream v =
     (if v \<le> 0x7F then pb_write stream [ucast v] 1
      else let buffer = varint_groups v; i = length buffer;
               buffer = buffer[i - 1 := buffer ! (i - 1) AND 0x7F]
           in pb_write stream buffer i)"

definition pb_encode_svarint :: "'s pb_ostream \<Rightarrow> u64 \<Rightarrow> bool \<times> 's pb_ostream" where
  "pb_encode_svarint stream v =
     pb_encode_varint stream (if sint v < 0 then NOT (push_bit 1 v) else push_bit 1 v)"

definition pb_encode_fixed32 :: "'s pb_ostream \<Rightarrow> bytes \<Rightarrow> bool \<times> 's pb_ostream" where
  "pb_encode_fixed32 stream v =
     (let val = of_nat (le_val (take 4 v)) :: u32
      in pb_write stream
           [ucast (val AND 0xFF), ucast (drop_bit 8 val AND 0xFF), ucast (drop_bit 16 val AND 0xFF),
            ucast (drop_bit 24 val AND 0xFF)] 4)"

definition pb_encode_fixed64 :: "'s pb_ostream \<Rightarrow> bytes \<Rightarrow> bool \<times> 's pb_ostream" where
  "pb_encode_fixed64 stream v =
     (let val = of_nat (le_val (take 8 v)) :: u64
      in pb_write stream
           [ucast (val AND 0xFF), ucast (drop_bit 8 val AND 0xFF), ucast (drop_bit 16 val AND 0xFF),
            ucast (drop_bit 24 val AND 0xFF), ucast (drop_bit 32 val AND 0xFF), ucast (drop_bit 40 val AND 0xFF),
            ucast (drop_bit 48 val AND 0xFF), ucast (drop_bit 56 val AND 0xFF)] 8)"

datatype pb_wire_type = PB_WT_VARINT | PB_WT_64BIT | PB_WT_STRING | PB_WT_32BIT | PB_WT_OTHER u32

fun wire_code :: "pb_wire_type \<Rightarrow> u32" where
  "wire_code PB_WT_VARINT = 0"
| "wire_code PB_WT_64BIT = 1"
| "wire_code PB_WT_STRING = 2"
| "wire_code PB_WT_32BIT = 5"
| "wire_code (PB_WT_OTHER n) = n"

definition pb_encode_tag :: "'s pb_ostream \<Rightarrow> pb_wire_type \<Rightarrow> u32 \<Rightarrow> bool \<times> 's pb_ostream" where
  "pb_encode_tag stream wiretype field_number =
     pb_encode_varint stream (push_bit 3 (ucast field_number) OR ucast (wire_code wiretype))"

definition wire_type_of :: "u8 \<Rightarrow> pb_wire_type option" where
  "wire_type_of ltype =
     (if ltype \<in> {PB_LTYPE_BOOL, PB_LTYPE_VARINT, PB_LTYPE_UVARINT, PB_LTYPE_SVARINT} then Some PB_WT_VARINT
      else if ltype = PB_LTYPE_FIXED32 then Some PB_WT_32BIT
      else if ltype = PB_LTYPE_FIXED64 then Some PB_WT_64BIT
      else if ltype \<in> {PB_LTYPE_BYTES, PB_LTYPE_STRING, PB_LTYPE_SUBMESSAGE, PB_LTYPE_FIXED_LENGTH_BYTES} then Some PB_WT_STRING
      else None)"

definition pb_encode_tag_for_field :: "'s pb_ostream \<Rightarrow> pb_field \<Rightarrow> bool \<times> 's pb_ostream" where
  "pb_encode_tag_for_field stream field =
     (case wire_type_of (PB_LTYPE (type field)) of
        None \<Rightarrow> (False, pb_set_error stream ''invalid field type'')
      | Some wiretype \<Rightarrow> pb_encode_tag stream wiretype (tag field))"

definition pb_encode_string :: "'s pb_ostream \<Rightarrow> bytes \<Rightarrow> nat \<Rightarrow> bool \<times> 's pb_ostream" where
  "pb_encode_string stream buffer sz =
     (case pb_encode_varint stream (of_nat sz) of
        (False, stream) \<Rightarrow> (False, stream)
      | (True, stream) \<Rightarrow> pb_write stream buffer sz)"

section \<open>Encoders of fields\<close>

text \<open>An encoder reads the value of a field from the memory at \<open>src\<close>; \<open>None\<close> is the null pointer.\<close>

definition pb_enc_bool :: "'s pb_ostream \<Rightarrow> pb_field \<Rightarrow> bytes \<Rightarrow> bool \<times> 's pb_ostream" where
  "pb_enc_bool stream field src = pb_encode_varint stream (if safe_read_bool src then 1 else 0)"

text \<open>The value of a signed or unsigned integer of the field's size, converted to 64 bits.\<close>

definition read_signed :: "nat \<Rightarrow> bytes \<Rightarrow> u64 option" where
  "read_signed sz src =
     (if sz = 1 then Some (scast (of_nat (le_val (take 1 src)) :: u8))
      else if sz = 2 then Some (scast (of_nat (le_val (take 2 src)) :: u16))
      else if sz = 4 then Some (scast (of_nat (le_val (take 4 src)) :: u32))
      else if sz = 8 then Some (of_nat (le_val (take 8 src)))
      else None)"

definition read_unsigned :: "nat \<Rightarrow> bytes \<Rightarrow> u64 option" where
  "read_unsigned sz src =
     (if sz = 1 then Some (ucast (of_nat (le_val (take 1 src)) :: u8))
      else if sz = 2 then Some (ucast (of_nat (le_val (take 2 src)) :: u16))
      else if sz = 4 then Some (ucast (of_nat (le_val (take 4 src)) :: u32))
      else if sz = 8 then Some (of_nat (le_val (take 8 src)))
      else None)"

definition pb_enc_varint :: "'s pb_ostream \<Rightarrow> pb_field \<Rightarrow> bytes \<Rightarrow> bool \<times> 's pb_ostream" where
  "pb_enc_varint stream field src =
     (case read_signed (data_size field) src of
        None \<Rightarrow> (False, pb_set_error stream ''invalid data_size'')
      | Some v \<Rightarrow> pb_encode_varint stream v)"

definition pb_enc_uvarint :: "'s pb_ostream \<Rightarrow> pb_field \<Rightarrow> bytes \<Rightarrow> bool \<times> 's pb_ostream" where
  "pb_enc_uvarint stream field src =
     (case read_unsigned (data_size field) src of
        None \<Rightarrow> (False, pb_set_error stream ''invalid data_size'')
      | Some v \<Rightarrow> pb_encode_varint stream v)"

definition pb_enc_svarint :: "'s pb_ostream \<Rightarrow> pb_field \<Rightarrow> bytes \<Rightarrow> bool \<times> 's pb_ostream" where
  "pb_enc_svarint stream field src =
     (case read_signed (data_size field) src of
        None \<Rightarrow> (False, pb_set_error stream ''invalid data_size'')
      | Some v \<Rightarrow> pb_encode_svarint stream v)"

definition pb_enc_fixed64 :: "'s pb_ostream \<Rightarrow> pb_field \<Rightarrow> bytes \<Rightarrow> bool \<times> 's pb_ostream" where
  "pb_enc_fixed64 stream field src = pb_encode_fixed64 stream src"

definition pb_enc_fixed32 :: "'s pb_ostream \<Rightarrow> pb_field \<Rightarrow> bytes \<Rightarrow> bool \<times> 's pb_ostream" where
  "pb_enc_fixed32 stream field src = pb_encode_fixed32 stream src"

text \<open>A \<open>pb_bytes_array_t\<close> is a \<open>pb_size_t\<close> and the bytes after it.\<close>

definition PB_BYTES_ARRAY_T_ALLOCSIZE :: "nat \<Rightarrow> nat" where
  "PB_BYTES_ARRAY_T_ALLOCSIZE n = size_wrap (n + 4)"

definition pb_enc_bytes :: "'s pb_ostream \<Rightarrow> pb_field \<Rightarrow> bytes option \<Rightarrow> bool \<times> 's pb_ostream" where
  "pb_enc_bytes stream field src =
     (case src of
        None \<Rightarrow> pb_encode_string stream [] 0
      | Some src \<Rightarrow>
          (let sz = le_val (take 4 src); allocsize = PB_BYTES_ARRAY_T_ALLOCSIZE sz in
           if allocsize < sz \<or> (PB_ATYPE (type field) = PB_ATYPE_STATIC \<and> allocsize > data_size field)
           then (False, pb_set_error stream ''bytes size exceeded'')
           else pb_encode_string stream (drop 4 src) sz))"

text \<open>The loop that looks for the final zero.\<close>

fun string_size :: "bytes \<Rightarrow> nat \<Rightarrow> nat" where
  "string_size [] m = 0"
| "string_size (c # p) m = (if m > 0 \<and> c \<noteq> 0 then 1 + string_size p (m - 1) else 0)"

definition pb_enc_string :: "'s pb_ostream \<Rightarrow> pb_field \<Rightarrow> bytes option \<Rightarrow> bool \<times> 's pb_ostream" where
  "pb_enc_string stream field src =
     (let m = (if PB_ATYPE (type field) = PB_ATYPE_POINTER then 2 ^ 64 - 1 else data_size field)
      in case src of
           None \<Rightarrow> pb_encode_string stream [] 0
         | Some p \<Rightarrow> pb_encode_string stream p (string_size p m))"

definition pb_enc_fixed_length_bytes :: "'s pb_ostream \<Rightarrow> pb_field \<Rightarrow> bytes \<Rightarrow> bool \<times> 's pb_ostream" where
  "pb_enc_fixed_length_bytes stream field src = pb_encode_string stream src (data_size field)"

section \<open>What the encoders write\<close>

text \<open>The wire format of an unsigned integer: seven bits a byte, the least significant first.\<close>

fun varint :: "nat \<Rightarrow> bytes" where
  "varint n = (if n < 128 then [byte n] else byte (n mod 128 + 128) # varint (n div 128))"

declare varint.simps [simp del]

lemma varint_rec: "n < 128 \<Longrightarrow> varint n = [byte n]" "\<not> n < 128 \<Longrightarrow> varint n = byte (n mod 128 + 128) # varint (n div 128)"
  by (simp_all add: varint.simps [of n])

lemma unat_low_group: "unat (ucast ((v AND 0x7F) OR 0x80 :: u64) :: u8) = unat v mod 128 + 128"
proof -
  have "unat (v AND 0x7F) = unat v mod 128"
    using unat_and_mask [of v 7] by (simp add: mask_eq_exp_minus_1)
  moreover have "unat (0x80 OR (v AND 0x7F) :: u64) = unat (0x80 :: u64) + unat (v AND 0x7F)"
    by (rule unat_or_dvd [of _ 7]) (simp_all add: calculation)
  ultimately show ?thesis by (simp add: unat_ucast or.commute)
qed

lemma varint_groups_varint:
  "v \<noteq> 0 \<Longrightarrow> (let b = varint_groups v in b \<noteq> [] \<and> b[length b - 1 := b ! (length b - 1) AND 0x7F] = varint (unat v))"
proof (induction v rule: varint_groups.induct)
  case (1 v)
  let ?c = "ucast ((v AND 0x7F) OR 0x80) :: u8" and ?r = "varint_groups (drop_bit 7 v)"
  have g: "varint_groups v = ?c # ?r" using 1(2) by (subst varint_groups.simps) simp
  show ?case
  proof (cases "drop_bit 7 v = 0")
    case True
    then have small: "unat v < 128" using unat_drop_bit [of 7 v] by (simp add: div_eq_0_iff)
    have "unat (?c AND 0x7F) = unat v" using small by (simp add: u8_low7 unat_low_group)
    then have "?c AND 0x7F = byte (unat v)" using small by (intro unat_eqI) simp
    moreover have "?r = []" using True by (subst varint_groups.simps) simp
    ultimately show ?thesis using small by (simp add: g varint.simps [of "unat v"])
  next
    case False
    have "drop_bit 7 v = 0" if "unat v < 128" using that by (intro unat_eqI) (simp add: unat_drop_bit)
    then have big: "\<not> unat v < 128" using False by blast
    from 1(1) [OF 1(2) False] have r: "?r \<noteq> []" "?r[length ?r - 1 := ?r ! (length ?r - 1) AND 0x7F] = varint (unat v div 128)"
      by (simp_all add: Let_def unat_drop_bit)
    have "?c = byte (unat v mod 128 + 128)" by (rule unat_eqI) (simp add: unat_low_group)
    moreover have "varint (unat v) = byte (unat v mod 128 + 128) # varint (unat v div 128)"
      using big by (subst varint.simps) simp
    ultimately show ?thesis using r by (cases ?r) (simp_all add: g Let_def)
  qed
qed

lemma pb_encode_varint_eq: "pb_encode_varint stream v = pb_write stream (varint (unat v)) (length (varint (unat v)))"
proof (cases "v \<le> 0x7F")
  case True
  then have "unat v < 128" by (simp add: word_le_nat_alt)
  moreover have "ucast v = byte (unat v)" by (rule unat_eqI) (simp add: unat_ucast)
  ultimately show ?thesis using True by (simp add: pb_encode_varint_def varint.simps [of "unat v"])
next
  case False
  then have "v \<noteq> 0" by auto
  from varint_groups_varint [OF this] show ?thesis
    using False by (auto simp: pb_encode_varint_def Let_def) (metis length_list_update)
qed

lemma varint_length: "n < 128 ^ k \<Longrightarrow> 0 < k \<Longrightarrow> length (varint n) \<le> k"
proof (induction n arbitrary: k rule: varint.induct)
  case (1 n)
  show ?case
  proof (cases "n < 128")
    case True
    then show ?thesis using 1(3) by (simp add: varint.simps [of n])
  next
    case False
    then obtain k' where k: "k = Suc k'" "0 < k'" using 1(2,3) by (cases k; cases "k - 1") auto
    have "n div 128 < 128 ^ k'" using 1(2) k by (simp add: div_less_iff_less_mult mult.commute)
    from 1(1) [OF False this k(2)] show ?thesis using False k by (simp add: varint.simps [of n])
  qed
qed

lemma varint_le_10: "length (varint (unat (v :: u64))) \<le> 10"
proof (rule varint_length)
  have "unat v < 2 ^ 64" using unsigned_less [of v, where ?'a = nat] by simp
  then show "unat v < 128 ^ 10" by (rule less_le_trans) simp
qed simp

definition zigzag :: "u64 \<Rightarrow> u64" where
  "zigzag v = (if sint v < 0 then NOT (push_bit 1 v) else push_bit 1 v)"

lemma pb_encode_svarint_eq: "pb_encode_svarint stream v = pb_encode_varint stream (zigzag v)"
  by (simp add: pb_encode_svarint_def zigzag_def)

lemma unat_byte_of: "unat (ucast (drop_bit n val AND 0xFF) :: u8) = unat (val :: 'a::len word) div 2 ^ n mod 256"
  using unat_and_mask [of "drop_bit n val" 8] by (simp add: unat_ucast unat_drop_bit mask_eq_exp_minus_1)

lemma le_bytes_Suc: "le_bytes (Suc k) n = byte n # le_bytes k (n div 256)"
  by (simp add: le_bytes_def)

lemma le_bytes_0 [simp]: "le_bytes 0 n = []"
  by (simp add: le_bytes_def)

lemma le_bytes_numeral: "le_bytes (numeral k) n = byte n # le_bytes (pred_numeral k) (n div 256)"
  by (simp only: numeral_eq_Suc le_bytes_Suc)

lemma le_bytes_4: "le_bytes 4 n = [byte n, byte (n div 2 ^ 8), byte (n div 2 ^ 16), byte (n div 2 ^ 24)]"
  by (simp add: le_bytes_numeral le_bytes_Suc div_mult2_eq [symmetric])

lemma le_bytes_8:
  "le_bytes 8 n = [byte n, byte (n div 2 ^ 8), byte (n div 2 ^ 16), byte (n div 2 ^ 24),
     byte (n div 2 ^ 32), byte (n div 2 ^ 40), byte (n div 2 ^ 48), byte (n div 2 ^ 56)]"
  by (simp add: le_bytes_numeral le_bytes_Suc div_mult2_eq [symmetric])

lemma pb_encode_fixed32_eq:
  assumes "length v = 4"
  shows "pb_encode_fixed32 stream v = pb_write stream v (length v)"
proof -
  let ?n = "le_val v"
  have n: "?n < 2 ^ 32" using le_val_less [of v] assms by simp
  have w: "ucast (drop_bit k (of_nat ?n :: u32) AND 0xFF) = byte (?n div 2 ^ k)" for k
    by (rule unat_eqI) (simp add: unat_byte_of unat_of_nat_u32 [OF n])
  have "v = le_bytes 4 ?n" using le_bytes_le_val [of v] assms by simp
  also have "\<dots> = [byte ?n, byte (?n div 2 ^ 8), byte (?n div 2 ^ 16), byte (?n div 2 ^ 24)]"
    by (simp add: le_bytes_4)
  finally have v: "[byte ?n, byte (?n div 2 ^ 8), byte (?n div 2 ^ 16), byte (?n div 2 ^ 24)] = v" ..
  show ?thesis unfolding pb_encode_fixed32_def Let_def using w [of 0] v assms by (simp add: w [simplified])
qed

lemma pb_encode_fixed64_eq:
  assumes "length v = 8"
  shows "pb_encode_fixed64 stream v = pb_write stream v (length v)"
proof -
  let ?n = "le_val v"
  have n: "?n < 2 ^ 64" using le_val_less [of v] assms by simp
  have w: "ucast (drop_bit k (of_nat ?n :: u64) AND 0xFF) = byte (?n div 2 ^ k)" for k
    by (rule unat_eqI) (simp add: unat_byte_of unat_of_nat_u64 [OF n])
  have "v = le_bytes 8 ?n" using le_bytes_le_val [of v] assms by simp
  then have v: "[byte ?n, byte (?n div 2 ^ 8), byte (?n div 2 ^ 16), byte (?n div 2 ^ 24), byte (?n div 2 ^ 32),
      byte (?n div 2 ^ 40), byte (?n div 2 ^ 48), byte (?n div 2 ^ 56)] = v"
    by (simp add: le_bytes_8)
  show ?thesis unfolding pb_encode_fixed64_def Let_def using w [of 0] v assms by (simp add: w [simplified])
qed

section \<open>Streams\<close>

text \<open>
  A stream without an error so far. On a buffer it writes from some position on, within the
  buffer and within its limit; a substream starts where its parent is.
\<close>

definition ostream_wf :: "'s pb_ostream \<Rightarrow> bool" where
  "ostream_wf stream \<longleftrightarrow> errmsg stream = None \<and> bytes_written stream < 2 ^ 64 \<and> max_size stream < 2 ^ 64 \<and>
     (case out stream of
        Buf_write mem dest \<Rightarrow> bytes_written stream \<le> dest \<and> bytes_written stream \<le> max_size stream \<and>
          dest - bytes_written stream + max_size stream \<le> length mem \<and> length mem < 2 ^ 63
      | _ \<Rightarrow> True)"

text \<open>
  What an encoder does, stream aside: the bytes that it writes, and the error that ends it, with
  its message if it sets one. On a sizing stream the bytes are counted. On a buffer they are stored
  if they fit, and otherwise a part of them that fits, and the stream is reported to be full.
\<close>

type_synonym outcome = "bytes \<times> string option option"

definition msg_of :: "string option option \<Rightarrow> string option" where
  "msg_of er = (case er of None \<Rightarrow> None | Some m \<Rightarrow> m)"

definition counts :: "'s pb_ostream \<Rightarrow> outcome \<Rightarrow> bool \<times> 's pb_ostream \<Rightarrow> bool" where
  "counts stream r res \<longleftrightarrow>
     res = (snd r = None, stream\<lparr>bytes_written := size_wrap (bytes_written stream + length (fst r)), errmsg := msg_of (snd r)\<rparr>)"

definition stored :: "'s pb_ostream \<Rightarrow> bytes \<Rightarrow> nat \<Rightarrow> bytes \<Rightarrow> string option \<Rightarrow> 's pb_ostream" where
  "stored stream mem dest bs m =
     stream\<lparr>out := Buf_write (mem_write mem dest bs) (dest + length bs), bytes_written := bytes_written stream + length bs, errmsg := m\<rparr>"

definition stores :: "'s pb_ostream \<Rightarrow> bytes \<Rightarrow> nat \<Rightarrow> outcome \<Rightarrow> bool \<times> 's pb_ostream \<Rightarrow> bool" where
  "stores stream mem dest r res \<longleftrightarrow>
     (if bytes_written stream + length (fst r) \<le> max_size stream
      then res = (snd r = None, stored stream mem dest (fst r) (msg_of (snd r)))
      else \<exists>k < length (fst r). bytes_written stream + k \<le> max_size stream \<and>
        res = (False, stored stream mem dest (take k (fst r)) (Some ''stream full'')))"

definition runs :: "'s pb_ostream \<Rightarrow> outcome \<Rightarrow> bool \<times> 's pb_ostream \<Rightarrow> bool" where
  "runs stream r res \<longleftrightarrow>
     (case out stream of
        Sizing \<Rightarrow> counts stream r res
      | Buf_write mem dest \<Rightarrow> stores stream mem dest r res
      | User_write f s \<Rightarrow> True)"

text \<open>The contract of an encoder; \<open>None\<close> is the result of a computation that ran out of fuel.\<close>

definition yields :: "('s pb_ostream \<Rightarrow> (bool \<times> 's pb_ostream) option) \<Rightarrow> outcome \<Rightarrow> bool" where
  "yields e r \<longleftrightarrow> (length (fst r) < 2 ^ 63 \<longrightarrow>
     (\<forall>stream. ostream_wf stream \<longrightarrow> (case out stream of User_write f s \<Rightarrow> False | _ \<Rightarrow> True) \<longrightarrow>
        (\<exists>res. e stream = Some res \<and> runs stream r res)))"

abbreviation emits :: "('s pb_ostream \<Rightarrow> bool \<times> 's pb_ostream) \<Rightarrow> bytes \<Rightarrow> bool" where
  "emits e bs \<equiv> yields (\<lambda>stream. Some (e stream)) (bs, None)"

lemma yieldsI:
  assumes "\<And>stream. length (fst r) < 2 ^ 63 \<Longrightarrow> ostream_wf stream \<Longrightarrow> out stream = Sizing \<Longrightarrow>
      \<exists>res. e stream = Some res \<and> counts stream r res"
    and "\<And>stream mem dest. length (fst r) < 2 ^ 63 \<Longrightarrow> ostream_wf stream \<Longrightarrow> out stream = Buf_write mem dest \<Longrightarrow>
      \<exists>res. e stream = Some res \<and> stores stream mem dest r res"
  shows "yields e r"
  unfolding yields_def runs_def using assms by (auto split: ostate.split)

lemma yields_sizing:
  assumes "yields e r" "length (fst r) < 2 ^ 63" "ostream_wf stream" "out stream = Sizing"
  shows "e stream = Some (snd r = None, stream\<lparr>bytes_written := size_wrap (bytes_written stream + length (fst r)), errmsg := msg_of (snd r)\<rparr>)"
  using assms by (auto simp: yields_def runs_def counts_def)

lemma yields_buffer:
  assumes "yields e r" "length (fst r) < 2 ^ 63" "ostream_wf stream" "out stream = Buf_write mem dest"
  shows "\<exists>res. e stream = Some res \<and> stores stream mem dest r res"
  using assms by (fastforce simp: yields_def runs_def)

lemma ostream_wf_buffer:
  assumes "ostream_wf stream" "out stream = Buf_write mem dest"
  shows "bytes_written stream \<le> dest" "bytes_written stream \<le> max_size stream" "errmsg stream = None"
    "dest - bytes_written stream + max_size stream \<le> length mem" "length mem < 2 ^ 63" "max_size stream < 2 ^ 63"
  using assms by (auto simp: ostream_wf_def)

lemma ostream_wf_sizing:
  assumes "ostream_wf stream" "out stream = Sizing"
  shows "ostream_wf (stream\<lparr>bytes_written := size_wrap n\<rparr>)"
  using assms by (simp add: ostream_wf_def size_wrap_def)

lemma stored_nothing: "out stream = Buf_write mem dest \<Longrightarrow> stored stream mem dest [] m = stream\<lparr>errmsg := m\<rparr>"
  by (simp add: stored_def mem_write_def)

lemma stored_wf:
  assumes "ostream_wf stream" "out stream = Buf_write mem dest" "bytes_written stream + length bs \<le> max_size stream"
  shows "ostream_wf (stored stream mem dest bs None)" "dest + length bs \<le> length mem"
  using ostream_wf_buffer [OF assms(1,2)] assms(1,3) by (auto simp: stored_def ostream_wf_def)

lemma mem_write_twice:
  assumes "i + length xs + length ys \<le> length buf"
  shows "mem_write (mem_write buf i xs) (i + length xs) ys = mem_write buf i (xs @ ys)"
  using assms by (simp add: mem_write_def ac_simps)

lemma stored_twice:
  assumes "dest + length xs + length ys \<le> length mem"
  shows "stored (stored stream mem dest xs m) (mem_write mem dest xs) (dest + length xs) ys m' = stored stream mem dest (xs @ ys) m'"
  by (simp add: stored_def mem_write_twice [OF assms] add.assoc)

lemma emits_write:
  "emits (\<lambda>stream. pb_write stream bs (length bs)) bs"
proof (rule yieldsI)
  fix stream :: "'s pb_ostream"
  assume "ostream_wf stream" "out stream = Sizing"
  then show "\<exists>res. Some (pb_write stream bs (length bs)) = Some res \<and> counts stream (bs, None) res"
    by (simp add: counts_def pb_write_def is_sizing_def ostream_wf_def msg_of_def)
next
  fix stream :: "'s pb_ostream" and mem dest
  assume len: "length (fst (bs, None :: string option option)) < 2 ^ 63"
    and wf: "ostream_wf stream" and o': "out stream = Buf_write mem dest"
  note d = ostream_wf_buffer [OF wf o']
  let ?w = "bytes_written stream"
  have "?w + length bs < 2 ^ 64" using len d(2,6) by simp
  then have full: "size_wrap (?w + length bs) < ?w \<or> size_wrap (?w + length bs) > max_size stream \<longleftrightarrow>
      \<not> ?w + length bs \<le> max_size stream" by auto
  have sw: "size_wrap (?w + length bs) = ?w + length bs" using \<open>?w + length bs < 2 ^ 64\<close> by (rule size_wrap_id)
  show "\<exists>res. Some (pb_write stream bs (length bs)) = Some res \<and> stores stream mem dest (bs, None) res"
  proof (cases "bs = []")
    case True
    then show ?thesis using o' d sw by (cases stream) (simp add: stores_def pb_write_def stored_def mem_write_def msg_of_def)
  next
    case ne: False
    show ?thesis
    proof (cases "?w + length bs \<le> max_size stream")
      case True
      then show ?thesis using o' ne d full sw
        by (cases stream) (simp add: stores_def pb_write_def is_sizing_def buf_write_def stored_def msg_of_def)
    next
      case False
      then have "pb_write stream bs (length bs) = (False, pb_set_error stream ''stream full'')"
        using o' ne full by (simp add: pb_write_def is_sizing_def)
      moreover have "pb_set_error stream ''stream full'' = stored stream mem dest [] (Some ''stream full'')"
        using o' d(3) by (simp add: pb_set_error_def stored_nothing)
      ultimately show ?thesis using False ne d by (auto simp: stores_def intro!: exI [of _ 0])
    qed
  qed
qed

text \<open>An encoder that only fails, and one encoder after another.\<close>

lemma yields_error:
  "yields (\<lambda>stream. Some (False, pb_set_error stream m)) ([], Some (Some m))"
  "yields (\<lambda>stream. Some (False, stream)) ([], Some None)"
  "yields (\<lambda>stream. Some (True, stream)) ([], None)"
  by (rule yieldsI; auto simp: counts_def stores_def pb_set_error_def stored_nothing msg_of_def ostream_wf_def)+

definition then_out :: "outcome \<Rightarrow> outcome \<Rightarrow> outcome" where
  "then_out r1 r2 = (if snd r1 = None then (fst r1 @ fst r2, snd r2) else r1)"

lemma yields_then:
  fixes e1 e2 :: "'s pb_ostream \<Rightarrow> (bool \<times> 's pb_ostream) option"
  assumes e1: "yields e1 r1" and e2: "snd r1 = None \<Longrightarrow> yields e2 r2"
  shows "yields (then_enc e1 e2) (then_out r1 r2)"
proof (cases "snd r1")
  case (Some m)
  show ?thesis
  proof (rule yieldsI)
    fix stream :: "'s pb_ostream"
    assume a: "length (fst (then_out r1 r2)) < 2 ^ 63" "ostream_wf stream" "out stream = Sizing"
    then show "\<exists>res. then_enc e1 e2 stream = Some res \<and> counts stream (then_out r1 r2) res"
      using yields_sizing [OF e1] Some by (simp add: then_out_def then_enc_def counts_def)
  next
    fix stream :: "'s pb_ostream" and mem dest
    assume a: "length (fst (then_out r1 r2)) < 2 ^ 63" "ostream_wf stream" "out stream = Buf_write mem dest"
    have "length (fst r1) < 2 ^ 63" using a(1) Some by (simp add: then_out_def)
    from yields_buffer [OF e1 this a(2,3)] obtain res where "e1 stream = Some res" "stores stream mem dest r1 res" by blast
    moreover from this(2) have "\<not> fst res" using Some by (auto simp: stores_def split: if_splits)
    ultimately show "\<exists>res. then_enc e1 e2 stream = Some res \<and> stores stream mem dest (then_out r1 r2) res"
      using Some by (cases res) (simp add: then_enc_def then_out_def)
  qed
next
  case ok: None
  let ?b1 = "fst r1" and ?b2 = "fst r2"
  have t: "then_out r1 r2 = (?b1 @ ?b2, snd r2)" using ok by (simp add: then_out_def)
  note e2 = e2 [OF ok]
  show ?thesis
    unfolding t
  proof (rule yieldsI)
    fix stream :: "'s pb_ostream"
    assume a: "length (fst (?b1 @ ?b2, snd r2)) < 2 ^ 63" "ostream_wf stream" "out stream = Sizing"
    let ?s = "stream\<lparr>bytes_written := size_wrap (bytes_written stream + length ?b1)\<rparr>"
    have em: "errmsg stream = None" using a(2) by (simp add: ostream_wf_def)
    have "e1 stream = Some (True, ?s)"
      using yields_sizing [OF e1 _ a(2,3)] a(1) ok em by (cases stream) (simp add: msg_of_def)
    moreover have "e2 ?s = Some (snd r2 = None, ?s\<lparr>bytes_written := size_wrap (bytes_written ?s + length ?b2), errmsg := msg_of (snd r2)\<rparr>)"
      using yields_sizing [OF e2 _ ostream_wf_sizing [OF a(2,3)]] a(1,3) by simp
    ultimately show "\<exists>res. then_enc e1 e2 stream = Some res \<and> counts stream (?b1 @ ?b2, snd r2) res"
      by (simp add: then_enc_def counts_def size_wrap_def mod_add_left_eq add.assoc)
  next
    fix stream :: "'s pb_ostream" and mem dest
    assume a: "length (fst (?b1 @ ?b2, snd r2)) < 2 ^ 63" "ostream_wf stream" "out stream = Buf_write mem dest"
    obtain res1 where r1: "e1 stream = Some res1" "stores stream mem dest r1 res1"
      using yields_buffer [OF e1 _ a(2,3)] a(1) by auto
    show "\<exists>res. then_enc e1 e2 stream = Some res \<and> stores stream mem dest (?b1 @ ?b2, snd r2) res"
    proof (cases "bytes_written stream + length ?b1 \<le> max_size stream")
      case True
      let ?s = "stored stream mem dest ?b1 None"
      have res1: "res1 = (True, ?s)" using r1(2) True ok by (simp add: stores_def msg_of_def)
      have o': "out ?s = Buf_write (mem_write mem dest ?b1) (dest + length ?b1)" by (simp add: stored_def)
      obtain res2 where r2: "e2 ?s = Some res2" "stores ?s (mem_write mem dest ?b1) (dest + length ?b1) r2 res2"
        using yields_buffer [OF e2 _ stored_wf(1) [OF a(2,3) True] o'] a(1) by auto
      have fields: "bytes_written ?s = bytes_written stream + length ?b1" "max_size ?s = max_size stream"
        by (simp_all add: stored_def)
      have fit: "dest + length ?b1 + length ys \<le> length mem" if "bytes_written stream + length ?b1 + length ys \<le> max_size stream" for ys
        using that ostream_wf_buffer [OF a(2,3)] by simp
      have "stores stream mem dest (?b1 @ ?b2, snd r2) res2"
      proof (cases "bytes_written stream + length ?b1 + length ?b2 \<le> max_size stream")
        case True
        then show ?thesis using r2(2) stored_twice [OF fit [OF True]] fields by (simp add: stores_def add.assoc)
      next
        case False
        then obtain k where k: "k < length ?b2" "bytes_written stream + length ?b1 + k \<le> max_size stream"
          "res2 = (False, stored ?s (mem_write mem dest ?b1) (dest + length ?b1) (take k ?b2) (Some ''stream full''))"
          using r2(2) fields by (auto simp: stores_def add.assoc)
        have "stored ?s (mem_write mem dest ?b1) (dest + length ?b1) (take k ?b2) (Some ''stream full'') =
            stored stream mem dest (take (length ?b1 + k) (?b1 @ ?b2)) (Some ''stream full'')"
          using stored_twice [OF fit [of "take k ?b2"]] k by simp
        then show ?thesis using k False by (auto simp: stores_def add.assoc intro!: exI [of _ "length ?b1 + k"])
      qed
      then show ?thesis using r1(1) res1 r2(1) by (simp add: then_enc_def)
    next
      case False
      then obtain k where "k < length ?b1" "bytes_written stream + k \<le> max_size stream"
        "res1 = (False, stored stream mem dest (take k ?b1) (Some ''stream full''))"
        using r1(2) by (auto simp: stores_def)
      then show ?thesis using r1(1) False by (auto simp: stores_def then_enc_def intro!: exI [of _ k])
    qed
  qed
qed

definition then_write ::
    "('s pb_ostream \<Rightarrow> bool \<times> 's pb_ostream) \<Rightarrow> ('s pb_ostream \<Rightarrow> bool \<times> 's pb_ostream) \<Rightarrow> 's pb_ostream \<Rightarrow> bool \<times> 's pb_ostream" where
  "then_write e1 e2 stream = (case e1 stream of (False, stream) \<Rightarrow> (False, stream) | (True, stream) \<Rightarrow> e2 stream)"

lemma yields_cong:
  assumes "\<And>stream. e stream = e' stream" "yields e' r"
  shows "yields e r"
proof -
  have "e = e'" using assms(1) by (rule ext)
  then show ?thesis using assms(2) by simp
qed

lemma emits_then:
  assumes "emits e1 b1" "emits e2 b2"
  shows "emits (then_write e1 e2) (b1 @ b2)"
proof (rule yields_cong)
  show "Some (then_write e1 e2 stream) = then_enc (\<lambda>stream. Some (e1 stream)) (\<lambda>stream. Some (e2 stream)) stream" for stream
    by (simp add: then_enc_def then_write_def split: bool.split prod.split)
  show "yields (then_enc (\<lambda>stream. Some (e1 stream)) (\<lambda>stream. Some (e2 stream))) (b1 @ b2, None)"
    using yields_then [OF assms] by (simp add: then_out_def)
qed

section \<open>Fields on the wire\<close>

lemma emits_cong: "(\<And>stream. e stream = e' stream) \<Longrightarrow> emits e' bs \<Longrightarrow> emits e bs"
  by (rule yields_cong [of "\<lambda>stream. Some (e stream)"]) simp_all

lemma emits_varint: "emits (\<lambda>stream. pb_encode_varint stream v) (varint (unat v))"
  unfolding pb_encode_varint_eq
  by (rule emits_write)

lemma emits_svarint: "emits (\<lambda>stream. pb_encode_svarint stream v) (varint (unat (zigzag v)))"
  unfolding pb_encode_svarint_eq by (rule emits_varint)

lemma emits_fixed: "length v = 4 \<Longrightarrow> emits (\<lambda>stream. pb_encode_fixed32 stream v) v"
  "length v = 8 \<Longrightarrow> emits (\<lambda>stream. pb_encode_fixed64 stream v) v"
  by (simp_all add: pb_encode_fixed32_eq pb_encode_fixed64_eq) (use emits_write [of v] in simp)+

lemma unat_tag:
  assumes "unat (wire_code w) < 8"
  shows "unat (push_bit 3 (ucast (t :: u32)) OR ucast (wire_code w) :: u64) = unat t * 8 + unat (wire_code w)"
proof -
  have "unat t < 2 ^ 32" using unsigned_less [of t, where ?'a = nat] by simp
  then have "unat (ucast t :: u64) = unat t" "unat (ucast (wire_code w) :: u64) = unat (wire_code w)"
    using assms by (simp_all add: unat_ucast)
  then show ?thesis
    using unat_shift_or [of "ucast (wire_code w) :: u64" 3 "ucast t"] assms \<open>unat t < 2 ^ 32\<close> by simp
qed

lemma emits_tag:
  assumes "unat (wire_code w) < 8"
  shows "emits (\<lambda>stream. pb_encode_tag stream w t) (varint (unat t * 8 + unat (wire_code w)))"
  unfolding pb_encode_tag_def by (simp only: unat_tag [OF assms, symmetric] emits_varint)

lemma call_write_take: "call_write o' (take n bs) n = call_write o' bs n"
  by (cases o') (simp_all add: buf_write_def)

lemma pb_write_take: "pb_write stream (take n bs) n = pb_write stream bs n"
  by (simp add: pb_write_def call_write_take)

lemma emits_string:
  assumes "sz \<le> length buf" "sz < 2 ^ 64"
  shows "emits (\<lambda>stream. pb_encode_string stream buf sz) (varint sz @ take sz buf)"
proof -
  have w: "emits (\<lambda>stream. pb_write stream (take sz buf) sz) (take sz buf)"
    using assms(1) emits_write [of "take sz buf"] by (simp add: min_absorb2)
  show ?thesis
    by (rule emits_cong [OF _ emits_then [OF emits_varint [of "of_nat sz", unfolded unat_of_nat_u64 [OF assms(2)]] w]])
      (simp add: pb_encode_string_def then_write_def pb_write_take)
qed

text \<open>The values that a message is made of, and how the encoders are called for them.\<close>

datatype pb_value = Varint u64 | Svarint u64 | Fixed32 bytes | Fixed64 bytes | String bytes

fun value_ok :: "pb_value \<Rightarrow> bool" where
  "value_ok (Fixed32 v) = (length v = 4)"
| "value_ok (Fixed64 v) = (length v = 8)"
| "value_ok (String v) = (length v < 2 ^ 64)"
| "value_ok _ = True"

fun wire_of :: "pb_value \<Rightarrow> pb_wire_type" where
  "wire_of (Fixed32 v) = PB_WT_32BIT"
| "wire_of (Fixed64 v) = PB_WT_64BIT"
| "wire_of (String v) = PB_WT_STRING"
| "wire_of _ = PB_WT_VARINT"

fun encode_payload :: "pb_value \<Rightarrow> 's pb_ostream \<Rightarrow> bool \<times> 's pb_ostream" where
  "encode_payload (Varint v) stream = pb_encode_varint stream v"
| "encode_payload (Svarint v) stream = pb_encode_svarint stream v"
| "encode_payload (Fixed32 v) stream = pb_encode_fixed32 stream v"
| "encode_payload (Fixed64 v) stream = pb_encode_fixed64 stream v"
| "encode_payload (String v) stream = pb_encode_string stream v (length v)"

fun encode_values :: "(u32 \<times> pb_value) list \<Rightarrow> 's pb_ostream \<Rightarrow> bool \<times> 's pb_ostream" where
  "encode_values [] stream = (True, stream)"
| "encode_values ((t, v) # fs) stream =
     then_write (\<lambda>stream. pb_encode_tag stream (wire_of v) t) (then_write (encode_payload v) (encode_values fs)) stream"

fun payload_bytes :: "pb_value \<Rightarrow> bytes" where
  "payload_bytes (Varint v) = varint (unat v)"
| "payload_bytes (Svarint v) = varint (unat (zigzag v))"
| "payload_bytes (Fixed32 v) = v"
| "payload_bytes (Fixed64 v) = v"
| "payload_bytes (String v) = varint (length v) @ v"

definition tag_bytes :: "u32 \<Rightarrow> pb_value \<Rightarrow> bytes" where
  "tag_bytes t v = varint (unat t * 8 + unat (wire_code (wire_of v)))"

definition wire_bytes :: "(u32 \<times> pb_value) list \<Rightarrow> bytes" where
  "wire_bytes fs = concat (map (\<lambda>(t, v). tag_bytes t v @ payload_bytes v) fs)"

lemma emits_payload: "value_ok v \<Longrightarrow> emits (encode_payload v) (payload_bytes v)"
proof (cases v)
  case (String x)
  assume "value_ok v"
  then show ?thesis using String emits_string [of "length x" x] by (intro emits_cong [of "encode_payload v" "\<lambda>s. pb_encode_string s x (length x)"]) simp_all
next
  case (Varint x)
  then show ?thesis by (intro emits_cong [OF _ emits_varint [of x, folded payload_bytes.simps(1)], folded Varint]) simp
next
  case (Svarint x)
  then show ?thesis by (intro emits_cong [OF _ emits_svarint [of x, folded payload_bytes.simps(2)], folded Svarint]) simp
next
  case (Fixed32 x)
  assume "value_ok v"
  then show ?thesis using Fixed32 emits_fixed(1) [of x] by (intro emits_cong [of "encode_payload v" "\<lambda>s. pb_encode_fixed32 s x"]) simp_all
next
  case (Fixed64 x)
  assume "value_ok v"
  then show ?thesis using Fixed64 emits_fixed(2) [of x] by (intro emits_cong [of "encode_payload v" "\<lambda>s. pb_encode_fixed64 s x"]) simp_all
qed

lemma wire_code_less: "unat (wire_code (wire_of v)) < 8"
  by (cases v) simp_all

lemmas emits_Nil = yields_error(3)

lemma emits_values:
  "list_all (\<lambda>(t, v). value_ok v) fs \<Longrightarrow> emits (encode_values fs :: 's pb_ostream \<Rightarrow> bool \<times> 's pb_ostream) (wire_bytes fs)"
proof (induction fs)
  case Nil
  show ?case by (rule emits_cong [of _ "\<lambda>stream. (True, stream)"]) (simp_all add: wire_bytes_def emits_Nil)
next
  case (Cons f fs)
  obtain t v where f: "f = (t, v)" by force
  have e: "emits (then_write (\<lambda>stream. pb_encode_tag stream (wire_of v) t) (then_write (encode_payload v)
      (encode_values fs :: 's pb_ostream \<Rightarrow> bool \<times> 's pb_ostream))) (tag_bytes t v @ payload_bytes v @ wire_bytes fs)"
    unfolding tag_bytes_def
    using Cons f by (intro emits_then emits_tag emits_payload wire_code_less) auto
  have b: "wire_bytes (f # fs) = tag_bytes t v @ payload_bytes v @ wire_bytes fs" by (simp add: f wire_bytes_def)
  show ?case unfolding b by (rule emits_cong [OF _ e]) (simp add: f)
qed

text \<open>A run on a fresh stream.\<close>

lemma ostream_wf_fresh:
  "ostream_wf PB_OSTREAM_SIZING" "cap \<le> length buf \<Longrightarrow> length buf < 2 ^ 63 \<Longrightarrow> ostream_wf (pb_ostream_from_buffer buf cap)"
  by (auto simp: ostream_wf_def PB_OSTREAM_SIZING_def pb_ostream_from_buffer_def)

lemma fresh_out: "out PB_OSTREAM_SIZING = Sizing" "out (pb_ostream_from_buffer buf cap) = Buf_write buf 0"
  by (simp_all add: PB_OSTREAM_SIZING_def pb_ostream_from_buffer_def)

lemma yields_stored:
  assumes "yields e (bs, None)" "length bs < 2 ^ 63" "cap \<le> length buf" "length buf < 2 ^ 63"
    and "e (pb_ostream_from_buffer buf cap) = Some (True, s)"
  shows "out s = Buf_write (bs @ drop (length bs) buf) (length bs)"
  using yields_buffer [OF assms(1) _ ostream_wf_fresh(2) [OF assms(3,4)] fresh_out(2)] assms(2,5)
  by (auto simp: stores_def stored_def mem_write_def split: if_splits)

text \<open>What the three kinds of runs have in common.\<close>

lemma yields_fresh:
  assumes "yields e (bs, er)" "length bs < 2 ^ 63" "cap \<le> length buf" "length buf < 2 ^ 63"
  shows "(\<exists>s. e PB_OSTREAM_SIZING = Some (er = None, s) \<and> bytes_written s = length bs \<and> errmsg s = msg_of er) \<and>
     (\<exists>ok s k. e (pb_ostream_from_buffer buf cap) = Some (ok, s) \<and> out s = Buf_write (take k bs @ drop k buf) k \<and> k \<le> cap \<and>
        (if length bs \<le> cap then ok = (er = None) \<and> k = length bs \<and> errmsg s = msg_of er
         else \<not> ok \<and> errmsg s = Some ''stream full''))"
proof -
  note z = yields_sizing [OF assms(1) _ ostream_wf_fresh(1) fresh_out(1), simplified, OF assms(2) [simplified]]
  obtain res where res: "e (pb_ostream_from_buffer buf cap) = Some res" "stores (pb_ostream_from_buffer buf cap) buf 0 (bs, er) res"
    using yields_buffer [OF assms(1) _ ostream_wf_fresh(2) [OF assms(3,4)] fresh_out(2)] assms(2) by auto
  have "\<exists>ok s k. res = (ok, s) \<and> out s = Buf_write (take k bs @ drop k buf) k \<and> k \<le> cap \<and>
        (if length bs \<le> cap then ok = (er = None) \<and> k = length bs \<and> errmsg s = msg_of er
         else \<not> ok \<and> errmsg s = Some ''stream full'')"
  proof (cases "length bs \<le> cap")
    case True
    then show ?thesis using res(2) by (simp add: stores_def stored_def pb_ostream_from_buffer_def mem_write_def)
  next
    case False
    then obtain k where "k < length bs" "k \<le> cap" "res = (False, stored (pb_ostream_from_buffer buf cap) buf 0 (take k bs) (Some ''stream full''))"
      using res(2) by (auto simp: stores_def pb_ostream_from_buffer_def)
    then show ?thesis using False by (auto simp: stored_def mem_write_def min_absorb2)
  qed
  then show ?thesis using z res(1) assms(2) by (auto simp: PB_OSTREAM_SIZING_def)
qed

section \<open>Properties\<close>

text \<open>
  A sequence of fields is encoded in its wire format, and the three kinds of runs agree: a
  sizing stream counts exactly its bytes; a buffer with room for them receives exactly them, the
  rest of it untouched; a smaller one is reported as full, and nothing is stored beyond its limit.
\<close>

theorem pb_encoding_exact:
  fixes buf :: bytes
  assumes "list_all (\<lambda>(t, v). value_ok v) fs" "length (wire_bytes fs) < 2 ^ 63" "cap \<le> length buf" "length buf < 2 ^ 63"
  shows "(\<exists>s. encode_values fs (PB_OSTREAM_SIZING :: unit pb_ostream) = (True, s) \<and> bytes_written s = length (wire_bytes fs)) \<and>
     (let (ok, s) = encode_values fs (pb_ostream_from_buffer buf cap :: unit pb_ostream) in
      if length (wire_bytes fs) \<le> cap
      then ok \<and> out s = Buf_write (wire_bytes fs @ drop (length (wire_bytes fs)) buf) (length (wire_bytes fs)) \<and> errmsg s = None
      else \<not> ok \<and> errmsg s = Some ''stream full'' \<and>
        (\<exists>k \<le> cap. out s = Buf_write (take k (wire_bytes fs) @ drop k buf) k))"
  using yields_fresh [OF emits_values [OF assms(1), where ?'s = unit] assms(2-4)]
  by (auto simp: msg_of_def split: if_splits)

definition pb_fields_ex :: "(u32 \<times> pb_value) list" where
  "pb_fields_ex = [(1, Varint 300), (2, String [0x68, 0x69]), (3, Svarint (- 2)), (4, Fixed32 [1, 2, 3, 4])]"

lemma pb_fields_ex_wire:
  "list_all (\<lambda>(t, v). value_ok v) pb_fields_ex"
  "wire_bytes pb_fields_ex = [8, 0xAC, 2, 18, 2, 0x68, 0x69, 24, 3, 37, 1, 2, 3, 4]"
proof -
  show "list_all (\<lambda>(t, v). value_ok v) pb_fields_ex" by (simp add: pb_fields_ex_def)
  have "zigzag (- 2) = 3" by code_simp
  then show "wire_bytes pb_fields_ex = [8, 0xAC, 2, 18, 2, 0x68, 0x69, 24, 3, 37, 1, 2, 3, 4]"
    by (simp add: pb_fields_ex_def wire_bytes_def tag_bytes_def varint_rec byte_def)
qed

theorem pb_encoding_exact_witness:
  "\<exists>s k. encode_values pb_fields_ex (pb_ostream_from_buffer (replicate 16 0xA5) 10 :: unit pb_ostream) = (False, s) \<and>
     k \<le> 10 \<and> out s = Buf_write (take k [8, 0xAC, 2, 18, 2, 0x68, 0x69, 24, 3, 37, 1, 2, 3, 4] @ drop k (replicate 16 0xA5)) k"
proof -
  define buf :: bytes where "buf = replicate 16 0xA5"
  obtain ok s where r: "encode_values pb_fields_ex (pb_ostream_from_buffer buf 10 :: unit pb_ostream) = (ok, s)" by force
  have "length (wire_bytes pb_fields_ex) = 14" "length buf = 16" by (simp_all add: pb_fields_ex_wire(2) buf_def)
  then have k: "\<not> ok \<and> (\<exists>k \<le> 10. out s = Buf_write (take k (wire_bytes pb_fields_ex) @ drop k buf) k)"
    using pb_encoding_exact [OF pb_fields_ex_wire(1), of 10 buf] unfolding r Let_def by simp
  then have "ok = False" by blast
  from k r [unfolded this] show ?thesis unfolding pb_fields_ex_wire(2) buf_def by blast
qed

end
