(* ===== verification/Pb_Message.thy ===== *)
theory Pb_Message
  imports Pb_Encode
begin

text \<open>
  nanopb's \<^verbatim>\<open>pb_encode.c\<close>, continued: the encoders of arrays, of fields with a presence flag, of
  callbacks, extensions and submessages, and of messages. What they write is compared with a
  description of the encoded bytes that knows neither streams nor size computations.
\<close>

section \<open>The memory of the program\<close>

text \<open>
  What the encoder reads but does not change: the bytes at each address, the descriptor arrays by
  their addresses, and the functions of the user. An encoder of the user is given the stream, the
  field and the address of its argument, or, for an extension, the stream and the address of the
  extension. Pointers take eight bytes, and \<open>pb_size_t\<close> four.
\<close>

record 's pb_env =
  memory :: "int \<Rightarrow> u8"
  descriptors :: "int \<Rightarrow> pb_field list"
  field_encoders :: "int \<Rightarrow> 's pb_ostream \<Rightarrow> pb_field \<Rightarrow> int \<Rightarrow> bool \<times> 's pb_ostream"
  extension_encoders :: "int \<Rightarrow> 's pb_ostream \<Rightarrow> int \<Rightarrow> bool \<times> 's pb_ostream"

definition load_bool :: "(int \<Rightarrow> u8) \<Rightarrow> int \<Rightarrow> bool" where
  "load_bool m a = safe_read_bool (load m a 1)"

text \<open>The bytes from \<open>a\<close> on up to a zero, and at most \<open>n\<close> of them.\<close>

function load_string :: "(int \<Rightarrow> u8) \<Rightarrow> int \<Rightarrow> nat \<Rightarrow> bytes" where
  "load_string m a n = (if n > 0 \<and> m a \<noteq> 0 then m a # load_string m (a + 1) (n - 1) else [])"
  by auto
termination by (relation "measure (\<lambda>(m, a, n). n)") auto

declare load_string.simps [simp del]

section \<open>Default values\<close>

primrec pb_check_proto3_default_value :: "nat \<Rightarrow> 's pb_env \<Rightarrow> pb_field \<Rightarrow> int \<Rightarrow> bool option" where
  "pb_check_proto3_default_value 0 env field data = None"
| "pb_check_proto3_default_value (Suc fuel) env field data =
     (let m = memory env; htype = PB_HTYPE (type field); atype = PB_ATYPE (type field); ltype = PB_LTYPE (type field);
          pSize = data + size_offset field
      in if htype = PB_HTYPE_REQUIRED then Some False
         else if htype = PB_HTYPE_REPEATED \<and> size_offset field \<noteq> 0 then Some (load_size m pSize = 0)
         else if htype = PB_HTYPE_REPEATED \<and> atype = PB_ATYPE_STATIC then Some False
         else if htype = PB_HTYPE_ONEOF then Some (load_size m pSize = 0)
         else if htype = PB_HTYPE_OPTIONAL \<and> size_offset field \<noteq> 0 then Some (load_bool m pSize = False)
         else if atype = PB_ATYPE_STATIC \<and> ltype = PB_LTYPE_BYTES then Some (load_size m data = 0)
         else if atype = PB_ATYPE_STATIC \<and> ltype = PB_LTYPE_STRING then Some (m data = 0)
         else if atype = PB_ATYPE_STATIC \<and> ltype = PB_LTYPE_FIXED_LENGTH_BYTES then Some (data_size field = 0)
         else if atype = PB_ATYPE_STATIC \<and> ltype = PB_LTYPE_SUBMESSAGE then
           (case pb_field_iter_begin (descriptors env (ptr field)) data of
              (False, iter) \<Rightarrow> Some True
            | (True, iter) \<Rightarrow>
                map_option fst (iter_loop (length (start iter))
                  (\<lambda>iter u. map_option (\<lambda>r. (r, ())) (pb_check_proto3_default_value fuel env (cur_field iter) (pData iter))) iter ()))
         else if atype = PB_ATYPE_POINTER \<and> ltype > PB_LTYPE_LAST_PACKABLE then Some (load_ptr m data = Null)
         else Some (list_all (\<lambda>b. b = 0) (load m data (data_size field))))"

section \<open>Encoders of fields\<close>

text \<open>
  The mutual recursion of the sources goes through \<open>pb_encode\<close>: the functions below take it as the
  argument \<open>enc\<close>, and \<open>pb_encode\<close> passes itself.
\<close>

type_synonym 's msg_encoder = "'s pb_ostream \<Rightarrow> pb_field list \<Rightarrow> int \<Rightarrow> (bool \<times> 's pb_ostream) option"

definition pb_encode_submessage :: "'s msg_encoder \<Rightarrow> 's msg_encoder" where
  "pb_encode_submessage enc stream fs src_struct =
     (case enc PB_OSTREAM_SIZING fs src_struct of
        None \<Rightarrow> None
      | Some (False, substream) \<Rightarrow> Some (False, stream\<lparr>errmsg := errmsg substream\<rparr>)
      | Some (True, substream) \<Rightarrow>
          (let sz = bytes_written substream
           in case pb_encode_varint stream (of_nat sz) of
                (False, stream) \<Rightarrow> Some (False, stream)
              | (True, stream) \<Rightarrow>
                  if is_sizing stream then Some (pb_write stream [] sz)
                  else if size_wrap (bytes_written stream + sz) > max_size stream
                  then Some (False, pb_set_error stream ''stream full'')
                  else (case enc \<lparr>out = out stream, max_size = sz, bytes_written = 0, errmsg = None\<rparr> fs src_struct of
                          None \<Rightarrow> None
                        | Some (status, substream) \<Rightarrow>
                            (let stream = stream\<lparr>bytes_written := size_wrap (bytes_written stream + bytes_written substream),
                                                 out := out substream, errmsg := errmsg substream\<rparr>
                             in if bytes_written substream \<noteq> sz
                                then Some (False, pb_set_error stream ''submsg size changed'')
                                else Some (status, stream)))))"

definition pb_enc_submessage :: "'s pb_env \<Rightarrow> 's msg_encoder \<Rightarrow> 's pb_ostream \<Rightarrow> pb_field \<Rightarrow> int \<Rightarrow> (bool \<times> 's pb_ostream) option" where
  "pb_enc_submessage env enc stream field src =
     (if ptr field = Null then Some (False, pb_set_error stream ''invalid field descriptor'')
      else pb_encode_submessage enc stream (descriptors env (ptr field)) src)"

text \<open>
  The table \<open>PB_ENCODERS\<close>, and the values in memory that its functions are called on. The entry for
  extensions is null, and there are no entries behind the last.
\<close>

definition call_encoder :: "'s pb_env \<Rightarrow> 's msg_encoder \<Rightarrow> 's pb_ostream \<Rightarrow> pb_field \<Rightarrow> int \<Rightarrow> (bool \<times> 's pb_ostream) option" where
  "call_encoder env enc stream field src =
     (let m = memory env; ltype = PB_LTYPE (type field); sz = data_size field
      in if ltype = PB_LTYPE_BOOL then Some (pb_enc_bool stream field (load m src 1))
         else if ltype = PB_LTYPE_VARINT then Some (pb_enc_varint stream field (load m src sz))
         else if ltype = PB_LTYPE_UVARINT then Some (pb_enc_uvarint stream field (load m src sz))
         else if ltype = PB_LTYPE_SVARINT then Some (pb_enc_svarint stream field (load m src sz))
         else if ltype = PB_LTYPE_FIXED32 then Some (pb_enc_fixed32 stream field (load m src 4))
         else if ltype = PB_LTYPE_FIXED64 then Some (pb_enc_fixed64 stream field (load m src 8))
         else if ltype = PB_LTYPE_BYTES then
           Some (pb_enc_bytes stream field (if src = Null then None else Some (load m src (4 + load_size m src))))
         else if ltype = PB_LTYPE_STRING then
           Some (pb_enc_string stream field
             (if src = Null then None
              else Some (load_string m src (if PB_ATYPE (type field) = PB_ATYPE_POINTER then 2 ^ 64 - 1 else sz))))
         else if ltype = PB_LTYPE_SUBMESSAGE then pb_enc_submessage env enc stream field src
         else if ltype = PB_LTYPE_FIXED_LENGTH_BYTES then Some (pb_enc_fixed_length_bytes stream field (load m src sz))
         else None)"

text \<open>\<open>for (i = 0; i < count; i++) { if (!body(p)) return false; p += step; }\<close>\<close>

primrec array_loop :: "nat \<Rightarrow> (int \<Rightarrow> 'a \<Rightarrow> (bool \<times> 'a) option) \<Rightarrow> int \<Rightarrow> nat \<Rightarrow> 'a \<Rightarrow> (bool \<times> 'a) option" where
  "array_loop 0 body p step a = Some (True, a)"
| "array_loop (Suc n) body p step a = then_enc (body p) (array_loop n body (p + int step) step) a"

definition encode_array ::
    "'s pb_env \<Rightarrow> 's msg_encoder \<Rightarrow> 's pb_ostream \<Rightarrow> pb_field \<Rightarrow> int \<Rightarrow> nat \<Rightarrow> (bool \<times> 's pb_ostream) option" where
  "encode_array env enc stream field data count =
     (let ltype = PB_LTYPE (type field); pointer = (PB_ATYPE (type field) = PB_ATYPE_POINTER);
          func = (\<lambda>p stream. call_encoder env enc stream field p)
      in if count = 0 then Some (True, stream)
         else if \<not> pointer \<and> count > array_size field then Some (False, pb_set_error stream ''array max size exceeded'')
         else if ltype \<le> PB_LTYPE_LAST_PACKABLE then
           then_enc (\<lambda>stream. Some (pb_encode_tag stream PB_WT_STRING (tag field)))
             (\<lambda>stream.
                case (if ltype = PB_LTYPE_FIXED32 then Some (True, size_wrap (4 * count))
                      else if ltype = PB_LTYPE_FIXED64 then Some (True, size_wrap (8 * count))
                      else map_option (\<lambda>(ok, sizestream). (ok, bytes_written sizestream))
                             (array_loop count func data (data_size field) PB_OSTREAM_SIZING)) of
                  None \<Rightarrow> None
                | Some (False, sz) \<Rightarrow> Some (False, stream)
                | Some (True, sz) \<Rightarrow>
                    then_enc (\<lambda>stream. Some (pb_encode_varint stream (of_nat sz)))
                      (\<lambda>stream. if is_sizing stream then Some (pb_write stream [] sz)
                                else array_loop count func data (data_size field) stream) stream) stream
         else
           array_loop count
             (\<lambda>p. then_enc (\<lambda>stream. Some (pb_encode_tag_for_field stream field))
                    (func (if pointer \<and> ltype \<in> {PB_LTYPE_STRING, PB_LTYPE_BYTES} then load_ptr (memory env) p else p)))
             data (data_size field) stream)"

text \<open>
  Presence is a flag or a count at \<open>size_offset\<close> from the data, or, without one, follows from the data;
  a oneof field always has its selector there.
\<close>

definition encode_basic_field ::
    "nat \<Rightarrow> 's pb_env \<Rightarrow> 's msg_encoder \<Rightarrow> 's pb_ostream \<Rightarrow> pb_field \<Rightarrow> int \<Rightarrow> (bool \<times> 's pb_ostream) option" where
  "encode_basic_field fuel env enc stream field data =
     (let m = memory env; htype = PB_HTYPE (type field); pSize = data + size_offset field;
          pointer = (PB_ATYPE (type field) = PB_ATYPE_POINTER)
      in case (if size_offset field \<noteq> 0 then Some True
               else if htype = PB_HTYPE_OPTIONAL then map_option Not (pb_check_proto3_default_value fuel env field data)
               else Some True) of
           None \<Rightarrow> None
         | Some implicit_has \<Rightarrow>
             (let data = (if pointer then load_ptr m data else data);
                  implicit_has = (if pointer then data \<noteq> Null else implicit_has);
                  tagged = then_enc (\<lambda>stream. Some (pb_encode_tag_for_field stream field)) (\<lambda>stream. call_encoder env enc stream field data)
              in if htype = PB_HTYPE_REQUIRED then
                   (if data = Null then Some (False, pb_set_error stream ''missing required field'') else tagged stream)
                 else if htype = PB_HTYPE_OPTIONAL then
                   (if (if size_offset field \<noteq> 0 then load_bool m pSize else implicit_has) then tagged stream
                    else Some (True, stream))
                 else if htype = PB_HTYPE_REPEATED then
                   encode_array env enc stream field data (if size_offset field \<noteq> 0 then load_size m pSize else array_size field)
                 else if htype = PB_HTYPE_ONEOF then
                   (if load_size m pSize = unat (tag field) then tagged stream else Some (True, stream))
                 else Some (False, pb_set_error stream ''invalid field type'')))"

text \<open>A \<open>pb_callback_t\<close> holds the address of its function and, after it, its argument.\<close>

definition encode_callback_field :: "'s pb_env \<Rightarrow> 's pb_ostream \<Rightarrow> pb_field \<Rightarrow> int \<Rightarrow> bool \<times> 's pb_ostream" where
  "encode_callback_field env stream field data =
     (let encode = load_ptr (memory env) data; arg = data + 8
      in if encode \<noteq> Null then
           (case field_encoders env encode stream field arg of
              (False, stream) \<Rightarrow> (False, pb_set_error stream ''callback error'')
            | (True, stream) \<Rightarrow> (True, stream))
         else (True, stream))"

definition encode_field ::
    "nat \<Rightarrow> 's pb_env \<Rightarrow> 's msg_encoder \<Rightarrow> 's pb_ostream \<Rightarrow> pb_field \<Rightarrow> int \<Rightarrow> (bool \<times> 's pb_ostream) option" where
  "encode_field fuel env enc stream field data =
     (let atype = PB_ATYPE (type field)
      in if atype = PB_ATYPE_STATIC \<or> atype = PB_ATYPE_POINTER then encode_basic_field fuel env enc stream field data
         else if atype = PB_ATYPE_CALLBACK then Some (encode_callback_field env stream field data)
         else Some (False, pb_set_error stream ''invalid field type''))"

text \<open>
  The members of a \<open>pb_extension_t\<close> are the addresses of its type, of its data and of the next
  extension, and of a \<open>pb_extension_type_t\<close> its decoder, its encoder and its argument.
\<close>

definition extension_type :: "(int \<Rightarrow> u8) \<Rightarrow> int \<Rightarrow> int" where "extension_type m ext = load_ptr m ext"
definition extension_dest :: "(int \<Rightarrow> u8) \<Rightarrow> int \<Rightarrow> int" where "extension_dest m ext = load_ptr m (ext + 8)"
definition extension_next :: "(int \<Rightarrow> u8) \<Rightarrow> int \<Rightarrow> int" where "extension_next m ext = load_ptr m (ext + 16)"
definition type_encode :: "(int \<Rightarrow> u8) \<Rightarrow> int \<Rightarrow> int" where "type_encode m t = load_ptr m (t + 8)"
definition type_arg :: "(int \<Rightarrow> u8) \<Rightarrow> int \<Rightarrow> int" where "type_arg m t = load_ptr m (t + 16)"

definition default_extension_encoder ::
    "nat \<Rightarrow> 's pb_env \<Rightarrow> 's msg_encoder \<Rightarrow> 's pb_ostream \<Rightarrow> int \<Rightarrow> (bool \<times> 's pb_ostream) option" where
  "default_extension_encoder fuel env enc stream extension =
     (let m = memory env; field = descriptors env (type_arg m (extension_type m extension)) ! 0
      in if PB_ATYPE (type field) = PB_ATYPE_POINTER then encode_field fuel env enc stream field (extension + 8)
         else encode_field fuel env enc stream field (extension_dest m extension))"

text \<open>The loop over the list of extensions.\<close>

primrec extension_loop ::
    "nat \<Rightarrow> nat \<Rightarrow> 's pb_env \<Rightarrow> 's msg_encoder \<Rightarrow> int \<Rightarrow> 's pb_ostream \<Rightarrow> (bool \<times> 's pb_ostream) option" where
  "extension_loop 0 fuel env enc extension stream = None"
| "extension_loop (Suc n) fuel env enc extension stream =
     (let m = memory env
      in if extension = Null then Some (True, stream)
         else then_enc
           (\<lambda>stream. if type_encode m (extension_type m extension) \<noteq> Null
              then Some (extension_encoders env (type_encode m (extension_type m extension)) stream extension)
              else default_extension_encoder fuel env enc stream extension)
           (extension_loop n fuel env enc (extension_next m extension)) stream)"

definition encode_extension_field ::
    "nat \<Rightarrow> 's pb_env \<Rightarrow> 's msg_encoder \<Rightarrow> 's pb_ostream \<Rightarrow> pb_field \<Rightarrow> int \<Rightarrow> (bool \<times> 's pb_ostream) option" where
  "encode_extension_field fuel env enc stream field data =
     extension_loop (Suc fuel) fuel env enc (load_ptr (memory env) data) stream"

section \<open>Encoders of messages\<close>

text \<open>
  The bound counts the nesting of messages; at each depth it bounds the nesting of default values and
  the number of extensions of a field, too.
\<close>

primrec pb_encode :: "nat \<Rightarrow> 's pb_env \<Rightarrow> 's msg_encoder" where
  "pb_encode 0 env = (\<lambda>stream fs src_struct. None)"
| "pb_encode (Suc fuel) env = (\<lambda>stream fs src_struct.
     case pb_field_iter_begin fs src_struct of
       (False, iter) \<Rightarrow> Some (True, stream)
     | (True, iter) \<Rightarrow>
         iter_loop (length fs)
           (\<lambda>iter stream.
              if PB_LTYPE (type (cur_field iter)) = PB_LTYPE_EXTENSION
              then encode_extension_field fuel env (pb_encode fuel env) stream (cur_field iter) (pData iter)
              else encode_field fuel env (pb_encode fuel env) stream (cur_field iter) (pData iter)) iter stream)"

definition pb_encode_delimited :: "nat \<Rightarrow> 's pb_env \<Rightarrow> 's msg_encoder" where
  "pb_encode_delimited fuel env stream fs src_struct = pb_encode_submessage (pb_encode fuel env) stream fs src_struct"

definition pb_encode_nullterminated :: "nat \<Rightarrow> 's pb_env \<Rightarrow> 's msg_encoder" where
  "pb_encode_nullterminated fuel env stream fs src_struct =
     then_enc (\<lambda>stream. pb_encode fuel env stream fs src_struct) (\<lambda>stream. Some (pb_write stream [0] 1)) stream"

text \<open>\<open>*size\<close> when the result is true.\<close>

definition pb_get_encoded_size :: "nat \<Rightarrow> 's pb_env \<Rightarrow> pb_field list \<Rightarrow> int \<Rightarrow> nat option option" where
  "pb_get_encoded_size fuel env fs src_struct =
     (case pb_encode fuel env PB_OSTREAM_SIZING fs src_struct of
        None \<Rightarrow> None
      | Some (False, stream) \<Rightarrow> Some None
      | Some (True, stream) \<Rightarrow> Some (Some (bytes_written stream)))"

section \<open>The encoded bytes\<close>

text \<open>
  A description of what a message is encoded to, without streams: the bytes, and the error that ends
  them. It follows the fields in their order; a submessage is its length and its bytes. What the
  functions of the user write is given. \<open>None\<close> is left for messages that are nested too deeply for
  the bound, for parts of more than \<open>2 ^ 63\<close> bytes, and for malformed descriptor arrays.
\<close>

record user_encoders =
  field_out :: "int \<Rightarrow> pb_field \<Rightarrow> int \<Rightarrow> outcome"
  extension_out :: "int \<Rightarrow> int \<Rightarrow> outcome"

definition fail_out :: "string \<Rightarrow> outcome" where
  "fail_out msg = ([], Some (Some msg))"

definition then_spec :: "outcome option \<Rightarrow> outcome option \<Rightarrow> outcome option" where
  "then_spec r1 r2 =
     (case r1 of
        None \<Rightarrow> None
      | Some r1 \<Rightarrow> if snd r1 = None then map_option (then_out r1) r2 else Some r1)"

definition all_spec :: "outcome option list \<Rightarrow> outcome option" where
  "all_spec rs = foldr then_spec rs (Some ([], None))"

definition int_out :: "u64 option \<Rightarrow> outcome" where
  "int_out r = (case r of None \<Rightarrow> fail_out ''invalid data_size'' | Some v \<Rightarrow> (varint (unat v), None))"

definition string_out :: "bytes \<Rightarrow> outcome" where
  "string_out bs = (varint (length bs) @ bs, None)"

definition sized_out :: "outcome \<Rightarrow> outcome option" where
  "sized_out r =
     (if length (fst r) \<ge> 2 ^ 63 then None else if snd r = None then Some (string_out (fst r)) else Some ([], snd r))"

definition bytes_out :: "(int \<Rightarrow> u8) \<Rightarrow> pb_field \<Rightarrow> int \<Rightarrow> outcome" where
  "bytes_out m field src =
     (if src = Null then string_out []
      else if PB_ATYPE (type field) = PB_ATYPE_STATIC \<and> load_size m src + 4 > data_size field
      then fail_out ''bytes size exceeded''
      else string_out (load m (src + 4) (load_size m src)))"

type_synonym submessage_out = "pb_field list \<Rightarrow> int \<Rightarrow> outcome option"

definition value_out :: "'s pb_env \<Rightarrow> submessage_out \<Rightarrow> pb_field \<Rightarrow> int \<Rightarrow> outcome option" where
  "value_out env sub field src =
     (let m = memory env; ltype = PB_LTYPE (type field); sz = data_size field
      in if ltype = PB_LTYPE_BOOL then Some (varint (if load_bool m src then 1 else 0), None)
         else if ltype = PB_LTYPE_VARINT then Some (int_out (read_signed sz (load m src sz)))
         else if ltype = PB_LTYPE_UVARINT then Some (int_out (read_unsigned sz (load m src sz)))
         else if ltype = PB_LTYPE_SVARINT then Some (int_out (map_option zigzag (read_signed sz (load m src sz))))
         else if ltype = PB_LTYPE_FIXED32 then Some (load m src 4, None)
         else if ltype = PB_LTYPE_FIXED64 then Some (load m src 8, None)
         else if ltype = PB_LTYPE_BYTES then Some (bytes_out m field src)
         else if ltype = PB_LTYPE_STRING then
           Some (string_out (if src = Null then [] else load_string m src (if PB_ATYPE (type field) = PB_ATYPE_POINTER then 2 ^ 64 - 1 else sz)))
         else if ltype = PB_LTYPE_SUBMESSAGE then
           (if ptr field = Null then Some (fail_out ''invalid field descriptor'')
            else Option.bind (sub (descriptors env (ptr field)) src) sized_out)
         else if ltype = PB_LTYPE_FIXED_LENGTH_BYTES then Some (string_out (load m src sz))
         else None)"

definition tag_out :: "pb_wire_type \<Rightarrow> u32 \<Rightarrow> outcome" where
  "tag_out w t = (varint (unat t * 8 + unat (wire_code w)), None)"

definition field_tag_out :: "pb_field \<Rightarrow> outcome" where
  "field_tag_out field =
     (case wire_type_of (PB_LTYPE (type field)) of
        None \<Rightarrow> fail_out ''invalid field type''
      | Some w \<Rightarrow> tag_out w (tag field))"

definition tagged_out :: "'s pb_env \<Rightarrow> submessage_out \<Rightarrow> pb_field \<Rightarrow> int \<Rightarrow> outcome option" where
  "tagged_out env sub field src = then_spec (Some (field_tag_out field)) (value_out env sub field src)"

definition packed_out :: "outcome \<Rightarrow> outcome option" where
  "packed_out r = map_option (\<lambda>p. (fst p, map_option (\<lambda>_. None) (snd p))) (sized_out r)"

definition array_out :: "'s pb_env \<Rightarrow> submessage_out \<Rightarrow> pb_field \<Rightarrow> int \<Rightarrow> nat \<Rightarrow> outcome option" where
  "array_out env sub field data count =
     (let items = map (\<lambda>i. data + int (i * data_size field)) [0..<count]; pointer = (PB_ATYPE (type field) = PB_ATYPE_POINTER);
          ltype = PB_LTYPE (type field)
      in if count = 0 then Some ([], None)
         else if \<not> pointer \<and> count > array_size field then Some (fail_out ''array max size exceeded'')
         else if ltype \<le> PB_LTYPE_LAST_PACKABLE then
           then_spec (Some (tag_out PB_WT_STRING (tag field)))
             (Option.bind (all_spec (map (value_out env sub field) items)) packed_out)
         else all_spec (map (\<lambda>p. tagged_out env sub field
             (if pointer \<and> ltype \<in> {PB_LTYPE_STRING, PB_LTYPE_BYTES} then load_ptr (memory env) p else p)) items))"

definition basic_out :: "nat \<Rightarrow> 's pb_env \<Rightarrow> submessage_out \<Rightarrow> pb_field \<Rightarrow> int \<Rightarrow> outcome option" where
  "basic_out fuel env sub field data =
     (let m = memory env; htype = PB_HTYPE (type field); pSize = data + size_offset field;
          pointer = (PB_ATYPE (type field) = PB_ATYPE_POINTER); src = (if pointer then load_ptr m data else data)
      in if htype = PB_HTYPE_REQUIRED then
           (if src = Null then Some (fail_out ''missing required field'') else tagged_out env sub field src)
         else if htype = PB_HTYPE_OPTIONAL then
           (if size_offset field = 0 \<and> pb_check_proto3_default_value fuel env field data = None then None
            else if (if size_offset field \<noteq> 0 then load_bool m pSize
                     else if pointer then src \<noteq> Null
                     else pb_check_proto3_default_value fuel env field data = Some False)
            then tagged_out env sub field src
            else Some ([], None))
         else if htype = PB_HTYPE_REPEATED then
           array_out env sub field src (if size_offset field \<noteq> 0 then load_size m pSize else array_size field)
         else if load_size m pSize = unat (tag field) then tagged_out env sub field src
         else Some ([], None))"

definition callback_out :: "'s pb_env \<Rightarrow> user_encoders \<Rightarrow> pb_field \<Rightarrow> int \<Rightarrow> outcome" where
  "callback_out env user field data =
     (let encode = load_ptr (memory env) data
      in if encode = Null then ([], None)
         else case field_out user encode field (data + 8) of
                (bs, Some None) \<Rightarrow> (bs, Some (Some ''callback error''))
              | r \<Rightarrow> r)"

definition any_field_out :: "nat \<Rightarrow> 's pb_env \<Rightarrow> user_encoders \<Rightarrow> submessage_out \<Rightarrow> pb_field \<Rightarrow> int \<Rightarrow> outcome option" where
  "any_field_out fuel env user sub field data =
     (if PB_ATYPE (type field) \<in> {PB_ATYPE_STATIC, PB_ATYPE_POINTER} then basic_out fuel env sub field data
      else if PB_ATYPE (type field) = PB_ATYPE_CALLBACK then Some (callback_out env user field data)
      else Some (fail_out ''invalid field type''))"

definition one_extension_out :: "nat \<Rightarrow> 's pb_env \<Rightarrow> user_encoders \<Rightarrow> submessage_out \<Rightarrow> int \<Rightarrow> outcome option" where
  "one_extension_out fuel env user sub ext =
     (let m = memory env; t = extension_type m ext; field = descriptors env (type_arg m t) ! 0
      in if type_encode m t \<noteq> Null then Some (extension_out user (type_encode m t) ext)
         else any_field_out fuel env user sub field
           (if PB_ATYPE (type field) = PB_ATYPE_POINTER then ext + 8 else extension_dest m ext))"

primrec extensions_out :: "nat \<Rightarrow> nat \<Rightarrow> 's pb_env \<Rightarrow> user_encoders \<Rightarrow> submessage_out \<Rightarrow> int \<Rightarrow> outcome option" where
  "extensions_out 0 fuel env user sub ext = None"
| "extensions_out (Suc n) fuel env user sub ext =
     (if ext = Null then Some ([], None)
      else then_spec (one_extension_out fuel env user sub ext)
        (extensions_out n fuel env user sub (extension_next (memory env) ext)))"

primrec message_out :: "nat \<Rightarrow> 's pb_env \<Rightarrow> user_encoders \<Rightarrow> submessage_out" where
  "message_out 0 env user = (\<lambda>fs src. None)"
| "message_out (Suc fuel) env user = (\<lambda>fs src.
     if tag (fs ! 0) = 0 then Some ([], None)
     else if \<not> fields_wf fs then None
     else all_spec (map (\<lambda>k. let data = pData (iter_at fs src k) in
       if PB_LTYPE (type (fs ! k)) = PB_LTYPE_EXTENSION
       then extensions_out (Suc fuel) fuel env user (message_out fuel env user) (load_ptr (memory env) data)
       else any_field_out fuel env user (message_out fuel env user) (fs ! k) data) [0..<num_fields fs]))"

section \<open>The encoders write the described bytes\<close>

lemmas ltype_defs =
  PB_LTYPE_BOOL_def PB_LTYPE_VARINT_def PB_LTYPE_UVARINT_def PB_LTYPE_SVARINT_def PB_LTYPE_FIXED32_def PB_LTYPE_FIXED64_def
  PB_LTYPE_BYTES_def PB_LTYPE_STRING_def PB_LTYPE_SUBMESSAGE_def PB_LTYPE_EXTENSION_def PB_LTYPE_FIXED_LENGTH_BYTES_def

definition meets :: "('s pb_ostream \<Rightarrow> (bool \<times> 's pb_ostream) option) \<Rightarrow> outcome option \<Rightarrow> bool" where
  "meets e ro \<longleftrightarrow> (\<forall>r. ro = Some r \<longrightarrow> yields e r)"

lemma meets_None [simp]: "meets e None" and meets_Some [simp]: "meets e (Some r) = yields e r"
  by (simp_all add: meets_def)

lemma yields_short: "(length (fst r) < 2 ^ 63 \<Longrightarrow> yields e r) \<Longrightarrow> yields e r"
  by (auto simp: yields_def)

lemma meets_then:
  assumes "meets e1 r1" "meets e2 r2"
  shows "meets (then_enc e1 e2) (then_spec r1 r2)"
proof (cases r1)
  case (Some r)
  have y1: "yields e1 r" using assms(1) Some by simp
  show ?thesis
  proof (cases "snd r = None \<and> r2 \<noteq> None")
    case True
    then obtain r' where r': "r2 = Some r'" by auto
    then show ?thesis using yields_then [OF y1, of e2 r'] assms(2) Some True by (simp add: then_spec_def)
  next
    case False
    then show ?thesis using yields_then [OF y1, of e2] Some by (cases r2) (auto simp: then_spec_def then_out_def)
  qed
qed (simp add: then_spec_def)

lemma all_spec_simps [simp]: "all_spec [] = Some ([], None)" "all_spec (r # rs) = then_spec r (all_spec rs)"
  by (simp_all add: all_spec_def)

lemma meets_all:
  "list_all2 meets es rs \<Longrightarrow> meets (all_enc es) (all_spec rs)"
  by (induction rule: list_all2_induct) (simp_all add: yields_error(3) meets_then)

lemma meets_if:
  "(c \<Longrightarrow> meets e1 r1) \<Longrightarrow> (\<not> c \<Longrightarrow> meets e2 r2) \<Longrightarrow> meets (\<lambda>a. if c then e1 a else e2 a) (if c then r1 else r2)"
  by simp

lemma meets_fail: "yields (\<lambda>stream. Some (False, pb_set_error stream msg)) (fail_out msg)"
  unfolding fail_out_def by (rule yields_error(1))

lemma array_loop_eq:
  "array_loop n body p step = all_enc (map (\<lambda>i. body (p + int (i * step))) [0..<n])"
proof (induction n arbitrary: p)
  case (Suc n)
  have "[0..<Suc n] = 0 # map Suc [0..<n]" by (simp add: upt_conv_Cons map_Suc_upt)
  then show ?case by (simp add: Suc.IH fun_eq_iff comp_def algebra_simps)
qed (simp add: fun_eq_iff)

lemma load_string_length: "length (load_string m a n) \<le> n" "string_size (load_string m a n) n = length (load_string m a n)"
proof -
  have "length (load_string m a n) \<le> n \<and> string_size (load_string m a n) n = length (load_string m a n)"
  proof (induction m a n rule: load_string.induct)
    case (1 m a n)
    then show ?case by (subst (1 2 3) load_string.simps) auto
  qed
  then show "length (load_string m a n) \<le> n" "string_size (load_string m a n) n = length (load_string m a n)" by simp_all
qed

lemma unat_safe_bool: "unat (if b then 1 else 0 :: u64) = (if b then 1 else 0)"
  by simp

lemma yields_string:
  "yields (\<lambda>stream. Some (pb_encode_string stream buf sz)) (string_out bs)"
  if "bs = take sz buf" "sz \<le> length buf"
  by (rule yields_short) (use that emits_string [of sz buf] in \<open>simp add: string_out_def min_absorb2\<close>)

lemma yields_tag:
  assumes "w \<in> {PB_WT_VARINT, PB_WT_64BIT, PB_WT_STRING, PB_WT_32BIT}"
  shows "yields (\<lambda>stream. Some (pb_encode_tag stream w t)) (tag_out w t)"
  using emits_tag [of w t] assms unfolding tag_out_def by auto

lemma yields_field_tag: "yields (\<lambda>stream. Some (pb_encode_tag_for_field stream field)) (field_tag_out field)"
proof (cases "wire_type_of (PB_LTYPE (type field))")
  case None
  then show ?thesis by (simp add: pb_encode_tag_for_field_def field_tag_out_def meets_fail)
next
  case (Some w)
  then have "w \<in> {PB_WT_VARINT, PB_WT_64BIT, PB_WT_STRING, PB_WT_32BIT}" by (auto simp: wire_type_of_def split: if_splits)
  then show ?thesis using Some by (simp add: pb_encode_tag_for_field_def field_tag_out_def yields_tag)
qed

lemma yields_int:
  "yields (\<lambda>stream. Some (case r of None \<Rightarrow> (False, pb_set_error stream ''invalid data_size'') | Some v \<Rightarrow> pb_encode_varint stream v)) (int_out r)"
  by (cases r) (simp_all add: int_out_def meets_fail emits_varint)

lemma yields_bytes:
  "yields (\<lambda>stream. Some (pb_enc_bytes stream field (if src = Null then None else Some (load m src (4 + load_size m src))))) (bytes_out m field src)"
proof (cases "src = Null")
  case True
  then show ?thesis using yields_string [of "[]" 0 "[]"] by (simp add: pb_enc_bytes_def bytes_out_def)
next
  case False
  let ?n = "load_size m src"
  have al: "PB_BYTES_ARRAY_T_ALLOCSIZE ?n = ?n + 4"
    using load_size_less [of m src] by (simp add: PB_BYTES_ARRAY_T_ALLOCSIZE_def)
  have sz: "le_val (take 4 (load m src (4 + ?n))) = ?n" by (simp add: load_take_drop load_size_def)
  show ?thesis
    using False yields_string [of "load m (src + 4) ?n" ?n "load m (src + 4) ?n"] meets_fail
    by (auto simp: pb_enc_bytes_def bytes_out_def Let_def al sz load_take_drop(2) [of 4, simplified])
qed

lemma yields_enc_int:
  "yields (\<lambda>stream. Some (pb_enc_varint stream field src)) (int_out (read_signed (data_size field) src))"
  "yields (\<lambda>stream. Some (pb_enc_uvarint stream field src)) (int_out (read_unsigned (data_size field) src))"
  "yields (\<lambda>stream. Some (pb_enc_svarint stream field src)) (int_out (map_option zigzag (read_signed (data_size field) src)))"
  unfolding pb_enc_varint_def pb_enc_uvarint_def pb_enc_svarint_def
  by (simp_all add: yields_int) (cases "read_signed (data_size field) src"; simp add: int_out_def meets_fail emits_svarint)

lemma yields_enc_fixed:
  "yields (\<lambda>stream. Some (pb_enc_fixed32 stream field (load m src 4))) (load m src 4, None)"
  "yields (\<lambda>stream. Some (pb_enc_fixed64 stream field (load m src 8))) (load m src 8, None)"
  using emits_fixed [of "load m src 4"] emits_fixed [of "load m src 8"] by (simp_all add: pb_enc_fixed32_def pb_enc_fixed64_def)

lemma yields_enc_string:
  "yields (\<lambda>stream. Some (pb_enc_string stream field
      (if src = Null then None else Some (load_string m src (if PB_ATYPE (type field) = PB_ATYPE_POINTER then 2 ^ 64 - 1 else data_size field)))))
    (string_out (if src = Null then [] else load_string m src (if PB_ATYPE (type field) = PB_ATYPE_POINTER then 2 ^ 64 - 1 else data_size field)))"
  unfolding pb_enc_string_def Let_def
  by (cases "src = Null") (simp_all add: load_string_length yields_string)

lemma yields_enc_fixed_length:
  "yields (\<lambda>stream. Some (pb_enc_fixed_length_bytes stream field (load m src (data_size field)))) (string_out (load m src (data_size field)))"
  unfolding pb_enc_fixed_length_bytes_def by (rule yields_string) simp_all

text \<open>A submessage is encoded twice: once to know its size, and then within this size.\<close>

lemma yields_size:
  assumes "yields e (bs, er)" "length bs < 2 ^ 63"
  shows "e PB_OSTREAM_SIZING = Some (er = None, \<lparr>out = Sizing, max_size = 0, bytes_written = length bs, errmsg = msg_of er\<rparr>)"
  using yields_sizing [OF assms(1) _ ostream_wf_fresh(1) fresh_out(1)] assms(2) by (simp add: PB_OSTREAM_SIZING_def)

text \<open>What follows the length, when the size computation has succeeded.\<close>

definition submessage_body :: "('s pb_ostream \<Rightarrow> (bool \<times> 's pb_ostream) option) \<Rightarrow> nat \<Rightarrow> 's pb_ostream \<Rightarrow> (bool \<times> 's pb_ostream) option" where
  "submessage_body e sz stream =
     (if is_sizing stream then Some (pb_write stream [] sz)
      else if size_wrap (bytes_written stream + sz) > max_size stream
      then Some (False, pb_set_error stream ''stream full'')
      else (case e \<lparr>out = out stream, max_size = sz, bytes_written = 0, errmsg = None\<rparr> of
              None \<Rightarrow> None
            | Some (status, substream) \<Rightarrow>
                (let stream = stream\<lparr>bytes_written := size_wrap (bytes_written stream + bytes_written substream),
                                     out := out substream, errmsg := errmsg substream\<rparr>
                 in if bytes_written substream \<noteq> sz
                    then Some (False, pb_set_error stream ''submsg size changed'')
                    else Some (status, stream))))"

lemma pb_encode_submessage_eq:
  assumes "enc PB_OSTREAM_SIZING fs src = Some (True, substream)"
  shows "pb_encode_submessage enc stream fs src =
     then_enc (\<lambda>stream. Some (pb_encode_varint stream (of_nat (bytes_written substream))))
       (submessage_body (\<lambda>stream. enc stream fs src) (bytes_written substream)) stream"
  by (cases "pb_encode_varint stream (of_nat (bytes_written substream))"; cases "fst (pb_encode_varint stream (of_nat (bytes_written substream)))")
    (simp_all add: pb_encode_submessage_def assms then_enc_def submessage_body_def Let_def)

lemma yields_submessage_body:
  assumes "yields e (bs, None)"
  shows "yields (submessage_body e (length bs)) (bs, None)"
proof (rule yieldsI)
  fix stream :: "'a pb_ostream"
  assume "ostream_wf stream" "out stream = Sizing"
  then show "\<exists>res. submessage_body e (length bs) stream = Some res \<and> counts stream (bs, None) res"
    by (simp add: submessage_body_def is_sizing_def pb_write_def counts_def msg_of_def ostream_wf_def)
next
  fix stream :: "'a pb_ostream" and mem dest
  assume len: "length (fst (bs, None :: string option option)) < 2 ^ 63" and wf: "ostream_wf stream" and o': "out stream = Buf_write mem dest"
  note d = ostream_wf_buffer [OF wf o']
  have sw: "size_wrap (bytes_written stream + length bs) = bytes_written stream + length bs" using len d(2,6) by simp
  show "\<exists>res. submessage_body e (length bs) stream = Some res \<and> stores stream mem dest (bs, None) res"
  proof (cases "bytes_written stream + length bs \<le> max_size stream")
    case True
    let ?sub = "\<lparr>out = out stream, max_size = length bs, bytes_written = 0, errmsg = None\<rparr>"
    have "ostream_wf ?sub" using True d len by (simp add: ostream_wf_def o')
    from yields_buffer [OF assms len this, of mem dest]
    have "e ?sub = Some (True, stored ?sub mem dest bs None)" by (auto simp: o' stores_def msg_of_def)
    then have "submessage_body e (length bs) stream = Some (True, stored stream mem dest bs None)"
      using True o' sw by (cases stream) (simp add: submessage_body_def is_sizing_def stored_def)
    then show ?thesis using True by (simp add: stores_def msg_of_def)
  next
    case False
    then have "submessage_body e (length bs) stream = Some (False, stored stream mem dest (take 0 bs) (Some ''stream full''))"
      using o' d(3) by (simp add: submessage_body_def is_sizing_def sw pb_set_error_def stored_nothing)
    moreover have "0 < length bs" using False d(2) by (cases bs) simp_all
    moreover have "bytes_written stream + 0 \<le> max_size stream" using d(2) by simp
    ultimately show ?thesis using False unfolding stores_def by (metis fst_conv)
  qed
qed

lemma meets_submessage:
  assumes "meets (\<lambda>stream. enc stream fs src) r"
  shows "meets (\<lambda>stream. pb_encode_submessage enc stream fs src) (Option.bind r sized_out)"
proof (cases r)
  case (Some r1)
  obtain bs er where r1: "r1 = (bs, er)" by force
  show ?thesis
  proof (cases "length bs < 2 ^ 63")
    case True
    have y: "yields (\<lambda>stream. enc stream fs src) (bs, er)" using assms Some r1 by simp
    note z = yields_size [OF y True]
    show ?thesis
    proof (cases er)
      case None
      have v: "yields (\<lambda>stream. Some (pb_encode_varint stream (of_nat (length bs)))) (varint (length bs), None)"
        using emits_varint [of "of_nat (length bs)"] unat_of_nat_u64 [of "length bs"] True by simp
      have "yields (then_enc (\<lambda>stream. Some (pb_encode_varint stream (of_nat (length bs)))) (submessage_body (\<lambda>stream. enc stream fs src) (length bs)))
          (string_out bs)"
        using yields_then [OF v yields_submessage_body, of "\<lambda>stream. enc stream fs src" bs] y None by (simp add: then_out_def string_out_def)
      then have "yields (\<lambda>stream. pb_encode_submessage enc stream fs src) (string_out bs)"
        by (rule yields_cong [rotated]) (use z None in \<open>simp add: pb_encode_submessage_eq\<close>)
      then show ?thesis using Some r1 None True by (simp add: sized_out_def)
    next
      case er: (Some m)
      have "yields (\<lambda>stream. Some (False, stream\<lparr>errmsg := m\<rparr>)) ([], er)"
        by (rule yieldsI) (auto simp: counts_def stores_def stored_nothing msg_of_def ostream_wf_def er)
      then have "yields (\<lambda>stream. pb_encode_submessage enc stream fs src) ([], er)"
        by (rule yields_cong [rotated]) (use z er in \<open>simp add: pb_encode_submessage_def msg_of_def\<close>)
      then show ?thesis using Some r1 er True by (simp add: sized_out_def)
    qed
  qed (use Some r1 in \<open>simp add: sized_out_def\<close>)
qed simp

lemma meets_value:
  assumes "\<And>fs src. meets (\<lambda>stream. enc stream fs src) (sub fs src)"
  shows "meets (\<lambda>stream. call_encoder env enc stream field src) (value_out env sub field src)"
proof -
  let ?m = "memory env"
  have b: "yields (\<lambda>stream. Some (pb_enc_bool stream field (load ?m src 1))) (varint (if load_bool ?m src then 1 else 0), None)"
    using emits_varint [of "if load_bool ?m src then 1 else 0"] unfolding unat_safe_bool by (simp add: pb_enc_bool_def load_bool_def)
  have s: "meets (\<lambda>stream. pb_enc_submessage env enc stream field src)
      (if ptr field = Null then Some (fail_out ''invalid field descriptor'') else Option.bind (sub (descriptors env (ptr field)) src) sized_out)"
    using meets_submessage [OF assms] by (auto simp: pb_enc_submessage_def meets_fail)
  show ?thesis
    unfolding call_encoder_def value_out_def Let_def
    by (intro meets_if)
      (simp_all only: meets_Some meets_None b s yields_enc_int yields_enc_fixed yields_bytes yields_enc_string yields_enc_fixed_length)
qed

text \<open>Arrays: one item after another, or their total size and then the items.\<close>

lemma meets_array_loop:
  assumes "\<And>p. meets (body p) (spec p)"
  shows "meets (array_loop n body p step) (all_spec (map spec (map (\<lambda>i. p + int (i * step)) [0..<n])))"
  unfolding array_loop_eq by (rule meets_all) (simp add: list_all2_conv_all_nth assms)

lemma yields_skip_when_sizing:
  assumes "yields e (bs, None)"
  shows "yields (\<lambda>stream. if is_sizing stream then Some (pb_write stream [] (length bs)) else e stream) (bs, None)"
proof (rule yieldsI)
  fix stream :: "'a pb_ostream"
  assume "ostream_wf stream" "out stream = Sizing"
  then show "\<exists>res. (if is_sizing stream then Some (pb_write stream [] (length bs)) else e stream) = Some res \<and> counts stream (bs, None) res"
    by (simp add: is_sizing_def pb_write_def counts_def msg_of_def ostream_wf_def)
next
  fix stream :: "'a pb_ostream" and mem dest
  assume "length (fst (bs, None :: string option option)) < 2 ^ 63" "ostream_wf stream" "out stream = Buf_write mem dest"
  from yields_buffer [OF assms this]
  show "\<exists>res. (if is_sizing stream then Some (pb_write stream [] (length bs)) else e stream) = Some res \<and> stores stream mem dest (bs, None) res"
    by (simp add: is_sizing_def \<open>out stream = Buf_write mem dest\<close>)
qed

lemma meets_packed:
  assumes e: "meets e r"
    and sz: "\<And>bs er. r = Some (bs, er) \<Longrightarrow> length bs < 2 ^ 63 \<Longrightarrow> \<exists>n. szr = Some (er = None, n) \<and> (er = None \<longrightarrow> n = length bs)"
  shows "meets (\<lambda>stream. case szr of None \<Rightarrow> None | Some (False, sz) \<Rightarrow> Some (False, stream)
      | Some (True, sz) \<Rightarrow> then_enc (\<lambda>stream. Some (pb_encode_varint stream (of_nat sz)))
          (\<lambda>stream. if is_sizing stream then Some (pb_write stream [] sz) else e stream) stream) (Option.bind r packed_out)"
proof (cases r)
  case (Some r1)
  obtain bs er where r1: "r1 = (bs, er)" by force
  show ?thesis
  proof (cases "length bs < 2 ^ 63")
    case True
    obtain n where n: "szr = Some (er = None, n)" "er = None \<Longrightarrow> n = length bs" using sz [of bs er] Some r1 True by auto
    show ?thesis
    proof (cases er)
      case None
      have v: "yields (\<lambda>stream. Some (pb_encode_varint stream (of_nat (length bs)))) (varint (length bs), None)"
        using emits_varint [of "of_nat (length bs)"] unat_of_nat_u64 [of "length bs"] True by simp
      have "yields e (bs, None)" using e Some r1 None by simp
      from yields_then [OF v yields_skip_when_sizing [OF this]]
      show ?thesis using n Some r1 None True by (simp add: packed_out_def sized_out_def then_out_def string_out_def fun_eq_iff)
    next
      case er: (Some m)
      show ?thesis using n Some r1 er True yields_error(2) by (simp add: packed_out_def sized_out_def)
    qed
  qed (use Some r1 in \<open>simp add: packed_out_def sized_out_def\<close>)
qed simp

lemma all_spec_uniform:
  assumes "all_spec (map f xs) = Some (bs, er)" "\<And>x. \<exists>b. f x = Some (b, None) \<and> length b = k"
  shows "er = None \<and> length bs = k * length xs"
  using assms(1)
proof (induction xs arbitrary: bs er)
  case (Cons x xs)
  obtain b where b: "f x = Some (b, None)" "length b = k" using assms(2) by blast
  then obtain bs' where "all_spec (map f xs) = Some (bs', er)" "bs = b @ bs'"
    using Cons.prems by (auto simp: then_spec_def then_out_def)
  then show ?case using Cons.IH b(2) by simp
qed simp

lemma meets_array:
  assumes "\<And>fs src. meets (\<lambda>stream. enc stream fs src) (sub fs src)"
  shows "meets (\<lambda>stream. encode_array env enc stream field data count) (array_out env sub field data count)"
proof -
  let ?func = "\<lambda>p stream. call_encoder env enc stream field p" and ?vals = "value_out env sub field"
  let ?items = "map (\<lambda>i. data + int (i * data_size field)) [0..<count]"
  let ?loop = "array_loop count ?func data (data_size field)" and ?l = "PB_LTYPE (type field)"
  define szr where "szr = (if ?l = PB_LTYPE_FIXED32 then Some (True, size_wrap (4 * count))
      else if ?l = PB_LTYPE_FIXED64 then Some (True, size_wrap (8 * count))
      else map_option (\<lambda>(ok, sizestream). (ok, bytes_written sizestream)) (?loop PB_OSTREAM_SIZING))"
  have loop: "meets ?loop (all_spec (map ?vals ?items))" by (rule meets_array_loop) (rule meets_value [OF assms])
  have sz: "\<exists>n. szr = Some (er = None, n) \<and> (er = None \<longrightarrow> n = length bs)"
    if r: "all_spec (map ?vals ?items) = Some (bs, er)" and len: "length bs < 2 ^ 63" for bs er
  proof -
    consider "?l = PB_LTYPE_FIXED32" | "?l = PB_LTYPE_FIXED64" | "?l \<noteq> PB_LTYPE_FIXED32" "?l \<noteq> PB_LTYPE_FIXED64" by blast
    then show ?thesis
    proof cases
      case 1
      then have "er = None \<and> length bs = 4 * length ?items"
        by (intro all_spec_uniform [OF r]) (simp add: value_out_def ltype_defs)
      then show ?thesis using 1 len by (simp add: szr_def)
    next
      case 2
      then have "er = None \<and> length bs = 8 * length ?items"
        by (intro all_spec_uniform [OF r]) (simp add: value_out_def ltype_defs)
      then show ?thesis using 2 len by (simp add: szr_def ltype_defs)
    next
      case 3
      from yields_size [OF _ len, of ?loop er] loop r show ?thesis using 3 by (simp add: szr_def)
    qed
  qed
  have packed: "meets (then_enc (\<lambda>stream. Some (pb_encode_tag stream PB_WT_STRING (tag field)))
      (\<lambda>stream. case szr of None \<Rightarrow> None | Some (False, sz) \<Rightarrow> Some (False, stream)
      | Some (True, sz) \<Rightarrow> then_enc (\<lambda>stream. Some (pb_encode_varint stream (of_nat sz)))
          (\<lambda>stream. if is_sizing stream then Some (pb_write stream [] sz) else ?loop stream) stream))
      (then_spec (Some (tag_out PB_WT_STRING (tag field))) (Option.bind (all_spec (map ?vals ?items)) packed_out))"
    by (rule meets_then) (simp_all only: meets_Some yields_tag insert_iff simp_thms meets_packed [OF loop sz])
  have tagged: "meets (then_enc (\<lambda>stream. Some (pb_encode_tag_for_field stream field)) (?func p)) (tagged_out env sub field p)" for p
    unfolding tagged_out_def by (rule meets_then) (simp_all add: yields_field_tag meets_value [OF assms])
  show ?thesis
    unfolding encode_array_def array_out_def Let_def
    by (intro meets_if) (simp_all only: meets_Some yields_error(3) meets_fail packed [unfolded szr_def] meets_array_loop tagged)
qed

text \<open>Fields, callbacks and extensions.\<close>

lemma htype_cases: "PB_HTYPE t = PB_HTYPE_REQUIRED \<or> PB_HTYPE t = PB_HTYPE_OPTIONAL \<or> PB_HTYPE t = PB_HTYPE_REPEATED \<or> PB_HTYPE t = PB_HTYPE_ONEOF"
proof -
  have b: "t AND 0x30 = (if bit t 4 then 0x10 else 0) OR (if bit t 5 then 0x20 else 0)"
    by (rule bit_word_eqI) (auto simp: bit_simps less_Suc_eq numeral_eq_Suc)
  show ?thesis
    unfolding PB_HTYPE_def b PB_HTYPE_REQUIRED_def PB_HTYPE_OPTIONAL_def PB_HTYPE_REPEATED_def PB_HTYPE_ONEOF_def
    by (cases "bit t 4"; cases "bit t 5") simp_all
qed

lemma htype_distinct:
  "PB_HTYPE_OPTIONAL \<noteq> PB_HTYPE_REQUIRED" "PB_HTYPE_REPEATED \<noteq> PB_HTYPE_REQUIRED" "PB_HTYPE_REPEATED \<noteq> PB_HTYPE_OPTIONAL"
  "PB_HTYPE_ONEOF \<noteq> PB_HTYPE_REQUIRED" "PB_HTYPE_ONEOF \<noteq> PB_HTYPE_OPTIONAL" "PB_HTYPE_ONEOF \<noteq> PB_HTYPE_REPEATED"
  by (simp_all add: PB_HTYPE_REQUIRED_def PB_HTYPE_OPTIONAL_def PB_HTYPE_REPEATED_def PB_HTYPE_ONEOF_def)

lemmas htype_distinct2 = htype_distinct htype_distinct [symmetric]

lemma meets_basic:
  assumes "\<And>fs src. meets (\<lambda>stream. enc stream fs src) (sub fs src)"
  shows "meets (\<lambda>stream. encode_basic_field fuel env enc stream field data) (basic_out fuel env sub field data)"
proof -
  let ?h = "PB_HTYPE (type field)" and ?has = "pb_check_proto3_default_value fuel env field data"
  have tagged: "meets (\<lambda>stream. then_enc (\<lambda>stream. Some (pb_encode_tag_for_field stream field))
      (\<lambda>stream. call_encoder env enc stream field p) stream) (tagged_out env sub field p)" for p
    unfolding tagged_out_def by (rule meets_then) (simp_all add: yields_field_tag meets_value [OF assms])
  consider "?h = PB_HTYPE_REQUIRED" | "?h = PB_HTYPE_OPTIONAL" | "?h = PB_HTYPE_REPEATED" | "?h = PB_HTYPE_ONEOF"
    using htype_cases [of "type field"] by blast
  then show ?thesis
  proof cases
    case 2
    then show ?thesis
      by (cases ?has) (auto simp: encode_basic_field_def basic_out_def Let_def htype_distinct2 tagged yields_error(3))
  qed (auto simp: encode_basic_field_def basic_out_def Let_def htype_distinct2 tagged yields_error(3) meets_fail meets_array [OF assms])
qed

text \<open>The functions of the user are encoders themselves, as their documentation asks for.\<close>

definition user_ok :: "'s pb_env \<Rightarrow> user_encoders \<Rightarrow> bool" where
  "user_ok env user \<longleftrightarrow>
     (\<forall>f field arg. yields (\<lambda>stream. Some (field_encoders env f stream field arg)) (field_out user f field arg)) \<and>
     (\<forall>f ext. yields (\<lambda>stream. Some (extension_encoders env f stream ext)) (extension_out user f ext))"

lemma yields_or_error:
  assumes "yields (\<lambda>stream. Some (e stream)) (bs, er)"
  shows "yields (\<lambda>stream. Some (case e stream of (False, stream) \<Rightarrow> (False, pb_set_error stream msg) | (True, stream) \<Rightarrow> (True, stream)))
      (bs, if er = Some None then Some (Some msg) else er)"
    (is "yields ?e ?r")
proof (rule yieldsI)
  fix stream :: "'a pb_ostream"
  assume a: "length (fst ?r) < 2 ^ 63" "ostream_wf stream" "out stream = Sizing"
  then show "\<exists>res. ?e stream = Some res \<and> counts stream ?r res"
    using yields_sizing [OF assms _ a(2,3)] by (cases er) (auto simp: counts_def pb_set_error_def msg_of_def split: option.split)
next
  fix stream :: "'a pb_ostream" and mem dest
  assume a: "length (fst ?r) < 2 ^ 63" "ostream_wf stream" "out stream = Buf_write mem dest"
  then have "stores stream mem dest (bs, er) (e stream)" using yields_buffer [OF assms _ a(2,3)] by simp
  then show "\<exists>res. ?e stream = Some res \<and> stores stream mem dest ?r res"
    by (cases er) (auto simp: stores_def stored_def pb_set_error_def msg_of_def split: option.split if_splits)
qed

lemma yields_callback:
  assumes "user_ok env user"
  shows "yields (\<lambda>stream. Some (encode_callback_field env stream field data)) (callback_out env user field data)"
proof -
  let ?f = "load_ptr (memory env) data"
  obtain bs er where r: "field_out user ?f field (data + 8) = (bs, er)" by force
  have c: "(case (bs, er) of (bs, Some None) \<Rightarrow> (bs, Some (Some msg)) | r \<Rightarrow> r) = (bs, if er = Some None then Some (Some msg) else er)" for msg :: string
    by (auto split: option.split)
  have y: "yields (\<lambda>stream. Some (field_encoders env ?f stream field (data + 8))) (bs, er)"
    using assms r by (metis user_ok_def)
  show ?thesis
    unfolding encode_callback_field_def callback_out_def r c Let_def
    using yields_or_error [OF y, of "''callback error''"] by (simp add: yields_error(3))
qed

lemma meets_field:
  assumes "\<And>fs src. meets (\<lambda>stream. enc stream fs src) (sub fs src)" "user_ok env user"
  shows "meets (\<lambda>stream. encode_field fuel env enc stream field data) (any_field_out fuel env user sub field data)"
  unfolding encode_field_def any_field_out_def Let_def insert_iff empty_iff simp_thms
  by (intro meets_if) (simp_all only: meets_Some meets_basic [OF assms(1)] yields_callback [OF assms(2)] meets_fail)

lemma meets_extensions:
  assumes "\<And>fs src. meets (\<lambda>stream. enc stream fs src) (sub fs src)" "user_ok env user"
  shows "meets (extension_loop n fuel env enc ext) (extensions_out n fuel env user sub ext)"
proof (induction n arbitrary: ext)
  case (Suc n)
  let ?m = "memory env" and ?t = "extension_type (memory env) ext"
  let ?f = "descriptors env (type_arg ?m ?t) ! 0"
  have one: "meets (\<lambda>stream. if type_encode ?m ?t \<noteq> Null then Some (extension_encoders env (type_encode ?m ?t) stream ext)
              else default_extension_encoder fuel env enc stream ext) (one_extension_out fuel env user sub ext)"
    unfolding one_extension_out_def Let_def
    by (intro meets_if) (use assms(2) meets_field [OF assms] in \<open>simp_all add: user_ok_def default_extension_encoder_def Let_def\<close>)
  have e: "extension_loop (Suc n) fuel env enc ext = (\<lambda>stream. if ext = Null then Some (True, stream) else then_enc
        (\<lambda>stream. if type_encode ?m ?t \<noteq> Null then Some (extension_encoders env (type_encode ?m ?t) stream ext)
              else default_extension_encoder fuel env enc stream ext)
        (extension_loop n fuel env enc (extension_next ?m ext)) stream)"
    by (rule ext) (simp add: Let_def)
  show ?case
    unfolding e extensions_out.simps
    by (intro meets_if) (simp_all only: meets_Some yields_error(3) meets_then [OF one Suc.IH])
qed simp

text \<open>Messages.\<close>

lemma iter_begin_at: "pb_field_iter_begin fs dest = (tag (fs ! 0) \<noteq> 0, iter_at fs dest 0)"
  by (simp add: pb_field_iter_begin_def Let_def)

lemma pb_encode_empty: "tag (fs ! 0) = 0 \<Longrightarrow> pb_encode (Suc fuel) env stream fs src = Some (True, stream)"
  by (simp add: pb_field_iter_begin_def Let_def)

lemma pb_encode_fields:
  assumes "fields_wf fs"
  shows "pb_encode (Suc fuel) env stream fs src =
     all_enc (map (\<lambda>k stream. let data = pData (iter_at fs src k) in
       if PB_LTYPE (type (fs ! k)) = PB_LTYPE_EXTENSION
       then extension_loop (Suc fuel) fuel env (pb_encode fuel env) (load_ptr (memory env) data) stream
       else encode_field fuel env (pb_encode fuel env) stream (fs ! k) data) [0..<num_fields fs]) stream"
proof -
  have n: "0 < num_fields fs" "num_fields fs \<le> length fs" using assms by (auto simp: fields_wf_def num_fields_def)
  then have t: "tag (fs ! 0) \<noteq> 0" using fields_wf_tag [OF assms, of 0] by simp
  have cur: "cur_field (iter_at fs src k) = fs ! k" if "k < num_fields fs" for k
    using iter_at_static [OF assms that, of src] by (simp add: cur_field_def)
  have m: "map (\<lambda>k stream. if PB_LTYPE (type (cur_field (iter_at fs src k))) = PB_LTYPE_EXTENSION
        then encode_extension_field fuel env (pb_encode fuel env) stream (cur_field (iter_at fs src k)) (pData (iter_at fs src k))
        else encode_field fuel env (pb_encode fuel env) stream (cur_field (iter_at fs src k)) (pData (iter_at fs src k))) [0..<num_fields fs] =
      map (\<lambda>k stream. let data = pData (iter_at fs src k) in
        if PB_LTYPE (type (fs ! k)) = PB_LTYPE_EXTENSION
        then extension_loop (Suc fuel) fuel env (pb_encode fuel env) (load_ptr (memory env) data) stream
        else encode_field fuel env (pb_encode fuel env) stream (fs ! k) data) [0..<num_fields fs]"
    by (rule map_cong [OF refl]) (simp add: cur encode_extension_field_def Let_def del: iter_at.simps extension_loop.simps cong: if_cong)
  show ?thesis
    unfolding pb_encode.simps iter_begin_at
    using n(2) t by (simp add: iter_loop_law [OF assms n(1)] m del: iter_at.simps extension_loop.simps)
qed

lemma pb_encode_meets:
  assumes "user_ok env user"
  shows "meets (\<lambda>stream. pb_encode fuel env stream fs src) (message_out fuel env user fs src)"
proof (induction fuel arbitrary: fs src)
  case (Suc fuel)
  show ?case
  proof (cases "tag (fs ! 0) = 0 \<or> \<not> fields_wf fs")
    case True
    then show ?thesis by (auto simp: pb_encode_empty yields_error(3) simp del: pb_encode.simps)
  next
    case False
    then have wf: "fields_wf fs" by simp
    have "meets (all_enc (map (\<lambda>k stream. let data = pData (iter_at fs src k) in
       if PB_LTYPE (type (fs ! k)) = PB_LTYPE_EXTENSION
       then extension_loop (Suc fuel) fuel env (pb_encode fuel env) (load_ptr (memory env) data) stream
       else encode_field fuel env (pb_encode fuel env) stream (fs ! k) data) [0..<num_fields fs])) (message_out (Suc fuel) env user fs src)"
      using False
      by (simp del: extension_loop.simps extensions_out.simps iter_at.simps)
        (rule meets_all, simp add: list_all2_conv_all_nth Let_def meets_field [OF Suc.IH assms] meets_extensions [OF Suc.IH assms]
           del: extension_loop.simps extensions_out.simps iter_at.simps)
    then show ?thesis unfolding pb_encode_fields [OF wf] .
  qed
qed simp

lemma pb_encode_buffer:
  assumes "user_ok env user" "message_out n env user fs src = Some (bs, er)"
    and "length bs < 2 ^ 63" "cap \<le> length buf" "length buf < 2 ^ 63"
  shows "\<exists>ok s k. pb_encode n env (pb_ostream_from_buffer buf cap) fs src = Some (ok, s) \<and>
     out s = Buf_write (take k bs @ drop k buf) k \<and> k \<le> cap \<and>
     (if length bs \<le> cap then ok = (er = None) \<and> k = length bs \<and> errmsg s = msg_of er
      else \<not> ok \<and> errmsg s = Some ''stream full'')"
proof -
  have "yields (\<lambda>stream. pb_encode n env stream fs src) (bs, er)"
    using pb_encode_meets [OF assms(1), of n fs src] assms(2) by simp
  from yields_fresh [OF this assms(3-5)] show ?thesis by blast
qed

section \<open>Properties\<close>

text \<open>
  C35. A message is encoded to exactly the bytes of its description. \<open>pb_get_encoded_size\<close> is their
  number; a buffer with room for them receives them, the rest of it untouched, and a smaller one is
  reported as full with nothing stored beyond its limit. Errors are those of the description: in
  particular a submessage never turns out to have another size than computed before.
\<close>

theorem pb_encode_exact:
  assumes "user_ok env user" "message_out n env user fs src = Some (bs, er)"
    and "length bs < 2 ^ 63" "cap \<le> length buf" "length buf < 2 ^ 63"
  shows "pb_get_encoded_size n env fs src = Some (if er = None then Some (length bs) else None) \<and>
     (\<exists>ok s k. pb_encode n env (pb_ostream_from_buffer buf cap) fs src = Some (ok, s) \<and>
        out s = Buf_write (take k bs @ drop k buf) k \<and> k \<le> cap \<and>
        (if length bs \<le> cap then ok = (er = None) \<and> k = length bs \<and> errmsg s = msg_of er
         else \<not> ok \<and> errmsg s = Some ''stream full''))"
proof -
  have y: "yields (\<lambda>stream. pb_encode n env stream fs src) (bs, er)"
    using pb_encode_meets [OF assms(1), of n fs src] assms(2) by simp
  show ?thesis
    using yields_fresh [OF y assms(3-5)] by (auto simp: pb_get_encoded_size_def)
qed

text \<open>A message of a type that contains itself, with an integer, a pointer and an array.\<close>

definition list_fields :: "pb_field list" where
  "list_fields = [Pb_Field 1 0x01 0 0 4 0 Null, Pb_Field 2 0x98 4 0 32 0 100, Pb_Field 3 0x21 4 (-4) 4 2 Null, PB_LAST_FIELD]"

definition list_memory :: "int \<Rightarrow> u8" where
  "list_memory a =
     (if 4096 \<le> a \<and> a < 4124 then
        [150, 0, 0, 0, 0, 0, 0, 0, 0, 32, 0, 0, 0, 0, 0, 0, 2, 0, 0, 0, 1, 0, 0, 0, 44, 1, 0, 0] ! nat (a - 4096)
      else if a = 8192 then 7 else 0)"

definition list_env :: "unit pb_env" where
  "list_env = \<lparr>memory = list_memory, descriptors = (\<lambda>a. if a = 100 then list_fields else [PB_LAST_FIELD]),
     field_encoders = (\<lambda>f stream field arg. (False, stream)), extension_encoders = (\<lambda>f stream ext. (False, stream))\<rparr>"

definition no_user :: user_encoders where
  "no_user = \<lparr>field_out = (\<lambda>f field arg. ([], Some None)), extension_out = (\<lambda>f ext. ([], Some None))\<rparr>"

lemma list_user_ok: "user_ok list_env no_user"
  by (simp add: user_ok_def list_env_def no_user_def yields_error)

definition list_bytes :: bytes where
  "list_bytes = [8, 150, 1, 18, 2, 8, 7, 26, 3, 1, 172, 2]"

lemma list_out: "message_out 3 list_env no_user list_fields 4096 = Some (list_bytes, None)"
  by code_simp


theorem pb_encode_exact_witness:
  "pb_get_encoded_size 3 list_env list_fields 4096 = Some (Some 12) \<and>
   (\<exists>s. pb_encode 3 list_env (pb_ostream_from_buffer (replicate 14 0xA5) 13) list_fields 4096 = Some (True, s) \<and>
     out s = Buf_write (list_bytes @ [0xA5, 0xA5]) 12)"
proof -
  define buf :: bytes where "buf = replicate 14 0xA5"
  have d: "length list_bytes = 12" "length buf = 14" "drop 12 buf = [0xA5, 0xA5]" "take 12 list_bytes = list_bytes"
    by (simp_all add: list_bytes_def buf_def numeral_2_eq_2)
  have h: "length list_bytes < 2 ^ 63" "13 \<le> length buf" "length buf < 2 ^ 63" by (simp_all add: d)
  obtain s k where "pb_get_encoded_size 3 list_env list_fields 4096 = Some (Some 12)"
    "pb_encode 3 list_env (pb_ostream_from_buffer buf 13) list_fields 4096 = Some (True, s)"
    "out s = Buf_write (take k list_bytes @ drop k buf) k" "k = 12"
    using pb_encode_exact [OF list_user_ok list_out h] unfolding d by auto
  then show ?thesis unfolding buf_def [symmetric] by (simp add: d del: pb_encode.simps)
qed

text \<open>
  C36. The delimited form is the length of the message and its bytes, or the error of the message alone,
  and the other form ends with a zero byte; wherever the stream is, on a buffer or only counting, if no error
  was set before.
\<close>

theorem pb_encode_framed:
  assumes "user_ok env user" "message_out n env user fs src = Some (bs, er)" "length bs < 2 ^ 63"
  shows "yields (\<lambda>stream. pb_encode_delimited n env stream fs src) (if er = None then (varint (length bs) @ bs, None) else ([], er)) \<and>
     yields (\<lambda>stream. pb_encode_nullterminated n env stream fs src) (if er = None then (bs @ [0], None) else (bs, er))"
proof
  have y: "meets (\<lambda>stream. pb_encode n env stream fs src) (Some (bs, er))"
    using pb_encode_meets [OF assms(1), of n fs src] assms(2) by simp
  show "yields (\<lambda>stream. pb_encode_delimited n env stream fs src) (if er = None then (varint (length bs) @ bs, None) else ([], er))"
    using meets_submessage [where enc = "pb_encode n env", OF y] assms(3)
    by (cases er) (simp_all add: pb_encode_delimited_def sized_out_def string_out_def)
  have "yields (\<lambda>stream. Some (pb_write stream [0] 1)) ([0], None)" using emits_write [of "[0]"] by simp
  then show "yields (\<lambda>stream. pb_encode_nullterminated n env stream fs src) (if er = None then (bs @ [0], None) else (bs, er))"
    using yields_then [of "\<lambda>stream. pb_encode n env stream fs src" "(bs, er)" "\<lambda>stream. Some (pb_write stream [0] 1)" "([0], None)"] y
    by (auto simp: pb_encode_nullterminated_def [abs_def] then_out_def)
qed

theorem pb_encode_framed_witness:
  "\<exists>s. pb_encode_delimited 3 list_env (pb_ostream_from_buffer (replicate 14 0xA5) 14) list_fields 4096 = Some (True, s) \<and>
     out s = Buf_write (12 # list_bytes @ [0xA5]) 13"
proof -
  define buf :: bytes where "buf = replicate 14 0xA5"
  have d: "length (12 # list_bytes) = 13" "length list_bytes = 12" "length buf = 14" "drop 13 buf = [0xA5]" "take 13 (12 # list_bytes) = 12 # list_bytes"
    by (simp_all add: list_bytes_def buf_def)
  have h: "length (12 # list_bytes) < 2 ^ 63" "14 \<le> length buf" "length buf < 2 ^ 63" by (simp_all add: d)
  have v: "varint (length list_bytes) @ list_bytes = 12 # list_bytes" by (simp add: list_bytes_def varint_rec byte_def)
  have y: "yields (\<lambda>stream. pb_encode_delimited 3 list_env stream list_fields 4096) (12 # list_bytes, None)"
    using pb_encode_framed [OF list_user_ok list_out] v by (simp add: list_bytes_def)
  show ?thesis
    unfolding buf_def [symmetric] using yields_fresh [OF y h] unfolding d by (auto simp: d simp del: pb_encode.simps)
qed

text \<open>
  The check of default values compares a pointer to an integer or to a boolean by as many bytes as the
  integer has: a pointer that is not null is taken for the default when its low bytes are zero.
\<close>

lemma default_check_misses_pointer:
  "load_ptr (memory list_env) 4104 = 8192"
  "pb_check_proto3_default_value 1 list_env (Pb_Field 2 0x90 0 0 1 0 Null) 4104 = Some True"
  by code_simp+

end
