(* ===== verification/Pb_Termination.thy ===== *)
theory Pb_Termination
  imports Pb_Message
begin

text \<open>
  The bound of the message encoder. Messages are C structures that may point to each other, and the
  encoder follows the pointers: it returns for messages that are nested to a finite depth, and the
  bound of the model then does not matter.
\<close>

section \<open>Depth\<close>

text \<open>The nesting of submessages within one structure, which the check of default values follows.\<close>

primrec default_fits :: "nat \<Rightarrow> 's pb_env \<Rightarrow> pb_field \<Rightarrow> bool" where
  "default_fits 0 env field = False"
| "default_fits (Suc n) env field =
     (PB_ATYPE (type field) = PB_ATYPE_STATIC \<and> PB_LTYPE (type field) = PB_LTYPE_SUBMESSAGE \<longrightarrow>
      (let fs = descriptors env (ptr field) in tag (fs ! 0) = 0 \<or> fields_wf fs \<and> list_all (default_fits n env) (butlast fs)))"

text \<open>The addresses of the submessages that a field holds.\<close>

definition submessages :: "'s pb_env \<Rightarrow> pb_field \<Rightarrow> int \<Rightarrow> int list" where
  "submessages env field data =
     (let m = memory env; htype = PB_HTYPE (type field); pSize = data + size_offset field;
          pointer = (PB_ATYPE (type field) = PB_ATYPE_POINTER); src = (if pointer then load_ptr m data else data)
      in if PB_LTYPE (type field) \<noteq> PB_LTYPE_SUBMESSAGE \<or> ptr field = Null then []
         else if htype = PB_HTYPE_REQUIRED then (if src = Null then [] else [src])
         else if htype = PB_HTYPE_OPTIONAL then
           (if (if size_offset field \<noteq> 0 then load_bool m pSize else pointer \<longrightarrow> src \<noteq> Null) then [src] else [])
         else if htype = PB_HTYPE_REPEATED then
           map (\<lambda>i. src + int (i * data_size field)) [0..<(if size_offset field \<noteq> 0 then load_size m pSize else array_size field)]
         else if load_size m pSize = unat (tag field) then [src]
         else [])"

definition field_fits :: "nat \<Rightarrow> 's pb_env \<Rightarrow> (pb_field list \<Rightarrow> int \<Rightarrow> bool) \<Rightarrow> pb_field \<Rightarrow> int \<Rightarrow> bool" where
  "field_fits n env sub field data \<longleftrightarrow>
     (PB_ATYPE (type field) \<in> {PB_ATYPE_STATIC, PB_ATYPE_POINTER} \<longrightarrow>
       (size_offset field = 0 \<and> PB_HTYPE (type field) = PB_HTYPE_OPTIONAL \<longrightarrow> default_fits n env field) \<and>
       list_all (sub (descriptors env (ptr field))) (submessages env field data))"

primrec extensions_fit :: "nat \<Rightarrow> nat \<Rightarrow> 's pb_env \<Rightarrow> (pb_field list \<Rightarrow> int \<Rightarrow> bool) \<Rightarrow> int \<Rightarrow> bool" where
  "extensions_fit 0 n env sub ext = False"
| "extensions_fit (Suc k) n env sub ext =
     (ext \<noteq> Null \<longrightarrow>
      (let m = memory env; t = extension_type m ext; field = descriptors env (type_arg m t) ! 0
       in (type_encode m t = Null \<longrightarrow>
             field_fits n env sub field (if PB_ATYPE (type field) = PB_ATYPE_POINTER then ext + 8 else extension_dest m ext)) \<and>
          extensions_fit k n env sub (extension_next m ext)))"

primrec message_fits :: "nat \<Rightarrow> 's pb_env \<Rightarrow> pb_field list \<Rightarrow> int \<Rightarrow> bool" where
  "message_fits 0 env fs src = False"
| "message_fits (Suc n) env fs src =
     (tag (fs ! 0) = 0 \<or> fields_wf fs \<and>
      list_all (\<lambda>k. let data = pData (iter_at fs src k) in
        if PB_LTYPE (type (fs ! k)) = PB_LTYPE_EXTENSION
        then extensions_fit (Suc n) n env (message_fits n env) (load_ptr (memory env) data)
        else field_fits n env (message_fits n env) (fs ! k) data) [0..<num_fields fs])"

section \<open>The encoders return\<close>

definition returns :: "('a \<Rightarrow> 'b option) \<Rightarrow> bool" where
  "returns e \<longleftrightarrow> (\<forall>a. e a \<noteq> None)"

lemma returns_Some [simp]: "returns (\<lambda>a. Some (f a))"
  by (simp add: returns_def)

lemma returns_then: "returns e1 \<Longrightarrow> returns e2 \<Longrightarrow> returns (then_enc e1 e2)"
  by (auto simp: returns_def then_enc_def split: option.split prod.split bool.split)

lemma returns_all: "list_all returns es \<Longrightarrow> returns (all_enc es)"
  by (induction es) (simp_all add: returns_then)

lemma returns_if: "(c \<Longrightarrow> returns e1) \<Longrightarrow> (\<not> c \<Longrightarrow> returns e2) \<Longrightarrow> returns (\<lambda>a. if c then e1 a else e2 a)"
  by (cases c) simp_all

lemma returns_if_iff: "returns (\<lambda>a. if c then e1 a else e2 a) \<longleftrightarrow> (if c then returns e1 else returns e2)"
  by (cases c) simp_all

lemma returns_if_any: "returns e1 \<Longrightarrow> returns e2 \<Longrightarrow> returns (\<lambda>a. if c a then e1 a else e2 a)"
  by (simp add: returns_def)

lemma default_returns:
  "default_fits n env field \<Longrightarrow> pb_check_proto3_default_value n env field data \<noteq> None"
proof (induction n arbitrary: field data)
  case (Suc n)
  let ?fs = "descriptors env (ptr field)"
  let ?body = "\<lambda>iter u. map_option (\<lambda>r. (r, ())) (pb_check_proto3_default_value n env (cur_field iter) (pData iter))"
  have l: "iter_loop (length ?fs) ?body (iter_at ?fs data 0) () \<noteq> None"
    if "fields_wf ?fs" "list_all (default_fits n env) (butlast ?fs)"
  proof -
    have n: "0 < num_fields ?fs" "num_fields ?fs \<le> length ?fs" using that(1) by (auto simp: fields_wf_def num_fields_def)
    have d: "default_fits n env (cur_field (iter_at ?fs data k))" if k: "k < num_fields ?fs" for k
      using k \<open>list_all (default_fits n env) (butlast ?fs)\<close> iter_at_static [OF \<open>fields_wf ?fs\<close> k, of data]
      by (simp add: cur_field_def list_all_length num_fields_def nth_butlast)
    have "pb_check_proto3_default_value n env (cur_field (iter_at ?fs data k)) (pData (iter_at ?fs data k)) \<noteq> None"
      if "k < num_fields ?fs" for k using d [OF that] by (rule Suc.IH)
    then have "returns (all_enc (map (\<lambda>k. ?body (iter_at ?fs data k)) [0..<num_fields ?fs]))"
      by (intro returns_all) (simp add: list_all_iff returns_def del: not_None_eq)
    then show ?thesis using n by (simp add: iter_loop_law [OF that(1) n(1)] returns_def del: iter_at.simps)
  qed
  have b: "pb_field_iter_begin ?fs data = (tag (?fs ! 0) \<noteq> 0, iter_at ?fs data 0)" "start (iter_at ?fs data 0) = ?fs"
    by (simp_all add: pb_field_iter_begin_def Let_def)
  have "(case pb_field_iter_begin ?fs data of (False, iter) \<Rightarrow> Some True
      | (True, iter) \<Rightarrow> map_option fst (iter_loop (length (start iter)) ?body iter ())) \<noteq> None"
    if "PB_ATYPE (type field) = PB_ATYPE_STATIC \<and> PB_LTYPE (type field) = PB_LTYPE_SUBMESSAGE"
    using that Suc.prems l by (cases "tag (?fs ! 0) = 0") (simp_all add: b Let_def del: iter_at.simps)
  then show ?case unfolding pb_check_proto3_default_value.simps(2) Let_def if_split [of "\<lambda>r. r \<noteq> None"] by blast
qed simp


lemma returns_submessage:
  assumes "returns (\<lambda>stream. enc stream fs src)"
  shows "returns (\<lambda>stream. pb_encode_submessage enc stream fs src)"
proof -
  obtain ok substream where r: "enc PB_OSTREAM_SIZING fs src = Some (ok, substream)"
    using assms unfolding returns_def by (metis option.exhaust prod.exhaust)
  show ?thesis
  proof (cases ok)
    case True
    have "returns (submessage_body (\<lambda>stream. enc stream fs src) n)" for n
      unfolding submessage_body_def
      by (intro returns_if_any returns_Some) (use assms in \<open>auto simp: returns_def Let_def split: option.split\<close>)
    then have "returns (then_enc (\<lambda>stream. Some (pb_encode_varint stream (of_nat (bytes_written substream))))
        (submessage_body (\<lambda>stream. enc stream fs src) (bytes_written substream)))" by (intro returns_then) simp_all
    then show ?thesis using pb_encode_submessage_eq [of enc fs src substream] r True by (simp add: returns_def)
  qed (simp add: r pb_encode_submessage_def)
qed

lemma returns_tagged:
  assumes "PB_LTYPE (type field) = PB_LTYPE_SUBMESSAGE \<and> ptr field \<noteq> Null \<Longrightarrow> returns (\<lambda>stream. enc stream (descriptors env (ptr field)) src)"
  shows "returns (then_enc (\<lambda>stream. Some (pb_encode_tag_for_field stream field)) (\<lambda>stream. call_encoder env enc stream field src))"
proof (cases "wire_type_of (PB_LTYPE (type field))")
  case None
  then show ?thesis by (simp add: returns_def then_enc_def pb_encode_tag_for_field_def)
next
  case (Some w)
  then have "PB_LTYPE (type field) \<in> {PB_LTYPE_BOOL, PB_LTYPE_VARINT, PB_LTYPE_UVARINT, PB_LTYPE_SVARINT, PB_LTYPE_FIXED32,
      PB_LTYPE_FIXED64, PB_LTYPE_BYTES, PB_LTYPE_STRING, PB_LTYPE_SUBMESSAGE, PB_LTYPE_FIXED_LENGTH_BYTES}"
    by (auto simp: wire_type_of_def split: if_splits)
  moreover have "returns (\<lambda>stream. pb_enc_submessage env enc stream field src)" if "PB_LTYPE (type field) = PB_LTYPE_SUBMESSAGE"
    unfolding pb_enc_submessage_def by (intro returns_if returns_Some returns_submessage) (use that assms in blast)
  ultimately have "returns (\<lambda>stream. call_encoder env enc stream field src)"
    unfolding call_encoder_def Let_def by (intro returns_if) auto
  then show ?thesis by (intro returns_then) simp_all
qed

lemma packable_cases:
  assumes "l \<le> PB_LTYPE_LAST_PACKABLE"
  shows "l \<in> {PB_LTYPE_BOOL, PB_LTYPE_VARINT, PB_LTYPE_UVARINT, PB_LTYPE_SVARINT, PB_LTYPE_FIXED32, PB_LTYPE_FIXED64}"
proof -
  have "unat l \<le> 5" using assms by (simp add: PB_LTYPE_LAST_PACKABLE_def word_le_nat_alt)
  then have "unat l \<in> {0, 1, 2, 3, 4, 5}" by auto
  then have "l \<in> {0, 1, 2, 3, 4, 5}" by (auto dest!: arg_cong [where f = "word_of_nat :: nat \<Rightarrow> u8"])
  then show ?thesis by (simp add: ltype_defs)
qed

lemma returns_array_loop: "(\<And>i. i < n \<Longrightarrow> returns (body (p + int (i * step)))) \<Longrightarrow> returns (array_loop n body p step)"
  unfolding array_loop_eq by (rule returns_all) (simp add: list_all_iff)

lemma returns_array:
  assumes "PB_LTYPE (type field) = PB_LTYPE_SUBMESSAGE \<and> ptr field \<noteq> Null \<Longrightarrow>
      \<forall>i < count. returns (\<lambda>stream. enc stream (descriptors env (ptr field)) (data + int (i * data_size field)))"
  shows "returns (\<lambda>stream. encode_array env enc stream field data count)"
proof (cases "PB_LTYPE (type field) \<le> PB_LTYPE_LAST_PACKABLE")
  case True
  let ?loop = "array_loop count (\<lambda>p stream. call_encoder env enc stream field p) data (data_size field)"
  have "returns (\<lambda>stream. call_encoder env enc stream field p)" for p
    using packable_cases [OF True] unfolding call_encoder_def Let_def by (intro returns_if) auto
  then have l: "returns ?loop" by (rule returns_array_loop)
  then obtain r where r: "?loop PB_OSTREAM_SIZING = Some r" unfolding returns_def by (metis option.exhaust)
  show ?thesis
    unfolding encode_array_def Let_def r
    by (intro returns_if returns_then returns_Some)
      (use True l in \<open>auto simp: returns_def then_enc_def split: option.split prod.split bool.split\<close>)
next
  case False
  let ?item = "\<lambda>p. if PB_ATYPE (type field) = PB_ATYPE_POINTER \<and> PB_LTYPE (type field) \<in> {PB_LTYPE_STRING, PB_LTYPE_BYTES}
      then load_ptr (memory env) p else p"
  have "returns (then_enc (\<lambda>stream. Some (pb_encode_tag_for_field stream field))
      (\<lambda>stream. call_encoder env enc stream field (?item (data + int (i * data_size field)))))" if "i < count" for i
    using assms that by (intro returns_tagged) (auto simp: ltype_defs)
  then have l: "returns (array_loop count (\<lambda>p. then_enc (\<lambda>stream. Some (pb_encode_tag_for_field stream field))
      (\<lambda>stream. call_encoder env enc stream field (?item p))) data (data_size field))"
    by (rule returns_array_loop)
  show ?thesis
    unfolding encode_array_def Let_def
    by (intro returns_if) (use False l in \<open>simp_all only: returns_Some simp_thms\<close>)
qed


lemma returns_basic:
  assumes "size_offset field = 0 \<and> PB_HTYPE (type field) = PB_HTYPE_OPTIONAL \<Longrightarrow> default_fits fuel env field"
    and sub: "\<And>p. p \<in> set (submessages env field data) \<Longrightarrow> returns (\<lambda>stream. enc stream (descriptors env (ptr field)) p)"
  shows "returns (\<lambda>stream. encode_basic_field fuel env enc stream field data)"
proof -
  let ?h = "PB_HTYPE (type field)" and ?m = "memory env"
  let ?src = "if PB_ATYPE (type field) = PB_ATYPE_POINTER then load_ptr ?m data else data"
  let ?tagged = "then_enc (\<lambda>stream. Some (pb_encode_tag_for_field stream field)) (\<lambda>stream. call_encoder env enc stream field ?src)"
  let ?has = "if size_offset field \<noteq> 0 then load_bool ?m (data + size_offset field)
      else PB_ATYPE (type field) = PB_ATYPE_POINTER \<longrightarrow> ?src \<noteq> Null"
  have tagged: "returns ?tagged" if "PB_LTYPE (type field) = PB_LTYPE_SUBMESSAGE \<and> ptr field \<noteq> Null \<Longrightarrow> ?src \<in> set (submessages env field data)"
    using that sub by (intro returns_tagged) blast
  consider "?h = PB_HTYPE_REQUIRED" | "?h = PB_HTYPE_OPTIONAL" | "?h = PB_HTYPE_REPEATED" | "?h = PB_HTYPE_ONEOF"
    using htype_cases [of "type field"] by blast
  then show ?thesis
  proof cases
    case 1
    have "returns ?tagged" if "?src \<noteq> Null" using that 1 by (intro tagged) (simp add: submessages_def Let_def)
    then show ?thesis using 1 by (auto simp: returns_if_iff encode_basic_field_def Let_def htype_distinct2)
  next
    case 2
    have t: "returns ?tagged" if ?has using that 2 by (intro tagged) (simp add: submessages_def Let_def htype_distinct2)
    show ?thesis
    proof (cases "size_offset field = 0")
      case True
      obtain d where "pb_check_proto3_default_value fuel env field data = Some d"
        using default_returns [of fuel env field data] assms(1) True 2 by auto
      then show ?thesis using 2 True t by (auto simp: returns_if_iff encode_basic_field_def Let_def htype_distinct2)
    qed (use 2 t in \<open>auto simp: returns_if_iff encode_basic_field_def Let_def htype_distinct2\<close>)
  next
    case 3
    let ?count = "if size_offset field \<noteq> 0 then load_size ?m (data + size_offset field) else array_size field"
    have "returns (\<lambda>stream. encode_array env enc stream field ?src ?count)"
    proof (intro returns_array allI impI)
      fix i
      assume "PB_LTYPE (type field) = PB_LTYPE_SUBMESSAGE \<and> ptr field \<noteq> Null" "i < ?count"
      then have "?src + int (i * data_size field) \<in> set (submessages env field data)"
        using 3 by (auto simp: submessages_def Let_def htype_distinct2 intro!: imageI split: if_splits)
      then show "returns (\<lambda>stream. enc stream (descriptors env (ptr field)) (?src + int (i * data_size field)))" by (rule sub)
    qed
    then show ?thesis using 3 by (auto simp: encode_basic_field_def Let_def htype_distinct2)
  next
    case 4
    have "returns ?tagged" if "load_size ?m (data + size_offset field) = unat (tag field)"
      using that 4 by (intro tagged) (simp add: submessages_def Let_def htype_distinct2)
    then show ?thesis using 4 by (auto simp: returns_if_iff encode_basic_field_def Let_def htype_distinct2)
  qed
qed

lemma returns_field:
  assumes "field_fits n env sub field data" "\<And>fs p. sub fs p \<Longrightarrow> returns (\<lambda>stream. enc stream fs p)"
  shows "returns (\<lambda>stream. encode_field n env enc stream field data)"
  unfolding encode_field_def Let_def
  by (intro returns_if returns_Some returns_basic) (use assms in \<open>auto simp: field_fits_def list_all_iff\<close>)

lemma returns_extensions:
  assumes "\<And>fs p. sub fs p \<Longrightarrow> returns (\<lambda>stream. enc stream fs p)"
  shows "extensions_fit k n env sub ext \<Longrightarrow> returns (extension_loop k n env enc ext)"
proof (induction k arbitrary: ext)
  case (Suc k)
  let ?m = "memory env" and ?t = "extension_type (memory env) ext"
  have e: "extension_loop (Suc k) n env enc ext = (\<lambda>stream. if ext = Null then Some (True, stream) else then_enc
        (\<lambda>stream. if type_encode ?m ?t \<noteq> Null then Some (extension_encoders env (type_encode ?m ?t) stream ext)
              else default_extension_encoder n env enc stream ext)
        (extension_loop k n env enc (extension_next ?m ext)) stream)"
    by (rule ext) (simp add: Let_def)
  show ?case
    unfolding e
  proof (intro returns_if returns_then returns_Some)
    assume "ext \<noteq> Null"
    then show "returns (extension_loop k n env enc (extension_next ?m ext))" using Suc by (simp add: Let_def)
  next
    assume "ext \<noteq> Null" "\<not> type_encode ?m ?t \<noteq> Null"
    then show "returns (\<lambda>stream. default_extension_encoder n env enc stream ext)"
      using Suc.prems by (auto simp: Let_def default_extension_encoder_def returns_if_iff intro!: returns_field [OF _ assms])
  qed
qed simp

lemma pb_encode_returns: "message_fits n env fs src \<Longrightarrow> returns (\<lambda>stream. pb_encode n env stream fs src)"
proof (induction n arbitrary: fs src)
  case (Suc n)
  show ?case
  proof (cases "tag (fs ! 0) = 0")
    case True
    then show ?thesis by (simp add: returns_def pb_encode_empty del: pb_encode.simps)
  next
    case False
    then have wf: "fields_wf fs" using Suc.prems by simp
    show ?thesis
      unfolding pb_encode_fields [OF wf]
    proof (rule returns_all, simp add: list_all_iff Let_def del: extension_loop.simps iter_at.simps, intro ballI)
      fix k
      assume k: "k \<in> {0..<num_fields fs}"
      let ?data = "pData (iter_at fs src k)"
      have "if PB_LTYPE (type (fs ! k)) = PB_LTYPE_EXTENSION
          then extensions_fit (Suc n) n env (message_fits n env) (load_ptr (memory env) ?data)
          else field_fits n env (message_fits n env) (fs ! k) ?data"
        using Suc.prems False k by (simp add: list_all_iff Let_def del: extensions_fit.simps iter_at.simps)
      then show "returns (\<lambda>stream. if PB_LTYPE (type (fs ! k)) = PB_LTYPE_EXTENSION
          then extension_loop (Suc n) n env (pb_encode n env) (load_ptr (memory env) ?data) stream
          else encode_field n env (pb_encode n env) stream (fs ! k) ?data)"
        using returns_extensions [OF Suc.IH] returns_field [OF _ Suc.IH] by (simp split: if_splits del: extension_loop.simps extensions_fit.simps iter_at.simps)
    qed
  qed
qed simp


section \<open>The bound does not matter\<close>

text \<open>\<open>refines e e'\<close>: \<open>e'\<close> has every result of \<open>e\<close>, and maybe more.\<close>

definition refines :: "('a \<Rightarrow> 'b option) \<Rightarrow> ('a \<Rightarrow> 'b option) \<Rightarrow> bool" where
  "refines e e' \<longleftrightarrow> (\<forall>a r. e a = Some r \<longrightarrow> e' a = Some r)"

lemma refines_refl [simp]: "refines e e"
  by (simp add: refines_def)

lemma refinesD: "refines e e' \<Longrightarrow> e a = Some r \<Longrightarrow> e' a = Some r"
  by (simp add: refines_def)

lemma refines_then: "refines e1 e1' \<Longrightarrow> refines e2 e2' \<Longrightarrow> refines (then_enc e1 e2) (then_enc e1' e2')"
  by (force simp: refines_def then_enc_def split: option.split_asm prod.split_asm bool.split_asm)

lemma refines_all: "list_all2 refines es es' \<Longrightarrow> refines (all_enc es) (all_enc es')"
  by (induction rule: list_all2_induct) (simp_all add: refines_then)

lemma refines_if: "refines e1 e1' \<Longrightarrow> refines e2 e2' \<Longrightarrow> refines (\<lambda>a. if c a then e1 a else e2 a) (\<lambda>a. if c a then e1' a else e2' a)"
  by (simp add: refines_def)

lemma refines_array_loop: "(\<And>p. refines (body p) (body' p)) \<Longrightarrow> refines (array_loop n body p step) (array_loop n body' p step)"
  unfolding array_loop_eq by (rule refines_all) (simp add: list_all2_conv_all_nth)

lemma refines_iter_loop:
  "(\<And>iter. refines (body iter) (body' iter)) \<Longrightarrow> refines (iter_loop n body iter) (iter_loop n body' iter)"
proof (induction n arbitrary: iter)
  case (Suc n)
  obtain ok next_iter where nx: "pb_field_iter_next iter = (ok, next_iter)" by force
  have "iter_loop (Suc n) b iter = then_enc (b iter) (\<lambda>a. if ok then iter_loop n b next_iter a else Some (True, a))"
    for b :: "pb_field_iter \<Rightarrow> 'a \<Rightarrow> (bool \<times> 'a) option"
    by (cases ok) (simp_all add: nx fun_eq_iff)
  then show ?case using Suc by (simp only:) (intro refines_then refines_if refines_refl; simp)
qed (simp add: refines_def)

lemma default_step:
  assumes "\<And>field. refines (pb_check_proto3_default_value n env field) (pb_check_proto3_default_value m env field)"
  shows "refines (pb_check_proto3_default_value (Suc n) env field) (pb_check_proto3_default_value (Suc m) env field)"
proof -
  let ?body = "\<lambda>n iter u. map_option (\<lambda>r. (r, ())) (pb_check_proto3_default_value n env (cur_field iter) (pData iter))"
  have "refines (?body n iter) (?body m iter)" for iter using assms by (auto simp: refines_def)
  then have l: "iter_loop k (?body n) iter u = Some r \<Longrightarrow> iter_loop k (?body m) iter u = Some r" for k iter u r
    by (rule refinesD [OF refines_iter_loop [of "?body n" "?body m"]])
  have s: "refines (\<lambda>data. case pb_field_iter_begin fs data of (False, iter) \<Rightarrow> Some True | (True, iter) \<Rightarrow> map_option fst (iter_loop (length (start iter)) (?body n) iter ()))
      (\<lambda>data. case pb_field_iter_begin fs data of (False, iter) \<Rightarrow> Some True | (True, iter) \<Rightarrow> map_option fst (iter_loop (length (start iter)) (?body m) iter ()))" for fs
    by (auto simp: refines_def dest: l split: prod.splits bool.splits)
  have "refines (\<lambda>data. pb_check_proto3_default_value (Suc n) env field data) (\<lambda>data. pb_check_proto3_default_value (Suc m) env field data)"
    unfolding pb_check_proto3_default_value.simps(2) Let_def by (intro refines_if refines_refl s)
  then show ?thesis .
qed

lemma default_mono: "refines (pb_check_proto3_default_value n env field) (pb_check_proto3_default_value (Suc n) env field)"
proof (induction n arbitrary: field)
  case (Suc n)
  then show ?case by (rule default_step)
qed (simp add: refines_def)

abbreviation refines_enc :: "'s msg_encoder \<Rightarrow> 's msg_encoder \<Rightarrow> bool" where
  "refines_enc enc enc' \<equiv> \<forall>fs src. refines (\<lambda>stream. enc stream fs src) (\<lambda>stream. enc' stream fs src)"

lemma refines_submessage:
  assumes "refines_enc enc enc'"
  shows "refines (\<lambda>stream. pb_encode_submessage enc stream fs src) (\<lambda>stream. pb_encode_submessage enc' stream fs src)"
proof (cases "enc PB_OSTREAM_SIZING fs src")
  case None
  then show ?thesis by (simp add: refines_def pb_encode_submessage_def)
next
  case (Some r)
  have e: "refines (\<lambda>stream. enc stream fs src) (\<lambda>stream. enc' stream fs src)" using assms by blast
  from refinesD [OF this, of PB_OSTREAM_SIZING] Some have r': "enc' PB_OSTREAM_SIZING fs src = Some r" by simp
  obtain ok substream where ok: "r = (ok, substream)" by force
  show ?thesis
  proof (cases ok)
    case True
    have "refines (submessage_body (\<lambda>stream. enc stream fs src) n) (submessage_body (\<lambda>stream. enc' stream fs src) n)" for n
      unfolding submessage_body_def
      by (intro refines_if refines_refl) (use e in \<open>auto simp: refines_def split: option.split_asm\<close>)
    then have "refines (then_enc (\<lambda>stream. Some (pb_encode_varint stream (of_nat (bytes_written substream))))
          (submessage_body (\<lambda>stream. enc stream fs src) (bytes_written substream)))
        (then_enc (\<lambda>stream. Some (pb_encode_varint stream (of_nat (bytes_written substream))))
          (submessage_body (\<lambda>stream. enc' stream fs src) (bytes_written substream)))" by (intro refines_then refines_refl)
    then show ?thesis using Some r' ok True by (simp add: refines_def pb_encode_submessage_eq)
  qed (simp add: Some r' ok refines_def pb_encode_submessage_def)
qed

lemma refines_call:
  assumes "refines_enc enc enc'"
  shows "refines (\<lambda>stream. call_encoder env enc stream field src) (\<lambda>stream. call_encoder env enc' stream field src)"
  unfolding call_encoder_def pb_enc_submessage_def Let_def
  by (intro refines_if refines_refl refines_submessage [OF assms])


lemma refines_array:
  assumes "refines_enc enc enc'"
  shows "refines (\<lambda>stream. encode_array env enc stream field data count) (\<lambda>stream. encode_array env enc' stream field data count)"
proof -
  let ?loop = "\<lambda>enc. array_loop count (\<lambda>p stream. call_encoder env enc stream field p) data (data_size field)"
  have loop: "refines (?loop enc) (?loop enc')" by (rule refines_array_loop) (rule refines_call [OF assms])
  have sized: "refines (\<lambda>stream. case (if c1 then r1 else if c2 then r2 else map_option g (?loop enc PB_OSTREAM_SIZING)) of
        None \<Rightarrow> None
      | Some (False, sz) \<Rightarrow> Some (False, stream)
      | Some (True, sz) \<Rightarrow> then_enc (e sz) (\<lambda>stream. if is_sizing stream then Some (pb_write stream [] sz) else ?loop enc stream) stream)
    (\<lambda>stream. case (if c1 then r1 else if c2 then r2 else map_option g (?loop enc' PB_OSTREAM_SIZING)) of
        None \<Rightarrow> None
      | Some (False, sz) \<Rightarrow> Some (False, stream)
      | Some (True, sz) \<Rightarrow> then_enc (e sz) (\<lambda>stream. if is_sizing stream then Some (pb_write stream [] sz) else ?loop enc' stream) stream)"
    (is "refines (\<lambda>stream. ?f enc (?sz enc) stream) (\<lambda>stream. ?f enc' (?sz enc') stream)") for c1 c2 r1 r2 g and e :: "nat \<Rightarrow> _"
  proof (cases "?sz enc")
    case (Some r)
    then have "?sz enc' = Some r" using refinesD [OF loop] by (auto split: if_splits)
    moreover have "refines (?f enc (Some r)) (?f enc' (Some r))"
      by (cases r; cases "fst r") (simp_all, intro refines_then refines_if refines_refl loop)
    ultimately show ?thesis using Some by simp
  qed (simp add: refines_def)
  have item: "refines (then_enc t (\<lambda>stream. call_encoder env enc stream field p)) (then_enc t (\<lambda>stream. call_encoder env enc' stream field p))" for t p
    by (intro refines_then refines_refl refines_call [OF assms])
  show ?thesis
    unfolding encode_array_def Let_def
    by (intro refines_if refines_refl refines_then sized refines_array_loop item)
qed


lemma refines_basic:
  assumes "refines_enc enc enc'"
  shows "refines (\<lambda>stream. encode_basic_field n env enc stream field data) (\<lambda>stream. encode_basic_field (Suc n) env enc' stream field data)"
proof -
  let ?has = "\<lambda>n. if size_offset field \<noteq> 0 then Some True
      else if PB_HTYPE (type field) = PB_HTYPE_OPTIONAL then map_option Not (pb_check_proto3_default_value n env field data)
      else Some True"
  have has: "?has (Suc n) = Some h" if "?has n = Some h" for h
    using that refinesD [OF default_mono, of n env field data] by (auto split: if_splits simp del: pb_check_proto3_default_value.simps)
  have tagged: "refines (then_enc t (\<lambda>stream. call_encoder env enc stream field p)) (then_enc t (\<lambda>stream. call_encoder env enc' stream field p))" for t p
    by (intro refines_then refines_refl refines_call [OF assms])
  show ?thesis
  proof (cases "?has n")
    case None
    then show ?thesis by (simp add: refines_def encode_basic_field_def Let_def)
  next
    case (Some h)
    show ?thesis
      unfolding encode_basic_field_def Let_def Some has [OF Some] option.case
      by (intro refines_if refines_refl tagged refines_array [OF assms])
  qed
qed

lemma refines_field:
  assumes "refines_enc enc enc'"
  shows "refines (\<lambda>stream. encode_field n env enc stream field data) (\<lambda>stream. encode_field (Suc n) env enc' stream field data)"
  unfolding encode_field_def Let_def by (intro refines_if refines_refl refines_basic [OF assms])

lemma refines_extensions:
  assumes "refines_enc enc enc'"
  shows "refines (extension_loop k n env enc ext) (extension_loop (Suc k) (Suc n) env enc' ext)"
proof (induction k arbitrary: ext)
  case (Suc k)
  let ?m = "memory env" and ?t = "extension_type (memory env) ext"
  have e: "extension_loop (Suc k) n env enc ext = (\<lambda>stream. if ext = Null then Some (True, stream) else then_enc
        (\<lambda>stream. if type_encode ?m ?t \<noteq> Null then Some (extension_encoders env (type_encode ?m ?t) stream ext)
              else default_extension_encoder n env enc stream ext)
        (extension_loop k n env enc (extension_next ?m ext)) stream)" for k n enc
    by (rule ext) (simp add: Let_def)
  show ?case
    unfolding e [of k n enc] e [of "Suc k" "Suc n" enc'] default_extension_encoder_def Let_def
    by (intro refines_if refines_refl refines_then refines_field [OF assms] Suc.IH)
qed (simp add: refines_def)

lemma pb_encode_step:
  assumes "refines_enc (pb_encode n env) (pb_encode m env)" "m = Suc n"
  shows "refines_enc (pb_encode (Suc n) env) (pb_encode (Suc m) env)"
proof (intro allI)
  fix fs :: "pb_field list" and src
  let ?body = "\<lambda>n enc iter stream. if PB_LTYPE (type (cur_field iter)) = PB_LTYPE_EXTENSION
      then encode_extension_field n env enc stream (cur_field iter) (pData iter)
      else encode_field n env enc stream (cur_field iter) (pData iter)"
  have body: "refines (?body n (pb_encode n env) iter) (?body m (pb_encode m env) iter)" for iter
    using refines_extensions [OF assms(1)] refines_field [OF assms(1)]
    by (cases "PB_LTYPE (type (cur_field iter)) = PB_LTYPE_EXTENSION")
      (simp_all add: assms(2) encode_extension_field_def del: extension_loop.simps pb_encode.simps)
  obtain ok it where b: "pb_field_iter_begin fs src = (ok, it)" by force
  show "refines (\<lambda>stream. pb_encode (Suc n) env stream fs src) (\<lambda>stream. pb_encode (Suc m) env stream fs src)"
    using refines_iter_loop [of "?body n (pb_encode n env)" "?body m (pb_encode m env)", OF body]
    unfolding pb_encode.simps(2) b by (cases ok) simp_all
qed

lemma pb_encode_Suc: "refines_enc (pb_encode n env) (pb_encode (Suc n) env)"
proof (induction n)
  case (Suc n)
  then show ?case by (rule pb_encode_step) simp
qed (simp add: refines_def)

lemma pb_encode_more: "pb_encode n env stream fs src = Some r \<Longrightarrow> n \<le> m \<Longrightarrow> pb_encode m env stream fs src = Some r"
proof (induction m)
  case (Suc m)
  show ?case
  proof (cases "n = Suc m")
    case False
    then have "pb_encode m env stream fs src = Some r" using Suc by simp
    then show ?thesis using pb_encode_Suc [of m env] by (metis refinesD)
  qed (use Suc.prems in simp)
qed simp

section \<open>Properties\<close>

text \<open>
  C37. The encoder returns, on every stream, for every message that is nested to a finite depth, and
  its result does not depend on the bound.
\<close>

theorem pb_encode_terminates:
  assumes "message_fits n env fs src"
  shows "\<exists>r. \<forall>m \<ge> n. pb_encode m env stream fs src = Some r"
proof -
  obtain r where "pb_encode n env stream fs src = Some r"
    using pb_encode_returns [OF assms] unfolding returns_def by (metis option.exhaust)
  then show ?thesis using pb_encode_more by blast
qed


theorem pb_encode_terminates_witness:
  "\<exists>r. \<forall>m \<ge> 3. pb_encode m list_env PB_OSTREAM_SIZING list_fields 4096 = Some r"
proof -
  have "message_fits 3 list_env list_fields 4096" by code_simp
  then show ?thesis by (rule pb_encode_terminates)
qed

end
