(* ===== verification/Pb_Decode.thy ===== *)
theory Pb_Decode
  imports Pb_Encode
begin

text \<open>
  nanopb's \<^verbatim>\<open>pb_decode.c\<close>: input streams and the decoders of scalar values, strings and bytes, with
  the error messages, the checks of the lengths and the clamping of integers to the size of a field.
\<close>

section \<open>Input streams\<close>

text \<open>
  \<open>callback\<close> together with \<open>state\<close>: \<open>buf_read\<close> with the memory from \<open>state\<close> on, or a function of the user
  with its own state, which stores the requested bytes or fails.
\<close>

datatype 's istate = Buf_read bytes | User_read "'s \<Rightarrow> nat \<Rightarrow> (nat \<Rightarrow> u8) option \<times> 's" 's

record 's pb_istream =
  inp :: "'s istate"
  bytes_left :: nat
  ierrmsg :: "string option"

definition pb_set_ierror :: "'s pb_istream \<Rightarrow> string \<Rightarrow> 's pb_istream" where
  "pb_set_ierror stream msg = stream\<lparr>ierrmsg := (case ierrmsg stream of Some m \<Rightarrow> Some m | None \<Rightarrow> Some msg)\<rparr>"

definition buf_read :: "bytes \<Rightarrow> nat \<Rightarrow> bytes option \<times> 's istate" where
  "buf_read source count = (Some (take count source), Buf_read (drop count source))"

fun call_read :: "'s istate \<Rightarrow> nat \<Rightarrow> bytes option \<times> 's istate" where
  "call_read (Buf_read source) count = buf_read source count"
| "call_read (User_read f s) count =
     (case f s count of (r, s) \<Rightarrow> (map_option (\<lambda>g. map g [0..<count]) r, User_read f s))"

text \<open>\<open>pb_read\<close> into a buffer; \<open>None\<close> stands for a return of false.\<close>

definition pb_read :: "'s pb_istream \<Rightarrow> nat \<Rightarrow> bytes option \<times> 's pb_istream" where
  "pb_read stream count =
     (if count = 0 then (Some [], stream)
      else if bytes_left stream < count then (None, pb_set_ierror stream ''end-of-stream'')
      else (case call_read (inp stream) count of (r, i) \<Rightarrow>
              let stream = stream\<lparr>inp := i\<rparr> in
              case r of
                None \<Rightarrow> (None, pb_set_ierror stream ''io error'')
              | Some bs \<Rightarrow> (Some bs, stream\<lparr>bytes_left := bytes_left stream - count\<rparr>)))"

text \<open>\<open>pb_read\<close> with a null buffer: a callback of the user is asked for chunks of 16 bytes.\<close>

function skip_chunks :: "'s pb_istream \<Rightarrow> nat \<Rightarrow> bool \<times> 's pb_istream" where
  "skip_chunks stream count =
     (if count > 16 then
        (case pb_read stream 16 of
           (None, stream) \<Rightarrow> (False, stream)
         | (Some _, stream) \<Rightarrow> skip_chunks stream (count - 16))
      else (case pb_read stream count of (r, stream) \<Rightarrow> (r \<noteq> None, stream)))"
  by pat_completeness auto
termination by (relation "measure snd") auto

declare skip_chunks.simps [simp del]

definition pb_read_null :: "'s pb_istream \<Rightarrow> nat \<Rightarrow> bool \<times> 's pb_istream" where
  "pb_read_null stream count =
     (if count = 0 then (True, stream)
      else case inp stream of
        User_read f s \<Rightarrow> skip_chunks stream count
      | Buf_read source \<Rightarrow> (case pb_read stream count of (r, stream) \<Rightarrow> (r \<noteq> None, stream)))"

definition pb_readbyte :: "'s pb_istream \<Rightarrow> u8 option \<times> 's pb_istream" where
  "pb_readbyte stream =
     (if bytes_left stream = 0 then (None, pb_set_ierror stream ''end-of-stream'')
      else (case call_read (inp stream) 1 of (r, i) \<Rightarrow>
              let stream = stream\<lparr>inp := i\<rparr> in
              case r of
                None \<Rightarrow> (None, pb_set_ierror stream ''io error'')
              | Some bs \<Rightarrow> (Some (bs ! 0), stream\<lparr>bytes_left := bytes_left stream - 1\<rparr>)))"

definition pb_istream_from_buffer :: "bytes \<Rightarrow> nat \<Rightarrow> 's pb_istream" where
  "pb_istream_from_buffer buf bufsize = \<lparr>inp = Buf_read buf, bytes_left = bufsize, ierrmsg = None\<rparr>"

section \<open>Helper functions\<close>

lemma pb_readbyte_decreases: "pb_readbyte stream = (Some b, s) \<Longrightarrow> bytes_left s < bytes_left stream"
  by (auto simp: pb_readbyte_def Let_def split: if_splits prod.splits option.splits)

text \<open>
  The loop over the bytes after the first; \<open>bitpos\<close> is a \<open>uint_fast8_t\<close>, which is \<open>uint8_t\<close> on the targets.
  The result holds the value, the last byte and the last \<open>bitpos\<close>.
\<close>

function varint32_loop :: "'s pb_istream \<Rightarrow> u8 \<Rightarrow> u32 \<Rightarrow> (u32 \<times> u8 \<times> u8) option \<times> 's pb_istream" where
  "varint32_loop stream bitpos result =
     (case pb_readbyte stream of
        (None, stream') \<Rightarrow> (None, stream')
      | (Some b, stream') \<Rightarrow>
          (let sign_extension = (if bitpos < 63 then 0xFF else 0x01);
               result' = (if bitpos \<ge> 32 then result else result OR push_bit (unat bitpos) (ucast (b AND 0x7F)))
           in if bitpos \<ge> 32 \<and> b AND 0x7F \<noteq> 0 \<and> (drop_bit 31 result = 0 \<or> b \<noteq> sign_extension)
              then (None, pb_set_ierror stream' ''varint overflow'')
              else if b AND 0x80 \<noteq> 0 then varint32_loop stream' (bitpos + 7) result'
              else (Some (result', b, bitpos + 7), stream')))"
  by pat_completeness auto
termination
  by (relation "measure (\<lambda>(stream, _). bytes_left stream)") (auto dest: pb_readbyte_decreases [OF sym])

declare varint32_loop.simps [simp del]

text \<open>The result and whether \<open>*eof\<close> is set.\<close>

definition pb_decode_varint32_eof :: "'s pb_istream \<Rightarrow> (u32 option \<times> bool) \<times> 's pb_istream" where
  "pb_decode_varint32_eof stream =
     (case pb_readbyte stream of
        (None, stream) \<Rightarrow> ((None, bytes_left stream = 0), stream)
      | (Some b, stream) \<Rightarrow>
          if b AND 0x80 = 0 then ((Some (ucast b), False), stream)
          else (case varint32_loop stream 7 (ucast (b AND 0x7F)) of
                  (None, stream) \<Rightarrow> ((None, False), stream)
                | (Some (result, b, bitpos), stream) \<Rightarrow>
                    if bitpos = 35 \<and> b AND 0x70 \<noteq> 0
                    then ((None, False), pb_set_ierror stream ''varint overflow'')
                    else ((Some result, False), stream)))"

definition pb_decode_varint32 :: "'s pb_istream \<Rightarrow> u32 option \<times> 's pb_istream" where
  "pb_decode_varint32 stream = (case pb_decode_varint32_eof stream of ((r, _), stream) \<Rightarrow> (r, stream))"

function varint_loop :: "'s pb_istream \<Rightarrow> u8 \<Rightarrow> u64 \<Rightarrow> u64 option \<times> 's pb_istream" where
  "varint_loop stream bitpos result =
     (if bitpos \<ge> 64 then (None, pb_set_ierror stream ''varint overflow'')
      else case pb_readbyte stream of
        (None, stream') \<Rightarrow> (None, stream')
      | (Some b, stream') \<Rightarrow>
          (let result' = result OR push_bit (unat bitpos) (ucast (b AND 0x7F))
           in if b AND 0x80 \<noteq> 0 then varint_loop stream' (bitpos + 7) result' else (Some result', stream')))"
  by pat_completeness auto
termination
  by (relation "measure (\<lambda>(stream, _). bytes_left stream)") (auto dest: pb_readbyte_decreases [OF sym])

declare varint_loop.simps [simp del]

definition pb_decode_varint :: "'s pb_istream \<Rightarrow> u64 option \<times> 's pb_istream" where
  "pb_decode_varint stream = varint_loop stream 0 0"

lemma pb_read_decreases: "pb_read stream n = (Some bs, s) \<Longrightarrow> 0 < n \<Longrightarrow> bytes_left s < bytes_left stream"
  by (auto simp: pb_read_def Let_def split: if_splits prod.splits option.splits)

function pb_skip_varint :: "'s pb_istream \<Rightarrow> bool \<times> 's pb_istream" where
  "pb_skip_varint stream =
     (case pb_read stream 1 of
        (None, stream') \<Rightarrow> (False, stream')
      | (Some bs, stream') \<Rightarrow> if bs ! 0 AND 0x80 \<noteq> 0 then pb_skip_varint stream' else (True, stream'))"
  by pat_completeness auto
termination
  by (relation "measure bytes_left") (auto dest: pb_read_decreases [OF sym])

declare pb_skip_varint.simps [simp del]

definition pb_skip_string :: "'s pb_istream \<Rightarrow> bool \<times> 's pb_istream" where
  "pb_skip_string stream =
     (case pb_decode_varint32 stream of
        (None, stream) \<Rightarrow> (False, stream)
      | (Some len, stream) \<Rightarrow> pb_read_null stream (unat len))"

definition wire_type_from :: "u32 \<Rightarrow> pb_wire_type" where
  "wire_type_from n =
     (if n = 0 then PB_WT_VARINT else if n = 1 then PB_WT_64BIT else if n = 2 then PB_WT_STRING
      else if n = 5 then PB_WT_32BIT else PB_WT_OTHER n)"

text \<open>The wire type with the tag, and \<open>*eof\<close>.\<close>

definition pb_decode_tag :: "'s pb_istream \<Rightarrow> ((pb_wire_type \<times> u32) option \<times> bool) \<times> 's pb_istream" where
  "pb_decode_tag stream =
     (case pb_decode_varint32_eof stream of
        ((None, eof), stream) \<Rightarrow> ((None, eof), stream)
      | ((Some temp, _), stream) \<Rightarrow>
          if temp = 0 then ((None, True), stream)
          else ((Some (wire_type_from (temp AND 7), drop_bit 3 temp), False), stream))"

definition pb_skip_field :: "'s pb_istream \<Rightarrow> pb_wire_type \<Rightarrow> bool \<times> 's pb_istream" where
  "pb_skip_field stream wire_type =
     (case wire_type of
        PB_WT_VARINT \<Rightarrow> pb_skip_varint stream
      | PB_WT_64BIT \<Rightarrow> pb_read_null stream 8
      | PB_WT_STRING \<Rightarrow> pb_skip_string stream
      | PB_WT_32BIT \<Rightarrow> pb_read_null stream 4
      | PB_WT_OTHER _ \<Rightarrow> (False, pb_set_ierror stream ''invalid wire_type''))"

text \<open>The loop of \<open>read_raw_value\<close> for a varint, with the bytes read so far.\<close>

function read_raw_varint :: "'s pb_istream \<Rightarrow> nat \<Rightarrow> bytes \<Rightarrow> bytes option \<times> 's pb_istream" where
  "read_raw_varint stream max_sz buf =
     (if length buf + 1 > max_sz then (None, stream)
      else case pb_read stream 1 of
        (None, stream') \<Rightarrow> (None, stream')
      | (Some bs, stream') \<Rightarrow>
          if bs ! 0 AND 0x80 \<noteq> 0 then read_raw_varint stream' max_sz (buf @ [bs ! 0]) else (Some (buf @ [bs ! 0]), stream'))"
  by pat_completeness auto
termination
  by (relation "measure (\<lambda>(stream, _). bytes_left stream)") (auto dest: pb_read_decreases [OF sym])

declare read_raw_varint.simps [simp del]

definition read_raw_value :: "'s pb_istream \<Rightarrow> pb_wire_type \<Rightarrow> nat \<Rightarrow> bytes option \<times> 's pb_istream" where
  "read_raw_value stream wire_type max_sz =
     (case wire_type of
        PB_WT_VARINT \<Rightarrow> read_raw_varint stream max_sz []
      | PB_WT_64BIT \<Rightarrow> pb_read stream 8
      | PB_WT_32BIT \<Rightarrow> pb_read stream 4
      | _ \<Rightarrow> (None, pb_set_ierror stream ''invalid wire_type''))"

definition pb_make_string_substream :: "'s pb_istream \<Rightarrow> 's pb_istream option \<times> 's pb_istream" where
  "pb_make_string_substream stream =
     (case pb_decode_varint32 stream of
        (None, stream) \<Rightarrow> (None, stream)
      | (Some sz, stream) \<Rightarrow>
          if bytes_left stream < unat sz then (None, pb_set_ierror stream ''parent stream too short'')
          else (Some (stream\<lparr>bytes_left := unat sz\<rparr>), stream\<lparr>bytes_left := bytes_left stream - unat sz\<rparr>))"

definition pb_close_string_substream :: "'s pb_istream \<Rightarrow> 's pb_istream \<Rightarrow> bool \<times> 's pb_istream" where
  "pb_close_string_substream stream substream =
     (case (if bytes_left substream \<noteq> 0 then pb_read_null substream (bytes_left substream) else (True, substream)) of
        (False, _) \<Rightarrow> (False, stream)
      | (True, substream) \<Rightarrow> (True, stream\<lparr>inp := inp substream, ierrmsg := ierrmsg substream\<rparr>))"

section \<open>Field decoders\<close>

text \<open>\<open>value & 1\<close> selects between the two halves of the zigzag code.\<close>

definition pb_decode_svarint :: "'s pb_istream \<Rightarrow> u64 option \<times> 's pb_istream" where
  "pb_decode_svarint stream =
     (case pb_decode_varint stream of
        (None, stream) \<Rightarrow> (None, stream)
      | (Some v, stream) \<Rightarrow> (Some (if v AND 1 \<noteq> 0 then NOT (drop_bit 1 v) else drop_bit 1 v), stream))"

definition pb_decode_fixed32 :: "'s pb_istream \<Rightarrow> u32 option \<times> 's pb_istream" where
  "pb_decode_fixed32 stream =
     (case pb_read stream 4 of
        (None, stream) \<Rightarrow> (None, stream)
      | (Some b, stream) \<Rightarrow>
          (Some (push_bit 0 (ucast (b ! 0)) OR push_bit 8 (ucast (b ! 1)) OR push_bit 16 (ucast (b ! 2)) OR
                 push_bit 24 (ucast (b ! 3))), stream))"

definition pb_decode_fixed64 :: "'s pb_istream \<Rightarrow> u64 option \<times> 's pb_istream" where
  "pb_decode_fixed64 stream =
     (case pb_read stream 8 of
        (None, stream) \<Rightarrow> (None, stream)
      | (Some b, stream) \<Rightarrow>
          (Some (push_bit 0 (ucast (b ! 0)) OR push_bit 8 (ucast (b ! 1)) OR push_bit 16 (ucast (b ! 2)) OR
                 push_bit 24 (ucast (b ! 3)) OR push_bit 32 (ucast (b ! 4)) OR push_bit 40 (ucast (b ! 5)) OR
                 push_bit 48 (ucast (b ! 6)) OR push_bit 56 (ucast (b ! 7))), stream))"

text \<open>The field decoders return whether they succeed, with the memory at \<open>dest\<close> afterwards.\<close>

definition store :: "nat \<Rightarrow> 'a::len word \<Rightarrow> bytes \<Rightarrow> bytes" where
  "store n v dest = mem_write dest 0 (le_bytes n (unat v))"

definition pb_dec_bool :: "'s pb_istream \<Rightarrow> bytes \<Rightarrow> (bool \<times> bytes) \<times> 's pb_istream" where
  "pb_dec_bool stream dest =
     (case pb_decode_varint32 stream of
        (None, stream) \<Rightarrow> ((False, dest), stream)
      | (Some v, stream) \<Rightarrow> ((True, store 1 (if v \<noteq> 0 then 1 else 0 :: u8) dest), stream))"

text \<open>
  The casts to the field's size: what is stored, and the stored value converted back to 64 bits.
\<close>

definition clamp_signed :: "nat \<Rightarrow> u64 \<Rightarrow> bytes \<Rightarrow> (bytes \<times> u64) option" where
  "clamp_signed sz v dest =
     (if sz = 8 then Some (store 8 v dest, v)
      else if sz = 4 then Some (store 4 (ucast v :: u32) dest, scast (ucast v :: u32))
      else if sz = 2 then Some (store 2 (ucast v :: u16) dest, scast (ucast v :: u16))
      else if sz = 1 then Some (store 1 (ucast v :: u8) dest, scast (ucast v :: u8))
      else None)"

definition clamp_unsigned :: "nat \<Rightarrow> u64 \<Rightarrow> bytes \<Rightarrow> (bytes \<times> u64) option" where
  "clamp_unsigned sz v dest =
     (if sz = 8 then Some (store 8 v dest, v)
      else if sz = 4 then Some (store 4 (ucast v :: u32) dest, ucast (ucast v :: u32))
      else if sz = 2 then Some (store 2 (ucast v :: u16) dest, ucast (ucast v :: u16))
      else if sz = 1 then Some (store 1 (ucast v :: u8) dest, ucast (ucast v :: u8))
      else None)"

definition clamped_result :: "'s pb_istream \<Rightarrow> u64 \<Rightarrow> bytes \<Rightarrow> (bytes \<times> u64) option \<Rightarrow> (bool \<times> bytes) \<times> 's pb_istream" where
  "clamped_result stream v dest r =
     (case r of
        None \<Rightarrow> ((False, dest), pb_set_ierror stream ''invalid data_size'')
      | Some (dest, clamped) \<Rightarrow>
          if clamped \<noteq> v then ((False, dest), pb_set_ierror stream ''integer too large'') else ((True, dest), stream))"

definition pb_dec_varint :: "'s pb_istream \<Rightarrow> pb_field \<Rightarrow> bytes \<Rightarrow> (bool \<times> bytes) \<times> 's pb_istream" where
  "pb_dec_varint stream field dest =
     (case pb_decode_varint stream of
        (None, stream) \<Rightarrow> ((False, dest), stream)
      | (Some v, stream) \<Rightarrow>
          (let sv = (if data_size field = 8 then v else scast (ucast v :: u32))
           in clamped_result stream sv dest (clamp_signed (data_size field) sv dest)))"

definition pb_dec_uvarint :: "'s pb_istream \<Rightarrow> pb_field \<Rightarrow> bytes \<Rightarrow> (bool \<times> bytes) \<times> 's pb_istream" where
  "pb_dec_uvarint stream field dest =
     (case pb_decode_varint stream of
        (None, stream) \<Rightarrow> ((False, dest), stream)
      | (Some v, stream) \<Rightarrow> clamped_result stream v dest (clamp_unsigned (data_size field) v dest))"

definition pb_dec_svarint :: "'s pb_istream \<Rightarrow> pb_field \<Rightarrow> bytes \<Rightarrow> (bool \<times> bytes) \<times> 's pb_istream" where
  "pb_dec_svarint stream field dest =
     (case pb_decode_svarint stream of
        (None, stream) \<Rightarrow> ((False, dest), stream)
      | (Some v, stream) \<Rightarrow> clamped_result stream v dest (clamp_signed (data_size field) v dest))"

definition pb_dec_fixed32 :: "'s pb_istream \<Rightarrow> pb_field \<Rightarrow> bytes \<Rightarrow> (bool \<times> bytes) \<times> 's pb_istream" where
  "pb_dec_fixed32 stream field dest =
     (case pb_decode_fixed32 stream of
        (None, stream) \<Rightarrow> ((False, dest), stream)
      | (Some v, stream) \<Rightarrow> ((True, store 4 v dest), stream))"

definition pb_dec_fixed64 :: "'s pb_istream \<Rightarrow> pb_field \<Rightarrow> bytes \<Rightarrow> (bool \<times> bytes) \<times> 's pb_istream" where
  "pb_dec_fixed64 stream field dest =
     (case pb_decode_fixed64 stream of
        (None, stream) \<Rightarrow> ((False, dest), stream)
      | (Some v, stream) \<Rightarrow> ((True, store 8 v dest), stream))"

text \<open>
  Strings and bytes are stored in the memory of the program, in the member of the structure or, for a
  pointer field, in the block that the member points to. \<open>realloc\<close> is the C library's: it takes the memory,
  the old block and the size, and returns the new block or null, with the memory.
\<close>

type_synonym 's dstate = "(int \<Rightarrow> u8) \<times> 's pb_istream"
type_synonym c_realloc = "(int \<Rightarrow> u8) \<Rightarrow> int \<Rightarrow> nat \<Rightarrow> int \<times> (int \<Rightarrow> u8)"

definition dec_error :: "string \<Rightarrow> 's dstate \<Rightarrow> bool \<times> 's dstate" where
  "dec_error msg st = (case st of (m, stream) \<Rightarrow> (False, m, pb_set_ierror stream msg))"

definition store_ptr :: "(int \<Rightarrow> u8) \<Rightarrow> int \<Rightarrow> int \<Rightarrow> int \<Rightarrow> u8" where
  "store_ptr m a p = mem_store m a (le_bytes 8 (nat p))"

definition store_size :: "(int \<Rightarrow> u8) \<Rightarrow> int \<Rightarrow> nat \<Rightarrow> int \<Rightarrow> u8" where
  "store_size m a n = mem_store m a (le_bytes 4 n)"

definition allocate_field :: "c_realloc \<Rightarrow> int \<Rightarrow> nat \<Rightarrow> nat \<Rightarrow> 's dstate \<Rightarrow> bool \<times> 's dstate" where
  "allocate_field realloc data d_size a_size st =
     (case st of (m, stream) \<Rightarrow>
        if d_size = 0 \<or> a_size = 0 then dec_error ''invalid size'' st
        else if (d_size \<ge> 2 ^ 32 \<or> a_size \<ge> 2 ^ 32) \<and> (2 ^ 64 - 1) div a_size < d_size
        then dec_error ''size too large'' st
        else (case realloc m (load_ptr m data) (size_wrap (a_size * d_size)) of
                (p, m) \<Rightarrow> if p = Null then dec_error ''realloc failed'' (m, stream) else (True, store_ptr m data p, stream)))"

text \<open>
  \<open>pb_read\<close> into the memory at \<open>a\<close>. A read callback of the user that fails is taken to have stored nothing
  (\<open>buf_read\<close>, the callback of the library, does not fail).
\<close>

definition read_at :: "int \<Rightarrow> nat \<Rightarrow> 's dstate \<Rightarrow> bool \<times> 's dstate" where
  "read_at a n st =
     (case st of (m, stream) \<Rightarrow>
        case pb_read stream n of
          (None, stream) \<Rightarrow> (False, m, stream)
        | (Some bs, stream) \<Rightarrow> (True, mem_store m a bs, stream))"

definition pb_dec_bytes :: "c_realloc \<Rightarrow> pb_field \<Rightarrow> int \<Rightarrow> 's dstate \<Rightarrow> bool \<times> 's dstate" where
  "pb_dec_bytes realloc field dest st =
     (case st of (m, stream) \<Rightarrow>
        case pb_decode_varint32 stream of
          (None, stream) \<Rightarrow> (False, m, stream)
        | (Some sz, stream) \<Rightarrow>
            if unat sz > PB_SIZE_MAX then dec_error ''bytes overflow'' (m, stream)
            else let alloc_size = PB_BYTES_ARRAY_T_ALLOCSIZE (unat sz); pointer = (PB_ATYPE (type field) = PB_ATYPE_POINTER) in
            if unat sz > alloc_size then dec_error ''size too large'' (m, stream)
            else case
              (if pointer then
                 if bytes_left stream < unat sz then dec_error ''end-of-stream'' (m, stream)
                 else allocate_field realloc dest alloc_size 1 (m, stream)
               else if alloc_size > data_size field then dec_error ''bytes overflow'' (m, stream)
               else (True, m, stream)) of
                (False, st) \<Rightarrow> (False, st)
              | (True, m, stream) \<Rightarrow>
                  (let bdest = (if pointer then load_ptr m dest else dest)
                   in read_at (bdest + 4) (unat sz) (store_size m bdest (unat sz), stream)))"

definition pb_dec_string :: "c_realloc \<Rightarrow> pb_field \<Rightarrow> int \<Rightarrow> 's dstate \<Rightarrow> bool \<times> 's dstate" where
  "pb_dec_string realloc field dest st =
     (case st of (m, stream) \<Rightarrow>
        case pb_decode_varint32 stream of
          (None, stream) \<Rightarrow> (False, m, stream)
        | (Some sz, stream) \<Rightarrow>
            let alloc_size = unat (sz + 1); pointer = (PB_ATYPE (type field) = PB_ATYPE_POINTER) in
            if alloc_size < unat sz then dec_error ''size too large'' (m, stream)
            else case
              (if pointer then
                 if bytes_left stream < unat sz then dec_error ''end-of-stream'' (m, stream)
                 else allocate_field realloc dest alloc_size 1 (m, stream)
               else if alloc_size > data_size field then dec_error ''string overflow'' (m, stream)
               else (True, m, stream)) of
                (False, st) \<Rightarrow> (False, st)
              | (True, m, stream) \<Rightarrow>
                  (let dest = (if pointer then load_ptr m dest else dest)
                   in case read_at dest (unat sz) (m, stream) of
                        (status, m, stream) \<Rightarrow> (status, mem_store m (dest + int (unat sz)) [0], stream)))"

definition pb_dec_fixed_length_bytes :: "'s pb_istream \<Rightarrow> pb_field \<Rightarrow> bytes \<Rightarrow> (bool \<times> bytes) \<times> 's pb_istream" where
  "pb_dec_fixed_length_bytes stream field dest =
     (case pb_decode_varint32 stream of
        (None, stream) \<Rightarrow> ((False, dest), stream)
      | (Some sz, stream) \<Rightarrow>
          if unat sz > PB_SIZE_MAX then ((False, dest), pb_set_ierror stream ''bytes overflow'')
          else if sz = 0 then ((True, mem_write dest 0 (replicate (data_size field) 0)), stream)
          else if unat sz \<noteq> data_size field
          then ((False, dest), pb_set_ierror stream ''incorrect fixed length bytes size'')
          else (case pb_read stream (data_size field) of
                  (None, stream) \<Rightarrow> ((False, dest), stream)
                | (Some bs, stream) \<Rightarrow> ((True, mem_write dest 0 bs), stream)))"

section \<open>Reading from a buffer\<close>

definition buffered :: "bytes \<Rightarrow> nat \<Rightarrow> string option \<Rightarrow> 's pb_istream" where
  "buffered bs n e = \<lparr>inp = Buf_read bs, bytes_left = n, ierrmsg = e\<rparr>"

named_theorems reading "what the decoders return on a buffer that starts with an encoding"

lemma readbyte_buffered [reading]: "0 < n \<Longrightarrow> pb_readbyte (buffered (b # rest) n e) = (Some b, buffered rest (n - 1) e)"
  by (simp add: pb_readbyte_def buffered_def buf_read_def)

lemma read_buffered [reading]:
  "length bs \<le> n \<Longrightarrow> pb_read (buffered (bs @ rest) n e) (length bs) = (Some bs, buffered rest (n - length bs) e)"
  by (auto simp: pb_read_def buffered_def buf_read_def)

lemma read_exact: "length bs = n \<Longrightarrow> n \<le> left \<Longrightarrow> pb_read (buffered (bs @ rest) left e) n = (Some bs, buffered rest (left - n) e)"
  by (auto simp: read_buffered)

lemma read_one: "0 < left \<Longrightarrow> pb_read (buffered (b # rest) left e) (Suc 0) = (Some [b], buffered rest (left - 1) e)"
  using read_exact [of "[b]" "Suc 0" left rest e] by (simp add: read_exact [of "[b]", simplified])

lemma inp_buffered: "inp (buffered bs n e) = Buf_read bs" "bytes_left (buffered bs n e) = n"
  by (simp_all add: buffered_def)

lemma read_null_buffered [reading]:
  "length bs \<le> n \<Longrightarrow> pb_read_null (buffered (bs @ rest) n e) (length bs) = (True, buffered rest (n - length bs) e)"
  by (auto simp: pb_read_null_def inp_buffered read_buffered)

lemma read_null_exact:
  "length bs = n \<Longrightarrow> n \<le> left \<Longrightarrow> pb_read_null (buffered (bs @ rest) left e) n = (True, buffered rest (left - n) e)"
  by (auto simp: read_null_buffered)

text \<open>Adding one group of seven bits at its position.\<close>

lemma unat_add_group:
  fixes r :: "'a::len word" and b :: u8
  assumes "unat r < 2 ^ p" "unat b mod 128 * 2 ^ p + unat r < 2 ^ LENGTH('a)" "8 \<le> LENGTH('a)"
  shows "unat (r OR push_bit p (ucast (b AND 0x7F))) = unat r + unat b mod 128 * 2 ^ p"
proof -
  let ?g = "push_bit p (ucast (b AND 0x7F)) :: 'a word"
  have "(2 :: nat) ^ 8 \<le> 2 ^ LENGTH('a)" using assms(3) by (rule power_increasing) simp
  then have "unat (ucast (b AND 0x7F) :: 'a word) = unat b mod 128"
    by (simp add: unat_ucast u8_low7)
  then have g: "unat ?g = unat b mod 128 * 2 ^ p" using assms(2) by (simp add: unat_push_bit)
  have "unat (?g OR r) = unat ?g + unat r" using assms g by (intro unat_or_dvd [of _ p]) simp_all
  then show ?thesis by (simp add: g or.commute)
qed

lemma word_of_unat: "unat (w :: 'a::len word) = m \<Longrightarrow> w = of_nat m"
  by (auto simp del: of_nat_add)

lemma varint_byte:
  "n < 128 \<Longrightarrow> unat (byte n) mod 128 = n" "n < 128 \<Longrightarrow> byte n AND 0x80 = 0"
  "unat (byte (n mod 128 + 128)) mod 128 = n mod 128" "byte (n mod 128 + 128) AND 0x80 \<noteq> 0"
  by (simp_all add: u8_high_bit_iff mod_mod_cancel)

lemma bitpos_step:
  assumes "k \<le> 9"
  shows "unat (of_nat (7 * k) :: u8) = 7 * k" "(of_nat (7 * k) :: u8) + 7 = of_nat (7 * (k + 1))"
proof -
  show "unat (of_nat (7 * k) :: u8) = 7 * k" using assms by (simp only: unat_of_nat) simp
qed simp

lemma group_value: "r + n mod 128 * 2 ^ (7 * k) + n div 128 * 2 ^ (7 * (k + 1)) = r + n * 2 ^ (7 * k)" for n :: nat
proof -
  have "n * 2 ^ (7 * k) = (n div 128 * 128 + n mod 128) * 2 ^ (7 * k)" by simp
  also have "\<dots> = n div 128 * (128 * 2 ^ (7 * k)) + n mod 128 * 2 ^ (7 * k)"
    by (simp only: add_mult_distrib mult.assoc)
  also have "128 * 2 ^ (7 * k) = (2 :: nat) ^ (7 * (k + 1))" by (simp add: power_add)
  finally show ?thesis by simp
qed

lemma group_small:
  assumes "r < 2 ^ (7 * k)"
  shows "r + n mod 128 * 2 ^ (7 * k) < (2 :: nat) ^ (7 * (k + 1))"
proof -
  have "r + n mod 128 * 2 ^ (7 * k) < (n mod 128 + 1) * 2 ^ (7 * k)" using assms by simp
  also have "\<dots> \<le> 128 * 2 ^ (7 * k)" by (rule mult_right_mono) (simp_all add: Suc_leI)
  finally show ?thesis by (simp add: power_add)
qed

lemma varint_loop_law:
  assumes "n < 2 ^ (64 - 7 * k)" "k \<le> 9" "unat r < 2 ^ (7 * k)" "length (varint n) \<le> left"
  shows "varint_loop (buffered (varint n @ rest) left e :: 's pb_istream) (of_nat (7 * k)) r =
     (Some (of_nat (unat r + n * 2 ^ (7 * k))), buffered rest (left - length (varint n)) e)"
  using assms
proof (induction n arbitrary: k r left rule: varint.induct)
  case (1 n)
  note k = bitpos_step [OF 1(3)]
  have pos: "\<not> (of_nat (7 * k) :: u8) \<ge> 64" using k(1) 1(3) by (simp add: word_le_nat_alt)
  have P: "2 ^ (64 - 7 * k) * 2 ^ (7 * k) = (2 :: nat) ^ 64" using 1(3) by (simp add: power_add [symmetric])
  have fits: "n * 2 ^ (7 * k) + unat r < 2 ^ 64"
  proof -
    have "(n + 1) * 2 ^ (7 * k) \<le> 2 ^ (64 - 7 * k) * 2 ^ (7 * k)" using 1(2) by (intro mult_right_mono) simp_all
    then show ?thesis using 1(4) P by simp
  qed
  show ?case
  proof (cases "n < 128")
    case True
    let ?r = "r OR push_bit (unat (of_nat (7 * k) :: u8)) (ucast (byte n AND 0x7F))"
    have "unat ?r = unat r + n * 2 ^ (7 * k)"
      unfolding k(1) using unat_add_group [of r "7 * k" "byte n"] 1(4) fits varint_byte(1) [OF True] by simp
    then have "?r = of_nat (unat r + n * 2 ^ (7 * k))" by (rule word_of_unat)
    then show ?thesis
      using True 1(5) pos varint_byte(2) [OF True]
      by (subst varint_loop.simps) (simp add: varint_rec reading)
  next
    case False
    let ?b = "byte (n mod 128 + 128)"
    let ?r = "r OR push_bit (unat (of_nat (7 * k) :: u8)) (ucast (?b AND 0x7F))"
    have "n mod 128 * 2 ^ (7 * k) + unat r < 2 ^ 64" by (rule le_less_trans [OF _ fits]) simp
    then have r: "unat ?r = unat r + n mod 128 * 2 ^ (7 * k)"
      unfolding k(1) using unat_add_group [of r "7 * k" ?b] 1(4) fits varint_byte(3) [of n] by simp
    have k8: "k \<le> 8"
    proof (rule ccontr)
      assume "\<not> k \<le> 8"
      then have "k = 9" using 1(3) by simp
      then show False using 1(2) False by simp
    qed
    have small: "unat ?r < 2 ^ (7 * (k + 1))" unfolding r by (rule group_small [OF 1(4)])
    have nd: "n div 128 < 2 ^ (64 - 7 * (k + 1))"
    proof -
      have "64 - 7 * k = 64 - 7 * (k + 1) + 7" using k8 by simp
      then have "(2 :: nat) ^ (64 - 7 * k) = 2 ^ (64 - 7 * (k + 1)) * 2 ^ 7" by (simp only: power_add)
      then show ?thesis using 1(2) by (simp add: div_less_iff_less_mult)
    qed
    have "unat ?r + n div 128 * 2 ^ (7 * (k + 1)) = unat r + n * 2 ^ (7 * k)" unfolding r by (rule group_value)
    moreover have "length (varint (n div 128)) \<le> left - 1" using 1(5) False by (simp add: varint_rec)
    ultimately have "varint_loop (buffered (varint (n div 128) @ rest) (left - 1) e :: 's pb_istream) (of_nat (7 * (k + 1))) ?r =
        (Some (of_nat (unat r + n * 2 ^ (7 * k))), buffered rest (left - 1 - length (varint (n div 128))) e)"
      using 1(1) [OF False nd _ small, of "left - 1"] k8 by simp
    then
    have "varint_loop (buffered (varint (n div 128) @ rest) (left - 1) e :: 's pb_istream) (of_nat (7 * k) + 7) ?r =
        (Some (of_nat (unat r + n * 2 ^ (7 * k))), buffered rest (left - length (varint n)) e)"
      using False by (simp only: k(2)) (simp add: varint_rec)
    then show ?thesis
      using False 1(5) pos varint_byte(4) [of n]
      by (subst varint_loop.simps) (simp add: varint_rec(2) reading)
  qed
qed

lemma decode_varint [reading]:
  assumes "length (varint (unat v)) \<le> n"
  shows "pb_decode_varint (buffered (varint (unat v) @ rest) n e) = (Some v, buffered rest (n - length (varint (unat v))) e)"
proof -
  have "unat v < 2 ^ 64" using unsigned_less [of v, where ?'a = nat] by simp
  then show ?thesis
    using varint_loop_law [of "unat v" 0 0 n rest e] assms by (simp add: pb_decode_varint_def)
qed

lemma low_nibble: "unat (b :: u8) < 16 \<Longrightarrow> b AND 0x70 = 0"
proof -
  assume "unat b < 16"
  then have "b = take_bit 4 b" by (intro unat_eqI) (simp add: unsigned_take_bit_eq take_bit_nat_def)
  then have "b AND 0x70 = b AND (mask 4 AND 0x70)" by (metis take_bit_eq_mask and.assoc)
  then show ?thesis by (simp add: mask_eq_exp_minus_1)
qed

lemma varint32_loop_law:
  assumes "n < 2 ^ (32 - 7 * k)" "k \<le> 4" "unat r < 2 ^ (7 * k)" "length (varint n) \<le> left"
  shows "\<exists>b bitpos. varint32_loop (buffered (varint n @ rest) left e :: 's pb_istream) (of_nat (7 * k)) r =
     (Some (of_nat (unat r + n * 2 ^ (7 * k)), b, bitpos), buffered rest (left - length (varint n)) e) \<and>
     \<not> (bitpos = 35 \<and> b AND 0x70 \<noteq> 0)"
  using assms
proof (induction n arbitrary: k r left rule: varint.induct)
  case (1 n)
  have k9: "k \<le> 9" using 1(3) by simp
  note k = bitpos_step [OF k9]
  have pos: "\<not> (of_nat (7 * k) :: u8) \<ge> 32" using k(1) 1(3) by (simp add: word_le_nat_alt)
  have P: "2 ^ (32 - 7 * k) * 2 ^ (7 * k) = (2 :: nat) ^ 32" using 1(3) by (simp add: power_add [symmetric])
  have fits: "n * 2 ^ (7 * k) + unat r < 2 ^ 32"
  proof -
    have "(n + 1) * 2 ^ (7 * k) \<le> 2 ^ (32 - 7 * k) * 2 ^ (7 * k)" using 1(2) by (intro mult_right_mono) simp_all
    then show ?thesis using 1(4) P by simp
  qed
  show ?case
  proof (cases "n < 128")
    case True
    let ?r = "r OR push_bit (unat (of_nat (7 * k) :: u8)) (ucast (byte n AND 0x7F))"
    have "unat ?r = unat r + n * 2 ^ (7 * k)"
      unfolding k(1) using unat_add_group [of r "7 * k" "byte n"] 1(4) fits varint_byte(1) [OF True] by simp
    then have "?r = of_nat (unat r + n * 2 ^ (7 * k))" by (rule word_of_unat)
    moreover have "byte n AND 0x70 = 0" if "(of_nat (7 * k) :: u8) + 7 = 35"
    proof -
      have "unat (of_nat (7 * (k + 1)) :: u8) = unat (35 :: u8)" using that k(2) by metis
      then have "7 * (k + 1) = 35" using bitpos_step(1) [of "k + 1"] 1(3) by simp
      then have "n < 16" using 1(2) by simp
      then show ?thesis by (intro low_nibble) simp
    qed
    ultimately show ?thesis
      using True 1(5) pos varint_byte(2) [OF True]
      by (subst varint32_loop.simps) (auto simp: varint_rec reading Let_def)
  next
    case False
    let ?b = "byte (n mod 128 + 128)"
    let ?r = "r OR push_bit (unat (of_nat (7 * k) :: u8)) (ucast (?b AND 0x7F))"
    have "n mod 128 * 2 ^ (7 * k) + unat r < 2 ^ 32" by (rule le_less_trans [OF _ fits]) simp
    then have r: "unat ?r = unat r + n mod 128 * 2 ^ (7 * k)"
      unfolding k(1) using unat_add_group [of r "7 * k" ?b] 1(4) fits varint_byte(3) [of n] by simp
    have k3: "k \<le> 3"
    proof (rule ccontr)
      assume "\<not> k \<le> 3"
      then have "k = 4" using 1(3) by simp
      then show False using 1(2) False by simp
    qed
    have small: "unat ?r < 2 ^ (7 * (k + 1))" unfolding r by (rule group_small [OF 1(4)])
    have nd: "n div 128 < 2 ^ (32 - 7 * (k + 1))"
    proof -
      have "32 - 7 * k = 32 - 7 * (k + 1) + 7" using k3 by simp
      then have "(2 :: nat) ^ (32 - 7 * k) = 2 ^ (32 - 7 * (k + 1)) * 2 ^ 7" by (simp only: power_add)
      then show ?thesis using 1(2) by (simp add: div_less_iff_less_mult)
    qed
    have "unat ?r + n div 128 * 2 ^ (7 * (k + 1)) = unat r + n * 2 ^ (7 * k)" unfolding r by (rule group_value)
    moreover have "length (varint (n div 128)) \<le> left - 1" using 1(5) False by (simp add: varint_rec)
    ultimately have "\<exists>b bitpos. varint32_loop (buffered (varint (n div 128) @ rest) (left - 1) e :: 's pb_istream) (of_nat (7 * (k + 1))) ?r =
        (Some (of_nat (unat r + n * 2 ^ (7 * k)), b, bitpos), buffered rest (left - 1 - length (varint (n div 128))) e) \<and>
        \<not> (bitpos = 35 \<and> b AND 0x70 \<noteq> 0)"
      using 1(1) [OF False nd _ small, of "left - 1"] k3 by simp
    then
    have "\<exists>b bitpos. varint32_loop (buffered (varint (n div 128) @ rest) (left - 1) e :: 's pb_istream) (of_nat (7 * k) + 7) ?r =
        (Some (of_nat (unat r + n * 2 ^ (7 * k)), b, bitpos), buffered rest (left - length (varint n)) e) \<and>
        \<not> (bitpos = 35 \<and> b AND 0x70 \<noteq> 0)"
      using False by (simp only: k(2)) (simp add: varint_rec)
    then show ?thesis
      using False 1(5) pos varint_byte(4) [of n]
      by (subst varint32_loop.simps) (simp add: varint_rec(2) reading Let_def)
  qed
qed

lemma decode_varint32_eof [reading]:
  assumes "n < 2 ^ 32" "length (varint n) \<le> left"
  shows "pb_decode_varint32_eof (buffered (varint n @ rest) left e :: 's pb_istream) =
     ((Some (of_nat n), False), buffered rest (left - length (varint n)) e)"
proof (cases "n < 128")
  case True
  moreover have "ucast (byte n) = (of_nat n :: u32)" using True by (intro unat_eqI) (simp add: unat_ucast unat_of_nat_u32)
  ultimately show ?thesis using assms(2) varint_byte(2) [OF True] by (simp add: varint_rec pb_decode_varint32_eof_def reading)
next
  case False
  let ?b = "byte (n mod 128 + 128)"
  let ?r = "ucast (?b AND 0x7F) :: u32"
  have r: "unat ?r = n mod 128" using varint_byte(3) [of n] by (simp add: unat_ucast u8_low7)
  have "n div 128 < 2 ^ (32 - 7 * 1)" using assms(1) by simp
  moreover have "unat ?r < 2 ^ (7 * 1)" using r by simp
  moreover have "length (varint (n div 128)) \<le> left - 1" using assms(2) False by (simp add: varint_rec)
  ultimately obtain b bitpos where l: "varint32_loop (buffered (varint (n div 128) @ rest) (left - 1) e :: 's pb_istream) (of_nat (7 * 1)) ?r =
     (Some (of_nat (unat ?r + n div 128 * 2 ^ (7 * 1)), b, bitpos), buffered rest (left - 1 - length (varint (n div 128))) e)"
     "\<not> (bitpos = 35 \<and> b AND 0x70 \<noteq> 0)"
    using varint32_loop_law [of "n div 128" 1 ?r "left - 1" rest e] by (metis one_le_numeral)
  have v: "unat ?r + n div 128 * 2 ^ (7 * 1) = n" unfolding r by simp
  show ?thesis
    using l [unfolded v] assms(2) False varint_byte(4) [of n]
    by (simp add: pb_decode_varint32_eof_def varint_rec(2) readbyte_buffered split: if_splits)
qed

lemma decode_varint32 [reading]:
  "n < 2 ^ 32 \<Longrightarrow> length (varint n) \<le> left \<Longrightarrow>
   pb_decode_varint32 (buffered (varint n @ rest) left e) = (Some (of_nat n), buffered rest (left - length (varint n)) e)"
  by (simp add: pb_decode_varint32_def reading)

lemma decode_tag [reading]:
  assumes "0 < unat t" "unat t < 2 ^ 29" "length (tag_bytes t v) \<le> left"
  shows "pb_decode_tag (buffered (tag_bytes t v @ rest) left e) =
     ((Some (wire_of v, t), False), buffered rest (left - length (tag_bytes t v)) e)"
proof -
  let ?n = "unat t * 8 + unat (wire_code (wire_of v))"
  have n: "?n < 2 ^ 32" using assms(2) wire_code_less [of v] by simp
  have u: "unat (of_nat ?n :: u32) = ?n" by (rule unat_of_nat_u32 [OF n])
  have "(of_nat ?n :: u32) \<noteq> 0" using u assms(1) by (metis add_is_0 mult_is_0 not_gr_zero unat_0 zero_neq_numeral)
  moreover have "drop_bit 3 (of_nat ?n :: u32) = t"
    by (rule unat_eqI) (use u wire_code_less [of v] in \<open>simp add: unat_drop_bit del: of_nat_add\<close>)
  moreover have "(of_nat ?n :: u32) AND 7 = wire_code (wire_of v)"
  proof (rule unat_eqI)
    show "unat ((of_nat ?n :: u32) AND 7) = unat (wire_code (wire_of v))"
      using unat_and_mask [of "of_nat ?n :: u32" 3] u wire_code_less [of v] by (simp add: mask_eq_exp_minus_1 del: of_nat_add)
  qed
  moreover have "wire_type_from (wire_code (wire_of v)) = wire_of v" by (cases v) (simp_all add: wire_type_from_def)
  ultimately show ?thesis
    by (simp add: pb_decode_tag_def tag_bytes_def decode_varint32_eof [OF n assms(3) [unfolded tag_bytes_def]] del: of_nat_add)
qed

lemma skip_varint [reading]:
  "length (varint n) \<le> left \<Longrightarrow> pb_skip_varint (buffered (varint n @ rest) left e) = (True, buffered rest (left - length (varint n)) e)"
proof (induction n arbitrary: left rule: varint.induct)
  case (1 n)
  show ?case
  proof (cases "n < 128")
    case True
    then show ?thesis using 1(2) varint_byte(2) [OF True] by (subst pb_skip_varint.simps) (simp add: varint_rec read_one)
  next
    case False
    then have "length (varint (n div 128)) \<le> left - 1" using 1(2) by (simp add: varint_rec)
    from 1(1) [OF False this] show ?thesis
      using False 1(2) varint_byte(4) [of n] by (subst pb_skip_varint.simps) (simp add: varint_rec(2) read_one)
  qed
qed

text \<open>The bytes of a fixed-size integer put together.\<close>

fun or_bytes :: "nat \<Rightarrow> bytes \<Rightarrow> 'a::len word" where
  "or_bytes p [] = 0"
| "or_bytes p (b # bs) = push_bit p (ucast b) OR or_bytes (p + 8) bs"

lemma unat_or_bytes:
  "p + 8 * length bs \<le> LENGTH('a::len) \<Longrightarrow> unat (or_bytes p bs :: 'a word) = 2 ^ p * le_val bs"
proof (induction bs arbitrary: p)
  case (Cons b bs)
  let ?x = "push_bit p (ucast b) :: 'a word" and ?y = "or_bytes (p + 8) bs :: 'a word"
  have "(2 :: nat) ^ (p + 8) \<le> 2 ^ LENGTH('a)" using Cons.prems by (intro power_increasing) simp_all
  then have P: "2 ^ p * 256 \<le> (2 :: nat) ^ LENGTH('a)" by (simp add: power_add)
  have "(2 :: nat) ^ 8 \<le> 2 ^ LENGTH('a)" using Cons.prems by (intro power_increasing) simp_all
  then have b: "unat (ucast b :: 'a word) = unat b" using unat_less_u8 [of b] by (simp add: unat_ucast)
  have xless: "unat b * 2 ^ p < 2 ^ p * 256" using unat_less_u8 [of b] by (simp add: mult.commute)
  then have x: "unat ?x = unat b * 2 ^ p" using less_le_trans [OF xless P] by (simp add: unat_push_bit b)
  have y: "unat ?y = 2 ^ p * (256 * le_val bs)" using Cons.IH [of "p + 8"] Cons.prems by (simp add: power_add)
  have "unat (?y OR ?x) = unat ?y + unat ?x"
  proof (rule unat_or_dvd [of _ "p + 8"])
    show "unat ?x < 2 ^ (p + 8)" using x xless by (simp add: power_add)
    show "2 ^ (p + 8) dvd unat ?y" using y by (simp add: power_add dvd_def mult.assoc)
    have "unat ?y + unat ?x = 2 ^ p * le_val (b # bs)" using x y by (simp add: algebra_simps)
    also have "\<dots> < 2 ^ p * 256 ^ length (b # bs)" using le_val_less [of "b # bs"] by (simp only: mult_less_cancel1) simp
    also have "\<dots> = 2 ^ (p + 8 * length (b # bs))" by (simp add: power_add power_mult)
    also have "\<dots> \<le> 2 ^ LENGTH('a)" using Cons.prems by (intro power_increasing) simp_all
    finally show "unat ?y + unat ?x < 2 ^ LENGTH('a)" .
  qed
  then show ?case using x y by (simp add: or.commute algebra_simps)
qed simp

lemma decode_fixed32 [reading]:
  assumes "length v = 4" "4 \<le> left"
  shows "pb_decode_fixed32 (buffered (v @ rest) left e) = (Some (of_nat (le_val v)), buffered rest (left - 4) e)"
proof -
  obtain a b c d where v: "v = [a, b, c, d]" using assms(1) by (auto simp: numeral_eq_Suc length_Suc_conv)
  have "or_bytes 0 v = (of_nat (le_val v) :: u32)"
    using unat_or_bytes [of 0 v, where 'a = 32] assms(1) by (intro word_of_unat) simp
  moreover have "or_bytes 0 v = (ucast (v ! 0) OR
      push_bit 8 (ucast (v ! 1)) OR
      push_bit 16 (ucast (v ! 2)) OR
      push_bit 24 (ucast (v ! 3)) :: u32)"
    by (simp add: v)
  ultimately show ?thesis
    by (simp only: pb_decode_fixed32_def read_exact [OF assms] prod.case option.case push_bit_0_id id_apply)
qed

lemma decode_fixed64 [reading]:
  assumes "length v = 8" "8 \<le> left"
  shows "pb_decode_fixed64 (buffered (v @ rest) left e) = (Some (of_nat (le_val v)), buffered rest (left - 8) e)"
proof -
  obtain a b c d f g h i where v: "v = [a, b, c, d, f, g, h, i]" using assms(1) by (auto simp: numeral_eq_Suc length_Suc_conv)
  have "or_bytes 0 v = (of_nat (le_val v) :: u64)"
    using unat_or_bytes [of 0 v, where 'a = 64] assms(1) by (intro word_of_unat) simp
  moreover have "or_bytes 0 v = (ucast (v ! 0) OR
      push_bit 8 (ucast (v ! 1)) OR
      push_bit 16 (ucast (v ! 2)) OR
      push_bit 24 (ucast (v ! 3)) OR
      push_bit 32 (ucast (v ! 4)) OR
      push_bit 40 (ucast (v ! 5)) OR
      push_bit 48 (ucast (v ! 6)) OR
      push_bit 56 (ucast (v ! 7)) :: u64)"
    by (simp add: v)
  ultimately show ?thesis
    by (simp only: pb_decode_fixed64_def read_exact [OF assms] prod.case option.case push_bit_0_id id_apply)
qed

lemma unzigzag: "(if zigzag v AND 1 \<noteq> 0 then NOT (drop_bit 1 (zigzag v)) else drop_bit 1 (zigzag v)) = v"
proof -
  have p: "bit (v * 2) (Suc n) \<longleftrightarrow> n < 63 \<and> bit v n" for n
    using bit_push_bit_iff [of 1 v "Suc n"] by simp
  show ?thesis
  proof (cases "sint v < 0")
    case True
    then have b: "bit v 63" using bit_last_iff [of v] by simp
    have "zigzag v AND 1 \<noteq> 0" using True by (simp add: zigzag_def and_one_eq mod2_eq_if)
    moreover have "NOT (drop_bit 1 (zigzag v)) = v"
    proof (rule bit_word_eqI)
      fix n assume "n < LENGTH(64)"
      then show "bit (NOT (drop_bit 1 (zigzag v))) n = bit v n"
        using True b by (cases "n = 63") (auto simp: zigzag_def bit_simps p)
    qed
    ultimately show ?thesis by simp
  next
    case False
    then have b: "\<not> bit v 63" using bit_last_iff [of v] by simp
    have "zigzag v AND 1 = 0" using False by (simp add: zigzag_def and_one_eq mod2_eq_if)
    moreover have "drop_bit 1 (zigzag v) = v"
    proof (rule bit_word_eqI)
      fix n assume "n < LENGTH(64)"
      then show "bit (drop_bit 1 (zigzag v)) n = bit v n"
        using False b p [of 63] by (cases "n = 63") (auto simp: zigzag_def bit_simps p)
    qed
    ultimately show ?thesis by simp
  qed
qed

lemma decode_svarint [reading]:
  "length (varint (unat (zigzag v))) \<le> left \<Longrightarrow>
   pb_decode_svarint (buffered (varint (unat (zigzag v)) @ rest) left e) = (Some v, buffered rest (left - length (varint (unat (zigzag v)))) e)"
  using unzigzag [of v] by (simp add: pb_decode_svarint_def decode_varint)

section \<open>Sequences of fields\<close>

text \<open>The decoders, called for the values of a schema: the shape of a value is its kind.\<close>

fun shape :: "pb_value \<Rightarrow> pb_value" where
  "shape (Varint _) = Varint 0"
| "shape (Svarint _) = Svarint 0"
| "shape (Fixed32 _) = Fixed32 []"
| "shape (Fixed64 _) = Fixed64 []"
| "shape (String _) = String []"

fun decode_payload :: "pb_value \<Rightarrow> 's pb_istream \<Rightarrow> pb_value option \<times> 's pb_istream" where
  "decode_payload (Varint _) stream = (case pb_decode_varint stream of (r, stream) \<Rightarrow> (map_option Varint r, stream))"
| "decode_payload (Svarint _) stream = (case pb_decode_svarint stream of (r, stream) \<Rightarrow> (map_option Svarint r, stream))"
| "decode_payload (Fixed32 _) stream =
     (case pb_decode_fixed32 stream of (r, stream) \<Rightarrow> (map_option (\<lambda>w. Fixed32 (le_bytes 4 (unat w))) r, stream))"
| "decode_payload (Fixed64 _) stream =
     (case pb_decode_fixed64 stream of (r, stream) \<Rightarrow> (map_option (\<lambda>w. Fixed64 (le_bytes 8 (unat w))) r, stream))"
| "decode_payload (String _) stream =
     (case pb_make_string_substream stream of
        (None, stream) \<Rightarrow> (None, stream)
      | (Some substream, stream) \<Rightarrow>
          (case pb_read substream (bytes_left substream) of
             (None, _) \<Rightarrow> (None, stream)
           | (Some bs, substream) \<Rightarrow>
               (case pb_close_string_substream stream substream of
                  (ok, stream) \<Rightarrow> (if ok then Some (String bs) else None, stream))))"

fun decode_values :: "pb_value list \<Rightarrow> 's pb_istream \<Rightarrow> (u32 \<times> pb_value) list option \<times> 's pb_istream" where
  "decode_values [] stream =
     (case pb_decode_tag stream of
        ((None, eof), stream) \<Rightarrow> (if eof then Some [] else None, stream)
      | ((Some _, _), stream) \<Rightarrow> (None, stream))"
| "decode_values (v # vs) stream =
     (case pb_decode_tag stream of
        ((Some (w, t), _), stream) \<Rightarrow>
          if w \<noteq> wire_of v then (None, stream)
          else (case decode_payload v stream of
                  (None, stream) \<Rightarrow> (None, stream)
                | (Some x, stream) \<Rightarrow> (case decode_values vs stream of (r, stream) \<Rightarrow> (map_option (\<lambda>fs. (t, x) # fs) r, stream)))
      | ((None, _), stream) \<Rightarrow> (None, stream))"

text \<open>A reader that knows no field skips all of them and returns their tags.\<close>

fun skip_values :: "nat \<Rightarrow> 's pb_istream \<Rightarrow> (pb_wire_type \<times> u32) list option \<times> 's pb_istream" where
  "skip_values 0 stream =
     (case pb_decode_tag stream of
        ((None, eof), stream) \<Rightarrow> (if eof then Some [] else None, stream)
      | ((Some _, _), stream) \<Rightarrow> (None, stream))"
| "skip_values (Suc n) stream =
     (case pb_decode_tag stream of
        ((Some (w, t), _), stream) \<Rightarrow>
          (case pb_skip_field stream w of
             (False, stream) \<Rightarrow> (None, stream)
           | (True, stream) \<Rightarrow> (case skip_values n stream of (r, stream) \<Rightarrow> (map_option (\<lambda>l. (w, t) # l) r, stream)))
      | ((None, _), stream) \<Rightarrow> (None, stream))"

definition field_ok :: "u32 \<times> pb_value \<Rightarrow> bool" where
  "field_ok f = (case f of (t, v) \<Rightarrow> 0 < unat t \<and> unat t < 2 ^ 29 \<and> value_ok v \<and>
     (case v of String x \<Rightarrow> length x < 2 ^ 32 | _ \<Rightarrow> True))"

lemma string_substream:
  assumes "length x < 2 ^ 32" "length (varint (length x) @ x) \<le> left"
  shows "decode_payload (String y) (buffered (varint (length x) @ x @ rest) left e) =
    (Some (String x), buffered rest (left - length (varint (length x) @ x)) e)"
proof -
  let ?l = "left - length (varint (length x))"
  have u: "unat (of_nat (length x) :: u32) = length x" using assms(1) by (rule unat_of_nat_u32)
  have m: "pb_make_string_substream (buffered (varint (length x) @ x @ rest) left e) =
      (Some (buffered (x @ rest) (length x) e), buffered (x @ rest) (?l - length x) e)"
    using assms by (simp add: pb_make_string_substream_def reading u) (simp add: buffered_def)
  have r: "pb_read (buffered (x @ rest) (length x) e) (length x) = (Some x, buffered rest 0 e)"
    using read_buffered [of x "length x" rest e] by (simp add: read_buffered)
  have c: "pb_close_string_substream (buffered (x @ rest) n e) (buffered rest 0 e) = (True, buffered rest n e)" for n
    by (simp add: pb_close_string_substream_def buffered_def)
  show ?thesis by (simp add: m inp_buffered r c)
qed

lemma decode_payload_law:
  assumes "field_ok (t, v)" "length (payload_bytes v) \<le> left"
  shows "decode_payload (shape v) (buffered (payload_bytes v @ rest) left e) =
    (Some v, buffered rest (left - length (payload_bytes v)) e)"
proof (cases v)
  case (Fixed32 x)
  then have x: "length x = 4" using assms(1) by (simp add: field_ok_def)
  then have "unat (of_nat (le_val x) :: u32) = le_val x" using le_val_less [of x] by (intro unat_of_nat_u32) simp
  then show ?thesis using assms x le_bytes_le_val [of x] by (simp add: Fixed32 decode_fixed32)
next
  case (Fixed64 x)
  then have x: "length x = 8" using assms(1) by (simp add: field_ok_def)
  then have "unat (of_nat (le_val x) :: u64) = le_val x" using le_val_less [of x] by (intro unat_of_nat_u64) simp
  then show ?thesis using assms x le_bytes_le_val [of x] by (simp add: Fixed64 decode_fixed64)
next
  case (String x)
  then show ?thesis using assms string_substream [of x left "[]" rest e] by (simp add: field_ok_def string_substream del: decode_payload.simps)
qed (use assms in \<open>simp_all add: reading\<close>)

lemma skip_field_law:
  assumes "field_ok (t, v)" "length (payload_bytes v) \<le> left"
  shows "pb_skip_field (buffered (payload_bytes v @ rest) left e) (wire_of v) =
    (True, buffered rest (left - length (payload_bytes v)) e)"
proof (cases v)
  case (String x)
  then have "unat (of_nat (length x) :: u32) = length x" using assms(1) by (intro unat_of_nat_u32) (simp add: field_ok_def)
  then show ?thesis using String assms
    by (simp add: field_ok_def pb_skip_field_def pb_skip_string_def decode_varint32 read_null_buffered)
next
  case (Fixed32 x)
  then have x: "length x = 4" using assms(1) by (simp add: field_ok_def)
  then show ?thesis using Fixed32 assms by (simp add: pb_skip_field_def read_null_exact)
next
  case (Fixed64 x)
  then have x: "length x = 8" using assms(1) by (simp add: field_ok_def)
  then show ?thesis using Fixed64 assms by (simp add: pb_skip_field_def read_null_exact)
qed (use assms in \<open>simp_all add: pb_skip_field_def skip_varint\<close>)

definition at_end :: "'s pb_istream \<Rightarrow> bool" where
  "at_end stream \<longleftrightarrow> bytes_left stream = 0"

lemma decode_tag_end:
  "pb_decode_tag (buffered [] 0 e) = ((None, True), pb_set_ierror (buffered [] 0 e) ''end-of-stream'')"
  "at_end (pb_set_ierror (buffered [] 0 e) m)"
  by (simp_all add: pb_decode_tag_def pb_decode_varint32_eof_def pb_readbyte_def buffered_def pb_set_ierror_def at_end_def)

lemma decode_values_law:
  "list_all field_ok fs \<Longrightarrow>
   \<exists>s. decode_values (map (\<lambda>f. shape (snd f)) fs) (buffered (wire_bytes fs) (length (wire_bytes fs)) e :: 's pb_istream) = (Some fs, s) \<and> at_end s"
proof (induction fs)
  case Nil
  show ?case by (simp add: wire_bytes_def decode_tag_end)
next
  case (Cons f fs)
  obtain t v where f: "f = (t, v)" by force
  have ok: "field_ok (t, v)" "0 < unat t" "unat t < 2 ^ 29" using Cons.prems f by (simp_all add: field_ok_def)
  have w: "wire_of (shape v) = wire_of v" by (cases v) simp_all
  have b: "wire_bytes (f # fs) = tag_bytes t v @ payload_bytes v @ wire_bytes fs" by (simp add: f wire_bytes_def)
  obtain s where s: "decode_values (map (\<lambda>f. shape (snd f)) fs) (buffered (wire_bytes fs) (length (wire_bytes fs)) e :: 's pb_istream) = (Some fs, s)"
    "at_end s" using Cons by auto
  then show ?case unfolding b by (simp add: f decode_tag [OF ok(2,3)] decode_payload_law [OF ok(1)] w)
qed

lemma skip_values_law:
  "list_all field_ok fs \<Longrightarrow>
   \<exists>s. skip_values (length fs) (buffered (wire_bytes fs) (length (wire_bytes fs)) e :: 's pb_istream) =
     (Some (map (\<lambda>(t, v). (wire_of v, t)) fs), s) \<and> at_end s"
proof (induction fs)
  case Nil
  show ?case by (simp add: wire_bytes_def decode_tag_end)
next
  case (Cons f fs)
  obtain t v where f: "f = (t, v)" by force
  have ok: "field_ok (t, v)" "0 < unat t" "unat t < 2 ^ 29" using Cons.prems f by (simp_all add: field_ok_def)
  have b: "wire_bytes (f # fs) = tag_bytes t v @ payload_bytes v @ wire_bytes fs" by (simp add: f wire_bytes_def)
  obtain s where s: "skip_values (length fs) (buffered (wire_bytes fs) (length (wire_bytes fs)) e :: 's pb_istream) =
     (Some (map (\<lambda>(t, v). (wire_of v, t)) fs), s)" "at_end s" using Cons by auto
  then show ?case unfolding b by (simp add: f decode_tag [OF ok(2,3)] skip_field_law [OF ok(1)])
qed

section \<open>Integer fields\<close>

lemma scast_scast:
  fixes w :: "'a::len word"
  assumes "LENGTH('a) \<le> LENGTH('b::len)" "LENGTH('b) \<le> LENGTH('c::len)"
  shows "(scast (ucast (scast w :: 'c word) :: 'b word) :: 'c word) = scast w"
proof (rule bit_word_eqI)
  fix n assume "n < LENGTH('c)"
  then show "bit (scast (ucast (scast w :: 'c word) :: 'b word) :: 'c word) n = bit (scast w :: 'c word) n"
    using assms by (auto simp: bit_simps min_def)
qed

lemma ucast_scast: "LENGTH('a) \<le> LENGTH('c) \<Longrightarrow> ucast (scast (w :: 'a::len word) :: 'c::len word) = w"
proof (rule bit_word_eqI)
  fix n assume "n < LENGTH('a)" "LENGTH('a) \<le> LENGTH('c)"
  then have "min (LENGTH('a) - Suc 0) n = n" "n < LENGTH('c)" by simp_all
  then show "bit (ucast (scast w :: 'c word) :: 'a word) n = bit w n" using \<open>n < LENGTH('a)\<close> by (simp add: bit_simps)
qed

lemma ucast_ucast: "LENGTH('a) \<le> LENGTH('c) \<Longrightarrow> ucast (ucast (w :: 'a::len word) :: 'c::len word) = w"
  by (rule bit_word_eqI) (auto simp: bit_simps)

lemma store_self:
  assumes "length src = n" "length dest = n" "8 * n \<le> LENGTH('a::len)"
  shows "store n (of_nat (le_val src) :: 'a word) dest = src"
proof -
  have "le_val src < 256 ^ n" using le_val_less [of src] assms(1) by simp
  also have "\<dots> \<le> 2 ^ LENGTH('a)" using assms(3) power_increasing [of "8 * n" "LENGTH('a)" "2 :: nat"] by (simp add: power_mult)
  finally have "unat (of_nat (le_val src) :: 'a word) = le_val src" by (simp only: unat_of_nat) simp
  then show ?thesis using assms(1,2) le_bytes_le_val [of src] by (simp add: store_def mem_write_def)
qed

definition int_size :: "nat \<Rightarrow> bool" where
  "int_size n \<longleftrightarrow> n = 1 \<or> n = 2 \<or> n = 4 \<or> n = 8"

text \<open>A value that was read from the field fits the field and is stored back as it was.\<close>

lemma clamp_signed_read:
  assumes "int_size n" "length src = n" "length dest = n"
  shows "\<exists>v. read_signed n src = Some v \<and> clamp_signed n v dest = Some (src, v) \<and>
     (if n = 8 then v else scast (ucast v :: u32)) = v"
  using assms store_self [of src n dest, where 'a = 8] store_self [of src n dest, where 'a = 16]
    store_self [of src n dest, where 'a = 32] store_self [of src n dest, where 'a = 64]
  by (auto simp: int_size_def read_signed_def clamp_signed_def scast_scast ucast_scast)

lemma clamp_unsigned_read:
  assumes "int_size n" "length src = n" "length dest = n"
  shows "\<exists>v. read_unsigned n src = Some v \<and> clamp_unsigned n v dest = Some (src, v)"
  using assms store_self [of src n dest, where 'a = 8] store_self [of src n dest, where 'a = 16]
    store_self [of src n dest, where 'a = 32] store_self [of src n dest, where 'a = 64]
  by (auto simp: int_size_def read_unsigned_def clamp_unsigned_def ucast_ucast)

datatype int_kind = Int_field | Uint_field | Sint_field

fun enc_of :: "int_kind \<Rightarrow> pb_field \<Rightarrow> bytes \<Rightarrow> 's pb_ostream \<Rightarrow> bool \<times> 's pb_ostream" where
  "enc_of Int_field field src stream = pb_enc_varint stream field src"
| "enc_of Uint_field field src stream = pb_enc_uvarint stream field src"
| "enc_of Sint_field field src stream = pb_enc_svarint stream field src"

fun dec_of :: "int_kind \<Rightarrow> pb_field \<Rightarrow> bytes \<Rightarrow> 's pb_istream \<Rightarrow> (bool \<times> bytes) \<times> 's pb_istream" where
  "dec_of Int_field field dest stream = pb_dec_varint stream field dest"
| "dec_of Uint_field field dest stream = pb_dec_uvarint stream field dest"
| "dec_of Sint_field field dest stream = pb_dec_svarint stream field dest"

lemma int_codec:
  assumes "int_size (data_size field)" "length src = data_size field" "length dest = data_size field"
  shows "\<exists>bs. length bs \<le> 10 \<and> emits (enc_of kind field src :: 's pb_ostream \<Rightarrow> bool \<times> 's pb_ostream) bs \<and>
     (\<forall>rest left e. length bs \<le> left \<longrightarrow>
        dec_of kind field dest (buffered (bs @ rest) left e :: 'r pb_istream) = ((True, src), buffered rest (left - length bs) e))"
proof (cases kind)
  case Int_field
  obtain v where v: "read_signed (data_size field) src = Some v" "clamp_signed (data_size field) v dest = Some (src, v)"
    "(if data_size field = 8 then v else scast (ucast v :: u32)) = v"
    using clamp_signed_read [OF assms] by blast
  have "emits (enc_of kind field src :: 's pb_ostream \<Rightarrow> bool \<times> 's pb_ostream) (varint (unat v))"
    by (rule emits_cong [OF _ emits_varint]) (simp add: Int_field pb_enc_varint_def v(1))
  moreover have "dec_of kind field dest (buffered (varint (unat v) @ rest) left e :: 'r pb_istream) =
      ((True, src), buffered rest (left - length (varint (unat v))) e)" if "length (varint (unat v)) \<le> left" for rest left e
    by (simp only: Int_field dec_of.simps pb_dec_varint_def decode_varint [OF that] prod.case option.case Let_def v clamped_result_def) simp
  ultimately show ?thesis using varint_le_10 [of v] by blast
next
  case Uint_field
  obtain v where v: "read_unsigned (data_size field) src = Some v" "clamp_unsigned (data_size field) v dest = Some (src, v)"
    using clamp_unsigned_read [OF assms] by blast
  have "emits (enc_of kind field src :: 's pb_ostream \<Rightarrow> bool \<times> 's pb_ostream) (varint (unat v))"
    by (rule emits_cong [OF _ emits_varint]) (simp add: Uint_field pb_enc_uvarint_def v(1))
  then show ?thesis
    by (intro exI [of _ "varint (unat v)"]) (simp add: Uint_field pb_dec_uvarint_def decode_varint v clamped_result_def varint_le_10)
next
  case Sint_field
  obtain v where v: "read_signed (data_size field) src = Some v" "clamp_signed (data_size field) v dest = Some (src, v)"
    using clamp_signed_read [OF assms] by blast
  have "emits (enc_of kind field src :: 's pb_ostream \<Rightarrow> bool \<times> 's pb_ostream) (varint (unat (zigzag v)))"
    by (rule emits_cong [OF _ emits_svarint]) (simp add: Sint_field pb_enc_svarint_def v(1))
  then show ?thesis
    by (intro exI [of _ "varint (unat (zigzag v))"]) (simp add: Sint_field pb_dec_svarint_def decode_svarint v clamped_result_def varint_le_10)
qed

section \<open>Streams that shrink\<close>

text \<open>A stream on a buffer stays within it.\<close>

definition istream_wf :: "'s pb_istream \<Rightarrow> bool" where
  "istream_wf stream \<longleftrightarrow> (case inp stream of Buf_read src \<Rightarrow> bytes_left stream \<le> length src | User_read f s \<Rightarrow> True)"

lemma istream_wf_error [simp]:
  "istream_wf (pb_set_ierror stream m) = istream_wf stream" "bytes_left (pb_set_ierror stream m) = bytes_left stream"
  by (simp_all add: istream_wf_def pb_set_ierror_def split: istate.split)

text \<open>What is left in the memory of a buffer behind the end of the stream; it never gets less.\<close>

definition room :: "'s pb_istream \<Rightarrow> int option" where
  "room stream = (case inp stream of Buf_read src \<Rightarrow> Some (int (length src) - int (bytes_left stream)) | User_read f s \<Rightarrow> None)"

definition shrinks :: "'s pb_istream \<Rightarrow> 's pb_istream \<Rightarrow> bool" where
  "shrinks stream s \<longleftrightarrow> rel_option (\<le>) (room stream) (room s) \<and> bytes_left s \<le> bytes_left stream"

lemma istream_wf_room: "istream_wf stream \<longleftrightarrow> (\<forall>r. room stream = Some r \<longrightarrow> 0 \<le> r)"
  by (simp add: istream_wf_def room_def split: istate.split)

lemma room_error [simp]: "room (pb_set_ierror stream m) = room stream"
  by (simp add: room_def pb_set_ierror_def split: istate.split)

lemma shrinks_wf: "shrinks stream s \<Longrightarrow> istream_wf stream \<Longrightarrow> istream_wf s"
  by (cases "room stream"; cases "room s") (auto simp: shrinks_def istream_wf_room)

lemma shrinks_left: "shrinks stream s \<Longrightarrow> bytes_left s \<le> bytes_left stream"
  by (simp add: shrinks_def)

lemma shrinks_refl [simp]: "shrinks stream stream"
  by (simp add: shrinks_def option.rel_refl)

lemma shrinks_trans [trans]: "shrinks s1 s2 \<Longrightarrow> shrinks s2 s3 \<Longrightarrow> shrinks s1 s3"
  by (cases "room s1"; cases "room s2"; cases "room s3") (auto simp: shrinks_def)

lemma shrinks_error [simp]: "shrinks s1 (pb_set_ierror s2 m) = shrinks s1 s2"
  by (simp add: shrinks_def)

lemma call_read_length:
  assumes "istream_wf stream" "n \<le> bytes_left stream" "call_read (inp stream) n = (Some bs, i)"
  shows "length bs = n"
  using assms by (cases "inp stream") (auto simp: istream_wf_def buf_read_def split: prod.splits)

lemma call_read_shrinks:
  assumes "call_read (inp stream) n = (r, i)" "n \<le> bytes_left stream"
  shows "shrinks stream (stream\<lparr>inp := i, bytes_left := bytes_left stream - n\<rparr>)" "r = None \<Longrightarrow> shrinks stream (stream\<lparr>inp := i\<rparr>)"
  using assms by (cases "inp stream"; auto simp: shrinks_def room_def buf_read_def split: prod.splits)+

lemma pb_read_shrinks:
  assumes "pb_read stream n = (r, s)"
  shows "shrinks stream s" "r \<noteq> None \<Longrightarrow> bytes_left s + n = bytes_left stream"
  using assms call_read_shrinks [of stream n]
  by (auto simp: pb_read_def Let_def split: if_splits prod.splits option.splits)

lemma pb_read_length: "istream_wf stream \<Longrightarrow> pb_read stream n = (Some bs, s) \<Longrightarrow> length bs = n"
  using call_read_length [of stream n]
  by (auto simp: pb_read_def Let_def split: if_splits prod.splits option.splits)

lemma pb_readbyte_shrinks: "pb_readbyte stream = (r, s) \<Longrightarrow> shrinks stream s"
  using call_read_shrinks [of stream 1]
  by (auto simp: pb_readbyte_def Let_def split: if_splits prod.splits option.splits)

lemma varint32_loop_shrinks: "shrinks stream (snd (varint32_loop stream bitpos result))"
proof (induction stream bitpos result rule: varint32_loop.induct)
  case (1 stream bitpos result)
  obtain r s where rb: "pb_readbyte stream = (r, s)" by force
  note sh = pb_readbyte_shrinks [OF rb]
  show ?case
  proof (cases r)
    case None
    then show ?thesis using rb sh by (subst varint32_loop.simps) simp
  next
    case (Some b)
    note IH = shrinks_trans [OF sh 1(1) [OF rb [symmetric] Some refl refl, simplified]]
    show ?thesis using rb Some sh IH by (subst varint32_loop.simps) (auto simp: Let_def)
  qed
qed

lemma varint_loop_shrinks: "shrinks stream (snd (varint_loop stream bitpos result))"
proof (induction stream bitpos result rule: varint_loop.induct)
  case (1 stream bitpos result)
  obtain r s where rb: "pb_readbyte stream = (r, s)" by force
  note sh = pb_readbyte_shrinks [OF rb]
  show ?case
  proof (cases r)
    case None
    then show ?thesis using rb sh by (subst varint_loop.simps) simp
  next
    case (Some b)
    note IH = 1(1) [OF _ rb [symmetric] Some refl]
    show ?thesis using rb Some sh shrinks_trans [OF sh IH] by (subst varint_loop.simps) (auto simp: Let_def)
  qed
qed

text \<open>A number that is decoded takes at least one byte.\<close>

lemma decode_varint32_eof_shrinks:
  assumes "pb_decode_varint32_eof stream = ((r, eof), s)"
  shows "shrinks stream s \<and> (r \<noteq> None \<longrightarrow> bytes_left s < bytes_left stream)"
proof -
  obtain b s1 where rb: "pb_readbyte stream = (b, s1)" by force
  note sh = pb_readbyte_shrinks [OF rb]
  obtain l s2 where lp: "varint32_loop s1 7 (ucast (the b AND 0x7F)) = (l, s2)" by force
  have sh2: "shrinks s1 s2" using varint32_loop_shrinks [of s1 7 "ucast (the b AND 0x7F)"] lp by simp
  show ?thesis
  proof (cases b)
    case None
    then show ?thesis using assms rb sh by (simp add: pb_decode_varint32_eof_def)
  next
    case (Some c)
    have "bytes_left s1 < bytes_left stream" using pb_readbyte_decreases rb Some by blast
    then show ?thesis using assms rb Some sh lp shrinks_trans [OF sh sh2] shrinks_left [OF sh2]
      by (auto simp: pb_decode_varint32_eof_def split: option.splits if_splits)
  qed
qed

lemma decode_varint32_shrinks:
  assumes "pb_decode_varint32 stream = (r, s)"
  shows "shrinks stream s \<and> (r \<noteq> None \<longrightarrow> bytes_left s < bytes_left stream)"
proof -
  obtain r' eof s' where "pb_decode_varint32_eof stream = ((r', eof), s')" by (metis surj_pair)
  with decode_varint32_eof_shrinks [OF this] assms show ?thesis by (simp add: pb_decode_varint32_def)
qed

lemma decode_varint_shrinks:
  assumes "pb_decode_varint stream = (r, s)"
  shows "shrinks stream s \<and> (r \<noteq> None \<longrightarrow> bytes_left s < bytes_left stream)"
proof -
  have "shrinks stream s" using varint_loop_shrinks [of stream 0 0] assms by (simp add: pb_decode_varint_def)
  moreover have "bytes_left s < bytes_left stream" if r: "r \<noteq> None"
  proof -
    obtain b s1 where rb: "pb_readbyte stream = (b, s1)" by force
    have l: "bytes_left s \<le> bytes_left s1" if "varint_loop s1 k x = (r', s)" for k x r'
      using varint_loop_shrinks [of s1 k x] that by (simp add: shrinks_def)
    have "bytes_left s1 < bytes_left stream \<and> bytes_left s \<le> bytes_left s1"
      using assms r rb pb_readbyte_decreases [of stream _ s1]
      by (auto simp: pb_decode_varint_def varint_loop.simps [of stream 0 0] Let_def split: option.splits if_splits dest: l)
    then show ?thesis by simp
  qed
  ultimately show ?thesis by simp
qed

section \<open>Strings within their storage\<close>

lemma unat_plus_1: "\<not> unat (sz + 1) < unat sz \<Longrightarrow> unat (sz + 1) = unat (sz :: u32) + 1"
proof (rule ccontr)
  assume a: "\<not> unat (sz + 1) < unat sz" "unat (sz + 1) \<noteq> unat sz + 1"
  have less: "unat sz < 2 ^ 32" using unsigned_less [of sz, where ?'a = nat] by simp
  have m: "unat (sz + 1) = (unat sz + 1) mod 2 ^ 32" by (simp add: unat_word_ariths)
  with a(2) less have e: "unat sz + 1 = 2 ^ 32" by (metis Suc_eq_plus1 Suc_lessI mod_less)
  with m have "unat (sz + 1) = 0" by simp
  then show False using a(1) e by simp
qed

lemma read_at_within:
  assumes "istream_wf stream" "read_at a n (m, stream) = (ok, m', s)"
  shows "shrinks stream s \<and> same_outside {a..<a + int n} m m'"
proof -
  obtain r s1 where rd: "pb_read stream n = (r, s1)" by force
  show ?thesis
    using assms rd pb_read_shrinks(1) [OF rd] pb_read_length [OF assms(1)]
    by (auto simp: read_at_def intro!: same_outside_store split: option.splits)
qed

lemma le_same_outside: "same_outside A m m' \<Longrightarrow> A \<subseteq> B \<Longrightarrow> same_outside B m m'"
  by (auto simp: same_outside_def)

text \<open>A string member of fixed size.\<close>

lemma dec_string_static:
  assumes "istream_wf stream" "PB_ATYPE (type field) \<noteq> PB_ATYPE_POINTER"
    and "pb_dec_string realloc field dest (m, stream) = (ok, m', s')"
  shows "shrinks stream s' \<and> (ok \<longrightarrow> bytes_left s' < bytes_left stream) \<and>
     same_outside {dest..<dest + int (data_size field)} m m' \<and> (ok \<longrightarrow> (\<exists>n < data_size field. m' (dest + int n) = 0))"
proof -
  obtain r s1 where v: "pb_decode_varint32 stream = (r, s1)" by force
  have sh: "shrinks stream s1" "r \<noteq> None \<longrightarrow> bytes_left s1 < bytes_left stream" using decode_varint32_shrinks [OF v] by auto
  have wf1: "istream_wf s1" using sh(1) assms(1) by (rule shrinks_wf)
  show ?thesis
  proof (cases "\<exists>sz. r = Some sz \<and> \<not> unat (sz + 1) < unat sz \<and> unat (sz + 1) \<le> data_size field")
    case True
    then obtain sz where sz: "r = Some sz" "\<not> unat (sz + 1) < unat sz" "unat sz < data_size field"
      using unat_plus_1 by force
    obtain status m1 s2 where rd: "read_at dest (unat sz) (m, s1) = (status, m1, s2)" by (metis surj_pair)
    have res: "ok = status" "m' = mem_store m1 (dest + int (unat sz)) [0]" "s' = s2"
      using assms(2,3) v sz rd unat_plus_1 [OF sz(2)] by (auto simp: pb_dec_string_def Let_def)
    note within = read_at_within [OF wf1 rd]
    have "same_outside {dest..<dest + int (data_size field)} m m1"
      by (rule le_same_outside [of "{dest..<dest + int (unat sz)}"]) (use within sz(3) in \<open>auto simp del: of_nat_unat\<close>)
    also have "same_outside {dest..<dest + int (data_size field)} m1 m'"
      unfolding res(2) by (rule same_outside_store) (use sz(3) in \<open>simp del: of_nat_unat\<close>)
    finally have "same_outside {dest..<dest + int (data_size field)} m m'" .
    moreover have "m' (dest + int (unat sz)) = 0" by (simp add: res(2) mem_store_def)
    ultimately show ?thesis
      using within sh shrinks_trans [OF sh(1)] shrinks_left [of s1 s2] sz(1,3) res(3) by auto
  next
    case False
    then show ?thesis
      using assms(2,3) v sh by (auto simp: pb_dec_string_def dec_error_def Let_def split: option.splits if_splits)
  qed
qed

section \<open>Two limits of the overflow checks\<close>

text \<open>
  \<open>bitpos\<close> wraps around after 37 bytes, and the bits of a later byte enter the result although the
  number is far too large; and the tenth byte of a 64-bit number may have any bits, all but the
  lowest of which are dropped. Both encodings are accepted, where other numbers that do not fit
  are refused with \<open>varint overflow\<close>.
\<close>

lemma varint32_loop_padding:
  "varint32_loop (buffered (replicate k 0x80 @ rest) (k + left) e :: 's pb_istream) bitpos result =
   varint32_loop (buffered rest left e) (bitpos + 7 * of_nat k) result"
proof (induction k arbitrary: bitpos)
  case (Suc k)
  have "varint32_loop (buffered (replicate (Suc k) 0x80 @ rest) (Suc k + left) e :: 's pb_istream) bitpos result =
      varint32_loop (buffered (replicate k 0x80 @ rest) (k + left) e) (bitpos + 7) result"
    by (subst varint32_loop.simps) (simp add: readbyte_buffered Let_def)
  also have "\<dots> = varint32_loop (buffered rest left e) (bitpos + 7 * of_nat (Suc k)) result"
    by (subst Suc.IH) (simp add: algebra_simps)
  finally show ?case .
qed simp

lemma pb_varint32_bitpos_wraps:
  "fst (pb_decode_varint32 (pb_istream_from_buffer (replicate 37 0x80 @ [1]) 38 :: unit pb_istream)) = Some 8"
proof -
  have w: "(7 :: u8) + 7 * of_nat 36 = 3" by code_simp
  have "varint32_loop (buffered (replicate 36 0x80 @ [1]) (36 + 1) None :: unit pb_istream) 7 0 = varint32_loop (buffered [1] 1 None) 3 0"
    unfolding varint32_loop_padding w ..
  also have "\<dots> = (Some (8, 1, 10), buffered [] 0 None)"
    by (subst varint32_loop.simps) (simp add: readbyte_buffered Let_def)
  finally have l: "varint32_loop (buffered (replicate 36 0x80 @ [1]) 37 None :: unit pb_istream) 7 0 = (Some (8, 1, 10), buffered [] 0 None)"
    by simp
  have "pb_istream_from_buffer (replicate 37 0x80 @ [1]) 38 = (buffered (0x80 # (replicate 36 0x80 @ [1])) 38 None :: unit pb_istream)"
    by (simp add: pb_istream_from_buffer_def buffered_def numeral_eq_Suc)
  then show ?thesis
    by (simp add: pb_decode_varint32_def pb_decode_varint32_eof_def readbyte_buffered l)
qed

lemma varint_loop_padding:
  "unat bitpos + 7 * k < 64 \<Longrightarrow>
   varint_loop (buffered (replicate k 0x80 @ rest) (k + left) e :: 's pb_istream) bitpos result =
   varint_loop (buffered rest left e) (bitpos + 7 * of_nat k) result"
proof (induction k arbitrary: bitpos)
  case (Suc k)
  have u: "unat (bitpos + 7) = unat bitpos + 7" using Suc.prems by (simp add: unat_word_ariths)
  have "\<not> bitpos \<ge> 64" using Suc.prems by (simp add: word_le_nat_alt)
  then have "varint_loop (buffered (replicate (Suc k) 0x80 @ rest) (Suc k + left) e :: 's pb_istream) bitpos result =
      varint_loop (buffered (replicate k 0x80 @ rest) (k + left) e) (bitpos + 7) result"
    by (subst varint_loop.simps) (simp add: readbyte_buffered Let_def)
  also have "\<dots> = varint_loop (buffered rest left e) (bitpos + 7 * of_nat (Suc k)) result"
    using Suc.prems by (subst Suc.IH) (simp_all add: u algebra_simps)
  finally show ?case .
qed simp

lemma pb_varint_tenth_byte_truncated:
  "fst (pb_decode_varint (pb_istream_from_buffer (replicate 9 0x80 @ [0x7E]) 10 :: unit pb_istream)) = Some 0"
proof -
  have p: "push_bit 63 0x7E = (0 :: u64)" by code_simp
  have "varint_loop (buffered (replicate 9 0x80 @ [0x7E]) (9 + 1) None :: unit pb_istream) 0 0 = varint_loop (buffered [0x7E] 1 None) (0 + 7 * of_nat 9) 0"
    by (rule varint_loop_padding) simp
  also have "\<dots> = (Some 0, buffered [] 0 None)"
    by (subst varint_loop.simps) (simp add: readbyte_buffered Let_def p)
  finally show ?thesis
    by (simp add: pb_decode_varint_def pb_istream_from_buffer_def buffered_def)
qed

section \<open>Properties\<close>

text \<open>
  What the encoder writes, the decoder reads back: tags, wire types, integers, zigzag integers,
  fixed-size integers and strings through substreams, up to the end of the stream.
\<close>

theorem pb_fields_roundtrip:
  assumes "list_all field_ok fs" "length (wire_bytes fs) < 2 ^ 63" "cap \<le> length buf" "length buf < 2 ^ 63"
    and "encode_values fs (pb_ostream_from_buffer buf cap :: unit pb_ostream) = (True, s)" "out s = Buf_write mem n"
  shows "\<exists>s'. decode_values (map (\<lambda>f. shape (snd f)) fs) (pb_istream_from_buffer (take n mem) n :: unit pb_istream) = (Some fs, s') \<and>
     bytes_left s' = 0"
proof -
  have "list_all (\<lambda>(t, v). value_ok v) fs" using assms(1) by (auto simp: list_all_iff field_ok_def)
  from yields_stored [OF emits_values [OF this, where ?'s = unit] assms(2-4)]
  have "take n mem = wire_bytes fs" "n = length (wire_bytes fs)" using assms(5,6) by auto
  then show ?thesis
    using decode_values_law [OF assms(1), of None, where ?'s = unit] by (simp add: pb_istream_from_buffer_def buffered_def at_end_def)
qed

lemma pb_fields_ex_encoded:
  "list_all field_ok pb_fields_ex"
  "\<exists>s. encode_values pb_fields_ex (pb_ostream_from_buffer (replicate 14 0) 14 :: unit pb_ostream) = (True, s) \<and>
     out s = Buf_write (wire_bytes pb_fields_ex) 14"
proof -
  show ok: "list_all field_ok pb_fields_ex" by (simp add: pb_fields_ex_def field_ok_def)
  let ?s = "pb_ostream_from_buffer (replicate 14 0) 14 :: unit pb_ostream"
  have n: "length (wire_bytes pb_fields_ex) = 14" by (simp add: pb_fields_ex_wire(2))
  have "stores ?s (replicate 14 0) 0 (wire_bytes pb_fields_ex, None) (encode_values pb_fields_ex ?s)"
    using yields_buffer [OF emits_values [OF pb_fields_ex_wire(1), where ?'s = unit] _ ostream_wf_fresh(2) fresh_out(2)] n by simp
  with n show "\<exists>s. encode_values pb_fields_ex ?s = (True, s) \<and> out s = Buf_write (wire_bytes pb_fields_ex) 14"
    by (simp add: stores_def stored_def pb_ostream_from_buffer_def mem_write_def)
qed

theorem pb_fields_roundtrip_witness:
  "\<exists>s'. decode_values (map (\<lambda>f. shape (snd f)) pb_fields_ex)
      (pb_istream_from_buffer [8, 0xAC, 2, 18, 2, 0x68, 0x69, 24, 3, 37, 1, 2, 3, 4] 14 :: unit pb_istream) = (Some pb_fields_ex, s') \<and>
     bytes_left s' = 0"
proof -
  obtain s where s: "encode_values pb_fields_ex (pb_ostream_from_buffer (replicate 14 0) 14 :: unit pb_ostream) = (True, s)"
    "out s = Buf_write (wire_bytes pb_fields_ex) 14" using pb_fields_ex_encoded(2) by blast
  from pb_fields_roundtrip [OF pb_fields_ex_encoded(1) _ _ _ s] show ?thesis by (simp add: pb_fields_ex_wire(2))
qed

text \<open>
  C39. A reader that skips unknown fields stays aligned: whatever the fields of a message are,
  \<open>pb_decode_tag\<close> and \<open>pb_skip_field\<close> alone walk over exactly these fields, to the end.
\<close>

theorem pb_skip_field_aligned:
  assumes "list_all field_ok fs"
  shows "\<exists>s. skip_values (length fs) (pb_istream_from_buffer (wire_bytes fs) (length (wire_bytes fs)) :: unit pb_istream) =
     (Some (map (\<lambda>(t, v). (wire_of v, t)) fs), s) \<and> bytes_left s = 0"
  using skip_values_law [OF assms, of None, where ?'s = unit]
  by (simp add: pb_istream_from_buffer_def buffered_def at_end_def)

theorem pb_skip_field_aligned_witness:
  "\<exists>s. skip_values 4 (pb_istream_from_buffer [8, 0xAC, 2, 18, 2, 0x68, 0x69, 24, 3, 37, 1, 2, 3, 4] 14 :: unit pb_istream) =
     (Some [(PB_WT_VARINT, 1), (PB_WT_STRING, 2), (PB_WT_VARINT, 3), (PB_WT_32BIT, 4)], s) \<and> bytes_left s = 0"
proof -
  have "length pb_fields_ex = 4" "length (wire_bytes pb_fields_ex) = 14"
    "map (\<lambda>(t, v). (wire_of v, t)) pb_fields_ex = [(PB_WT_VARINT, 1), (PB_WT_STRING, 2), (PB_WT_VARINT, 3), (PB_WT_32BIT, 4)]"
    by (simp_all add: pb_fields_ex_wire(2)) (simp_all add: pb_fields_ex_def)
  with pb_skip_field_aligned [OF pb_fields_ex_encoded(1)] show ?thesis by (simp only: pb_fields_ex_wire(2))
qed

text \<open>
  An integer field of one, two, four or eight bytes, plain, unsigned or zigzag, comes back
  unchanged in the memory of its field: the conversions to 64 bits and back lose nothing.
\<close>

theorem pb_int_field_roundtrip:
  assumes "int_size (data_size field)" "length src = data_size field" "length dest = data_size field"
    and "cap \<le> length buf" "length buf < 2 ^ 63"
    and "enc_of kind field src (pb_ostream_from_buffer buf cap :: unit pb_ostream) = (True, s)" "out s = Buf_write mem n"
  shows "\<exists>s'. dec_of kind field dest (pb_istream_from_buffer mem n :: unit pb_istream) = ((True, src), s') \<and> bytes_left s' = 0"
proof -
  obtain bs where n: "length bs \<le> 10" and bs: "emits (enc_of kind field src :: unit pb_ostream \<Rightarrow> bool \<times> unit pb_ostream) bs"
    "\<forall>rest left e. length bs \<le> left \<longrightarrow>
        dec_of kind field dest (buffered (bs @ rest) left e :: unit pb_istream) = ((True, src), buffered rest (left - length bs) e)"
    using int_codec [OF assms(1-3)] by blast
  have "mem = bs @ drop (length bs) buf" "n = length bs" using yields_stored [OF bs(1) _ assms(4,5)] n assms(6,7) by simp_all
  then have "dec_of kind field dest (pb_istream_from_buffer mem n :: unit pb_istream) = ((True, src), buffered (drop (length bs) buf) 0 None)"
    using bs(2) by (simp add: pb_istream_from_buffer_def buffered_def)
  then show ?thesis by (simp add: buffered_def)
qed

definition int_field_ex :: pb_field where
  "int_field_ex = Pb_Field 1 0x03 0 0 2 0 Null"

theorem pb_int_field_roundtrip_witness:
  "\<exists>s'. dec_of Sint_field int_field_ex [0, 0] (pb_istream_from_buffer [3, 7] 1 :: unit pb_istream) = ((True, [0xFE, 0xFF]), s') \<and> bytes_left s' = 0"
proof -
  let ?r = "enc_of Sint_field int_field_ex [0xFE, 0xFF] (pb_ostream_from_buffer [9, 7] 2 :: unit pb_ostream)"
  have "fst ?r" "case out (snd ?r) of Buf_write m n \<Rightarrow> m = [3, 7] \<and> n = 1 | _ \<Rightarrow> False" by code_simp+
  then have "?r = (True, snd ?r)" "out (snd ?r) = Buf_write [3, 7] 1" by (auto simp: prod_eq_iff split: ostate.splits)
  from pb_int_field_roundtrip [OF _ _ _ _ _ this, of "[0, 0]"] show ?thesis by (simp add: int_field_ex_def int_size_def)
qed

text \<open>
  \<open>pb_dec_string\<close> stays within a string member of fixed size for every input, whatever length the
  input announces, and a string that is accepted ends with a zero byte within the member; the stream
  stays within its buffer.
\<close>

theorem pb_dec_string_within:
  assumes "istream_wf stream" "PB_ATYPE (type field) \<noteq> PB_ATYPE_POINTER"
    and "pb_dec_string realloc field dest (m, stream) = (ok, m', s')"
  shows "istream_wf s' \<and> same_outside {dest..<dest + int (data_size field)} m m' \<and>
     (ok \<longrightarrow> (\<exists>n < data_size field. m' (dest + int n) = 0))"
  using dec_string_static [OF assms] shrinks_wf [OF _ assms(1)] by blast

definition string_field_ex :: pb_field where
  "string_field_ex = Pb_Field 1 0x17 0 0 4 0 Null"

theorem pb_dec_string_within_witness:
  "\<exists>m' s'. pb_dec_string (\<lambda>m p n. (Null, m)) string_field_ex 4096
      (\<lambda>a. 1, pb_istream_from_buffer [3, 0x61, 0x62, 0x63] 4 :: unit pb_istream) = (True, m', s') \<and>
     m' 4095 = 1 \<and> m' 4100 = 1 \<and> (\<exists>n < 4. m' (4096 + int n) = 0)"
proof -
  let ?s = "pb_istream_from_buffer [3, 0x61, 0x62, 0x63] 4 :: unit pb_istream"
  let ?r = "pb_dec_string (\<lambda>m p n. (Null, m)) string_field_ex 4096 (\<lambda>a. 1, ?s)"
  have "fst ?r" by code_simp
  then have r: "?r = (True, fst (snd ?r), snd (snd ?r))" by (simp add: prod_eq_iff)
  have "istream_wf ?s" by (simp add: istream_wf_def pb_istream_from_buffer_def)
  moreover have d: "data_size string_field_ex = 4" "PB_ATYPE (type string_field_ex) \<noteq> PB_ATYPE_POINTER" by code_simp+
  ultimately have w: "same_outside {4096..<4096 + int 4} (\<lambda>a. 1) (fst (snd ?r))" "\<exists>n < 4. fst (snd ?r) (4096 + int n) = 0"
    using pb_dec_string_within [OF _ d(2) r] by (auto simp: d(1))
  then have "fst (snd ?r) 4095 = 1" "fst (snd ?r) 4100 = 1" by (simp_all add: same_outside_def)
  then show ?thesis using r w(2) by (intro exI [of _ "fst (snd ?r)"] exI [of _ "snd (snd ?r)"]) simp
qed

end
