(* ===== verification/Pb_Message_Decode.thy ===== *)
theory Pb_Message_Decode
  imports Pb_Message Pb_Decode
begin

text \<open>
  nanopb's \<^verbatim>\<open>pb_decode.c\<close>, continued: default values, the release of allocated fields, the decoders of
  arrays, pointers, callbacks, extensions and submessages, and of messages, with the checks for
  required fields and for arrays of fixed size.
\<close>

section \<open>The environment\<close>

text \<open>
  The descriptor arrays by their addresses, the allocator of the C library, and the functions of the
  user; they change the memory and the stream. \<open>local_size\<close> is the address of the local variable
  \<open>fixed_count_size\<close> at each depth of the recursion, as its address is stored in the iterator.
\<close>

record 's pb_denv =
  fields_at :: "int \<Rightarrow> pb_field list"
  c_realloc :: c_realloc
  c_free :: "(int \<Rightarrow> u8) \<Rightarrow> int \<Rightarrow> int \<Rightarrow> u8"
  field_decoders :: "int \<Rightarrow> pb_field \<Rightarrow> int \<Rightarrow> 's dstate \<Rightarrow> bool \<times> 's dstate"
  extension_decoders :: "int \<Rightarrow> int \<Rightarrow> u32 \<Rightarrow> pb_wire_type \<Rightarrow> 's dstate \<Rightarrow> bool \<times> 's dstate"
  local_size :: "nat \<Rightarrow> int"

definition store_bool :: "(int \<Rightarrow> u8) \<Rightarrow> int \<Rightarrow> bool \<Rightarrow> int \<Rightarrow> u8" where
  "store_bool m a b = mem_store m a [if b then 1 else 0]"

text \<open>Steps that always go on.\<close>

definition always :: "('a \<Rightarrow> 'a option) \<Rightarrow> 'a \<Rightarrow> (bool \<times> 'a) option" where
  "always f a = map_option (Pair True) (f a)"

text \<open>The list of extensions; the place of \<open>found\<close> in a \<open>pb_extension_t\<close>, and of \<open>decode\<close> in its type.\<close>

definition extension_found :: "int \<Rightarrow> int" where "extension_found ext = ext + 24"
definition type_decode :: "(int \<Rightarrow> u8) \<Rightarrow> int \<Rightarrow> int" where "type_decode m t = load_ptr m t"

primrec extension_walk :: "nat \<Rightarrow> (int \<Rightarrow> (int \<Rightarrow> u8) \<Rightarrow> (int \<Rightarrow> u8) option) \<Rightarrow> int \<Rightarrow> (int \<Rightarrow> u8) \<Rightarrow> (int \<Rightarrow> u8) option" where
  "extension_walk 0 body ext m = None"
| "extension_walk (Suc n) body ext m =
     (if ext = Null then Some m
      else case body ext m of
        None \<Rightarrow> None
      | Some m \<Rightarrow> extension_walk n body (extension_next m ext) m)"

definition iter_from_extension :: "'s pb_denv \<Rightarrow> (int \<Rightarrow> u8) \<Rightarrow> int \<Rightarrow> pb_field_iter" where
  "iter_from_extension env m extension =
     (let fs = fields_at env (type_arg m (extension_type m extension));
          iter = (snd (pb_field_iter_begin fs (extension_dest m extension)))
            \<lparr>pData := extension_dest m extension, pSize := extension_found extension\<rparr>
      in if PB_ATYPE (type (fs ! 0)) = PB_ATYPE_POINTER then iter\<lparr>pData := extension + 8\<rparr> else iter)"

section \<open>Default values\<close>

definition set_defaults :: "(pb_field_iter \<Rightarrow> (int \<Rightarrow> u8) \<Rightarrow> (int \<Rightarrow> u8) option) \<Rightarrow> pb_field list \<Rightarrow> int \<Rightarrow> (int \<Rightarrow> u8) \<Rightarrow> (int \<Rightarrow> u8) option" where
  "set_defaults field_default fs dest m =
     (case pb_field_iter_begin fs dest of
        (False, iter) \<Rightarrow> Some m
      | (True, iter) \<Rightarrow> map_option snd (iter_loop (length fs) (\<lambda>iter. always (field_default iter)) iter m))"

primrec pb_field_set_to_default :: "nat \<Rightarrow> 's pb_denv \<Rightarrow> pb_field_iter \<Rightarrow> (int \<Rightarrow> u8) \<Rightarrow> (int \<Rightarrow> u8) option" where
  "pb_field_set_to_default 0 env iter m = None"
| "pb_field_set_to_default (Suc n) env iter m =
     (let field = cur_field iter; htype = PB_HTYPE (type field); atype = PB_ATYPE (type field)
      in if PB_LTYPE (type field) = PB_LTYPE_EXTENSION then
           extension_walk n
             (\<lambda>ext m. let m = store_bool m (extension_found ext) False
                      in pb_field_set_to_default n env (iter_from_extension env m ext) m)
             (load_ptr m (pData iter)) m
         else if atype = PB_ATYPE_STATIC then
           if htype = PB_HTYPE_REPEATED \<or> htype = PB_HTYPE_ONEOF then Some (store_size m (pSize iter) 0)
           else
             let m = (if htype = PB_HTYPE_OPTIONAL \<and> pSize iter \<noteq> pData iter then store_bool m (pSize iter) False else m)
             in if PB_LTYPE (type field) = PB_LTYPE_SUBMESSAGE
                then set_defaults (pb_field_set_to_default n env) (fields_at env (ptr field)) (pData iter) m
                else if ptr field \<noteq> Null then Some (mem_store m (pData iter) (load m (ptr field) (data_size field)))
                else Some (mem_store m (pData iter) (replicate (data_size field) 0))
         else if atype = PB_ATYPE_POINTER then
           let m = store_ptr m (pData iter) Null
           in if htype = PB_HTYPE_REPEATED \<or> htype = PB_HTYPE_ONEOF then Some (store_size m (pSize iter) 0) else Some m
         else Some m)"

definition pb_message_set_to_defaults :: "nat \<Rightarrow> 's pb_denv \<Rightarrow> pb_field list \<Rightarrow> int \<Rightarrow> (int \<Rightarrow> u8) \<Rightarrow> (int \<Rightarrow> u8) option" where
  "pb_message_set_to_defaults n env = set_defaults (pb_field_set_to_default n env)"

section \<open>Release\<close>

definition release_fields :: "(pb_field_iter \<Rightarrow> (int \<Rightarrow> u8) \<Rightarrow> (int \<Rightarrow> u8) option) \<Rightarrow> pb_field list \<Rightarrow> int \<Rightarrow> (int \<Rightarrow> u8) \<Rightarrow> (int \<Rightarrow> u8) option" where
  "release_fields field_release fs dest m =
     (if dest = Null then Some m
      else case pb_field_iter_begin fs dest of
        (False, iter) \<Rightarrow> Some m
      | (True, iter) \<Rightarrow> map_option snd (iter_loop (length fs) (\<lambda>iter. always (field_release iter)) iter m))"

text \<open>\<open>while (count--) { pb_free(*pItem); *pItem++ = NULL; }\<close>\<close>

primrec free_entries :: "'s pb_denv \<Rightarrow> nat \<Rightarrow> int \<Rightarrow> (int \<Rightarrow> u8) \<Rightarrow> int \<Rightarrow> u8" where
  "free_entries env 0 p m = m"
| "free_entries env (Suc count) p m = free_entries env count (p + 8) (store_ptr (c_free env m (load_ptr m p)) p Null)"

definition release_pointer :: "'s pb_denv \<Rightarrow> pb_field_iter \<Rightarrow> (int \<Rightarrow> u8) \<Rightarrow> int \<Rightarrow> u8" where
  "release_pointer env iter m =
     (let field = cur_field iter; repeated = (PB_HTYPE (type field) = PB_HTYPE_REPEATED) in
      if PB_ATYPE (type field) = PB_ATYPE_POINTER then
        let m = (if repeated \<and> PB_LTYPE (type field) \<in> {PB_LTYPE_STRING, PB_LTYPE_BYTES}
                 then free_entries env (load_size m (pSize iter)) (load_ptr m (pData iter)) m else m);
            m = (if repeated then store_size m (pSize iter) 0 else m);
            m = c_free env m (load_ptr m (pData iter))
        in store_ptr m (pData iter) Null
      else m)"

primrec pb_release_single_field :: "nat \<Rightarrow> 's pb_denv \<Rightarrow> pb_field_iter \<Rightarrow> (int \<Rightarrow> u8) \<Rightarrow> (int \<Rightarrow> u8) option" where
  "pb_release_single_field 0 env iter m = None"
| "pb_release_single_field (Suc n) env iter m =
     (let field = cur_field iter; htype = PB_HTYPE (type field); atype = PB_ATYPE (type field); ltype = PB_LTYPE (type field)
      in if htype = PB_HTYPE_ONEOF \<and> load_size m (pSize iter) \<noteq> unat (tag field) then Some m
         else map_option (release_pointer env iter)
           (if ltype = PB_LTYPE_EXTENSION then
              extension_walk n (\<lambda>ext m. pb_release_single_field n env (iter_from_extension env m ext) m) (load_ptr m (pData iter)) m
            else if ltype = PB_LTYPE_SUBMESSAGE \<and> atype \<noteq> PB_ATYPE_CALLBACK then
              let pItem = (if atype = PB_ATYPE_POINTER then load_ptr m (pData iter) else pData iter);
                  count = (if htype = PB_HTYPE_REPEATED then
                             if atype = PB_ATYPE_STATIC \<and> pSize iter = pData iter then array_size field
                             else if atype = PB_ATYPE_STATIC \<and> load_size m (pSize iter) > array_size field then array_size field
                             else load_size m (pSize iter)
                           else 1)
              in if pItem = Null then Some m
                 else map_option snd (array_loop count
                   (\<lambda>p. always (release_fields (pb_release_single_field n env) (fields_at env (ptr field)) p)) pItem (data_size field) m)
            else Some m))"

definition pb_release :: "nat \<Rightarrow> 's pb_denv \<Rightarrow> pb_field list \<Rightarrow> int \<Rightarrow> (int \<Rightarrow> u8) \<Rightarrow> (int \<Rightarrow> u8) option" where
  "pb_release n env = release_fields (pb_release_single_field n env)"

text \<open>The result holds the iterator, which the function moves.\<close>

definition pb_release_union_field ::
    "nat \<Rightarrow> 's pb_denv \<Rightarrow> pb_field_iter \<Rightarrow> 's dstate \<Rightarrow> (bool \<times> pb_field_iter \<times> 's dstate) option" where
  "pb_release_union_field n env iter st =
     (case st of (m, stream) \<Rightarrow>
        let old_tag = of_nat (load_size m (pSize iter)); new_tag = tag (cur_field iter) in
        if old_tag = 0 \<or> old_tag = new_tag then Some (True, iter, st)
        else case pb_field_iter_find iter old_tag of
          None \<Rightarrow> None
        | Some (False, iter) \<Rightarrow> Some (False, iter, m, pb_set_ierror stream ''invalid union tag'')
        | Some (True, iter) \<Rightarrow>
            (case pb_release_single_field n env iter m of
               None \<Rightarrow> None
             | Some m \<Rightarrow>
                 (case pb_field_iter_find iter new_tag of
                    None \<Rightarrow> None
                  | Some (False, iter) \<Rightarrow> Some (False, iter, m, pb_set_ierror stream ''iterator error'')
                  | Some (True, iter) \<Rightarrow>
                      Some (True, iter, (if PB_ATYPE (type (cur_field iter)) = PB_ATYPE_POINTER then store_ptr m (pData iter) Null else m), stream))))"

section \<open>Decoders of fields\<close>

text \<open>
  As in the encoder, the recursion goes through arguments: \<open>sub\<close> decodes a message from the stream into
  the structure at an address, and \<open>defaults\<close> gives a structure its default values.
\<close>

type_synonym 's msg_decoder = "pb_field list \<Rightarrow> int \<Rightarrow> 's dstate \<Rightarrow> (bool \<times> 's dstate) option"
type_synonym defaults = "pb_field list \<Rightarrow> int \<Rightarrow> (int \<Rightarrow> u8) \<Rightarrow> (int \<Rightarrow> u8) option"

text \<open>A run on the substream of a length-delimited value, between opening and closing it.\<close>

definition in_substream :: "('s dstate \<Rightarrow> (bool \<times> 's dstate) option) \<Rightarrow> 's dstate \<Rightarrow> (bool \<times> 's dstate) option" where
  "in_substream body st =
     (case st of (m, stream) \<Rightarrow>
        case pb_make_string_substream stream of
          (None, stream) \<Rightarrow> Some (False, m, stream)
        | (Some substream, stream) \<Rightarrow>
            (case body (m, substream) of
               None \<Rightarrow> None
             | Some (status, m, substream) \<Rightarrow>
                 (case pb_close_string_substream stream substream of
                    (False, stream) \<Rightarrow> Some (False, m, stream)
                  | (True, stream) \<Rightarrow> Some (status, m, stream))))"

definition pb_dec_submessage ::
    "'s pb_denv \<Rightarrow> 's msg_decoder \<Rightarrow> 's msg_decoder \<Rightarrow> pb_field \<Rightarrow> int \<Rightarrow> 's dstate \<Rightarrow> (bool \<times> 's dstate) option" where
  "pb_dec_submessage env dec dec_noinit field dest st =
     (if ptr field = Null then
        (case st of (m, stream) \<Rightarrow>
           case pb_make_string_substream stream of
             (None, stream) \<Rightarrow> Some (False, m, stream)
           | (Some substream, stream) \<Rightarrow> Some (dec_error ''invalid field descriptor'' (m, stream)))
      else in_substream
        ((if PB_HTYPE (type field) = PB_HTYPE_REPEATED then dec else dec_noinit) (fields_at env (ptr field)) dest) st)"

text \<open>The offset of an item in an array: a product of two \<open>pb_size_t\<close>, which wraps around.\<close>

definition item_offset :: "pb_field \<Rightarrow> nat \<Rightarrow> int" where
  "item_offset field i = int ((data_size field * i) mod 2 ^ 32)"

text \<open>A decoder of a value of \<open>n\<close> bytes, on the bytes at \<open>a\<close>.\<close>

definition dec_at :: "('s pb_istream \<Rightarrow> bytes \<Rightarrow> (bool \<times> bytes) \<times> 's pb_istream) \<Rightarrow> int \<Rightarrow> nat \<Rightarrow> 's dstate \<Rightarrow> bool \<times> 's dstate" where
  "dec_at f a n st =
     (case st of (m, stream) \<Rightarrow> case f stream (load m a n) of ((ok, bs), stream) \<Rightarrow> (ok, mem_store m a bs, stream))"

text \<open>The table \<open>PB_DECODERS\<close>; its entry for extensions is null.\<close>

definition call_decoder ::
    "'s pb_denv \<Rightarrow> 's msg_decoder \<Rightarrow> 's msg_decoder \<Rightarrow> pb_field \<Rightarrow> int \<Rightarrow> 's dstate \<Rightarrow> (bool \<times> 's dstate) option" where
  "call_decoder env dec dec_noinit field dest st =
     (let ltype = PB_LTYPE (type field); sz = data_size field
      in if ltype = PB_LTYPE_BOOL then Some (dec_at pb_dec_bool dest 1 st)
         else if ltype = PB_LTYPE_VARINT then Some (dec_at (\<lambda>stream. pb_dec_varint stream field) dest sz st)
         else if ltype = PB_LTYPE_UVARINT then Some (dec_at (\<lambda>stream. pb_dec_uvarint stream field) dest sz st)
         else if ltype = PB_LTYPE_SVARINT then Some (dec_at (\<lambda>stream. pb_dec_svarint stream field) dest sz st)
         else if ltype = PB_LTYPE_FIXED32 then Some (dec_at (\<lambda>stream. pb_dec_fixed32 stream field) dest 4 st)
         else if ltype = PB_LTYPE_FIXED64 then Some (dec_at (\<lambda>stream. pb_dec_fixed64 stream field) dest 8 st)
         else if ltype = PB_LTYPE_BYTES then Some (pb_dec_bytes (c_realloc env) field dest st)
         else if ltype = PB_LTYPE_STRING then Some (pb_dec_string (c_realloc env) field dest st)
         else if ltype = PB_LTYPE_SUBMESSAGE then pb_dec_submessage env dec dec_noinit field dest st
         else if ltype = PB_LTYPE_FIXED_LENGTH_BYTES then Some (dec_at (\<lambda>stream. pb_dec_fixed_length_bytes stream field) dest sz st)
         else None)"

text \<open>The loop over the items of a packed array, with a bound on its iterations.\<close>

primrec packed_loop :: "nat \<Rightarrow> (int \<Rightarrow> 's dstate \<Rightarrow> (bool \<times> 's dstate) option) \<Rightarrow> pb_field_iter \<Rightarrow> 's dstate \<Rightarrow> (bool \<times> 's dstate) option" where
  "packed_loop 0 func iter st = None"
| "packed_loop (Suc k) func iter st =
     (case st of (m, substream) \<Rightarrow>
        let field = cur_field iter; size = load_size m (pSize iter) in
        if bytes_left substream > 0 \<and> size < array_size field then
          then_enc (func (pData iter + item_offset field size))
            (\<lambda>(m, substream). packed_loop k func iter (store_size m (pSize iter) (load_size m (pSize iter) + 1), substream)) st
        else Some (True, st))"

definition decode_static_field ::
    "'s pb_denv \<Rightarrow> defaults \<Rightarrow> 's msg_decoder \<Rightarrow> 's msg_decoder \<Rightarrow> pb_wire_type \<Rightarrow> pb_field_iter \<Rightarrow> 's dstate \<Rightarrow> (bool \<times> 's dstate) option" where
  "decode_static_field env defs dec dec_noinit wire_type iter st =
     (case st of (m, stream) \<Rightarrow>
        let field = cur_field iter; htype = PB_HTYPE (type field); ltype = PB_LTYPE (type field);
            func = call_decoder env dec dec_noinit field; pData = pData iter; pSize = pSize iter
        in if htype = PB_HTYPE_REQUIRED then func pData st
           else if htype = PB_HTYPE_OPTIONAL then func pData (if pSize \<noteq> pData then store_bool m pSize True else m, stream)
           else if htype = PB_HTYPE_REPEATED \<and> wire_type = PB_WT_STRING \<and> ltype \<le> PB_LTYPE_LAST_PACKABLE then
             (case pb_make_string_substream stream of
                (None, stream) \<Rightarrow> Some (False, m, stream)
              | (Some substream, stream) \<Rightarrow>
                  (case packed_loop (Suc (bytes_left substream)) func iter (m, substream) of
                     None \<Rightarrow> None
                   | Some (status, m, substream) \<Rightarrow>
                       if bytes_left substream \<noteq> 0 then Some (dec_error ''array overflow'' (m, stream))
                       else (case pb_close_string_substream stream substream of
                               (False, stream) \<Rightarrow> Some (False, m, stream)
                             | (True, stream) \<Rightarrow> Some (status, m, stream))))
           else if htype = PB_HTYPE_REPEATED then
             (let size = load_size m pSize; m = store_size m pSize (size + 1)
              in if size \<ge> array_size field then Some (dec_error ''array overflow'' (m, stream))
                 else func (pData + item_offset field size) (m, stream))
           else if ltype = PB_LTYPE_SUBMESSAGE \<and> load_size m pSize \<noteq> unat (tag field) then
             (case defs (fields_at env (ptr field)) pData (mem_store m pData (replicate (data_size field) 0)) of
                None \<Rightarrow> None
              | Some m \<Rightarrow> func pData (store_size m pSize (unat (tag field)), stream))
           else func pData (store_size m pSize (unat (tag field)), stream))"

definition initialize_pointer_field :: "'s pb_denv \<Rightarrow> defaults \<Rightarrow> int \<Rightarrow> pb_field \<Rightarrow> (int \<Rightarrow> u8) \<Rightarrow> (int \<Rightarrow> u8) option" where
  "initialize_pointer_field env defs pItem field m =
     (if PB_LTYPE (type field) \<in> {PB_LTYPE_STRING, PB_LTYPE_BYTES} then Some (store_ptr m pItem Null)
      else if PB_LTYPE (type field) = PB_LTYPE_SUBMESSAGE
      then defs (fields_at env (ptr field)) pItem (mem_store m pItem (replicate (data_size field) 0))
      else Some m)"

text \<open>An item is initialised and then decoded.\<close>

definition decode_item ::
    "'s pb_denv \<Rightarrow> defaults \<Rightarrow> (int \<Rightarrow> 's dstate \<Rightarrow> (bool \<times> 's dstate) option) \<Rightarrow> pb_field \<Rightarrow> int \<Rightarrow> 's dstate \<Rightarrow> (bool \<times> 's dstate) option" where
  "decode_item env defs func field pItem st =
     (case st of (m, stream) \<Rightarrow>
        case initialize_pointer_field env defs pItem field m of
          None \<Rightarrow> None
        | Some m \<Rightarrow> func pItem (m, stream))"

text \<open>
  The loop over the items of a packed pointer array; the message \<open>too many array entries\<close> is for the
  outer stream and is returned separately.
\<close>

primrec packed_pointer_loop ::
    "nat \<Rightarrow> 's pb_denv \<Rightarrow> (int \<Rightarrow> 's dstate \<Rightarrow> (bool \<times> 's dstate) option) \<Rightarrow> pb_field_iter \<Rightarrow> nat \<Rightarrow> 's dstate \<Rightarrow>
     ((bool \<times> string option) \<times> 's dstate) option" where
  "packed_pointer_loop 0 env item iter allocated_size st = None"
| "packed_pointer_loop (Suc k) env item iter allocated_size st =
     (case st of (m, substream) \<Rightarrow>
        let field = cur_field iter; size = load_size m (pSize iter) in
        if bytes_left substream = 0 then Some ((True, None), st)
        else if size = PB_SIZE_MAX then Some ((False, Some ''too many array entries''), st)
        else
          let remain = (bytes_left substream - 1) div data_size field + 1;
              grow = (size + 1 > allocated_size);
              allocated_size = (if \<not> grow then allocated_size
                                else if remain < size_wrap (PB_SIZE_MAX + 2 ^ 64 - allocated_size) then allocated_size + remain
                                else allocated_size + 1)
          in case (if grow then allocate_field (c_realloc env) (pData iter) (data_size field) allocated_size st else (True, st)) of
               (False, st) \<Rightarrow> Some ((False, None), st)
             | (True, m, substream) \<Rightarrow>
                 (case item (load_ptr m (pData iter) + item_offset field size) (m, substream) of
                    None \<Rightarrow> None
                  | Some (False, st) \<Rightarrow> Some ((False, None), st)
                  | Some (True, m, substream) \<Rightarrow>
                      packed_pointer_loop k env item iter allocated_size
                        (store_size m (pSize iter) (load_size m (pSize iter) + 1), substream)))"

definition decode_pointer_field ::
    "nat \<Rightarrow> 's pb_denv \<Rightarrow> defaults \<Rightarrow> 's msg_decoder \<Rightarrow> 's msg_decoder \<Rightarrow> pb_wire_type \<Rightarrow> pb_field_iter \<Rightarrow> 's dstate \<Rightarrow> (bool \<times> 's dstate) option" where
  "decode_pointer_field n env defs dec dec_noinit wire_type iter st =
     (case st of (m, stream) \<Rightarrow>
        let field = cur_field iter; htype = PB_HTYPE (type field); ltype = PB_LTYPE (type field);
            func = call_decoder env dec dec_noinit field; item = decode_item env defs func field;
            pData = pData iter; pSize = pSize iter
        in if htype \<noteq> PB_HTYPE_REPEATED then
             (case (if ltype = PB_LTYPE_SUBMESSAGE \<and> load_ptr m pData \<noteq> Null then pb_release_single_field n env iter m else Some m) of
                None \<Rightarrow> None
              | Some m \<Rightarrow>
                  (let m = (if htype = PB_HTYPE_ONEOF then store_size m pSize (unat (tag field)) else m)
                   in if ltype \<in> {PB_LTYPE_STRING, PB_LTYPE_BYTES} then func pData (m, stream)
                      else (case allocate_field (c_realloc env) pData (data_size field) 1 (m, stream) of
                              (False, st) \<Rightarrow> Some (False, st)
                            | (True, m, stream) \<Rightarrow> item (load_ptr m pData) (m, stream))))
           else if wire_type = PB_WT_STRING \<and> ltype \<le> PB_LTYPE_LAST_PACKABLE then
             (case pb_make_string_substream stream of
                (None, stream) \<Rightarrow> Some (False, m, stream)
              | (Some substream, stream) \<Rightarrow>
                  (case packed_pointer_loop (Suc (bytes_left substream)) env item iter (load_size m pSize) (m, substream) of
                     None \<Rightarrow> None
                   | Some ((status, msg), m, substream) \<Rightarrow>
                       (let stream = (case msg of None \<Rightarrow> stream | Some _ \<Rightarrow> stream\<lparr>ierrmsg := msg\<rparr>)
                        in case pb_close_string_substream stream substream of
                             (False, stream) \<Rightarrow> Some (False, m, stream)
                           | (True, stream) \<Rightarrow> Some (status, m, stream))))
           else
             (let size = load_size m pSize
              in if size = PB_SIZE_MAX then Some (dec_error ''too many array entries'' st)
                 else case allocate_field (c_realloc env) pData (data_size field) (size + 1) st of
                        (False, st) \<Rightarrow> Some (False, st)
                      | (True, m, stream) \<Rightarrow>
                          item (load_ptr m pData + item_offset field size) (store_size m pSize (size + 1), stream)))"

text \<open>\<open>do { if (!decode(&substream, ...)) ... } while (substream.bytes_left);\<close>\<close>

primrec callback_loop :: "nat \<Rightarrow> ('s dstate \<Rightarrow> bool \<times> 's dstate) \<Rightarrow> 's dstate \<Rightarrow> (bool \<times> 's dstate) option" where
  "callback_loop 0 decode st = None"
| "callback_loop (Suc k) decode st =
     (case decode st of
        (False, st) \<Rightarrow> Some (False, st)
      | (True, m, substream) \<Rightarrow>
          if bytes_left substream \<noteq> 0 then callback_loop k decode (m, substream) else Some (True, m, substream))"

text \<open>
  The function pointer is loaded in every round, as the callback can change it. Streams are values: a failing
  callback leaves the state of a user's stream in the substream, which is not closed; the result is
  \<open>false\<close> then, in this and every calling function, and nothing more is read.
\<close>

definition decode_callback_field :: "nat \<Rightarrow> 's pb_denv \<Rightarrow> pb_wire_type \<Rightarrow> pb_field_iter \<Rightarrow> 's dstate \<Rightarrow> (bool \<times> 's dstate) option" where
  "decode_callback_field n env wire_type iter st =
     (case st of (m, stream) \<Rightarrow>
        let pCallback = pData iter; arg = pCallback + 8;
            run = (\<lambda>(m, s). field_decoders env (load_ptr m pCallback) (cur_field iter) arg (m, s))
        in if pCallback = Null \<or> load_ptr m pCallback = Null then Some (case pb_skip_field stream wire_type of (r, stream) \<Rightarrow> (r, m, stream))
           else if wire_type = PB_WT_STRING then
             (case pb_make_string_substream stream of
                (None, stream) \<Rightarrow> Some (False, m, stream)
              | (Some substream, stream) \<Rightarrow>
                  (case callback_loop n run (m, substream) of
                     None \<Rightarrow> None
                   | Some (False, m, substream) \<Rightarrow> Some (dec_error ''callback failed'' (m, stream))
                   | Some (True, m, substream) \<Rightarrow>
                       (case pb_close_string_substream stream substream of (r, stream) \<Rightarrow> Some (r, m, stream))))
           else (case read_raw_value stream wire_type 10 of
                   (None, stream) \<Rightarrow> Some (False, m, stream)
                 | (Some buffer, stream) \<Rightarrow>
                     (case run (m, pb_istream_from_buffer buffer (length buffer)) of (r, m, _) \<Rightarrow> Some (r, m, stream))))"

text \<open>The result holds the iterator, which the release of a union moves.\<close>

definition decode_field ::
    "nat \<Rightarrow> 's pb_denv \<Rightarrow> defaults \<Rightarrow> 's msg_decoder \<Rightarrow> 's msg_decoder \<Rightarrow> pb_wire_type \<Rightarrow> pb_field_iter \<Rightarrow> 's dstate \<Rightarrow>
     (bool \<times> pb_field_iter \<times> 's dstate) option" where
  "decode_field n env defs dec dec_noinit wire_type iter st =
     (case (if PB_HTYPE (type (cur_field iter)) = PB_HTYPE_ONEOF then pb_release_union_field n env iter st else Some (True, iter, st)) of
        None \<Rightarrow> None
      | Some (False, iter, st) \<Rightarrow> Some (False, iter, st)
      | Some (True, iter, st) \<Rightarrow>
          (let atype = PB_ATYPE (type (cur_field iter))
           in map_option (\<lambda>(r, st). (r, iter, st))
             (if atype = PB_ATYPE_STATIC then decode_static_field env defs dec dec_noinit wire_type iter st
              else if atype = PB_ATYPE_POINTER then decode_pointer_field n env defs dec dec_noinit wire_type iter st
              else if atype = PB_ATYPE_CALLBACK then decode_callback_field n env wire_type iter st
              else Some (dec_error ''invalid field type'' st))))"

section \<open>Extensions\<close>

definition default_extension_decoder ::
    "nat \<Rightarrow> 's pb_denv \<Rightarrow> defaults \<Rightarrow> 's msg_decoder \<Rightarrow> 's msg_decoder \<Rightarrow> int \<Rightarrow> u32 \<Rightarrow> pb_wire_type \<Rightarrow> 's dstate \<Rightarrow> (bool \<times> 's dstate) option" where
  "default_extension_decoder n env defs dec dec_noinit extension t wire_type st =
     (case st of (m, stream) \<Rightarrow>
        let field = fields_at env (type_arg m (extension_type m extension)) ! 0 in
        if tag field \<noteq> t then Some (True, st)
        else map_option (\<lambda>(r, iter, st). (r, st))
          (decode_field n env defs dec dec_noinit wire_type (iter_from_extension env m extension)
             (store_bool m (extension_found extension) True, stream)))"

primrec decode_extension_loop ::
    "nat \<Rightarrow> nat \<Rightarrow> 's pb_denv \<Rightarrow> defaults \<Rightarrow> 's msg_decoder \<Rightarrow> 's msg_decoder \<Rightarrow> u32 \<Rightarrow> pb_wire_type \<Rightarrow> nat \<Rightarrow> int \<Rightarrow> 's dstate \<Rightarrow> (bool \<times> 's dstate) option" where
  "decode_extension_loop 0 n env defs dec dec_noinit t wire_type start_left extension st = None"
| "decode_extension_loop (Suc k) n env defs dec dec_noinit t wire_type start_left extension st =
     (case st of (m, stream) \<Rightarrow>
        if extension = Null \<or> start_left \<noteq> bytes_left stream then Some (True, st)
        else then_enc
          (\<lambda>st. if type_decode m (extension_type m extension) \<noteq> Null
                then Some (extension_decoders env (type_decode m (extension_type m extension)) extension t wire_type st)
                else default_extension_decoder n env defs dec dec_noinit extension t wire_type st)
          (\<lambda>st. decode_extension_loop k n env defs dec dec_noinit t wire_type start_left (extension_next (fst st) extension) st) st)"

definition decode_extension ::
    "nat \<Rightarrow> 's pb_denv \<Rightarrow> defaults \<Rightarrow> 's msg_decoder \<Rightarrow> 's msg_decoder \<Rightarrow> u32 \<Rightarrow> pb_wire_type \<Rightarrow> pb_field_iter \<Rightarrow> 's dstate \<Rightarrow> (bool \<times> 's dstate) option" where
  "decode_extension n env defs dec dec_noinit t wire_type iter st =
     (case st of (m, stream) \<Rightarrow>
        decode_extension_loop (Suc n) n env defs dec dec_noinit t wire_type (bytes_left stream) (load_ptr m (pData iter)) st)"

primrec find_extension_loop :: "nat \<Rightarrow> nat \<Rightarrow> pb_field_iter \<Rightarrow> (bool \<times> pb_field_iter) option" where
  "find_extension_loop 0 first iter = None"
| "find_extension_loop (Suc k) first iter =
     (if PB_LTYPE (type (cur_field iter)) = PB_LTYPE_EXTENSION then Some (True, iter)
      else let iter = snd (pb_field_iter_next iter) in
        if pos iter \<noteq> first then find_extension_loop k first iter else Some (False, iter))"

definition find_extension_field :: "pb_field_iter \<Rightarrow> (bool \<times> pb_field_iter) option" where
  "find_extension_field iter = find_extension_loop (length (start iter)) (pos iter) iter"

section \<open>Decoders of messages\<close>

definition PB_MAX_REQUIRED_FIELDS :: nat where
  "PB_MAX_REQUIRED_FIELDS = 64"

text \<open>The local variables of \<open>pb_decode_noinit\<close>, apart from \<open>fixed_count_size\<close>, which is in memory.\<close>

record noinit_vars =
  d_iter :: pb_field_iter
  fields_seen :: "u32 list"
  extension_range_start :: u32
  fixed_count_field :: "nat option"

text \<open>The decoder of a field, and of an unknown field by the extensions, are arguments of the loop.\<close>

type_synonym 's field_decoder = "pb_wire_type \<Rightarrow> pb_field_iter \<Rightarrow> 's dstate \<Rightarrow> (bool \<times> pb_field_iter \<times> 's dstate) option"
type_synonym 's ext_decoder = "u32 \<Rightarrow> pb_wire_type \<Rightarrow> pb_field_iter \<Rightarrow> 's dstate \<Rightarrow> (bool \<times> 's dstate) option"

definition skip_unknown :: "pb_wire_type \<Rightarrow> noinit_vars \<times> 's dstate \<Rightarrow> (bool \<times> noinit_vars \<times> 's dstate) option" where
  "skip_unknown wire_type vst =
     (case vst of (v, m, stream) \<Rightarrow> case pb_skip_field stream wire_type of (r, stream) \<Rightarrow> Some (r, v, m, stream))"

definition unknown_field :: "'s ext_decoder \<Rightarrow> u32 \<Rightarrow> pb_wire_type \<Rightarrow> noinit_vars \<times> 's dstate \<Rightarrow> (bool \<times> noinit_vars \<times> 's dstate) option" where
  "unknown_field ext t wire_type vst =
     (case vst of (v, m, stream) \<Rightarrow>
        if t \<ge> extension_range_start v then
          (case find_extension_field (d_iter v) of
             None \<Rightarrow> None
           | Some (found, iter) \<Rightarrow>
               let v = v\<lparr>d_iter := iter, extension_range_start := (if found then tag (cur_field iter) else - 1)\<rparr> in
               if t \<ge> extension_range_start v then
                 (case ext t wire_type iter (m, stream) of
                    None \<Rightarrow> None
                  | Some (False, st) \<Rightarrow> Some (False, v, st)
                  | Some (True, m, stream') \<Rightarrow>
                      if bytes_left stream' \<noteq> bytes_left stream then Some (True, v, m, stream')
                      else skip_unknown wire_type (v, m, stream'))
               else skip_unknown wire_type (v, m, stream))
        else skip_unknown wire_type vst)"

definition see_required :: "noinit_vars \<Rightarrow> noinit_vars" where
  "see_required v =
     (let i = required_field_index (d_iter v)
      in if PB_HTYPE (type (cur_field (d_iter v))) = PB_HTYPE_REQUIRED \<and> i < PB_MAX_REQUIRED_FIELDS
         then v\<lparr>fields_seen := (fields_seen v)[i div 32 := fields_seen v ! (i div 32) OR push_bit (i mod 32) 1]\<rparr>
         else v)"

definition fixed_count_ok :: "int \<Rightarrow> noinit_vars \<Rightarrow> (int \<Rightarrow> u8) \<Rightarrow> bool" where
  "fixed_count_ok local v m =
     (case fixed_count_field v of
        None \<Rightarrow> True
      | Some k \<Rightarrow> load_size m local = array_size (start (d_iter v) ! k))"

definition known_field :: "int \<Rightarrow> 's field_decoder \<Rightarrow> pb_wire_type \<Rightarrow> noinit_vars \<times> 's dstate \<Rightarrow> (bool \<times> noinit_vars \<times> 's dstate) option" where
  "known_field local df wire_type vst =
     (case vst of (v, m, stream) \<Rightarrow>
        let iter = d_iter v;
            fixed = (PB_HTYPE (type (cur_field iter)) = PB_HTYPE_REPEATED \<and> pSize iter = pData iter);
            new = (fixed \<and> fixed_count_field v \<noteq> Some (pos iter))
        in if new \<and> \<not> fixed_count_ok local v m
           then Some (False, v, m, pb_set_ierror stream ''wrong size for fixed count field'')
           else
             let m = (if new then store_size m local 0 else m);
                 v = (if new then v\<lparr>fixed_count_field := Some (pos iter)\<rparr> else v);
                 v = (if fixed then v\<lparr>d_iter := iter\<lparr>pSize := local\<rparr>\<rparr> else v);
                 v = see_required v
             in map_option (\<lambda>(r, iter, st). (r, v\<lparr>d_iter := iter\<rparr>, st)) (df wire_type (d_iter v) (m, stream)))"

definition noinit_step :: "int \<Rightarrow> 's field_decoder \<Rightarrow> 's ext_decoder \<Rightarrow> u32 \<Rightarrow> pb_wire_type \<Rightarrow> noinit_vars \<times> 's dstate \<Rightarrow> (bool \<times> noinit_vars \<times> 's dstate) option" where
  "noinit_step local df ext t wire_type vst =
     (case vst of (v, st) \<Rightarrow>
        case pb_field_iter_find (d_iter v) t of
          None \<Rightarrow> None
        | Some (found, iter) \<Rightarrow>
            (if found then known_field local df wire_type else unknown_field ext t wire_type) (v\<lparr>d_iter := iter\<rparr>, st))"

primrec noinit_loop :: "nat \<Rightarrow> (u32 \<Rightarrow> pb_wire_type \<Rightarrow> noinit_vars \<times> 's dstate \<Rightarrow> (bool \<times> noinit_vars \<times> 's dstate) option) \<Rightarrow>
    noinit_vars \<times> 's dstate \<Rightarrow> (bool \<times> noinit_vars \<times> 's dstate) option" where
  "noinit_loop 0 step vst = None"
| "noinit_loop (Suc k) step vst =
     (case vst of (v, m, stream) \<Rightarrow>
        if bytes_left stream = 0 then Some (True, vst)
        else case pb_decode_tag stream of
          ((None, eof), stream) \<Rightarrow> Some (eof, v, m, stream)
        | ((Some (wire_type, t), _), stream) \<Rightarrow> then_enc (step t wire_type) (noinit_loop k step) (v, m, stream))"

text \<open>The walk to the last field, which counts the required ones.\<close>

primrec last_field_loop :: "nat \<Rightarrow> pb_field_iter \<Rightarrow> (nat \<times> u8 \<times> pb_field_iter) option" where
  "last_field_loop 0 iter = None"
| "last_field_loop (Suc k) iter =
     (case pb_field_iter_next iter of
        (True, next_iter) \<Rightarrow> last_field_loop k next_iter
      | (False, next_iter) \<Rightarrow> Some (required_field_index iter, type (cur_field iter), next_iter))"

definition required_ok :: "u32 list \<Rightarrow> nat \<Rightarrow> bool" where
  "required_ok seen count \<longleftrightarrow>
     list_all (\<lambda>i. seen ! i = - 1) [0..<count div 32] \<and>
     (count mod 32 \<noteq> 0 \<longrightarrow> seen ! (count div 32) = drop_bit (32 - count mod 32) (- 1))"

definition final_checks :: "int \<Rightarrow> noinit_vars \<Rightarrow> 's dstate \<Rightarrow> (bool \<times> 's dstate) option" where
  "final_checks local v st =
     (case st of (m, stream) \<Rightarrow>
        if \<not> fixed_count_ok local v m then Some (dec_error ''wrong size for fixed count field'' st)
        else case last_field_loop (length (start (d_iter v))) (d_iter v) of
          None \<Rightarrow> None
        | Some (count, last_type, iter) \<Rightarrow>
            (let count = (if PB_HTYPE last_type = PB_HTYPE_REQUIRED \<and> tag (cur_field iter) \<noteq> 0 then count + 1 else count);
                 count = (if count > PB_MAX_REQUIRED_FIELDS then PB_MAX_REQUIRED_FIELDS else count)
             in if required_ok (fields_seen v) count then Some (True, st)
                else Some (dec_error ''missing required field'' st)))"

definition noinit_message :: "int \<Rightarrow> 's field_decoder \<Rightarrow> 's ext_decoder \<Rightarrow> 's msg_decoder" where
  "noinit_message local df ext fs dest st =
     (case st of (m, stream) \<Rightarrow>
        let v = \<lparr>d_iter = snd (pb_field_iter_begin fs dest), fields_seen = [0, 0], extension_range_start = 0, fixed_count_field = None\<rparr>
        in case noinit_loop (Suc (bytes_left stream)) (noinit_step local df ext) (v, store_size m local 0, stream) of
             None \<Rightarrow> None
           | Some (False, v, st) \<Rightarrow> Some (False, st)
           | Some (True, v, st) \<Rightarrow> final_checks local v st)"

text \<open>\<open>pb_decode\<close> for a given \<open>pb_decode_noinit\<close>.\<close>

definition decode_with :: "nat \<Rightarrow> 's pb_denv \<Rightarrow> 's msg_decoder \<Rightarrow> 's msg_decoder" where
  "decode_with n env dec_noinit fs dest st =
     (case st of (m, stream) \<Rightarrow>
        case pb_message_set_to_defaults n env fs dest m of
          None \<Rightarrow> None
        | Some m \<Rightarrow>
            (case dec_noinit fs dest (m, stream) of
               None \<Rightarrow> None
             | Some (True, st) \<Rightarrow> Some (True, st)
             | Some (False, m, stream) \<Rightarrow> map_option (\<lambda>m. (False, m, stream)) (pb_release n env fs dest m)))"

text \<open>
  The bound is for the nesting of messages, of default values and of releases, for the number of
  extensions and for the calls of a callback of the user.
\<close>

primrec pb_decode_noinit :: "nat \<Rightarrow> 's pb_denv \<Rightarrow> 's msg_decoder" where
  "pb_decode_noinit 0 env = (\<lambda>fs dest st. None)"
| "pb_decode_noinit (Suc n) env =
     (let dec_noinit = pb_decode_noinit n env; dec = decode_with n env dec_noinit; defs = pb_message_set_to_defaults n env
      in noinit_message (local_size env n) (decode_field n env defs dec dec_noinit) (decode_extension n env defs dec dec_noinit))"

definition pb_decode :: "nat \<Rightarrow> 's pb_denv \<Rightarrow> 's msg_decoder" where
  "pb_decode n env = decode_with n env (pb_decode_noinit n env)"

definition pb_decode_delimited_noinit :: "nat \<Rightarrow> 's pb_denv \<Rightarrow> 's msg_decoder" where
  "pb_decode_delimited_noinit n env fs dest = in_substream (pb_decode_noinit n env fs dest)"

definition pb_decode_delimited :: "nat \<Rightarrow> 's pb_denv \<Rightarrow> 's msg_decoder" where
  "pb_decode_delimited n env fs dest = in_substream (pb_decode n env fs dest)"

definition pb_decode_nullterminated :: "nat \<Rightarrow> 's pb_denv \<Rightarrow> 's msg_decoder" where
  "pb_decode_nullterminated n env = pb_decode n env"

end
