(* ===== verification/Pb_Decode_Safe.thy ===== *)
theory Pb_Decode_Safe
  imports Pb_Message_Decode
begin

text \<open>
  The decoder of messages on untrusted input: for message types whose members are all inside their
  structure, it returns, reads within its stream and writes within the structure.
\<close>

section \<open>Streams that shrink, continued\<close>

lemma skip_chunks_shrinks: "skip_chunks stream n = (r, s) \<Longrightarrow> shrinks stream s"
proof (induction stream n arbitrary: r s rule: skip_chunks.induct)
  case (1 stream count)
  obtain b s1 where rd: "pb_read stream 16 = (b, s1)" by force
  note IH = 1(1)
  note sh = pb_read_shrinks(1) [OF rd]
  show ?case
  proof (cases "16 < count \<and> b \<noteq> None")
    case True
    then obtain x where b: "b = Some x" by auto
    have "skip_chunks s1 (count - 16) = (r, s)" using 1(2) True rd b by (simp add: skip_chunks.simps [of stream])
    then have "shrinks s1 s" using IH [OF _ rd [symmetric] b] True by simp
    with sh show ?thesis by (rule shrinks_trans)
  next
    case False
    then show ?thesis
      using 1(2) rd sh pb_read_shrinks(1) [of stream count] by (auto simp: skip_chunks.simps [of stream] split: if_splits prod.splits)
  qed
qed

lemma pb_read_null_shrinks:
  assumes "pb_read_null stream n = (r, s)"
  shows "shrinks stream s" "r \<Longrightarrow> room stream \<noteq> None \<Longrightarrow> bytes_left s + n = bytes_left stream"
  using assms skip_chunks_shrinks [of stream n] pb_read_shrinks [of stream n]
  by (auto simp: pb_read_null_def room_def split: if_splits prod.splits istate.splits)

lemma pb_skip_varint_shrinks: "pb_skip_varint stream = (r, s) \<Longrightarrow> shrinks stream s"
proof (induction stream arbitrary: r s rule: pb_skip_varint.induct)
  case (1 stream)
  obtain b s1 where rd: "pb_read stream 1 = (b, s1)" by force
  note IH = 1(1) [OF rd [symmetric]]
  note sh = pb_read_shrinks(1) [OF rd]
  show ?case
    using 1(2) rd sh shrinks_trans [OF sh IH]
    by (cases b) (auto simp: pb_skip_varint.simps [of stream] split: if_splits)
qed

lemma pb_skip_field_shrinks: "pb_skip_field stream wt = (r, s) \<Longrightarrow> shrinks stream s"
  using pb_skip_varint_shrinks [of stream] pb_read_null_shrinks(1) [of stream]
  by (auto simp: pb_skip_field_def pb_skip_string_def split: pb_wire_type.splits prod.splits option.splits
      dest: pb_read_null_shrinks(1) decode_varint32_shrinks intro: shrinks_trans)

lemma pb_decode_tag_shrinks:
  "pb_decode_tag stream = ((r, eof), s) \<Longrightarrow> shrinks stream s \<and> (r \<noteq> None \<longrightarrow> bytes_left s < bytes_left stream)"
  using decode_varint32_eof_shrinks [of stream]
  by (auto simp: pb_decode_tag_def split: prod.splits option.splits if_splits)

section \<open>Decoders of values\<close>

text \<open>A decoder of \<open>n\<close> bytes reads within the stream, takes at least one byte of it, and stores \<open>n\<close> bytes.\<close>

definition byte_decoder :: "nat \<Rightarrow> ('s pb_istream \<Rightarrow> bytes \<Rightarrow> (bool \<times> bytes) \<times> 's pb_istream) \<Rightarrow> bool" where
  "byte_decoder n f \<longleftrightarrow>
     (\<forall>stream bs ok bs' s. istream_wf stream \<longrightarrow> length bs = n \<longrightarrow> f stream bs = ((ok, bs'), s) \<longrightarrow>
        length bs' = n \<and> shrinks stream s \<and> (ok \<longrightarrow> bytes_left s < bytes_left stream))"

lemma byte_decoderD:
  "byte_decoder n f \<Longrightarrow> istream_wf stream \<Longrightarrow> length bs = n \<Longrightarrow> f stream bs = ((ok, bs'), s) \<Longrightarrow>
   length bs' = n \<and> shrinks stream s \<and> (ok \<longrightarrow> bytes_left s < bytes_left stream)"
  by (auto simp: byte_decoder_def)

lemma length_store [simp]: "n \<le> length dest \<Longrightarrow> length (store n v dest) = length dest"
  by (simp add: store_def)

lemma clamp_length:
  "clamp_signed n v dest = Some (dest', c) \<Longrightarrow> n \<le> length dest \<Longrightarrow> length dest' = length dest"
  "clamp_unsigned n v dest = Some (dest', c) \<Longrightarrow> n \<le> length dest \<Longrightarrow> length dest' = length dest"
  by (auto simp: clamp_signed_def clamp_unsigned_def split: if_splits)

lemma byte_decoder_clamped:
  assumes "\<And>stream r s. dec stream = (r, s) \<Longrightarrow> shrinks stream s \<and> (r \<noteq> None \<longrightarrow> bytes_left s < bytes_left stream)"
    and "\<And>v dest d c. clamp (g v) dest = Some (d, c) \<Longrightarrow> n \<le> length dest \<Longrightarrow> length d = length dest"
  shows "byte_decoder n (\<lambda>stream dest. case dec stream of
     (None, stream) \<Rightarrow> ((False, dest), stream)
   | (Some v, stream) \<Rightarrow> clamped_result stream (g v) dest (clamp (g v) dest))"
  unfolding byte_decoder_def
proof (intro allI impI)
  fix stream s and bs bs' :: bytes and ok
  assume l: "length bs = n" and d: "(case dec stream of (None, stream) \<Rightarrow> ((False, bs), stream)
    | (Some v, stream) \<Rightarrow> clamped_result stream (g v) bs (clamp (g v) bs)) = ((ok, bs'), s)"
  obtain r s1 where v: "dec stream = (r, s1)" by force
  show "length bs' = n \<and> shrinks stream s \<and> (ok \<longrightarrow> bytes_left s < bytes_left stream)"
    using d v l assms(1) [OF v] assms(2) [of _ bs]
    by (cases r) (auto simp: clamped_result_def split: option.splits if_splits)
qed

lemma pb_decode_svarint_shrinks:
  "pb_decode_svarint stream = (r, s) \<Longrightarrow> shrinks stream s \<and> (r \<noteq> None \<longrightarrow> bytes_left s < bytes_left stream)"
  using decode_varint_shrinks [of stream]
  by (auto simp: pb_decode_svarint_def split: prod.splits option.splits)

lemma pb_read_fixed:
  assumes "pb_read stream n = (r, s)"
  shows "shrinks stream s \<and> (r \<noteq> None \<longrightarrow> 0 < n \<longrightarrow> bytes_left s < bytes_left stream)"
  using pb_read_shrinks [OF assms] by auto

lemma byte_decoders:
  "byte_decoder 1 (pb_dec_bool :: 's pb_istream \<Rightarrow> _)"
  "byte_decoder (data_size field) (\<lambda>stream :: 's pb_istream. pb_dec_varint stream field)"
  "byte_decoder (data_size field) (\<lambda>stream :: 's pb_istream. pb_dec_uvarint stream field)"
  "byte_decoder (data_size field) (\<lambda>stream :: 's pb_istream. pb_dec_svarint stream field)"
  "byte_decoder 4 (\<lambda>stream :: 's pb_istream. pb_dec_fixed32 stream field)"
  "byte_decoder 8 (\<lambda>stream :: 's pb_istream. pb_dec_fixed64 stream field)"
proof -
  show "byte_decoder 1 (pb_dec_bool :: 's pb_istream \<Rightarrow> _)"
    unfolding byte_decoder_def
    by (auto simp: pb_dec_bool_def split: prod.splits option.splits dest!: decode_varint32_shrinks)
  show "byte_decoder (data_size field) (\<lambda>stream :: 's pb_istream. pb_dec_varint stream field)"
    unfolding pb_dec_varint_def Let_def by (rule byte_decoder_clamped [OF decode_varint_shrinks clamp_length(1)])
  show "byte_decoder (data_size field) (\<lambda>stream :: 's pb_istream. pb_dec_uvarint stream field)"
    unfolding pb_dec_uvarint_def by (rule byte_decoder_clamped [OF decode_varint_shrinks clamp_length(2)])
  show "byte_decoder (data_size field) (\<lambda>stream :: 's pb_istream. pb_dec_svarint stream field)"
    unfolding pb_dec_svarint_def by (rule byte_decoder_clamped [OF pb_decode_svarint_shrinks clamp_length(1)])
  show "byte_decoder 4 (\<lambda>stream :: 's pb_istream. pb_dec_fixed32 stream field)"
    unfolding byte_decoder_def
    by (auto simp: pb_dec_fixed32_def pb_decode_fixed32_def split: prod.splits option.splits dest!: pb_read_fixed)
  show "byte_decoder 8 (\<lambda>stream :: 's pb_istream. pb_dec_fixed64 stream field)"
    unfolding byte_decoder_def
    by (auto simp: pb_dec_fixed64_def pb_decode_fixed64_def split: prod.splits option.splits dest!: pb_read_fixed)
qed

section \<open>Steps that stay inside a region\<close>

text \<open>
  From every memory and every stream inside its buffer, the step returns, changes the memory only at
  the addresses \<open>R\<close>, and reads within the stream; with \<open>p\<close>, it takes a byte of the stream if it succeeds.
\<close>

definition stays :: "bool \<Rightarrow> int set \<Rightarrow> ('s dstate \<Rightarrow> (bool \<times> 's dstate) option) \<Rightarrow> bool" where
  "stays p R f \<longleftrightarrow>
     (\<forall>m s. istream_wf s \<longrightarrow>
        (\<exists>ok m' s'. f (m, s) = Some (ok, m', s') \<and> same_outside R m m' \<and> shrinks s s' \<and>
           (p \<longrightarrow> ok \<longrightarrow> bytes_left s' < bytes_left s)))"

lemma staysE:
  assumes "stays p R f" "istream_wf s"
  obtains ok m' s' where "f (m, s) = Some (ok, m', s')" "same_outside R m m'" "shrinks s s'" "istream_wf s'"
    "p \<Longrightarrow> ok \<Longrightarrow> bytes_left s' < bytes_left s"
  using assms shrinks_wf unfolding stays_def by blast

lemma staysI:
  assumes "\<And>m s. istream_wf s \<Longrightarrow> \<exists>ok m' s'. f (m, s) = Some (ok, m', s') \<and> same_outside R m m' \<and> shrinks s s' \<and>
     (p \<longrightarrow> ok \<longrightarrow> bytes_left s' < bytes_left s)"
  shows "stays p R f"
  using assms by (simp add: stays_def)

lemma stays_weaken: "stays p R f \<Longrightarrow> R \<subseteq> R' \<Longrightarrow> (q \<Longrightarrow> p) \<Longrightarrow> stays q R' f"
  unfolding stays_def by (meson le_same_outside)

lemma stays_value:
  "(\<And>m s ok m' s'. istream_wf s \<Longrightarrow> f (m, s) = (ok, m', s') \<Longrightarrow>
      same_outside R m m' \<and> shrinks s s' \<and> (p \<longrightarrow> ok \<longrightarrow> bytes_left s' < bytes_left s)) \<Longrightarrow>
   stays p R (\<lambda>st. Some (f st))"
  unfolding stays_def by (metis surj_pair)

lemma stays_dec_at:
  assumes "byte_decoder n f" "{a..<a + int n} \<subseteq> R"
  shows "stays True R (\<lambda>st. Some (dec_at f a n st))"
proof (rule stays_value)
  fix m :: "int \<Rightarrow> u8" and s :: "'a pb_istream" and ok m' s'
  assume wf: "istream_wf s" and d: "dec_at f a n (m, s) = (ok, m', s')"
  obtain bs where f: "f s (load m a n) = ((ok, bs), s')" and m': "m' = mem_store m a bs"
    using d by (auto simp: dec_at_def split: prod.splits)
  from byte_decoderD [OF assms(1) wf _ f] have "length bs = n" "shrinks s s'" "ok \<longrightarrow> bytes_left s' < bytes_left s" by auto
  with assms(2) show "same_outside R m m' \<and> shrinks s s' \<and> (True \<longrightarrow> ok \<longrightarrow> bytes_left s' < bytes_left s)"
    by (simp add: m' same_outside_store)
qed

lemma byte_decoder_fixed_length: "byte_decoder (data_size field) (\<lambda>stream. pb_dec_fixed_length_bytes stream field)"
  unfolding byte_decoder_def
proof (intro allI impI)
  fix stream s :: "'a pb_istream" and bs ok bs'
  assume wf: "istream_wf stream" and l: "length bs = data_size field" and d: "pb_dec_fixed_length_bytes stream field bs = ((ok, bs'), s)"
  obtain r s1 where v: "pb_decode_varint32 stream = (r, s1)" by force
  obtain q s2 where rd: "pb_read s1 (data_size field) = (q, s2)" by force
  have sh: "shrinks stream s1" "r \<noteq> None \<longrightarrow> bytes_left s1 < bytes_left stream" using decode_varint32_shrinks [OF v] by auto
  have wf1: "istream_wf s1" using sh(1) wf by (rule shrinks_wf)
  note sh2 = pb_read_shrinks(1) [OF rd]
  show "length bs' = data_size field \<and> shrinks stream s \<and> (ok \<longrightarrow> bytes_left s < bytes_left stream)"
    using d v rd l sh shrinks_trans [OF sh(1) sh2] shrinks_left [OF sh2] pb_read_length [OF wf1, of "data_size field"]
    by (auto simp: pb_dec_fixed_length_bytes_def split: option.splits if_splits)
qed

lemma stays_bytes:
  assumes "PB_ATYPE (type field) \<noteq> PB_ATYPE_POINTER" "{a..<a + int (data_size field)} \<subseteq> R"
  shows "stays True R (\<lambda>st. Some (pb_dec_bytes realloc field a st))"
proof (rule stays_value)
  fix m :: "int \<Rightarrow> u8" and s :: "'a pb_istream" and ok m' s'
  assume wf: "istream_wf s" and d: "pb_dec_bytes realloc field a (m, s) = (ok, m', s')"
  obtain r s1 where v: "pb_decode_varint32 s = (r, s1)" by force
  have sh: "shrinks s s1" "r \<noteq> None \<longrightarrow> bytes_left s1 < bytes_left s" using decode_varint32_shrinks [OF v] by auto
  have wf1: "istream_wf s1" using sh(1) wf by (rule shrinks_wf)
  show "same_outside R m m' \<and> shrinks s s' \<and> (True \<longrightarrow> ok \<longrightarrow> bytes_left s' < bytes_left s)"
  proof (cases "\<exists>sz. r = Some sz \<and> unat sz + 4 \<le> data_size field")
    case True
    then obtain sz where sz: "r = Some sz" "unat sz + 4 \<le> data_size field" by auto
    have less: "unat sz < 2 ^ 32" using unsigned_less [of sz, where ?'a = nat] by simp
    obtain status m1 s2 where rd: "read_at (a + 4) (unat sz) (store_size m a (unat sz), s1) = (status, m1, s2)" by (metis surj_pair)
    have res: "ok = status" "m' = m1" "s' = s2"
      using assms(1) d v sz rd less by (auto simp: pb_dec_bytes_def Let_def PB_BYTES_ARRAY_T_ALLOCSIZE_def PB_SIZE_MAX_def size_wrap_def)
    note within = read_at_within [OF wf1 rd]
    have "same_outside R m (store_size m a (unat sz))"
      unfolding store_size_def by (rule same_outside_store) (use assms(2) sz(2) in auto)
    also have "same_outside R (store_size m a (unat sz)) m1"
    proof (rule le_same_outside [OF conjunct2 [OF within]])
      show "{a + 4..<a + 4 + int (unat sz)} \<subseteq> R" using assms(2) sz(2) by (auto simp del: of_nat_unat)
    qed
    finally show ?thesis
      using within sh shrinks_trans [OF sh(1)] shrinks_left [of s1 s2] sz(1) by (auto simp: res)
  next
    case False
    have less: "unat sz < 2 ^ 32" for sz :: u32 using unsigned_less [of sz, where ?'a = nat] by simp
    have w: "size_wrap (unat sz + 4) = unat sz + 4" for sz :: u32 using less [of sz] by (simp add: size_wrap_def)
    show ?thesis
      using False assms(1) d v sh less
      by (auto simp: pb_dec_bytes_def dec_error_def Let_def PB_BYTES_ARRAY_T_ALLOCSIZE_def w split: option.splits if_splits)
  qed
qed

lemma stays_string:
  assumes "PB_ATYPE (type field) \<noteq> PB_ATYPE_POINTER" "{a..<a + int (data_size field)} \<subseteq> R"
  shows "stays True R (\<lambda>st. Some (pb_dec_string realloc field a st))"
  by (rule stays_value) (use dec_string_static [OF _ assms(1)] le_same_outside [OF _ assms(2)] in blast)

lemma make_substream_shrinks:
  assumes "pb_make_string_substream stream = (r, s)"
  shows "shrinks stream s"
    and "r = Some sub \<Longrightarrow> bytes_left s < bytes_left stream \<and> shrinks stream sub \<and> (istream_wf stream \<longrightarrow> istream_wf sub) \<and> inp sub = inp s"
proof -
  obtain v s1 where d: "pb_decode_varint32 stream = (v, s1)" by force
  have sh: "shrinks stream s1" "v \<noteq> None \<longrightarrow> bytes_left s1 < bytes_left stream" using decode_varint32_shrinks [OF d] by auto
  have less: "shrinks s1 (s1\<lparr>bytes_left := n\<rparr>)" if "n \<le> bytes_left s1" for n
    using that by (simp add: shrinks_def room_def split: istate.split)
  note parts = shrinks_trans [OF sh(1) less]
  show "shrinks stream s" "r = Some sub \<Longrightarrow> bytes_left s < bytes_left stream \<and> shrinks stream sub \<and> (istream_wf stream \<longrightarrow> istream_wf sub) \<and> inp sub = inp s"
    using assms d sh parts shrinks_wf [of stream sub]
    by (auto simp: pb_make_string_substream_def split: option.splits if_splits)
qed

text \<open>The outer stream, closed after a run on the substream.\<close>

lemma close_substream_shrinks:
  assumes "pb_make_string_substream stream = (Some sub, s)" "shrinks sub sub'" "pb_close_string_substream s sub' = (r, s')"
  shows "shrinks stream s'" "bytes_left s' < bytes_left stream"
proof -
  obtain v s1 where d: "pb_decode_varint32 stream = (v, s1)" by force
  have sh: "shrinks stream s1" "v \<noteq> None \<longrightarrow> bytes_left s1 < bytes_left stream" using decode_varint32_shrinks [OF d] by auto
  obtain sz where v: "v = Some sz" "unat sz \<le> bytes_left s1" and sub: "sub = s1\<lparr>bytes_left := unat sz\<rparr>"
    and s: "s = s1\<lparr>bytes_left := bytes_left s1 - unat sz\<rparr>"
    using assms(1) d by (auto simp: pb_make_string_substream_def split: option.splits if_splits)
  obtain q sub'' where n: "(if bytes_left sub' \<noteq> 0 then pb_read_null sub' (bytes_left sub') else (True, sub')) = (q, sub'')" by force
  have rs: "s' = (if q then s\<lparr>inp := inp sub'', ierrmsg := ierrmsg sub''\<rparr> else s)"
    using assms(3) n by (auto simp: pb_close_string_substream_def split: bool.splits)
  have sh2: "shrinks sub' sub''" "q \<Longrightarrow> room sub' \<noteq> None \<Longrightarrow> bytes_left sub'' = 0"
    using n pb_read_null_shrinks [of sub' "bytes_left sub'" q sub''] by (auto split: if_splits)
  have "shrinks s1 s'"
  proof (cases "inp s1")
    case (Buf_read src)
    have "room sub = Some (int (length src) - int (unat sz))" using Buf_read by (simp add: sub room_def)
    then obtain r2 where r2: "room sub'' = Some r2" "int (length src) - int (unat sz) \<le> r2" "room sub' \<noteq> None"
      using shrinks_trans [OF assms(2) sh2(1)] assms(2) by (cases "room sub''"; cases "room sub'") (auto simp: shrinks_def)
    then obtain src2 where "inp sub'' = Buf_read src2" by (cases "inp sub''") (simp_all add: room_def)
    then show ?thesis using r2 sh2(2) Buf_read v(2)
      by (auto simp: rs s shrinks_def room_def)
  next
    case (User_read f t)
    have "room sub = None" using User_read by (simp add: sub room_def)
    then have "room sub'' = None"
      using shrinks_trans [OF assms(2) sh2(1)] by (cases "room sub''") (auto simp: shrinks_def)
    then obtain f2 t2 where "inp sub'' = User_read f2 t2" by (cases "inp sub''") (simp_all add: room_def)
    then show ?thesis using User_read by (auto simp: rs s shrinks_def room_def)
  qed
  then show "shrinks stream s'" by (rule shrinks_trans [OF sh(1)])
  show "bytes_left s' < bytes_left stream" using sh(2) v by (auto simp: rs s)
qed

lemma stays_in_substream:
  assumes "stays p R body"
  shows "stays True R (in_substream body)"
proof (rule staysI)
  fix m :: "int \<Rightarrow> u8" and stream :: "'a pb_istream"
  assume wf: "istream_wf stream"
  obtain r s where mk: "pb_make_string_substream stream = (r, s)" by force
  show "\<exists>ok m' s'. in_substream body (m, stream) = Some (ok, m', s') \<and> same_outside R m m' \<and> shrinks stream s' \<and>
      (True \<longrightarrow> ok \<longrightarrow> bytes_left s' < bytes_left stream)"
  proof (cases r)
    case None
    then have "in_substream body (m, stream) = Some (False, m, s)" using mk by (simp add: in_substream_def)
    then show ?thesis using make_substream_shrinks(1) [OF mk] by auto
  next
    case (Some sub)
    have "istream_wf sub" using make_substream_shrinks(2) [OF mk Some] wf by simp
    with assms obtain ok m' sub' where b: "body (m, sub) = Some (ok, m', sub')" "same_outside R m m'" "shrinks sub sub'"
      unfolding stays_def by blast
    obtain q s' where cl: "pb_close_string_substream s sub' = (q, s')" by force
    show ?thesis using close_substream_shrinks [OF mk [unfolded Some] b(3) cl] b mk Some cl
      by (cases q) (auto simp: in_substream_def)
  qed
qed

lemma stays_submessage:
  assumes "ptr field \<noteq> Null" "stays p R (dec (fields_at env (ptr field)) a)" "stays p R (dec_noinit (fields_at env (ptr field)) a)"
  shows "stays True R (pb_dec_submessage env dec dec_noinit field a)"
proof -
  let ?b = "(if PB_HTYPE (type field) = PB_HTYPE_REPEATED then dec else dec_noinit) (fields_at env (ptr field)) a"
  have "stays p R ?b" using assms(2,3) by simp
  moreover have "pb_dec_submessage env dec dec_noinit field a = in_substream ?b"
    using assms(1) by (simp add: pb_dec_submessage_def fun_eq_iff)
  ultimately show ?thesis by (simp only: stays_in_substream)
qed

section \<open>Members inside their structure\<close>

text \<open>The size of a member is enough for what its decoder stores.\<close>

definition value_fits :: "pb_field \<Rightarrow> bool" where
  "value_fits f \<longleftrightarrow>
     (let ltype = PB_LTYPE (type f)
      in if ltype = PB_LTYPE_BOOL then 1 \<le> data_size f
         else if ltype = PB_LTYPE_FIXED32 then 4 \<le> data_size f
         else if ltype = PB_LTYPE_FIXED64 then 8 \<le> data_size f
         else ltype \<in> {PB_LTYPE_VARINT, PB_LTYPE_UVARINT, PB_LTYPE_SVARINT, PB_LTYPE_BYTES, PB_LTYPE_STRING,
           PB_LTYPE_SUBMESSAGE, PB_LTYPE_FIXED_LENGTH_BYTES})"

lemma call_decoder_simps:
  "PB_LTYPE (type f) = PB_LTYPE_BOOL \<Longrightarrow> call_decoder env dec dec_noinit f a = (\<lambda>st. Some (dec_at pb_dec_bool a 1 st))"
  "PB_LTYPE (type f) = PB_LTYPE_VARINT \<Longrightarrow> call_decoder env dec dec_noinit f a = (\<lambda>st. Some (dec_at (\<lambda>stream. pb_dec_varint stream f) a (data_size f) st))"
  "PB_LTYPE (type f) = PB_LTYPE_UVARINT \<Longrightarrow> call_decoder env dec dec_noinit f a = (\<lambda>st. Some (dec_at (\<lambda>stream. pb_dec_uvarint stream f) a (data_size f) st))"
  "PB_LTYPE (type f) = PB_LTYPE_SVARINT \<Longrightarrow> call_decoder env dec dec_noinit f a = (\<lambda>st. Some (dec_at (\<lambda>stream. pb_dec_svarint stream f) a (data_size f) st))"
  "PB_LTYPE (type f) = PB_LTYPE_FIXED32 \<Longrightarrow> call_decoder env dec dec_noinit f a = (\<lambda>st. Some (dec_at (\<lambda>stream. pb_dec_fixed32 stream f) a 4 st))"
  "PB_LTYPE (type f) = PB_LTYPE_FIXED64 \<Longrightarrow> call_decoder env dec dec_noinit f a = (\<lambda>st. Some (dec_at (\<lambda>stream. pb_dec_fixed64 stream f) a 8 st))"
  "PB_LTYPE (type f) = PB_LTYPE_BYTES \<Longrightarrow> call_decoder env dec dec_noinit f a = (\<lambda>st. Some (pb_dec_bytes (c_realloc env) f a st))"
  "PB_LTYPE (type f) = PB_LTYPE_STRING \<Longrightarrow> call_decoder env dec dec_noinit f a = (\<lambda>st. Some (pb_dec_string (c_realloc env) f a st))"
  "PB_LTYPE (type f) = PB_LTYPE_SUBMESSAGE \<Longrightarrow> call_decoder env dec dec_noinit f a = pb_dec_submessage env dec dec_noinit f a"
  "PB_LTYPE (type f) = PB_LTYPE_FIXED_LENGTH_BYTES \<Longrightarrow>
     call_decoder env dec dec_noinit f a = (\<lambda>st. Some (dec_at (\<lambda>stream. pb_dec_fixed_length_bytes stream f) a (data_size f) st))"
  by (simp_all add: call_decoder_def fun_eq_iff Let_def ltype_defs)

lemma stays_call_decoder:
  fixes env :: "'s pb_denv"
  assumes "value_fits f" "PB_ATYPE (type f) \<noteq> PB_ATYPE_POINTER" "{a..<a + int (data_size f)} \<subseteq> R"
    and "PB_LTYPE (type f) = PB_LTYPE_SUBMESSAGE \<Longrightarrow>
      ptr f \<noteq> Null \<and> stays False R (dec (fields_at env (ptr f)) a) \<and> stays False R (dec_noinit (fields_at env (ptr f)) a)"
  shows "stays True R (call_decoder env dec dec_noinit f a)"
proof -
  have sub: "{a..<a + int n} \<subseteq> R" if "n \<le> data_size f" for n using that assms(3) by auto
  consider "PB_LTYPE (type f) = PB_LTYPE_BOOL" "1 \<le> data_size f" | "PB_LTYPE (type f) = PB_LTYPE_FIXED32" "4 \<le> data_size f"
    | "PB_LTYPE (type f) = PB_LTYPE_FIXED64" "8 \<le> data_size f" | "PB_LTYPE (type f) = PB_LTYPE_VARINT"
    | "PB_LTYPE (type f) = PB_LTYPE_UVARINT" | "PB_LTYPE (type f) = PB_LTYPE_SVARINT" | "PB_LTYPE (type f) = PB_LTYPE_BYTES"
    | "PB_LTYPE (type f) = PB_LTYPE_STRING" | "PB_LTYPE (type f) = PB_LTYPE_SUBMESSAGE" | "PB_LTYPE (type f) = PB_LTYPE_FIXED_LENGTH_BYTES"
    using assms(1) by (auto simp: value_fits_def Let_def split: if_splits)
  then show ?thesis
  proof cases
    case 1
    then show ?thesis by (simp only: call_decoder_simps stays_dec_at [OF byte_decoders(1) sub])
  next
    case 2
    then show ?thesis by (simp only: call_decoder_simps stays_dec_at [OF byte_decoders(5) sub])
  next
    case 3
    then show ?thesis by (simp only: call_decoder_simps stays_dec_at [OF byte_decoders(6) sub])
  next
    case 9
    then show ?thesis using assms(4) [OF 9] stays_submessage by (metis call_decoder_simps(9))
  qed (simp_all add: call_decoder_simps stays_dec_at byte_decoders byte_decoder_fixed_length sub assms(3)
    stays_bytes [OF assms(2,3)] stays_string [OF assms(2,3)])
qed

text \<open>Steps that only change the memory.\<close>

definition keeps :: "int set \<Rightarrow> ((int \<Rightarrow> u8) \<Rightarrow> (int \<Rightarrow> u8) option) \<Rightarrow> bool" where
  "keeps R g \<longleftrightarrow> (\<forall>m. \<exists>m'. g m = Some m' \<and> same_outside R m m')"

lemma keepsE: "keeps R g \<Longrightarrow> (\<And>m'. g m = Some m' \<Longrightarrow> same_outside R m m' \<Longrightarrow> P) \<Longrightarrow> P"
  unfolding keeps_def by blast

lemma stays_pre:
  assumes "\<And>m. same_outside R m (g m)" "stays p R f"
  shows "stays p R (\<lambda>(m, s). f (g m, s))"
  using assms unfolding stays_def prod.case by (meson same_outside_trans)

lemma stays_pre_opt:
  assumes "keeps R g" "stays p R f"
  shows "stays p R (\<lambda>(m, s). case g m of None \<Rightarrow> None | Some m \<Rightarrow> f (m, s))"
proof (rule staysI)
  fix m and s :: "'a pb_istream"
  assume wf: "istream_wf s"
  from assms(1) obtain m' where g: "g m = Some m'" "same_outside R m m'" by (rule keepsE)
  from assms(2) wf obtain ok m'' s' where "f (m', s) = Some (ok, m'', s')" "same_outside R m' m''" "shrinks s s'"
    "p \<longrightarrow> ok \<longrightarrow> bytes_left s' < bytes_left s" unfolding stays_def by blast
  with g show "\<exists>ok m' s'. (case (m, s) of (m, s) \<Rightarrow> case g m of None \<Rightarrow> None | Some m \<Rightarrow> f (m, s)) = Some (ok, m', s') \<and>
      same_outside R m m' \<and> shrinks s s' \<and> (p \<longrightarrow> ok \<longrightarrow> bytes_left s' < bytes_left s)"
    by (auto intro: same_outside_trans)
qed

lemma same_outside_size: "{a..<a + 4} \<subseteq> R \<Longrightarrow> same_outside R m (store_size m a n)"
  unfolding store_size_def by (rule same_outside_store) simp

lemma same_outside_bool: "a \<in> R \<Longrightarrow> same_outside R m (store_bool m a b)"
  unfolding store_bool_def by (rule same_outside_store) auto

text \<open>The member at \<open>data\<close>, with its count, flag or selector at \<open>cnt\<close>, is inside the region \<open>R\<close>.\<close>

definition member_in :: "int set \<Rightarrow> pb_field \<Rightarrow> int \<Rightarrow> int \<Rightarrow> bool" where
  "member_in R f data cnt \<longleftrightarrow> value_fits f \<and> PB_ATYPE (type f) = PB_ATYPE_STATIC \<and>
     (if PB_HTYPE (type f) = PB_HTYPE_REQUIRED then {data..<data + int (data_size f)} \<subseteq> R
      else if PB_HTYPE (type f) = PB_HTYPE_OPTIONAL then {data..<data + int (data_size f)} \<subseteq> R \<and> (cnt \<noteq> data \<longrightarrow> cnt \<in> R)
      else if PB_HTYPE (type f) = PB_HTYPE_REPEATED then
        {data..<data + int (data_size f * array_size f)} \<subseteq> R \<and> {cnt..<cnt + 4} \<subseteq> R \<and> data_size f * array_size f < 2 ^ 32
      else {data..<data + int (data_size f)} \<subseteq> R \<and> {cnt..<cnt + 4} \<subseteq> R)"

definition submessage_in :: "int set \<Rightarrow> 's pb_denv \<Rightarrow> defaults \<Rightarrow> 's msg_decoder \<Rightarrow> 's msg_decoder \<Rightarrow> pb_field \<Rightarrow> bool" where
  "submessage_in R env defs dec dec_noinit f \<longleftrightarrow>
     (PB_LTYPE (type f) = PB_LTYPE_SUBMESSAGE \<longrightarrow> ptr f \<noteq> Null \<and>
       (\<forall>a. {a..<a + int (data_size f)} \<subseteq> R \<longrightarrow> stays False R (dec (fields_at env (ptr f)) a) \<and>
          stays False R (dec_noinit (fields_at env (ptr f)) a) \<and> keeps R (defs (fields_at env (ptr f)) a)))"

lemma item_inside:
  assumes "i < array_size f" "data_size f * array_size f < 2 ^ 32" "{data..<data + int (data_size f * array_size f)} \<subseteq> R"
  shows "{data + item_offset f i..<data + item_offset f i + int (data_size f)} \<subseteq> R"
proof -
  have "data_size f * (i + 1) \<le> data_size f * array_size f" using assms(1) by (intro mult_le_mono) auto
  then have l: "data_size f * i + data_size f \<le> data_size f * array_size f" by simp
  then have "data_size f * i < 2 ^ 32" using assms(2) by linarith
  then have "item_offset f i = int (data_size f * i)" by (simp only: item_offset_def mod_less)
  then show ?thesis using assms(3) l by (auto simp del: of_nat_mult of_nat_add simp: of_nat_add [symmetric])
qed

lemma packed_loop_stays:
  assumes "\<And>i. i < array_size (cur_field iter) \<Longrightarrow> stays True R (func (pData iter + item_offset (cur_field iter) i))"
    and "{pSize iter..<pSize iter + 4} \<subseteq> R"
  shows "istream_wf s \<Longrightarrow> bytes_left s < k \<Longrightarrow>
    \<exists>ok m' s'. packed_loop k func iter (m, s) = Some (ok, m', s') \<and> same_outside R m m' \<and> shrinks s s'"
proof (induction k arbitrary: m s)
  case (Suc k)
  let ?i = "load_size m (pSize iter)"
  show ?case
  proof (cases "bytes_left s > 0 \<and> ?i < array_size (cur_field iter)")
    case True
    from assms(1) [of ?i] True Suc.prems(1) obtain ok m1 s1 where
      f: "func (pData iter + item_offset (cur_field iter) ?i) (m, s) = Some (ok, m1, s1)" "same_outside R m m1" "shrinks s s1"
        "ok \<longrightarrow> bytes_left s1 < bytes_left s" unfolding stays_def by blast
    let ?m = "store_size m1 (pSize iter) (load_size m1 (pSize iter) + 1)"
    have so: "same_outside R m ?m" using f(2) same_outside_size [OF assms(2)] by (rule same_outside_trans)
    show ?thesis
    proof (cases ok)
      case True
      then obtain ok' m2 s2 where "packed_loop k func iter (?m, s1) = Some (ok', m2, s2)" "same_outside R ?m m2" "shrinks s1 s2"
        using Suc.IH [of s1 ?m] f Suc.prems shrinks_wf [OF f(3)] by auto
      then show ?thesis
        using f True \<open>bytes_left s > 0 \<and> ?i < array_size (cur_field iter)\<close> same_outside_trans [OF so] shrinks_trans [OF f(3)]
        by (auto simp: then_enc_def)
    next
      case False
      then show ?thesis using f \<open>bytes_left s > 0 \<and> ?i < array_size (cur_field iter)\<close> by (auto simp: then_enc_def)
    qed
  next
    case False
    then have "packed_loop (Suc k) func iter (m, s) = Some (True, m, s)" by auto
    then show ?thesis by auto
  qed
qed simp

lemma static_packed_stays:
  assumes "PB_HTYPE (type (cur_field iter)) = PB_HTYPE_REPEATED" "wt = PB_WT_STRING" "PB_LTYPE (type (cur_field iter)) \<le> PB_LTYPE_LAST_PACKABLE"
    and "\<And>i. i < array_size (cur_field iter) \<Longrightarrow>
      stays True R (call_decoder env dec dec_noinit (cur_field iter) (pData iter + item_offset (cur_field iter) i))"
    and "{pSize iter..<pSize iter + 4} \<subseteq> R"
  shows "stays False R (decode_static_field env defs dec dec_noinit wt iter)"
proof (rule staysI)
  fix m and s :: "'a pb_istream"
  assume wf: "istream_wf s"
  note st = decode_static_field_def Let_def htype_distinct2
  obtain r s1 where mk: "pb_make_string_substream s = (r, s1)" by force
  show "\<exists>ok m' s'. decode_static_field env defs dec dec_noinit wt iter (m, s) = Some (ok, m', s') \<and> same_outside R m m' \<and>
      shrinks s s' \<and> (False \<longrightarrow> ok \<longrightarrow> bytes_left s' < bytes_left s)"
  proof (cases r)
    case None
    then show ?thesis using assms(1-3) mk make_substream_shrinks(1) [OF mk] by (auto simp: st)
  next
    case (Some sub)
    have wf': "istream_wf sub" using make_substream_shrinks(2) [OF mk Some] wf by simp
    obtain ok m' sub' where l: "packed_loop (Suc (bytes_left sub)) (call_decoder env dec dec_noinit (cur_field iter)) iter (m, sub) = Some (ok, m', sub')"
      "same_outside R m m'" "shrinks sub sub'"
      using packed_loop_stays [where func = "call_decoder env dec dec_noinit (cur_field iter)" and iter = iter, OF assms(4,5) wf' lessI]
      by blast
    obtain q s' where cl: "pb_close_string_substream s1 sub' = (q, s')" by force
    show ?thesis
      using assms(1-3) mk Some l cl close_substream_shrinks [OF mk [unfolded Some] l(3) cl] make_substream_shrinks(1) [OF mk]
      by (cases q) (auto simp: st dec_error_def)
  qed
qed

lemma static_item_stays:
  assumes "PB_HTYPE (type (cur_field iter)) = PB_HTYPE_REPEATED" "\<not> (wt = PB_WT_STRING \<and> PB_LTYPE (type (cur_field iter)) \<le> PB_LTYPE_LAST_PACKABLE)"
    and "\<And>i. i < array_size (cur_field iter) \<Longrightarrow>
      stays True R (call_decoder env dec dec_noinit (cur_field iter) (pData iter + item_offset (cur_field iter) i))"
    and "{pSize iter..<pSize iter + 4} \<subseteq> R"
  shows "stays False R (decode_static_field env defs dec dec_noinit wt iter)"
proof (rule staysI)
  fix m and s :: "'a pb_istream"
  assume wf: "istream_wf s"
  note st = decode_static_field_def Let_def htype_distinct2
  let ?i = "load_size m (pSize iter)"
  let ?m = "store_size m (pSize iter) (?i + 1)"
  have so: "same_outside R m ?m" by (rule same_outside_size [OF assms(4)])
  show "\<exists>ok m' s'. decode_static_field env defs dec dec_noinit wt iter (m, s) = Some (ok, m', s') \<and> same_outside R m m' \<and>
      shrinks s s' \<and> (False \<longrightarrow> ok \<longrightarrow> bytes_left s' < bytes_left s)"
  proof (cases "?i \<ge> array_size (cur_field iter)")
    case True
    then show ?thesis using assms(1,2) so by (auto simp: st dec_error_def)
  next
    case False
    then obtain ok m' s' where
      "call_decoder env dec dec_noinit (cur_field iter) (pData iter + item_offset (cur_field iter) ?i) (?m, s) = Some (ok, m', s')"
      "same_outside R ?m m'" "shrinks s s'"
      using assms(3) [of ?i] wf unfolding stays_def by (meson not_le)
    then show ?thesis using assms(1,2) False same_outside_trans [OF so] by (auto simp: st)
  qed
qed

lemma static_oneof_stays:
  assumes "PB_HTYPE (type (cur_field iter)) = PB_HTYPE_ONEOF"
    and "stays False R (call_decoder env dec dec_noinit (cur_field iter) (pData iter))"
    and "{pData iter..<pData iter + int (data_size (cur_field iter))} \<subseteq> R" "{pSize iter..<pSize iter + 4} \<subseteq> R"
    and "PB_LTYPE (type (cur_field iter)) = PB_LTYPE_SUBMESSAGE \<Longrightarrow> keeps R (defs (fields_at env (ptr (cur_field iter))) (pData iter))"
  shows "stays False R (decode_static_field env defs dec dec_noinit wt iter)"
proof -
  note st = decode_static_field_def Let_def htype_distinct2
  let ?f = "cur_field iter" and ?d = "pData iter"
  define reset where "reset m =
    (if PB_LTYPE (type ?f) = PB_LTYPE_SUBMESSAGE \<and> load_size m (pSize iter) \<noteq> unat (tag ?f)
     then defs (fields_at env (ptr ?f)) ?d (mem_store m ?d (replicate (data_size ?f) 0)) else Some m)" for m
  have mem: "same_outside R m (mem_store m ?d (replicate (data_size ?f) 0))" for m
    by (rule same_outside_store) (use assms(3) in simp)
  have "keeps R reset"
    unfolding keeps_def
  proof
    fix m
    show "\<exists>m'. reset m = Some m' \<and> same_outside R m m'"
    proof (cases "PB_LTYPE (type ?f) = PB_LTYPE_SUBMESSAGE \<and> load_size m (pSize iter) \<noteq> unat (tag ?f)")
      case True
      with assms(5) obtain m' where "reset m = Some m'" "same_outside R (mem_store m ?d (replicate (data_size ?f) 0)) m'"
        unfolding keeps_def reset_def by auto
      then show ?thesis using same_outside_trans [OF mem] by blast
    qed (auto simp: reset_def)
  qed
  moreover have "stays False R (\<lambda>(m, s). call_decoder env dec dec_noinit ?f ?d (store_size m (pSize iter) (unat (tag ?f)), s))"
    by (rule stays_pre [OF same_outside_size [OF assms(4)] assms(2)])
  ultimately have "stays False R (\<lambda>(m, s). case reset m of None \<Rightarrow> None
      | Some m \<Rightarrow> (\<lambda>(m, s). call_decoder env dec dec_noinit ?f ?d (store_size m (pSize iter) (unat (tag ?f)), s)) (m, s))"
    by (rule stays_pre_opt)
  moreover have "decode_static_field env defs dec dec_noinit wt iter = (\<lambda>(m, s). case reset m of None \<Rightarrow> None
      | Some m \<Rightarrow> (\<lambda>(m, s). call_decoder env dec dec_noinit ?f ?d (store_size m (pSize iter) (unat (tag ?f)), s)) (m, s))"
    using assms(1) by (auto simp: st fun_eq_iff reset_def)
  ultimately show ?thesis by simp
qed

lemma decode_static_field_stays:
  assumes "member_in R (cur_field iter) (pData iter) (pSize iter)" "submessage_in R env defs dec dec_noinit (cur_field iter)"
  shows "stays False R (decode_static_field env defs dec dec_noinit wt iter)"
proof -
  let ?f = "cur_field iter" and ?d = "pData iter" and ?z = "pSize iter"
  let ?h = "PB_HTYPE (type ?f)" and ?n = "data_size ?f"
  let ?func = "call_decoder env dec dec_noinit ?f"
  have fits: "value_fits ?f" "PB_ATYPE (type ?f) \<noteq> PB_ATYPE_POINTER"
    using assms(1) by (simp_all add: member_in_def PB_ATYPE_STATIC_def PB_ATYPE_POINTER_def)
  have func: "stays True R (?func a)" if "{a..<a + int ?n} \<subseteq> R" for a
    by (rule stays_call_decoder [OF fits that]) (use assms(2) that in \<open>auto simp: submessage_in_def\<close>)
  have func0: "stays False R (?func a)" if "{a..<a + int ?n} \<subseteq> R" for a
    by (rule stays_weaken [OF func [OF that]]) auto
  note st = decode_static_field_def Let_def htype_distinct2
  consider (req) "?h = PB_HTYPE_REQUIRED" | (opt) "?h = PB_HTYPE_OPTIONAL" | (rep) "?h = PB_HTYPE_REPEATED" | (one) "?h = PB_HTYPE_ONEOF"
    using htype_cases [of "type ?f"] by blast
  then show ?thesis
  proof cases
    case req
    then have "decode_static_field env defs dec dec_noinit wt iter = ?func ?d" by (simp add: st fun_eq_iff)
    then show ?thesis using func0 assms(1) req by (simp add: member_in_def)
  next
    case opt
    let ?g = "\<lambda>m. if ?z \<noteq> ?d then store_bool m ?z True else m"
    have "decode_static_field env defs dec dec_noinit wt iter = (\<lambda>(m, s). ?func ?d (?g m, s))"
      using opt by (simp add: st fun_eq_iff)
    moreover have "{?d..<?d + int ?n} \<subseteq> R" "?z \<noteq> ?d \<longrightarrow> ?z \<in> R" using assms(1) opt by (simp_all add: member_in_def htype_distinct2)
    ultimately show ?thesis using stays_pre [of R ?g False "?func ?d"] func0 same_outside_bool [of ?z R] by auto
  next
    case rep
    have inside: "{?d..<?d + int (?n * array_size ?f)} \<subseteq> R" "{?z..<?z + 4} \<subseteq> R" "?n * array_size ?f < 2 ^ 32"
      using assms(1) rep by (simp_all add: member_in_def htype_distinct2)
    note item = func [OF item_inside [OF _ inside(3,1)]]
    show ?thesis
      using static_packed_stays [OF rep _ _ item inside(2)] static_item_stays [OF rep _ item inside(2)] by blast
  next
    case one
    have inside: "{?d..<?d + int ?n} \<subseteq> R" "{?z..<?z + 4} \<subseteq> R" using assms(1) one by (simp_all add: member_in_def htype_distinct2)
    show ?thesis
      by (rule static_oneof_stays [OF one func0 [OF inside(1)] inside]) (use assms(2) inside(1) in \<open>simp add: submessage_in_def\<close>)
  qed
qed

section \<open>Message types whose members are inside\<close>

text \<open>
  The numbers of a descriptor, for the offsets \<open>d\<close> of the member and \<open>z\<close> of its flag, count or selector
  in a structure of \<open>n\<close> bytes. The four bytes of a count have to be inside even for an array of fixed
  size, where \<open>z\<close> is \<open>d\<close>.
\<close>

definition member_inside :: "nat \<Rightarrow> pb_field \<Rightarrow> int \<Rightarrow> int \<Rightarrow> bool" where
  "member_inside n f d z \<longleftrightarrow> value_fits f \<and> PB_ATYPE (type f) = PB_ATYPE_STATIC \<and> 0 \<le> d \<and>
     d + int (data_size f * (if PB_HTYPE (type f) = PB_HTYPE_REPEATED then array_size f else 1)) \<le> int n \<and>
     (if PB_HTYPE (type f) = PB_HTYPE_REQUIRED then True
      else if PB_HTYPE (type f) = PB_HTYPE_OPTIONAL then z = d \<or> 0 \<le> z \<and> z < int n
      else 0 \<le> z \<and> z + 4 \<le> int n \<and> (PB_HTYPE (type f) = PB_HTYPE_REPEATED \<longrightarrow> data_size f * array_size f < 2 ^ 32))"

text \<open>
  A message type of static members, nested at most \<open>depth\<close> deep, whose structure has \<open>n\<close> bytes. The
  offsets are those that the iterator computes.
\<close>

primrec plain :: "nat \<Rightarrow> 's pb_denv \<Rightarrow> nat \<Rightarrow> pb_field list \<Rightarrow> bool" where
  "plain 0 env n fs = False"
| "plain (Suc depth) env n fs =
     (fields_wf fs \<and>
      list_all (\<lambda>k. member_inside n (fs ! k) (pData (iter_at fs 0 k)) (pSize (iter_at fs 0 k)) \<and>
        (PB_LTYPE (type (fs ! k)) = PB_LTYPE_SUBMESSAGE \<longrightarrow>
           ptr (fs ! k) \<noteq> Null \<and> plain depth env (data_size (fs ! k)) (fields_at env (ptr (fs ! k))))) [0..<num_fields fs])"

lemma member_inside_in:
  assumes "member_inside n f d z" "{dest..<dest + int n} \<subseteq> R"
  shows "member_in R f (dest + d) (dest + z)"
proof -
  have "{dest + a..<dest + a + b} \<subseteq> R" if "0 \<le> a" "a + b \<le> int n" for a b using that assms(2) by auto
  moreover have "dest + a \<in> R" if "0 \<le> a" "a < int n" for a using that assms(2) by auto
  ultimately show ?thesis using assms(1) by (auto simp: member_in_def member_inside_def htype_distinct2 split: if_splits)
qed

lemma member_in_count:
  "member_in R f d z \<Longrightarrow> PB_HTYPE (type f) = PB_HTYPE_REPEATED \<Longrightarrow> {l..<l + 4} \<subseteq> R \<Longrightarrow> member_in R f d l"
  by (simp add: member_in_def htype_distinct2)

definition shift_iter :: "int \<Rightarrow> pb_field_iter \<Rightarrow> pb_field_iter" where
  "shift_iter dest it = it\<lparr>dest_struct := dest + dest_struct it, pData := dest + pData it, pSize := dest + pSize it\<rparr>"

lemma iter_next_shift: "pb_field_iter_next (shift_iter dest it) = map_prod id (shift_iter dest) (pb_field_iter_next it)"
  by (simp add: pb_field_iter_next_def pb_field_iter_begin_def shift_iter_def cur_field_def Let_def add.assoc)

lemma iter_at_shift: "iter_at fs dest k = shift_iter dest (iter_at fs 0 k)"
proof (induction k)
  case 0
  then show ?case by (simp add: pb_field_iter_begin_def shift_iter_def Let_def)
next
  case (Suc k)
  then show ?case by (simp only: iter_at.simps iter_next_shift snd_map_prod)
qed

lemma iter_at_offsets:
  "pData (iter_at fs dest k) = dest + pData (iter_at fs 0 k)" "pSize (iter_at fs dest k) = dest + pSize (iter_at fs 0 k)"
  by (subst iter_at_shift, simp add: shift_iter_def)+

lemma iter_at_field: "fields_wf fs \<Longrightarrow> k < num_fields fs \<Longrightarrow> cur_field (iter_at fs dest k) = fs ! k"
  by (simp add: cur_field_def iter_at_static)

lemma plainD:
  assumes "plain (Suc depth) env n fs" "k < num_fields fs"
  shows "member_inside n (fs ! k) (pData (iter_at fs 0 k)) (pSize (iter_at fs 0 k))"
    and "PB_LTYPE (type (fs ! k)) = PB_LTYPE_SUBMESSAGE \<Longrightarrow>
      ptr (fs ! k) \<noteq> Null \<and> plain depth env (data_size (fs ! k)) (fields_at env (ptr (fs ! k)))"
  using assms by (simp_all add: list_all_iff del: iter_at.simps)

lemma plain_wf: "plain depth env n fs \<Longrightarrow> fields_wf fs"
  by (cases depth) (simp_all del: iter_at.simps)

lemma plain_member_in:
  assumes "plain (Suc depth) env n fs" "k < num_fields fs" "{dest..<dest + int n} \<subseteq> R"
  shows "member_in R (fs ! k) (pData (iter_at fs dest k)) (pSize (iter_at fs dest k))"
  using member_inside_in [OF plainD(1) [OF assms(1,2)] assms(3)] by (simp add: iter_at_offsets [of fs dest k])

lemma value_fits_no_extension: "value_fits f \<Longrightarrow> PB_LTYPE (type f) \<noteq> PB_LTYPE_EXTENSION"
  by (auto simp: value_fits_def Let_def ltype_defs split: if_splits)

lemma plain_field:
  assumes "plain (Suc depth) env n fs" "k < num_fields fs"
  shows "PB_LTYPE (type (fs ! k)) \<noteq> PB_LTYPE_EXTENSION" "PB_ATYPE (type (fs ! k)) = PB_ATYPE_STATIC"
  using plainD(1) [OF assms] value_fits_no_extension by (auto simp: member_inside_def)

section \<open>Default values and release\<close>

lemma keeps_all:
  "\<forall>g \<in> set gs. keeps R g \<Longrightarrow> keeps R (\<lambda>m. map_option snd (all_enc (map always gs) m))"
proof (induction gs)
  case (Cons g gs)
  show ?case
    unfolding keeps_def
  proof
    fix m
    have "keeps R g" using Cons.prems by simp
    then obtain m1 where g: "g m = Some m1" "same_outside R m m1" by (rule keepsE)
    have "keeps R (\<lambda>m. map_option snd (all_enc (map always gs) m))" using Cons.prems by (intro Cons.IH) simp
    then obtain m2 where "map_option snd (all_enc (map always gs) m1) = Some m2" "same_outside R m1 m2" by (rule keepsE)
    then show "\<exists>m'. map_option snd (all_enc (map always (g # gs)) m) = Some m' \<and> same_outside R m m'"
      using g same_outside_trans by (auto simp: always_def then_enc_def)
  qed
qed (simp add: keeps_def)

lemma keeps_iter_loop:
  assumes "fields_wf fs" "\<And>k. k < num_fields fs \<Longrightarrow> keeps R (g (iter_at fs dest k))"
  shows "keeps R (\<lambda>m. map_option snd (iter_loop (length fs) (\<lambda>iter. always (g iter)) (iter_at fs dest 0) m))"
proof -
  have n: "0 < num_fields fs" "num_fields fs \<le> length fs" using assms(1) by (auto simp: num_fields_def fields_wf_def)
  have "iter_loop (length fs) (\<lambda>iter. always (g iter)) (iter_at fs dest 0) =
      all_enc (map always (map (\<lambda>k. g (iter_at fs dest k)) [0..<num_fields fs]))"
    using iter_loop_law [OF assms(1) n(1), of "length fs" "\<lambda>iter. always (g iter)" dest] n(2) by (simp add: comp_def del: iter_at.simps)
  moreover have "keeps R (\<lambda>m. map_option snd (all_enc (map always (map (\<lambda>k. g (iter_at fs dest k)) [0..<num_fields fs])) m))"
    by (rule keeps_all) (use assms(2) in auto)
  ultimately show ?thesis by simp
qed

lemma keeps_array_loop:
  "(\<And>p. keeps R (g p)) \<Longrightarrow> keeps R (\<lambda>m. map_option snd (array_loop c (\<lambda>p. always (g p)) a st m))"
proof (induction c arbitrary: a)
  case (Suc c)
  show ?case
    unfolding keeps_def
  proof
    fix m
    from Suc.prems obtain m1 where g: "g a m = Some m1" "same_outside R m m1" by (rule keepsE)
    from Suc.IH [OF Suc.prems] obtain m2 where
      "map_option snd (array_loop c (\<lambda>p. always (g p)) (a + int st) st m1) = Some m2" "same_outside R m1 m2" by (rule keepsE)
    then show "\<exists>m'. map_option snd (array_loop (Suc c) (\<lambda>p. always (g p)) a st m) = Some m' \<and> same_outside R m m'"
      using g same_outside_trans by (auto simp: always_def then_enc_def)
  qed
qed (simp add: keeps_def)

lemma iter_begin_wf: "fields_wf fs \<Longrightarrow> pb_field_iter_begin fs dest = (True, iter_at fs dest 0)"
  using fields_wf_tag [of fs 0] by (auto simp: pb_field_iter_begin_def Let_def num_fields_def fields_wf_def)

lemma set_defaults_keeps:
  assumes "fields_wf fs" "\<And>k. k < num_fields fs \<Longrightarrow> keeps R (g (iter_at fs dest k))"
  shows "keeps R (set_defaults g fs dest)"
  using keeps_iter_loop [where g = g and dest = dest, OF assms] by (simp add: keeps_def set_defaults_def iter_begin_wf [OF assms(1)] del: iter_at.simps)

lemma release_fields_keeps:
  assumes "fields_wf fs" "\<And>k. k < num_fields fs \<Longrightarrow> keeps R (g (iter_at fs dest k))"
  shows "keeps R (release_fields g fs dest)"
  using keeps_iter_loop [where g = g and dest = dest, OF assms] by (auto simp: keeps_def release_fields_def iter_begin_wf [OF assms(1)] simp del: iter_at.simps)

lemma submessage_inside:
  assumes "member_in R f d z" "PB_HTYPE (type f) = PB_HTYPE_REQUIRED \<or> PB_HTYPE (type f) = PB_HTYPE_OPTIONAL"
  shows "{d..<d + int (data_size f)} \<subseteq> R"
  using assms(2,1) by (elim disjE) (simp_all add: member_in_def htype_distinct2)

lemma default_field_keeps:
  assumes "PB_LTYPE (type (cur_field iter)) \<noteq> PB_LTYPE_EXTENSION" "member_in R (cur_field iter) (pData iter) (pSize iter)"
    and "PB_LTYPE (type (cur_field iter)) = PB_LTYPE_SUBMESSAGE \<Longrightarrow> {pData iter..<pData iter + int (data_size (cur_field iter))} \<subseteq> R \<Longrightarrow>
      keeps R (set_defaults (pb_field_set_to_default n env) (fields_at env (ptr (cur_field iter))) (pData iter))"
  shows "keeps R (pb_field_set_to_default (Suc n) env iter)"
  unfolding keeps_def
proof
  fix m
  let ?f = "cur_field iter" and ?d = "pData iter" and ?z = "pSize iter"
  let ?h = "PB_HTYPE (type ?f)"
  have st: "PB_ATYPE (type ?f) = PB_ATYPE_STATIC" using assms(2) by (simp add: member_in_def)
  show "\<exists>m'. pb_field_set_to_default (Suc n) env iter m = Some m' \<and> same_outside R m m'"
  proof (cases "?h = PB_HTYPE_REPEATED \<or> ?h = PB_HTYPE_ONEOF")
    case True
    then have "{?z..<?z + 4} \<subseteq> R" using assms(2) by (elim disjE) (simp_all add: member_in_def htype_distinct2)
    then show ?thesis using assms(1) st True same_outside_size by (auto simp: Let_def)
  next
    case False
    then have h: "?h = PB_HTYPE_REQUIRED \<or> ?h = PB_HTYPE_OPTIONAL" using htype_cases [of "type ?f"] by blast
    note d = submessage_inside [OF assms(2) h]
    let ?m = "if ?h = PB_HTYPE_OPTIONAL \<and> ?z \<noteq> ?d then store_bool m ?z False else m"
    have so: "same_outside R m ?m" using assms(2) by (auto simp: member_in_def htype_distinct2 intro: same_outside_bool)
    have st2: "same_outside R ?m (mem_store ?m ?d bs)" if "length bs = data_size ?f" for bs
      using same_outside_store [of ?d bs R] d that by simp
    show ?thesis
    proof (cases "PB_LTYPE (type ?f) = PB_LTYPE_SUBMESSAGE")
      case True
      then obtain m' where "set_defaults (pb_field_set_to_default n env) (fields_at env (ptr ?f)) ?d ?m = Some m'" "same_outside R ?m m'"
        using assms(3) d by (blast elim: keepsE)
      then show ?thesis using assms(1) st False True same_outside_trans [OF so] by (auto simp: Let_def)
    next
      case scalar: False
      then show ?thesis using assms(1) st False same_outside_trans [OF so st2] by (auto simp: Let_def)
    qed
  qed
qed

lemma defaults_keep:
  "plain depth env sz fs \<Longrightarrow> depth \<le> n \<Longrightarrow> {dest..<dest + int sz} \<subseteq> R \<Longrightarrow> keeps R (pb_message_set_to_defaults n env fs dest)"
proof (induction depth arbitrary: n sz fs dest)
  case (Suc depth)
  then obtain n' where n: "n = Suc n'" "depth \<le> n'" by (cases n) auto
  note wf = plain_wf [OF Suc.prems(1)]
  show ?case
    unfolding pb_message_set_to_defaults_def
  proof (rule set_defaults_keeps [OF wf])
    fix k assume k: "k < num_fields fs"
    note cur = iter_at_field [OF wf k, of dest]
    show "keeps R (pb_field_set_to_default n env (iter_at fs dest k))"
      unfolding n
    proof (rule default_field_keeps, unfold cur)
      show "PB_LTYPE (type (fs ! k)) \<noteq> PB_LTYPE_EXTENSION" by (rule plain_field [OF Suc.prems(1) k])
      show "member_in R (fs ! k) (pData (iter_at fs dest k)) (pSize (iter_at fs dest k))"
        by (rule plain_member_in [OF Suc.prems(1) k Suc.prems(3)])
      show "keeps R (set_defaults (pb_field_set_to_default n' env) (fields_at env (ptr (fs ! k))) (pData (iter_at fs dest k)))"
        if "PB_LTYPE (type (fs ! k)) = PB_LTYPE_SUBMESSAGE"
          "{pData (iter_at fs dest k)..<pData (iter_at fs dest k) + int (data_size (fs ! k))} \<subseteq> R"
        using Suc.IH [OF _ n(2) that(2)] plainD(2) [OF Suc.prems(1) k that(1)] by (simp add: pb_message_set_to_defaults_def)
    qed
  qed
qed simp

text \<open>Nothing is allocated for static members: their release changes nothing.\<close>

lemma release_keeps:
  "plain depth env sz fs \<Longrightarrow> depth \<le> n \<Longrightarrow> k < num_fields fs \<Longrightarrow> keeps {} (pb_release_single_field n env (iter_at fs dest k))"
proof (induction depth arbitrary: n sz fs dest k)
  case (Suc depth)
  then obtain n' where n: "n = Suc n'" "depth \<le> n'" by (cases n) auto
  note wf = plain_wf [OF Suc.prems(1)]
  let ?it = "iter_at fs dest k" and ?f = "fs ! k"
  note cur = iter_at_field [OF wf Suc.prems(3), of dest]
  have f: "PB_LTYPE (type ?f) \<noteq> PB_LTYPE_EXTENSION" "PB_ATYPE (type ?f) = PB_ATYPE_STATIC"
    using plain_field [OF Suc.prems(1,3)] by simp_all
  have rp: "release_pointer env ?it = id"
    using f(2) by (auto simp: release_pointer_def cur PB_ATYPE_STATIC_def PB_ATYPE_POINTER_def fun_eq_iff Let_def)
  have sub: "keeps {} (\<lambda>m. map_option snd (array_loop c (\<lambda>p. always (release_fields (pb_release_single_field n' env) (fields_at env (ptr ?f)) p)) a st m))"
    if "PB_LTYPE (type ?f) = PB_LTYPE_SUBMESSAGE" for c a st
  proof (rule keeps_array_loop, rule release_fields_keeps)
    note pl = plainD(2) [OF Suc.prems(1,3) that]
    show "fields_wf (fields_at env (ptr ?f))" using pl plain_wf by blast
    show "keeps {} (pb_release_single_field n' env (iter_at (fields_at env (ptr ?f)) p i))" if "i < num_fields (fields_at env (ptr ?f))" for p i
      using Suc.IH [OF _ n(2) that] pl by blast
  qed
  show ?case
    unfolding keeps_def n
  proof
    fix m
    show "\<exists>m'. pb_release_single_field (Suc n') env ?it m = Some m' \<and> same_outside {} m m'"
      using f(1) sub [unfolded keeps_def] unfolding pb_release_single_field.simps cur Let_def rp
      by (auto simp: option.map_id)
  qed
qed simp

end
