(* ===== verification/Pb_Decode_Within.thy ===== *)
theory Pb_Decode_Within
  imports Pb_Decode_Safe
begin

text \<open>
  The loop over the fields of a message, on untrusted input: it returns and stays inside the structure,
  and so do \<open>pb_decode\<close> and its variants, for message types of static members.
\<close>

section \<open>Where the iterator can be\<close>

text \<open>
  The iterator is on a field of the message, as a walk from the beginning computes it, except that for
  an array of fixed size it may point to the local count at \<open>l\<close>.
\<close>

definition walks :: "pb_field list \<Rightarrow> int \<Rightarrow> int \<Rightarrow> pb_field_iter \<Rightarrow> bool" where
  "walks fs dest l it \<longleftrightarrow>
     (\<exists>k < num_fields fs. it = iter_at fs dest k \<or>
        it = (iter_at fs dest k)\<lparr>pSize := l\<rparr> \<and> PB_HTYPE (type (fs ! k)) = PB_HTYPE_REPEATED)"

lemma walks_at: "k < num_fields fs \<Longrightarrow> walks fs dest l (iter_at fs dest k)"
  by (auto simp: walks_def)

lemma walksE:
  assumes "walks fs dest l it" "fields_wf fs"
  obtains k where "k < num_fields fs" "pos it = k" "cur_field it = fs ! k" "start it = fs"
    "it = iter_at fs dest k \<or> it = (iter_at fs dest k)\<lparr>pSize := l\<rparr> \<and> PB_HTYPE (type (fs ! k)) = PB_HTYPE_REPEATED"
  using assms iter_at_static [OF assms(2)] unfolding walks_def cur_field_def by fastforce

lemma iter_next_walks:
  assumes "fields_wf fs" "k < num_fields fs" "PB_HTYPE (type (fs ! k)) = PB_HTYPE_REPEATED"
  shows "pb_field_iter_next ((iter_at fs dest k)\<lparr>pSize := l\<rparr>) = pb_field_iter_next (iter_at fs dest k)"
  using iter_at_static [OF assms(1,2), of dest] fields_wf_tag [OF assms(1), of k] assms(2,3)
  by (simp add: pb_field_iter_next_def cur_field_def Let_def htype_distinct2 del: iter_at.simps)

lemma find_at:
  assumes "fields_wf fs" "k < num_fields fs"
  shows "\<exists>r i. pb_field_iter_find (iter_at fs dest k) t = Some (r, iter_at fs dest i) \<and> i < num_fields fs \<and> (r \<longrightarrow> wanted fs t i)"
proof (cases "List.find (wanted fs t) (visit_order (num_fields fs) k 0)")
  case None
  then show ?thesis using assms(2) by (auto simp: pb_field_iter_find_law [OF assms] simp del: iter_at.simps)
next
  case (Some i)
  then have "wanted fs t i" "i \<in> set (visit_order (num_fields fs) k 0)" by (auto simp: find_Some_iff)
  then show ?thesis using Some set_visit_order [OF assms(2)] by (auto simp: pb_field_iter_find_law [OF assms] simp del: iter_at.simps)
qed

lemma find_walks:
  assumes "fields_wf fs" "walks fs dest l it"
  shows "\<exists>r it'. pb_field_iter_find it t = Some (r, it') \<and> walks fs dest l it'"
proof -
  from assms obtain k where k: "k < num_fields fs" "pos it = k" "cur_field it = fs ! k" "start it = fs" and
    it: "it = iter_at fs dest k \<or> it = (iter_at fs dest k)\<lparr>pSize := l\<rparr> \<and> PB_HTYPE (type (fs ! k)) = PB_HTYPE_REPEATED"
    by (auto elim: walksE)
  note st = iter_at_static [OF assms(1) k(1), of dest]
  obtain r i where find: "pb_field_iter_find (iter_at fs dest k) t = Some (r, iter_at fs dest i)" "i < num_fields fs"
    using find_at [OF assms(1) k(1)] by blast
  show ?thesis
  proof (cases "it = iter_at fs dest k")
    case True
    then show ?thesis using find walks_at by auto
  next
    case False
    then have nx: "pb_field_iter_next it = pb_field_iter_next (iter_at fs dest k)" using it iter_next_walks [OF assms(1) k(1)] by auto
    obtain n where n: "length fs = Suc n" using assms(1) by (cases fs) (auto simp: fields_wf_def)
    have u: "pb_field_iter_find x t = (if wanted fs t k then Some (True, x)
        else let iter = snd (pb_field_iter_next (iter_at fs dest k)) in
          if pos iter \<noteq> k then iter_find_loop n k iter t else Some (False, iter))"
      if "x = it \<or> x = iter_at fs dest k" for x
      using that k st nx n by (auto simp: pb_field_iter_find_def wanted_def cur_field_def simp del: iter_at.simps)
    show ?thesis
    proof (cases "wanted fs t k")
      case True
      then show ?thesis using u [of it] assms(2) by auto
    next
      case False
      then have "pb_field_iter_find it t = pb_field_iter_find (iter_at fs dest k) t" using u by simp
      then show ?thesis using find walks_at by auto
    qed
  qed
qed

lemma find_extension_none:
  assumes "fields_wf fs" "s < num_fields fs" "\<And>k. k < num_fields fs \<Longrightarrow> PB_LTYPE (type (fs ! k)) \<noteq> PB_LTYPE_EXTENSION"
  shows "k < num_fields fs \<Longrightarrow> find_extension_loop fuel s (iter_at fs dest k) = iter_find_loop fuel s (iter_at fs dest k) 0"
proof (induction fuel arbitrary: k)
  case (Suc fuel)
  note st = iter_at_static [OF assms(1) Suc.prems, of dest]
  have "tag (fs ! k) \<noteq> 0" using fields_wf_tag [OF assms(1), of k] Suc.prems by simp
  moreover have "(k + 1) mod num_fields fs < num_fields fs" using Suc.prems by simp
  ultimately show ?case
    using Suc.IH assms(3) [OF Suc.prems] st iter_next_at [OF assms(1) Suc.prems, of dest]
    by (simp add: cur_field_def Let_def del: iter_at.simps)
qed simp

lemma find_extension_walks:
  assumes "fields_wf fs" "walks fs dest l it" "\<And>k. k < num_fields fs \<Longrightarrow> PB_LTYPE (type (fs ! k)) \<noteq> PB_LTYPE_EXTENSION"
  shows "\<exists>it'. find_extension_field it = Some (False, it') \<and> walks fs dest l it'"
proof -
  from assms(1,2) obtain k where k: "k < num_fields fs" "pos it = k" "cur_field it = fs ! k" "start it = fs" and
    it: "it = iter_at fs dest k \<or> it = (iter_at fs dest k)\<lparr>pSize := l\<rparr> \<and> PB_HTYPE (type (fs ! k)) = PB_HTYPE_REPEATED"
    by (auto elim: walksE)
  note st = iter_at_static [OF assms(1) k(1), of dest]
  obtain n where n: "length fs = Suc n" using assms(1) by (cases fs) (auto simp: fields_wf_def)
  have "pb_field_iter_next it = pb_field_iter_next (iter_at fs dest k)" using it iter_next_walks [OF assms(1) k(1)] by auto
  then have "find_extension_field it = find_extension_field (iter_at fs dest k)"
    using k st n assms(3) [OF k(1)] by (simp add: find_extension_field_def cur_field_def del: iter_at.simps)
  also have "\<dots> = pb_field_iter_find (iter_at fs dest k) 0"
    using find_extension_none [OF assms(1) k(1) assms(3) k(1)] st by (simp add: find_extension_field_def pb_field_iter_find_def)
  finally have e: "find_extension_field it = pb_field_iter_find (iter_at fs dest k) 0" .
  obtain r i where "pb_field_iter_find (iter_at fs dest k) 0 = Some (r, iter_at fs dest i)" "i < num_fields fs" "r \<longrightarrow> wanted fs 0 i"
    using find_at [OF assms(1) k(1)] by blast
  moreover have "\<not> wanted fs 0 i" using fields_wf_tag [OF assms(1), of i] \<open>i < num_fields fs\<close> by (simp add: wanted_def)
  ultimately show ?thesis using e walks_at by auto
qed

section \<open>One field\<close>

lemma release_union_field_walks:
  assumes "plain (Suc depth) env sz fs" "depth < n" "k < num_fields fs"
  shows "\<exists>ok i s'. pb_release_union_field n env (iter_at fs dest k) (m, s) = Some (ok, iter_at fs dest i, m, s') \<and>
     i < num_fields fs \<and> shrinks s s'"
proof -
  note wf = plain_wf [OF assms(1)]
  let ?old = "of_nat (load_size m (pSize (iter_at fs dest k)))" and ?new = "tag (cur_field (iter_at fs dest k))"
  obtain r i where f1: "pb_field_iter_find (iter_at fs dest k) ?old = Some (r, iter_at fs dest i)" "i < num_fields fs"
    using find_at [OF wf assms(3)] by blast
  obtain q j where f2: "pb_field_iter_find (iter_at fs dest i) ?new = Some (q, iter_at fs dest j)" "j < num_fields fs"
    using find_at [OF wf f1(2)] by blast
  have rel: "pb_release_single_field n env (iter_at fs dest i) m = Some m"
    using release_keeps [OF assms(1) Suc_leI [OF assms(2)] f1(2), of dest] by (auto simp: keeps_def same_outside_def fun_eq_iff[symmetric])
  have "PB_ATYPE (type (cur_field (iter_at fs dest j))) \<noteq> PB_ATYPE_POINTER"
    using plain_field(2) [OF assms(1) f2(2)] by (simp add: iter_at_field [OF wf f2(2)] PB_ATYPE_STATIC_def PB_ATYPE_POINTER_def)
  then show ?thesis
    using f1 f2 rel assms(3)
    by (cases r; cases q) (auto simp: pb_release_union_field_def Let_def simp del: iter_at.simps)
qed

lemma walks_member_in:
  assumes "plain (Suc depth) env sz fs" "walks fs dest l it" "{dest..<dest + int sz} \<subseteq> R" "{l..<l + 4} \<subseteq> R"
  shows "member_in R (cur_field it) (pData it) (pSize it)"
proof -
  from walksE [OF assms(2) plain_wf [OF assms(1)]] obtain k where k: "k < num_fields fs" "cur_field it = fs ! k" and
    it: "it = iter_at fs dest k \<or> it = (iter_at fs dest k)\<lparr>pSize := l\<rparr> \<and> PB_HTYPE (type (fs ! k)) = PB_HTYPE_REPEATED"
    by metis
  note m = plain_member_in [OF assms(1) k(1) assms(3)]
  show ?thesis using it m member_in_count [OF m _ assms(4)] k(2) by auto
qed

definition submessages_in :: "int set \<Rightarrow> 's pb_denv \<Rightarrow> defaults \<Rightarrow> 's msg_decoder \<Rightarrow> 's msg_decoder \<Rightarrow> pb_field list \<Rightarrow> bool" where
  "submessages_in R env defs dec dec_noinit fs \<longleftrightarrow> (\<forall>k < num_fields fs. submessage_in R env defs dec dec_noinit (fs ! k))"

lemma walks_static:
  assumes "plain (Suc depth) env sz fs" "walks fs dest l it" "{dest..<dest + int sz} \<subseteq> R" "{l..<l + 4} \<subseteq> R"
    and "submessages_in R env defs dec dec_noinit fs"
  shows "stays False R (decode_static_field env defs dec dec_noinit wt it)"
proof (rule decode_static_field_stays [OF walks_member_in [OF assms(1-4)]])
  show "submessage_in R env defs dec dec_noinit (cur_field it)"
    by (rule walksE [OF assms(2) plain_wf [OF assms(1)]]) (use assms(5) in \<open>simp add: submessages_in_def\<close>)
qed

lemma decode_field_walks:
  assumes "plain (Suc depth) env sz fs" "depth < n" "walks fs dest l it" "{dest..<dest + int sz} \<subseteq> R" "{l..<l + 4} \<subseteq> R"
    and "submessages_in R env defs dec dec_noinit fs" "istream_wf s"
  shows "\<exists>ok it' m' s'. decode_field n env defs dec dec_noinit wt it (m, s) = Some (ok, it', m', s') \<and>
     walks fs dest l it' \<and> same_outside R m m' \<and> shrinks s s'"
proof -
  let ?r = "if PB_HTYPE (type (cur_field it)) = PB_HTYPE_ONEOF then pb_release_union_field n env it (m, s) else Some (True, it, m, s)"
  obtain ok it1 s1 where r: "?r = Some (ok, it1, m, s1)" "walks fs dest l it1" "shrinks s s1"
  proof (cases "PB_HTYPE (type (cur_field it)) = PB_HTYPE_ONEOF")
    case True
    from walksE [OF assms(3) plain_wf [OF assms(1)]] obtain k where k: "k < num_fields fs" "it = iter_at fs dest k"
      using True htype_distinct2 by metis
    then show ?thesis using that True release_union_field_walks [OF assms(1,2) k(1), of dest m s] walks_at by fastforce
  qed (use that assms(3) in auto)
  have "PB_ATYPE (type (cur_field it1)) = PB_ATYPE_STATIC"
    using walks_member_in [OF assms(1) r(2) assms(4,5)] by (simp add: member_in_def)
  moreover obtain ok' m' s' where "decode_static_field env defs dec dec_noinit wt it1 (m, s1) = Some (ok', m', s')"
    "same_outside R m m'" "shrinks s1 s'"
    using walks_static [OF assms(1) r(2) assms(4-6)] shrinks_wf [OF r(3) assms(7)] by (blast elim: staysE)
  ultimately show ?thesis
    using r shrinks_trans [OF r(3)] unfolding decode_field_def by (cases ok) (auto simp: Let_def)
qed

section \<open>The loop over the fields\<close>

type_synonym 's noinit_step = "noinit_vars \<times> 's dstate \<Rightarrow> (bool \<times> noinit_vars \<times> 's dstate) option"

definition step_stays :: "int set \<Rightarrow> pb_field list \<Rightarrow> int \<Rightarrow> int \<Rightarrow> 's noinit_step \<Rightarrow> bool" where
  "step_stays R fs dest l f \<longleftrightarrow>
     (\<forall>v m s. walks fs dest l (d_iter v) \<longrightarrow> istream_wf s \<longrightarrow>
        (\<exists>ok v' m' s'. f (v, m, s) = Some (ok, v', m', s') \<and> walks fs dest l (d_iter v') \<and> same_outside R m m' \<and> shrinks s s'))"

definition field_stays :: "int set \<Rightarrow> pb_field list \<Rightarrow> int \<Rightarrow> int \<Rightarrow> 's field_decoder \<Rightarrow> bool" where
  "field_stays R fs dest l df \<longleftrightarrow>
     (\<forall>wt it m s. walks fs dest l it \<longrightarrow> istream_wf s \<longrightarrow>
        (\<exists>ok it' m' s'. df wt it (m, s) = Some (ok, it', m', s') \<and> walks fs dest l it' \<and> same_outside R m m' \<and> shrinks s s'))"

lemma skip_unknown_stays: "step_stays R fs dest l (skip_unknown wt)"
  unfolding step_stays_def skip_unknown_def by (auto split: prod.splits dest: pb_skip_field_shrinks)

lemma unknown_field_stays:
  assumes "fields_wf fs" "\<And>k. k < num_fields fs \<Longrightarrow> PB_LTYPE (type (fs ! k)) \<noteq> PB_LTYPE_EXTENSION" "t < - 1"
  shows "step_stays R fs dest l (unknown_field ext t wt)"
  unfolding step_stays_def
proof (intro allI impI)
  fix v :: noinit_vars and m and s :: "'a pb_istream"
  assume w: "walks fs dest l (d_iter v)" and wf: "istream_wf s"
  note skip = skip_unknown_stays [unfolded step_stays_def, rule_format, OF _ wf]
  obtain it where it: "find_extension_field (d_iter v) = Some (False, it)" "walks fs dest l it"
    using find_extension_walks [OF assms(1) w assms(2)] by blast
  show "\<exists>ok v' m' s'. unknown_field ext t wt (v, m, s) = Some (ok, v', m', s') \<and> walks fs dest l (d_iter v') \<and>
      same_outside R m m' \<and> shrinks s s'"
    using skip [of fs dest l v wt m R] skip [of fs dest l "v\<lparr>d_iter := it, extension_range_start := - 1\<rparr>" wt m R] it w assms(3)
    by (auto simp: unknown_field_def Let_def not_le [symmetric])
qed

lemma see_required_iter [simp]: "d_iter (see_required v) = d_iter v"
  by (simp add: see_required_def Let_def)

lemma known_field_stays:
  assumes "fields_wf fs" "field_stays R fs dest l df" "{l..<l + 4} \<subseteq> R"
  shows "step_stays R fs dest l (known_field l df wt)"
  unfolding step_stays_def
proof (intro allI impI)
  fix v :: noinit_vars and m and s :: "'a pb_istream"
  assume w: "walks fs dest l (d_iter v)" and wf: "istream_wf s"
  let ?it = "d_iter v"
  let ?fixed = "PB_HTYPE (type (cur_field ?it)) = PB_HTYPE_REPEATED \<and> pSize ?it = pData ?it"
  let ?new = "?fixed \<and> fixed_count_field v \<noteq> Some (pos ?it)"
  let ?m = "if ?new then store_size m l 0 else m"
  let ?v = "if ?new then v\<lparr>fixed_count_field := Some (pos ?it)\<rparr> else v"
  let ?v = "see_required (if ?fixed then ?v\<lparr>d_iter := ?it\<lparr>pSize := l\<rparr>\<rparr> else ?v)"
  show "\<exists>ok v' m' s'. known_field l df wt (v, m, s) = Some (ok, v', m', s') \<and> walks fs dest l (d_iter v') \<and>
      same_outside R m m' \<and> shrinks s s'"
  proof (cases "?new \<and> \<not> fixed_count_ok l v m")
    case True
    then have "known_field l df wt (v, m, s) = Some (False, v, m, pb_set_ierror s ''wrong size for fixed count field'')"
      by (simp add: known_field_def Let_def)
    then show ?thesis using w by auto
  next
    case False
    have so: "same_outside R m ?m" using same_outside_size [OF assms(3)] by auto
    have "walks fs dest l (?it\<lparr>pSize := l\<rparr>)" if h: "PB_HTYPE (type (cur_field ?it)) = PB_HTYPE_REPEATED"
    proof (rule walksE [OF w assms(1)])
      fix k assume "k < num_fields fs" "cur_field ?it = fs ! k" and
        it: "?it = iter_at fs dest k \<or> ?it = (iter_at fs dest k)\<lparr>pSize := l\<rparr> \<and> PB_HTYPE (type (fs ! k)) = PB_HTYPE_REPEATED"
      moreover have "?it\<lparr>pSize := l\<rparr> = (iter_at fs dest k)\<lparr>pSize := l\<rparr>" using it by auto
      ultimately show ?thesis using h unfolding walks_def by metis
    qed
    then have "walks fs dest l (d_iter ?v)" using w by auto
    with assms(2) wf obtain ok it' m' s' where "df wt (d_iter ?v) (?m, s) = Some (ok, it', m', s')"
      "walks fs dest l it'" "same_outside R ?m m'" "shrinks s s'"
      unfolding field_stays_def by blast
    moreover have "known_field l df wt (v, m, s) =
        map_option (\<lambda>(r, iter, st). (r, ?v\<lparr>d_iter := iter\<rparr>, st)) (df wt (d_iter ?v) (?m, s))"
      using False by (simp only: known_field_def Let_def prod.case if_False)
    ultimately show ?thesis using same_outside_trans [OF so] by auto
  qed
qed

lemma noinit_step_stays:
  assumes "plain (Suc depth) env sz fs" "field_stays R fs dest l df" "{l..<l + 4} \<subseteq> R" "t < - 1"
  shows "step_stays R fs dest l (noinit_step l df ext t wt)"
proof -
  note wf = plain_wf [OF assms(1)]
  have no: "PB_LTYPE (type (fs ! k)) \<noteq> PB_LTYPE_EXTENSION" if "k < num_fields fs" for k
    by (rule plain_field(1) [OF assms(1) that])
  note known = known_field_stays [OF wf assms(2,3), of wt] and unknown = unknown_field_stays [OF wf no assms(4), of R dest l ext wt]
  show ?thesis
    unfolding step_stays_def
  proof (intro allI impI)
    fix v :: noinit_vars and m and s :: "'b pb_istream"
    assume w: "walks fs dest l (d_iter v)" and "istream_wf s"
    obtain r it where f: "pb_field_iter_find (d_iter v) t = Some (r, it)" "walks fs dest l it"
      using find_walks [OF wf w] by blast
    then have "walks fs dest l (d_iter (v\<lparr>d_iter := it\<rparr>))" by simp
    with f known unknown \<open>istream_wf s\<close>
    show "\<exists>ok v' m' s'. noinit_step l df ext t wt (v, m, s) = Some (ok, v', m', s') \<and> walks fs dest l (d_iter v') \<and>
        same_outside R m m' \<and> shrinks s s'"
      unfolding step_stays_def noinit_step_def by (cases r) auto
  qed
qed

lemma decode_tag_small: "pb_decode_tag stream = ((Some (wt, t), eof), s) \<Longrightarrow> t < - 1"
proof -
  have "drop_bit 3 x < (- 1 :: u32)" for x
  proof -
    have "unat (drop_bit 3 x) \<le> unat x div 8" by (simp add: unat_drop_bit)
    moreover have "unat (- 1 :: u32) = 2 ^ 32 - 1" by (simp add: unsigned_minus_1_eq_mask mask_eq_exp_minus_1)
    ultimately show ?thesis using unsigned_less [of x, where ?'a = nat] by (simp add: word_less_nat_alt)
  qed
  then show "pb_decode_tag stream = ((Some (wt, t), eof), s) \<Longrightarrow> t < - 1"
    by (auto simp: pb_decode_tag_def split: prod.splits option.splits if_splits)
qed

lemma noinit_loop_stays:
  assumes "\<And>t wt. t < - 1 \<Longrightarrow> step_stays R fs dest l (step t wt)"
  shows "walks fs dest l (d_iter v) \<Longrightarrow> istream_wf s \<Longrightarrow> bytes_left s < k \<Longrightarrow>
    \<exists>ok v' m' s'. noinit_loop k step (v, m, s) = Some (ok, v', m', s') \<and> walks fs dest l (d_iter v') \<and> same_outside R m m' \<and> shrinks s s'"
proof (induction k arbitrary: v m s)
  case (Suc k)
  obtain r eof s1 where tag: "pb_decode_tag s = ((r, eof), s1)" by (metis surj_pair)
  note sh = conjunct1 [OF pb_decode_tag_shrinks [OF tag]] and less = conjunct2 [OF pb_decode_tag_shrinks [OF tag]]
  have wf1: "istream_wf s1" using sh Suc.prems(2) by (rule shrinks_wf)
  show ?case
  proof (cases "bytes_left s = 0 \<or> r = None")
    case True
    then show ?thesis using Suc.prems(1) tag sh by auto
  next
    case False
    then obtain wt t where r: "r = Some (wt, t)" by auto
    have st: "step_stays R fs dest l (step t wt)" by (rule assms) (use decode_tag_small tag r in blast)
    then obtain ok v1 m1 s2 where step: "step t wt (v, m, s1) = Some (ok, v1, m1, s2)" "walks fs dest l (d_iter v1)"
      "same_outside R m m1" "shrinks s1 s2"
      using Suc.prems(1) wf1 unfolding step_stays_def by blast
    have u: "noinit_loop (Suc k) step (v, m, s) = then_enc (step t wt) (noinit_loop k step) (v, m, s1)"
      using False tag r by simp
    note sh2 = shrinks_trans [OF sh step(4)]
    show ?thesis
    proof (cases ok)
      case True
      have "bytes_left s2 < k" using less r shrinks_left [OF step(4)] Suc.prems(3) by simp
      then obtain ok' v2 m2 s3 where "noinit_loop k step (v1, m1, s2) = Some (ok', v2, m2, s3)" "walks fs dest l (d_iter v2)"
        "same_outside R m1 m2" "shrinks s2 s3"
        using Suc.IH [OF step(2) shrinks_wf [OF step(4) wf1]] by blast
      then show ?thesis unfolding u using step True same_outside_trans [OF step(3)] shrinks_trans [OF sh2] by (auto simp: then_enc_def)
    next
      case False
      then show ?thesis unfolding u using step sh2 by (auto simp: then_enc_def)
    qed
  qed
qed simp

lemma last_field_loop_returns:
  assumes "fields_wf fs"
  shows "k < num_fields fs \<Longrightarrow> num_fields fs \<le> k + fuel \<Longrightarrow> \<exists>r. last_field_loop fuel (iter_at fs dest k) = Some r"
proof (induction fuel arbitrary: k)
  case (Suc fuel)
  note nx = iter_next_at [OF assms Suc.prems(1), of dest]
  show ?case
  proof (cases "k + 1 < num_fields fs")
    case True
    then show ?thesis using nx Suc.IH [of "Suc k"] Suc.prems(2) by (simp del: iter_at.simps)
  qed (simp add: nx del: iter_at.simps)
qed simp

lemma last_field_walks:
  assumes "fields_wf fs" "walks fs dest l it"
  shows "\<exists>r. last_field_loop (length fs) it = Some r"
proof -
  from assms obtain k where k: "k < num_fields fs" and
    it: "it = iter_at fs dest k \<or> it = (iter_at fs dest k)\<lparr>pSize := l\<rparr> \<and> PB_HTYPE (type (fs ! k)) = PB_HTYPE_REPEATED"
    by (auto elim: walksE)
  obtain n where n: "length fs = Suc n" using assms(1) by (cases fs) (auto simp: fields_wf_def)
  have "num_fields fs \<le> length fs" by (simp add: num_fields_def)
  then obtain r where r: "last_field_loop (length fs) (iter_at fs dest k) = Some r"
    using last_field_loop_returns [OF assms(1) k(1), of "length fs" dest] by auto
  obtain b nx where nx: "pb_field_iter_next (iter_at fs dest k) = (b, nx)" by force
  then have "pb_field_iter_next it = (b, nx)" using it iter_next_walks [OF assms(1) k(1), where dest = dest] by auto
  then show ?thesis using r nx n by (cases b; cases r) auto
qed

lemma final_checks_stays:
  assumes "fields_wf fs" "walks fs dest l (d_iter v)"
  shows "\<exists>ok s'. final_checks l v (m, s) = Some (ok, m, s') \<and> shrinks s s'"
proof -
  have "start (d_iter v) = fs" by (rule walksE [OF assms(2,1)])
  then obtain r where "last_field_loop (length (start (d_iter v))) (d_iter v) = Some r" using last_field_walks [OF assms] by auto
  then show ?thesis by (cases r) (auto simp: final_checks_def dec_error_def Let_def)
qed

section \<open>Messages\<close>

text \<open>The structure, and the local variables whose address is taken.\<close>

definition footprint :: "'s pb_denv \<Rightarrow> nat \<Rightarrow> int \<Rightarrow> nat \<Rightarrow> int set" where
  "footprint env n dest sz = {dest..<dest + int sz} \<union> (\<Union>i<n. {local_size env i..<local_size env i + 4})"

lemma noinit_message_stays:
  fixes env :: "'s pb_denv"
  assumes "plain (Suc depth) env sz fs" "depth < n" "{dest..<dest + int sz} \<subseteq> R" "{l..<l + 4} \<subseteq> R"
    and "submessages_in R env defs dec dec_noinit fs"
  shows "stays False R (noinit_message l (decode_field n env defs dec dec_noinit) ext fs dest)"
proof (rule staysI)
  fix m and s :: "'s pb_istream"
  assume wf: "istream_wf s"
  note fwf = plain_wf [OF assms(1)]
  let ?df = "decode_field n env defs dec dec_noinit" and ?m = "store_size m l 0"
  let ?v = "\<lparr>d_iter = snd (pb_field_iter_begin fs dest), fields_seen = [0, 0], extension_range_start = 0, fixed_count_field = None\<rparr>"
  have df: "field_stays R fs dest l ?df"
    unfolding field_stays_def by (intro allI impI) (rule decode_field_walks [OF assms(1,2) _ assms(3-5)])
  have "0 < num_fields fs" using fwf by (auto simp: fields_wf_def num_fields_def)
  then have w: "walks fs dest l (d_iter ?v)" using walks_at [of 0 fs dest l] by (simp add: iter_begin_wf [OF fwf] del: iter_at.simps)
  have so: "same_outside R m ?m" by (rule same_outside_size [OF assms(4)])
  have "step_stays R fs dest l (noinit_step l ?df ext t wt)" if "t < - 1" for t wt
    by (rule noinit_step_stays [OF assms(1) df assms(4) that])
  note loop = noinit_loop_stays [where step = "noinit_step l ?df ext", OF this w wf lessI]
  obtain ok v' m' s' where l: "noinit_loop (Suc (bytes_left s)) (noinit_step l ?df ext) (?v, ?m, s) = Some (ok, v', m', s')"
    "walks fs dest l (d_iter v')" "same_outside R ?m m'" "shrinks s s'"
    using loop by blast
  obtain ok' s'' where f: "final_checks l v' (m', s') = Some (ok', m', s'')" "shrinks s' s''"
    using final_checks_stays [OF fwf l(2)] by blast
  show "\<exists>ok m' s'. noinit_message l ?df ext fs dest (m, s) = Some (ok, m', s') \<and> same_outside R m m' \<and> shrinks s s' \<and>
      (False \<longrightarrow> ok \<longrightarrow> bytes_left s' < bytes_left s)"
    using l f same_outside_trans [OF so l(3)] shrinks_trans [OF l(4)]
    by (cases ok) (auto simp: noinit_message_def Let_def simp del: noinit_loop.simps)
qed

lemma decode_with_stays:
  assumes "plain depth env sz fs" "depth \<le> n" "{dest..<dest + int sz} \<subseteq> R" "stays False R (dec_noinit fs dest)"
  shows "stays False R (decode_with n env dec_noinit fs dest)"
proof (rule staysI)
  fix m and s :: "'a pb_istream"
  assume wf: "istream_wf s"
  obtain m1 where d: "pb_message_set_to_defaults n env fs dest m = Some m1" "same_outside R m m1"
    using defaults_keep [OF assms(1-3)] by (rule keepsE)
  obtain ok m2 s' where dec: "dec_noinit fs dest (m1, s) = Some (ok, m2, s')" "same_outside R m1 m2" "shrinks s s'"
    using assms(4) wf unfolding stays_def by blast
  have "keeps {} (pb_release n env fs dest)"
    unfolding pb_release_def by (rule release_fields_keeps [OF plain_wf [OF assms(1)]]) (rule release_keeps [OF assms(1,2)])
  then have "pb_release n env fs dest m2 = Some m2" by (auto simp: keeps_def same_outside_def fun_eq_iff [symmetric])
  then show "\<exists>ok m' s'. decode_with n env dec_noinit fs dest (m, s) = Some (ok, m', s') \<and> same_outside R m m' \<and> shrinks s s' \<and>
      (False \<longrightarrow> ok \<longrightarrow> bytes_left s' < bytes_left s)"
    using d dec same_outside_trans [OF d(2)] by (cases ok) (auto simp: decode_with_def)
qed

lemma pb_decode_noinit_stays:
  "plain depth env sz fs \<Longrightarrow> depth < n \<Longrightarrow> footprint env n dest sz \<subseteq> R \<Longrightarrow> stays False R (pb_decode_noinit n env fs dest)"
proof (induction depth arbitrary: n sz fs dest)
  case (Suc depth)
  then obtain n' where n: "n = Suc n'" "depth < n'" by (cases n) auto
  have "{local_size env i..<local_size env i + 4} \<subseteq> R" if "i < Suc n'" for i
    using Suc.prems(3) that unfolding footprint_def n by blast
  moreover have "{dest..<dest + int sz} \<subseteq> R" using Suc.prems(3) by (simp add: footprint_def)
  ultimately have R: "{dest..<dest + int sz} \<subseteq> R" "{local_size env n'..<local_size env n' + 4} \<subseteq> R"
    "\<And>i. i < n' \<Longrightarrow> {local_size env i..<local_size env i + 4} \<subseteq> R"
    by simp_all
  have "submessages_in R env (pb_message_set_to_defaults n' env) (decode_with n' env (pb_decode_noinit n' env)) (pb_decode_noinit n' env) fs"
    unfolding submessages_in_def submessage_in_def
  proof (intro allI impI conjI)
    fix k assume k: "k < num_fields fs" and sub: "PB_LTYPE (type (fs ! k)) = PB_LTYPE_SUBMESSAGE"
    note pl = plainD(2) [OF Suc.prems(1) k sub]
    show "ptr (fs ! k) \<noteq> Null" using pl by simp
    fix a assume a: "{a..<a + int (data_size (fs ! k))} \<subseteq> R"
    have "footprint env n' a (data_size (fs ! k)) \<subseteq> R" using a R(3) by (auto simp: footprint_def)
    then show noinit: "stays False R (pb_decode_noinit n' env (fields_at env (ptr (fs ! k))) a)"
      using Suc.IH [OF _ n(2)] pl by blast
    show "stays False R (decode_with n' env (pb_decode_noinit n' env) (fields_at env (ptr (fs ! k))) a)"
      using decode_with_stays [where dec_noinit = "pb_decode_noinit n' env", OF _ _ a noinit] pl n(2) less_imp_le by blast
    show "keeps R (pb_message_set_to_defaults n' env (fields_at env (ptr (fs ! k))) a)"
      using defaults_keep [OF _ _ a] pl n(2) less_imp_le by blast
  qed
  then show ?case
    using noinit_message_stays [OF Suc.prems(1) n(2) R(1,2)] by (simp add: n Let_def)
qed simp

lemma pb_decode_stays:
  assumes "plain depth env sz fs" "depth < n" "footprint env n dest sz \<subseteq> R"
  shows "stays False R (pb_decode n env fs dest)"
proof -
  have "{dest..<dest + int sz} \<subseteq> R" using assms(3) by (simp add: footprint_def)
  then show ?thesis
    using decode_with_stays [where dec_noinit = "pb_decode_noinit n env", OF assms(1) _ _ pb_decode_noinit_stays [OF assms]] assms(2) by (simp add: pb_decode_def)
qed

section \<open>Properties\<close>

text \<open>
  C4. Decoding an untrusted stream into a structure whose members are all static and inside it returns,
  whatever the bytes are: the recursion and the loops end, nothing is read behind the end of the stream,
  and nothing is written outside the structure and the local counters, also when the decoding fails.
  This holds for all entry points, with and without default values, and for length-delimited messages.
\<close>

theorem pb_decode_within:
  assumes "decode \<in> {pb_decode, pb_decode_noinit, pb_decode_delimited, pb_decode_delimited_noinit, pb_decode_nullterminated}"
    and "plain depth env sz fs" "depth < n" "istream_wf stream"
  shows "\<exists>ok m' s'. decode n env fs dest (m, stream) = Some (ok, m', s') \<and>
     istream_wf s' \<and> bytes_left s' \<le> bytes_left stream \<and> same_outside (footprint env n dest sz) m m'"
proof -
  note noinit = pb_decode_noinit_stays [OF assms(2,3) subset_refl, of dest] and init = pb_decode_stays [OF assms(2,3) subset_refl, of dest]
  have "\<exists>p. stays p (footprint env n dest sz) (decode n env fs dest)"
    using assms(1) noinit init stays_in_substream [OF noinit] stays_in_substream [OF init]
    by (auto simp: pb_decode_nullterminated_def pb_decode_delimited_def pb_decode_delimited_noinit_def)
  then show ?thesis using assms(4) shrinks_left by (fastforce elim: staysE)
qed

text \<open>A message with a number, a nested message with a string, and an array with its count.\<close>

definition inner_ex :: "pb_field list" where
  "inner_ex = [Pb_Field 1 0x07 0 0 4 0 Null, PB_LAST_FIELD]"

definition outer_ex :: "pb_field list" where
  "outer_ex = [Pb_Field 1 0x01 0 0 4 0 Null, Pb_Field 2 0x18 1 (-1) 4 0 512, Pb_Field 3 0x22 8 (-4) 4 2 Null, PB_LAST_FIELD]"

definition denv_ex :: "unit pb_denv" where
  "denv_ex = \<lparr>fields_at = (\<lambda>a. if a = 512 then inner_ex else []), c_realloc = (\<lambda>m p n. (Null, m)), c_free = (\<lambda>m p. m),
     field_decoders = (\<lambda>f field arg st. (True, st)), extension_decoders = (\<lambda>f ext t wt st. (True, st)),
     local_size = (\<lambda>i. 8192 + 16 * int i)\<rparr>"

lemma plain_ex: "plain 2 denv_ex 28 outer_ex"
  by code_simp

theorem pb_decode_within_witness:
  "\<exists>ok m' s'. pb_decode 3 denv_ex outer_ex 4096
      (\<lambda>a. 9, pb_istream_from_buffer [8, 5, 18, 6, 10, 4, 0x61, 0x62, 0x63, 0x64, 26, 5, 1, 2, 3] 15) = Some (ok, m', s') \<and>
     bytes_left s' \<le> 15 \<and> m' 4095 = 9 \<and> m' 4124 = 9"
proof -
  let ?s = "pb_istream_from_buffer [8, 5, 18, 6, 10, 4, 0x61, 0x62, 0x63, 0x64, 26, 5, 1, 2, 3] 15 :: unit pb_istream"
  have "istream_wf ?s" "bytes_left ?s = 15" by (simp_all add: istream_wf_def pb_istream_from_buffer_def)
  with pb_decode_within [OF _ plain_ex, of pb_decode 3 ?s 4096 "\<lambda>a. 9"] obtain ok m' s' where
    "pb_decode 3 denv_ex outer_ex 4096 (\<lambda>a. 9, ?s) = Some (ok, m', s')" "bytes_left s' \<le> 15"
    "same_outside (footprint denv_ex 3 4096 28) (\<lambda>a. 9) m'" by auto
  moreover have "4095 \<notin> footprint denv_ex 3 4096 28" "4124 \<notin> footprint denv_ex 3 4096 28"
    by (auto simp: footprint_def denv_ex_def)
  ultimately show ?thesis by (auto simp: same_outside_def)
qed

text \<open>
  An array of fixed size has no count in the structure: its size offset is zero, and \<open>pSize\<close> is where its items
  begin.
\<close>

definition fixed_array :: "pb_field \<Rightarrow> bool" where
  "fixed_array f \<longleftrightarrow> PB_ATYPE (type f) = PB_ATYPE_STATIC \<and> PB_HTYPE (type f) = PB_HTYPE_REPEATED \<and>
     PB_LTYPE (type f) \<noteq> PB_LTYPE_EXTENSION \<and> size_offset f = 0"

lemma all_enc_snoc: "all_enc (fs @ [f]) = then_enc (all_enc fs) f"
  by (induction fs) (auto simp: fun_eq_iff then_enc_def split: option.split bool.split)

lemma all_always: "all_enc (map always gs) m = Some (ok, m') \<Longrightarrow> ok"
proof (induction gs arbitrary: m)
  case (Cons g gs)
  then show ?case by (cases "g m") (auto simp: then_enc_def always_def)
qed simp

lemma set_defaults_last:
  assumes "fields_wf fs" "num_fields fs = Suc k" "set_defaults g fs dest m = Some m'"
  obtains m0 where "g (iter_at fs dest k) m0 = Some m'"
proof -
  have "num_fields fs \<le> length fs" by (simp add: num_fields_def)
  then have "iter_loop (length fs) (\<lambda>iter. always (g iter)) (iter_at fs dest 0) =
      then_enc (all_enc (map always (map (\<lambda>k. g (iter_at fs dest k)) [0..<k]))) (always (g (iter_at fs dest k)))"
    using iter_loop_law [OF assms(1), of 0 "length fs" "\<lambda>iter. always (g iter)" dest] assms(2)
    by (simp add: all_enc_snoc comp_def del: iter_at.simps)
  then obtain ok where
    "then_enc (all_enc (map always (map (\<lambda>k. g (iter_at fs dest k)) [0..<k]))) (always (g (iter_at fs dest k))) m = Some (ok, m')"
    using assms(3) iter_begin_wf [OF assms(1), of dest] by (auto simp: set_defaults_def simp del: iter_at.simps)
  then show thesis
    using that all_always [of "map (\<lambda>k. g (iter_at fs dest k)) [0..<k]" m]
    by (cases "all_enc (map always (map (\<lambda>k. g (iter_at fs dest k)) [0..<k])) m")
      (auto simp: then_enc_def always_def simp del: iter_at.simps split: bool.splits)
qed

lemma fixed_array_pSize:
  assumes "fields_wf fs" "k < num_fields fs" "fixed_array (fs ! k)"
  shows "pSize (iter_at fs dest k) = pData (iter_at fs dest k)"
proof (cases k)
  case 0
  then show ?thesis using assms(3) by (simp add: iter_at.simps pb_field_iter_begin_def Let_def fixed_array_def)
next
  case (Suc j)
  have j: "j < num_fields fs" using Suc assms(2) by simp
  have "tag (fs ! j) \<noteq> 0" "tag (fs ! Suc j) \<noteq> 0"
    using fields_wf_tag [OF assms(1), of j] fields_wf_tag [OF assms(1), of "Suc j"] j assms(2) Suc by simp_all
  then show ?thesis
    using iter_at_static [OF assms(1) j, of dest] assms(3)
    by (simp add: Suc pb_field_iter_next_def cur_field_def Let_def iter_at.simps(2) fixed_array_def htype_distinct2)
qed

lemma fixed_array_default:
  assumes "fields_wf fs" "num_fields fs = Suc k" "fixed_array (fs ! k)" "pb_message_set_to_defaults n env fs dest m = Some m'"
  obtains m0 where "m' = store_size m0 (pData (iter_at fs dest k)) 0"
proof -
  obtain m0 where "pb_field_set_to_default n env (iter_at fs dest k) m0 = Some m'"
    using set_defaults_last [OF assms(1,2) assms(4) [unfolded pb_message_set_to_defaults_def]] by blast
  then show thesis
    using that assms(3) iter_at_field [OF assms(1), of k dest] fixed_array_pSize [OF assms(1) _ assms(3), of dest] assms(2)
    by (cases n) (auto simp: fixed_array_def Let_def simp del: iter_at.simps)
qed

lemma store_size_zero: "store_size m a 0 x = (if a \<le> x \<and> x < a + 4 then 0 else m x)"
proof -
  have "le_bytes 4 0 = [0, 0, 0, 0]" by code_simp
  then show ?thesis by (auto simp: store_size_def mem_store_def nth_Cons split: nat.split)
qed

lemma final_checks_memory: "final_checks l v (m, s) = Some (ok, m', s') \<Longrightarrow> m' = m"
  by (auto simp: final_checks_def dec_error_def Let_def split: option.splits if_splits)

text \<open>The end of the input is reached at once: only the local count is initialised.\<close>

lemma noinit_at_end:
  assumes "bytes_left s = 0" "pb_decode_noinit (Suc n) env fs dest (m, s) = Some (ok, m', s')"
  shows "m' = store_size m (local_size env n) 0"
  using assms final_checks_memory by (auto simp: noinit_message_def Let_def)

text \<open>
  C40. Default values overwrite what follows a short array of fixed size. Such an array has no count in
  the structure, but \<open>pb_field_set_to_default\<close> stores a zero count of four bytes at its place. So, for every
  message type whose last field is an array of fixed size, decoding at the end of the input clears the
  four bytes from the beginning of the array on, whatever was there and however short the array is:
  behind an array of less than four bytes, the last member of its structure, it writes to what follows.
  (\<open>sz\<close> counts these four bytes: this is what the structure would have to hold.)
\<close>

theorem pb_decode_small_array_overflow:
  assumes "plain depth env sz fs" "depth < n" "num_fields fs = Suc k" "fixed_array (fs ! k)"
    and "istream_wf stream" "bytes_left stream = 0"
  shows "\<exists>ok m' s'. pb_decode n env fs dest (m, stream) = Some (ok, m', s') \<and>
     (\<forall>j. 0 \<le> j \<and> j < 4 \<longrightarrow> m' (pData (iter_at fs dest k) + j) = 0)"
proof -
  obtain d where d: "depth = Suc d" using assms(1) by (cases depth) auto
  note wf = plain_wf [OF assms(1) [unfolded d]]
  obtain n' where n: "n = Suc n'" using assms(2) by (cases n) auto
  obtain m1 where m1: "pb_message_set_to_defaults n env fs dest m = Some m1"
    using defaults_keep [OF assms(1) less_imp_le [OF assms(2)] subset_refl] by (rule keepsE)
  obtain m0 where m0: "m1 = store_size m0 (pData (iter_at fs dest k)) 0" by (rule fixed_array_default [OF wf assms(3,4) m1])
  obtain ok m2 s2 where dec: "pb_decode_noinit n env fs dest (m1, stream) = Some (ok, m2, s2)"
    using pb_decode_noinit_stays [OF assms(1,2) subset_refl] assms(5) by (blast elim: staysE)
  have m2: "m2 = store_size m1 (local_size env n') 0" using noinit_at_end [OF assms(6)] dec by (simp only: n)
  have "keeps {} (pb_release n env fs dest)"
    unfolding pb_release_def by (rule release_fields_keeps [OF wf]) (rule release_keeps [OF assms(1) less_imp_le [OF assms(2)]])
  then have "pb_release n env fs dest m2 = Some m2" by (auto simp: keeps_def same_outside_def fun_eq_iff [symmetric])
  then have "pb_decode n env fs dest (m, stream) = Some (ok, m2, s2)"
    using m1 dec by (cases ok) (simp_all add: pb_decode_def decode_with_def)
  then show ?thesis by (auto simp: m2 m0 store_size_zero simp del: iter_at.simps)
qed

text \<open>A structure of one \<^verbatim>\<open>bool[2]\<close>: the two bytes behind it are cleared.\<close>

definition small_array_ex :: "pb_field list" where
  "small_array_ex = [Pb_Field 1 0x20 0 0 1 2 Null, PB_LAST_FIELD]"

theorem pb_decode_small_array_overflow_witness:
  "\<exists>ok m' s'. pb_decode 2 denv_ex small_array_ex 4096 (\<lambda>a. 9, pb_istream_from_buffer [] 0) = Some (ok, m', s') \<and>
     m' (4096 + 2) = 0 \<and> m' (4096 + 3) = 0"
proof -
  let ?s = "pb_istream_from_buffer [] 0 :: unit pb_istream"
  have "plain 1 denv_ex 4 small_array_ex" "num_fields small_array_ex = Suc 0" "fixed_array (small_array_ex ! 0)"
    "pData (iter_at small_array_ex 4096 0) = 4096"
    by code_simp+
  moreover have "istream_wf ?s" "bytes_left ?s = 0" by (simp_all add: istream_wf_def pb_istream_from_buffer_def)
  ultimately obtain ok m' s' where d: "pb_decode 2 denv_ex small_array_ex 4096 (\<lambda>a. 9, ?s) = Some (ok, m', s')"
    and z: "\<forall>j. 0 \<le> j \<and> j < 4 \<longrightarrow> m' (4096 + j) = 0"
    using pb_decode_small_array_overflow [of 1 denv_ex 4 small_array_ex 2 0 ?s 4096 "\<lambda>a. 9"] by (metis one_less_numeral_iff semiring_norm(76))
  have "m' (4096 + 2) = 0" "m' (4096 + 3) = 0" by (rule z [rule_format]; simp)+
  then show ?thesis using d by blast
qed

text \<open>
  For a message type without fields the search compares the tag with the terminator of the descriptor
  array: a field with the tag 0, whatever its wire type, is taken for a required boolean and stored.
\<close>

lemma empty_message_stores_bool:
  "case pb_decode 2 denv_ex [PB_LAST_FIELD] 4096 (\<lambda>a. 9, pb_istream_from_buffer [1, 1] 2) of
     Some (ok, m', s') \<Rightarrow> ok \<and> m' 4096 = 1 \<and> bytes_left s' = 0
   | None \<Rightarrow> False"
  by code_simp

end
