(* ===== verification/Pb_Wire.thy ===== *)
theory Pb_Wire
  imports Pb_Message Pb_Decode
begin

text \<open>
  From a message in memory to its fields on the wire and back: the tags and values that a message
  stands for, and that the decoding functions of \<^verbatim>\<open>pb_decode.c\<close> find them in what \<open>pb_encode\<close> writes.
\<close>

section \<open>The values of a message\<close>

text \<open>A submessage is the string of its bytes, and so is a packed array.\<close>

definition value_at :: "'s pb_env \<Rightarrow> submessage_out \<Rightarrow> pb_field \<Rightarrow> int \<Rightarrow> pb_value" where
  "value_at env sub field src =
     (let m = memory env; ltype = PB_LTYPE (type field); sz = data_size field
      in if ltype = PB_LTYPE_BOOL then Varint (if load_bool m src then 1 else 0)
         else if ltype = PB_LTYPE_VARINT then Varint (the (read_signed sz (load m src sz)))
         else if ltype = PB_LTYPE_UVARINT then Varint (the (read_unsigned sz (load m src sz)))
         else if ltype = PB_LTYPE_SVARINT then Svarint (the (read_signed sz (load m src sz)))
         else if ltype = PB_LTYPE_FIXED32 then Fixed32 (load m src 4)
         else if ltype = PB_LTYPE_FIXED64 then Fixed64 (load m src 8)
         else if ltype = PB_LTYPE_BYTES then String (if src = Null then [] else load m (src + 4) (load_size m src))
         else if ltype = PB_LTYPE_STRING then
           String (if src = Null then [] else load_string m src (if PB_ATYPE (type field) = PB_ATYPE_POINTER then 2 ^ 64 - 1 else sz))
         else if ltype = PB_LTYPE_SUBMESSAGE then String (fst (the (sub (descriptors env (ptr field)) src)))
         else String (load m src sz))"

definition array_values :: "'s pb_env \<Rightarrow> submessage_out \<Rightarrow> pb_field \<Rightarrow> int \<Rightarrow> nat \<Rightarrow> (u32 \<times> pb_value) list" where
  "array_values env sub field data count =
     (let items = map (\<lambda>i. data + int (i * data_size field)) [0..<count]; pointer = (PB_ATYPE (type field) = PB_ATYPE_POINTER);
          ltype = PB_LTYPE (type field)
      in if count = 0 then []
         else if ltype \<le> PB_LTYPE_LAST_PACKABLE then
           [(tag field, String (concat (map (\<lambda>p. payload_bytes (value_at env sub field p)) items)))]
         else map (\<lambda>p. (tag field, value_at env sub field
             (if pointer \<and> ltype \<in> {PB_LTYPE_STRING, PB_LTYPE_BYTES} then load_ptr (memory env) p else p))) items)"

definition basic_values :: "nat \<Rightarrow> 's pb_env \<Rightarrow> submessage_out \<Rightarrow> pb_field \<Rightarrow> int \<Rightarrow> (u32 \<times> pb_value) list" where
  "basic_values fuel env sub field data =
     (let m = memory env; htype = PB_HTYPE (type field); pSize = data + size_offset field;
          pointer = (PB_ATYPE (type field) = PB_ATYPE_POINTER); src = (if pointer then load_ptr m data else data);
          present = (if htype = PB_HTYPE_REQUIRED then True
                     else if htype = PB_HTYPE_OPTIONAL then
                       (if size_offset field \<noteq> 0 then load_bool m pSize
                        else if pointer then src \<noteq> Null
                        else pb_check_proto3_default_value fuel env field data = Some False)
                     else load_size m pSize = unat (tag field))
      in if htype = PB_HTYPE_REPEATED then
           array_values env sub field src (if size_offset field \<noteq> 0 then load_size m pSize else array_size field)
         else if present then [(tag field, value_at env sub field src)] else [])"

text \<open>What the functions of the user write is given as values, too.\<close>

record user_values =
  field_values :: "int \<Rightarrow> pb_field \<Rightarrow> int \<Rightarrow> (u32 \<times> pb_value) list"
  extension_values :: "int \<Rightarrow> int \<Rightarrow> (u32 \<times> pb_value) list"

definition any_values :: "nat \<Rightarrow> 's pb_env \<Rightarrow> user_values \<Rightarrow> submessage_out \<Rightarrow> pb_field \<Rightarrow> int \<Rightarrow> (u32 \<times> pb_value) list" where
  "any_values fuel env uv sub field data =
     (if PB_ATYPE (type field) \<in> {PB_ATYPE_STATIC, PB_ATYPE_POINTER} then basic_values fuel env sub field data
      else if load_ptr (memory env) data = Null then []
      else field_values uv (load_ptr (memory env) data) field (data + 8))"

primrec extensions_values :: "nat \<Rightarrow> nat \<Rightarrow> 's pb_env \<Rightarrow> user_values \<Rightarrow> submessage_out \<Rightarrow> int \<Rightarrow> (u32 \<times> pb_value) list" where
  "extensions_values 0 fuel env uv sub ext = []"
| "extensions_values (Suc n) fuel env uv sub ext =
     (let m = memory env; t = extension_type m ext; field = descriptors env (type_arg m t) ! 0
      in if ext = Null then []
         else (if type_encode m t \<noteq> Null then extension_values uv (type_encode m t) ext
               else any_values fuel env uv sub field (if PB_ATYPE (type field) = PB_ATYPE_POINTER then ext + 8 else extension_dest m ext)) @
              extensions_values n fuel env uv sub (extension_next m ext))"

primrec message_values :: "nat \<Rightarrow> 's pb_env \<Rightarrow> user_encoders \<Rightarrow> user_values \<Rightarrow> pb_field list \<Rightarrow> int \<Rightarrow> (u32 \<times> pb_value) list" where
  "message_values 0 env user uv fs src = []"
| "message_values (Suc fuel) env user uv fs src =
     (if tag (fs ! 0) = 0 then []
      else concat (map (\<lambda>k. let data = pData (iter_at fs src k) in
        if PB_LTYPE (type (fs ! k)) = PB_LTYPE_EXTENSION
        then extensions_values (Suc fuel) fuel env uv (message_out fuel env user) (load_ptr (memory env) data)
        else any_values fuel env uv (message_out fuel env user) (fs ! k) data) [0..<num_fields fs]))"

section \<open>The bytes are those of the values\<close>

definition payload_ok :: "pb_value \<Rightarrow> bool" where
  "payload_ok v \<longleftrightarrow> value_ok v \<and> (case v of String x \<Rightarrow> length x < 2 ^ 32 | _ \<Rightarrow> True)"

definition parses :: "bytes \<Rightarrow> (u32 \<times> pb_value) list \<Rightarrow> bool" where
  "parses bs vs \<longleftrightarrow> bs = wire_bytes vs \<and> (length bs < 2 ^ 32 \<longrightarrow> list_all (\<lambda>(t, v). payload_ok v) vs)"

lemma wire_bytes_append: "wire_bytes (vs @ ws) = wire_bytes vs @ wire_bytes ws"
  by (simp add: wire_bytes_def)

lemma parses_Nil [simp]: "parses bs [] \<longleftrightarrow> bs = []"
  by (simp add: parses_def wire_bytes_def)

lemma parses_append: "parses bs vs \<Longrightarrow> parses cs ws \<Longrightarrow> parses (bs @ cs) (vs @ ws)"
  by (auto simp: parses_def wire_bytes_append)

lemma then_spec_ok:
  "then_spec r1 r2 = Some (bs, None) \<longleftrightarrow> (\<exists>b1 b2. r1 = Some (b1, None) \<and> r2 = Some (b2, None) \<and> bs = b1 @ b2)"
  by (auto simp: then_spec_def then_out_def split: option.splits)

lemma parses_all:
  assumes "all_spec (map f xs) = Some (bs, None)"
    and "\<And>x b. x \<in> set xs \<Longrightarrow> f x = Some (b, None) \<Longrightarrow> parses b (g x)"
  shows "parses bs (concat (map g xs))"
  using assms
proof (induction xs arbitrary: bs)
  case (Cons x xs)
  from Cons.prems(1) obtain b1 b2 where b: "f x = Some (b1, None)" "all_spec (map f xs) = Some (b2, None)" "bs = b1 @ b2"
    by (auto simp: then_spec_ok)
  then show ?case using parses_append [OF Cons.prems(2) [OF _ b(1)] Cons.IH [OF b(2)]] Cons.prems(2) by simp
qed simp

lemma value_out_ltypes:
  assumes "value_out env sub field src = Some r"
  shows "PB_LTYPE (type field) \<in> {PB_LTYPE_BOOL, PB_LTYPE_VARINT, PB_LTYPE_UVARINT, PB_LTYPE_SVARINT, PB_LTYPE_FIXED32,
      PB_LTYPE_FIXED64, PB_LTYPE_BYTES, PB_LTYPE_STRING, PB_LTYPE_SUBMESSAGE, PB_LTYPE_FIXED_LENGTH_BYTES}"
  using assms unfolding value_out_def Let_def insert_iff by (simp split: if_split_asm)

lemma value_at_law:
  assumes "value_out env sub field src = Some (bs, None)"
  shows "bs = payload_bytes (value_at env sub field src) \<and>
     wire_type_of (PB_LTYPE (type field)) = Some (wire_of (value_at env sub field src)) \<and>
     (length bs < 2 ^ 32 \<longrightarrow> payload_ok (value_at env sub field src))"
  using value_out_ltypes [OF assms] unfolding insert_iff empty_iff
  by (elim disjE; (use assms in \<open>auto simp: Let_def bind_eq_Some_conv value_out_def value_at_def wire_type_of_def ltype_defs int_out_def string_out_def
        bytes_out_def sized_out_def payload_ok_def fail_out_def split: option.splits if_splits\<close>)?)

lemma tagged_parses:
  assumes "tagged_out env sub field src = Some (bs, None)"
  shows "parses bs [(tag field, value_at env sub field src)]"
proof -
  obtain b1 b2 where b: "field_tag_out field = (b1, None)" "value_out env sub field src = Some (b2, None)" "bs = b1 @ b2"
    using assms by (auto simp: tagged_out_def then_spec_ok)
  from value_at_law [OF b(2)] b(1) have "b1 = tag_bytes (tag field) (value_at env sub field src)"
    by (simp add: field_tag_out_def tag_out_def tag_bytes_def)
  then show ?thesis using value_at_law [OF b(2)] b(3) by (simp add: parses_def wire_bytes_def)
qed

lemma all_spec_payloads:
  assumes "all_spec (map (value_out env sub field) xs) = Some (bs, None)"
  shows "bs = concat (map (\<lambda>p. payload_bytes (value_at env sub field p)) xs)"
  using assms
proof (induction xs arbitrary: bs)
  case (Cons x xs)
  then show ?case using value_at_law by (fastforce simp: then_spec_ok)
qed simp

lemma array_parses:
  assumes "array_out env sub field data count = Some (bs, None)"
  shows "parses bs (array_values env sub field data count)"
proof -
  let ?items = "map (\<lambda>i. data + int (i * data_size field)) [0..<count]"
  let ?deref = "\<lambda>p. if PB_ATYPE (type field) = PB_ATYPE_POINTER \<and> PB_LTYPE (type field) \<in> {PB_LTYPE_STRING, PB_LTYPE_BYTES}
      then load_ptr (memory env) p else p"
  show ?thesis
  proof (cases "count = 0 \<or> (PB_ATYPE (type field) \<noteq> PB_ATYPE_POINTER \<and> count > array_size field)")
    case True
    then show ?thesis using assms by (auto simp: array_out_def array_values_def fail_out_def Let_def)
  next
    case c: False
    show ?thesis
    proof (cases "PB_LTYPE (type field) \<le> PB_LTYPE_LAST_PACKABLE")
      case True
      then have "then_spec (Some (tag_out PB_WT_STRING (tag field))) (Option.bind (all_spec (map (value_out env sub field) ?items)) packed_out) = Some (bs, None)"
        using assms c by (auto simp: array_out_def Let_def)
      then obtain b2 r where b: "all_spec (map (value_out env sub field) ?items) = Some r" "packed_out r = Some (b2, None)"
        "bs = varint (unat (tag field) * 8 + 2) @ b2"
        by (auto simp: then_spec_ok tag_out_def bind_eq_Some_conv)
      obtain b3 where b3: "r = (b3, None)" "b2 = varint (length b3) @ b3"
        using b(2) by (cases r) (auto simp: packed_out_def sized_out_def string_out_def split: if_splits)
      note p = all_spec_payloads [OF b(1) [unfolded b3(1)]]
      have "array_values env sub field data count = [(tag field, String b3)]"
        using True c p by (auto simp: array_values_def Let_def)
      then show ?thesis using b(3) b3(2) by (simp add: parses_def wire_bytes_def tag_bytes_def payload_ok_def)
    next
      case False
      then have "all_spec (map (\<lambda>p. tagged_out env sub field (?deref p)) ?items) = Some (bs, None)"
        using assms c by (auto simp: array_out_def Let_def)
      then have "parses bs (concat (map (\<lambda>p. [(tag field, value_at env sub field (?deref p))]) ?items))"
        by (rule parses_all) (rule tagged_parses)
      then show ?thesis using False c by (auto simp: array_values_def Let_def comp_def concat_map_singleton)
    qed
  qed
qed


lemma basic_parses:
  assumes "basic_out fuel env sub field data = Some (bs, None)"
  shows "parses bs (basic_values fuel env sub field data)"
proof -
  let ?h = "PB_HTYPE (type field)"
  consider "?h = PB_HTYPE_REQUIRED" | "?h = PB_HTYPE_OPTIONAL" | "?h = PB_HTYPE_REPEATED" | "?h = PB_HTYPE_ONEOF"
    using htype_cases [of "type field"] by blast
  then show ?thesis
    by cases (use assms in \<open>auto simp: basic_out_def basic_values_def Let_def htype_distinct2 fail_out_def
      intro: tagged_parses array_parses split: if_splits\<close>)
qed

definition user_parses :: "user_encoders \<Rightarrow> user_values \<Rightarrow> bool" where
  "user_parses user uv \<longleftrightarrow>
     (\<forall>f field arg bs. field_out user f field arg = (bs, None) \<longrightarrow> parses bs (field_values uv f field arg)) \<and>
     (\<forall>f ext bs. extension_out user f ext = (bs, None) \<longrightarrow> parses bs (extension_values uv f ext))"

lemma any_parses:
  assumes "user_parses user uv" "any_field_out fuel env user sub field data = Some (bs, None)"
  shows "parses bs (any_values fuel env uv sub field data)"
proof (cases "PB_ATYPE (type field) \<in> {PB_ATYPE_STATIC, PB_ATYPE_POINTER}")
  case True
  then show ?thesis using assms(2) basic_parses by (simp add: any_field_out_def any_values_def)
next
  case False
  then have "callback_out env user field data = (bs, None)" using assms(2) by (auto simp: any_field_out_def fail_out_def split: if_splits)
  moreover obtain b er where "field_out user (load_ptr (memory env) data) field (data + 8) = (b, er)" by force
  ultimately show ?thesis
    using False assms(1) by (auto simp: callback_out_def any_values_def user_parses_def Let_def split: if_splits option.splits)
qed

lemma extensions_parses:
  assumes "user_parses user uv"
  shows "extensions_out n fuel env user sub ext = Some (bs, None) \<Longrightarrow> parses bs (extensions_values n fuel env uv sub ext)"
proof (induction n arbitrary: ext bs)
  case (Suc n)
  let ?m = "memory env" and ?t = "extension_type (memory env) ext"
  let ?field = "descriptors env (type_arg ?m ?t) ! 0"
  show ?case
  proof (cases "ext = Null")
    case False
    then obtain b1 b2 where b: "one_extension_out fuel env user sub ext = Some (b1, None)"
      "extensions_out n fuel env user sub (extension_next ?m ext) = Some (b2, None)" "bs = b1 @ b2"
      using Suc.prems by (auto simp: then_spec_ok)
    have "parses b1 (if type_encode ?m ?t \<noteq> Null then extension_values uv (type_encode ?m ?t) ext
        else any_values fuel env uv sub ?field (if PB_ATYPE (type ?field) = PB_ATYPE_POINTER then ext + 8 else extension_dest ?m ext))"
      using b(1) assms any_parses [OF assms] by (auto simp: one_extension_out_def user_parses_def Let_def split: if_splits)
    from parses_append [OF this Suc.IH [OF b(2)]] show ?thesis using False b(3) by (simp add: Let_def)
  qed (use Suc.prems in simp)
qed simp

lemma message_parses:
  assumes "user_parses user uv" "message_out n env user fs src = Some (bs, None)"
  shows "parses bs (message_values n env user uv fs src)"
proof (cases n)
  case 0
  then show ?thesis using assms(2) by simp
next
  case (Suc m)
  show ?thesis
  proof (cases "tag (fs ! 0) = 0")
    case True
    then show ?thesis using assms(2) Suc by simp
  next
    case False
    let ?out = "\<lambda>k. let data = pData (iter_at fs src k) in
       if PB_LTYPE (type (fs ! k)) = PB_LTYPE_EXTENSION
       then extensions_out (Suc m) m env user (message_out m env user) (load_ptr (memory env) data)
       else any_field_out m env user (message_out m env user) (fs ! k) data"
    let ?vals = "\<lambda>k. let data = pData (iter_at fs src k) in
       if PB_LTYPE (type (fs ! k)) = PB_LTYPE_EXTENSION
       then extensions_values (Suc m) m env uv (message_out m env user) (load_ptr (memory env) data)
       else any_values m env uv (message_out m env user) (fs ! k) data"
    have "all_spec (map ?out [0..<num_fields fs]) = Some (bs, None)"
      using assms(2) Suc False by (simp split: if_splits del: extensions_out.simps iter_at.simps)
    then have "parses bs (concat (map ?vals [0..<num_fields fs]))"
      by (rule parses_all)
        (use extensions_parses [OF assms(1)] any_parses [OF assms(1)] in
          \<open>auto simp: Let_def simp del: extensions_out.simps extensions_values.simps iter_at.simps split: if_splits\<close>)
    then show ?thesis using False Suc by (simp add: Let_def del: extensions_values.simps iter_at.simps)
  qed
qed

section \<open>Properties\<close>

text \<open>
  C38. What \<open>pb_encode\<close> has written, the decoding functions read back as exactly the tags and values of the
  message, and a reader that skips every field visits the same tags; both end at its last byte.
\<close>

theorem pb_encode_decode_fields:
  assumes "user_ok env user" "user_parses user uv" "message_out n env user fs src = Some (bs, er)" "length bs < 2 ^ 32"
    and "vs = message_values n env user uv fs src" "list_all (\<lambda>(t, v). 0 < unat t \<and> unat t < 2 ^ 29) vs"
    and "cap \<le> length buf" "length buf < 2 ^ 63"
    and "pb_encode n env (pb_ostream_from_buffer buf cap) fs src = Some (True, s)" "out s = Buf_write mem k"
  shows "(\<exists>s'. decode_values (map (\<lambda>f. shape (snd f)) vs) (pb_istream_from_buffer (take k mem) k :: unit pb_istream) = (Some vs, s') \<and> bytes_left s' = 0) \<and>
     (\<exists>s'. skip_values (length vs) (pb_istream_from_buffer (take k mem) k :: unit pb_istream) =
        (Some (map (\<lambda>(t, v). (wire_of v, t)) vs), s') \<and> bytes_left s' = 0)"
proof -
  have len: "length bs < 2 ^ 63" using assms(4) by simp
  have w: "er = None" "take k mem = bs" "k = length bs"
    using pb_encode_buffer [OF assms(1,3) len assms(7,8)] assms(9,10) by (auto split: if_splits)
  have p: "parses bs vs" unfolding assms(5) by (rule message_parses [OF assms(2)]) (use assms(3) w(1) in simp)
  have ok: "list_all field_ok vs"
    using p assms(4,6) unfolding parses_def by (auto simp: list_all_iff field_ok_def payload_ok_def)
  have b: "bs = wire_bytes vs" using p by (simp add: parses_def)
  show ?thesis
    unfolding w(2) unfolding w(3) b
    using decode_values_law [OF ok, of None, where ?'s = unit] skip_values_law [OF ok, of None, where ?'s = unit]
    by (simp add: pb_istream_from_buffer_def buffered_def at_end_def)
qed

definition no_values :: user_values where
  "no_values = \<lparr>field_values = (\<lambda>f field arg. []), extension_values = (\<lambda>f ext. [])\<rparr>"

lemma list_values: "message_values 3 list_env no_user no_values list_fields 4096 = [(1, Varint 150), (2, String [8, 7]), (3, String [1, 172, 2])]"
proof -
  let ?out = "message_out 2 list_env no_user" and ?f = "\<lambda>k. list_fields ! k"
  let ?v = "\<lambda>k. any_values 2 list_env no_values ?out (?f k)"
  have a: "tag (?f 0) \<noteq> 0" "num_fields list_fields = 3" "PB_LTYPE (type (?f 0)) \<noteq> PB_LTYPE_EXTENSION"
    "PB_LTYPE (type (?f 1)) \<noteq> PB_LTYPE_EXTENSION" "PB_LTYPE (type (?f 2)) \<noteq> PB_LTYPE_EXTENSION"
    "pData (iter_at list_fields 4096 0) = 4096" "pData (iter_at list_fields 4096 1) = 4104" "pData (iter_at list_fields 4096 2) = 4116"
    by code_simp+
  have v: "?v 0 4096 = [(1, Varint 150)]" "?v 1 4104 = [(2, String [8, 7])]" by code_simp+
  have x: "value_at list_env ?out (?f 2) 4116 = Varint 1" "value_at list_env ?out (?f 2) 4120 = Varint 300" "load_size (memory list_env) 4112 = 2"
    by code_simp+
  have f: "?f 2 = Pb_Field 3 0x21 4 (-4) 4 2 Null" by (simp add: list_fields_def)
  have h: "PB_ATYPE 0x21 = PB_ATYPE_STATIC" "PB_ATYPE_STATIC \<noteq> PB_ATYPE_POINTER" "PB_HTYPE 0x21 = PB_HTYPE_REPEATED" "PB_LTYPE 0x21 \<le> PB_LTYPE_LAST_PACKABLE"
    by code_simp+
  have w: "?v 2 4116 = [(3, String [1, 172, 2])]"
    using x by (simp add: f h any_values_def basic_values_def array_values_def Let_def varint_rec byte_def upt_conv_Cons)
  have m: "message_values 3 list_env no_user no_values list_fields 4096 = ?v 0 4096 @ ?v 1 4104 @ ?v 2 4116"
    unfolding numeral_3_eq_3 message_values.simps(2) a(2)
    using a by (simp add: Let_def numeral_2_eq_2 [symmetric] upt_conv_Cons del: iter_at.simps)
  show ?thesis unfolding m v w by simp
qed

theorem pb_encode_decode_fields_witness:
  "\<exists>s'. decode_values [Varint 0, String [], String []] (pb_istream_from_buffer list_bytes 12 :: unit pb_istream) =
     (Some [(1, Varint 150), (2, String [8, 7]), (3, String [1, 172, 2])], s') \<and> bytes_left s' = 0"
proof -
  define buf :: bytes where "buf = replicate 14 0xA5"
  have d: "length list_bytes = 12" "length buf = 14" by (simp_all add: list_bytes_def buf_def)
  have h: "length list_bytes < 2 ^ 63" "14 \<le> length buf" "length buf < 2 ^ 63" by (simp_all add: d)
  obtain s where s: "pb_encode 3 list_env (pb_ostream_from_buffer buf 14) list_fields 4096 = Some (True, s)"
    "out s = Buf_write (list_bytes @ drop 12 buf) 12"
    using pb_encode_buffer [OF list_user_ok list_out h] unfolding d by (auto simp: d simp del: pb_encode.simps)
  have p: "user_parses no_user no_values" by (simp add: user_parses_def no_user_def)
  have "length list_bytes < 2 ^ 32" by (simp add: d)
  from pb_encode_decode_fields [OF list_user_ok p list_out this list_values [symmetric] _ h(2,3) s]
  show ?thesis by (simp add: d)
qed

end
