(* ===== verification/Pb_Contents.thy ===== *)
theory Pb_Contents
  imports Pb_Decode_Within Pb_Wire
begin

text \<open>
  The contents of a message structure in memory: which values its members hold, when two structures
  have the same contents, and that this depends only on the bytes of their members.
\<close>

section \<open>Contents of a structure\<close>

text \<open>The addresses of the values that a member holds, for the address \<open>d\<close> of the member.\<close>

definition items :: "(int \<Rightarrow> u8) \<Rightarrow> pb_field \<Rightarrow> int \<Rightarrow> int list" where
  "items m f d =
     (if PB_HTYPE (type f) = PB_HTYPE_REQUIRED then [d]
      else if PB_HTYPE (type f) = PB_HTYPE_OPTIONAL then (if load_bool m (d + size_offset f) then [d] else [])
      else map (\<lambda>i. d + int (i * data_size f)) [0..<load_size m (d + size_offset f)])"

text \<open>The values at \<open>a\<close> in the memory \<open>m1\<close> and at \<open>b\<close> in \<open>m2\<close> are the same; \<open>sub\<close> compares nested messages.\<close>

definition same_value ::
    "(int \<Rightarrow> u8) \<Rightarrow> (int \<Rightarrow> u8) \<Rightarrow> (int \<Rightarrow> int \<Rightarrow> bool) \<Rightarrow> pb_field \<Rightarrow> int \<Rightarrow> int \<Rightarrow> bool" where
  "same_value m1 m2 sub f a b =
     (let ltype = PB_LTYPE (type f)
      in if ltype = PB_LTYPE_BOOL then load_bool m1 a = load_bool m2 b
         else if ltype = PB_LTYPE_FIXED32 then load m1 a 4 = load m2 b 4
         else if ltype = PB_LTYPE_FIXED64 then load m1 a 8 = load m2 b 8
         else if ltype = PB_LTYPE_BYTES then
           load_size m1 a = load_size m2 b \<and> load_size m1 a + 4 \<le> data_size f \<and> load m1 (a + 4) (load_size m1 a) = load m2 (b + 4) (load_size m2 b)
         else if ltype = PB_LTYPE_STRING then load_string m1 a (data_size f) = load_string m2 b (data_size f)
         else if ltype = PB_LTYPE_SUBMESSAGE then sub a b
         else load m1 a (data_size f) = load m2 b (data_size f))"

definition same_member ::
    "(int \<Rightarrow> u8) \<Rightarrow> (int \<Rightarrow> u8) \<Rightarrow> (int \<Rightarrow> int \<Rightarrow> bool) \<Rightarrow> pb_field \<Rightarrow> int \<Rightarrow> int \<Rightarrow> bool" where
  "same_member m1 m2 sub f d1 d2 \<longleftrightarrow>
     list_all2 (same_value m1 m2 sub f) (items m1 f d1) (items m2 f d2) \<and>
     (PB_HTYPE (type f) = PB_HTYPE_REPEATED \<longrightarrow> length (items m1 f d1) \<le> array_size f)"

primrec same_message ::
    "nat \<Rightarrow> (int \<Rightarrow> pb_field list) \<Rightarrow> (int \<Rightarrow> u8) \<Rightarrow> (int \<Rightarrow> u8) \<Rightarrow> pb_field list \<Rightarrow> int \<Rightarrow> int \<Rightarrow> bool" where
  "same_message 0 descs m1 m2 fs src dest = False"
| "same_message (Suc n) descs m1 m2 fs src dest =
     list_all (\<lambda>k. same_member m1 m2 (same_message n descs m1 m2 (descs (ptr (fs ! k)))) (fs ! k)
       (pData (iter_at fs src k)) (pData (iter_at fs dest k))) [0..<num_fields fs]"

text \<open>
  The message types of the theorem: static required, optional and repeated members with flags and
  counts of their own, which do not overlap; tags that are different and fit into 29 bits.
\<close>

definition areas :: "pb_field \<Rightarrow> int \<Rightarrow> (int \<times> int) list" where
  "areas f d =
     (if PB_HTYPE (type f) = PB_HTYPE_REQUIRED then [(d, int (data_size f))]
      else if PB_HTYPE (type f) = PB_HTYPE_OPTIONAL then [(d, int (data_size f)), (d + size_offset f, 1)]
      else [(d, int (data_size f * array_size f)), (d + size_offset f, 4)])"

definition apart :: "int \<times> int \<Rightarrow> int \<times> int \<Rightarrow> bool" where
  "apart x y \<longleftrightarrow> fst x + snd x \<le> fst y \<or> fst y + snd y \<le> fst x"

definition regular_field :: "nat \<Rightarrow> pb_field \<Rightarrow> int \<Rightarrow> bool" where
  "regular_field sz f d \<longleftrightarrow> member_inside sz f d (d + size_offset f) \<and> PB_HTYPE (type f) \<noteq> PB_HTYPE_ONEOF \<and>
     unat (tag f) < 2 ^ 29 \<and> (PB_HTYPE (type f) \<noteq> PB_HTYPE_REQUIRED \<longrightarrow> size_offset f \<noteq> 0)"

primrec regular :: "nat \<Rightarrow> (int \<Rightarrow> pb_field list) \<Rightarrow> nat \<Rightarrow> pb_field list \<Rightarrow> bool" where
  "regular 0 descs sz fs = False"
| "regular (Suc n) descs sz fs =
     (fields_wf fs \<and> distinct (map tag fs) \<and>
      list_all (\<lambda>k. regular_field sz (fs ! k) (pData (iter_at fs 0 k)) \<and>
        (PB_LTYPE (type (fs ! k)) = PB_LTYPE_SUBMESSAGE \<longrightarrow>
           ptr (fs ! k) \<noteq> Null \<and> regular n descs (data_size (fs ! k)) (descs (ptr (fs ! k))))) [0..<num_fields fs] \<and>
      sorted_wrt apart (concat (map (\<lambda>k. areas (fs ! k) (pData (iter_at fs 0 k))) [0..<num_fields fs])))"

text \<open>Every string of the message ends within its member.\<close>

primrec strings_end :: "nat \<Rightarrow> (int \<Rightarrow> pb_field list) \<Rightarrow> (int \<Rightarrow> u8) \<Rightarrow> pb_field list \<Rightarrow> int \<Rightarrow> bool" where
  "strings_end 0 descs m fs src = False"
| "strings_end (Suc n) descs m fs src =
     list_all (\<lambda>k. let f = fs ! k in list_all (\<lambda>a.
        (PB_LTYPE (type f) = PB_LTYPE_STRING \<longrightarrow> length (load_string m a (data_size f)) < data_size f) \<and>
        (PB_LTYPE (type f) = PB_LTYPE_SUBMESSAGE \<longrightarrow> strings_end n descs m (descs (ptr f)) a))
      (items m f (pData (iter_at fs src k)))) [0..<num_fields fs]"

section \<open>The members of a regular message type\<close>

lemma regularD:
  assumes "regular (Suc n) descs sz fs" "k < num_fields fs"
  shows "regular_field sz (fs ! k) (pData (iter_at fs 0 k))"
    and "PB_LTYPE (type (fs ! k)) = PB_LTYPE_SUBMESSAGE \<Longrightarrow>
      ptr (fs ! k) \<noteq> Null \<and> regular n descs (data_size (fs ! k)) (descs (ptr (fs ! k)))"
  using assms by (simp_all add: list_all_iff del: iter_at.simps)

lemma regular_wf: "regular n descs sz fs \<Longrightarrow> fields_wf fs"
  by (cases n) (simp_all del: iter_at.simps)

declare regular.simps [simp del] iter_at.simps [simp del]

lemma regular_no_oneof:
  assumes "regular (Suc n) descs sz fs" "k < num_fields fs"
  shows "PB_HTYPE (type (fs ! k)) \<noteq> PB_HTYPE_ONEOF"
  using regularD(1) [OF assms] by (simp add: regular_field_def)

lemma iter_at_pSize:
  assumes "regular (Suc n) descs sz fs" "k < num_fields fs"
  shows "pSize (iter_at fs dest k) = pData (iter_at fs dest k) + size_offset (fs ! k)"
proof (cases k)
  case 0
  then show ?thesis by (simp add: iter_at.simps pb_field_iter_begin_def Let_def)
next
  case (Suc j)
  have j: "j < num_fields fs" using Suc assms(2) by simp
  note wf = regular_wf [OF assms(1)]
  have "tag (fs ! j) \<noteq> 0" "tag (fs ! Suc j) \<noteq> 0"
    using fields_wf_tag [OF wf, of j] fields_wf_tag [OF wf, of "Suc j"] j assms(2) Suc by simp_all
  then show ?thesis
    using iter_at_static [OF wf j, of dest] regular_no_oneof [OF assms(1) j]
    by (simp add: Suc pb_field_iter_next_def cur_field_def Let_def iter_at.simps(2))
qed

lemma required_index:
  assumes "regular (Suc n) descs sz fs"
  shows "k < num_fields fs \<Longrightarrow> required_field_index (iter_at fs dest k) =
     length (filter (\<lambda>i. PB_HTYPE (type (fs ! i)) = PB_HTYPE_REQUIRED) [0..<k])"
proof (induction k)
  case (Suc j)
  have j: "j < num_fields fs" using Suc.prems by simp
  note wf = regular_wf [OF assms(1)]
  have "tag (fs ! j) \<noteq> 0" "tag (fs ! Suc j) \<noteq> 0"
    using fields_wf_tag [OF wf, of j] fields_wf_tag [OF wf, of "Suc j"] j Suc.prems by simp_all
  then show ?case
    using iter_at_static [OF wf j, of dest] regular_no_oneof [OF assms(1) j] Suc.IH [OF j]
    by (simp add: pb_field_iter_next_def cur_field_def Let_def iter_at.simps(2))
qed (simp add: iter_at.simps pb_field_iter_begin_def Let_def)

text \<open>The address sets of a member.\<close>

definition region :: "pb_field \<Rightarrow> int \<Rightarrow> int set" where
  "region f d = (\<Union>(a, n) \<in> set (areas f d). {a..<a + n})"

lemma areas_shift: "areas f (dest + d) = map (\<lambda>(a, n). (dest + a, n)) (areas f d)"
  by (simp add: areas_def add.assoc)

lemma region_shift: "x \<in> region f (dest + d) \<longleftrightarrow> x - dest \<in> region f d"
  by (auto simp: region_def areas_def)

lemma sorted_wrt_concat_apart:
  assumes "sorted_wrt P (concat (map g xs))" "i < j" "j < length xs" "x \<in> set (g (xs ! i))" "y \<in> set (g (xs ! j))"
  shows "P x y"
  using assms
proof (induction xs arbitrary: i j)
  case (Cons z zs)
  show ?case
  proof (cases i)
    case 0
    then have "y \<in> set (concat (map g zs))" using Cons.prems by (cases j) auto
    then show ?thesis using Cons.prems 0 by (auto simp: sorted_wrt_append)
  next
    case (Suc i')
    then show ?thesis using Cons.prems Cons.IH [of i' "j - 1"] by (cases j) (auto simp: sorted_wrt_append)
  qed
qed simp

lemma regions_disjoint:
  assumes "regular (Suc n) descs sz fs" "i < num_fields fs" "j < num_fields fs" "i \<noteq> j"
  shows "region (fs ! i) (pData (iter_at fs dest i)) \<inter> region (fs ! j) (pData (iter_at fs dest j)) = {}"
proof -
  have *: "region (fs ! i) (pData (iter_at fs dest i)) \<inter> region (fs ! j) (pData (iter_at fs dest j)) = {}"
    if ij: "i < j" "j < num_fields fs" for i j
  proof -
    let ?g = "\<lambda>k. areas (fs ! k) (pData (iter_at fs 0 k))"
    have s: "sorted_wrt apart (concat (map ?g [0..<num_fields fs]))" using assms(1) by (simp add: regular.simps)
    have "apart x y" if "x \<in> set (?g i)" "y \<in> set (?g j)" for x y
      using sorted_wrt_concat_apart [OF s ij(1)] that ij by simp
    then have "x \<notin> region (fs ! j) (pData (iter_at fs 0 j))" if "x \<in> region (fs ! i) (pData (iter_at fs 0 i))" for x
      using that by (force simp: region_def apart_def)
    then show ?thesis by (auto simp: region_shift iter_at_offsets(1) [of fs dest])
  qed
  show ?thesis using * [of i j] * [of j i] assms(2-4) by (cases "i < j") auto
qed

lemma regular_areas:
  assumes "regular (Suc n) descs sz fs" "k < num_fields fs"
  shows "sorted_wrt apart (areas (fs ! k) (pData (iter_at fs dest k)))"
proof -
  have "sorted_wrt P (g (xs ! i))" if "sorted_wrt P (concat (map g xs))" "i < length xs" for P :: "int \<times> int \<Rightarrow> int \<times> int \<Rightarrow> bool" and g xs i
    using that by (induction xs arbitrary: i) (auto simp: sorted_wrt_append nth_Cons split: nat.split)
  from this [of apart "\<lambda>k. areas (fs ! k) (pData (iter_at fs 0 k))" "[0..<num_fields fs]" k]
  have "sorted_wrt apart (areas (fs ! k) (pData (iter_at fs 0 k)))" using assms by (simp add: regular.simps)
  then show ?thesis
    by (simp add: iter_at_offsets(1) [of fs dest] areas_shift sorted_wrt_map apart_def [abs_def] case_prod_beta)
qed

lemma region_inside:
  assumes "regular (Suc n) descs sz fs" "k < num_fields fs"
  shows "region (fs ! k) (pData (iter_at fs dest k)) \<subseteq> {dest..<dest + int sz}"
proof
  fix x assume "x \<in> region (fs ! k) (pData (iter_at fs dest k))"
  then have "x - dest \<in> region (fs ! k) (pData (iter_at fs 0 k))" by (simp add: region_shift iter_at_offsets(1) [of fs dest])
  moreover have "PB_HTYPE (type (fs ! k)) = PB_HTYPE_REQUIRED \<or> PB_HTYPE (type (fs ! k)) = PB_HTYPE_OPTIONAL \<or> PB_HTYPE (type (fs ! k)) = PB_HTYPE_REPEATED"
    using htype_cases [of "type (fs ! k)"] regular_no_oneof [OF assms] by blast
  ultimately show "x \<in> {dest..<dest + int sz}"
    using regularD(1) [OF assms]
    by (elim disjE) (auto simp: region_def areas_def regular_field_def member_inside_def htype_distinct2)
qed

section \<open>What the contents depend on\<close>

definition agree :: "int set \<Rightarrow> (int \<Rightarrow> u8) \<Rightarrow> (int \<Rightarrow> u8) \<Rightarrow> bool" where
  "agree A m m' \<longleftrightarrow> (\<forall>x \<in> A. m' x = m x)"

lemma agree_subset: "agree A m m' \<Longrightarrow> B \<subseteq> A \<Longrightarrow> agree B m m'"
  by (auto simp: agree_def)

lemma same_outside_agree: "same_outside B m m' \<Longrightarrow> A \<inter> B = {} \<Longrightarrow> agree A m m'"
  by (auto simp: agree_def same_outside_def)

lemma load_agree: "agree {a..<a + int n} m m' \<Longrightarrow> load m' a n = load m a n"
  by (auto simp: agree_def load_def)

lemma load_bool_agree: "agree {a..<a + 1} m m' \<Longrightarrow> load_bool m' a = load_bool m a"
  using load_agree [of a 1] by (simp add: load_bool_def)

lemma load_size_agree: "agree {a..<a + 4} m m' \<Longrightarrow> load_size m' a = load_size m a"
  using load_agree [of a 4] by (simp add: load_size_def)

lemma load_string_agree: "agree {a..<a + int n} m m' \<Longrightarrow> load_string m' a n = load_string m a n"
proof (induction n arbitrary: a)
  case (Suc n)
  have "agree {a + 1..<a + 1 + int n} m m'" by (rule agree_subset [OF Suc.prems]) auto
  moreover have "m' a = m a" using Suc.prems by (simp add: agree_def)
  ultimately show ?case using Suc.IH by (simp add: load_string.simps [of m a] load_string.simps [of m' a])
qed (simp add: load_string.simps)

lemma items_agree:
  assumes "agree (region f d) m m'" "PB_HTYPE (type f) \<noteq> PB_HTYPE_ONEOF"
  shows "items m' f d = items m f d"
proof -
  let ?z = "d + size_offset f"
  consider "PB_HTYPE (type f) = PB_HTYPE_REQUIRED" | "PB_HTYPE (type f) = PB_HTYPE_OPTIONAL" | "PB_HTYPE (type f) = PB_HTYPE_REPEATED"
    using htype_cases [of "type f"] assms(2) by blast
  then show ?thesis
  proof cases
    case 2
    have "agree {?z..<?z + 1} m m'" by (rule agree_subset [OF assms(1)]) (use 2 in \<open>auto simp: region_def areas_def htype_distinct2\<close>)
    then show ?thesis using 2 by (simp add: items_def htype_distinct2 load_bool_agree)
  next
    case 3
    have "agree {?z..<?z + 4} m m'" by (rule agree_subset [OF assms(1)]) (use 3 in \<open>auto simp: region_def areas_def htype_distinct2\<close>)
    then show ?thesis using 3 by (simp add: items_def htype_distinct2 load_size_agree)
  qed (simp add: items_def)
qed

lemma items_inside:
  assumes "a \<in> set (items m f d)" "PB_HTYPE (type f) \<noteq> PB_HTYPE_ONEOF"
    and "PB_HTYPE (type f) = PB_HTYPE_REPEATED \<Longrightarrow> length (items m f d) \<le> array_size f"
  shows "{a..<a + int (data_size f)} \<subseteq> region f d"
proof -
  consider "PB_HTYPE (type f) = PB_HTYPE_REQUIRED" | "PB_HTYPE (type f) = PB_HTYPE_OPTIONAL" | "PB_HTYPE (type f) = PB_HTYPE_REPEATED"
    using htype_cases [of "type f"] assms(2) by blast
  then show ?thesis
  proof cases
    case 3
    then have "a \<in> (\<lambda>i. d + int (i * data_size f)) ` {0..<load_size m (d + size_offset f)}"
      using assms(1) by (simp add: items_def htype_distinct2 del: of_nat_mult)
    then obtain i where i: "a = d + int (i * data_size f)" "i < load_size m (d + size_offset f)"
      unfolding image_iff Bex_def atLeastLessThan_iff by blast
    then have "Suc i \<le> array_size f" using assms(3) [OF 3] 3 by (simp add: items_def htype_distinct2)
    then have "Suc i * data_size f \<le> array_size f * data_size f" by (rule mult_le_mono1)
    then have "int (i * data_size f) + int (data_size f) \<le> int (data_size f * array_size f)" by (simp add: algebra_simps flip: of_nat_add of_nat_mult)
    moreover have "0 \<le> int (i * data_size f)" by simp
    ultimately show ?thesis using 3 i(1) by (auto simp: region_def areas_def htype_distinct2 simp del: of_nat_mult)
  qed (use assms(1) in \<open>auto simp: items_def region_def areas_def htype_distinct2 split: if_splits\<close>)
qed

lemma same_value_agree:
  assumes "same_value m1 m2 sub f a b" "agree {b..<b + int (data_size f)} m2 m2'" "value_fits f"
    and "PB_LTYPE (type f) = PB_LTYPE_SUBMESSAGE \<Longrightarrow> sub a b \<Longrightarrow> sub' a b"
  shows "same_value m1 m2' sub' f a b"
proof -
  have l: "load m2' b n = load m2 b n" if "n \<le> data_size f" for n
    by (rule load_agree, rule agree_subset [OF assms(2)]) (use that in auto)
  have z: "load_size m2' b = load_size m2 b" if "4 \<le> data_size f" using l [OF that] by (simp add: load_size_def)
  have w: "load m2' (b + 4) n = load m2 (b + 4) n" if "n + 4 \<le> data_size f" for n
    by (rule load_agree, rule agree_subset [OF assms(2)]) (use that in auto)
  have b: "load_bool m2' b = load_bool m2 b" if "1 \<le> data_size f" using l [OF that] by (simp add: load_bool_def)
  show ?thesis
    using assms(1,3,4) l z w b load_string_agree [OF assms(2)]
    by (auto simp: same_value_def value_fits_def Let_def split: if_splits)
qed

lemma same_member_agree:
  assumes "same_member m1 m2 sub f a b" "agree (region f b) m2 m2'" "value_fits f" "PB_HTYPE (type f) \<noteq> PB_HTYPE_ONEOF"
    and "\<And>p q. PB_LTYPE (type f) = PB_LTYPE_SUBMESSAGE \<Longrightarrow> agree {q..<q + int (data_size f)} m2 m2' \<Longrightarrow> sub p q \<Longrightarrow> sub' p q"
  shows "same_member m1 m2' sub' f a b"
proof -
  have len: "length (items m2 f b) = length (items m1 f a)" using assms(1) by (auto simp: same_member_def dest: list_all2_lengthD)
  have "same_value m1 m2' sub' f p q" if "same_value m1 m2 sub f p q" "q \<in> set (items m2 f b)" for p q
  proof -
    have ag: "agree {q..<q + int (data_size f)} m2 m2'"
      by (rule agree_subset [OF assms(2) items_inside [OF that(2) assms(4)]]) (use assms(1) len in \<open>auto simp: same_member_def\<close>)
    show ?thesis by (rule same_value_agree [OF that(1) ag assms(3)]) (rule assms(5) [OF _ ag])
  qed
  then have "list_all2 (same_value m1 m2' sub' f) (items m1 f a) (items m2 f b)"
    using assms(1) unfolding same_member_def by (elim conjE) (rule list.rel_mono_strong)
  then show ?thesis using assms(1) items_agree [OF assms(2,4)] by (simp add: same_member_def)
qed

lemma regular_fits: "regular (Suc n) descs sz fs \<Longrightarrow> k < num_fields fs \<Longrightarrow> value_fits (fs ! k)"
  using regularD(1) [of n descs sz fs k] by (simp add: regular_field_def member_inside_def)

lemma same_message_agree:
  "regular n descs sz fs \<Longrightarrow> same_message n descs m1 m2 fs src dest \<Longrightarrow> agree {dest..<dest + int sz} m2 m2' \<Longrightarrow>
   same_message n descs m1 m2' fs src dest"
proof (induction n arbitrary: sz fs src dest)
  case (Suc n)
  have "same_member m1 m2' (same_message n descs m1 m2' (descs (ptr (fs ! k)))) (fs ! k) (pData (iter_at fs src k)) (pData (iter_at fs dest k))"
    if k: "k < num_fields fs" for k
  proof (rule same_member_agree)
    show "same_member m1 m2 (same_message n descs m1 m2 (descs (ptr (fs ! k)))) (fs ! k) (pData (iter_at fs src k)) (pData (iter_at fs dest k))"
      using Suc.prems(2) k by (simp add: list_all_iff)
    show "agree (region (fs ! k) (pData (iter_at fs dest k))) m2 m2'"
      by (rule agree_subset [OF Suc.prems(3) region_inside [OF Suc.prems(1) k]])
    show "value_fits (fs ! k)" by (rule regular_fits [OF Suc.prems(1) k])
    show "PB_HTYPE (type (fs ! k)) \<noteq> PB_HTYPE_ONEOF" by (rule regular_no_oneof [OF Suc.prems(1) k])
    show "same_message n descs m1 m2' (descs (ptr (fs ! k))) p q"
      if "PB_LTYPE (type (fs ! k)) = PB_LTYPE_SUBMESSAGE" "agree {q..<q + int (data_size (fs ! k))} m2 m2'"
        "same_message n descs m1 m2 (descs (ptr (fs ! k))) p q" for p q
      using Suc.IH [OF _ that(3,2)] regularD(2) [OF Suc.prems(1) k that(1)] by blast
  qed
  then show ?case by (simp add: list_all_iff)
qed simp

lemma same_stable:
  assumes "regular (Suc n) descs sz fs" "k < num_fields fs" "agree (region (fs ! k) d) m m'"
    and "same_member m1 m (same_message n descs m1 m (descs (ptr (fs ! k)))) (fs ! k) d1 d"
  shows "same_member m1 m' (same_message n descs m1 m' (descs (ptr (fs ! k)))) (fs ! k) d1 d"
proof (rule same_member_agree [OF assms(4,3) regular_fits [OF assms(1,2)] regular_no_oneof [OF assms(1,2)]])
  show "same_message n descs m1 m' (descs (ptr (fs ! k))) p q"
    if "PB_LTYPE (type (fs ! k)) = PB_LTYPE_SUBMESSAGE" "agree {q..<q + int (data_size (fs ! k))} m m'"
      "same_message n descs m1 m (descs (ptr (fs ! k))) p q" for p q
    using same_message_agree [OF _ that(3,2)] regularD(2) [OF assms(1,2) that(1)] by blast
qed

end
