(* ===== verification/Pb_Members.thy ===== *)
theory Pb_Members
  imports Pb_Contents
begin

text \<open>
  What the encoder of a value writes, its decoder reads back, for every kind of field; and so for the
  members of a structure, required, optional, and arrays item by item or packed.
\<close>

section \<open>Values\<close>

lemma load_store [simp]: "length bs = n \<Longrightarrow> load (mem_store m a bs) a n = bs"
  by (auto simp: load_def mem_store_def list_eq_iff_nth_eq)

lemma load_store_outside: "a + int n \<le> b \<or> b + int (length bs) \<le> a \<Longrightarrow> load (mem_store m b bs) a n = load m a n"
  by (auto simp: load_def mem_store_def)

lemma load_size_store [simp]: "n < 2 ^ 32 \<Longrightarrow> load_size (store_size m a n) a = n"
  by (simp add: load_size_def store_size_def le_val_le_bytes)

lemma load_bool_store [simp]: "load_bool (store_bool m a b) a = b"
  by (simp add: load_bool_def store_bool_def safe_read_bool_def)

text \<open>
  A decoder step on a stream that starts with \<open>bs\<close>: it takes exactly these bytes, changes the memory only
  at the addresses \<open>R\<close>, and establishes \<open>Q\<close>.
\<close>

definition takes :: "((int \<Rightarrow> u8) \<Rightarrow> bool) \<Rightarrow> bytes \<Rightarrow> int set \<Rightarrow> ('s dstate \<Rightarrow> (bool \<times> 's dstate) option) \<Rightarrow> ((int \<Rightarrow> u8) \<Rightarrow> bool) \<Rightarrow> bool" where
  "takes P bs R f Q \<longleftrightarrow>
     (\<forall>m rest left e. P m \<longrightarrow> length bs \<le> left \<longrightarrow>
        (\<exists>m'. f (m, buffered (bs @ rest) left e) = Some (True, m', buffered rest (left - length bs) e) \<and> same_outside R m m' \<and> Q m'))"

lemma takesI:
  assumes "\<And>m rest left e. P m \<Longrightarrow> length bs \<le> left \<Longrightarrow>
     \<exists>m'. f (m, buffered (bs @ rest) left e) = Some (True, m', buffered rest (left - length bs) e) \<and> same_outside R m m' \<and> Q m'"
  shows "takes P bs R f Q"
  using assms by (simp add: takes_def)

lemma takes_dec_at:
  assumes "\<And>dest rest left e. length dest = n \<Longrightarrow> length bs \<le> left \<Longrightarrow>
      f (buffered (bs @ rest) left e) dest = ((True, v), buffered rest (left - length bs) e)"
    and "length v = n" "{a..<a + int n} \<subseteq> R" "\<And>m. load m a n = v \<Longrightarrow> Q m"
  shows "takes P bs R (\<lambda>st. Some (dec_at f a n st)) Q"
proof (rule takesI)
  fix m :: "int \<Rightarrow> u8" and rest left e
  assume "length bs \<le> left"
  then have "dec_at f a n (m, buffered (bs @ rest) left e) = (True, mem_store m a v, buffered rest (left - length bs) e)"
    using assms(1) [of "load m a n" left rest e] by (simp add: dec_at_def)
  moreover have "same_outside R m (mem_store m a v)" by (rule same_outside_store) (use assms(2,3) in simp)
  ultimately show "\<exists>m'. Some (dec_at f a n (m, buffered (bs @ rest) left e)) = Some (True, m', buffered rest (left - length bs) e) \<and>
      same_outside R m m' \<and> Q m'"
    using assms(2,4) by simp
qed

lemma dec_int_read:
  assumes "length src = data_size f" "length dest = data_size f"
  shows "read_signed (data_size f) src = Some v \<Longrightarrow> length (varint (unat v)) \<le> left \<Longrightarrow>
      pb_dec_varint (buffered (varint (unat v) @ rest) left e) f dest = ((True, src), buffered rest (left - length (varint (unat v))) e)"
    and "read_unsigned (data_size f) src = Some v \<Longrightarrow> length (varint (unat v)) \<le> left \<Longrightarrow>
      pb_dec_uvarint (buffered (varint (unat v) @ rest) left e) f dest = ((True, src), buffered rest (left - length (varint (unat v))) e)"
    and "read_signed (data_size f) src = Some v \<Longrightarrow> length (varint (unat (zigzag v))) \<le> left \<Longrightarrow>
      pb_dec_svarint (buffered (varint (unat (zigzag v)) @ rest) left e) f dest = ((True, src), buffered rest (left - length (varint (unat (zigzag v)))) e)"
proof -
  have size: "read_signed (data_size f) src = Some v \<Longrightarrow> int_size (data_size f)" "read_unsigned (data_size f) src = Some v \<Longrightarrow> int_size (data_size f)"
    by (auto simp: read_signed_def read_unsigned_def int_size_def split: if_splits)
  show "pb_dec_varint (buffered (varint (unat v) @ rest) left e) f dest = ((True, src), buffered rest (left - length (varint (unat v))) e)"
    if "read_signed (data_size f) src = Some v" "length (varint (unat v)) \<le> left"
  proof -
    have "clamp_signed (data_size f) v dest = Some (src, v)" "(if data_size f = 8 then v else scast (ucast v :: u32)) = v"
      using clamp_signed_read [OF size(1) [OF that(1)] assms] that(1) by auto
    then show ?thesis
      by (simp only: pb_dec_varint_def decode_varint [OF that(2)] prod.case option.case Let_def clamped_result_def) simp
  qed
  show "pb_dec_uvarint (buffered (varint (unat v) @ rest) left e) f dest = ((True, src), buffered rest (left - length (varint (unat v))) e)"
    if "read_unsigned (data_size f) src = Some v" "length (varint (unat v)) \<le> left"
    using clamp_unsigned_read [OF size(2) [OF that(1)] assms] that
    by (auto simp: pb_dec_uvarint_def decode_varint clamped_result_def)
  show "pb_dec_svarint (buffered (varint (unat (zigzag v)) @ rest) left e) f dest = ((True, src), buffered rest (left - length (varint (unat (zigzag v)))) e)"
    if "read_signed (data_size f) src = Some v" "length (varint (unat (zigzag v))) \<le> left"
    using clamp_signed_read [OF size(1) [OF that(1)] assms] that
    by (auto simp: pb_dec_svarint_def decode_svarint clamped_result_def)
qed

lemma dec_fixed_read:
  "length v = 4 \<Longrightarrow> length dest = 4 \<Longrightarrow> 4 \<le> left \<Longrightarrow>
    pb_dec_fixed32 (buffered (v @ rest) left e) f dest = ((True, v), buffered rest (left - 4) e)"
  "length v = 8 \<Longrightarrow> length dest = 8 \<Longrightarrow> 8 \<le> left \<Longrightarrow>
    pb_dec_fixed64 (buffered (v @ rest) left e) f dest = ((True, v), buffered rest (left - 8) e)"
proof -
  have "le_bytes 4 (unat (of_nat (le_val v) :: u32)) = v" if "length v = 4"
    using le_bytes_le_val [of v] le_val_less [of v] that unat_of_nat_u32 [of "le_val v"] by simp
  then show "length v = 4 \<Longrightarrow> length dest = 4 \<Longrightarrow> 4 \<le> left \<Longrightarrow>
      pb_dec_fixed32 (buffered (v @ rest) left e) f dest = ((True, v), buffered rest (left - 4) e)"
    by (simp add: pb_dec_fixed32_def decode_fixed32 store_def mem_write_def)
  have "le_bytes 8 (unat (of_nat (le_val v) :: u64)) = v" if "length v = 8"
    using le_bytes_le_val [of v] le_val_less [of v] that unat_of_nat_u64 [of "le_val v"] by simp
  then show "length v = 8 \<Longrightarrow> length dest = 8 \<Longrightarrow> 8 \<le> left \<Longrightarrow>
      pb_dec_fixed64 (buffered (v @ rest) left e) f dest = ((True, v), buffered rest (left - 8) e)"
    by (simp add: pb_dec_fixed64_def decode_fixed64 store_def mem_write_def)
qed

lemma dec_bool_read:
  assumes "length dest = 1" "length (varint (if b then 1 else 0)) \<le> left"
  shows "pb_dec_bool (buffered (varint (if b then 1 else 0) @ rest) left e :: 's pb_istream) dest =
    ((True, [if b then 1 else 0]), buffered rest (left - length (varint (if b then 1 else 0))) e)"
proof -
  have "pb_decode_varint32 (buffered (varint (if b then 1 else 0) @ rest) left e :: 's pb_istream) =
      (Some (of_nat (if b then 1 else 0)), buffered rest (left - length (varint (if b then 1 else 0))) e)"
    by (rule decode_varint32 [OF _ assms(2)]) simp
  moreover have one: "le_bytes (Suc 0) (Suc 0) = [1]" "le_bytes (Suc 0) 0 = [0]" by code_simp+
  ultimately show ?thesis using assms(1) by (cases b) (simp_all add: pb_dec_bool_def store_def mem_write_def one)
qed

lemma dec_fixed_length_read:
  assumes "length v = data_size f" "length dest = data_size f" "data_size f < 2 ^ 32" "length (varint (length v) @ v) \<le> left"
  shows "pb_dec_fixed_length_bytes (buffered ((varint (length v) @ v) @ rest) left e :: 's pb_istream) f dest =
    ((True, v), buffered rest (left - length (varint (length v) @ v)) e)"
proof -
  let ?l = "left - length (varint (length v))"
  have u: "unat (of_nat (length v) :: u32) = length v" using assms(1,3) by (simp add: unat_of_nat_u32)
  have z: "(of_nat (length v) :: u32) = 0 \<longleftrightarrow> v = []"
    by (simp only: unsigned_eq_0_iff [where ?'a = nat, symmetric] u length_0_conv)
  have d: "pb_decode_varint32 (buffered (varint (length v) @ v @ rest) left e :: 's pb_istream) = (Some (of_nat (length v)), buffered (v @ rest) ?l e)"
    by (rule decode_varint32) (use assms in simp_all)
  have r: "pb_read (buffered (v @ rest) ?l e :: 's pb_istream) (length v) = (Some v, buffered rest (?l - length v) e)"
    by (rule read_buffered) (use assms(4) in simp)
  show ?thesis
  proof (cases "v = []")
    case True
    then show ?thesis using assms(1,2) d by (simp add: pb_dec_fixed_length_bytes_def PB_SIZE_MAX_def mem_write_def)
  next
    case False
    then show ?thesis using assms(1-3) d r u z by (simp add: pb_dec_fixed_length_bytes_def PB_SIZE_MAX_def mem_write_def)
  qed
qed

lemma read_at_buffered:
  assumes "length v \<le> left"
  shows "read_at a (length v) (m, buffered (v @ rest) left e :: 's pb_istream) = (True, mem_store m a v, buffered rest (left - length v) e)"
proof -
  have "pb_read (buffered (v @ rest) left e :: 's pb_istream) (length v) = (Some v, buffered rest (left - length v) e)"
    by (rule read_buffered [OF assms])
  then show ?thesis by (simp add: read_at_def)
qed

lemma load_string_nonzero: "x \<in> set (load_string m a n) \<Longrightarrow> x \<noteq> 0"
proof (induction n arbitrary: a)
  case (Suc n)
  then show ?case by (auto simp: load_string.simps [of m a] split: if_splits)
qed (simp add: load_string.simps)

lemma load_string_stored:
  assumes "load m a (length v) = v" "0 \<notin> set v" "m (a + int (length v)) = 0" "length v < n"
  shows "load_string m a n = v"
  using assms
proof (induction v arbitrary: a n)
  case Nil
  then show ?case by (simp add: load_string.simps)
next
  case (Cons x v)
  have l: "load m a (length (x # v)) = m a # load m (a + 1) (length v)"
    by (simp add: load_def upt_conv_Cons map_Suc_upt [symmetric] comp_def add.assoc del: upt_Suc)
  then have "m a = x" "load m (a + 1) (length v) = v" using Cons.prems(1) by simp_all
  moreover obtain n' where "n = Suc n'" using Cons.prems(4) by (cases n) auto
  ultimately show ?case
    using Cons.IH [of "a + 1" n'] Cons.prems by (simp add: load_string.simps [of m a] add.assoc)
qed

lemma takes_bytes:
  assumes "PB_ATYPE (type f) \<noteq> PB_ATYPE_POINTER" "length v < 2 ^ 32" "length v + 4 \<le> data_size f" "{b..<b + int (data_size f)} \<subseteq> R"
    and "\<And>m. load_size m b = length v \<Longrightarrow> load m (b + 4) (length v) = v \<Longrightarrow> Q m"
  shows "takes P (varint (length v) @ v) R (\<lambda>st :: 's dstate. Some (pb_dec_bytes realloc f b st)) Q"
proof (rule takesI)
  fix m rest left e
  assume l: "length (varint (length v) @ v) \<le> left"
  let ?l = "left - length (varint (length v))" and ?m = "store_size m b (length v)"
  let ?m' = "mem_store ?m (b + 4) v"
  have u: "unat (of_nat (length v) :: u32) = length v" using assms(2) by (rule unat_of_nat_u32)
  have d: "pb_decode_varint32 (buffered (varint (length v) @ v @ rest) left e :: 's pb_istream) = (Some (of_nat (length v)), buffered (v @ rest) ?l e)"
    by (rule decode_varint32) (use assms(2) l in simp_all)
  have r: "read_at (b + 4) (length v) (?m, buffered (v @ rest) ?l e :: 's pb_istream) = (True, ?m', buffered rest (?l - length v) e)"
    by (rule read_at_buffered) (use l in simp)
  have w: "size_wrap (length v + 4) = length v + 4" using assms(2) by (simp add: size_wrap_def)
  have "pb_dec_bytes realloc f b (m, buffered ((varint (length v) @ v) @ rest) left e :: 's pb_istream) = (True, ?m', buffered rest (?l - length v) e)"
    using assms(1-3) d r u w by (simp add: pb_dec_bytes_def Let_def PB_SIZE_MAX_def PB_BYTES_ARRAY_T_ALLOCSIZE_def)
  moreover have "load_size ?m' b = length v"
  proof -
    have "load ?m' b 4 = load ?m b 4" by (rule load_store_outside) simp
    then show ?thesis using assms(2) load_size_store [of "length v" m b] by (simp add: load_size_def)
  qed
  moreover have "same_outside R m ?m'"
  proof (rule same_outside_trans)
    show "same_outside R m ?m" by (rule same_outside_size) (use assms(3,4) in auto)
    show "same_outside R ?m ?m'" by (rule same_outside_store) (use assms(3,4) in auto)
  qed
  ultimately show "\<exists>m'. Some (pb_dec_bytes realloc f b (m, buffered ((varint (length v) @ v) @ rest) left e :: 's pb_istream)) =
      Some (True, m', buffered rest (left - length (varint (length v) @ v)) e) \<and> same_outside R m m' \<and> Q m'"
    using assms(5) by simp
qed

lemma takes_string:
  assumes "PB_ATYPE (type f) \<noteq> PB_ATYPE_POINTER" "length v < 2 ^ 32 - 1" "length v < data_size f" "{b..<b + int (data_size f)} \<subseteq> R"
    and "\<And>m. load m b (length v) = v \<Longrightarrow> m (b + int (length v)) = 0 \<Longrightarrow> Q m"
  shows "takes P (varint (length v) @ v) R (\<lambda>st :: 's dstate. Some (pb_dec_string realloc f b st)) Q"
proof (rule takesI)
  fix m rest left e
  assume l: "length (varint (length v) @ v) \<le> left"
  let ?l = "left - length (varint (length v))" and ?m = "mem_store m b v" and ?z = "b + int (length v)"
  let ?m' = "mem_store ?m ?z [0]"
  have u: "unat (of_nat (length v) :: u32) = length v" "unat (of_nat (length v) + 1 :: u32) = length v + 1"
    using assms(2) unat_of_nat_u32 [of "length v"] unat_of_nat_u32 [of "length v + 1"] by (simp_all add: add.commute)
  have d: "pb_decode_varint32 (buffered (varint (length v) @ v @ rest) left e :: 's pb_istream) = (Some (of_nat (length v)), buffered (v @ rest) ?l e)"
    by (rule decode_varint32) (use assms(2) l in simp_all)
  have r: "read_at b (length v) (m, buffered (v @ rest) ?l e :: 's pb_istream) = (True, ?m, buffered rest (?l - length v) e)"
    by (rule read_at_buffered) (use l in simp)
  have "pb_dec_string realloc f b (m, buffered ((varint (length v) @ v) @ rest) left e :: 's pb_istream) = (True, ?m', buffered rest (?l - length v) e)"
    using assms(1,3) d r u by (simp add: pb_dec_string_def Let_def)
  moreover have "load ?m' b (length v) = v" using load_store_outside [of b "length v" ?z "[0]" ?m] by simp
  moreover have "?m' ?z = 0" by (simp add: mem_store_def)
  moreover have "same_outside R m ?m'"
  proof (rule same_outside_trans)
    show "same_outside R m ?m" by (rule same_outside_store) (use assms(3,4) in auto)
    show "same_outside R ?m ?m'" by (rule same_outside_store) (use assms(3,4) in auto)
  qed
  ultimately show "\<exists>m'. Some (pb_dec_string realloc f b (m, buffered ((varint (length v) @ v) @ rest) left e :: 's pb_istream)) =
      Some (True, m', buffered rest (left - length (varint (length v) @ v)) e) \<and> same_outside R m m' \<and> Q m'"
    using assms(5) by simp
qed

text \<open>A message takes its bytes when they are all that is left, and closes its substream with nothing to skip.\<close>

definition takes_all :: "((int \<Rightarrow> u8) \<Rightarrow> bool) \<Rightarrow> bytes \<Rightarrow> int set \<Rightarrow> ('s dstate \<Rightarrow> (bool \<times> 's dstate) option) \<Rightarrow> ((int \<Rightarrow> u8) \<Rightarrow> bool) \<Rightarrow> bool" where
  "takes_all P bs R f Q \<longleftrightarrow>
     (\<forall>m rest e. P m \<longrightarrow>
        (\<exists>m'. f (m, buffered (bs @ rest) (length bs) e) = Some (True, m', buffered rest 0 e) \<and> same_outside R m m' \<and> Q m'))"

lemma takes_in_substream:
  assumes "takes_all P v R body Q" "length v < 2 ^ 32"
  shows "takes P (varint (length v) @ v) R (in_substream (body :: 's dstate \<Rightarrow> _)) Q"
proof (rule takesI)
  fix m rest left e
  assume P: "P m" and l: "length (varint (length v) @ v) \<le> left"
  let ?l = "left - length (varint (length v))"
  have u: "unat (of_nat (length v) :: u32) = length v" using assms(2) by (rule unat_of_nat_u32)
  have d: "pb_decode_varint32 (buffered (varint (length v) @ v @ rest) left e :: 's pb_istream) = (Some (of_nat (length v)), buffered (v @ rest) ?l e)"
    by (rule decode_varint32) (use assms(2) l in simp_all)
  have mk: "pb_make_string_substream (buffered (varint (length v) @ v @ rest) left e :: 's pb_istream) =
      (Some (buffered (v @ rest) (length v) e), buffered (v @ rest) (?l - length v) e)"
    using l by (simp add: pb_make_string_substream_def d u) (simp add: buffered_def)
  have c: "pb_close_string_substream (buffered (v @ rest) n e) (buffered rest 0 e) = (True, buffered rest n e :: 's pb_istream)" for n
    by (simp add: pb_close_string_substream_def buffered_def)
  obtain m' where "body (m, buffered (v @ rest) (length v) e) = Some (True, m', buffered rest 0 e)" "same_outside R m m'" "Q m'"
    using assms(1) P unfolding takes_all_def by blast
  then show "\<exists>m'. in_substream body (m, buffered ((varint (length v) @ v) @ rest) left e) =
      Some (True, m', buffered rest (left - length (varint (length v) @ v)) e) \<and> same_outside R m m' \<and> Q m'"
    by (simp add: in_substream_def mk c)
qed

lemma varint_nonempty: "0 < length (varint n)"
  by (cases "n < 128") (simp_all add: varint_rec)

lemma takes_cong: "(\<And>st. f st = g st) \<Longrightarrow> takes P bs R g Q \<Longrightarrow> takes P bs R f Q"
  by (simp add: takes_def)

text \<open>What the encoder of a value writes, the decoder of the field reads back.\<close>

lemma takes_fixed_value:
  fixes env :: "'s pb_denv"
  assumes "value_fits f" "value_out eenv sub f a = Some (bs, None)" "{b..<b + int (data_size f)} \<subseteq> R"
    and "PB_LTYPE (type f) \<in> {PB_LTYPE_BOOL, PB_LTYPE_FIXED32, PB_LTYPE_FIXED64}"
  shows "takes P bs R (call_decoder env dec dec_noinit f b) (\<lambda>m. same_value (memory eenv) m (ssub m) f a b)"
proof -
  let ?m = "memory eenv" and ?n = "data_size f"
  have sub: "{b..<b + int n} \<subseteq> R" if "n \<le> ?n" for n using that assms(3) by auto
  note v = value_out_def Let_def ltype_defs and s = same_value_def Let_def ltype_defs
  consider "PB_LTYPE (type f) = PB_LTYPE_BOOL" "1 \<le> ?n" | "PB_LTYPE (type f) = PB_LTYPE_FIXED32" "4 \<le> ?n"
    | "PB_LTYPE (type f) = PB_LTYPE_FIXED64" "8 \<le> ?n"
    using assms(1,4) by (auto simp: value_fits_def Let_def ltype_defs split: if_splits)
  then show ?thesis
  proof cases
    case 1
    then have bs: "bs = varint (if load_bool ?m a then 1 else 0)" using assms(2) by (simp add: v)
    have "takes P bs R (\<lambda>st. Some (dec_at pb_dec_bool b 1 st)) (\<lambda>m. load_bool ?m a = load_bool m b)"
      unfolding bs by (rule takes_dec_at [OF dec_bool_read _ sub [OF 1(2)]]) (simp_all add: load_bool_def safe_read_bool_def)
    then show ?thesis using 1 by (simp add: call_decoder_simps s)
  next
    case 2
    then have bs: "bs = load ?m a 4" using assms(2) by (simp add: v)
    have "takes P bs R (\<lambda>st. Some (dec_at (\<lambda>stream. pb_dec_fixed32 stream f) b 4 st)) (\<lambda>m. load ?m a 4 = load m b 4)"
      unfolding bs by (rule takes_dec_at [OF _ length_load sub [OF 2(2)]]) (simp add: dec_fixed_read(1), rule sym)
    then show ?thesis using 2 by (simp add: call_decoder_simps s)
  next
    case 3
    then have bs: "bs = load ?m a 8" using assms(2) by (simp add: v)
    have "takes P bs R (\<lambda>st. Some (dec_at (\<lambda>stream. pb_dec_fixed64 stream f) b 8 st)) (\<lambda>m. load ?m a 8 = load m b 8)"
      unfolding bs by (rule takes_dec_at [OF _ length_load sub [OF 3(2)]]) (simp add: dec_fixed_read(2), rule sym)
    then show ?thesis using 3 by (simp add: call_decoder_simps s)
  qed
qed

lemma takes_int_value:
  fixes env :: "'s pb_denv"
  assumes "value_fits f" "value_out eenv sub f a = Some (bs, None)" "{b..<b + int (data_size f)} \<subseteq> R"
    and "PB_LTYPE (type f) \<in> {PB_LTYPE_VARINT, PB_LTYPE_UVARINT, PB_LTYPE_SVARINT}"
  shows "takes P bs R (call_decoder env dec dec_noinit f b) (\<lambda>m. same_value (memory eenv) m (ssub m) f a b)"
proof -
  let ?m = "memory eenv" and ?n = "data_size f"
  have sub: "{b..<b + int n} \<subseteq> R" if "n \<le> ?n" for n using that assms(3) by auto
  note v = value_out_def Let_def ltype_defs and s = same_value_def Let_def ltype_defs
  consider "PB_LTYPE (type f) = PB_LTYPE_VARINT" | "PB_LTYPE (type f) = PB_LTYPE_UVARINT" | "PB_LTYPE (type f) = PB_LTYPE_SVARINT"
    using assms(4) by blast
  then show ?thesis
  proof cases
    case 1
    then obtain w where r: "read_signed ?n (load ?m a ?n) = Some w" and bs: "bs = varint (unat w)"
      using assms(2) by (auto simp: v int_out_def fail_out_def split: option.splits)
    have "takes P bs R (\<lambda>st. Some (dec_at (\<lambda>stream. pb_dec_varint stream f) b ?n st)) (\<lambda>m. load ?m a ?n = load m b ?n)"
      unfolding bs by (rule takes_dec_at [OF dec_int_read(1) [OF _ _ r] _ sub]) simp_all
    then show ?thesis using 1 by (simp add: call_decoder_simps s)
  next
    case 2
    then obtain w where r: "read_unsigned ?n (load ?m a ?n) = Some w" and bs: "bs = varint (unat w)"
      using assms(2) by (auto simp: v int_out_def fail_out_def split: option.splits)
    have "takes P bs R (\<lambda>st. Some (dec_at (\<lambda>stream. pb_dec_uvarint stream f) b ?n st)) (\<lambda>m. load ?m a ?n = load m b ?n)"
      unfolding bs by (rule takes_dec_at [OF dec_int_read(2) [OF _ _ r] _ sub]) simp_all
    then show ?thesis using 2 by (simp add: call_decoder_simps s)
  next
    case 3
    then obtain w where r: "read_signed ?n (load ?m a ?n) = Some w" and bs: "bs = varint (unat (zigzag w))"
      using assms(2) by (auto simp: v int_out_def fail_out_def split: option.splits)
    have "takes P bs R (\<lambda>st. Some (dec_at (\<lambda>stream. pb_dec_svarint stream f) b ?n st)) (\<lambda>m. load ?m a ?n = load m b ?n)"
      unfolding bs by (rule takes_dec_at [OF dec_int_read(3) [OF _ _ r] _ sub]) simp_all
    then show ?thesis using 3 by (simp add: call_decoder_simps s)
  qed
qed

lemma takes_value:
  fixes env :: "'s pb_denv"
  assumes "value_fits f" "PB_ATYPE (type f) = PB_ATYPE_STATIC" "value_out eenv sub f a = Some (bs, None)" "length bs < 2 ^ 32"
    and "a \<noteq> Null" "{b..<b + int (data_size f)} \<subseteq> R"
    and "PB_LTYPE (type f) = PB_LTYPE_STRING \<Longrightarrow> length (load_string (memory eenv) a (data_size f)) < data_size f"
    and "\<And>body. PB_LTYPE (type f) = PB_LTYPE_SUBMESSAGE \<Longrightarrow> ptr f \<noteq> Null \<Longrightarrow> sub (descriptors eenv (ptr f)) a = Some (body, None) \<Longrightarrow>
      length body < 2 ^ 32 \<Longrightarrow>
      takes_all P body R ((if PB_HTYPE (type f) = PB_HTYPE_REPEATED then dec else dec_noinit) (fields_at env (ptr f)) b) (\<lambda>m. ssub m a b)"
  shows "takes P bs R (call_decoder env dec dec_noinit f b) (\<lambda>m. same_value (memory eenv) m (ssub m) f a b)"
proof -
  let ?m = "memory eenv" and ?n = "data_size f"
  have np: "PB_ATYPE (type f) \<noteq> PB_ATYPE_POINTER" using assms(2) by (simp add: PB_ATYPE_STATIC_def PB_ATYPE_POINTER_def)
  have sub: "{b..<b + int n} \<subseteq> R" if "n \<le> ?n" for n using that assms(6) by auto
  note v = value_out_def Let_def ltype_defs and s = same_value_def Let_def ltype_defs
  consider "PB_LTYPE (type f) \<in> {PB_LTYPE_BOOL, PB_LTYPE_FIXED32, PB_LTYPE_FIXED64}"
    | "PB_LTYPE (type f) \<in> {PB_LTYPE_VARINT, PB_LTYPE_UVARINT, PB_LTYPE_SVARINT}" | "PB_LTYPE (type f) = PB_LTYPE_BYTES"
    | "PB_LTYPE (type f) = PB_LTYPE_STRING" | "PB_LTYPE (type f) = PB_LTYPE_SUBMESSAGE" | "PB_LTYPE (type f) = PB_LTYPE_FIXED_LENGTH_BYTES"
    using value_out_ltypes [OF assms(3)] by blast
  then show ?thesis
  proof cases
    case 1
    show ?thesis by (rule takes_fixed_value [OF assms(1,3,6) 1])
  next
    case 2
    show ?thesis by (rule takes_int_value [OF assms(1,3,6) 2])
  next
    case 3
    then have l: "load_size ?m a + 4 \<le> ?n" and bs: "bs = varint (length (load ?m (a + 4) (load_size ?m a))) @ load ?m (a + 4) (load_size ?m a)"
      using assms(2,3,5) by (auto simp: v bytes_out_def string_out_def fail_out_def split: if_splits)
    have "takes P bs R (\<lambda>st. Some (pb_dec_bytes (c_realloc env) f b st)) (\<lambda>m. same_value ?m m (ssub m) f a b)"
      unfolding bs by (rule takes_bytes [OF np _ _ assms(6)]) (use l 3 load_size_less [of ?m a] in \<open>simp_all add: s\<close>)
    then show ?thesis using 3 by (simp add: call_decoder_simps)
  next
    case 4
    let ?v = "load_string ?m a ?n"
    have bs: "bs = varint (length ?v) @ ?v" using assms(2,3,5) 4 np by (simp add: v string_out_def)
    have "takes P bs R (\<lambda>st. Some (pb_dec_string (c_realloc env) f b st)) (\<lambda>m. same_value ?m m (ssub m) f a b)"
      unfolding bs
    proof (rule takes_string [OF np _ assms(7) [OF 4] assms(6)])
      show "length ?v < 2 ^ 32 - 1" using assms(4) varint_nonempty [of "length ?v"] unfolding bs length_append by linarith
      show "same_value ?m m (ssub m) f a b" if "load m b (length ?v) = ?v" "m (b + int (length ?v)) = 0" for m
        using load_string_stored [OF that(1) _ that(2) assms(7) [OF 4]] load_string_nonzero 4 by (fastforce simp: s)
    qed
    then show ?thesis using 4 by (simp add: call_decoder_simps)
  next
    case 5
    then obtain body where p: "ptr f \<noteq> Null" "sub (descriptors eenv (ptr f)) a = Some (body, None)" and bs: "bs = varint (length body) @ body"
      using assms(3) by (auto simp: v sized_out_def string_out_def fail_out_def bind_eq_Some_conv split: if_splits)
    have len: "length body < 2 ^ 32" using assms(4) unfolding bs by simp
    have "takes P bs R (pb_dec_submessage env dec dec_noinit f b) (\<lambda>m. ssub m a b)"
      unfolding bs by (rule takes_cong [OF _ takes_in_substream [OF assms(8) [OF 5 p len] len]]) (simp add: pb_dec_submessage_def p(1))
    moreover have "call_decoder env dec dec_noinit f b = pb_dec_submessage env dec dec_noinit f b" using 5 by (rule call_decoder_simps)
    moreover have "(\<lambda>m. same_value ?m m (ssub m) f a b) = (\<lambda>m. ssub m a b)" using 5 by (simp add: s)
    ultimately show ?thesis by simp
  next
    case 6
    then have bs: "bs = varint (length (load ?m a ?n)) @ load ?m a ?n" using assms(3) by (simp add: v string_out_def)
    then have "?n < 2 ^ 32" using assms(4) by simp
    then have "takes P bs R (\<lambda>st. Some (dec_at (\<lambda>stream. pb_dec_fixed_length_bytes stream f) b ?n st)) (\<lambda>m. load ?m a ?n = load m b ?n)"
      unfolding bs by (intro takes_dec_at [OF dec_fixed_length_read _ sub]) simp_all
    then show ?thesis using 6 by (simp add: call_decoder_simps s)
  qed
qed

section \<open>Members\<close>

text \<open>The first \<open>j\<close> values of the member have arrived.\<close>

definition member_upto ::
    "nat \<Rightarrow> (int \<Rightarrow> u8) \<Rightarrow> (int \<Rightarrow> u8) \<Rightarrow> (int \<Rightarrow> int \<Rightarrow> bool) \<Rightarrow> pb_field \<Rightarrow> int \<Rightarrow> int \<Rightarrow> bool" where
  "member_upto j m1 m2 sub f d1 d2 \<longleftrightarrow>
     PB_HTYPE (type f) = PB_HTYPE_REQUIRED \<and> j = 0 \<or>
     list_all2 (same_value m1 m2 sub f) (take j (items m1 f d1)) (items m2 f d2)"

lemma takesE:
  assumes "takes P bs R f Q" "P m" "length bs \<le> left"
  obtains m' where "f (m, buffered (bs @ rest) left e) = Some (True, m', buffered rest (left - length bs) e)" "same_outside R m m'" "Q m'"
  using assms unfolding takes_def by blast

text \<open>The parts of a member do not overlap.\<close>

lemma parts_apart:
  assumes "sorted_wrt apart (areas f d)" "PB_HTYPE (type f) \<noteq> PB_HTYPE_ONEOF"
  shows "PB_HTYPE (type f) = PB_HTYPE_OPTIONAL \<Longrightarrow> d + size_offset f \<notin> {d..<d + int (data_size f)}"
    and "PB_HTYPE (type f) = PB_HTYPE_REPEATED \<Longrightarrow>
      {d + size_offset f..<d + size_offset f + 4} \<inter> {d..<d + int (data_size f * array_size f)} = {}"
  using assms by (auto simp: areas_def apart_def htype_distinct2)

text \<open>What is known of the values of a member: each is decoded where it belongs.\<close>

definition value_takes ::
    "((int \<Rightarrow> u8) \<Rightarrow> bool) \<Rightarrow> (int \<Rightarrow> u8) \<Rightarrow> ((int \<Rightarrow> u8) \<Rightarrow> int \<Rightarrow> int \<Rightarrow> bool) \<Rightarrow> int set \<Rightarrow> pb_field \<Rightarrow>
     (int \<Rightarrow> 's dstate \<Rightarrow> (bool \<times> 's dstate) option) \<Rightarrow> int \<Rightarrow> int \<Rightarrow> bytes \<Rightarrow> bool" where
  "value_takes P m1 ssub L f func a b bs \<longleftrightarrow>
     takes P bs ({b..<b + int (data_size f)} \<union> L) (func b) (\<lambda>m. same_value m1 m (ssub m) f a b)"

lemma takes_required:
  assumes "PB_HTYPE (type (cur_field iter)) = PB_HTYPE_REQUIRED"
    and "value_takes P m1 ssub L (cur_field iter) (call_decoder env dec dec_noinit (cur_field iter)) d1 (pData iter) bs"
  shows "takes P bs (region (cur_field iter) (pData iter) \<union> L) (decode_static_field env defs dec dec_noinit wt iter)
    (\<lambda>m. member_upto 1 m1 m (ssub m) (cur_field iter) d1 (pData iter))"
proof -
  have "decode_static_field env defs dec dec_noinit wt iter = call_decoder env dec dec_noinit (cur_field iter) (pData iter)"
    using assms(1) by (simp add: decode_static_field_def fun_eq_iff Let_def)
  moreover have "region (cur_field iter) (pData iter) = {pData iter..<pData iter + int (data_size (cur_field iter))}"
    using assms(1) by (simp add: region_def areas_def)
  ultimately show ?thesis using assms by (simp add: value_takes_def member_upto_def items_def)
qed

lemma takes_optional:
  assumes "PB_HTYPE (type f) = PB_HTYPE_OPTIONAL" "cur_field iter = f" "pData iter = d" "pSize iter = d + size_offset f"
    and "size_offset f \<noteq> 0" "sorted_wrt apart (areas f d)" "L \<inter> region f d = {}" "items m1 f d1 = [d1]"
    and "value_takes P m1 ssub L f (call_decoder env dec dec_noinit f) d1 d bs"
    and "\<And>m m'. agree {d..<d + int (data_size f)} m m' \<Longrightarrow> P m \<Longrightarrow> P m'"
  shows "takes P bs (region f d \<union> L) (decode_static_field env defs dec dec_noinit wt iter) (\<lambda>m. member_upto 1 m1 m (ssub m) f d1 d)"
proof (rule takesI)
  fix m rest left e
  assume P: "P m" and l: "length bs \<le> left"
  let ?z = "d + size_offset f"
  let ?m = "store_bool m ?z True"
  have z: "?z \<notin> {d..<d + int (data_size f)}" using parts_apart(1) [OF assms(6) _ assms(1)] assms(1) by (simp add: htype_distinct2)
  have reg: "region f d = insert ?z {d..<d + int (data_size f)}" using assms(1) by (auto simp: region_def areas_def htype_distinct2)
  have so: "same_outside {?z} m ?m" by (rule same_outside_bool) simp
  have "P ?m" by (rule assms(10) [OF same_outside_agree [OF so] P]) (use z in simp)
  from takesE [OF assms(9) [unfolded value_takes_def] this l] obtain m' where
    m': "call_decoder env dec dec_noinit f d (?m, buffered (bs @ rest) left e) = Some (True, m', buffered rest (left - length bs) e)"
      "same_outside ({d..<d + int (data_size f)} \<union> L) ?m m'" "same_value m1 m' (ssub m') f d1 d" by blast
  have "load_bool m' ?z = load_bool ?m ?z"
    by (rule load_bool_agree, rule same_outside_agree [OF m'(2)]) (use z assms(7) in \<open>auto simp: reg\<close>)
  then have "items m' f d = [d]" using assms(1) by (simp add: items_def htype_distinct2)
  moreover have "same_outside (region f d \<union> L) m m'"
    by (rule same_outside_trans [OF le_same_outside [OF so] le_same_outside [OF m'(2)]]) (auto simp: reg)
  ultimately show "\<exists>m'. decode_static_field env defs dec dec_noinit wt iter (m, buffered (bs @ rest) left e) =
      Some (True, m', buffered rest (left - length bs) e) \<and> same_outside (region f d \<union> L) m m' \<and> member_upto 1 m1 m' (ssub m') f d1 d"
    using assms(1-5,8) m' by (simp add: decode_static_field_def Let_def htype_distinct2 member_upto_def)
qed

text \<open>One more item of an array.\<close>

lemma item_address:
  assumes "i < array_size f" "data_size f * array_size f < 2 ^ 32"
  shows "item_offset f i = int (i * data_size f)"
proof -
  have "data_size f * i \<le> data_size f * array_size f" using assms(1) by simp
  then have "data_size f * i < 2 ^ 32" using assms(2) by linarith
  then show ?thesis by (simp add: item_offset_def mult.commute)
qed

lemma items_apart:
  assumes "i < (j :: nat)"
  shows "{d + int (i * n)..<d + int (i * n) + int n} \<inter> {d + int (j * n)..<d + int (j * n) + int n} = {}"
proof -
  have "i * n + n \<le> j * n" using mult_le_mono1 [of "Suc i" j n] assms by simp
  then have "int (i * n + n) \<le> int (j * n)" by (simp only: of_nat_le_iff)
  then show ?thesis by (auto simp del: of_nat_mult)
qed

lemma member_upto_add:
  assumes "PB_HTYPE (type f) = PB_HTYPE_REPEATED" "member_upto j m1 m (ssub m) f d1 d" "j < length (items m1 f d1)"
    and "j < array_size f" "sorted_wrt apart (areas f d)" "value_fits f" "L \<inter> region f d = {}"
    and "same_outside ({d + size_offset f..<d + size_offset f + 4} \<union> {d + int (j * data_size f)..<d + int (j * data_size f) + int (data_size f)} \<union> L) m m'"
    and "load_size m' (d + size_offset f) = Suc j" "same_value m1 m' (ssub m') f (items m1 f d1 ! j) (d + int (j * data_size f))"
    and "\<And>m m' a b. PB_LTYPE (type f) = PB_LTYPE_SUBMESSAGE \<Longrightarrow> agree {b..<b + int (data_size f)} m m' \<Longrightarrow> ssub m a b \<Longrightarrow> ssub m' a b"
  shows "member_upto (Suc j) m1 m' (ssub m') f d1 d"
proof -
  let ?z = "d + size_offset f" and ?n = "data_size f" and ?b = "\<lambda>i. d + int (i * data_size f)"
  have rep: "items x f d = map ?b [0..<load_size x ?z]" for x using assms(1) by (simp add: items_def htype_distinct2)
  have la: "list_all2 (same_value m1 m (ssub m) f) (take j (items m1 f d1)) (items m f d)"
    using assms(1,2) by (simp add: member_upto_def htype_distinct2)
  then have j: "load_size m ?z = j" using assms(3) by (auto simp: rep dest: list_all2_lengthD)
  have old: "same_value m1 m' (ssub m') f (items m1 f d1 ! i) (?b i)" if i: "i < j" for i
  proof (rule same_value_agree)
    show "same_value m1 m (ssub m) f (items m1 f d1 ! i) (?b i)"
      using list_all2_nthD2 [OF la, of i] i j assms(3) by (simp add: rep del: of_nat_mult)
    have "?b i \<in> set (items m f d)" using i j by (auto simp: rep simp del: of_nat_mult)
    then have r: "{?b i..<?b i + int ?n} \<subseteq> region f d"
      by (rule items_inside) (use assms(1,4) j in \<open>simp_all add: rep htype_distinct2\<close>)
    have "Suc i \<le> array_size f" using i assms(4) by simp
    then have "int (i * ?n) + int ?n \<le> int (?n * array_size f)"
      using mult_le_mono1 [of "Suc i" "array_size f" ?n] by (simp add: algebra_simps flip: of_nat_add of_nat_mult)
    then have "{?b i..<?b i + int ?n} \<subseteq> {d..<d + int (?n * array_size f)}" by (auto simp del: of_nat_mult)
    moreover have "{?z..<?z + 4} \<inter> {d..<d + int (?n * array_size f)} = {}"
      by (rule parts_apart(2) [OF assms(5) _ assms(1)]) (simp add: assms(1) htype_distinct2)
    ultimately show "agree {?b i..<?b i + int ?n} m m'"
      using items_apart [OF i, of d ?n] r assms(7) by (intro same_outside_agree [OF assms(8)]) blast
    then show "ssub m' (items m1 f d1 ! i) (?b i)" if "PB_LTYPE (type f) = PB_LTYPE_SUBMESSAGE" "ssub m (items m1 f d1 ! i) (?b i)"
      by (rule assms(11) [OF that(1) _ that(2)])
  qed (rule assms(6))
  have "list_all2 (same_value m1 m' (ssub m') f) (take (Suc j) (items m1 f d1)) (items m' f d)"
    using assms(3) old assms(10) by (auto simp: list_all2_conv_all_nth rep assms(9) less_Suc_eq simp del: of_nat_mult upt_Suc)
  then show ?thesis by (simp add: member_upto_def)
qed

text \<open>An array member, and what is known of its values.\<close>

definition array_ok ::
    "(int \<Rightarrow> u8) \<Rightarrow> ((int \<Rightarrow> u8) \<Rightarrow> int \<Rightarrow> int \<Rightarrow> bool) \<Rightarrow> int set \<Rightarrow> pb_field \<Rightarrow> int \<Rightarrow> int \<Rightarrow>
     (int \<Rightarrow> 's dstate \<Rightarrow> (bool \<times> 's dstate) option) \<Rightarrow> bytes list \<Rightarrow> bool" where
  "array_ok m1 ssub L f d1 d func bss \<longleftrightarrow>
     PB_HTYPE (type f) = PB_HTYPE_REPEATED \<and> sorted_wrt apart (areas f d) \<and> value_fits f \<and> L \<inter> region f d = {} \<and>
     data_size f * array_size f < 2 ^ 32 \<and> length (items m1 f d1) \<le> array_size f \<and> length bss = length (items m1 f d1) \<and>
     (\<forall>i < length bss. value_takes (\<lambda>m. True) m1 ssub L f func (items m1 f d1 ! i) (d + int (i * data_size f)) (bss ! i)) \<and>
     (\<forall>m m' a b. PB_LTYPE (type f) = PB_LTYPE_SUBMESSAGE \<longrightarrow> agree {b..<b + int (data_size f)} m m' \<longrightarrow> ssub m a b \<longrightarrow> ssub m' a b)"

lemma array_items_less: "PB_HTYPE (type f) = PB_HTYPE_REPEATED \<Longrightarrow> length (items m f d) < 2 ^ 32"
  using load_size_less [of m "d + size_offset f"] by (simp add: items_def htype_distinct2)

lemma array_count:
  assumes "PB_HTYPE (type f) = PB_HTYPE_REPEATED" "member_upto j m1 m sub f d1 d" "j \<le> length (items m1 f d1)"
  shows "load_size m (d + size_offset f) = j"
  using assms by (auto simp: member_upto_def items_def htype_distinct2 dest: list_all2_lengthD)

lemma array_parts:
  assumes "array_ok m1 ssub L f d1 d func bss" "j < length bss"
  shows "item_offset f j = int (j * data_size f)" "Suc j < 2 ^ 32" "{d + size_offset f..<d + size_offset f + 4} \<subseteq> region f d"
    "{d + int (j * data_size f)..<d + int (j * data_size f) + int (data_size f)} \<subseteq> region f d"
    "{d + size_offset f..<d + size_offset f + 4} \<inter> {d + int (j * data_size f)..<d + int (j * data_size f) + int (data_size f)} = {}"
proof -
  let ?B = "{d + int (j * data_size f)..<d + int (j * data_size f) + int (data_size f)}"
  have ok: "PB_HTYPE (type f) = PB_HTYPE_REPEATED" "sorted_wrt apart (areas f d)" "data_size f * array_size f < 2 ^ 32"
    "length bss \<le> array_size f" "length bss < 2 ^ 32"
    using assms(1) array_items_less [of f m1 d1] by (simp_all add: array_ok_def)
  show "item_offset f j = int (j * data_size f)" by (rule item_address) (use ok assms(2) in simp_all)
  show "Suc j < 2 ^ 32" using ok(5) assms(2) by simp
  have reg: "region f d = {d..<d + int (data_size f * array_size f)} \<union> {d + size_offset f..<d + size_offset f + 4}"
    using ok(1) by (simp add: region_def areas_def htype_distinct2)
  have "Suc j \<le> array_size f" using ok(4) assms(2) by simp
  then have "int (j * data_size f) + int (data_size f) \<le> int (data_size f * array_size f)"
    using mult_le_mono1 [of "Suc j" "array_size f" "data_size f"] by (simp add: algebra_simps flip: of_nat_add of_nat_mult)
  then have B: "?B \<subseteq> {d..<d + int (data_size f * array_size f)}" by (auto simp del: of_nat_mult)
  moreover have "{d + size_offset f..<d + size_offset f + 4} \<inter> {d..<d + int (data_size f * array_size f)} = {}"
    by (rule parts_apart(2) [OF ok(2) _ ok(1)]) (simp add: ok(1) htype_distinct2)
  ultimately show "{d + size_offset f..<d + size_offset f + 4} \<inter> ?B = {}" by blast
  show "{d + size_offset f..<d + size_offset f + 4} \<subseteq> region f d" "?B \<subseteq> region f d" using B unfolding reg by blast+
qed

lemma array_add:
  assumes "array_ok m1 ssub L f d1 d func bss" "member_upto j m1 m (ssub m) f d1 d" "j < length bss"
    and "same_outside ({d + size_offset f..<d + size_offset f + 4} \<union> {d + int (j * data_size f)..<d + int (j * data_size f) + int (data_size f)} \<union> L) m m'"
    and "load_size m' (d + size_offset f) = Suc j" "same_value m1 m' (ssub m') f (items m1 f d1 ! j) (d + int (j * data_size f))"
  shows "same_outside (region f d \<union> L) m m' \<and> member_upto (Suc j) m1 m' (ssub m') f d1 d"
proof
  show "same_outside (region f d \<union> L) m m'"
    by (rule le_same_outside [OF assms(4)]) (use array_parts(3,4) [OF assms(1,3)] in blast)
  show "member_upto (Suc j) m1 m' (ssub m') f d1 d"
    using assms(1,3) by (intro member_upto_add [OF _ assms(2) _ _ _ _ _ assms(4-6)]) (auto simp: array_ok_def)
qed

text \<open>The decoder of the item with the number \<open>j\<close>, from any memory.\<close>

lemma array_item:
  assumes "array_ok m1 ssub L f d1 d func bss" "j < length bss" "length (bss ! j) \<le> left"
  obtains m' where "func (d + item_offset f j) (m, buffered (bss ! j @ rest) left e) = Some (True, m', buffered rest (left - length (bss ! j)) e)"
    "same_outside ({d + int (j * data_size f)..<d + int (j * data_size f) + int (data_size f)} \<union> L) m m'"
    "same_value m1 m' (ssub m') f (items m1 f d1 ! j) (d + int (j * data_size f))"
    "load_size m' (d + size_offset f) = load_size m (d + size_offset f)"
proof -
  let ?B = "{d + int (j * data_size f)..<d + int (j * data_size f) + int (data_size f)}"
  note parts = array_parts [OF assms(1,2)]
  have v: "value_takes (\<lambda>m. True) m1 ssub L f func (items m1 f d1 ! j) (d + int (j * data_size f)) (bss ! j)"
    using assms(1,2) by (simp add: array_ok_def del: of_nat_mult)
  from takesE [OF v [unfolded value_takes_def] TrueI assms(3), of m rest e] obtain m' where
    m': "func (d + int (j * data_size f)) (m, buffered (bss ! j @ rest) left e) = Some (True, m', buffered rest (left - length (bss ! j)) e)"
      "same_outside (?B \<union> L) m m'" "same_value m1 m' (ssub m') f (items m1 f d1 ! j) (d + int (j * data_size f))" by blast
  have "L \<inter> region f d = {}" using assms(1) by (simp add: array_ok_def)
  then have "load_size m' (d + size_offset f) = load_size m (d + size_offset f)"
    using parts(3,5) by (intro load_size_agree same_outside_agree [OF m'(2)]) blast
  with m' show ?thesis using that parts(1) by simp
qed

lemma takes_repeated_item:
  assumes "array_ok m1 ssub L f d1 d (call_decoder env dec dec_noinit f) bss" "j < length bss"
    and "cur_field iter = f" "pData iter = d" "pSize iter = d + size_offset f" "\<not> PB_LTYPE (type f) \<le> PB_LTYPE_LAST_PACKABLE"
  shows "takes (\<lambda>m. member_upto j m1 m (ssub m) f d1 d) (bss ! j) (region f d \<union> L) (decode_static_field env defs dec dec_noinit wt iter)
    (\<lambda>m. member_upto (Suc j) m1 m (ssub m) f d1 d)"
proof (rule takesI)
  fix m rest left e
  assume u: "member_upto j m1 m (ssub m) f d1 d" and l: "length (bss ! j) \<le> left"
  let ?z = "d + size_offset f"
  let ?m = "store_size m ?z (Suc j)"
  have ok: "PB_HTYPE (type f) = PB_HTYPE_REPEATED" "length bss = length (items m1 f d1)" "length bss \<le> array_size f"
    using assms(1) by (simp_all add: array_ok_def)
  note parts = array_parts [OF assms(1,2)]
  have z: "load_size m ?z = j" by (rule array_count [OF ok(1) u]) (use assms(2) ok(2) in simp)
  obtain m' where m': "call_decoder env dec dec_noinit f (d + item_offset f j) (?m, buffered (bss ! j @ rest) left e) =
      Some (True, m', buffered rest (left - length (bss ! j)) e)"
    "same_outside ({d + int (j * data_size f)..<d + int (j * data_size f) + int (data_size f)} \<union> L) ?m m'"
    "same_value m1 m' (ssub m') f (items m1 f d1 ! j) (d + int (j * data_size f))" "load_size m' ?z = load_size ?m ?z"
    by (rule array_item [OF assms(1,2) l])
  have "same_outside {?z..<?z + 4} m ?m" by (rule same_outside_size) simp
  then have so: "same_outside ({?z..<?z + 4} \<union> {d + int (j * data_size f)..<d + int (j * data_size f) + int (data_size f)} \<union> L) m m'"
    using m'(2) unfolding same_outside_def by fastforce
  have "load_size m' ?z = Suc j" using m'(4) parts(2) by simp
  note add = array_add [OF assms(1) u assms(2) so this m'(3)]
  have "decode_static_field env defs dec dec_noinit wt iter (m, buffered (bss ! j @ rest) left e) =
      call_decoder env dec dec_noinit f (d + item_offset f j) (?m, buffered (bss ! j @ rest) left e)"
    using assms(2-6) ok z by (simp add: decode_static_field_def Let_def htype_distinct2)
  then show "\<exists>m'. decode_static_field env defs dec dec_noinit wt iter (m, buffered (bss ! j @ rest) left e) =
      Some (True, m', buffered rest (left - length (bss ! j)) e) \<and> same_outside (region f d \<union> L) m m' \<and> member_upto (Suc j) m1 m' (ssub m') f d1 d"
    using m'(1) add by simp
qed

lemma packed_loop_takes:
  assumes "array_ok m1 ssub L f d1 d func bss" "cur_field iter = f" "pData iter = d" "pSize iter = d + size_offset f"
    and "\<And>i. i < length bss \<Longrightarrow> bss ! i \<noteq> []"
  shows "j \<le> length bss \<Longrightarrow> member_upto j m1 m (ssub m) f d1 d \<Longrightarrow> length (concat (drop j bss)) < k \<Longrightarrow>
    \<exists>m'. packed_loop k func iter (m, buffered (concat (drop j bss) @ rest) (length (concat (drop j bss))) e) = Some (True, m', buffered rest 0 e) \<and>
      same_outside (region f d \<union> L) m m' \<and> member_upto (length bss) m1 m' (ssub m') f d1 d"
proof (induction k arbitrary: j m)
  case (Suc k)
  let ?z = "d + size_offset f" and ?bs = "concat (drop (Suc j) bss)"
  have ok: "PB_HTYPE (type f) = PB_HTYPE_REPEATED" "length bss = length (items m1 f d1)" "length bss \<le> array_size f"
    using assms(1) by (simp_all add: array_ok_def)
  have z: "load_size m ?z = j" by (rule array_count [OF ok(1) Suc.prems(2)]) (use Suc.prems(1) ok(2) in simp)
  show ?case
  proof (cases "j = length bss")
    case True
    then show ?thesis using Suc.prems(2) by (auto simp: buffered_def)
  next
    case False
    then have j: "j < length bss" using Suc.prems(1) by simp
    have dr: "drop j bss = bss ! j # drop (Suc j) bss" using j by (simp add: Cons_nth_drop_Suc)
    have ne: "0 < length (bss ! j)" using assms(5) [OF j] by simp
    note parts = array_parts [OF assms(1) j]
    have "length (bss ! j) \<le> length (concat (drop j bss))" by (simp add: dr)
    then obtain m0 where m0: "func (d + item_offset f j) (m, buffered (bss ! j @ ?bs @ rest) (length (concat (drop j bss))) e) =
        Some (True, m0, buffered (?bs @ rest) (length (concat (drop j bss)) - length (bss ! j)) e)"
      "same_outside ({d + int (j * data_size f)..<d + int (j * data_size f) + int (data_size f)} \<union> L) m m0"
      "same_value m1 m0 (ssub m0) f (items m1 f d1 ! j) (d + int (j * data_size f))" "load_size m0 ?z = load_size m ?z"
      by (rule array_item [OF assms(1) j])
    let ?m = "store_size m0 ?z (Suc j)"
    have so0: "same_outside {?z..<?z + 4} m0 ?m" by (rule same_outside_size) simp
    then have so: "same_outside ({?z..<?z + 4} \<union> {d + int (j * data_size f)..<d + int (j * data_size f) + int (data_size f)} \<union> L) m ?m"
      using m0(2) unfolding same_outside_def by fastforce
    have ag: "agree {d + int (j * data_size f)..<d + int (j * data_size f) + int (data_size f)} m0 ?m"
      by (rule same_outside_agree [OF so0]) (use parts(5) in blast)
    have sv: "same_value m1 ?m (ssub ?m) f (items m1 f d1 ! j) (d + int (j * data_size f))"
      by (rule same_value_agree [OF m0(3) ag]) (use assms(1) ag in \<open>auto simp: array_ok_def\<close>)
    have "load_size ?m ?z = Suc j" using parts(2) by simp
    note add = array_add [OF assms(1) Suc.prems(2) j so this sv]
    have "length ?bs < k" using Suc.prems(3) ne unfolding dr concat.simps length_append by linarith
    with Suc.IH [of "Suc j" ?m] add j obtain m' where
      "packed_loop k func iter (?m, buffered (?bs @ rest) (length ?bs) e) = Some (True, m', buffered rest 0 e)"
      "same_outside (region f d \<union> L) ?m m'" "member_upto (length bss) m1 m' (ssub m') f d1 d" by auto
    moreover have "packed_loop (Suc k) func iter (m, buffered (concat (drop j bss) @ rest) (length (concat (drop j bss))) e) =
        packed_loop k func iter (?m, buffered (?bs @ rest) (length ?bs) e)"
      using m0 z ne j ok(3) assms(2-4) by (simp add: dr then_enc_def inp_buffered)
    ultimately show ?thesis using same_outside_trans [OF conjunct1 [OF add]] by auto
  qed
qed simp

lemma takes_packed:
  assumes "array_ok m1 ssub L f d1 d (call_decoder env dec dec_noinit f) bss"
    and "cur_field iter = f" "pData iter = d" "pSize iter = d + size_offset f" "PB_LTYPE (type f) \<le> PB_LTYPE_LAST_PACKABLE"
    and "\<And>i. i < length bss \<Longrightarrow> bss ! i \<noteq> []" "length (concat bss) < 2 ^ 32"
  shows "takes (\<lambda>m. member_upto 0 m1 m (ssub m) f d1 d) (varint (length (concat bss)) @ concat bss) (region f d \<union> L)
    (decode_static_field env defs dec dec_noinit PB_WT_STRING iter :: 's dstate \<Rightarrow> _) (\<lambda>m. member_upto (length bss) m1 m (ssub m) f d1 d)"
proof (rule takesI)
  fix m rest left e
  let ?v = "concat bss" and ?func = "call_decoder env dec dec_noinit f"
  assume u: "member_upto 0 m1 m (ssub m) f d1 d" and l: "length (varint (length ?v) @ ?v) \<le> left"
  let ?l = "left - length (varint (length ?v))"
  have rep: "PB_HTYPE (type f) = PB_HTYPE_REPEATED" using assms(1) by (simp add: array_ok_def)
  have n: "unat (of_nat (length ?v) :: u32) = length ?v" using assms(7) by (rule unat_of_nat_u32)
  have d: "pb_decode_varint32 (buffered (varint (length ?v) @ ?v @ rest) left e :: 's pb_istream) = (Some (of_nat (length ?v)), buffered (?v @ rest) ?l e)"
    by (rule decode_varint32) (use assms(7) l in simp_all)
  have mk: "pb_make_string_substream (buffered (varint (length ?v) @ ?v @ rest) left e :: 's pb_istream) =
      (Some (buffered (?v @ rest) (length ?v) e), buffered (?v @ rest) (?l - length ?v) e)"
    using l by (simp add: pb_make_string_substream_def d n) (simp add: buffered_def)
  have c: "pb_close_string_substream (buffered (?v @ rest) n e) (buffered rest 0 e) = (True, buffered rest n e :: 's pb_istream)" for n
    by (simp add: pb_close_string_substream_def buffered_def)
  obtain m' where m': "packed_loop (Suc (length ?v)) ?func iter (m, buffered (?v @ rest) (length ?v) e) = Some (True, m', buffered rest 0 e)"
    "same_outside (region f d \<union> L) m m'" "member_upto (length bss) m1 m' (ssub m') f d1 d"
    using packed_loop_takes [OF assms(1-4,6), of 0 m "Suc (length ?v)" rest e] u by auto
  have "decode_static_field env defs dec dec_noinit PB_WT_STRING iter (m, buffered (varint (length ?v) @ ?v @ rest) left e) =
      Some (True, m', buffered rest (?l - length ?v) e)"
    using assms(2-5) rep m'(1) by (simp add: decode_static_field_def Let_def htype_distinct2 mk inp_buffered c del: packed_loop.simps)
  then show "\<exists>m'. decode_static_field env defs dec dec_noinit PB_WT_STRING iter (m, buffered ((varint (length ?v) @ ?v) @ rest) left e) =
      Some (True, m', buffered rest (left - length (varint (length ?v) @ ?v)) e) \<and> same_outside (region f d \<union> L) m m' \<and>
      member_upto (length bss) m1 m' (ssub m') f d1 d"
    using m' by simp
qed

end
