(* ===== verification/Pb_Steps.thy ===== *)
theory Pb_Steps
  imports Pb_Members
begin

text \<open>
  The main loop of \<open>pb_decode_noinit\<close> on what the encoder of a message writes: one tag and value per
  iteration, the fields in the order of their descriptors, and the checks at the end.
\<close>

section \<open>The state of the loop\<close>

text \<open>The number of required fields before the field \<open>k\<close>; the bitmap in which the first \<open>r\<close> are seen.\<close>

definition required_before :: "pb_field list \<Rightarrow> nat \<Rightarrow> nat" where
  "required_before fs k = length (filter (\<lambda>i. PB_HTYPE (type (fs ! i)) = PB_HTYPE_REQUIRED) [0..<k])"

definition seen_upto :: "nat \<Rightarrow> u32 list \<Rightarrow> bool" where
  "seen_upto r seen \<longleftrightarrow> length seen = 2 \<and> (\<forall>i < 64. bit (seen ! (i div 32)) (i mod 32) \<longleftrightarrow> i < r)"

definition vars_ok :: "pb_field list \<Rightarrow> int \<Rightarrow> nat \<Rightarrow> noinit_vars \<Rightarrow> bool" where
  "vars_ok fs dest r v \<longleftrightarrow>
     (\<exists>i < num_fields fs. d_iter v = iter_at fs dest i) \<and> fixed_count_field v = None \<and> seen_upto r (fields_seen v)"

text \<open>
  The loop consumes \<open>bs\<close>, in at most as many iterations as there are bytes: it goes from a state in which
  \<open>r\<close> required fields are seen to one in which \<open>r'\<close> are.
\<close>

definition consumes ::
    "(u32 \<Rightarrow> pb_wire_type \<Rightarrow> noinit_vars \<times> 's dstate \<Rightarrow> (bool \<times> noinit_vars \<times> 's dstate) option) \<Rightarrow> pb_field list \<Rightarrow> int \<Rightarrow>
     nat \<Rightarrow> nat \<Rightarrow> ((int \<Rightarrow> u8) \<Rightarrow> bool) \<Rightarrow> bytes \<Rightarrow> int set \<Rightarrow> ((int \<Rightarrow> u8) \<Rightarrow> bool) \<Rightarrow> bool" where
  "consumes step fs dest r r' P bs R Q \<longleftrightarrow>
     (\<forall>v m rest left e. vars_ok fs dest r v \<longrightarrow> P m \<longrightarrow> length bs \<le> left \<longrightarrow>
        (\<exists>j v' m'. j \<le> length bs \<and>
           (\<forall>fuel. noinit_loop (j + fuel) step (v, m, buffered (bs @ rest) left e) =
              noinit_loop fuel step (v', m', buffered rest (left - length bs) e)) \<and>
           vars_ok fs dest r' v' \<and> same_outside R m m' \<and> Q m'))"

lemma consumesI:
  assumes "\<And>v m rest left e. vars_ok fs dest r v \<Longrightarrow> P m \<Longrightarrow> length bs \<le> left \<Longrightarrow>
     \<exists>j v' m'. j \<le> length bs \<and>
       (\<forall>fuel. noinit_loop (j + fuel) step (v, m, buffered (bs @ rest) left e) =
          noinit_loop fuel step (v', m', buffered rest (left - length bs) e)) \<and>
       vars_ok fs dest r' v' \<and> same_outside R m m' \<and> Q m'"
  shows "consumes step fs dest r r' P bs R Q"
  using assms unfolding consumes_def by blast

lemma consumesE:
  assumes "consumes step fs dest r r' P bs R Q" "vars_ok fs dest r v" "P m" "length bs \<le> left"
  obtains j v' m' where "j \<le> length bs"
    "\<forall>fuel. noinit_loop (j + fuel) step (v, m, buffered (bs @ rest) left e) =
       noinit_loop fuel step (v', m', buffered rest (left - length bs) e)"
    "vars_ok fs dest r' v'" "same_outside R m m'" "Q m'"
  using assms unfolding consumes_def by blast

lemma consumes_Nil: "(\<And>m. P m \<Longrightarrow> Q m) \<Longrightarrow> consumes step fs dest r r P [] R Q"
  by (rule consumesI) (use same_outside_refl in fastforce)

lemma consumes_append:
  assumes "consumes step fs dest r1 r2 P1 bs1 R P2" "consumes step fs dest r2 r3 P2 bs2 R P3"
  shows "consumes step fs dest r1 r3 P1 (bs1 @ bs2) R P3"
proof (rule consumesI)
  fix v m rest left e
  assume v: "vars_ok fs dest r1 v" "P1 m" "length (bs1 @ bs2) \<le> left"
  let ?left = "left - length bs1"
  have l: "length bs1 \<le> left" "length bs2 \<le> ?left" using v(3) by simp_all
  obtain j1 v1 m1 where 1: "j1 \<le> length bs1"
    "\<forall>fuel. noinit_loop (j1 + fuel) step (v, m, buffered (bs1 @ bs2 @ rest) left e) = noinit_loop fuel step (v1, m1, buffered (bs2 @ rest) ?left e)"
    "vars_ok fs dest r2 v1" "same_outside R m m1" "P2 m1"
    by (rule consumesE [OF assms(1) v(1,2) l(1), where rest = "bs2 @ rest" and e = e])
  obtain j2 v2 m2 where 2: "j2 \<le> length bs2"
    "\<forall>fuel. noinit_loop (j2 + fuel) step (v1, m1, buffered (bs2 @ rest) ?left e) = noinit_loop fuel step (v2, m2, buffered rest (?left - length bs2) e)"
    "vars_ok fs dest r3 v2" "same_outside R m1 m2" "P3 m2"
    by (rule consumesE [OF assms(2) 1(3,5) l(2), where rest = rest and e = e])
  have "noinit_loop (j1 + j2 + fuel) step (v, m, buffered (bs1 @ bs2 @ rest) left e) =
      noinit_loop fuel step (v2, m2, buffered rest (left - (length bs1 + length bs2)) e)" for fuel
    using 1(2) [rule_format, of "j2 + fuel"] 2(2) [rule_format, of fuel] by (simp add: add.assoc)
  then show "\<exists>j v' m'. j \<le> length (bs1 @ bs2) \<and>
      (\<forall>fuel. noinit_loop (j + fuel) step (v, m, buffered ((bs1 @ bs2) @ rest) left e) =
        noinit_loop fuel step (v', m', buffered rest (left - length (bs1 @ bs2)) e)) \<and>
      vars_ok fs dest r3 v' \<and> same_outside R m m' \<and> P3 m'"
    using 1(1) 2(1,3,5) same_outside_trans [OF 1(4) 2(4)]
    by (intro exI [of _ "j1 + j2"] exI [of _ v2] exI [of _ m2]) simp
qed

lemma consumes_post: "consumes step fs dest r r' P bs R Q \<Longrightarrow> (\<And>m. Q m \<Longrightarrow> Q' m) \<Longrightarrow> consumes step fs dest r r' P bs R Q'"
  unfolding consumes_def by meson

lemma consumes_pre: "consumes step fs dest r r' P bs R Q \<Longrightarrow> (\<And>m. P' m \<Longrightarrow> P m) \<Longrightarrow> consumes step fs dest r r' P' bs R Q"
  unfolding consumes_def by meson

text \<open>What holds of other parts of the memory holds afterwards.\<close>

lemma consumes_frame:
  assumes "consumes step fs dest r r' P bs A Q" "A \<subseteq> R" "\<And>m m'. same_outside A m m' \<Longrightarrow> F m \<Longrightarrow> F m'"
  shows "consumes step fs dest r r' (\<lambda>m. P m \<and> F m) bs R (\<lambda>m. Q m \<and> F m)"
  using assms le_same_outside [OF _ assms(2)] unfolding consumes_def by meson

section \<open>One field\<close>

lemma seen_set:
  assumes "seen_upto r seen" "r < 64"
  shows "seen_upto (Suc r) (seen[r div 32 := seen ! (r div 32) OR push_bit (r mod 32) 1])"
proof -
  have l: "length seen = 2" "r div 32 < 2" using assms by (simp_all add: seen_upto_def)
  have "bit (seen[r div 32 := seen ! (r div 32) OR push_bit (r mod 32) 1] ! (i div 32)) (i mod 32) \<longleftrightarrow> i < Suc r" if i: "i < 64" for i
  proof (cases "i div 32 = r div 32")
    case True
    then have "i mod 32 = r mod 32 \<longleftrightarrow> i = r" by (metis div_mult_mod_eq)
    then show ?thesis using assms(1) i l True by (auto simp: seen_upto_def bit_simps less_Suc_eq)
  next
    case False
    then show ?thesis using assms(1) i l by (auto simp: seen_upto_def less_Suc_eq)
  qed
  then show ?thesis using l by (simp add: seen_upto_def)
qed

lemma seen_more: "seen_upto r seen \<Longrightarrow> 64 \<le> r \<Longrightarrow> seen_upto (Suc r) seen"
  by (simp add: seen_upto_def)

lemma find_by_tag:
  assumes "regular (Suc n) descs sz fs" "i < num_fields fs" "k < num_fields fs"
  shows "pb_field_iter_find (iter_at fs dest i) (tag (fs ! k)) = Some (True, iter_at fs dest k)"
proof -
  note wf = regular_wf [OF assms(1)]
  have d: "distinct (map tag fs)" using assms(1) by (simp add: regular.simps)
  have len: "j < length fs" if "j < num_fields fs" for j using that by (simp add: num_fields_def)
  have ext: "PB_LTYPE (type (fs ! k)) \<noteq> PB_LTYPE_EXTENSION" by (rule value_fits_no_extension [OF regular_fits [OF assms(1,3)]])
  have w: "wanted fs (tag (fs ! k)) j \<longleftrightarrow> j = k" if "j < num_fields fs" for j
    using nth_eq_iff_index_eq [OF d, of j k] len [OF that] len [OF assms(3)] ext by (auto simp: wanted_def)
  have "List.find (wanted fs (tag (fs ! k))) (visit_order (num_fields fs) i 0) = Some k"
  proof (cases "List.find (wanted fs (tag (fs ! k))) (visit_order (num_fields fs) i 0)")
    case None
    then show ?thesis using set_visit_order [OF assms(2)] w [OF assms(3)] assms(3) by (auto simp: find_None_iff)
  next
    case (Some j)
    then have "wanted fs (tag (fs ! k)) j" "j \<in> set (visit_order (num_fields fs) i 0)" by (auto simp: find_Some_iff)
    then show ?thesis using Some set_visit_order [OF assms(2)] w by auto
  qed
  then show ?thesis by (simp add: pb_field_iter_find_law [OF wf assms(2)])
qed


lemma iter_at_required:
  assumes "regular (Suc n) descs sz fs" "k < num_fields fs"
  shows "required_field_index (iter_at fs dest k) = required_before fs k"
  using required_index [OF assms] by (simp add: required_before_def)

lemma tag_bytes_nonempty: "0 < length (tag_bytes t w)"
  unfolding tag_bytes_def by (rule varint_nonempty)

text \<open>One iteration: the tag is found, and the decoder of the field takes the value.\<close>

lemma consumes_tagged:
  fixes env :: "'s pb_denv"
  assumes "regular (Suc n) descs sz fs" "k < num_fields fs"
    and "takes P bs R (decode_static_field env defs dec dec_noinit (wire_of w) (iter_at fs dest k)) Q"
    and "PB_HTYPE (type (fs ! k)) = PB_HTYPE_REQUIRED \<Longrightarrow> r = required_before fs k"
  shows "consumes (noinit_step l (decode_field N env defs dec dec_noinit) ext) fs dest
    r (if PB_HTYPE (type (fs ! k)) = PB_HTYPE_REQUIRED then Suc r else r) P (tag_bytes (tag (fs ! k)) w @ bs) R Q"
proof (rule consumesI)
  fix v m rest left e
  let ?f = "fs ! k" and ?it = "iter_at fs dest k" and ?step = "noinit_step l (decode_field N env defs dec dec_noinit) ext"
    and ?left = "left - length (tag_bytes (tag (fs ! k)) w)"
  let ?v = "see_required (v\<lparr>d_iter := ?it\<rparr>)" and ?req = "PB_HTYPE (type (fs ! k)) = PB_HTYPE_REQUIRED"
  assume v: "vars_ok fs dest r v" "P m" "length (tag_bytes (tag ?f) w @ bs) \<le> left"
  note wf = regular_wf [OF assms(1)]
  have rf: "regular_field sz ?f (pData (iter_at fs 0 k))" by (rule regularD(1) [OF assms(1,2)])
  obtain i where i: "i < num_fields fs" "d_iter v = iter_at fs dest i" "fixed_count_field v = None" "seen_upto r (fields_seen v)"
    using v(1) by (auto simp: vars_ok_def)
  have cur: "cur_field ?it = ?f" by (rule iter_at_field [OF wf assms(2)])
  obtain m' where m': "decode_static_field env defs dec dec_noinit (wire_of w) ?it (m, buffered (bs @ rest) ?left e) =
      Some (True, m', buffered rest (?left - length bs) e)" "same_outside R m m'" "Q m'"
    by (rule takesE [OF assms(3) v(2), of ?left rest e]) (use v(3) in simp)
  have t: "0 < unat (tag ?f)" "unat (tag ?f) < 2 ^ 29"
    using fields_wf_tag [OF wf, of k] assms(2) rf by (simp_all add: regular_field_def unat_gt_0)
  have dt: "pb_decode_tag (buffered (tag_bytes (tag ?f) w @ bs @ rest) left e :: 's pb_istream) = ((Some (wire_of w, tag ?f), False), buffered (bs @ rest) ?left e)"
    by (rule decode_tag [OF t]) (use v(3) in simp)
  have df: "decode_field N env defs dec dec_noinit (wire_of w) ?it (m, buffered (bs @ rest) ?left e) =
      Some (True, ?it, m', buffered rest (?left - length bs) e)"
    using m'(1) rf by (simp add: decode_field_def cur regular_field_def member_inside_def)
  have nf: "\<not> (PB_HTYPE (type ?f) = PB_HTYPE_REPEATED \<and> pSize ?it = pData ?it)"
    using rf by (auto simp: iter_at_pSize [OF assms(1,2)] regular_field_def htype_distinct2)
  have it: "d_iter ?v = ?it" "fixed_count_field ?v = None" using i(3) by (simp_all add: see_required_def Let_def)
  have "?step (tag ?f) (wire_of w) (v, m, buffered (bs @ rest) ?left e) = Some (True, ?v\<lparr>d_iter := ?it\<rparr>, m', buffered rest (?left - length bs) e)"
    using find_by_tag [OF assms(1) i(1) assms(2), of dest] df nf it(1)
    by (cases "PB_HTYPE (type ?f) = PB_HTYPE_REPEATED") (simp_all add: noinit_step_def i(2) known_field_def cur Let_def)
  moreover have "?v\<lparr>d_iter := ?it\<rparr> = ?v" by (simp add: see_required_def Let_def)
  moreover have "0 < left" using v(3) tag_bytes_nonempty [of "tag ?f" w] unfolding length_append by linarith
  ultimately have loop: "noinit_loop (1 + fuel) ?step (v, m, buffered ((tag_bytes (tag ?f) w @ bs) @ rest) left e) =
      noinit_loop fuel ?step (?v, m', buffered rest (left - length (tag_bytes (tag ?f) w @ bs)) e)" for fuel
    using dt by (simp add: then_enc_def inp_buffered)
  have "seen_upto (if ?req then Suc r else r) (fields_seen ?v)"
    using i(4) seen_set [OF i(4)] seen_more [OF i(4)] assms(4) iter_at_required [OF assms(1,2), of dest]
    by (auto simp: see_required_def Let_def cur PB_MAX_REQUIRED_FIELDS_def)
  then have "vars_ok fs dest (if ?req then Suc r else r) ?v" using it assms(2) by (auto simp: vars_ok_def)
  moreover have "1 \<le> length (tag_bytes (tag ?f) w @ bs)"
    using tag_bytes_nonempty [of "tag ?f" w] unfolding length_append by linarith
  ultimately show "\<exists>j v' m'. j \<le> length (tag_bytes (tag ?f) w @ bs) \<and>
      (\<forall>fuel. noinit_loop (j + fuel) ?step (v, m, buffered ((tag_bytes (tag ?f) w @ bs) @ rest) left e) =
         noinit_loop fuel ?step (v', m', buffered rest (left - length (tag_bytes (tag ?f) w @ bs)) e)) \<and>
      vars_ok fs dest (if ?req then Suc r else r) v' \<and> same_outside R m m' \<and> Q m'"
    using loop m'(2,3) by blast
qed

section \<open>The end of the message\<close>

lemma last_field_at:
  assumes "fields_wf fs"
  shows "i < num_fields fs \<Longrightarrow> num_fields fs \<le> k + i \<Longrightarrow>
    last_field_loop k (iter_at fs dest i) =
      Some (required_field_index (iter_at fs dest (num_fields fs - 1)), type (fs ! (num_fields fs - 1)), iter_at fs dest 0)"
proof (induction k arbitrary: i)
  case (Suc k)
  note nx = iter_next_at [OF assms Suc.prems(1), of dest]
  show ?case
  proof (cases "i + 1 < num_fields fs")
    case True
    then show ?thesis using Suc.IH [of "Suc i"] Suc.prems nx by simp
  next
    case False
    then have "i = num_fields fs - 1" using Suc.prems(1) by simp
    then show ?thesis using nx iter_at_field [OF assms Suc.prems(1), of dest] Suc.prems(1) by simp
  qed
qed simp

lemma seen_required_ok:
  assumes "seen_upto r seen"
  shows "required_ok seen (min 64 r)"
proof -
  let ?c = "min 64 r"
  have b: "bit (seen ! q) i \<longleftrightarrow> q * 32 + i < r" if "i < 32" "q < 2" for q i
  proof -
    have "(q * 32 + i) div 32 = q" "(q * 32 + i) mod 32 = i" "q * 32 + i < 64" using that by simp_all
    then show ?thesis using assms unfolding seen_upto_def by metis
  qed
  have "seen ! q = - 1" if "q < ?c div 32" for q
  proof (rule bit_word_eqI)
    fix i assume "i < LENGTH(32)"
    then show "bit (seen ! q) i \<longleftrightarrow> bit (- 1 :: u32) i" using b [of i q] that by simp
  qed
  moreover have "seen ! (?c div 32) = drop_bit (32 - ?c mod 32) (- 1)" if "?c mod 32 \<noteq> 0"
  proof (rule bit_word_eqI)
    fix i assume i: "i < LENGTH(32)"
    have "?c \<noteq> 64" using that by auto
    then have "?c < 64" by (simp add: min_def split: if_splits)
    then have c: "?c div 32 < 2" "?c = ?c div 32 * 32 + ?c mod 32" "?c = r" by (auto simp: min_def)
    from c(2,3) have "?c div 32 * 32 + i < r \<longleftrightarrow> i < ?c mod 32" by linarith
    moreover have "bit (drop_bit (32 - ?c mod 32) (- 1) :: u32) i \<longleftrightarrow> i < ?c mod 32" using i by (auto simp: bit_simps)
    ultimately show "bit (seen ! (?c div 32)) i \<longleftrightarrow> bit (drop_bit (32 - ?c mod 32) (- 1) :: u32) i"
      using b [OF _ c(1), of i] i by simp
  qed
  ultimately show ?thesis by (simp add: required_ok_def list_all_iff)
qed

lemma final_checks_pass:
  assumes "regular (Suc n) descs sz fs" "vars_ok fs dest (required_before fs (num_fields fs)) v"
  shows "final_checks l v st = Some (True, st)"
proof -
  note wf = regular_wf [OF assms(1)]
  obtain i where i: "i < num_fields fs" "d_iter v = iter_at fs dest i" "fixed_count_field v = None"
    "seen_upto (required_before fs (num_fields fs)) (fields_seen v)"
    using assms(2) by (auto simp: vars_ok_def)
  have len: "num_fields fs \<le> length fs" by (simp add: num_fields_def)
  obtain k where k: "num_fields fs = Suc k" using i(1) by (cases "num_fields fs") auto
  have st: "start (iter_at fs dest i) = fs" "tag (cur_field (iter_at fs dest 0)) \<noteq> 0"
    using iter_at_static [OF wf i(1), of dest] iter_at_field [OF wf, of 0 dest] fields_wf_tag [OF wf, of 0] k by simp_all
  have "last_field_loop (length fs) (iter_at fs dest i) = Some (required_before fs k, type (fs ! k), iter_at fs dest 0)"
    using last_field_at [OF wf i(1), of "length fs" dest, unfolded k] iter_at_required [OF assms(1), of k dest] k i(1) len by simp
  moreover have "required_before fs (Suc k) = (if PB_HTYPE (type (fs ! k)) = PB_HTYPE_REQUIRED then required_before fs k + 1 else required_before fs k)"
    by (simp add: required_before_def)
  moreover have "required_ok (fields_seen v) (min 64 (required_before fs (Suc k)))" using seen_required_ok [OF i(4)] by (simp add: k)
  ultimately show ?thesis
    using i(2,3) st by (cases st) (auto simp: final_checks_def fixed_count_ok_def PB_MAX_REQUIRED_FIELDS_def Let_def min_def split: if_splits)
qed

lemma takes_noinit:
  fixes df :: "'s field_decoder"
  assumes "regular (Suc n) descs sz fs"
    and "consumes (noinit_step l df ext) fs dest 0 (required_before fs (num_fields fs)) P bs R Q"
    and "{l..<l + 4} \<subseteq> R" "\<And>m. P' m \<Longrightarrow> P (store_size m l 0)"
  shows "takes_all P' bs R (noinit_message l df ext fs dest) Q"
  unfolding takes_all_def
proof (intro allI impI)
  fix m rest e
  assume "P' m"
  let ?m = "store_size m l 0"
  let ?v = "\<lparr>d_iter = snd (pb_field_iter_begin fs dest), fields_seen = [0, 0], extension_range_start = 0, fixed_count_field = None\<rparr>"
  note wf = regular_wf [OF assms(1)]
  have "0 < num_fields fs" using wf by (auto simp: num_fields_def fields_wf_def)
  moreover have "seen_upto 0 [0, 0]" by (simp add: seen_upto_def nth_Cons' bit_simps)
  ultimately have v: "vars_ok fs dest 0 ?v" by (auto simp: vars_ok_def iter_begin_wf [OF wf])
  obtain j v' m' where c: "j \<le> length bs"
    "\<forall>fuel. noinit_loop (j + fuel) (noinit_step l df ext) (?v, ?m, buffered (bs @ rest) (length bs) e) =
       noinit_loop fuel (noinit_step l df ext) (v', m', buffered rest (length bs - length bs) e)"
    "vars_ok fs dest (required_before fs (num_fields fs)) v'" "same_outside R ?m m'" "Q m'"
    by (rule consumesE [OF assms(2) v assms(4) [OF \<open>P' m\<close>] order_refl, where rest = rest and e = e])
  have "j + Suc (length bs - j) = Suc (length bs)" using c(1) by simp
  then have "noinit_loop (Suc (length bs)) (noinit_step l df ext) (?v, ?m, buffered (bs @ rest) (length bs) e) = Some (True, v', m', buffered rest 0 e)"
    using c(2) [rule_format, of "Suc (length bs - j)"] by (simp add: inp_buffered del: noinit_loop.simps) (simp add: inp_buffered)
  then have "noinit_message l df ext fs dest (m, buffered (bs @ rest) (length bs) e) = Some (True, m', buffered rest 0 e)"
    using final_checks_pass [OF assms(1) c(3)] by (simp add: noinit_message_def inp_buffered del: noinit_loop.simps)
  moreover have "same_outside R m m'"
    by (rule same_outside_trans [OF same_outside_size c(4)]) (rule assms(3))
  ultimately show "\<exists>m'. noinit_message l df ext fs dest (m, buffered (bs @ rest) (length bs) e) = Some (True, m', buffered rest 0 e) \<and>
      same_outside R m m' \<and> Q m'"
    using c(5) by blast
qed

end
