(* ===== verification/Pb_Fields.thy ===== *)
theory Pb_Fields
  imports Pb_Steps
begin

text \<open>
  The main loop of \<open>pb_decode_noinit\<close> on what the encoder of a field writes: single values, arrays
  item by item and packed arrays.
\<close>

lemma all_spec_out:
  assumes "all_spec (map g xs) = Some (bs, None)"
  shows "bs = concat (map (\<lambda>x. fst (the (g x))) xs) \<and> (\<forall>x \<in> set xs. g x = Some (fst (the (g x)), None))"
  using assms
proof (induction xs arbitrary: bs)
  case (Cons x xs)
  then obtain b1 b2 where b: "g x = Some (b1, None)" "all_spec (map g xs) = Some (b2, None)" "bs = b1 @ b2" by (auto simp: then_spec_ok)
  with Cons.IH [OF b(2)] show ?case by simp
qed simp

lemma tagged_out_ok:
  assumes "tagged_out env sub f a = Some (bs, None)"
  obtains w b where "value_out env sub f a = Some (b, None)" "bs = tag_bytes (tag f) w @ b"
proof -
  obtain b1 b2 where b: "field_tag_out f = (b1, None)" "value_out env sub f a = Some (b2, None)" "bs = b1 @ b2"
    using assms by (auto simp: tagged_out_def then_spec_ok)
  from value_at_law [OF b(2)] b(1) have "b1 = tag_bytes (tag f) (value_at env sub f a)"
    by (simp add: field_tag_out_def tag_out_def tag_bytes_def)
  then show ?thesis using that b(2,3) by blast
qed

text \<open>One tagged value.\<close>

lemma consumes_value:
  fixes env :: "'s pb_denv"
  assumes "regular (Suc n) descs sz fs" "k < num_fields fs" "tagged_out eenv sub (fs ! k) a = Some (bs, None)" "length bs < 2 ^ 32"
    and "\<And>b wt. value_out eenv sub (fs ! k) a = Some (b, None) \<Longrightarrow> length b < 2 ^ 32 \<Longrightarrow>
      takes P b R (decode_static_field env defs dec dec_noinit wt (iter_at fs dest k)) Q"
    and "PB_HTYPE (type (fs ! k)) = PB_HTYPE_REQUIRED \<Longrightarrow> r = required_before fs k"
  shows "consumes (noinit_step l (decode_field N env defs dec dec_noinit) ext) fs dest
    r (if PB_HTYPE (type (fs ! k)) = PB_HTYPE_REQUIRED then Suc r else r) P bs R Q"
proof -
  obtain w b where b: "value_out eenv sub (fs ! k) a = Some (b, None)" "bs = tag_bytes (tag (fs ! k)) w @ b"
    by (rule tagged_out_ok [OF assms(3)])
  have "length b < 2 ^ 32" using assms(4) b(2) by simp
  from consumes_tagged [OF assms(1,2) assms(5) [OF b(1) this] assms(6)] show ?thesis by (simp add: b(2))
qed

text \<open>The values of an array, one after the other.\<close>

lemma consumes_items:
  fixes env :: "'s pb_denv"
  assumes "regular (Suc n) descs sz fs" "k < num_fields fs" "f = fs ! k" "d = pData (iter_at fs dest k)"
    and "array_ok m1 ssub L f d1 d (call_decoder env dec dec_noinit f) vs" "\<not> PB_LTYPE (type f) \<le> PB_LTYPE_LAST_PACKABLE"
    and "length bss = length vs" "length (concat bss) < 2 ^ 32"
    and "\<And>i. i < length vs \<Longrightarrow> tagged_out eenv sub f (items m1 f d1 ! i) = Some (bss ! i, None)"
    and "\<And>i. i < length vs \<Longrightarrow> value_out eenv sub f (items m1 f d1 ! i) = Some (vs ! i, None)"
  shows "j \<le> length vs \<Longrightarrow> consumes (noinit_step l (decode_field N env defs dec dec_noinit) ext) fs dest r r
    (\<lambda>m. member_upto j m1 m (ssub m) f d1 d) (concat (drop j bss)) (region f d \<union> L) (\<lambda>m. member_upto (length vs) m1 m (ssub m) f d1 d)"
proof (induction "length vs - j" arbitrary: j)
  case 0
  then show ?case using assms(7) by (simp add: consumes_Nil)
next
  case (Suc x)
  then have j: "j < length vs" "x = length vs - Suc j" by simp_all
  have rep: "PB_HTYPE (type f) = PB_HTYPE_REPEATED" using assms(5) by (simp add: array_ok_def)
  have dr: "concat (drop j bss) = bss ! j @ concat (drop (Suc j) bss)" using j(1) assms(7) by (simp add: Cons_nth_drop_Suc [symmetric])
  have "length (concat bss) = length (concat (take j bss)) + length (concat (drop j bss))"
    by (simp only: length_append [symmetric] concat_append [symmetric] append_take_drop_id)
  then have len: "length (bss ! j) < 2 ^ 32" using assms(8) unfolding dr by simp
  have "consumes (noinit_step l (decode_field N env defs dec dec_noinit) ext) fs dest r
      (if PB_HTYPE (type (fs ! k)) = PB_HTYPE_REQUIRED then Suc r else r)
      (\<lambda>m. member_upto j m1 m (ssub m) f d1 d) (bss ! j) (region f d \<union> L) (\<lambda>m. member_upto (Suc j) m1 m (ssub m) f d1 d)"
  proof (rule consumes_value [OF assms(1,2) assms(9) [OF j(1), unfolded assms(3)] len])
    fix b wt
    assume "value_out eenv sub (fs ! k) (items m1 (fs ! k) d1 ! j) = Some (b, None)"
    then have b: "b = vs ! j" using assms(10) [OF j(1)] assms(3) by simp
    show "takes (\<lambda>m. member_upto j m1 m (ssub m) f d1 d) b (region f d \<union> L)
        (decode_static_field env defs dec dec_noinit wt (iter_at fs dest k)) (\<lambda>m. member_upto (Suc j) m1 m (ssub m) f d1 d)"
      unfolding b
      by (rule takes_repeated_item [OF assms(5) j(1) _ _ _ assms(6)])
        (use iter_at_field [OF regular_wf [OF assms(1)] assms(2)] iter_at_pSize [OF assms(1,2)] assms(3,4) in simp_all)
  qed (use rep assms(3) in \<open>simp add: htype_distinct2\<close>)
  then have "consumes (noinit_step l (decode_field N env defs dec dec_noinit) ext) fs dest r r
      (\<lambda>m. member_upto j m1 m (ssub m) f d1 d) (bss ! j) (region f d \<union> L) (\<lambda>m. member_upto (Suc j) m1 m (ssub m) f d1 d)"
    using rep assms(3) by (simp add: htype_distinct2)
  from consumes_append [OF this Suc.hyps(1) [OF j(2) Suc_leI [OF j(1)]]] show ?case unfolding dr .
qed

lemma packable_nonempty:
  assumes "value_out eenv sub f a = Some (b, None)" "PB_LTYPE (type f) \<le> PB_LTYPE_LAST_PACKABLE"
  shows "b \<noteq> []"
proof -
  have v: "varint x \<noteq> []" for x using varint_nonempty [of x] by simp
  have l: "load m x 4 \<noteq> []" "load m x 8 \<noteq> []" for m x using length_load [of m x 4] length_load [of m x 8] by fastforce+
  show ?thesis
    using value_out_ltypes [OF assms(1)] assms(2) unfolding insert_iff empty_iff
    by (elim disjE; (use assms(1) v l in \<open>auto simp: Let_def value_out_def ltype_defs int_out_def fail_out_def PB_LTYPE_LAST_PACKABLE_def
        split: option.splits if_splits\<close>)?)
qed

text \<open>What the values of a field \<open>f\<close> are known to do: their decoder takes each of them, where it belongs.\<close>

definition field_takes ::
    "'e pb_env \<Rightarrow> submessage_out \<Rightarrow> ((int \<Rightarrow> u8) \<Rightarrow> int \<Rightarrow> int \<Rightarrow> bool) \<Rightarrow> ((int \<Rightarrow> u8) \<Rightarrow> int \<Rightarrow> bool) \<Rightarrow> int set \<Rightarrow> pb_field \<Rightarrow> int \<Rightarrow> int \<Rightarrow>
     (int \<Rightarrow> 's dstate \<Rightarrow> (bool \<times> 's dstate) option) \<Rightarrow> bool" where
  "field_takes eenv sub ssub bl L f d1 d func \<longleftrightarrow> L \<inter> region f d = {} \<and>
     (\<forall>a b v. a \<in> set (items (memory eenv) f d1) \<longrightarrow> {b..<b + int (data_size f)} \<subseteq> region f d \<longrightarrow>
        value_out eenv sub f a = Some (v, None) \<longrightarrow> length v < 2 ^ 32 \<longrightarrow>
        value_takes (\<lambda>m. PB_LTYPE (type f) = PB_LTYPE_SUBMESSAGE \<and> PB_HTYPE (type f) \<noteq> PB_HTYPE_REPEATED \<longrightarrow> bl m b)
          (memory eenv) ssub L f func a b v) \<and>
     (\<forall>m m' b. PB_LTYPE (type f) = PB_LTYPE_SUBMESSAGE \<longrightarrow> agree {b..<b + int (data_size f)} m m' \<longrightarrow>
        (bl m b \<longrightarrow> bl m' b) \<and> (\<forall>a. ssub m a b \<longrightarrow> ssub m' a b))"

abbreviation value_bytes :: "'e pb_env \<Rightarrow> submessage_out \<Rightarrow> pb_field \<Rightarrow> int \<Rightarrow> bytes" where
  "value_bytes eenv sub f a \<equiv> fst (the (value_out eenv sub f a))"

lemma array_ok_items:
  fixes func :: "int \<Rightarrow> 's dstate \<Rightarrow> (bool \<times> 's dstate) option"
  assumes "regular_field sz f d0" "sorted_wrt apart (areas f d)" "PB_HTYPE (type f) = PB_HTYPE_REPEATED"
    and "field_takes eenv sub ssub bl L f d1 d func" "its = items (memory eenv) f d1" "length its \<le> array_size f"
    and "\<And>a. a \<in> set its \<Longrightarrow> value_out eenv sub f a = Some (value_bytes eenv sub f a, None)"
    and "length (concat (map (value_bytes eenv sub f) its)) < 2 ^ 32"
  shows "array_ok (memory eenv) ssub L f d1 d func (map (value_bytes eenv sub f) its)"
proof -
  have B: "{d + int (i * data_size f)..<d + int (i * data_size f) + int (data_size f)} \<subseteq> region f d" if i: "i < length its" for i
  proof -
    have "Suc i \<le> array_size f" using i assms(6) by simp
    then have "int (i * data_size f) + int (data_size f) \<le> int (data_size f * array_size f)"
      using mult_le_mono1 [of "Suc i" "array_size f" "data_size f"] by (simp add: algebra_simps flip: of_nat_add of_nat_mult)
    moreover have "0 \<le> int (i * data_size f)" by simp
    ultimately show ?thesis using assms(3) by (auto simp: region_def areas_def htype_distinct2 simp del: of_nat_mult)
  qed
  have len: "length (value_bytes eenv sub f a) < 2 ^ 32" if "a \<in> set its" for a
    using member_le_sum_list [of "length (value_bytes eenv sub f a)" "map (\<lambda>a. length (value_bytes eenv sub f a)) its"] that assms(8)
    by (simp add: length_concat comp_def)
  have "value_takes (\<lambda>m. True) (memory eenv) ssub L f func (its ! i) (d + int (i * data_size f)) (map (value_bytes eenv sub f) its ! i)"
    if i: "i < length its" for i
    using assms(4) B [OF i] assms(7) [OF nth_mem [OF i]] len [OF nth_mem [OF i]] nth_mem [OF i] i
    by (simp add: field_takes_def assms(3,5) del: of_nat_mult)
  then show ?thesis
    using assms(1-6) by (auto simp: array_ok_def field_takes_def regular_field_def member_inside_def htype_distinct2 simp del: of_nat_mult)
qed

lemma consumes_packed:
  fixes env :: "'s pb_denv"
  assumes "regular (Suc n) descs sz fs" "k < num_fields fs" "f = fs ! k" "d = pData (iter_at fs dest k)"
    and "PB_HTYPE (type f) = PB_HTYPE_REPEATED" "PB_LTYPE (type f) \<le> PB_LTYPE_LAST_PACKABLE" "vs = map (value_bytes eenv sub f) its"
    and "then_spec (Some (tag_out PB_WT_STRING (tag f))) (Option.bind (all_spec (map (value_out eenv sub f) its)) packed_out) = Some (bs, None)"
    and "length bs < 2 ^ 32"
    and "\<lbrakk>\<And>a. a \<in> set its \<Longrightarrow> value_out eenv sub f a = Some (value_bytes eenv sub f a, None); length (concat vs) < 2 ^ 32\<rbrakk> \<Longrightarrow>
      array_ok m1 ssub L f d1 d (call_decoder env dec dec_noinit f) vs"
  shows "consumes (noinit_step l (decode_field N env defs dec dec_noinit) ext) fs dest r r
    (\<lambda>m. member_upto 0 m1 m (ssub m) f d1 d) bs (region f d \<union> L) (\<lambda>m. member_upto (length vs) m1 m (ssub m) f d1 d)"
proof -
  have it: "cur_field (iter_at fs dest k) = f" "pData (iter_at fs dest k) = d" "pSize (iter_at fs dest k) = d + size_offset f"
    using iter_at_field [OF regular_wf [OF assms(1)] assms(2)] iter_at_pSize [OF assms(1,2)] assms(3,4) by simp_all
  obtain b x where b: "all_spec (map (value_out eenv sub f) its) = Some x" "packed_out x = Some (b, None)"
    "bs = varint (unat (tag f) * 8 + 2) @ b"
    using assms(8) by (auto simp: then_spec_ok tag_out_def bind_eq_Some_conv)
  then obtain v where v: "x = (v, None)" "b = varint (length v) @ v"
    by (cases x) (auto simp: packed_out_def sized_out_def string_out_def split: if_splits)
  note out = all_spec_out [OF b(1) [unfolded v(1)]]
  have bs: "bs = tag_bytes (tag f) (String []) @ varint (length (concat vs)) @ concat vs"
    using out by (simp add: b(3) v(2) tag_bytes_def assms(7))
  have len: "length (concat vs) < 2 ^ 32" using assms(9) unfolding bs by simp
  have ne: "vs ! i \<noteq> []" if i: "i < length vs" for i
  proof -
    have "value_out eenv sub f (its ! i) = Some (vs ! i, None)" using out i by (simp add: assms(7))
    then show ?thesis by (rule packable_nonempty [OF _ assms(6)])
  qed
  have "array_ok m1 ssub L f d1 d (call_decoder env dec dec_noinit f) vs" by (rule assms(10)) (use out len in simp_all)
  from takes_packed [OF this it assms(6) ne len]
  have "takes (\<lambda>m. member_upto 0 m1 m (ssub m) f d1 d) (varint (length (concat vs)) @ concat vs) (region f d \<union> L)
      (decode_static_field env defs dec dec_noinit PB_WT_STRING (iter_at fs dest k)) (\<lambda>m. member_upto (length vs) m1 m (ssub m) f d1 d)" .
  from consumes_tagged [OF assms(1,2), where w = "String []" and r = r, simplified wire_of.simps, OF this] show ?thesis
    using assms(5) unfolding bs by (simp add: assms(3) htype_distinct2)
qed

lemma consumes_unpacked:
  fixes env :: "'s pb_denv"
  assumes "regular (Suc n) descs sz fs" "k < num_fields fs" "f = fs ! k" "d = pData (iter_at fs dest k)"
    and "its = items m1 f d1" "\<not> PB_LTYPE (type f) \<le> PB_LTYPE_LAST_PACKABLE" "vs = map (value_bytes eenv sub f) its"
    and "all_spec (map (tagged_out eenv sub f) its) = Some (bs, None)" "length bs < 2 ^ 32"
    and "\<lbrakk>\<And>a. a \<in> set its \<Longrightarrow> value_out eenv sub f a = Some (value_bytes eenv sub f a, None); length (concat vs) < 2 ^ 32\<rbrakk> \<Longrightarrow>
      array_ok m1 ssub L f d1 d (call_decoder env dec dec_noinit f) vs"
  shows "consumes (noinit_step l (decode_field N env defs dec dec_noinit) ext) fs dest r r
    (\<lambda>m. member_upto 0 m1 m (ssub m) f d1 d) bs (region f d \<union> L) (\<lambda>m. member_upto (length vs) m1 m (ssub m) f d1 d)"
proof -
  let ?tagged = "\<lambda>a. fst (the (tagged_out eenv sub f a))"
  note ts = all_spec_out [OF assms(8)]
  have v: "value_out eenv sub f a = Some (value_bytes eenv sub f a, None) \<and> length (value_bytes eenv sub f a) \<le> length (?tagged a)"
    if "a \<in> set its" for a
  proof -
    have "tagged_out eenv sub f a = Some (?tagged a, None)" using ts that by blast
    then obtain w b where "value_out eenv sub f a = Some (b, None)" "?tagged a = tag_bytes (tag f) w @ b" by (rule tagged_out_ok)
    then show ?thesis by simp
  qed
  have bs: "bs = concat (map ?tagged its)" using ts by simp
  have "length (concat vs) \<le> length (concat (map ?tagged its))"
    unfolding length_concat map_map comp_def assms(7) by (rule sum_list_mono) (use v in blast)
  then have "length (concat vs) < 2 ^ 32" using assms(9) unfolding bs by linarith
  note ok = assms(10) [OF conjunct1 [OF v] this]
  have "consumes (noinit_step l (decode_field N env defs dec dec_noinit) ext) fs dest r r
      (\<lambda>m. member_upto 0 m1 m (ssub m) f d1 d) (concat (drop 0 (map ?tagged its))) (region f d \<union> L)
      (\<lambda>m. member_upto (length vs) m1 m (ssub m) f d1 d)"
    by (rule consumes_items [OF assms(1-4) ok assms(6)]) (use assms(5,7,9) bs ts v in simp_all)
  then show ?thesis using bs by simp
qed

lemma consumes_array:
  fixes env :: "'s pb_denv"
  assumes "regular (Suc n) descs sz fs" "k < num_fields fs" "f = fs ! k" "d = pData (iter_at fs dest k)"
    and "PB_HTYPE (type f) = PB_HTYPE_REPEATED" "array_out eenv sub f d1 (load_size (memory eenv) (d1 + size_offset f)) = Some (bs, None)"
    and "length bs < 2 ^ 32" "field_takes eenv sub ssub bl L f d1 d (call_decoder env dec dec_noinit f)" "its = items (memory eenv) f d1"
  shows "length its \<le> array_size f \<and>
    consumes (noinit_step l (decode_field N env defs dec dec_noinit) ext) fs dest r r
      (\<lambda>m. member_upto 0 (memory eenv) m (ssub m) f d1 d) bs (region f d \<union> L) (\<lambda>m. member_upto (length its) (memory eenv) m (ssub m) f d1 d)"
proof (cases "its = []")
  case True
  then have "load_size (memory eenv) (d1 + size_offset f) = 0" using assms(5,9) by (simp add: items_def htype_distinct2)
  then show ?thesis using True assms(6) by (simp add: array_out_def consumes_Nil)
next
  case False
  have its: "its = map (\<lambda>i. d1 + int (i * data_size f)) [0..<load_size (memory eenv) (d1 + size_offset f)]"
    using assms(5) by (simp add: assms(9) items_def htype_distinct2)
  have rf: "regular_field sz f (pData (iter_at fs 0 k))" using regularD(1) [OF assms(1,2)] assms(3) by simp
  have np: "PB_ATYPE (type f) \<noteq> PB_ATYPE_POINTER"
    using rf by (simp add: regular_field_def member_inside_def PB_ATYPE_STATIC_def PB_ATYPE_POINTER_def)
  have le: "length its \<le> array_size f" using False assms(6) np by (auto simp: its array_out_def fail_out_def Let_def split: if_splits)
  have sor: "sorted_wrt apart (areas f d)" using regular_areas [OF assms(1,2)] assms(3,4) by simp
  note ok = array_ok_items [OF rf sor assms(5,8,9) le]
  have "consumes (noinit_step l (decode_field N env defs dec dec_noinit) ext) fs dest r r (\<lambda>m. member_upto 0 (memory eenv) m (ssub m) f d1 d) bs
      (region f d \<union> L) (\<lambda>m. member_upto (length (map (value_bytes eenv sub f) its)) (memory eenv) m (ssub m) f d1 d)"
  proof (cases "PB_LTYPE (type f) \<le> PB_LTYPE_LAST_PACKABLE")
    case packed: True
    show ?thesis
      by (rule consumes_packed [OF assms(1-5) packed refl _ assms(7) ok]) (use assms(6) False le np packed in \<open>auto simp: its array_out_def Let_def\<close>)
  next
    case unpacked: False
    show ?thesis
      by (rule consumes_unpacked [OF assms(1-4,9) unpacked refl _ assms(7) ok]) (use assms(6) False le np unpacked in \<open>auto simp: its array_out_def Let_def\<close>)
  qed
  then show ?thesis using le by simp
qed

text \<open>No optional value, no item; and so in a nested message that is part of the structure.\<close>

definition fresh_member :: "(int \<Rightarrow> u8) \<Rightarrow> (int \<Rightarrow> bool) \<Rightarrow> pb_field \<Rightarrow> int \<Rightarrow> bool" where
  "fresh_member m sub f d \<longleftrightarrow>
     (PB_HTYPE (type f) \<noteq> PB_HTYPE_REQUIRED \<longrightarrow> items m f d = []) \<and>
     (PB_LTYPE (type f) = PB_LTYPE_SUBMESSAGE \<and> PB_HTYPE (type f) \<noteq> PB_HTYPE_REPEATED \<longrightarrow> sub d)"

text \<open>A single value; \<open>r'\<close> is the number of required fields that are seen afterwards.\<close>

lemma consumes_single:
  fixes env :: "'s pb_denv"
  assumes "regular (Suc n) descs sz fs" "k < num_fields fs" "f = fs ! k" "d = pData (iter_at fs dest k)"
    and "PB_HTYPE (type f) = PB_HTYPE_REQUIRED \<or> PB_HTYPE (type f) = PB_HTYPE_OPTIONAL"
    and "items (memory eenv) f d1 = [d1]" "tagged_out eenv sub f d1 = Some (bs, None)" "length bs < 2 ^ 32"
    and "field_takes eenv sub ssub bl L f d1 d (call_decoder env dec dec_noinit f)"
    and "PB_HTYPE (type f) = PB_HTYPE_REQUIRED \<longrightarrow> r = required_before fs k"
  shows "consumes (noinit_step l (decode_field N env defs dec dec_noinit) ext) fs dest
    r (if PB_HTYPE (type f) = PB_HTYPE_REQUIRED then Suc r else r) (\<lambda>m. fresh_member m (bl m) f d) bs (region f d \<union> L)
    (\<lambda>m. member_upto 1 (memory eenv) m (ssub m) f d1 d)"
proof -
  let ?P = "\<lambda>m. PB_LTYPE (type f) = PB_LTYPE_SUBMESSAGE \<and> PB_HTYPE (type f) \<noteq> PB_HTYPE_REPEATED \<longrightarrow> bl m d"
  have rf: "regular_field sz f (pData (iter_at fs 0 k))" using regularD(1) [OF assms(1,2)] assms(3) by simp
  have it: "cur_field (iter_at fs dest k) = f" "pData (iter_at fs dest k) = d" "pSize (iter_at fs dest k) = d + size_offset f"
    using iter_at_field [OF regular_wf [OF assms(1)] assms(2)] iter_at_pSize [OF assms(1,2)] assms(3,4) by simp_all
  have sor: "sorted_wrt apart (areas f d)" using regular_areas [OF assms(1,2)] assms(3,4) by simp
  have D: "{d..<d + int (data_size f)} \<subseteq> region f d" using assms(5) by (auto simp: region_def areas_def htype_distinct2)
  have "takes ?P b (region f d \<union> L) (decode_static_field env defs dec dec_noinit wt (iter_at fs dest k))
      (\<lambda>m. member_upto 1 (memory eenv) m (ssub m) f d1 d)"
    if b: "value_out eenv sub f d1 = Some (b, None)" "length b < 2 ^ 32" for b wt
  proof -
    have v: "value_takes ?P (memory eenv) ssub L f (call_decoder env dec dec_noinit f) d1 d b"
      using assms(9) D b assms(6) by (simp add: field_takes_def)
    show ?thesis using assms(5)
    proof
      assume "PB_HTYPE (type f) = PB_HTYPE_REQUIRED"
      then show ?thesis using takes_required [of "iter_at fs dest k", unfolded it, OF _ v] by blast
    next
      assume opt: "PB_HTYPE (type f) = PB_HTYPE_OPTIONAL"
      show ?thesis
        by (rule takes_optional [OF opt it _ sor _ assms(6) v])
          (use rf opt assms(9) in \<open>auto simp: regular_field_def htype_distinct2 field_takes_def\<close>)
    qed
  qed
  then have "consumes (noinit_step l (decode_field N env defs dec dec_noinit) ext) fs dest
      r (if PB_HTYPE (type (fs ! k)) = PB_HTYPE_REQUIRED then Suc r else r) ?P bs (region f d \<union> L)
      (\<lambda>m. member_upto 1 (memory eenv) m (ssub m) f d1 d)"
    by (intro consumes_value [OF assms(1,2) assms(7) [unfolded assms(3)] assms(8)]) (use assms(3,10) in simp_all)
  from consumes_pre [OF this, of "\<lambda>m. fresh_member m (bl m) f d"] show ?thesis using assms(3) by (simp add: fresh_member_def)
qed

text \<open>All that the encoder of a field writes.\<close>

lemma consumes_field:
  fixes env :: "'s pb_denv"
  assumes "regular (Suc n) descs sz fs" "k < num_fields fs" "f = fs ! k" "d = pData (iter_at fs dest k)"
    and "any_field_out fuel eenv user sub f d1 = Some (bs, None)" "length bs < 2 ^ 32"
    and "field_takes eenv sub ssub bl L f d1 d (call_decoder env dec dec_noinit f)"
  shows "consumes (noinit_step l (decode_field N env defs dec dec_noinit) ext) fs dest
    (required_before fs k) (required_before fs (Suc k)) (\<lambda>m. fresh_member m (bl m) f d) bs (region f d \<union> L)
    (\<lambda>m. same_member (memory eenv) m (ssub m) f d1 d)"
proof -
  let ?step = "noinit_step l (decode_field N env defs dec dec_noinit) ext" and ?m1 = "memory eenv"
  have rf: "regular_field sz f (pData (iter_at fs 0 k))" using regularD(1) [OF assms(1,2)] assms(3) by simp
  have st: "PB_ATYPE (type f) = PB_ATYPE_STATIC" "PB_ATYPE (type f) \<noteq> PB_ATYPE_POINTER"
    using rf by (auto simp: regular_field_def member_inside_def PB_ATYPE_STATIC_def PB_ATYPE_POINTER_def)
  have z: "PB_HTYPE (type f) \<noteq> PB_HTYPE_REQUIRED \<Longrightarrow> size_offset f \<noteq> 0" using rf by (simp add: regular_field_def)
  have out: "basic_out fuel eenv sub f d1 = Some (bs, None)" using assms(5) st by (simp add: any_field_out_def)
  have r: "required_before fs (Suc k) = (if PB_HTYPE (type f) = PB_HTYPE_REQUIRED then Suc (required_before fs k) else required_before fs k)"
    using assms(3) by (simp add: required_before_def)
  consider "PB_HTYPE (type f) = PB_HTYPE_REQUIRED" | "PB_HTYPE (type f) = PB_HTYPE_OPTIONAL" "load_bool ?m1 (d1 + size_offset f)"
    | "PB_HTYPE (type f) = PB_HTYPE_OPTIONAL" "\<not> load_bool ?m1 (d1 + size_offset f)" | "PB_HTYPE (type f) = PB_HTYPE_REPEATED"
    using htype_cases [of "type f"] regular_no_oneof [OF assms(1,2)] assms(3) by blast
  then show ?thesis
  proof cases
    case 1
    then have i: "items ?m1 f d1 = [d1]" by (simp add: items_def)
    have "tagged_out eenv sub f d1 = Some (bs, None)" using out 1 st by (simp add: basic_out_def fail_out_def split: if_splits)
    from consumes_post [OF consumes_single [OF assms(1-4) _ i this assms(6,7)]] show ?thesis
      unfolding r using 1 i by (simp add: same_member_def member_upto_def htype_distinct2)
  next
    case 2
    then have i: "items ?m1 f d1 = [d1]" by (simp add: items_def htype_distinct2)
    have "tagged_out eenv sub f d1 = Some (bs, None)" using out 2 st z by (simp add: basic_out_def htype_distinct2)
    from consumes_post [OF consumes_single [OF assms(1-4) _ i this assms(6,7)]] show ?thesis
      unfolding r using 2 i by (simp add: same_member_def member_upto_def htype_distinct2)
  next
    case 3
    then have "items ?m1 f d1 = []" "bs = []" using out z by (simp_all add: items_def basic_out_def htype_distinct2)
    then show ?thesis unfolding r using 3 by (auto intro!: consumes_Nil simp: same_member_def fresh_member_def htype_distinct2)
  next
    case 4
    then have "array_out eenv sub f d1 (load_size ?m1 (d1 + size_offset f)) = Some (bs, None)"
      using out st z by (simp add: basic_out_def htype_distinct2)
    from consumes_array [OF assms(1-4) 4 this assms(6,7) refl]
    have le: "length (items ?m1 f d1) \<le> array_size f" and c: "consumes ?step fs dest (required_before fs k) (required_before fs k)
        (\<lambda>m. member_upto 0 ?m1 m (ssub m) f d1 d) bs (region f d \<union> L)
        (\<lambda>m. member_upto (length (items ?m1 f d1)) ?m1 m (ssub m) f d1 d)" by blast+
    show ?thesis
      unfolding r using 4 consumes_pre [OF consumes_post [OF c]] le
      by (simp add: same_member_def member_upto_def fresh_member_def htype_distinct2)
  qed
qed

end
