(* ===== verification/Pb_Roundtrip.thy ===== *)
theory Pb_Roundtrip
  imports Pb_Fields
begin

text \<open>
  A message that \<open>pb_encode\<close> writes is read back by \<open>pb_decode\<close> into a structure with the same contents:
  the same presence, counts and values of all members, through arrays and nested messages.
\<close>

section \<open>Structures with default values\<close>

primrec blank :: "nat \<Rightarrow> (int \<Rightarrow> pb_field list) \<Rightarrow> (int \<Rightarrow> u8) \<Rightarrow> pb_field list \<Rightarrow> int \<Rightarrow> bool" where
  "blank 0 descs m fs dest = False"
| "blank (Suc n) descs m fs dest =
     list_all (\<lambda>k. fresh_member m (blank n descs m (descs (ptr (fs ! k)))) (fs ! k) (pData (iter_at fs dest k))) [0..<num_fields fs]"

lemma data_in_region:
  assumes "PB_HTYPE (type f) = PB_HTYPE_REQUIRED \<or> PB_HTYPE (type f) = PB_HTYPE_OPTIONAL"
  shows "{d..<d + int (data_size f)} \<subseteq> region f d"
  using assms by (auto simp: region_def areas_def htype_distinct2)

lemma fresh_member_agree:
  assumes "fresh_member m sub f d" "agree (region f d) m m'" "PB_HTYPE (type f) \<noteq> PB_HTYPE_ONEOF"
    and "\<And>d. PB_LTYPE (type f) = PB_LTYPE_SUBMESSAGE \<Longrightarrow> agree {d..<d + int (data_size f)} m m' \<Longrightarrow> sub d \<Longrightarrow> sub' d"
  shows "fresh_member m' sub' f d"
proof -
  have "agree {d..<d + int (data_size f)} m m'" if "PB_HTYPE (type f) \<noteq> PB_HTYPE_REPEATED"
    by (rule agree_subset [OF assms(2) data_in_region]) (use htype_cases [of "type f"] assms(3) that in blast)
  then show ?thesis using assms items_agree [OF assms(2,3)] by (simp add: fresh_member_def)
qed

lemma blank_agree:
  "regular n descs sz fs \<Longrightarrow> blank n descs m fs dest \<Longrightarrow> agree {dest..<dest + int sz} m m' \<Longrightarrow> blank n descs m' fs dest"
proof (induction n arbitrary: sz fs dest)
  case (Suc n)
  have "fresh_member m' (blank n descs m' (descs (ptr (fs ! k)))) (fs ! k) (pData (iter_at fs dest k))" if k: "k < num_fields fs" for k
  proof (rule fresh_member_agree)
    show "fresh_member m (blank n descs m (descs (ptr (fs ! k)))) (fs ! k) (pData (iter_at fs dest k))"
      using Suc.prems(2) k by (simp add: list_all_iff)
    show "agree (region (fs ! k) (pData (iter_at fs dest k))) m m'"
      by (rule agree_subset [OF Suc.prems(3) region_inside [OF Suc.prems(1) k]])
    show "PB_HTYPE (type (fs ! k)) \<noteq> PB_HTYPE_ONEOF" by (rule regular_no_oneof [OF Suc.prems(1) k])
    show "blank n descs m' (descs (ptr (fs ! k))) d"
      if "PB_LTYPE (type (fs ! k)) = PB_LTYPE_SUBMESSAGE" "agree {d..<d + int (data_size (fs ! k))} m m'" "blank n descs m (descs (ptr (fs ! k))) d" for d
      using Suc.IH [OF _ that(3,2)] regularD(2) [OF Suc.prems(1) k that(1)] by blast
  qed
  then show ?case by (simp add: list_all_iff)
qed simp

lemma fresh_stable:
  assumes "regular (Suc n) descs sz fs" "k < num_fields fs" "agree (region (fs ! k) d) m m'"
    and "fresh_member m (blank n descs m (descs (ptr (fs ! k)))) (fs ! k) d"
  shows "fresh_member m' (blank n descs m' (descs (ptr (fs ! k)))) (fs ! k) d"
proof (rule fresh_member_agree [OF assms(4,3) regular_no_oneof [OF assms(1,2)]])
  show "blank n descs m' (descs (ptr (fs ! k))) d"
    if "PB_LTYPE (type (fs ! k)) = PB_LTYPE_SUBMESSAGE" "agree {d..<d + int (data_size (fs ! k))} m m'" "blank n descs m (descs (ptr (fs ! k))) d" for d
    using blank_agree [OF _ that(3,2)] regularD(2) [OF assms(1,2) that(1)] by blast
qed

text \<open>A step for every member establishes its postcondition, when the members do not overlap.\<close>

lemma all_members:
  assumes "\<And>k m. k < n \<Longrightarrow> \<exists>m'. g k m = Some m' \<and> same_outside (A k) m m' \<and> Q k m'"
    and "\<And>k m m'. k < n \<Longrightarrow> agree (A k) m m' \<Longrightarrow> Q k m \<Longrightarrow> Q k m'"
    and "\<And>i j. i < n \<Longrightarrow> j < n \<Longrightarrow> i \<noteq> j \<Longrightarrow> A i \<inter> A j = {}"
    and "\<And>k. k < n \<Longrightarrow> A k \<subseteq> R"
  shows "j \<le> n \<Longrightarrow> \<forall>i < j. Q i m \<Longrightarrow>
    \<exists>m'. all_enc (map (\<lambda>k. always (g k)) [j..<n]) m = Some (True, m') \<and> same_outside R m m' \<and> (\<forall>i < n. Q i m')"
proof (induction "n - j" arbitrary: j m)
  case (Suc x)
  then have j: "j < n" and x: "x = n - Suc j" by simp_all
  obtain m1 where m1: "g j m = Some m1" "same_outside (A j) m m1" "Q j m1" using assms(1) [OF j] by blast
  have "Q i m1" if "i < j" for i
  proof (rule assms(2))
    show "agree (A i) m m1" by (rule same_outside_agree [OF m1(2) assms(3)]) (use that j in simp_all)
  qed (use that j Suc.prems(2) in simp_all)
  then have "\<forall>i < Suc j. Q i m1" using m1(3) by (simp add: less_Suc_eq)
  with Suc.hyps(1) [OF x Suc_leI [OF j]] obtain m' where
    m': "all_enc (map (\<lambda>k. always (g k)) [Suc j..<n]) m1 = Some (True, m')" "same_outside R m1 m'" "\<forall>i < n. Q i m'" by blast
  moreover have "same_outside R m m'" by (rule same_outside_trans [OF le_same_outside [OF m1(2) assms(4) [OF j]] m'(2)])
  ultimately show ?case using m1(1) j by (auto simp: upt_conv_Cons then_enc_def always_def)
qed auto

lemma default_field_fresh:
  assumes "cur_field iter = f" "pData iter = d" "pSize iter = d + size_offset f" "PB_HTYPE (type f) \<noteq> PB_HTYPE_ONEOF"
    and "PB_ATYPE (type f) = PB_ATYPE_STATIC" "value_fits f" "sorted_wrt apart (areas f d)"
    and "PB_HTYPE (type f) \<noteq> PB_HTYPE_REQUIRED \<Longrightarrow> size_offset f \<noteq> 0"
    and "\<And>m. PB_LTYPE (type f) = PB_LTYPE_SUBMESSAGE \<Longrightarrow> \<exists>m'. set_defaults (pb_field_set_to_default n env) (fields_at env (ptr f)) d m = Some m' \<and>
      same_outside {d..<d + int (data_size f)} m m' \<and> sub m' d"
  shows "\<exists>m'. pb_field_set_to_default (Suc n) env iter m = Some m' \<and> same_outside (region f d) m m' \<and> fresh_member m' (sub m') f d"
proof -
  let ?z = "d + size_offset f" and ?D = "{d..<d + int (data_size f)}"
  have no_ext: "PB_LTYPE (type f) \<noteq> PB_LTYPE_EXTENSION" by (rule value_fits_no_extension [OF assms(6)])
  show ?thesis
  proof (cases "PB_HTYPE (type f) = PB_HTYPE_REPEATED")
    case True
    have "same_outside (region f d) m (store_size m ?z 0)"
      by (rule same_outside_size) (use True in \<open>auto simp: region_def areas_def htype_distinct2\<close>)
    moreover have "items (store_size m ?z 0) f d = []" using True by (simp add: items_def htype_distinct2)
    ultimately show ?thesis using assms(1-3,5) no_ext True by (simp add: Let_def fresh_member_def)
  next
    case False
    then have h: "PB_HTYPE (type f) = PB_HTYPE_REQUIRED \<or> PB_HTYPE (type f) = PB_HTYPE_OPTIONAL"
      using htype_cases [of "type f"] assms(4) by blast
    note D = data_in_region [OF h, of d]
    let ?opt = "PB_HTYPE (type f) = PB_HTYPE_OPTIONAL"
    let ?m = "if ?opt then store_bool m ?z False else m"
    have z: "?opt \<Longrightarrow> ?z \<in> region f d \<and> ?z \<notin> ?D"
      using parts_apart(1) [OF assms(7,4)] by (auto simp: region_def areas_def htype_distinct2)
    have so: "same_outside (region f d) m ?m" using z by (auto intro: same_outside_bool)
    let ?run = "if PB_LTYPE (type f) = PB_LTYPE_SUBMESSAGE then set_defaults (pb_field_set_to_default n env) (fields_at env (ptr f)) d ?m
      else if ptr f \<noteq> Null then Some (mem_store ?m d (load ?m (ptr f) (data_size f))) else Some (mem_store ?m d (replicate (data_size f) 0))"
    have st: "same_outside ?D ?m (mem_store ?m d bs)" if "length bs = data_size f" for bs
      by (rule same_outside_store) (use that in simp)
    obtain m' where m': "?run = Some m'" "same_outside ?D ?m m'" "PB_LTYPE (type f) = PB_LTYPE_SUBMESSAGE \<Longrightarrow> sub m' d"
      using assms(9) [of ?m] st by (cases "PB_LTYPE (type f) = PB_LTYPE_SUBMESSAGE"; cases "ptr f = Null") auto
    have "pb_field_set_to_default (Suc n) env iter m = ?run"
      using assms(1-3,5,8) no_ext h by (auto simp: Let_def htype_distinct2)
    moreover have "items m' f d = []" if ?opt
    proof -
      have "load_bool m' ?z = load_bool ?m ?z" by (rule load_bool_agree, rule same_outside_agree [OF m'(2)]) (use z that in auto)
      then show ?thesis using that by (simp add: items_def htype_distinct2)
    qed
    moreover have "same_outside (region f d) m m'" by (rule same_outside_trans [OF so le_same_outside [OF m'(2) D]])
    ultimately show ?thesis using m' h False by (auto simp: fresh_member_def)
  qed
qed


lemma defaults_blank:
  "regular n (fields_at env) sz fs \<Longrightarrow> n \<le> N \<Longrightarrow>
   \<exists>m'. set_defaults (pb_field_set_to_default N env) fs dest m = Some m' \<and> same_outside {dest..<dest + int sz} m m' \<and>
     blank n (fields_at env) m' fs dest"
proof (induction n arbitrary: N sz fs dest m)
  case 0
  then show ?case by (simp add: regular.simps)
next
  case (Suc n)
  then obtain N' where N: "N = Suc N'" "n \<le> N'" by (cases N) auto
  note reg = Suc.prems(1)
  note wf = regular_wf [OF reg]
  let ?d = "\<lambda>k. pData (iter_at fs dest k)" and ?sub = "\<lambda>k m. blank n (fields_at env) m (fields_at env (ptr (fs ! k)))"
  have pos: "0 < num_fields fs" "num_fields fs \<le> length fs" using wf by (auto simp: num_fields_def fields_wf_def)
  have one: "\<exists>m'. pb_field_set_to_default N env (iter_at fs dest k) m = Some m' \<and> same_outside (region (fs ! k) (?d k)) m m' \<and>
      fresh_member m' (?sub k m') (fs ! k) (?d k)" if k: "k < num_fields fs" for k m
    unfolding N(1)
  proof (rule default_field_fresh)
    show "cur_field (iter_at fs dest k) = fs ! k" by (rule iter_at_field [OF wf k])
    show "pSize (iter_at fs dest k) = ?d k + size_offset (fs ! k)" by (rule iter_at_pSize [OF reg k])
    show "sorted_wrt apart (areas (fs ! k) (?d k))" by (rule regular_areas [OF reg k])
    show "\<exists>m'. set_defaults (pb_field_set_to_default N' env) (fields_at env (ptr (fs ! k))) (?d k) m = Some m' \<and>
        same_outside {?d k..<?d k + int (data_size (fs ! k))} m m' \<and> ?sub k m' (?d k)"
      if "PB_LTYPE (type (fs ! k)) = PB_LTYPE_SUBMESSAGE" for m
      by (rule Suc.IH [OF conjunct2 [OF regularD(2) [OF reg k that]] N(2)])
  qed (use regularD(1) [OF reg k] in \<open>auto simp: regular_field_def member_inside_def\<close>)
  have "\<exists>m'. all_enc (map (\<lambda>k. always (pb_field_set_to_default N env (iter_at fs dest k))) [0..<num_fields fs]) m = Some (True, m') \<and>
      same_outside {dest..<dest + int sz} m m' \<and> (\<forall>i < num_fields fs. fresh_member m' (?sub i m') (fs ! i) (?d i))"
    by (rule all_members [where A = "\<lambda>k. region (fs ! k) (?d k)"])
      (use one fresh_stable [OF reg] regions_disjoint [OF reg, of _ _ dest] region_inside [OF reg, of _ dest] in \<open>blast | simp\<close>)+
  then obtain m' where "all_enc (map (\<lambda>k. always (pb_field_set_to_default N env (iter_at fs dest k))) [0..<num_fields fs]) m = Some (True, m')"
    "same_outside {dest..<dest + int sz} m m'" "\<forall>i < num_fields fs. fresh_member m' (?sub i m') (fs ! i) (?d i)" by blast
  then show ?case
    using pos by (intro exI [of _ m']) (simp add: set_defaults_def iter_begin_wf [OF wf] iter_loop_law [OF wf] list_all_iff)
qed

section \<open>Messages\<close>

text \<open>The fields one after the other: each changes only its own member and the local variables.\<close>

lemma consumes_all:
  assumes "\<And>k b. k < n \<Longrightarrow> f k = Some (b, None) \<Longrightarrow> length b < 2 ^ 32 \<Longrightarrow>
      consumes step fs dest (rr k) (rr (Suc k)) (P k) b (A k \<union> L) (Q k)"
    and "\<And>k m m'. k < n \<Longrightarrow> agree (A k) m m' \<Longrightarrow> (P k m \<longrightarrow> P k m') \<and> (Q k m \<longrightarrow> Q k m')"
    and "\<And>i j. i < n \<Longrightarrow> j < n \<Longrightarrow> i \<noteq> j \<Longrightarrow> A i \<inter> A j = {}" "\<And>k. k < n \<Longrightarrow> A k \<inter> L = {} \<and> A k \<union> L \<subseteq> R"
  shows "j \<le> n \<Longrightarrow> all_spec (map f [j..<n]) = Some (bs, None) \<Longrightarrow> length bs < 2 ^ 32 \<Longrightarrow>
    consumes step fs dest (rr j) (rr n) (\<lambda>m. (\<forall>i < j. Q i m) \<and> (\<forall>i. j \<le> i \<and> i < n \<longrightarrow> P i m)) bs R (\<lambda>m. \<forall>i < n. Q i m)"
proof (induction "n - j" arbitrary: j bs)
  case 0
  then show ?case by (auto intro: consumes_Nil)
next
  case (Suc x)
  then have j: "j < n" and x: "x = n - Suc j" by simp_all
  obtain b1 b2 where b: "f j = Some (b1, None)" "all_spec (map f [Suc j..<n]) = Some (b2, None)" "bs = b1 @ b2"
    using Suc.prems(2) j by (auto simp: upt_conv_Cons then_spec_ok)
  have len: "length b1 < 2 ^ 32" "length b2 < 2 ^ 32" using Suc.prems(3) b(3) by simp_all
  let ?F = "\<lambda>m. (\<forall>i < j. Q i m) \<and> (\<forall>i. Suc j \<le> i \<and> i < n \<longrightarrow> P i m)"
  have F: "?F m'" if so: "same_outside (A j \<union> L) m m'" and F: "?F m" for m m'
  proof -
    have "agree (A i) m m'" if "i < n" "i \<noteq> j" for i
      by (rule same_outside_agree [OF so]) (use assms(3) [OF that(1) j that(2)] assms(4) [OF that(1)] in blast)
    then have "(P i m \<longrightarrow> P i m') \<and> (Q i m \<longrightarrow> Q i m')" if "i < n" "i \<noteq> j" for i using assms(2) [OF that(1)] that by blast
    then show ?thesis using F j by simp
  qed
  have "consumes step fs dest (rr j) (rr (Suc j)) (\<lambda>m. P j m \<and> ?F m) b1 R (\<lambda>m. Q j m \<and> ?F m)"
    by (rule consumes_frame [OF assms(1) [OF j b(1) len(1)] _ F]) (use assms(4) [OF j] in blast)
  then have "consumes step fs dest (rr j) (rr (Suc j)) (\<lambda>m. (\<forall>i < j. Q i m) \<and> (\<forall>i. j \<le> i \<and> i < n \<longrightarrow> P i m)) b1 R
      (\<lambda>m. (\<forall>i < Suc j. Q i m) \<and> (\<forall>i. Suc j \<le> i \<and> i < n \<longrightarrow> P i m))"
    by (rule consumes_pre [OF consumes_post]) (use j in \<open>auto simp: less_Suc_eq\<close>)
  from consumes_append [OF this Suc.hyps(1) [OF x Suc_leI [OF j] b(2) len(2)]] show ?case by (simp add: b(3))
qed

text \<open>The local variables of the calls, by the bound of the recursion.\<close>

definition locals_of :: "'s pb_denv \<Rightarrow> nat \<Rightarrow> int set" where
  "locals_of env N = (\<Union>i < N. {local_size env i..<local_size env i + 4})"

lemma locals_of_Suc: "locals_of env (Suc N) = {local_size env N..<local_size env N + 4} \<union> locals_of env N"
  by (auto simp: locals_of_def less_Suc_eq)

lemma takes_all_mono: "takes_all P bs R f Q \<Longrightarrow> (\<And>m. P' m \<Longrightarrow> P m) \<Longrightarrow> R \<subseteq> R' \<Longrightarrow> takes_all P' bs R' f Q"
  unfolding takes_all_def using le_same_outside by meson

text \<open>\<open>pb_decode\<close>, from \<open>pb_decode_noinit\<close>: the default values come first.\<close>

lemma takes_decode_with:
  fixes env :: "'s pb_denv"
  assumes "regular n (fields_at env) sz fs" "n \<le> N"
    and "takes_all (\<lambda>m. blank n (fields_at env) m fs dest) bs R (dec_noinit fs dest) Q" "{dest..<dest + int sz} \<subseteq> R"
  shows "takes_all P bs R (decode_with N env dec_noinit fs dest) Q"
  unfolding takes_all_def
proof (intro allI impI)
  fix m rest e
  obtain m1 where m1: "set_defaults (pb_field_set_to_default N env) fs dest m = Some m1" "same_outside {dest..<dest + int sz} m m1"
    "blank n (fields_at env) m1 fs dest"
    using defaults_blank [OF assms(1,2)] by blast
  obtain m' where m': "dec_noinit fs dest (m1, buffered (bs @ rest) (length bs) e) = Some (True, m', buffered rest 0 e)"
    "same_outside R m1 m'" "Q m'"
    using assms(3) m1(3) unfolding takes_all_def by blast
  have "same_outside R m m'" by (rule same_outside_trans [OF le_same_outside [OF m1(2) assms(4)] m'(2)])
  then show "\<exists>m'. decode_with N env dec_noinit fs dest (m, buffered (bs @ rest) (length bs) e) = Some (True, m', buffered rest 0 e) \<and>
      same_outside R m m' \<and> Q m'"
    using m1(1) m'(1,3) by (simp add: decode_with_def pb_message_set_to_defaults_def)
qed

lemma message_out_fields:
  assumes "regular (Suc n) descs sz fs" "message_out (Suc fuel) eenv user fs src = Some (bs, None)"
  shows "all_spec (map (\<lambda>k. any_field_out fuel eenv user (message_out fuel eenv user) (fs ! k) (pData (iter_at fs src k))) [0..<num_fields fs]) =
    Some (bs, None)"
proof -
  note wf = regular_wf [OF assms(1)]
  have "tag (fs ! 0) \<noteq> 0" using fields_wf_tag [OF wf, of 0] wf by (auto simp: num_fields_def fields_wf_def)
  moreover have "PB_LTYPE (type (fs ! k)) \<noteq> PB_LTYPE_EXTENSION" if "k < num_fields fs" for k
    by (rule value_fits_no_extension [OF regular_fits [OF assms(1) that]])
  then have "map (\<lambda>k. let data = pData (iter_at fs src k) in
       if PB_LTYPE (type (fs ! k)) = PB_LTYPE_EXTENSION
       then extensions_out (Suc fuel) fuel eenv user (message_out fuel eenv user) (load_ptr (memory eenv) data)
       else any_field_out fuel eenv user (message_out fuel eenv user) (fs ! k) data) [0..<num_fields fs] =
      map (\<lambda>k. any_field_out fuel eenv user (message_out fuel eenv user) (fs ! k) (pData (iter_at fs src k))) [0..<num_fields fs]"
    by (intro map_cong) (simp_all add: Let_def)
  note eq = this
  ultimately show ?thesis using assms(2) wf unfolding message_out.simps eq by simp
qed

text \<open>The values of a field, when messages are taken one level deeper.\<close>

lemma message_field_takes:
  fixes env :: "'s pb_denv"
  assumes "regular (Suc n) (fields_at env) sz fs" "k < num_fields fs" "f = fs ! k" "descriptors eenv = fields_at env" "n \<le> N"
    and "0 < src" "strings_end (Suc n) (fields_at env) (memory eenv) fs src" "L \<inter> region f d = {}" "locals_of env N \<subseteq> L"
    and "\<And>a b body. regular n (fields_at env) (data_size f) (fields_at env (ptr f)) \<Longrightarrow> sub (fields_at env (ptr f)) a = Some (body, None) \<Longrightarrow>
      length body < 2 ^ 32 \<Longrightarrow> strings_end n (fields_at env) (memory eenv) (fields_at env (ptr f)) a \<Longrightarrow> 0 < a \<Longrightarrow>
      locals_of env N \<inter> {b..<b + int (data_size f)} = {} \<Longrightarrow>
      takes_all (\<lambda>m. blank n (fields_at env) m (fields_at env (ptr f)) b) body ({b..<b + int (data_size f)} \<union> locals_of env N)
        (dec_noinit (fields_at env (ptr f)) b) (\<lambda>m. same_message n (fields_at env) (memory eenv) m (fields_at env (ptr f)) a b)"
  shows "field_takes eenv sub (\<lambda>m. same_message n (fields_at env) (memory eenv) m (fields_at env (ptr f)))
    (\<lambda>m. blank n (fields_at env) m (fields_at env (ptr f))) L f (pData (iter_at fs src k)) d
    (call_decoder env (decode_with N env dec_noinit) dec_noinit f)"
  unfolding field_takes_def
proof (intro conjI allI impI)
  let ?descs = "fields_at env"
  note reg = assms(1) and k = assms(2)
  have rf: "regular_field sz f (pData (iter_at fs 0 k))" using regularD(1) [OF reg k] assms(3) by simp
  have fits: "value_fits f" "PB_ATYPE (type f) = PB_ATYPE_STATIC" "0 \<le> pData (iter_at fs 0 k)"
    using rf by (simp_all add: regular_field_def member_inside_def)
  show "L \<inter> region f d = {}" by (rule assms(8))
  fix a b v
  assume a: "a \<in> set (items (memory eenv) f (pData (iter_at fs src k)))" and B: "{b..<b + int (data_size f)} \<subseteq> region f d"
    and v: "value_out eenv sub f a = Some (v, None)" "length v < 2 ^ 32"
  have "0 < pData (iter_at fs src k)" using assms(6) fits(3) iter_at_offsets(1) [of fs src k] by simp
  then have pos: "0 < a" using a by (auto simp: items_def intro: add_pos_nonneg split: if_splits)
  have str: "PB_LTYPE (type f) = PB_LTYPE_STRING \<Longrightarrow> length (load_string (memory eenv) a (data_size f)) < data_size f"
    "PB_LTYPE (type f) = PB_LTYPE_SUBMESSAGE \<Longrightarrow> strings_end n ?descs (memory eenv) (?descs (ptr f)) a"
    using assms(7) k a by (auto simp: list_all_iff Let_def assms(3))
  show "value_takes (\<lambda>m. PB_LTYPE (type f) = PB_LTYPE_SUBMESSAGE \<and> PB_HTYPE (type f) \<noteq> PB_HTYPE_REPEATED \<longrightarrow> blank n ?descs m (?descs (ptr f)) b)
      (memory eenv) (\<lambda>m. same_message n ?descs (memory eenv) m (?descs (ptr f))) L f (call_decoder env (decode_with N env dec_noinit) dec_noinit f) a b v"
    unfolding value_takes_def
  proof (rule takes_value [OF fits(1,2) v _ _ str(1)])
    show "a \<noteq> Null" using pos by (simp add: Null_def)
    show "{b..<b + int (data_size f)} \<subseteq> {b..<b + int (data_size f)} \<union> L" by blast
    fix body
    assume sm: "PB_LTYPE (type f) = PB_LTYPE_SUBMESSAGE" "ptr f \<noteq> Null"
      and body: "sub (descriptors eenv (ptr f)) a = Some (body, None)" "length body < 2 ^ 32"
    have rs: "regular n ?descs (data_size f) (?descs (ptr f))" using regularD(2) [OF reg k] sm(1) assms(3) by simp
    have loc: "locals_of env N \<inter> {b..<b + int (data_size f)} = {}" using B assms(8,9) by blast
    note t = assms(10) [OF rs body(1) [unfolded assms(4)] body(2) str(2) [OF sm(1)] pos loc]
    have sub: "{b..<b + int (data_size f)} \<union> locals_of env N \<subseteq> {b..<b + int (data_size f)} \<union> L" using assms(9) by blast
    show "takes_all (\<lambda>m. PB_LTYPE (type f) = PB_LTYPE_SUBMESSAGE \<and> PB_HTYPE (type f) \<noteq> PB_HTYPE_REPEATED \<longrightarrow> blank n ?descs m (?descs (ptr f)) b)
        body ({b..<b + int (data_size f)} \<union> L)
        ((if PB_HTYPE (type f) = PB_HTYPE_REPEATED then decode_with N env dec_noinit else dec_noinit) (?descs (ptr f)) b)
        (\<lambda>m. same_message n ?descs (memory eenv) m (?descs (ptr f)) a b)"
    proof (cases "PB_HTYPE (type f) = PB_HTYPE_REPEATED")
      case True
      have "takes_all (\<lambda>m. True) body ({b..<b + int (data_size f)} \<union> locals_of env N) (decode_with N env dec_noinit (?descs (ptr f)) b)
          (\<lambda>m. same_message n ?descs (memory eenv) m (?descs (ptr f)) a b)"
        by (rule takes_decode_with [where dec_noinit = dec_noinit and fs = "?descs (ptr f)" and dest = b, OF rs assms(5) t]) blast
      from takes_all_mono [OF this _ sub] show ?thesis using True by simp
    next
      case False
      from takes_all_mono [OF t _ sub] show ?thesis using False sm(1) by simp
    qed
  qed
next
  fix m m' b
  assume sm: "PB_LTYPE (type f) = PB_LTYPE_SUBMESSAGE" and ag: "agree {b..<b + int (data_size f)} m m'"
  have rs: "regular n (fields_at env) (data_size f) (fields_at env (ptr f))" using regularD(2) [OF assms(1,2)] sm assms(3) by simp
  show "blank n (fields_at env) m' (fields_at env (ptr f)) b" if "blank n (fields_at env) m (fields_at env (ptr f)) b"
    by (rule blank_agree [OF rs that ag])
  show "same_message n (fields_at env) (memory eenv) m' (fields_at env (ptr f)) a b"
    if "same_message n (fields_at env) (memory eenv) m (fields_at env (ptr f)) a b" for a
    by (rule same_message_agree [OF rs that ag])
qed

lemma takes_all_post: "takes_all P bs R f Q \<Longrightarrow> (\<And>m. Q m \<Longrightarrow> Q' m) \<Longrightarrow> takes_all P bs R f Q'"
  unfolding takes_all_def by meson

lemma decode_noinit_takes:
  fixes env :: "'s pb_denv"
  assumes "descriptors eenv = fields_at env"
  shows "regular n (fields_at env) sz fs \<Longrightarrow> n \<le> N \<Longrightarrow> message_out fuel eenv user fs src = Some (body, None) \<Longrightarrow> length body < 2 ^ 32 \<Longrightarrow>
    strings_end n (fields_at env) (memory eenv) fs src \<Longrightarrow> 0 < src \<Longrightarrow> locals_of env N \<inter> {dest..<dest + int sz} = {} \<Longrightarrow>
    takes_all (\<lambda>m. blank n (fields_at env) m fs dest) body ({dest..<dest + int sz} \<union> locals_of env N) (pb_decode_noinit N env fs dest)
      (\<lambda>m. same_message n (fields_at env) (memory eenv) m fs src dest)"
proof (induction n arbitrary: fuel N sz fs src dest body)
  case 0
  then show ?case by (simp add: regular.simps)
next
  case (Suc n)
  obtain N' where N: "N = Suc N'" "n \<le> N'" using Suc.prems(2) by (cases N) auto
  obtain fuel' where fuel: "fuel = Suc fuel'" using Suc.prems(3) by (cases fuel) auto
  note reg = Suc.prems(1)
  note wf = regular_wf [OF reg]
  let ?m1 = "memory eenv" and ?L = "locals_of env N" and ?d = "\<lambda>k. pData (iter_at fs dest k)" and ?d1 = "\<lambda>k. pData (iter_at fs src k)"
  let ?descs = "fields_at env"
  let ?bl = "\<lambda>k m. blank n ?descs m (?descs (ptr (fs ! k)))"
    and ?ssub = "\<lambda>k m. same_message n ?descs ?m1 m (?descs (ptr (fs ! k)))"
  let ?noinit = "pb_decode_noinit N' env"
  let ?dec = "decode_with N' env ?noinit" and ?defs = "pb_message_set_to_defaults N' env"
  let ?out = "\<lambda>k. any_field_out fuel' eenv user (message_out fuel' eenv user) (fs ! k) (?d1 k)"
  have field: "field_takes eenv (message_out fuel' eenv user) (?ssub k) (?bl k) ?L (fs ! k) (?d1 k) (?d k)
      (call_decoder env ?dec ?noinit (fs ! k))" if k: "k < num_fields fs" for k
  proof (rule message_field_takes [OF reg k refl assms N(2) Suc.prems(6,5)])
    show "?L \<inter> region (fs ! k) (?d k) = {}" using region_inside [OF reg k, of dest] Suc.prems(7) by blast
    show "locals_of env N' \<subseteq> ?L" by (simp add: N(1) locals_of_Suc)
  qed (rule Suc.IH [OF _ N(2)])
  have "consumes (noinit_step (local_size env N') (decode_field N' env ?defs ?dec ?noinit) (decode_extension N' env ?defs ?dec ?noinit))
      fs dest (required_before fs 0) (required_before fs (num_fields fs))
      (\<lambda>m. (\<forall>i < 0. same_member ?m1 m (?ssub i m) (fs ! i) (?d1 i) (?d i)) \<and>
         (\<forall>i. 0 \<le> i \<and> i < num_fields fs \<longrightarrow> fresh_member m (?bl i m) (fs ! i) (?d i)))
      body ({dest..<dest + int sz} \<union> ?L)
      (\<lambda>m. \<forall>i < num_fields fs. same_member ?m1 m (?ssub i m) (fs ! i) (?d1 i) (?d i))"
  proof (rule consumes_all [where A = "\<lambda>k. region (fs ! k) (?d k)" and L = ?L])
    fix k assume k: "k < num_fields fs"
    show "consumes (noinit_step (local_size env N') (decode_field N' env ?defs ?dec ?noinit) (decode_extension N' env ?defs ?dec ?noinit))
        fs dest (required_before fs k) (required_before fs (Suc k)) (\<lambda>m. fresh_member m (?bl k m) (fs ! k) (?d k)) b
        (region (fs ! k) (?d k) \<union> ?L) (\<lambda>m. same_member ?m1 m (?ssub k m) (fs ! k) (?d1 k) (?d k))"
      if "?out k = Some (b, None)" "length b < 2 ^ 32" for b
      by (rule consumes_field [OF reg k refl refl that field [OF k]])
    show "(fresh_member m (?bl k m) (fs ! k) (?d k) \<longrightarrow> fresh_member m' (?bl k m') (fs ! k) (?d k)) \<and>
        (same_member ?m1 m (?ssub k m) (fs ! k) (?d1 k) (?d k) \<longrightarrow> same_member ?m1 m' (?ssub k m') (fs ! k) (?d1 k) (?d k))"
      if "agree (region (fs ! k) (?d k)) m m'" for m m'
      using fresh_stable [OF reg k that] same_stable [OF reg k that] by blast
    show "region (fs ! k) (?d k) \<inter> ?L = {} \<and> region (fs ! k) (?d k) \<union> ?L \<subseteq> {dest..<dest + int sz} \<union> ?L"
      using region_inside [OF reg k, of dest] Suc.prems(7) by blast
    show "region (fs ! k) (?d k) \<inter> region (fs ! j) (?d j) = {}" if "j < num_fields fs" "k \<noteq> j" for j
      by (rule regions_disjoint [OF reg k that])
  next
    show "all_spec (map ?out [0..<num_fields fs]) = Some (body, None)" by (rule message_out_fields [OF reg Suc.prems(3) [unfolded fuel]])
  qed (use Suc.prems(4) in simp_all)
  note c = this [unfolded required_before_def [of fs 0], simplified]
  have l: "{local_size env N'..<local_size env N' + 4} \<subseteq> ?L" by (simp add: N(1) locals_of_Suc)
  have "takes_all (\<lambda>m. blank (Suc n) ?descs m fs dest) body ({dest..<dest + int sz} \<union> ?L)
      (noinit_message (local_size env N') (decode_field N' env ?defs ?dec ?noinit) (decode_extension N' env ?defs ?dec ?noinit) fs dest)
      (\<lambda>m. \<forall>i < num_fields fs. same_member ?m1 m (?ssub i m) (fs ! i) (?d1 i) (?d i))"
  proof (rule takes_noinit [OF reg c])
    show "{local_size env N'..<local_size env N' + 4} \<subseteq> {dest..<dest + int sz} \<union> ?L" using l by blast
    fix m assume b: "blank (Suc n) ?descs m fs dest"
    have "agree {dest..<dest + int sz} m (store_size m (local_size env N') 0)"
      by (rule same_outside_agree [OF same_outside_size [OF l]]) (use Suc.prems(7) in blast)
    from blank_agree [OF reg b this]
    show "\<forall>i < num_fields fs. fresh_member (store_size m (local_size env N') 0) (?bl i (store_size m (local_size env N') 0)) (fs ! i) (?d i)"
      by (simp add: list_all_iff)
  qed
  then show ?case by (simp add: N(1) Let_def list_all_iff Ball_def)
qed

lemma pb_decode_takes:
  fixes env :: "'s pb_denv"
  assumes "descriptors eenv = fields_at env" "regular depth (fields_at env) sz fs" "depth \<le> n"
    and "message_out fuel eenv user fs src = Some (body, None)" "length body < 2 ^ 32"
    and "strings_end depth (fields_at env) (memory eenv) fs src" "0 < src" "locals_of env n \<inter> {dest..<dest + int sz} = {}"
  shows "takes_all (\<lambda>m. True) body (footprint env n dest sz) (pb_decode n env fs dest)
    (\<lambda>m. same_message depth (fields_at env) (memory eenv) m fs src dest)"
proof -
  have "footprint env n dest sz = {dest..<dest + int sz} \<union> locals_of env n" by (simp add: footprint_def locals_of_def)
  then show ?thesis
    using takes_decode_with [where dec_noinit = "pb_decode_noinit n env", OF assms(2,3) decode_noinit_takes [OF assms]]
    by (simp add: pb_decode_def)
qed

section \<open>Properties\<close>

text \<open>
  C3. A message survives encoding and decoding: what \<open>pb_encode\<close> has written for a structure, \<open>pb_decode\<close>
  accepts to the last byte, and it fills another structure of the same type with the same contents, the
  presence, counts and values of all members, in arrays and through nested messages, whatever was in
  that memory before. Nothing else is changed but the local counters.
\<close>

theorem pb_message_roundtrip:
  fixes env :: "'s pb_denv"
  assumes "user_ok eenv user" "message_out fuel eenv user fs src = Some (bs, er)" "length bs < 2 ^ 32"
    and "cap \<le> length buf" "length buf < 2 ^ 63"
    and "pb_encode fuel eenv (pb_ostream_from_buffer buf cap) fs src = Some (True, s)" "out s = Buf_write mem k"
    and "descriptors eenv = fields_at env" "regular depth (fields_at env) sz fs" "depth \<le> n"
    and "strings_end depth (fields_at env) (memory eenv) fs src" "0 < src" "locals_of env n \<inter> {dest..<dest + int sz} = {}"
  shows "\<exists>m' s'. pb_decode n env fs dest (m, pb_istream_from_buffer (take k mem) k) = Some (True, m', s') \<and> bytes_left s' = 0 \<and>
     same_message depth (fields_at env) (memory eenv) m' fs src dest \<and> same_outside (footprint env n dest sz) m m'"
proof -
  have len: "length bs < 2 ^ 63" using assms(3) by simp
  have w: "er = None" "take k mem = bs" "k = length bs"
    using pb_encode_buffer [OF assms(1,2) len assms(4,5)] assms(6,7) by (auto split: if_splits)
  have "takes_all (\<lambda>m. True) bs (footprint env n dest sz) (pb_decode n env fs dest)
      (\<lambda>m. same_message depth (fields_at env) (memory eenv) m fs src dest)"
    by (rule pb_decode_takes [OF assms(8-10) _ assms(3,11-13)]) (use assms(2) w(1) in simp)
  then obtain m' where "pb_decode n env fs dest (m, buffered (bs @ []) (length bs) None) = Some (True, m', buffered [] 0 None)"
    "same_outside (footprint env n dest sz) m m'" "same_message depth (fields_at env) (memory eenv) m' fs src dest"
    unfolding takes_all_def by blast
  then show ?thesis
    unfolding w(2) unfolding w(3) by (auto simp: pb_istream_from_buffer_def buffered_def)
qed

text \<open>A number, a nested message with a string, and an array of two numbers.\<close>

definition outer_memory :: "int \<Rightarrow> u8" where
  "outer_memory a = (if 4096 \<le> a \<and> a < 4121 then
     [44, 1, 0, 0, 1, 0x61, 0x62, 0, 0, 0, 0, 0, 0, 2, 0, 0, 0, 7, 0, 0, 0, 0, 1, 0, 0] ! nat (a - 4096) else 0xA5)"

definition outer_env :: "unit pb_env" where
  "outer_env = \<lparr>memory = outer_memory, descriptors = fields_at denv_ex,
     field_encoders = (\<lambda>f stream field arg. (False, stream)), extension_encoders = (\<lambda>f stream ext. (False, stream))\<rparr>"

definition outer_bytes :: bytes where
  "outer_bytes = [8, 172, 2, 18, 4, 10, 2, 0x61, 0x62, 26, 3, 7, 128, 2]"

lemma outer_law:
  "message_out 2 outer_env no_user outer_ex 4096 = Some (outer_bytes, None)"
  "regular 2 (fields_at denv_ex) 28 outer_ex"
  "strings_end 2 (fields_at denv_ex) (memory outer_env) outer_ex 4096"
  by code_simp+

theorem pb_message_roundtrip_witness:
  "\<exists>m' s'. pb_decode 2 denv_ex outer_ex 12288 (\<lambda>a. 9, pb_istream_from_buffer outer_bytes 14) = Some (True, m', s') \<and> bytes_left s' = 0 \<and>
     same_message 2 (fields_at denv_ex) outer_memory m' outer_ex 4096 12288 \<and> load m' 12288 4 = [44, 1, 0, 0] \<and> m' 12287 = 9"
proof -
  define buf :: bytes where "buf = replicate 20 0xA5"
  have d: "length outer_bytes = 14" "length buf = 20" "memory outer_env = outer_memory" "descriptors outer_env = fields_at denv_ex"
    by (simp_all add: outer_bytes_def buf_def outer_env_def)
  have h: "length outer_bytes < 2 ^ 32" "length outer_bytes < 2 ^ 63" "20 \<le> length buf" "length buf < 2 ^ 63" by (simp_all add: d)
  have u: "user_ok outer_env no_user" by (simp add: user_ok_def outer_env_def no_user_def yields_error)
  obtain s where s: "pb_encode 2 outer_env (pb_ostream_from_buffer buf 20) outer_ex 4096 = Some (True, s)"
    "out s = Buf_write (outer_bytes @ drop 14 buf) 14"
    using pb_encode_buffer [OF u outer_law(1) h(2-4)] unfolding d by (auto simp: d simp del: pb_encode.simps)
  have l: "locals_of denv_ex 2 \<inter> {12288..<12288 + int 28} = {}" by (auto simp: locals_of_def denv_ex_def)
  obtain m' s' where m': "pb_decode 2 denv_ex outer_ex 12288 (\<lambda>a. 9, pb_istream_from_buffer (take 14 (outer_bytes @ drop 14 buf)) 14) = Some (True, m', s')"
    "bytes_left s' = 0" "same_message 2 (fields_at denv_ex) outer_memory m' outer_ex 4096 12288" "same_outside (footprint denv_ex 2 12288 28) (\<lambda>a. 9) m'"
    using pb_message_roundtrip [OF u outer_law(1) h(1,3,4) s d(4) outer_law(2) order_refl outer_law(3) _ l, of "\<lambda>a. 9"] unfolding d by auto
  have "12287 \<notin> footprint denv_ex 2 12288 28" by (auto simp: footprint_def denv_ex_def)
  then have "m' 12287 = 9" using m'(4) by (simp add: same_outside_def)
  moreover have "load m' 12288 4 = [44, 1, 0, 0]"
  proof -
    have e: "pData (iter_at outer_ex 4096 0) = 4096" "pData (iter_at outer_ex 12288 0) = 12288" "PB_HTYPE (type (outer_ex ! 0)) = PB_HTYPE_REQUIRED"
      "PB_LTYPE (type (outer_ex ! 0)) = PB_LTYPE_VARINT" "data_size (outer_ex ! 0) = 4" "0 < num_fields outer_ex" "load outer_memory 4096 4 = [44, 1, 0, 0]"
      by code_simp+
    have "0 \<in> set [0..<num_fields outer_ex]" using e(6) by simp
    from bspec [OF m'(3) [unfolded numeral_2_eq_2 same_message.simps list_all_iff] this]
    obtain sub where "same_member outer_memory m' sub (outer_ex ! 0) 4096 12288" unfolding e(1,2) by blast
    then show ?thesis using e(3-5,7) by (simp add: same_member_def items_def same_value_def ltype_defs)
  qed
  ultimately show ?thesis using m'(1-3) d(1) by auto
qed

text \<open>
  The condition on strings is needed: a string that fills its member, without a terminator, is encoded,
  but its encoding is not accepted for the same message type.
\<close>

lemma unterminated_string_refused:
  "message_out 1 (outer_env\<lparr>memory := \<lambda>a. 0x61\<rparr>) no_user inner_ex 4096 = Some ([10, 4, 0x61, 0x61, 0x61, 0x61], None)"
  "case pb_decode 1 denv_ex inner_ex 12288 (\<lambda>a. 9, pb_istream_from_buffer [10, 4, 0x61, 0x61, 0x61, 0x61] 6) of
     Some (ok, m', s') \<Rightarrow> \<not> ok \<and> ierrmsg s' = Some ''string overflow''
   | None \<Rightarrow> False"
  by code_simp+

end
