(* ===== verification/Spec2Isabelle.thy ===== *)
theory Spec2Isabelle
  imports Unicode Ber_Tree Base64 Buf Lhash Sha256 Sha1 Md5 Md4 Pb_Termination Pb_Roundtrip
begin

text \<open>
  Verification of the serialisation, container and digest code of the apps' native dependencies.

  \<^bold>\<open>The program.\<close> The repository holds a series of iOS tutorial apps. The apps are Swift; the one with
  accounts, \<^verbatim>\<open>DeleteUserDataFirebase\<close>, brings its dependencies along under \<^verbatim>\<open>Pods/\<close>, and all C code of
  the repository is there. This development covers the C code on which the others of these
  dependencies rest: BoringSSL's byte strings, memory, containers and digests
  (\<^verbatim>\<open>BoringSSL-GRPC/src/crypto\<close>), which its ASN.1, key and certificate code calls, and nanopb
  (\<^verbatim>\<open>nanopb\<close>), with which Firebase reads and writes its records. Paths below are relative to these.

  \<^bold>\<open>Components, theories, correspondence.\<close> Definitions have the names of the C functions; loops and
  helpers are named after their function.
  \<^item> \<^verbatim>\<open>Prelude\<close>: machine types, \<open>size_t\<close> arithmetic (natural numbers, wrapped by \<open>size_wrap\<close> where the
    C expression can wrap), big- and little-endian byte strings, writes into buffers.
  \<^item> \<^verbatim>\<open>Mem\<close> (\<^verbatim>\<open>mem.c\<close>): the allocator with its size prefix, wiping, constant-time comparison, strings. The
    C library's \<open>malloc\<close> is a parameter; \<open>malloc_spec\<close> says that a block has the requested size.
  \<^item> \<^verbatim>\<open>Der\<close>: the distinguished encoding as functions from values to bytes, the specification of the readers
    and writers. \<^verbatim>\<open>Cbs\<close> (\<^verbatim>\<open>bytestring/cbs.c\<close>): readers, from a byte string to an optional value and the
    rest. \<^verbatim>\<open>Cbb\<close> (\<^verbatim>\<open>bytestring/cbb.c\<close>): builders over a shared buffer with back-patched prefixes.
    \<^verbatim>\<open>Cbb_Refine\<close>: the abstract builder, a stack of frames, and the refinement of every operation.
    \<^verbatim>\<open>Cbb_Asn1\<close>: integers, octet strings, booleans, SET OF, \<^verbatim>\<open>asn1_compat.c\<close>. \<^verbatim>\<open>Oid\<close>: object identifiers and
    their text. \<^verbatim>\<open>Cbb_Run\<close>: whole sessions of builder calls. \<^verbatim>\<open>Unicode\<close> (\<^verbatim>\<open>unicode.c\<close>): code points.
    \<^verbatim>\<open>Ber\<close>, \<^verbatim>\<open>Ber_Tree\<close> (\<^verbatim>\<open>ber.c\<close>): the search for BER and its conversion, against trees of elements and
    their DER encoding \<open>ber_der\<close>; \<open>ber_seen\<close> is what the search sees, and \<open>ber_join\<close> what the conversion writes,
    which differs from \<open>ber_der\<close> on a BIT STRING in fragments only.
  \<^item> \<^verbatim>\<open>Base64\<close> (\<^verbatim>\<open>base64/base64.c\<close> and the constant-time helpers of \<^verbatim>\<open>internal.h\<close>), \<^verbatim>\<open>Buf\<close> (\<^verbatim>\<open>buf/buf.c\<close>),
    \<^verbatim>\<open>Stack\<close> (\<^verbatim>\<open>stack/stack.c\<close>: arrays of pointers in blocks of memory; \<open>qsort\<close> and the element
    functions are parameters), \<^verbatim>\<open>Lhash\<close> (\<^verbatim>\<open>lhash/lhash.c\<close>: a chain is the list of its items).
  \<^item> \<^verbatim>\<open>Md32\<close> (\<^verbatim>\<open>fipsmodule/digest/md32_common.h\<close>): the collector of the message digests, for a block function with
    the contract \<open>block_function\<close>. \<^verbatim>\<open>Rounds\<close>: what the unrolled block functions share. \<^verbatim>\<open>Sha256\<close>, \<^verbatim>\<open>Sha1\<close>
    (\<^verbatim>\<open>fipsmodule/sha\<close>), \<^verbatim>\<open>Md5\<close>, \<^verbatim>\<open>Md4\<close>: each with the definition of its standard and the equivalence.
  \<^item> \<^verbatim>\<open>Pb_Common\<close> (\<^verbatim>\<open>pb.h\<close>, \<^verbatim>\<open>pb_common.c\<close>), \<^verbatim>\<open>Pb_Encode\<close> (\<^verbatim>\<open>pb_encode.c\<close>), \<^verbatim>\<open>Pb_Decode\<close> (\<^verbatim>\<open>pb_decode.c\<close>): descriptors
    and the field iterator, streams on buffers and on callbacks, the coders of all field types.
    \<^verbatim>\<open>Pb_Message\<close> (\<^verbatim>\<open>pb_encode.c\<close>): the encoder of messages in memory, with arrays, submessages, callbacks and
    extensions, and a description of the encoded bytes. \<^verbatim>\<open>Pb_Termination\<close>: when it returns. \<^verbatim>\<open>Pb_Wire\<close>: the
    fields of a message, and how the decoders read them back. \<^verbatim>\<open>Pb_Message_Decode\<close> (\<^verbatim>\<open>pb_decode.c\<close>): the decoder of
    messages into memory, default values and release. \<^verbatim>\<open>Pb_Decode_Safe\<close>, \<^verbatim>\<open>Pb_Decode_Within\<close>: it returns and
    stays inside the stream and the structure, for structures of static members. \<^verbatim>\<open>Pb_Contents\<close>: when two
    structures have the same contents. \<^verbatim>\<open>Pb_Members\<close> (values and members), \<^verbatim>\<open>Pb_Steps\<close> (the main loop),
    \<^verbatim>\<open>Pb_Fields\<close> (all that is written for a field), \<^verbatim>\<open>Pb_Roundtrip\<close>: what \<open>pb_encode\<close> writes for a structure,
    \<open>pb_decode\<close> reads back into one with the same contents.

  \<^bold>\<open>How the parts interact.\<close> Builders, buffers, stacks and hash tables allocate through \<^verbatim>\<open>Mem\<close>; the BER
  converter and the identifier printer read with \<^verbatim>\<open>Cbs\<close> and write with \<^verbatim>\<open>Cbb\<close>, and their proofs compose the
  contracts of the two (the locales \<open>codec\<close> and \<open>codec_writer\<close>, interpreted for every value type);
  \<open>sink\<close> is the contract of an append-only buffer (\<open>live_sink\<close>: of one that accepts while memory lasts),
  \<open>comparator\<close> that of the comparison functions of sorted stacks, which the order of SET OF elements meets
  (below), \<open>table\<close> that of a table of pointers up to an equality, and \<open>block_function\<close> that of the compression
  of whole blocks, which the four digests meet.

  \<^bold>\<open>What the lemmas show.\<close> Readers accept exactly the canonical encodings and return their values (\<open>_iff\<close>
  lemmas); builders implement the frame specification (\<open>implements\<close>: what a successful call writes,
  that it succeeds when memory lasts, that errors stick); containers keep their invariants
  (\<open>sk_inv\<close>, \<open>lh_inv\<close>, \<open>buf_inv\<close>) and return what a list or a set returns (\<open>_law\<close> lemmas); nanopb
  encoders emit the wire format on counting streams and on buffers (\<open>emits\<close>, \<open>yields\<close>, \<open>meets\<close>) and decoders
  consume it (\<open>reading\<close>). An encoder is described by an outcome, its bytes and the error that ends them; a counting
  stream adds up the bytes, a buffer receives as many as fit. A decoder step is described by where it may
  write and that it does not read beyond its stream (\<open>stays\<close>, \<open>keeps\<close>), and in the round trip by the bytes it
  takes and what it establishes in memory (\<open>takes\<close>, \<open>consumes\<close>).
  The theorems marked C1, C2, and so on state the properties of whole components.

  \<^bold>\<open>Bounds and fuel.\<close> \<open>size_t\<close> is 64 bits, \<open>int\<close> 32, \<open>uint_fast8_t\<close> 8. Objects in memory have at most
  \<open>PTRDIFF_MAX\<close> bytes. Loops are structural or have a measure; \<open>cbs_convert_ber\<close>, whose recursion follows the
  input, has a fuel of the input length and a totality lemma (\<open>cbs_convert_ber_total\<close>); the search of the field
  iterator has a fuel of the number of descriptors and always ends within it. \<open>pb_encode\<close> has a fuel for the
  nesting of messages, as structures may point to themselves; for messages nested finitely deep
  (\<open>message_fits\<close>) it is enough, and more of it changes nothing. \<open>pb_decode\<close> has a fuel for the nesting of message
  types, one more than their depth; its loops have as much fuel as there are bytes left, since every
  round takes a byte.

  \<^bold>\<open>Not modelled.\<close> The Swift, Objective-C and C++ code (apps, Firebase SDKs, gRPC, abseil, leveldb, the TLS
  stack); the other cryptographic arithmetic and the certificate code of BoringSSL; generated tables; code that only
  calls the operating system. In nanopb memory is a total function from addresses to bytes, so that
  reads outside of objects are not a subject, where writes are (\<open>same_outside\<close>); the functions of the user have no
  state beyond the memory and the stream, and streams are values, so that what a failing function of the user
  did to its stream or stored is not seen by the failing calls around it, which read no more; the decoder of
  pointer members, callbacks and extensions is modelled, but the theorems on containment and on the round trip
  are about static members, the latter without unions and arrays of fixed size; output streams with a callback
  of the user are modelled, but the theorems on the encoder are about counting streams and buffers. Of
  \<^verbatim>\<open>lhash.c\<close>, callbacks of an iteration that change the table they iterate over. Of \<^verbatim>\<open>mem.c\<close>,
  \<open>BIO_snprintf\<close> and \<open>BIO_vsnprintf\<close>, which call the C library. Assertions and error queues have no effect on the
  results and are left out.
\<close>

section \<open>Interfaces across components\<close>

lemma compare_swap: "compare_set_of_element a b < 0 \<longleftrightarrow> 0 < compare_set_of_element b a"
proof (induction a b rule: bytes_le.induct)
  case (1 b)
  then show ?case by (cases b) (simp_all add: compare_set_of_element_simps)
next
  case (3 x a y b)
  then show ?case by (auto simp: compare_set_of_element_simps simp del: of_nat_unat)
qed (simp_all add: compare_set_of_element_simps)

text \<open>The order of SET OF elements is a comparison function that the bisection of \<open>sk_find\<close> works with.\<close>

interpretation set_of_order: comparator compare_set_of_element
proof
  show "compare_set_of_element a b < 0 \<longleftrightarrow> 0 < compare_set_of_element b a" for a b by (rule compare_swap)
  show "compare_set_of_element a c \<le> 0" if "compare_set_of_element a b \<le> 0" "compare_set_of_element b c \<le> 0" for a b c
    using that bytes_le_trans by (simp only: compare_le_iff)
qed

section \<open>Digests\<close>

text \<open>
  C11. The older message digests are computed as their standards define them, in whatever pieces the message is
  given: SHA-1 as in FIPS 180-4, MD5 as in RFC 1321, MD4 as in RFC 1320. The rounds of the code rotate registers
  instead of moving words and use other forms of the round functions; the collector of input is the one of
  SHA-256, in both byte orders.
\<close>

theorem older_digests_standard:
  assumes "list_all (\<lambda>d. length d < 2 ^ 64) pieces"
  shows "fst (SHA1_Final (foldl SHA1_Update SHA1_Init pieces)) =
       Some (fips_sha1 [0x67452301, 0xefcdab89, 0x98badcfe, 0x10325476, 0xc3d2e1f0] (concat pieces)) \<and>
     fst (MD5_Final (foldl MD5_Update MD5_Init pieces)) =
       Some (rfc_md5 [0x67452301, 0xefcdab89, 0x98badcfe, 0x10325476] (concat pieces)) \<and>
     fst (MD4_Final (foldl MD4_Update MD4_Init pieces)) =
       Some (rfc_md4 [0x67452301, 0xefcdab89, 0x98badcfe, 0x10325476] (concat pieces))"
  using sha1_digest [OF assms] md5_digest [OF assms] md4_digest [OF assms]
  by (simp add: SHA1_Init_def MD5_Init_def MD4_Init_def zero_ctx_def)

theorem older_digests_standard_witness:
  "fst (SHA1_Final (SHA1_Update (SHA1_Update SHA1_Init [0x61]) (replicate 100 0x62))) = SHA1 (0x61 # replicate 100 0x62) \<and>
   fst (MD5_Final (MD5_Update (MD5_Update MD5_Init [0x61]) (replicate 100 0x62))) = MD5 (0x61 # replicate 100 0x62) \<and>
   fst (MD4_Final (MD4_Update (MD4_Update MD4_Init [0x61]) (replicate 100 0x62))) = MD4 (0x61 # replicate 100 0x62)"
  using older_digests_standard [of "[[0x61], replicate 100 0x62]"] older_digests_standard [of "[0x61 # replicate 100 0x62]"]
  by (simp add: SHA1_def MD5_def MD4_def)

end
